(* ===== verification/Prelude.thy ===== *)
theory Prelude imports Main "HOL-Library.Word" "HOL-Library.Multiset" "HOL-Library.Sublist" begin

text \<open>
  What every component of the development shares: the widths of Rust's integers, its checked,
  saturating and rounding arithmetic on them, little-endian reads out of a byte slice,
  \<open>Iterator::position\<close> and \<open>slice::copy_within\<close> on lists, and the theorem collections the
  component proofs add to the simplifier.
\<close>

unbundle bit_operations_syntax

named_theorems arith_defs \<open>definitions of the integer operations, for closed evaluation\<close>

section \<open>Integer widths\<close>

type_synonym u8 = "8 word"
type_synonym u16 = "16 word"
type_synonym u32 = "32 word"
type_synonym u64 = "64 word"

section \<open>Checked and saturating arithmetic\<close>

text \<open>\<open>checked_add\<close>, \<open>checked_mul\<close>, \<open>saturating_add\<close> and \<open>saturating_mul\<close> of the standard
  library, at any width.\<close>

definition checked_add :: "'a::len word \<Rightarrow> 'a word \<Rightarrow> 'a word option" where
  "checked_add a b = (if unat a + unat b < 2 ^ LENGTH('a) then Some (a + b) else None)"

definition checked_mul :: "'a::len word \<Rightarrow> 'a word \<Rightarrow> 'a word option" where
  "checked_mul a b = (if unat a * unat b < 2 ^ LENGTH('a) then Some (a * b) else None)"

definition saturating_add :: "'a::len word \<Rightarrow> 'a word \<Rightarrow> 'a word" where
  "saturating_add a b = (if unat a + unat b < 2 ^ LENGTH('a) then a + b else - 1)"

definition saturating_mul :: "'a::len word \<Rightarrow> 'a word \<Rightarrow> 'a word" where
  "saturating_mul a b = (if unat a * unat b < 2 ^ LENGTH('a) then a * b else - 1)"

text \<open>\<open>is_multiple_of\<close> answers for a zero divisor too: only zero is a multiple of it.\<close>

definition is_multiple_of :: "'a::len word \<Rightarrow> 'a word \<Rightarrow> bool" where
  "is_multiple_of a b = (if b = 0 then a = 0 else a mod b = 0)"

definition checked_next_multiple_of :: "'a::len word \<Rightarrow> 'a word \<Rightarrow> 'a word option" where
  "checked_next_multiple_of a b =
     (if b = 0 then None
      else if a mod b = 0 then Some a
      else checked_add a (b - a mod b))"

declare checked_add_def [arith_defs] checked_mul_def [arith_defs]
  saturating_add_def [arith_defs] saturating_mul_def [arith_defs]
  is_multiple_of_def [arith_defs] checked_next_multiple_of_def [arith_defs]

lemma unat_word_of_nat_small: "n < 2 ^ LENGTH('a) \<Longrightarrow> unat (word_of_nat n :: 'a::len word) = n"
  by (simp add: unsigned_of_nat take_bit_nat_eq_self)

lemma unat_add_exact: "unat a + unat b < 2 ^ LENGTH('a) \<Longrightarrow> unat (a + b) = unat a + unat b"
  for a b :: "'a::len word"
  by (simp add: unat_word_ariths)

lemma unat_mul_exact: "unat a * unat b < 2 ^ LENGTH('a) \<Longrightarrow> unat (a * b) = unat a * unat b"
  for a b :: "'a::len word"
  by (simp add: unat_word_ariths)

lemma unat_less_width [simp]: "unat (a :: 'a::len word) < 2 ^ LENGTH('a)"
  by (rule unsigned_less)

lemma checked_add_Some: "checked_add a b = Some c \<longleftrightarrow>
    unat a + unat b < 2 ^ LENGTH('a) \<and> c = a + b" for a b :: "'a::len word"
  by (auto simp: checked_add_def)

lemma checked_add_unat: "checked_add a b = Some c \<Longrightarrow> unat c = unat a + unat b"
  by (auto simp: checked_add_def unat_add_exact split: if_splits)

lemma checked_mul_unat: "checked_mul a b = Some c \<Longrightarrow> unat c = unat a * unat b"
  by (auto simp: checked_mul_def unat_mul_exact split: if_splits)

lemma unat_minus_one_width: "unat (- 1 :: 'a::len word) = 2 ^ LENGTH('a) - 1"
  by (simp add: unsigned_minus_1_eq_mask mask_eq_exp_minus_1)

lemma min_width: "\<not> m < (2::nat) ^ n \<Longrightarrow> min m (2 ^ n - 1) = 2 ^ n - 1"
  by (rule min.absorb2) linarith

lemma min_width_below: "m < (2::nat) ^ n \<Longrightarrow> min m (2 ^ n - 1) = m"
  by (rule min.absorb1) linarith

lemma unat_saturating_add:
  "unat (saturating_add a b) = min (unat a + unat b) (2 ^ LENGTH('a) - 1)"
  for a b :: "'a::len word"
  by (cases "unat a + unat b < 2 ^ LENGTH('a)")
    (simp_all only: saturating_add_def if_True if_False unat_add_exact unat_minus_one_width
      min_width min_width_below not_False_eq_True)

lemma unat_saturating_mul:
  "unat (saturating_mul a b) = min (unat a * unat b) (2 ^ LENGTH('a) - 1)"
  for a b :: "'a::len word"
  by (cases "unat a * unat b < 2 ^ LENGTH('a)")
    (simp_all only: saturating_mul_def if_True if_False unat_mul_exact unat_minus_one_width
      min_width min_width_below not_False_eq_True)

lemma is_multiple_of_dvd: "is_multiple_of a b \<longleftrightarrow> unat b dvd unat a"
  for a b :: "'a::len word"
proof (cases "b = 0")
  case True
  then show ?thesis by (simp add: is_multiple_of_def unat_eq_0)
next
  case False
  have "a mod b = 0 \<longleftrightarrow> unat a mod unat b = 0"
    by (metis unat_eq_zero unat_mod_distrib)
  with False show ?thesis
    by (simp add: is_multiple_of_def mod_eq_0_iff_dvd)
qed

lemma checked_next_multiple_of_Some:
  assumes "checked_next_multiple_of a b = Some c"
  shows "unat b dvd unat c" and "unat a \<le> unat c" and "unat c < unat a + unat b"
proof -
  from assms have b0: "b \<noteq> 0" by (auto simp: checked_next_multiple_of_def split: if_splits)
  then have pb: "0 < unat b" by (simp add: unat_gt_0)
  have m: "unat (a mod b) = unat a mod unat b" by (simp add: unat_mod_distrib)
  have le: "unat (b - a mod b) = unat b - unat a mod unat b"
    by (metis m mod_less_divisor nat_less_le pb unat_sub_if')
  have "unat b dvd unat c \<and> unat a \<le> unat c \<and> unat c < unat a + unat b"
  proof (cases "a mod b = 0")
    case True
    with assms b0 have "c = a" by (simp add: checked_next_multiple_of_def)
    moreover have "unat a mod unat b = 0" using True m by (metis unat_0)
    ultimately show ?thesis using pb by (simp add: mod_eq_0_iff_dvd)
  next
    case False
    with assms b0 have "checked_add a (b - a mod b) = Some c"
      by (simp add: checked_next_multiple_of_def)
    then have c: "unat c = unat a + (unat b - unat a mod unat b)"
      by (simp add: checked_add_unat le)
    have nz: "unat a mod unat b \<noteq> 0" using False m by (metis unat_eq_zero)
    have lt: "unat a mod unat b < unat b" using pb by simp
    have "unat a = unat b * (unat a div unat b) + unat a mod unat b" by simp
    then have "unat c = unat b * (unat a div unat b) + unat b"
      using c lt by linarith
    then have "unat b dvd unat c" by simp
    then show ?thesis using c nz lt by linarith
  qed
  then show "unat b dvd unat c" and "unat a \<le> unat c" and "unat c < unat a + unat b"
    by auto
qed

lemma bit_u64: "bit a n \<Longrightarrow> n < 64" for a :: u64
  using bit_imp_le_length [of a n] by simp

lemma u64_eqI: "(\<And>n. n < 64 \<Longrightarrow> bit a n = bit b n) \<Longrightarrow> a = b" for a b :: u64
  by (rule bit_word_eqI) simp

lemma bit_two_power: "bit (2 ^ k :: u64) n \<longleftrightarrow> n = k \<and> k < 64"
  using bit_u64 [of "2 ^ k" n] by (auto simp: bit_exp_iff)

lemma unat_take_bit: "unat (take_bit k a) = unat a mod 2 ^ k" for a :: u64
  by (subst unsigned_take_bit_eq) (rule take_bit_eq_mod)

lemma below_bits: "unat a < 2 ^ m \<longleftrightarrow> (\<forall>n \<ge> m. \<not> bit a n)" for a :: u64
proof
  assume a: "unat a < 2 ^ m"
  have "take_bit m a = a"
    by (rule unsigned_word_eqI, subst unat_take_bit) (simp add: a)
  then have "bit a n \<Longrightarrow> n < m" for n
    using bit_take_bit_iff [of m a n] by simp
  then show "\<forall>n \<ge> m. \<not> bit a n" by (auto simp: not_less [symmetric])
next
  assume a: "\<forall>n \<ge> m. \<not> bit a n"
  have "take_bit m a = a"
    by (rule u64_eqI) (use a in \<open>auto simp: bit_take_bit_iff not_less [symmetric]\<close>)
  then have "unat a = unat a mod 2 ^ m" using unat_take_bit [of m a] by simp
  then show "unat a < 2 ^ m" by (metis mod_less_divisor zero_less_numeral zero_less_power)
qed

lemma aligned_bits: "2 ^ k dvd unat a \<longleftrightarrow> (\<forall>n < k. \<not> bit a n)" for a :: u64
proof -
  have "2 ^ k dvd unat a \<longleftrightarrow> unat (take_bit k a) = 0"
    by (subst unat_take_bit) (simp add: dvd_eq_mod_eq_0)
  also have "\<dots> \<longleftrightarrow> take_bit k a = 0"
    by (simp only: unat_eq_zero)
  also have "\<dots> \<longleftrightarrow> (\<forall>n < k. \<not> bit a n)"
  proof
    assume t: "take_bit k a = 0"
    show "\<forall>n < k. \<not> bit a n"
      using bit_take_bit_iff [of k a] unfolding t by auto
  next
    assume "\<forall>n < k. \<not> bit a n"
    then show "take_bit k a = 0" by (intro u64_eqI) (simp add: bit_take_bit_iff)
  qed
  finally show ?thesis .
qed

section \<open>Slices\<close>

text \<open>\<open>Iterator::position\<close>: the index of the first element that satisfies the predicate.\<close>

fun position :: "('a \<Rightarrow> bool) \<Rightarrow> 'a list \<Rightarrow> nat option" where
  "position P [] = None"
| "position P (x # xs) = (if P x then Some 0 else map_option Suc (position P xs))"

lemma position_None: "position P xs = None \<longleftrightarrow> (\<forall>x \<in> set xs. \<not> P x)"
  by (induction xs) auto

lemma position_Some: "position P xs = Some i \<longleftrightarrow>
    i < length xs \<and> P (xs ! i) \<and> (\<forall>j < i. \<not> P (xs ! j))"
proof (induction xs arbitrary: i)
  case Nil
  then show ?case by simp
next
  case (Cons x xs)
  show ?case
  proof (cases "P x")
    case True
    then show ?thesis by (cases i) auto
  next
    case False
    then show ?thesis using Cons.IH by (cases i) (auto simp: less_Suc_eq_0_disj)
  qed
qed

lemma position_SomeD:
  assumes "position P xs = Some i"
  shows "i < length xs" and "P (xs ! i)" and "\<And>j. j < i \<Longrightarrow> \<not> P (xs ! j)"
  using assms by (auto simp: position_Some)

lemma find_Some_set: "List.find P xs = Some x \<Longrightarrow> x \<in> set xs \<and> P x"
  by (induction xs) (auto split: if_splits)

lemma find_None_set: "List.find P xs = None \<Longrightarrow> x \<in> set xs \<Longrightarrow> \<not> P x"
  by (induction xs) (auto split: if_splits)

text \<open>How a count over a list changes when one element is replaced.\<close>

lemma tally_update: "i < length xs \<Longrightarrow>
    length (filter P (xs[i := y])) + of_bool (P (xs ! i)) = length (filter P xs) + of_bool (P y)"
proof (induction xs arbitrary: i)
  case (Cons x xs)
  then show ?case by (cases i) auto
qed simp

lemma sum_list_update_nat: "i < length xs \<Longrightarrow>
    (\<Sum>x \<leftarrow> xs[i := y]. f x) + f (xs ! i) = (\<Sum>x \<leftarrow> xs. f x) + (f y :: nat)"
proof (induction xs arbitrary: i)
  case (Cons x xs)
  then show ?case by (cases i) auto
qed simp

text \<open>\<open>xs.copy_within(s..e, d)\<close>: the elements \<open>s..e\<close> are written again from index \<open>d\<close> on; the
  code only calls it with \<open>s \<le> e\<close> and the destination inside the array.\<close>

definition copy_within :: "nat \<Rightarrow> nat \<Rightarrow> nat \<Rightarrow> 'a list \<Rightarrow> 'a list" where
  "copy_within s e d xs =
     take d xs @ take (e - s) (drop s xs) @ drop (d + (e - s)) xs"

lemma length_copy_within:
  "s \<le> e \<Longrightarrow> e \<le> length xs \<Longrightarrow> d \<le> s \<Longrightarrow> length (copy_within s e d xs) = length xs"
  by (simp add: copy_within_def)

lemma take_copy_within:
  assumes "d < n" "n \<le> length xs"
  shows "take (n - 1) (copy_within (Suc d) n d xs) = take d xs @ drop (Suc d) (take n xs)"
proof -
  let ?l = "take d xs @ drop (Suc d) (take n xs)"
  have "length ?l = n - 1" using assms by simp
  moreover have "copy_within (Suc d) n d xs = ?l @ drop (n - 1) xs"
    using assms by (simp add: copy_within_def drop_take)
  ultimately show ?thesis by (metis append_eq_conv_conj)
qed

end
