(* ===== verification/Objects.thy ===== *)
theory Objects imports Prelude begin

text \<open>
  The kernel object table of \<open>crates/kernel/src/obj.rs\<close>: slots with a live object and a
  generation, references that carry the generation they were minted at, and revocation by bumping
  it. The heap's answer to \<open>try_reserve\<close> is an argument of \<open>create\<close>; the table's lock is taken and
  released inside each operation, so each operation is one step on the table.
\<close>

section \<open>The table\<close>

text \<open>\<open>ipc::NUM_ENDPOINTS\<close> and \<open>ipc::endpoint_exists\<close>, which \<open>create\<close> asks.\<close>

definition NUM_ENDPOINTS :: nat where
  "NUM_ENDPOINTS = 4"

definition endpoint_exists :: "nat \<Rightarrow> bool" where
  "endpoint_exists i \<longleftrightarrow> i < NUM_ENDPOINTS"

text \<open>An object is an endpoint, by its index in the endpoint table.\<close>

datatype object = EndpointObject nat

record object_ref =
  ref_index :: u32
  ref_generation :: u32

record slot =
  generation :: u32
  slot_object :: "object option"

type_synonym object_table = "slot list"

section \<open>Operations\<close>

definition create :: "bool \<Rightarrow> object \<Rightarrow> object_table \<Rightarrow> object_ref option \<times> object_table" where
  "create heap_ok obj slots =
     (case obj of EndpointObject i \<Rightarrow>
        if \<not> endpoint_exists i then (None, slots)
        else case position (\<lambda>s. slot_object s = None) slots of
          Some k \<Rightarrow>
            (Some \<lparr>ref_index = word_of_nat k, ref_generation = generation (slots ! k)\<rparr>,
             slots[k := (slots ! k)\<lparr>slot_object := Some obj\<rparr>])
        | None \<Rightarrow>
            if \<not> heap_ok then (None, slots)
            else (Some \<lparr>ref_index = word_of_nat (length slots), ref_generation = 0\<rparr>,
                  slots @ [\<lparr>generation = 0, slot_object = Some obj\<rparr>]))"

definition get :: "object_ref \<Rightarrow> object_table \<Rightarrow> object option" where
  "get r slots =
     (let k = unat (ref_index r) in
      if k < length slots \<and> generation (slots ! k) = ref_generation r
      then slot_object (slots ! k) else None)"

definition revoke :: "object_ref \<Rightarrow> object_table \<Rightarrow> bool \<times> object_table" where
  "revoke r slots =
     (let k = unat (ref_index r) in
      if \<not> k < length slots then (False, slots)
      else if generation (slots ! k) = ref_generation r \<and> slot_object (slots ! k) \<noteq> None
      then (True, slots[k := \<lparr>generation = generation (slots ! k) + 1, slot_object = None\<rparr>])
      else (False, slots))"

definition census :: "object_table \<Rightarrow> nat \<times> nat" where
  "census slots = (length slots, length (filter (\<lambda>s. slot_object s \<noteq> None) slots))"

text \<open>Any sequence of operations on the table, whichever task asks for them.\<close>

datatype object_op = OpCreate bool object | OpRevoke object_ref

fun object_step :: "object_op \<Rightarrow> object_table \<Rightarrow> object_table" where
  "object_step (OpCreate heap_ok obj) slots = snd (create heap_ok obj slots)"
| "object_step (OpRevoke r) slots = snd (revoke r slots)"

definition object_run :: "object_op list \<Rightarrow> object_table \<Rightarrow> object_table" where
  "object_run ops slots = fold object_step ops slots"

section \<open>A tag that moves by at most one per step\<close>

text \<open>
  What makes a generation safe to compare: a step leaves the tag alone or adds one to it, so a
  tag that has moved once cannot be back at its old value before the word has wrapped round.
\<close>

locale stepping_tag =
  fixes tag :: "'s \<Rightarrow> 'a::len word"
    and step :: "'op \<Rightarrow> 's \<Rightarrow> 's"
  assumes step_tag: "tag (step x s) = tag s \<or> tag (step x s) = tag s + 1"
begin

lemma run_tag: "\<exists>k \<le> length xs. tag (fold step xs s) = tag s + word_of_nat k"
proof (induction xs arbitrary: s)
  case Nil
  then show ?case by simp
next
  case (Cons x xs)
  from Cons.IH [of "step x s"] obtain k
    where k: "k \<le> length xs" "tag (fold step xs (step x s)) = tag (step x s) + word_of_nat k"
    by blast
  from step_tag [of x s] show ?case
  proof
    assume "tag (step x s) = tag s"
    with k show ?thesis by (intro exI [of _ k]) simp
  next
    assume "tag (step x s) = tag s + 1"
    with k show ?thesis by (intro exI [of _ "Suc k"]) simp
  qed
qed

lemma run_tag_differs:
  assumes "tag s = g + 1" "length xs < 2 ^ LENGTH('a) - 1"
  shows "tag (fold step xs s) \<noteq> g"
proof
  assume eq: "tag (fold step xs s) = g"
  obtain k where k: "k \<le> length xs" "tag (fold step xs s) = tag s + word_of_nat k"
    using run_tag by blast
  with eq assms(1) have "(word_of_nat (Suc k) :: 'a word) = 0"
    by (simp add: add.assoc [symmetric])
  then have "2 ^ LENGTH('a) dvd Suc k" by (simp only: word_of_nat_eq_0_iff)
  then have "2 ^ LENGTH('a) \<le> Suc k" by (rule dvd_imp_le) simp
  with k(1) assms(2) show False by linarith
qed

end

definition live_count :: "object_table \<Rightarrow> nat" where
  "live_count slots = snd (census slots)"

text \<open>\<open>n\<close> rounds of creating an object and revoking it again.\<close>

fun recycle :: "nat \<Rightarrow> object \<Rightarrow> object_table \<Rightarrow> object_table" where
  "recycle 0 obj slots = slots"
| "recycle (Suc n) obj slots =
     (case create True obj slots of
        (None, slots') \<Rightarrow> slots'
      | (Some r, slots') \<Rightarrow> recycle n obj (snd (revoke r slots')))"

section \<open>Lemmas\<close>

lemma object_ref_eq: "r' = r \<longleftrightarrow>
    unat (ref_index r') = unat (ref_index r) \<and> ref_generation r' = ref_generation r"
  for r r' :: object_ref
  by (cases r, cases r') (auto simp: unsigned_word_eqI)

lemma create_cases:
  obtains
    (refused) "create h obj slots = (None, slots)"
  | (reused) k where "k < length slots" "slot_object (slots ! k) = None"
      "create h obj slots =
         (Some \<lparr>ref_index = word_of_nat k, ref_generation = generation (slots ! k)\<rparr>,
          slots[k := (slots ! k)\<lparr>slot_object := Some obj\<rparr>])"
  | (grown) "h" "create h obj slots =
         (Some \<lparr>ref_index = word_of_nat (length slots), ref_generation = 0\<rparr>,
          slots @ [\<lparr>generation = 0, slot_object = Some obj\<rparr>])"
proof (cases obj)
  case (EndpointObject i)
  show thesis
  proof (cases "endpoint_exists i")
    case False
    with EndpointObject refused show thesis by (simp add: create_def)
  next
    case True
    show thesis
    proof (cases "position (\<lambda>s. slot_object s = None) slots")
      case None
      with EndpointObject True refused grown show thesis
        by (cases h) (simp_all add: create_def)
    next
      case (Some k)
      with EndpointObject True reused [OF position_SomeD(1,2) [OF Some]] show thesis
        by (simp add: create_def)
    qed
  qed
qed

lemma revoke_True:
  "revoke r slots = (True, slots') \<longleftrightarrow>
     get r slots \<noteq> None \<and>
     slots' = slots[unat (ref_index r) := \<lparr>generation = ref_generation r + 1, slot_object = None\<rparr>]"
  by (auto simp: revoke_def get_def Let_def)

lemma revoke_False: "revoke r slots = (False, slots') \<longleftrightarrow> get r slots = None \<and> slots' = slots"
  by (auto simp: revoke_def get_def Let_def)

lemma length_object_step: "length slots \<le> length (object_step x slots)"
proof (cases x)
  case (OpCreate h obj)
  then show ?thesis by (cases rule: create_cases [of h obj slots]) simp_all
next
  case (OpRevoke r)
  then show ?thesis by (simp add: revoke_def Let_def)
qed

definition slot_generation :: "nat \<Rightarrow> object_table \<Rightarrow> u32" where
  "slot_generation k slots = (if k < length slots then generation (slots ! k) else 0)"

lemma slot_generation_step:
  "slot_generation k (object_step x slots) = slot_generation k slots \<or>
   slot_generation k (object_step x slots) = slot_generation k slots + 1"
proof (cases x)
  case (OpCreate h obj)
  then show ?thesis
    by (cases rule: create_cases [of h obj slots])
      (auto simp: slot_generation_def nth_append nth_list_update)
next
  case (OpRevoke r)
  then show ?thesis
    by (auto simp: slot_generation_def revoke_def Let_def nth_list_update)
qed

interpretation slot_tag: stepping_tag "slot_generation k" object_step for k
  by unfold_locales (rule slot_generation_step)

lemma get_dead: "slot_generation (unat (ref_index r)) slots \<noteq> ref_generation r \<Longrightarrow> get r slots = None"
  by (auto simp: get_def slot_generation_def Let_def)

lemma recycle_one_slot:
  assumes "endpoint_exists i"
  shows "recycle n (EndpointObject i) [\<lparr>generation = g, slot_object = None\<rparr>] =
    [\<lparr>generation = g + word_of_nat n, slot_object = None\<rparr>]"
  using assms by (induction n arbitrary: g) (simp_all add: create_def revoke_def add.assoc)

lemma live_le_length: "live_count slots \<le> length slots"
  by (simp add: live_count_def census_def)

lemma live_full: "\<forall>s \<in> set slots. slot_object s \<noteq> None \<Longrightarrow> live_count slots = length slots"
  by (simp add: live_count_def census_def filter_True)

lemma length_step_live: "length (object_step x slots) = max (length slots) (live_count (object_step x slots))"
proof (cases x)
  case (OpCreate h obj)
  show ?thesis
  proof (cases rule: create_cases [of h obj slots])
    case grown
    then have "position (\<lambda>s. slot_object s = None) slots = None"
      by (auto simp: create_def dest!: position_SomeD(1) split: object.splits if_splits option.splits
          dest: arg_cong [where f = length])
    then have "live_count slots = length slots"
      by (intro live_full) (auto simp: position_None)
    with grown OpCreate show ?thesis by (simp add: live_count_def census_def)
  qed (use OpCreate live_le_length [of "object_step x slots"] in \<open>simp_all add: max_def\<close>)
next
  case (OpRevoke r)
  then have "length (object_step x slots) = length slots" by (simp add: revoke_def Let_def)
  with live_le_length [of "object_step x slots"] show ?thesis by simp
qed

section \<open>Properties\<close>

text \<open>Creating an object is a map update: when \<open>create\<close> mints a reference, that reference resolves
  to the new object and every other reference, live, stale or never minted, resolves to exactly what
  it resolved to before. In particular reusing a revoked slot does not revive an old reference.\<close>

theorem create_is_update:
  assumes "create h obj slots = (Some r, slots')" and "length slots < 2 ^ 32"
  shows "(\<lambda>r'. get r' slots') = (\<lambda>r'. get r' slots)(r \<mapsto> obj)"
proof
  fix r'
  have small: "n < 2 ^ 32 \<Longrightarrow> unat (word_of_nat n :: u32) = n" for n
    by (simp add: unat_word_of_nat_small)
  from assms(1) show "get r' slots' = ((\<lambda>r'. get r' slots)(r \<mapsto> obj)) r'"
  proof (cases rule: create_cases [of h obj slots])
    case refused
    with assms(1) show ?thesis by simp
  next
    case (reused k)
    with assms small [of k] have r: "unat (ref_index r) = k" "ref_generation r = generation (slots ! k)"
      and slots': "slots' = slots[k := (slots ! k)\<lparr>slot_object := Some obj\<rparr>]"
      by auto
    with reused(1,2) show ?thesis
      by (cases "unat (ref_index r') = k") (auto simp: object_ref_eq get_def Let_def)
  next
    case grown
    with assms small [of "length slots"]
    have r: "unat (ref_index r) = length slots" "ref_generation r = 0"
      and slots': "slots' = slots @ [\<lparr>generation = 0, slot_object = Some obj\<rparr>]"
      by auto
    then show ?thesis
      by (cases "unat (ref_index r') < length slots")
        (auto simp: object_ref_eq get_def Let_def nth_append)
  qed
qed

theorem create_is_update_witness:
  "get \<lparr>ref_index = 0, ref_generation = 5\<rparr>
     (snd (create False (EndpointObject 3) [\<lparr>generation = 5, slot_object = None\<rparr>]))
   = Some (EndpointObject 3)"
proof -
  have e: "create False (EndpointObject 3) [\<lparr>generation = 5, slot_object = None\<rparr>] =
      (Some \<lparr>ref_index = 0, ref_generation = 5\<rparr>,
       [\<lparr>generation = 5, slot_object = Some (EndpointObject 3)\<rparr>])"
    by (simp add: create_def endpoint_exists_def NUM_ENDPOINTS_def)
  from create_is_update [OF e, THEN fun_cong, of "\<lparr>ref_index = 0, ref_generation = 5\<rparr>"]
  show ?thesis by (simp add: e)
qed

text \<open>Revoking is a map deletion: it answers true exactly when the reference was live, afterwards
  that reference resolves to nothing, and no other reference changes. A second revoke of the same
  reference answers false and changes nothing.\<close>

theorem revoke_is_delete:
  "fst (revoke r slots) = (get r slots \<noteq> None)
   \<and> (\<lambda>r'. get r' (snd (revoke r slots))) = (\<lambda>r'. get r' slots)(r := None)
   \<and> revoke r (snd (revoke r slots)) = (False, snd (revoke r slots))"
proof -
  have del: "(\<lambda>r'. get r' (snd (revoke r slots))) = (\<lambda>r'. get r' slots)(r := None)"
    by (rule ext) (auto simp: object_ref_eq revoke_def get_def Let_def nth_list_update)
  then have "get r (snd (revoke r slots)) = None" by (metis fun_upd_same)
  then have "revoke r (snd (revoke r slots)) = (False, snd (revoke r slots))"
    by (simp add: revoke_False)
  with del show ?thesis by (auto simp: revoke_def get_def Let_def)
qed

text \<open>Revocation is permanent for every holder: once a live reference has been revoked, no sequence
  of fewer than 2^32 - 1 further creations and revocations, by anybody and of any objects, makes that
  reference resolve again, even when its slot is reused.\<close>

theorem revoked_stays_dead:
  assumes "revoke r slots = (True, slots')" and "length ops < 2 ^ 32 - 1"
  shows "get r (object_run ops slots') = None"
proof (rule get_dead)
  let ?k = "unat (ref_index r)"
  from assms(1) have "?k < length slots" "slots' = slots[?k := \<lparr>generation = ref_generation r + 1,
      slot_object = None\<rparr>]"
    by (auto simp: revoke_True get_def Let_def split: if_splits)
  then have "slot_generation ?k slots' = ref_generation r + 1"
    by (simp add: slot_generation_def)
  with assms(2) show "slot_generation ?k (object_run ops slots') \<noteq> ref_generation r"
    unfolding object_run_def by (intro slot_tag.run_tag_differs) simp_all
qed

theorem revoked_stays_dead_witness:
  "get \<lparr>ref_index = 0, ref_generation = 0\<rparr>
     (object_run [OpCreate True (EndpointObject 2)] [\<lparr>generation = 1, slot_object = None\<rparr>]) = None"
proof (rule revoked_stays_dead)
  show "revoke \<lparr>ref_index = 0, ref_generation = 0\<rparr>
      [\<lparr>generation = 0, slot_object = Some (EndpointObject 1)\<rparr>] =
      (True, [\<lparr>generation = 1, slot_object = None\<rparr>])"
    by (simp add: revoke_def)
qed simp

text \<open>The bound is tight, because the generation is 32 bits wide and wraps: after 2^32 rounds of
  creating an object in the slot and revoking it, a reference revoked before the first round resolves
  again, to an object it was never minted for.\<close>

theorem stale_reference_revived_by_wrap:
  "\<exists>r slots slots'. revoke r slots = (True, slots') \<and>
     get r (snd (create True (EndpointObject 1)
       (recycle (2 ^ 32 - 1) (EndpointObject 0) slots'))) = Some (EndpointObject 1)"
proof (intro exI conjI)
  let ?r = "\<lparr>ref_index = 0, ref_generation = 0\<rparr>"
  let ?t = "[\<lparr>generation = 0, slot_object = Some (EndpointObject 2)\<rparr>]"
  show "revoke ?r ?t = (True, [\<lparr>generation = 1, slot_object = None\<rparr>])" by (simp add: revoke_def)
  have "(1 :: u32) + word_of_nat (2 ^ 32 - 1) = word_of_nat (Suc (2 ^ 32 - 1))"
    by (simp only: of_nat_Suc)
  also have "\<dots> = 0" by (subst word_of_nat_eq_0_iff) simp
  finally have "recycle (2 ^ 32 - 1) (EndpointObject 0) [\<lparr>generation = 1, slot_object = None\<rparr>] =
      [\<lparr>generation = 0, slot_object = None\<rparr>]"
    by (subst recycle_one_slot) (simp_all add: endpoint_exists_def NUM_ENDPOINTS_def)
  then show "get ?r (snd (create True (EndpointObject 1) (recycle (2 ^ 32 - 1) (EndpointObject 0)
      [\<lparr>generation = 1, slot_object = None\<rparr>]))) = Some (EndpointObject 1)"
    by (simp add: create_def get_def endpoint_exists_def NUM_ENDPOINTS_def)
qed

text \<open>The table's size is the high-water mark of live objects: over any run from the empty table it
  is the largest number of objects that were ever live at once, so creating and destroying objects in
  a loop does not grow it.\<close>

theorem table_is_high_water_mark:
  "length (object_run ops []) =
     Max ((\<lambda>n. live_count (object_run (take n ops) [])) ` {..length ops})"
proof (induction ops rule: rev_induct)
  case Nil
  show ?case by (simp add: object_run_def live_count_def census_def)
next
  case (snoc x ops)
  let ?f = "\<lambda>xs n. live_count (object_run (take n xs) [])"
  have run: "object_run (ops @ [x]) [] = object_step x (object_run ops [])"
    by (simp add: object_run_def)
  have "?f (ops @ [x]) ` {..length (ops @ [x])} =
      insert (live_count (object_run (ops @ [x]) [])) (?f ops ` {..length ops})"
    by (auto simp: atMost_Suc image_iff)
  then have "Max (?f (ops @ [x]) ` {..length (ops @ [x])}) =
      max (live_count (object_run (ops @ [x]) [])) (Max (?f ops ` {..length ops}))"
    by simp
  then show ?case using snoc.IH length_step_live [of x "object_run ops []"]
    by (simp add: run max.commute)
qed

end
