(* ===== verification/Caps.thy ===== *)
theory Caps imports Objects begin

text \<open>
  Per-task capabilities, \<open>crates/kernel/src/cap.rs\<close>: a capability is a reference into the object
  table with the directions it permits, and a task's table is indexed by handle with the null handle
  0 reserved. The heap's answer to \<open>try_reserve\<close> is an argument.
\<close>

section \<open>Capabilities and tables\<close>

datatype cap = EndpointCap (cap_obj: object_ref) (cap_send: bool) (cap_recv: bool)

text \<open>\<open>Cap::object\<close>.\<close>

definition cap_object :: "cap \<Rightarrow> object_ref" where
  "cap_object c = (case c of EndpointCap r s v \<Rightarrow> r)"

type_synonym cap_table = "cap option list"

definition empty_caps :: "bool \<Rightarrow> cap_table option" where
  "empty_caps heap_ok = (if heap_ok then Some [None] else None)"

definition install :: "bool \<Rightarrow> cap_table \<Rightarrow> cap \<Rightarrow> u32 option \<times> cap_table" where
  "install heap_ok table c =
     (case position (\<lambda>e. e = None) (drop 1 table) of
        Some free \<Rightarrow> (Some (word_of_nat (free + 1)), table[free + 1 := Some c])
      | None \<Rightarrow>
          if \<not> heap_ok then (None, table)
          else (Some (word_of_nat (length (table @ [Some c]) - 1)), table @ [Some c]))"

definition resolve :: "cap_table \<Rightarrow> u32 \<Rightarrow> cap option" where
  "resolve table handle =
     (if handle = 0 then None
      else if unat handle < length table then table ! unat handle else None)"

text \<open>Seeding a table with a list of grants, as the spawning code does; \<open>None\<close> when one of them
  cannot be installed.\<close>

fun grant_all :: "cap list \<Rightarrow> cap_table \<Rightarrow> (u32 list \<times> cap_table) option" where
  "grant_all [] table = Some ([], table)"
| "grant_all (c # cs) table =
     (case install True table c of
        (None, table') \<Rightarrow> None
      | (Some h, table') \<Rightarrow> map_option (\<lambda>(hs, t). (h # hs, t)) (grant_all cs table'))"

text \<open>Index 0 is present and permanently empty, and handles fit 32 bits.\<close>

definition cap_table_wf :: "cap_table \<Rightarrow> bool" where
  "cap_table_wf table \<longleftrightarrow> table \<noteq> [] \<and> table ! 0 = None \<and> length table < 2 ^ 32"

section \<open>Lemmas\<close>

lemma install_cases:
  assumes "table \<noteq> []"
  obtains
    (gap) k where "0 < k" "k < length table" "table ! k = None"
      "\<forall>j. 0 < j \<longrightarrow> j < k \<longrightarrow> table ! j \<noteq> None"
      "install h table c = (Some (word_of_nat k), table[k := Some c])"
  | (refused) "\<not> h" "install h table c = (None, table)"
      "\<forall>j. 0 < j \<longrightarrow> j < length table \<longrightarrow> table ! j \<noteq> None"
  | (grown) "h" "install h table c = (Some (word_of_nat (length table)), table @ [Some c])"
      "\<forall>j. 0 < j \<longrightarrow> j < length table \<longrightarrow> table ! j \<noteq> None"
proof (cases "position (\<lambda>e. e = None) (drop 1 table)")
  case None
  have full: "\<forall>j. 0 < j \<longrightarrow> j < length table \<longrightarrow> table ! j \<noteq> None"
  proof (intro allI impI)
    fix j assume j: "0 < j" "j < length table"
    then have "table ! j = drop 1 table ! (j - 1)" by simp
    moreover have "drop 1 table ! (j - 1) \<in> set (drop 1 table)"
      using j by (intro nth_mem) simp
    ultimately show "table ! j \<noteq> None" using None by (simp add: position_None)
  qed
  with None refused grown show thesis by (cases h) (simp_all add: install_def)
next
  case (Some f)
  note p = position_SomeD [OF Some]
  show thesis
  proof (rule gap [of "f + 1"])
    show "\<forall>j. 0 < j \<longrightarrow> j < f + 1 \<longrightarrow> table ! j \<noteq> None"
    proof (intro allI impI)
      fix j assume "0 < j" "j < f + 1"
      with p(3) [of "j - 1"] p(1) show "table ! j \<noteq> None" by simp
    qed
  qed (use p(1,2) Some in \<open>simp_all add: install_def\<close>)
qed

lemma resolve_of_nat: "0 < k \<Longrightarrow> k < 2 ^ 32 \<Longrightarrow>
    resolve table (word_of_nat k) = (if k < length table then table ! k else None)"
  using word_of_nat_eq_0_iff [of k, where ?'a = 32] unat_word_of_nat_small [of k, where ?'a = 32]
  by (auto simp: resolve_def dest: dvd_imp_le)

lemma handle_eq: "k < 2 ^ 32 \<Longrightarrow> h = word_of_nat k \<longleftrightarrow> unat h = k" for h :: u32
  using unat_word_of_nat_small [of k, where ?'a = 32] by (auto simp: word_unat_eq_iff)

lemma resolve_alt: "cap_table_wf table \<Longrightarrow>
    resolve table h = (if unat h < length table then table ! unat h else None)"
  by (auto simp: resolve_def cap_table_wf_def)

lemma install_set: "install h table c = (r, table') \<Longrightarrow> Some d \<in> set table' \<Longrightarrow>
    d = c \<or> Some d \<in> set table"
  by (auto simp: install_def split: option.splits if_splits dest!: set_update_subset_insert [THEN subsetD])

lemma resolve_in_set: "resolve table h = Some c \<Longrightarrow> Some c \<in> set table"
  by (auto simp: resolve_def split: if_splits) (metis nth_mem)

lemma grant_all_append:
  assumes "\<forall>e \<in> set (drop 1 table). e \<noteq> None" "length table + length cs < 2 ^ 32" "table \<noteq> []"
  shows "grant_all cs table =
    Some (map word_of_nat [length table..<length table + length cs], table @ map Some cs)"
  using assms
proof (induction cs arbitrary: table)
  case Nil
  then show ?case by simp
next
  case (Cons c cs)
  have app: "drop 1 (table @ [Some c]) = drop 1 table @ [Some c]"
    using Cons.prems(3) by (cases table) simp_all
  from Cons.prems(1) have "position (\<lambda>e. e = None) (drop 1 table) = None"
    by (auto simp: position_None)
  then have i: "install True table c = (Some (word_of_nat (length table)), table @ [Some c])"
    by (simp add: install_def)
  have "grant_all cs (table @ [Some c]) =
      Some (map word_of_nat [length (table @ [Some c])..<length (table @ [Some c]) + length cs],
        (table @ [Some c]) @ map Some cs)"
    using Cons.prems by (intro Cons.IH) (auto simp only: app, auto)
  with i show ?case by (simp add: upt_conv_Cons del: upt_Suc)
qed

section \<open>Properties\<close>

text \<open>Installing a capability in a well-formed table is a map update at a handle that was free: the
  handle is never the null handle, it resolved to nothing before and resolves to the new capability
  afterwards, every other handle keeps its meaning, and the table stays well-formed.\<close>

theorem install_is_update:
  assumes "cap_table_wf table" "length table < 2 ^ 32 - 1" "install heap_ok table c = (Some h, table')"
  shows "h \<noteq> 0 \<and> resolve table h = None \<and> resolve table' = (resolve table)(h \<mapsto> c)
    \<and> cap_table_wf table'"
proof -
  from assms(1) have ne: "table \<noteq> []" and zero: "table ! 0 = None"
    by (simp_all add: cap_table_wf_def)
  have "\<exists>k. 0 < k \<and> k < 2 ^ 32 \<and> h = word_of_nat k \<and> (k < length table \<longrightarrow> table ! k = None)
      \<and> (table' = (if k < length table then table[k := Some c] else table @ [Some c]))
      \<and> k \<le> length table"
    using ne
  proof (cases rule: install_cases [of table heap_ok c])
    case (gap k)
    with assms show ?thesis by (intro exI [of _ k]) simp
  next
    case refused
    with assms show ?thesis by simp
  next
    case grown
    with assms ne show ?thesis by (intro exI [of _ "length table"]) simp
  qed
  then obtain k where k: "0 < k" "k < 2 ^ 32" "h = word_of_nat k" "k < length table \<longrightarrow> table ! k = None"
      "table' = (if k < length table then table[k := Some c] else table @ [Some c])" "k \<le> length table"
    by blast
  then have wf': "cap_table_wf table'"
    using assms(2) ne zero by (auto simp: cap_table_wf_def nth_append)
  moreover have uk: "unat h = k" using k(2,3) handle_eq [of k h] by simp
  then have "h \<noteq> 0" using k(1) by auto
  moreover have "resolve table h = None" using k(4) uk resolve_alt [OF assms(1)] by auto
  moreover have "resolve table' = (resolve table)(h \<mapsto> c)"
  proof
    fix h'
    have "h' = h \<longleftrightarrow> unat h' = k" using uk by (auto simp: word_unat_eq_iff)
    then show "resolve table' h' = ((resolve table)(h \<mapsto> c)) h'"
      unfolding fun_upd_def resolve_alt [OF wf'] resolve_alt [OF assms(1)]
      using k(4,5,6) by (cases "k < length table") (auto simp: nth_append nth_list_update)
  qed
  ultimately show ?thesis by blast
qed

theorem install_is_update_witness:
  "resolve [None, Some (EndpointCap \<lparr>ref_index = 0, ref_generation = 0\<rparr> True False)] 1
   = Some (EndpointCap \<lparr>ref_index = 0, ref_generation = 0\<rparr> True False)"
proof -
  let ?c = "EndpointCap \<lparr>ref_index = 0, ref_generation = 0\<rparr> True False"
  have "(1 :: u32) \<noteq> 0 \<and> resolve [None] 1 = None \<and>
      resolve [None, Some ?c] = (resolve [None])(1 \<mapsto> ?c) \<and> cap_table_wf [None, Some ?c]"
    by (rule install_is_update [of "[None]" True ?c]) (simp_all add: cap_table_wf_def install_def)
  then show ?thesis by simp
qed

text \<open>Handles are assigned bottom-up and reused: the handle \<open>install\<close> answers is the lowest one
  above the null handle that resolves to nothing, and installation fails, leaving the table as it
  was, only when no handle of the table is free and the heap is exhausted.\<close>

theorem install_lowest_handle:
  assumes "cap_table_wf table" "length table < 2 ^ 32 - 1"
  shows "case install heap_ok table c of
      (Some h, table') \<Rightarrow> \<forall>h'. 0 < h' \<longrightarrow> h' < h \<longrightarrow> resolve table h' \<noteq> None
    | (None, table') \<Rightarrow> table' = table \<and> \<not> heap_ok \<and>
        (\<forall>h'. 0 < unat h' \<longrightarrow> unat h' < length table \<longrightarrow> resolve table h' \<noteq> None)"
proof -
  from assms(1) have ne: "table \<noteq> []" by (simp add: cap_table_wf_def)
  have pos: "0 < unat h'" if "0 < h'" for h' :: u32 using that by (simp add: unat_gt_0 word_neq_0_conv)
  have below: "unat h' < k" if "h' < word_of_nat k" "k < 2 ^ 32" for h' :: u32 and k
    using that unat_word_of_nat_small [of k, where ?'a = 32] by (simp add: word_less_nat_alt)
  from ne show ?thesis
  proof (cases rule: install_cases [of table heap_ok c])
    case (gap k)
    then have "resolve table h' \<noteq> None" if "0 < h'" "h' < word_of_nat k" for h' :: u32
      using pos [OF that(1)] below [OF that(2)] assms by (simp add: resolve_alt)
    with gap show ?thesis by simp
  next
    case refused
    then show ?thesis using assms(1) by (simp add: resolve_alt)
  next
    case grown
    then have "resolve table h' \<noteq> None" if "0 < h'" "h' < word_of_nat (length table)" for h' :: u32
      using pos [OF that(1)] below [OF that(2)] assms by (simp add: resolve_alt)
    with grown show ?thesis by simp
  qed
qed

theorem install_lowest_handle_witness:
  "resolve [None, Some (EndpointCap \<lparr>ref_index = 7, ref_generation = 1\<rparr> False True), None] 1 \<noteq> None"
proof -
  let ?c = "EndpointCap \<lparr>ref_index = 7, ref_generation = 1\<rparr> False True"
  let ?t = "[None, Some ?c, None]"
  have "install False ?t ?c = (Some 2, [None, Some ?c, Some ?c])" by (simp add: install_def)
  moreover have "cap_table_wf ?t" by (simp add: cap_table_wf_def)
  ultimately have "\<forall>h'. 0 < h' \<longrightarrow> h' < 2 \<longrightarrow> resolve ?t h' \<noteq> None"
    using install_lowest_handle [of ?t False ?c] by simp
  then show ?thesis by simp
qed

text \<open>Granting \<open>n\<close> capabilities in order to an empty table yields the handles 1 to \<open>n\<close> in that
  order, each resolving to its own grant, and nothing else resolves.\<close>

theorem grants_in_order:
  assumes "length cs < 2 ^ 32 - 1" "empty_caps True = Some table"
  shows "grant_all cs table = Some (map word_of_nat [1..<length cs + 1], None # map Some cs)
    \<and> (\<forall>h. resolve (None # map Some cs) h =
          (if 0 < unat h \<and> unat h \<le> length cs then Some (cs ! (unat h - 1)) else None))"
proof -
  from assms(2) have "table = [None]" by (simp add: empty_caps_def)
  then have "grant_all cs table = Some (map word_of_nat [1..<length cs + 1], None # map Some cs)"
    using grant_all_append [of "[None]" cs] assms(1) by simp
  moreover have "resolve (None # map Some cs) h =
      (if 0 < unat h \<and> unat h \<le> length cs then Some (cs ! (unat h - 1)) else None)" for h
    by (cases "unat h") (auto simp: resolve_def unat_eq_zero less_Suc_eq_le)
  ultimately show ?thesis by blast
qed

theorem grants_in_order_witness:
  "grant_all [EndpointCap \<lparr>ref_index = 3, ref_generation = 0\<rparr> True False] [None] =
     Some ([1], [None, Some (EndpointCap \<lparr>ref_index = 3, ref_generation = 0\<rparr> True False)])"
  using grants_in_order [of "[EndpointCap \<lparr>ref_index = 3, ref_generation = 0\<rparr> True False]" "[None]"]
  by (simp add: empty_caps_def)

end
