(* ===== verification/Endpoint.thy ===== *)
theory Endpoint imports Caps begin

text \<open>
  The endpoint of \<open>crates/kernel/src/ipc.rs\<close>: a bounded message ring and two bounded wait queues
  laid out in fixed arrays, and the decisions \<open>send\<close> and \<open>recv\<close> take on it under the endpoint lock.
  The user-visible message (\<open>staros_ipc::Message\<close>, another repository) is a type parameter. The three
  queues are shown to be bounded FIFO queues, and an endpoint to implement an abstract channel of
  three lists.
\<close>

section \<open>State\<close>

text \<open>A message as the kernel carries it: the bytes and the resolved capability.\<close>

record 'm kmessage =
  km_msg :: 'm
  km_cap :: "cap option"

definition kmessage_empty :: "'m \<Rightarrow> 'm kmessage" where
  "kmessage_empty zero = \<lparr>km_msg = zero, km_cap = None\<rparr>"

definition RING_CAP :: nat where
  "RING_CAP = 2"

definition MAX_WAITERS :: nat where
  "MAX_WAITERS = 4"

record 'm endpoint =
  ring :: "'m kmessage list"
  head :: nat
  ring_len :: nat
  recv_waiters :: "nat list"
  n_recv :: nat
  send_waiters :: "(nat \<times> 'm kmessage) list"
  n_send :: nat

definition endpoint_new :: "'m \<Rightarrow> 'm endpoint" where
  "endpoint_new zero =
     \<lparr>ring = replicate RING_CAP (kmessage_empty zero), head = 0, ring_len = 0,
      recv_waiters = replicate MAX_WAITERS 0, n_recv = 0,
      send_waiters = replicate MAX_WAITERS (0, kmessage_empty zero), n_send = 0\<rparr>"

section \<open>Operations on one endpoint\<close>

definition push_msg :: "'m kmessage \<Rightarrow> 'm endpoint \<Rightarrow> bool \<times> 'm endpoint" where
  "push_msg km e =
     (if ring_len e = RING_CAP then (False, e)
      else let tail = (head e + ring_len e) mod RING_CAP in
        (True, e\<lparr>ring := (ring e)[tail := km], ring_len := ring_len e + 1\<rparr>))"

definition pop_msg :: "'m endpoint \<Rightarrow> ('m kmessage \<times> 'm endpoint) option" where
  "pop_msg e =
     (if ring_len e = 0 then None
      else Some (ring e ! head e,
                 e\<lparr>head := (head e + 1) mod RING_CAP, ring_len := ring_len e - 1\<rparr>))"

definition push_recv_waiter :: "nat \<Rightarrow> 'm endpoint \<Rightarrow> bool \<times> 'm endpoint" where
  "push_recv_waiter task e =
     (if n_recv e = MAX_WAITERS then (False, e)
      else (True, e\<lparr>recv_waiters := (recv_waiters e)[n_recv e := task], n_recv := n_recv e + 1\<rparr>))"

definition pop_recv_waiter :: "'m endpoint \<Rightarrow> (nat \<times> 'm endpoint) option" where
  "pop_recv_waiter e =
     (if n_recv e = 0 then None
      else Some (recv_waiters e ! 0,
                 e\<lparr>recv_waiters := copy_within 1 (n_recv e) 0 (recv_waiters e),
                   n_recv := n_recv e - 1\<rparr>))"

definition push_send_waiter :: "nat \<times> 'm kmessage \<Rightarrow> 'm endpoint \<Rightarrow> bool \<times> 'm endpoint" where
  "push_send_waiter entry e =
     (if n_send e = MAX_WAITERS then (False, e)
      else (True, e\<lparr>send_waiters := (send_waiters e)[n_send e := entry], n_send := n_send e + 1\<rparr>))"

definition pop_send_waiter :: "'m endpoint \<Rightarrow> ((nat \<times> 'm kmessage) \<times> 'm endpoint) option" where
  "pop_send_waiter e =
     (if n_send e = 0 then None
      else Some (send_waiters e ! 0,
                 e\<lparr>send_waiters := copy_within 1 (n_send e) 0 (send_waiters e),
                   n_send := n_send e - 1\<rparr>))"

text \<open>
  The two loops of \<open>remove_waiter\<close> are one loop on two arrays: scan the first \<open>n\<close> entries, close the
  gap over an entry that matches without advancing, advance over one that does not.
\<close>

function scrub :: "('a \<Rightarrow> bool) \<Rightarrow> nat \<Rightarrow> nat \<Rightarrow> 'a list \<Rightarrow> bool \<times> nat \<times> 'a list" where
  "scrub P w n xs =
     (if w < n then
        if P (xs ! w) then (True, snd (scrub P w (n - 1) (copy_within (w + 1) n w xs)))
        else scrub P (w + 1) n xs
      else (False, n, xs))"
  by pat_completeness auto
termination
  by (relation "measure (\<lambda>(P, w, n, xs). n - w)") auto

declare scrub.simps [simp del]

definition remove_waiter :: "nat \<Rightarrow> 'm endpoint \<Rightarrow> bool \<times> 'm endpoint" where
  "remove_waiter task e =
     (case scrub (\<lambda>t. t = task) 0 (n_recv e) (recv_waiters e) of (found_r, nr, rw) \<Rightarrow>
      case scrub (\<lambda>(t, km). t = task) 0 (n_send e) (send_waiters e) of (found_s, ns, sw) \<Rightarrow>
        (found_r \<or> found_s,
         e\<lparr>recv_waiters := rw, n_recv := nr, send_waiters := sw, n_send := ns\<rparr>))"

section \<open>The decisions of send and recv\<close>

datatype send_action = SendDeliver nat | SendBuffered | SendBlock | SendFull

definition endpoint_send :: "nat \<Rightarrow> 'm kmessage \<Rightarrow> 'm endpoint \<Rightarrow> send_action \<times> 'm endpoint" where
  "endpoint_send me km e =
     (case pop_recv_waiter e of
        Some (w, e') \<Rightarrow> (SendDeliver w, e')
      | None \<Rightarrow>
          (case push_msg km e of
             (True, e') \<Rightarrow> (SendBuffered, e')
           | (False, e') \<Rightarrow>
               (case push_send_waiter (me, km) e' of
                  (True, e'') \<Rightarrow> (SendBlock, e'')
                | (False, e'') \<Rightarrow> (SendFull, e''))))"

datatype 'm recv_action =
  RecvGot "'m kmessage" | RecvWakeSender "'m kmessage" nat | RecvBlock | RecvFull

definition endpoint_recv :: "nat \<Rightarrow> 'm endpoint \<Rightarrow> 'm recv_action \<times> 'm endpoint" where
  "endpoint_recv me e =
     (case pop_msg e of
        Some (km, e') \<Rightarrow>
          (case pop_send_waiter e' of
             Some ((tid, skm), e'') \<Rightarrow> (RecvWakeSender km tid, snd (push_msg skm e''))
           | None \<Rightarrow> (RecvGot km, e'))
      | None \<Rightarrow>
          (case push_recv_waiter me e of
             (True, e') \<Rightarrow> (RecvBlock, e')
           | (False, e') \<Rightarrow> (RecvFull, e')))"

section \<open>Abstract channel\<close>

text \<open>What an endpoint stands for: the buffered messages, the receivers that wait, and the senders
  that wait with the message each could not deposit, all oldest first.\<close>

record 'm channel =
  buffered_msgs :: "'m kmessage list"
  waiting_recv :: "nat list"
  waiting_send :: "(nat \<times> 'm kmessage) list"

definition ring_items :: "'m endpoint \<Rightarrow> 'm kmessage list" where
  "ring_items e = map (\<lambda>i. ring e ! ((head e + i) mod RING_CAP)) [0..<ring_len e]"

definition recv_items :: "'m endpoint \<Rightarrow> nat list" where
  "recv_items e = take (n_recv e) (recv_waiters e)"

definition send_items :: "'m endpoint \<Rightarrow> (nat \<times> 'm kmessage) list" where
  "send_items e = take (n_send e) (send_waiters e)"

definition channel_of :: "'m endpoint \<Rightarrow> 'm channel" where
  "channel_of e = \<lparr>buffered_msgs = ring_items e, waiting_recv = recv_items e,
     waiting_send = send_items e\<rparr>"

definition endpoint_wf :: "'m endpoint \<Rightarrow> bool" where
  "endpoint_wf e \<longleftrightarrow> length (ring e) = RING_CAP \<and> head e < RING_CAP \<and> ring_len e \<le> RING_CAP
     \<and> length (recv_waiters e) = MAX_WAITERS \<and> n_recv e \<le> MAX_WAITERS
     \<and> length (send_waiters e) = MAX_WAITERS \<and> n_send e \<le> MAX_WAITERS"

definition channel_send :: "nat \<Rightarrow> 'm kmessage \<Rightarrow> 'm channel \<Rightarrow> send_action \<times> 'm channel" where
  "channel_send me km c =
     (case waiting_recv c of
        w # ws \<Rightarrow> (SendDeliver w, c\<lparr>waiting_recv := ws\<rparr>)
      | [] \<Rightarrow>
          if length (buffered_msgs c) < RING_CAP
          then (SendBuffered, c\<lparr>buffered_msgs := buffered_msgs c @ [km]\<rparr>)
          else if length (waiting_send c) < MAX_WAITERS
          then (SendBlock, c\<lparr>waiting_send := waiting_send c @ [(me, km)]\<rparr>)
          else (SendFull, c))"

definition channel_recv :: "nat \<Rightarrow> 'm channel \<Rightarrow> 'm recv_action \<times> 'm channel" where
  "channel_recv me c =
     (case buffered_msgs c of
        km # kms \<Rightarrow>
          (case waiting_send c of
             (tid, skm) # ws \<Rightarrow>
               (RecvWakeSender km tid, c\<lparr>buffered_msgs := kms @ [skm], waiting_send := ws\<rparr>)
           | [] \<Rightarrow> (RecvGot km, c\<lparr>buffered_msgs := kms\<rparr>))
      | [] \<Rightarrow>
          if length (waiting_recv c) < MAX_WAITERS
          then (RecvBlock, c\<lparr>waiting_recv := waiting_recv c @ [me]\<rparr>)
          else (RecvFull, c))"

definition channel_forget :: "nat \<Rightarrow> 'm channel \<Rightarrow> bool \<times> 'm channel" where
  "channel_forget task c =
     (task \<in> set (waiting_recv c) \<union> fst ` set (waiting_send c),
      c\<lparr>waiting_recv := filter (\<lambda>t. t \<noteq> task) (waiting_recv c),
        waiting_send := filter (\<lambda>(t, km). t \<noteq> task) (waiting_send c)\<rparr>)"

text \<open>Receivers wait only on an empty endpoint, senders only on a full one.\<close>

definition channel_ok :: "'m channel \<Rightarrow> bool" where
  "channel_ok c \<longleftrightarrow> (waiting_recv c \<noteq> [] \<longrightarrow> buffered_msgs c = [] \<and> waiting_send c = [])
     \<and> (waiting_send c \<noteq> [] \<longrightarrow> length (buffered_msgs c) = RING_CAP)
     \<and> length (buffered_msgs c) \<le> RING_CAP"

section \<open>Runs of one endpoint\<close>

text \<open>Any interleaving of sends, receives and task deaths on one endpoint: which messages it
  accepted, which it handed to a receiver, and where it ended. A message handed straight to a
  waiting receiver is both.\<close>

datatype 'm endpoint_op = OpSend nat "'m kmessage" | OpRecv nat | OpForget nat

fun endpoint_step ::
  "'m endpoint_op \<Rightarrow> 'm endpoint \<Rightarrow> 'm kmessage list \<times> 'm kmessage list \<times> 'm endpoint" where
  "endpoint_step (OpSend me km) e =
     (case endpoint_send me km e of
        (SendDeliver w, e') \<Rightarrow> ([km], [km], e')
      | (SendBuffered, e') \<Rightarrow> ([km], [], e')
      | (SendBlock, e') \<Rightarrow> ([km], [], e')
      | (SendFull, e') \<Rightarrow> ([], [], e'))"
| "endpoint_step (OpRecv me) e =
     (case endpoint_recv me e of
        (RecvGot km, e') \<Rightarrow> ([], [km], e')
      | (RecvWakeSender km tid, e') \<Rightarrow> ([], [km], e')
      | (RecvBlock, e') \<Rightarrow> ([], [], e')
      | (RecvFull, e') \<Rightarrow> ([], [], e'))"
| "endpoint_step (OpForget task) e = ([], [], snd (remove_waiter task e))"

fun endpoint_run ::
  "'m endpoint_op list \<Rightarrow> 'm endpoint \<Rightarrow> 'm kmessage list \<times> 'm kmessage list \<times> 'm endpoint" where
  "endpoint_run [] e = ([], [], e)"
| "endpoint_run (x # xs) e =
     (case endpoint_step x e of (acc, out, e') \<Rightarrow>
      case endpoint_run xs e' of (acc', out', e'') \<Rightarrow> (acc @ acc', out @ out', e''))"

definition pending :: "'m channel \<Rightarrow> 'm kmessage list" where
  "pending c = buffered_msgs c @ map snd (waiting_send c)"

section \<open>Bounded queues\<close>

text \<open>The contract the ring and both wait queues keep, and what follows for any use of one.\<close>

locale bounded_queue =
  fixes push :: "'a \<Rightarrow> 's \<Rightarrow> bool \<times> 's"
    and pop :: "'s \<Rightarrow> ('a \<times> 's) option"
    and items :: "'s \<Rightarrow> 'a list"
    and wf :: "'s \<Rightarrow> bool"
    and room :: nat
  assumes items_bound: "wf s \<Longrightarrow> length (items s) \<le> room"
    and push_full: "wf s \<Longrightarrow> length (items s) = room \<Longrightarrow> push x s = (False, s)"
    and push_room: "wf s \<Longrightarrow> length (items s) < room \<Longrightarrow>
      \<exists>s'. push x s = (True, s') \<and> items s' = items s @ [x] \<and> wf s'"
    and pop_empty: "wf s \<Longrightarrow> items s = [] \<Longrightarrow> pop s = None"
    and pop_first: "wf s \<Longrightarrow> items s = x # xs \<Longrightarrow>
      \<exists>s'. pop s = Some (x, s') \<and> items s' = xs \<and> wf s'"
begin

lemma push_True: "wf s \<Longrightarrow> push x s = (True, s') \<Longrightarrow>
    length (items s) < room \<and> items s' = items s @ [x] \<and> wf s'"
  using items_bound [of s] push_full [of s x] push_room [of s x]
  by (cases "length (items s) = room") auto

lemma push_False: "wf s \<Longrightarrow> push x s = (False, s') \<Longrightarrow> length (items s) = room \<and> s' = s"
  using items_bound [of s] push_full [of s x] push_room [of s x]
  by (cases "length (items s) = room") auto

lemma pop_None: "wf s \<Longrightarrow> pop s = None \<longleftrightarrow> items s = []"
  using pop_empty [of s] pop_first [of s] by (cases "items s") auto

lemma pop_Some: "wf s \<Longrightarrow> pop s = Some (x, s') \<Longrightarrow> items s = x # items s' \<and> wf s'"
  using pop_empty [of s] pop_first [of s] by (cases "items s") auto

end

section \<open>The three queues of an endpoint\<close>

lemma mod_offset_inj: "i < n \<Longrightarrow> j < n \<Longrightarrow> (h + i) mod n = (h + j) mod n \<longleftrightarrow> i = (j :: nat)"
proof (induction i j rule: linorder_wlog)
  case (le i j)
  show ?case
  proof
    assume "(h + i) mod n = (h + j) mod n"
    then have "n dvd (h + j) - (h + i)"
      using le(1) mod_eq_dvd_iff_nat [of "h + i" "h + j" n] by simp
    then show "i = j" using le by (auto dest: dvd_imp_le)
  qed simp
next
  case (sym i j)
  then show ?case by metis
qed

lemma ring_items_push:
  assumes "endpoint_wf e" "ring_len e < RING_CAP"
  shows "ring_items (snd (push_msg km e)) = ring_items e @ [km]"
proof -
  let ?t = "(head e + ring_len e) mod RING_CAP"
  have "?t < length (ring e)" using assms by (simp add: endpoint_wf_def RING_CAP_def)
  moreover have "?t \<noteq> (head e + i) mod RING_CAP" if "i < ring_len e" for i
    using that assms(2) mod_offset_inj [of i RING_CAP "ring_len e" "head e"] by auto
  ultimately show ?thesis
    using assms(2) by (auto simp: push_msg_def ring_items_def Let_def nth_list_update)
qed

lemma ring_items_pop:
  assumes "0 < ring_len e"
  shows "ring_items e = ring e ! (head e mod RING_CAP) #
    ring_items (e\<lparr>head := (head e + 1) mod RING_CAP, ring_len := ring_len e - 1\<rparr>)"
  using assms by (cases "ring_len e")
    (simp_all add: ring_items_def upt_conv_Cons map_Suc_upt [symmetric] mod_add_left_eq
      del: upt_Suc map_Suc_upt)

interpretation msg_queue: bounded_queue push_msg pop_msg ring_items endpoint_wf RING_CAP
proof (unfold_locales, goal_cases)
  case (1 s)
  then show ?case by (simp add: ring_items_def endpoint_wf_def)
next
  case (2 s x)
  then show ?case by (simp add: ring_items_def push_msg_def)
next
  case (3 s x)
  then have "ring_len s < RING_CAP" by (simp add: ring_items_def)
  with 3 show ?case using ring_items_push [of s x]
    by (auto simp: push_msg_def Let_def endpoint_wf_def)
next
  case (4 s)
  then show ?case by (simp add: ring_items_def pop_msg_def)
next
  case (5 s x xs)
  then have "0 < ring_len s" by (cases "ring_len s") (simp_all add: ring_items_def)
  with 5 show ?case using ring_items_pop [of s]
    by (auto simp: pop_msg_def endpoint_wf_def RING_CAP_def)
qed

lemma take_tail_copy_within:
  "0 < n \<Longrightarrow> n \<le> length xs \<Longrightarrow> take (n - 1) (copy_within 1 n 0 xs) = tl (take n xs)"
  using take_copy_within [of 0 n xs] by (simp add: drop_Suc tl_take)

interpretation recv_queue: bounded_queue push_recv_waiter pop_recv_waiter recv_items endpoint_wf MAX_WAITERS
proof (unfold_locales, goal_cases)
  case (5 s x xs)
  then have n: "0 < n_recv s" "n_recv s \<le> length (recv_waiters s)"
    by (cases "n_recv s"; simp add: recv_items_def endpoint_wf_def)+
  from 5 have "xs = tl (recv_items s)" "x = recv_items s ! 0" by simp_all
  with 5 n show ?case using take_tail_copy_within [OF n] length_copy_within [of 1 "n_recv s" "recv_waiters s" 0]
    by (auto simp: pop_recv_waiter_def recv_items_def endpoint_wf_def)
qed (auto simp: recv_items_def push_recv_waiter_def pop_recv_waiter_def endpoint_wf_def MAX_WAITERS_def
  take_Suc_conv_app_nth)

interpretation send_queue: bounded_queue push_send_waiter pop_send_waiter send_items endpoint_wf MAX_WAITERS
proof (unfold_locales, goal_cases)
  case (5 s x xs)
  then have n: "0 < n_send s" "n_send s \<le> length (send_waiters s)"
    by (cases "n_send s"; simp add: send_items_def endpoint_wf_def)+
  from 5 have "xs = tl (send_items s)" "x = send_items s ! 0" by simp_all
  with 5 n show ?case using take_tail_copy_within [OF n] length_copy_within [of 1 "n_send s" "send_waiters s" 0]
    by (auto simp: pop_send_waiter_def send_items_def endpoint_wf_def)
qed (auto simp: send_items_def push_send_waiter_def pop_send_waiter_def endpoint_wf_def MAX_WAITERS_def
  take_Suc_conv_app_nth)

text \<open>Each queue's operations leave the other two alone.\<close>

lemma push_msg_frame [simp]:
  "recv_items (snd (push_msg km e)) = recv_items e" "send_items (snd (push_msg km e)) = send_items e"
  by (simp_all add: push_msg_def Let_def recv_items_def send_items_def)

lemma pop_msg_frame:
  "pop_msg e = Some (km, e') \<Longrightarrow> recv_items e' = recv_items e \<and> send_items e' = send_items e"
  by (auto simp: pop_msg_def recv_items_def send_items_def split: if_splits)

lemma push_recv_frame [simp]:
  "ring_items (snd (push_recv_waiter t e)) = ring_items e"
  "send_items (snd (push_recv_waiter t e)) = send_items e"
  by (simp_all add: push_recv_waiter_def ring_items_def send_items_def)

lemma pop_recv_frame:
  "pop_recv_waiter e = Some (w, e') \<Longrightarrow> ring_items e' = ring_items e \<and> send_items e' = send_items e"
  by (auto simp: pop_recv_waiter_def ring_items_def send_items_def split: if_splits)

lemma push_send_frame [simp]:
  "ring_items (snd (push_send_waiter x e)) = ring_items e"
  "recv_items (snd (push_send_waiter x e)) = recv_items e"
  by (simp_all add: push_send_waiter_def ring_items_def recv_items_def)

lemma pop_send_frame:
  "pop_send_waiter e = Some (x, e') \<Longrightarrow> ring_items e' = ring_items e \<and> recv_items e' = recv_items e"
  by (auto simp: pop_send_waiter_def ring_items_def recv_items_def split: if_splits)

section \<open>Removing a task from the wait queues\<close>

lemma scrub_filter:
  assumes "scrub P w n xs = (f, n', xs')" "n \<le> length xs"
  shows "take n' xs' = take w (take n xs) @ filter (\<lambda>x. \<not> P x) (drop w (take n xs))
    \<and> length xs' = length xs \<and> n' \<le> n \<and> f = (\<exists>x \<in> set (drop w (take n xs)). P x)"
  using assms
proof (induction P w n xs arbitrary: f n' xs' rule: scrub.induct)
  case (1 P w n xs)
  show ?case
  proof (cases "w < n")
    case False
    with "1.prems" show ?thesis by (auto simp: scrub.simps [of P w n xs])
  next
    case True
    with "1.prems" have d: "drop w (take n xs) = xs ! w # drop (Suc w) (take n xs)"
      using Cons_nth_drop_Suc [of w "take n xs"] by simp
    show ?thesis
    proof (cases "P (xs ! w)")
      case False
      with True "1.prems" have "scrub P (w + 1) n xs = (f, n', xs')"
        by (simp add: scrub.simps [of P w n xs])
      from "1.IH"(2) [OF True False this "1.prems"(2)]
      show ?thesis using True False "1.prems" d by (auto simp: take_Suc_conv_app_nth)
    next
      case match: True
      let ?ys = "copy_within (w + 1) n w xs"
      obtain f' where s: "scrub P w (n - 1) ?ys = (f', n', xs')" and f: "f"
        using True match "1.prems"(1) by (cases "scrub P w (n - 1) ?ys") (simp add: scrub.simps [of P w n xs])
      have ly: "length ?ys = length xs" using True "1.prems"(2) by (intro length_copy_within) auto
      have ty: "take (n - 1) ?ys = take w xs @ drop (Suc w) (take n xs)"
        using take_copy_within [OF True "1.prems"(2)] by simp
      from "1.IH"(1) [OF True match s] ly "1.prems"(2) True
      have "take n' xs' = take w (take (n - 1) ?ys) @ filter (\<lambda>x. \<not> P x) (drop w (take (n - 1) ?ys))
          \<and> length xs' = length xs \<and> n' \<le> n - 1" by simp
      moreover have "take w (take (n - 1) ?ys) = take w (take n xs)"
        "drop w (take (n - 1) ?ys) = drop (Suc w) (take n xs)"
        unfolding ty using True "1.prems"(2) by simp_all
      ultimately show ?thesis using d match f by auto
    qed
  qed
qed

lemma remove_waiter_channel:
  assumes "endpoint_wf e"
  shows "channel_forget task (channel_of e) =
      (fst (remove_waiter task e), channel_of (snd (remove_waiter task e)))
    \<and> endpoint_wf (snd (remove_waiter task e))"
proof -
  obtain fr nr rw where r: "scrub (\<lambda>t. t = task) 0 (n_recv e) (recv_waiters e) = (fr, nr, rw)"
    by (cases "scrub (\<lambda>t. t = task) 0 (n_recv e) (recv_waiters e)") auto
  obtain fs ns sw where s: "scrub (\<lambda>p. fst p = task) 0 (n_send e) (send_waiters e) = (fs, ns, sw)"
    by (cases "scrub (\<lambda>p. fst p = task) 0 (n_send e) (send_waiters e)") auto
  have "n_recv e \<le> length (recv_waiters e)" "n_send e \<le> length (send_waiters e)"
    using assms by (simp_all add: endpoint_wf_def)
  from scrub_filter [OF r this(1)] scrub_filter [OF s this(2)] show ?thesis
    using assms
    by (simp add: remove_waiter_def r s channel_forget_def channel_of_def recv_items_def send_items_def
        ring_items_def endpoint_wf_def case_prod_unfold Bex_def image_iff)
qed

section \<open>Refinement\<close>

lemma channel_of_sel [simp]:
  "buffered_msgs (channel_of e) = ring_items e"
  "waiting_recv (channel_of e) = recv_items e"
  "waiting_send (channel_of e) = send_items e"
  by (simp_all add: channel_of_def)

lemma channel_eqI: "buffered_msgs c = b \<Longrightarrow> waiting_recv c = r \<Longrightarrow> waiting_send c = s \<Longrightarrow>
    c = \<lparr>buffered_msgs = b, waiting_recv = r, waiting_send = s\<rparr>"
  by simp

lemma endpoint_send_channel:
  assumes "endpoint_wf e" "endpoint_send me km e = (a, e')"
  shows "channel_send me km (channel_of e) = (a, channel_of e') \<and> endpoint_wf e'"
proof (cases "pop_recv_waiter e")
  case (Some p)
  then obtain w f where p: "pop_recv_waiter e = Some (w, f)" by (cases p) auto
  with assms recv_queue.pop_Some [OF assms(1) p] pop_recv_frame [OF p] show ?thesis
    by (auto simp: endpoint_send_def channel_send_def channel_of_def)
next
  case None
  then have r: "recv_items e = []" using recv_queue.pop_None [OF assms(1)] by simp
  obtain ok f where m: "push_msg km e = (ok, f)" by (cases "push_msg km e") auto
  show ?thesis
  proof (cases ok)
    case True
    with assms None r m msg_queue.push_True [OF assms(1), of km f] push_msg_frame [of km e]
    show ?thesis by (auto simp: endpoint_send_def channel_send_def channel_of_def)
  next
    case False
    with m have full: "length (ring_items e) = RING_CAP" "f = e"
      using msg_queue.push_False [OF assms(1), of km f] by auto
    obtain ok' g where w: "push_send_waiter (me, km) e = (ok', g)"
      by (cases "push_send_waiter (me, km) e") auto
    from send_queue.push_True [OF assms(1), of "(me, km)" g]
      send_queue.push_False [OF assms(1), of "(me, km)" g] push_send_frame [of "(me, km)" e]
    show ?thesis using assms None r m False full w
      by (cases ok') (auto simp: endpoint_send_def channel_send_def channel_of_def)
  qed
qed

lemma endpoint_recv_channel:
  assumes "endpoint_wf e" "endpoint_recv me e = (a, e')"
  shows "channel_recv me (channel_of e) = (a, channel_of e') \<and> endpoint_wf e'"
proof (cases "pop_msg e")
  case None
  then have r: "ring_items e = []" using msg_queue.pop_None [OF assms(1)] by simp
  obtain ok g where w: "push_recv_waiter me e = (ok, g)" by (cases "push_recv_waiter me e") auto
  from recv_queue.push_True [OF assms(1), of me g] recv_queue.push_False [OF assms(1), of me g]
    push_recv_frame [of me e]
  show ?thesis using assms None r w
    by (cases ok) (auto simp: endpoint_recv_def channel_recv_def channel_of_def)
next
  case (Some p)
  then obtain km f where p: "pop_msg e = Some (km, f)" by (cases p) auto
  note q = msg_queue.pop_Some [OF assms(1) p] pop_msg_frame [OF p]
  then have wf: "endpoint_wf f" by simp
  show ?thesis
  proof (cases "pop_send_waiter f")
    case None
    then show ?thesis using assms p q send_queue.pop_None [OF wf]
      by (auto simp: endpoint_recv_def channel_recv_def channel_of_def)
  next
    case (Some x)
    then obtain tid skm g where x: "pop_send_waiter f = Some ((tid, skm), g)" by (cases x) auto
    note y = send_queue.pop_Some [OF wf x] pop_send_frame [OF x]
    have "length (ring_items g) < RING_CAP"
      using msg_queue.items_bound [OF assms(1)] q y by simp
    then obtain h where h: "push_msg skm g = (True, h)" "ring_items h = ring_items g @ [skm]" "endpoint_wf h"
      using msg_queue.push_room [of g skm] y by auto
    moreover have "send_items e = (tid, skm) # send_items g" using q y by simp
    ultimately show ?thesis using push_msg_frame [of skm g] assms p q x y
      by (auto simp: endpoint_recv_def channel_recv_def channel_of_def)
  qed
qed

lemma endpoint_new_wf: "endpoint_wf (endpoint_new zero)"
  by (simp add: endpoint_wf_def endpoint_new_def RING_CAP_def)

lemma endpoint_new_channel:
  "channel_of (endpoint_new zero) = \<lparr>buffered_msgs = [], waiting_recv = [], waiting_send = []\<rparr>"
  by (simp add: channel_of_def endpoint_new_def ring_items_def recv_items_def send_items_def)

section \<open>The channel\<close>

lemma channel_send_ok: "channel_ok c \<Longrightarrow> channel_send me km c = (a, c') \<Longrightarrow> channel_ok c'"
  by (auto simp: channel_send_def channel_ok_def RING_CAP_def split: list.splits if_splits)

lemma channel_recv_ok: "channel_ok c \<Longrightarrow> channel_recv me c = (a, c') \<Longrightarrow> channel_ok c'"
  by (auto simp: channel_recv_def channel_ok_def RING_CAP_def split: list.splits if_splits prod.splits)

lemma channel_forget_ok: "channel_ok c \<Longrightarrow> channel_ok (snd (channel_forget task c))"
  by (auto simp: channel_forget_def channel_ok_def)

definition endpoint_ok :: "'m endpoint \<Rightarrow> bool" where
  "endpoint_ok e \<longleftrightarrow> endpoint_wf e \<and> channel_ok (channel_of e)"

lemma endpoint_new_ok: "endpoint_ok (endpoint_new zero)"
  by (simp add: endpoint_ok_def endpoint_new_wf endpoint_new_channel channel_ok_def)

lemma endpoint_send_ok: "endpoint_ok e \<Longrightarrow> endpoint_send me km e = (a, e') \<Longrightarrow> endpoint_ok e'"
  using endpoint_send_channel [of e me km a e'] channel_send_ok [of "channel_of e" me km a "channel_of e'"]
  by (auto simp: endpoint_ok_def)

lemma endpoint_recv_ok: "endpoint_ok e \<Longrightarrow> endpoint_recv me e = (a, e') \<Longrightarrow> endpoint_ok e'"
  using endpoint_recv_channel [of e me a e'] channel_recv_ok [of "channel_of e" me a "channel_of e'"]
  by (auto simp: endpoint_ok_def)

lemma remove_waiter_ok: "endpoint_ok e \<Longrightarrow> endpoint_ok (snd (remove_waiter task e))"
  using remove_waiter_channel [of e task] channel_forget_ok [of "channel_of e" task]
  by (auto simp: endpoint_ok_def)

lemma channel_send_pending:
  "channel_ok c \<Longrightarrow> channel_send me km c = (a, c') \<Longrightarrow>
     pending c @ (if a = SendFull then [] else [km]) =
     (case a of SendDeliver w \<Rightarrow> [km] | _ \<Rightarrow> []) @ pending c'"
  by (auto simp: channel_send_def channel_ok_def pending_def RING_CAP_def
      split: list.splits if_splits)

lemma channel_recv_pending:
  "channel_ok c \<Longrightarrow> channel_recv me c = (a, c') \<Longrightarrow>
     pending c = (case a of RecvGot km \<Rightarrow> [km] | RecvWakeSender km t \<Rightarrow> [km] | _ \<Rightarrow> []) @ pending c'"
  by (auto simp: channel_recv_def channel_ok_def pending_def split: list.splits if_splits prod.splits)

lemma channel_forget_pending: "subseq (pending (snd (channel_forget task c))) (pending c)"
  by (auto simp: channel_forget_def pending_def intro!: list_emb_append_mono subseq_map)

lemma endpoint_step_pending:
  assumes ok: "endpoint_ok e" and step: "endpoint_step x e = (acc, out, e')"
  shows "endpoint_ok e'"
    and "(\<forall>t. x \<noteq> OpForget t) \<longrightarrow> pending (channel_of e) @ acc = out @ pending (channel_of e')"
    and "subseq (out @ pending (channel_of e')) (pending (channel_of e) @ acc)"
proof -
  from ok have wf: "endpoint_wf e" and ch: "channel_ok (channel_of e)"
    by (simp_all add: endpoint_ok_def)
  have "endpoint_ok e' \<and>
    ((\<forall>t. x \<noteq> OpForget t) \<longrightarrow> pending (channel_of e) @ acc = out @ pending (channel_of e')) \<and>
    subseq (out @ pending (channel_of e')) (pending (channel_of e) @ acc)"
  proof (cases x)
    case (OpSend me km)
    obtain a f where s: "endpoint_send me km e = (a, f)" by (cases "endpoint_send me km e") auto
    from channel_send_pending [OF ch] endpoint_send_channel [OF wf s]
    have "pending (channel_of e) @ (if a = SendFull then [] else [km]) =
        (case a of SendDeliver w \<Rightarrow> [km] | _ \<Rightarrow> []) @ pending (channel_of f)" by blast
    with step OpSend s endpoint_send_ok [OF ok s] show ?thesis by (cases a) auto
  next
    case (OpRecv me)
    obtain a f where s: "endpoint_recv me e = (a, f)" by (cases "endpoint_recv me e") auto
    from channel_recv_pending [OF ch] endpoint_recv_channel [OF wf s]
    have "pending (channel_of e) = (case a of RecvGot km \<Rightarrow> [km] | RecvWakeSender km t \<Rightarrow> [km] | _ \<Rightarrow> [])
        @ pending (channel_of f)" by blast
    with step OpRecv s endpoint_recv_ok [OF ok s] show ?thesis by (cases a) auto
  next
    case (OpForget t)
    have "channel_of (snd (remove_waiter t e)) = snd (channel_forget t (channel_of e))"
      using remove_waiter_channel [OF wf, of t] by simp
    with step OpForget remove_waiter_ok [OF ok, of t] channel_forget_pending [of t "channel_of e"]
    show ?thesis by simp
  qed
  then show "endpoint_ok e'"
    and "(\<forall>t. x \<noteq> OpForget t) \<longrightarrow> pending (channel_of e) @ acc = out @ pending (channel_of e')"
    and "subseq (out @ pending (channel_of e')) (pending (channel_of e) @ acc)" by auto
qed

lemma endpoint_run_pending:
  assumes "endpoint_ok e" "endpoint_run xs e = (acc, out, e')"
  shows "endpoint_ok e' \<and>
    ((\<forall>t. OpForget t \<notin> set xs) \<longrightarrow> pending (channel_of e) @ acc = out @ pending (channel_of e')) \<and>
    subseq (out @ pending (channel_of e')) (pending (channel_of e) @ acc)"
  using assms
proof (induction xs arbitrary: e acc out)
  case Nil
  then show ?case by simp
next
  case (Cons x xs)
  obtain a1 o1 f where s: "endpoint_step x e = (a1, o1, f)" by (cases "endpoint_step x e") auto
  obtain a2 o2 g where r: "endpoint_run xs f = (a2, o2, g)" by (cases "endpoint_run xs f") auto
  from Cons.prems s r have eqs: "acc = a1 @ a2" "out = o1 @ o2" "e' = g" by auto
  note st = endpoint_step_pending [OF Cons.prems(1) s]
  note ih = Cons.IH [OF st(1)] r
  let ?p = "pending (channel_of e)" and ?q = "pending (channel_of f)" and ?z = "pending (channel_of g)"
  have ih: "endpoint_ok g" "(\<forall>t. OpForget t \<notin> set xs) \<longrightarrow> ?q @ a2 = o2 @ ?z"
      "subseq (o2 @ ?z) (?q @ a2)"
    using Cons.IH [OF st(1), of a2 o2] r eqs by auto
  have "subseq (o1 @ o2 @ ?z) (o1 @ ?q @ a2)"
    by (rule list_emb_append_mono [OF subseq_order.order_refl ih(3)])
  moreover have "subseq ((o1 @ ?q) @ a2) ((?p @ a1) @ a2)"
    by (rule list_emb_append_mono [OF st(3) subseq_order.order_refl])
  ultimately have "subseq (out @ ?z) (?p @ acc)"
    using eqs by (simp add: subseq_order.order_trans)
  moreover have "(\<forall>t. OpForget t \<notin> set (x # xs)) \<longrightarrow> ?p @ acc = out @ ?z"
  proof
    assume nf: "\<forall>t. OpForget t \<notin> set (x # xs)"
    then have "?p @ a1 = o1 @ ?q" using st(2) by (cases x) auto
    then have "?p @ acc = o1 @ (?q @ a2)" using eqs by (metis append.assoc)
    also have "?q @ a2 = o2 @ ?z" using ih(2) nf by simp
    finally show "?p @ acc = out @ ?z" by (simp add: eqs(2))
  qed
  ultimately show ?case using ih(1) eqs by simp
qed

section \<open>Properties\<close>

text \<open>C18: The endpoint's arrays and indices implement the abstract channel: on a well-formed endpoint,
  \<open>send\<close>, \<open>recv\<close> and \<open>remove_waiter\<close> take the same decision as the list operations, leave the endpoint
  standing for the list operations' result, and keep it well-formed, on every branch.\<close>

theorem endpoint_refines_channel:
  assumes "endpoint_wf e"
  shows "channel_send me km (channel_of e) =
      (fst (endpoint_send me km e), channel_of (snd (endpoint_send me km e)))
    \<and> channel_recv me (channel_of e) =
      (fst (endpoint_recv me e), channel_of (snd (endpoint_recv me e)))
    \<and> channel_forget me (channel_of e) =
      (fst (remove_waiter me e), channel_of (snd (remove_waiter me e)))
    \<and> endpoint_wf (snd (endpoint_send me km e)) \<and> endpoint_wf (snd (endpoint_recv me e))
    \<and> endpoint_wf (snd (remove_waiter me e))"
  using endpoint_send_channel [OF assms surjective_pairing, of me km]
    endpoint_recv_channel [OF assms surjective_pairing, of me]
    remove_waiter_channel [OF assms, of me]
  by simp

theorem endpoint_refines_channel_witness:
  "channel_send 5 \<lparr>km_msg = (7 :: nat), km_cap = None\<rparr> (channel_of (endpoint_new 0)) =
     (SendBuffered, \<lparr>buffered_msgs = [\<lparr>km_msg = (7 :: nat), km_cap = None\<rparr>], waiting_recv = [],
        waiting_send = []\<rparr>)"
  using endpoint_refines_channel [OF endpoint_new_wf, of 5 "\<lparr>km_msg = (7 :: nat), km_cap = None\<rparr>" 0]
  by (simp add: endpoint_new_channel channel_send_def RING_CAP_def)

text \<open>A channel never loses, duplicates or reorders a message: over any interleaving of sends and
  receives by any tasks on a fresh endpoint, the messages accepted so far are, in order, those handed
  to receivers followed by those in the ring and those of the blocked senders.\<close>

theorem messages_fifo:
  assumes "endpoint_run ops (endpoint_new zero) = (accepted, handed, e)"
    and "\<forall>t. OpForget t \<notin> set ops"
  shows "accepted = handed @ ring_items e @ map snd (send_items e)"
  using endpoint_run_pending [OF endpoint_new_ok assms(1)] assms(2)
  by (simp add: endpoint_new_channel pending_def)

theorem messages_fifo_witness:
  "\<exists>accepted handed e.
     endpoint_run (map (\<lambda>i. OpSend i \<lparr>km_msg = i, km_cap = None\<rparr>) [1, 2, 3] @ [OpRecv 9])
       (endpoint_new 0) = (accepted, handed, e) \<and>
     accepted = handed @ ring_items e @ map snd (send_items e)"
proof -
  let ?ops = "map (\<lambda>i. OpSend i \<lparr>km_msg = i, km_cap = None\<rparr>) [1, 2, 3 :: nat] @ [OpRecv 9]"
  obtain acc out e where r: "endpoint_run ?ops (endpoint_new 0) = (acc, out, e)"
    by (cases "endpoint_run ?ops (endpoint_new 0)") auto
  have "\<forall>t. OpForget t \<notin> set ?ops" by simp
  from messages_fifo [OF r this] r show ?thesis by blast
qed

text \<open>A task that dies while it waits can take only its own undelivered message with it: with task
  deaths allowed, what has been handed out and what is still pending is, in order, a subsequence of
  what was accepted, so nothing is duplicated, invented or reordered.\<close>

theorem messages_fifo_with_deaths:
  "case endpoint_run ops (endpoint_new zero) of (accepted, handed, e) \<Rightarrow>
     subseq (handed @ ring_items e @ map snd (send_items e)) accepted"
proof -
  obtain acc out e where r: "endpoint_run ops (endpoint_new zero) = (acc, out, e)"
    by (cases "endpoint_run ops (endpoint_new zero)") auto
  from endpoint_run_pending [OF endpoint_new_ok r] r show ?thesis
    by (simp add: endpoint_new_channel pending_def)
qed

text \<open>On every endpoint reached by sends, receives and deaths, receivers wait only while nothing is
  buffered and no sender waits, and senders wait only while the ring is full: no message sits in an
  endpoint beside a receiver that is parked waiting for it.\<close>

theorem waiters_only_when_needed:
  "case endpoint_run ops (endpoint_new zero) of (accepted, handed, e) \<Rightarrow>
     (recv_items e = [] \<or> ring_items e = [] \<and> send_items e = [])
     \<and> (send_items e = [] \<or> length (ring_items e) = RING_CAP)"
proof -
  obtain acc out e where r: "endpoint_run ops (endpoint_new zero) = (acc, out, e)"
    by (cases "endpoint_run ops (endpoint_new zero)") auto
  from endpoint_run_pending [OF endpoint_new_ok r] r show ?thesis
    by (auto simp: endpoint_ok_def channel_ok_def)
qed

end
