(* ===== verification/Paging.thy ===== *)
theory Paging imports Prelude begin

text \<open>
  Four-level page tables, \<open>crates/paging/src/lib.rs\<close>: rights and their encoding, the walk, and the
  mapper that builds and edits a tree. A table frame is reached through the trait \<open>FrameSource\<close>; the
  model keeps the 512 entries of every table by its physical address, and the frames the
  allocator behind \<open>alloc_table\<close> will hand out, in order.
\<close>

section \<open>Constants and rights\<close>

definition PAGE_SIZE :: u64 where "PAGE_SIZE = 4096"
definition SIZE_2M :: u64 where "SIZE_2M = 2 * 1024 * 1024"
definition SIZE_1G :: u64 where "SIZE_1G = 1024 * 1024 * 1024"

definition PTE_PRESENT :: u64 where "PTE_PRESENT = push_bit 0 1"
definition PTE_WRITE :: u64 where "PTE_WRITE = push_bit 1 1"
definition PTE_USER :: u64 where "PTE_USER = push_bit 2 1"
definition PTE_PWT :: u64 where "PTE_PWT = push_bit 3 1"
definition PTE_PCD :: u64 where "PTE_PCD = push_bit 4 1"
definition PTE_HUGE :: u64 where "PTE_HUGE = push_bit 7 1"
definition PTE_NX :: u64 where "PTE_NX = push_bit 63 1"
definition PTE_ADDR_MASK :: u64 where "PTE_ADDR_MASK = 0x000FFFFFFFFFF000"

record rights =
  r_write :: bool
  r_exec :: bool
  r_user :: bool

definition RO :: rights where "RO = \<lparr>r_write = False, r_exec = False, r_user = False\<rparr>"
definition RW :: rights where "RW = \<lparr>r_write = True, r_exec = False, r_user = False\<rparr>"
definition RX :: rights where "RX = \<lparr>r_write = False, r_exec = True, r_user = False\<rparr>"

definition to_user :: "rights \<Rightarrow> rights" where
  "to_user r = r\<lparr>r_user := True\<rparr>"

definition is_wx :: "rights \<Rightarrow> bool" where
  "is_wx r \<longleftrightarrow> r_write r \<and> r_exec r"

definition leaf_bits :: "rights \<Rightarrow> u64" where
  "leaf_bits r =
     PTE_PRESENT OR (if r_write r then PTE_WRITE else 0) OR (if r_user r then PTE_USER else 0)
       OR (if \<not> r_exec r then PTE_NX else 0)"

definition from_bits :: "u64 \<Rightarrow> rights" where
  "from_bits b = \<lparr>r_write = (b AND PTE_WRITE \<noteq> 0), r_exec = (b AND PTE_NX = 0),
     r_user = (b AND PTE_USER \<noteq> 0)\<rparr>"

definition intersect :: "rights \<Rightarrow> rights \<Rightarrow> rights" where
  "intersect a b = \<lparr>r_write = (r_write a \<and> r_write b), r_exec = (r_exec a \<and> r_exec b),
     r_user = (r_user a \<and> r_user b)\<rparr>"

datatype memory_type = NormalMemory | DeviceMemory

definition memory_type_bits :: "memory_type \<Rightarrow> u64" where
  "memory_type_bits t = (case t of NormalMemory \<Rightarrow> 0 | DeviceMemory \<Rightarrow> PTE_PCD OR PTE_PWT)"

definition memory_type_from_bits :: "u64 \<Rightarrow> memory_type" where
  "memory_type_from_bits b = (if b AND PTE_PCD \<noteq> 0 then DeviceMemory else NormalMemory)"

datatype map_error = Misaligned | OutOfFrames | LargePageCollision

section \<open>Physical tables\<close>

record phys =
  entries :: "u64 \<Rightarrow> nat \<Rightarrow> u64"
  pool :: "u64 list"

definition alloc_table :: "phys \<Rightarrow> u64 option \<times> phys" where
  "alloc_table m =
     (case pool m of
        [] \<Rightarrow> (None, m)
      | f # fs \<Rightarrow> (Some f, m\<lparr>entries := (entries m)(f := (\<lambda>_. 0)), pool := fs\<rparr>))"

definition read_entry :: "u64 \<Rightarrow> nat \<Rightarrow> phys \<Rightarrow> u64" where
  "read_entry table idx m = entries m table idx"

definition write_entry :: "u64 \<Rightarrow> nat \<Rightarrow> u64 \<Rightarrow> phys \<Rightarrow> phys" where
  "write_entry table idx v m = m\<lparr>entries := (entries m)(table := (entries m table)(idx := v))\<rparr>"

section \<open>The mapper\<close>

record translation =
  t_phys :: u64
  t_rights :: rights
  t_memory_type :: memory_type
  t_page_size :: u64

definition intermediate_bits :: "rights \<Rightarrow> u64" where
  "intermediate_bits needed =
     PTE_PRESENT OR PTE_WRITE OR (if r_user needed then PTE_USER else 0)"

definition fits :: "u64 \<Rightarrow> u64 \<Rightarrow> u64 \<Rightarrow> u64 \<Rightarrow> bool" where
  "fits virt phys left sz \<longleftrightarrow> is_multiple_of virt sz \<and> is_multiple_of phys sz \<and> sz \<le> left"

definition level_size :: "nat \<Rightarrow> u64" where
  "level_size level = (if level = 0 then PAGE_SIZE else if level = 1 then SIZE_2M else SIZE_1G)"

definition index :: "u64 \<Rightarrow> nat \<Rightarrow> nat" where
  "index virt level = unat (drop_bit (12 + 9 * level) virt AND 0x1FF)"

text \<open>\<open>Mapper::new\<close>: the root it allocates, or \<open>OutOfFrames\<close>.\<close>

definition mapper_new :: "phys \<Rightarrow> (map_error + u64) \<times> phys" where
  "mapper_new m = (case alloc_table m of (None, m') \<Rightarrow> (Inl OutOfFrames, m') | (Some r, m') \<Rightarrow> (Inr r, m'))"

definition next_table :: "u64 \<Rightarrow> nat \<Rightarrow> rights \<Rightarrow> phys \<Rightarrow> (map_error + u64) \<times> phys" where
  "next_table table idx needed m =
     (let entry = read_entry table idx m in
      if entry AND PTE_PRESENT \<noteq> 0 then
        if entry AND PTE_HUGE \<noteq> 0 then (Inl LargePageCollision, m)
        else let widened = entry OR intermediate_bits needed in
          (Inr (entry AND PTE_ADDR_MASK),
           if widened \<noteq> entry then write_entry table idx widened m else m)
      else (case alloc_table m of
          (None, m') \<Rightarrow> (Inl OutOfFrames, m')
        | (Some page, m') \<Rightarrow>
            (Inr page, write_entry table idx (page OR intermediate_bits needed) m')))"

text \<open>The descent of \<open>map_leaf\<close>: \<open>walk\<close> counts down from 3 to the leaf's level.\<close>

fun descend :: "u64 \<Rightarrow> rights \<Rightarrow> nat \<Rightarrow> nat \<Rightarrow> u64 \<Rightarrow> phys \<Rightarrow> (map_error + u64) \<times> phys" where
  "descend virt r level walk table m =
     (if level < walk then
        case next_table table (index virt walk) r m of
          (Inl e, m') \<Rightarrow> (Inl e, m')
        | (Inr table', m') \<Rightarrow> descend virt r level (walk - 1) table' m'
      else (Inr table, m))"

declare descend.simps [simp del]

definition map_leaf ::
  "u64 \<Rightarrow> u64 \<Rightarrow> u64 \<Rightarrow> rights \<Rightarrow> memory_type \<Rightarrow> nat \<Rightarrow> phys \<Rightarrow> (map_error + unit) \<times> phys" where
  "map_leaf root virt phys r mt level m =
     (case descend virt r level 3 root m of
        (Inl e, m') \<Rightarrow> (Inl e, m')
      | (Inr table, m') \<Rightarrow>
          let huge = (if 0 < level then PTE_HUGE else 0);
              bits = phys OR leaf_bits r OR memory_type_bits mt OR huge
          in (Inr (), write_entry table (index virt level) bits m'))"

text \<open>
  The loop of \<open>map_as\<close>. \<open>done\<close> is a count of bytes at most \<open>size\<close>, so it is kept as a natural number;
  the addresses formed from it are 64-bit sums.
\<close>

definition leaf_level :: "bool \<Rightarrow> u64 \<Rightarrow> u64 \<Rightarrow> u64 \<Rightarrow> nat" where
  "leaf_level gib v p left =
     (if gib \<and> fits v p left SIZE_1G then 2 else if fits v p left SIZE_2M then 1 else 0)"

lemma level_size_pos: "0 < unat (level_size l)"
  by (simp add: level_size_def PAGE_SIZE_def SIZE_2M_def SIZE_1G_def)

function map_loop ::
  "bool \<Rightarrow> u64 \<Rightarrow> u64 \<Rightarrow> u64 \<Rightarrow> rights \<Rightarrow> memory_type \<Rightarrow> nat \<Rightarrow> nat \<Rightarrow> phys \<Rightarrow> (map_error + unit) \<times> phys"
where
  "map_loop gib root virt phys r mt sz dn m =
     (if dn < sz then
        let v = virt + word_of_nat dn; p = phys + word_of_nat dn; left = word_of_nat (sz - dn);
            level = leaf_level gib v p left
        in case map_leaf root v p r mt level m of
             (Inl e, m') \<Rightarrow> (Inl e, m')
           | (Inr u, m') \<Rightarrow> map_loop gib root virt phys r mt sz (dn + unat (level_size level)) m'
      else (Inr (), m))"
  by pat_completeness auto
termination
  by (relation "measure (\<lambda>(gib, root, virt, phys, r, mt, sz, dn, m). sz - dn)")
    (use level_size_pos in \<open>auto simp: diff_less_mono2\<close>)

declare map_loop.simps [simp del]

definition map_as ::
  "bool \<Rightarrow> u64 \<Rightarrow> u64 \<Rightarrow> u64 \<Rightarrow> u64 \<Rightarrow> rights \<Rightarrow> memory_type \<Rightarrow> phys \<Rightarrow> (map_error + unit) \<times> phys" where
  "map_as gib root virt phys sz r mt m =
     (if \<not> is_multiple_of virt PAGE_SIZE \<or> \<not> is_multiple_of phys PAGE_SIZE
         \<or> \<not> is_multiple_of sz PAGE_SIZE
      then (Inl Misaligned, m)
      else map_loop gib root virt phys r mt (unat sz) 0 m)"

definition map_normal ::
  "bool \<Rightarrow> u64 \<Rightarrow> u64 \<Rightarrow> u64 \<Rightarrow> u64 \<Rightarrow> rights \<Rightarrow> phys \<Rightarrow> (map_error + unit) \<times> phys" where
  "map_normal gib root virt phys sz r m = map_as gib root virt phys sz r NormalMemory m"

definition map_device ::
  "bool \<Rightarrow> u64 \<Rightarrow> u64 \<Rightarrow> u64 \<Rightarrow> u64 \<Rightarrow> rights \<Rightarrow> phys \<Rightarrow> (map_error + unit) \<times> phys" where
  "map_device gib root virt phys sz r m = map_as gib root virt phys sz r DeviceMemory m"

text \<open>The walk, from \<open>level\<close> down to 0.\<close>

fun translate_from :: "phys \<Rightarrow> u64 \<Rightarrow> nat \<Rightarrow> u64 \<Rightarrow> rights \<Rightarrow> translation option" where
  "translate_from m virt level table effective =
     (let entry = read_entry table (index virt level) m in
      if entry AND PTE_PRESENT = 0 then None
      else let effective' = intersect effective (from_bits entry) in
        if level = 0 \<or> entry AND PTE_HUGE \<noteq> 0 then
          let page_size = level_size level;
              base = entry AND PTE_ADDR_MASK AND NOT (page_size - 1)
          in Some \<lparr>t_phys = base + (virt AND (page_size - 1)), t_rights = effective',
                   t_memory_type = memory_type_from_bits entry, t_page_size = page_size\<rparr>
        else translate_from m virt (level - 1) (entry AND PTE_ADDR_MASK) effective')"

declare translate_from.simps [simp del]

definition translate :: "u64 \<Rightarrow> u64 \<Rightarrow> phys \<Rightarrow> translation option" where
  "translate root virt m =
     translate_from m virt 3 root \<lparr>r_write = True, r_exec = True, r_user = True\<rparr>"

fun clear_leaf :: "u64 \<Rightarrow> nat \<Rightarrow> u64 \<Rightarrow> phys \<Rightarrow> phys" where
  "clear_leaf virt level table m =
     (let idx = index virt level; entry = read_entry table idx m in
      if level = 0 \<or> entry AND PTE_HUGE \<noteq> 0 then write_entry table idx 0 m
      else clear_leaf virt (level - 1) (entry AND PTE_ADDR_MASK) m)"

declare clear_leaf.simps [simp del]

definition unmap :: "u64 \<Rightarrow> u64 \<Rightarrow> phys \<Rightarrow> translation option \<times> phys" where
  "unmap root virt m =
     (case translate root virt m of
        None \<Rightarrow> (None, m)
      | Some existing \<Rightarrow> (Some existing, clear_leaf virt 3 root m))"

end
