(* ===== verification/AddrSpace.thy ===== *)
theory AddrSpace imports Paging begin

text \<open>
  A page-table tree of its own for each ring-3 task, \<open>crates/kernel/src/addrspace.rs\<close>: the handle to
  a tree and the check the kernel makes before it dereferences a pointer a syscall handed it.
\<close>

definition USER_LIMIT :: u64 where "USER_LIMIT = 0x0000800000000000"

record address_space =
  as_root :: u64
  as_entry :: u64
  as_gib_pages :: bool
  as_borrowed :: "u64 option"

text \<open>\<open>AddressSpace::range_ok\<close>: the pages from the one \<open>ptr\<close> lies in to the one the last byte lies in,
  walked one after the other. The loop is over the number of pages still to look at.\<close>

fun pages_ok :: "address_space \<Rightarrow> bool \<Rightarrow> u64 \<Rightarrow> nat \<Rightarrow> phys \<Rightarrow> bool" where
  "pages_ok s write page n m =
     (case translate (as_root s) page m of
        None \<Rightarrow> False
      | Some t \<Rightarrow>
          r_user (t_rights t) \<and> (write \<longrightarrow> r_write (t_rights t)) \<and>
          (case n of 0 \<Rightarrow> True | Suc n' \<Rightarrow> pages_ok s write (page + PAGE_SIZE) n' m))"

declare pages_ok.simps [simp del]

definition range_ok :: "address_space \<Rightarrow> u64 \<Rightarrow> u64 \<Rightarrow> bool \<Rightarrow> phys \<Rightarrow> bool" where
  "range_ok s ptr len write m =
     (if len = 0 then True
      else if USER_LIMIT \<le> ptr \<or> USER_LIMIT - ptr < len then False
      else let first = ptr AND NOT (PAGE_SIZE - 1);
               last = (ptr + len - 1) AND NOT (PAGE_SIZE - 1)
           in pages_ok s write first (unat ((last - first) div PAGE_SIZE)) m)"

end
