(* ===== verification/PageTree.thy ===== *)
theory PageTree imports AddrSpace begin

text \<open>
  What the mapper of \<open>crates/paging/src/lib.rs\<close> does to a tree: the bits of an entry, the invariant of
  a tree of page tables, and the effect of mapping and unmapping on what every address translates to.
\<close>

section \<open>Bits of an entry\<close>

named_theorems pte_bits \<open>single bits of the constants an entry is made of\<close>

lemma flag_bit: "(e AND push_bit k 1 = 0) = (\<not> bit e k)" if "k < 64" for e :: u64
proof -
  have "bit (e AND push_bit k 1) n \<longleftrightarrow> n = k \<and> bit e k" for n
    using that by (auto simp: bit_and_iff push_bit_eq_mult bit_two_power)
  then show ?thesis by (metis bit_0_eq bot_apply u64_eqI bot_bool_def)
qed

lemma flag_bits [pte_bits]:
  "(e AND PTE_PRESENT = 0) = (\<not> bit e 0)" "(e AND PTE_WRITE = 0) = (\<not> bit e 1)"
  "(e AND PTE_USER = 0) = (\<not> bit e 2)" "(e AND PTE_PWT = 0) = (\<not> bit e 3)"
  "(e AND PTE_PCD = 0) = (\<not> bit e 4)" "(e AND PTE_HUGE = 0) = (\<not> bit e 7)"
  "(e AND PTE_NX = 0) = (\<not> bit e 63)"
  unfolding PTE_PRESENT_def PTE_WRITE_def PTE_USER_def PTE_PWT_def PTE_PCD_def PTE_HUGE_def PTE_NX_def
  by (simp_all only: flag_bit) 

lemma bit_flag [pte_bits]:
  "bit PTE_PRESENT n \<longleftrightarrow> n = 0" "bit PTE_WRITE n \<longleftrightarrow> n = 1" "bit PTE_USER n \<longleftrightarrow> n = 2"
  "bit PTE_PWT n \<longleftrightarrow> n = 3" "bit PTE_PCD n \<longleftrightarrow> n = 4" "bit PTE_HUGE n \<longleftrightarrow> n = 7" "bit PTE_NX n \<longleftrightarrow> n = 63"
  unfolding PTE_PRESENT_def PTE_WRITE_def PTE_USER_def PTE_PWT_def PTE_PCD_def PTE_HUGE_def PTE_NX_def
  by (simp_all only: push_bit_eq_mult mult_1 bit_two_power) simp_all

lemma ADDR_MASK_mask: "PTE_ADDR_MASK = mask 52 AND NOT (mask 12)"
  by (simp add: PTE_ADDR_MASK_def mask_eq_exp_minus_1)

lemma bit_ADDR_MASK [pte_bits]: "bit PTE_ADDR_MASK n \<longleftrightarrow> 12 \<le> n \<and> n < 52"
  unfolding ADDR_MASK_mask by (auto simp: bit_and_iff bit_not_iff bit_mask_iff)

definition is_table :: "u64 \<Rightarrow> bool" where
  "is_table e \<longleftrightarrow> bit e 0 \<and> \<not> bit e 7"

text \<open>A frame address: aligned and below 2^52, so that an entry can hold it beside its flags.\<close>

definition frame_ok :: "u64 \<Rightarrow> bool" where
  "frame_ok f \<longleftrightarrow> f AND PTE_ADDR_MASK = f"

lemma frame_ok_bits: "frame_ok f \<longleftrightarrow> (\<forall>n. bit f n \<longrightarrow> 12 \<le> n \<and> n < 52)"
proof
  assume "frame_ok f"
  then show "\<forall>n. bit f n \<longrightarrow> 12 \<le> n \<and> n < 52"
    unfolding frame_ok_def by (metis bit_and_iff bit_ADDR_MASK)
next
  assume "\<forall>n. bit f n \<longrightarrow> 12 \<le> n \<and> n < 52"
  then show "frame_ok f" unfolding frame_ok_def by (intro u64_eqI) (auto simp: bit_and_iff pte_bits)
qed

lemma and_mask_frame: "frame_ok (e AND PTE_ADDR_MASK)"
  by (simp add: frame_ok_def and.assoc)

lemma bit_intermediate [pte_bits]: "bit (intermediate_bits r) n \<longleftrightarrow> n = 0 \<or> n = 1 \<or> n = 2 \<and> r_user r"
  by (auto simp: intermediate_bits_def bit_or_iff pte_bits)

lemma bit_leaf [pte_bits]: "bit (leaf_bits r) n \<longleftrightarrow>
    n = 0 \<or> n = 1 \<and> r_write r \<or> n = 2 \<and> r_user r \<or> n = 63 \<and> \<not> r_exec r"
  by (auto simp: leaf_bits_def bit_or_iff pte_bits)

lemma bit_memory_type [pte_bits]: "bit (memory_type_bits t) n \<longleftrightarrow> t = DeviceMemory \<and> (n = 3 \<or> n = 4)"
  by (auto simp: memory_type_bits_def bit_or_iff pte_bits split: memory_type.split)

lemma from_bits_bit: "from_bits e = \<lparr>r_write = bit e 1, r_exec = (\<not> bit e 63), r_user = bit e 2\<rparr>"
  by (simp add: from_bits_def pte_bits)

lemma widen_frame: "(e OR intermediate_bits r) AND PTE_ADDR_MASK = e AND PTE_ADDR_MASK"
  by (rule u64_eqI) (auto simp: bit_and_iff bit_or_iff pte_bits)

lemma index_bound: "index v k < 512"
proof -
  have "drop_bit (12 + 9 * k) v AND 0x1FF = take_bit 9 (drop_bit (12 + 9 * k) v)"
    by (simp add: take_bit_eq_mask mask_eq_exp_minus_1)
  then have "index v k = unat (take_bit 9 (drop_bit (12 + 9 * k) v))" by (simp add: index_def)
  also have "\<dots> = take_bit 9 (unat (drop_bit (12 + 9 * k) v))" by (rule unsigned_take_bit_eq)
  also have "\<dots> < 512" using take_bit_nat_less_exp [of 9] by simp
  finally show ?thesis .
qed


section \<open>A tree of tables\<close>

text \<open>The frames the tables of a subtree lie in; a table of level 0 holds leaves only.\<close>

fun tables :: "phys \<Rightarrow> nat \<Rightarrow> u64 \<Rightarrow> u64 set" where
  "tables m 0 t = {t}"
| "tables m (Suc l) t = insert t (\<Union>i \<in> {i. i < 512 \<and> is_table (entries m t i)}.
     tables m l (entries m t i AND PTE_ADDR_MASK))"

text \<open>No leaf of the subtree is reachable from ring 3.\<close>

fun no_user :: "phys \<Rightarrow> nat \<Rightarrow> u64 \<Rightarrow> bool" where
  "no_user m 0 t = (\<forall>i < 512. bit (entries m t i) 0 \<longrightarrow> \<not> bit (entries m t i) 2)"
| "no_user m (Suc l) t = (\<forall>i < 512. bit (entries m t i) 0 \<longrightarrow> \<not> bit (entries m t i) 2 \<and>
     (is_table (entries m t i) \<longrightarrow> no_user m l (entries m t i AND PTE_ADDR_MASK)))"

text \<open>What the mapper keeps true: no table is reached in two ways, and an entry that points to a table
  takes no right away from the leaves below it.\<close>

fun tree_ok :: "phys \<Rightarrow> nat \<Rightarrow> u64 \<Rightarrow> bool" where
  "tree_ok m 0 t = True"
| "tree_ok m (Suc l) t = (\<forall>i < 512. is_table (entries m t i) \<longrightarrow>
     bit (entries m t i) 1 \<and> \<not> bit (entries m t i) 63
     \<and> (bit (entries m t i) 2 \<or> no_user m l (entries m t i AND PTE_ADDR_MASK))
     \<and> tree_ok m l (entries m t i AND PTE_ADDR_MASK)
     \<and> t \<notin> tables m l (entries m t i AND PTE_ADDR_MASK)
     \<and> (\<forall>j < 512. j \<noteq> i \<longrightarrow> is_table (entries m t j) \<longrightarrow>
          tables m l (entries m t i AND PTE_ADDR_MASK) \<inter> tables m l (entries m t j AND PTE_ADDR_MASK) = {}))"

text \<open>The leaf an address reaches, with its level.\<close>

fun lookup :: "phys \<Rightarrow> u64 \<Rightarrow> nat \<Rightarrow> u64 \<Rightarrow> (nat \<times> u64) option" where
  "lookup m v 0 t = (let e = entries m t (index v 0) in if bit e 0 then Some (0, e) else None)"
| "lookup m v (Suc l) t = (let e = entries m t (index v (Suc l)) in
     if \<not> bit e 0 then None else if bit e 7 then Some (Suc l, e)
     else lookup m v l (e AND PTE_ADDR_MASK))"

definition leaf_translation :: "u64 \<Rightarrow> nat \<times> u64 \<Rightarrow> translation" where
  "leaf_translation v le = (case le of (l, e) \<Rightarrow>
     \<lparr>t_phys = (e AND PTE_ADDR_MASK AND NOT (level_size l - 1)) + (v AND (level_size l - 1)),
      t_rights = from_bits e, t_memory_type = memory_type_from_bits e, t_page_size = level_size l\<rparr>)"

lemma tables_self [simp]: "t \<in> tables m l t"
  by (cases l) auto

lemma is_table_bits: "is_table e \<Longrightarrow> bit e 0 \<and> \<not> bit e 7"
  by (simp add: is_table_def)

text \<open>A subtree does not see what happens outside its own frames.\<close>

lemma frame_tables: "(\<And>x. x \<in> tables m l t \<Longrightarrow> entries m' x = entries m x) \<Longrightarrow> tables m' l t = tables m l t"
proof (induction l arbitrary: t)
  case (Suc l)
  have "entries m' t = entries m t" using Suc.prems by simp
  moreover have "tables m' l (entries m t i AND PTE_ADDR_MASK) = tables m l (entries m t i AND PTE_ADDR_MASK)"
    if "i < 512" "is_table (entries m t i)" for i
    using that Suc.prems by (intro Suc.IH) auto
  ultimately show ?case by auto
qed simp

lemma frame_no_user: "(\<And>x. x \<in> tables m l t \<Longrightarrow> entries m' x = entries m x) \<Longrightarrow> no_user m' l t = no_user m l t"
proof (induction l arbitrary: t)
  case 0
  have "entries m' t = entries m t" using 0 by simp
  then show ?case by simp
next
  case (Suc l)
  have "entries m' t = entries m t" using Suc.prems by simp
  moreover have "no_user m' l (entries m t i AND PTE_ADDR_MASK) = no_user m l (entries m t i AND PTE_ADDR_MASK)"
    if "i < 512" "is_table (entries m t i)" for i
    using that Suc.prems by (intro Suc.IH) auto
  ultimately show ?case by auto
qed

lemma frame_tree_ok: "(\<And>x. x \<in> tables m l t \<Longrightarrow> entries m' x = entries m x) \<Longrightarrow> tree_ok m' l t = tree_ok m l t"
proof (induction l arbitrary: t)
  case (Suc l)
  have e: "entries m' t = entries m t" using Suc.prems by simp
  have same: "tree_ok m' l (entries m t i AND PTE_ADDR_MASK) = tree_ok m l (entries m t i AND PTE_ADDR_MASK)"
      "no_user m' l (entries m t i AND PTE_ADDR_MASK) = no_user m l (entries m t i AND PTE_ADDR_MASK)"
      "tables m' l (entries m t i AND PTE_ADDR_MASK) = tables m l (entries m t i AND PTE_ADDR_MASK)"
    if "i < 512" "is_table (entries m t i)" for i
  proof -
    have "entries m' x = entries m x" if "x \<in> tables m l (entries m t i AND PTE_ADDR_MASK)" for x
      using that \<open>i < 512\<close> \<open>is_table (entries m t i)\<close> Suc.prems by auto
    from Suc.IH [OF this] frame_no_user [OF this] frame_tables [OF this]
    show "tree_ok m' l (entries m t i AND PTE_ADDR_MASK) = tree_ok m l (entries m t i AND PTE_ADDR_MASK)"
      "no_user m' l (entries m t i AND PTE_ADDR_MASK) = no_user m l (entries m t i AND PTE_ADDR_MASK)"
      "tables m' l (entries m t i AND PTE_ADDR_MASK) = tables m l (entries m t i AND PTE_ADDR_MASK)" by auto
  qed
  show ?case unfolding tree_ok.simps e using same by (simp cong: conj_cong imp_cong)
qed simp

lemma frame_lookup: "(\<And>x. x \<in> tables m l t \<Longrightarrow> entries m' x = entries m x) \<Longrightarrow> lookup m' v l t = lookup m v l t"
proof (induction l arbitrary: t)
  case 0
  have "entries m' t = entries m t" using 0 by simp
  then show ?case by simp
next
  case (Suc l)
  let ?e = "entries m t (index v (Suc l))"
  have e: "entries m' t = entries m t" using Suc.prems by simp
  show ?case
  proof (cases "is_table ?e")
    case True
    then have "lookup m' v l (?e AND PTE_ADDR_MASK) = lookup m v l (?e AND PTE_ADDR_MASK)"
      using Suc.prems index_bound by (intro Suc.IH) auto
    with e show ?thesis by (simp add: Let_def)
  next
    case False
    with e show ?thesis by (auto simp: is_table_def Let_def)
  qed
qed

section \<open>The walk\<close>

lemma translate_from_lookup:
  assumes "tree_ok m l t" "l \<le> 3" "r_write eff" "r_exec eff" "r_user eff \<or> no_user m l t"
  shows "translate_from m v l t eff = map_option (leaf_translation v) (lookup m v l t)"
  using assms
proof (induction l arbitrary: t eff)
  case 0
  let ?e = "entries m t (index v 0)"
  have "bit ?e 0 \<longrightarrow> intersect eff (from_bits ?e) = from_bits ?e"
    using 0 index_bound [of v 0] by (auto simp: intersect_def from_bits_bit)
  then show ?case
    by (auto simp: translate_from.simps [of m v 0] read_entry_def Let_def pte_bits leaf_translation_def)
next
  case (Suc l)
  let ?e = "entries m t (index v (Suc l))"
  note ib = index_bound [of v "Suc l"]
  show ?case
  proof (cases "is_table ?e")
    case False
    have "bit ?e 0 \<longrightarrow> intersect eff (from_bits ?e) = from_bits ?e"
      using Suc.prems ib by (auto simp: intersect_def from_bits_bit)
    with False show ?thesis
      by (auto simp: translate_from.simps [of m v "Suc l"] read_entry_def Let_def pte_bits
          leaf_translation_def is_table_def)
  next
    case True
    let ?c = "?e AND PTE_ADDR_MASK" and ?eff = "intersect eff (from_bits ?e)"
    have c: "bit ?e 1" "\<not> bit ?e 63" "bit ?e 2 \<or> no_user m l ?c" "tree_ok m l ?c"
      using Suc.prems(1) True ib by auto
    have "no_user m (Suc l) t \<Longrightarrow> no_user m l ?c" using True ib by (auto simp: is_table_def)
    then have "translate_from m v l ?c ?eff = map_option (leaf_translation v) (lookup m v l ?c)"
      using c Suc.prems by (intro Suc.IH) (auto simp: intersect_def from_bits_bit)
    with True show ?thesis
      by (auto simp: translate_from.simps [of m v "Suc l"] read_entry_def Let_def pte_bits is_table_def)
  qed
qed

lemma translate_lookup: "tree_ok m 3 root \<Longrightarrow>
    translate root v m = map_option (leaf_translation v) (lookup m v 3 root)"
  unfolding translate_def by (rule translate_from_lookup) simp_all


section \<open>Mapping one leaf\<close>

text \<open>The frames still to be handed out are distinct, can be held in an entry, and are in no table.\<close>

definition pool_ok :: "phys \<Rightarrow> u64 set \<Rightarrow> bool" where
  "pool_ok m ts \<longleftrightarrow> distinct (pool m) \<and> (\<forall>f \<in> set (pool m). frame_ok f \<and> f \<notin> ts)"

definition same_page :: "u64 \<Rightarrow> u64 \<Rightarrow> nat \<Rightarrow> nat \<Rightarrow> bool" where
  "same_page v v' level w \<longleftrightarrow> (\<forall>k. level \<le> k \<and> k \<le> w \<longrightarrow> index v' k = index v k)"

text \<open>\<open>map_leaf\<close> as one recursion down the levels.\<close>

function map_down :: "u64 \<Rightarrow> rights \<Rightarrow> nat \<Rightarrow> u64 \<Rightarrow> nat \<Rightarrow> u64 \<Rightarrow> phys \<Rightarrow> (map_error + unit) \<times> phys" where
  "map_down v r level bits w t m =
     (if level < w then
        case next_table t (index v w) r m of
          (Inl e, m') \<Rightarrow> (Inl e, m')
        | (Inr t', m') \<Rightarrow> map_down v r level bits (w - 1) t' m'
      else (Inr (), write_entry t (index v level) bits m))"
  by pat_completeness auto
termination by (relation "measure (\<lambda>(v, r, level, bits, w, t, m). w)") auto

declare map_down.simps [simp del]

definition leaf_entry :: "u64 \<Rightarrow> rights \<Rightarrow> memory_type \<Rightarrow> nat \<Rightarrow> u64" where
  "leaf_entry phys r mt level =
     phys OR leaf_bits r OR memory_type_bits mt OR (if 0 < level then PTE_HUGE else 0)"

lemma map_down_descend:
  "map_down v r level bits w t m =
     (case descend v r level w t m of (Inl e, m') \<Rightarrow> (Inl e, m')
      | (Inr table, m') \<Rightarrow> (Inr (), write_entry table (index v level) bits m'))"
proof (induction v r level bits w t m rule: map_down.induct)
  case (1 v r level bits w t m)
  show ?case
  proof (cases "level < w")
    case True
    obtain x m' where n: "next_table t (index v w) r m = (x, m')" by (cases "next_table t (index v w) r m")
    with 1 True show ?thesis
      by (cases x) (simp_all add: map_down.simps [of v r level bits w] descend.simps [of v r level w])
  next
    case False
    then show ?thesis by (simp add: map_down.simps [of v r level bits w] descend.simps [of v r level w])
  qed
qed

lemma map_leaf_down: "map_leaf root v p r mt level m = map_down v r level (leaf_entry p r mt level) 3 root m"
  by (auto simp: map_leaf_def map_down_descend leaf_entry_def Let_def split: prod.splits sum.splits)

text \<open>What one step down does.\<close>

lemma next_table_cases:
  assumes "next_table t i r m = (res, m')"
  obtains
    (huge) "res = Inl LargePageCollision" "m' = m" "bit (entries m t i) 0" "bit (entries m t i) 7"
  | (present) e' where "is_table (entries m t i)" "e' = entries m t i OR intermediate_bits r"
      "res = Inr (entries m t i AND PTE_ADDR_MASK)" "pool m' = pool m"
      "entries m' = (entries m)(t := (entries m t)(i := e'))"
  | (empty) "res = Inl OutOfFrames" "m' = m" "\<not> bit (entries m t i) 0"
  | (grown) f fs where "\<not> bit (entries m t i) 0" "pool m = f # fs" "pool m' = fs" "res = Inr f"
      "entries m' = (let es = (entries m)(f := (\<lambda>_. 0))
                     in es(t := (es t)(i := f OR intermediate_bits r)))"
proof (cases "bit (entries m t i) 0")
  case True
  show thesis
  proof (cases "bit (entries m t i) 7")
    case True
    with assms \<open>bit (entries m t i) 0\<close> huge show thesis
      by (simp add: next_table_def read_entry_def pte_bits Let_def)
  next
    case False
    let ?e = "entries m t i" and ?e' = "entries m t i OR intermediate_bits r"
    have "entries m = (entries m)(t := (entries m t)(i := ?e))" by simp
    with assms True False present [of ?e'] show thesis
      by (auto simp: next_table_def read_entry_def pte_bits Let_def write_entry_def is_table_def split: if_splits)
  qed
next
  case False
  show thesis
  proof (cases "pool m")
    case Nil
    with assms False empty show thesis by (simp add: next_table_def read_entry_def pte_bits Let_def alloc_table_def)
  next
    case (Cons f fs)
    with assms False grown show thesis
      by (auto simp: next_table_def read_entry_def pte_bits Let_def alloc_table_def write_entry_def)
  qed
qed


text \<open>Replacing one child of a table by a subtree that was worked on apart from its siblings.\<close>

definition child_changed :: "phys \<Rightarrow> phys \<Rightarrow> nat \<Rightarrow> u64 \<Rightarrow> nat \<Rightarrow> u64 \<Rightarrow> bool" where
  "child_changed m m2 l t i e1 \<longleftrightarrow> i < 512 \<and> is_table e1 \<and> bit e1 1 \<and> \<not> bit e1 63
     \<and> (bit e1 2 \<or> no_user m2 l (e1 AND PTE_ADDR_MASK))
     \<and> entries m2 t = (entries m t)(i := e1)
     \<and> tree_ok m2 l (e1 AND PTE_ADDR_MASK)
     \<and> t \<notin> tables m2 l (e1 AND PTE_ADDR_MASK)
     \<and> (\<forall>j < 512. j \<noteq> i \<longrightarrow> is_table (entries m t j) \<longrightarrow>
          (\<forall>x \<in> tables m l (entries m t j AND PTE_ADDR_MASK). entries m2 x = entries m x)
          \<and> tables m2 l (e1 AND PTE_ADDR_MASK) \<inter> tables m l (entries m t j AND PTE_ADDR_MASK) = {})"

lemma splice:
  assumes ok: "tree_ok m (Suc l) t" and ch: "child_changed m m2 l t i e1"
  shows "tree_ok m2 (Suc l) t"
    and "tables m2 (Suc l) t \<subseteq> tables m (Suc l) t \<union> tables m2 l (e1 AND PTE_ADDR_MASK)"
    and "lookup m2 v' (Suc l) t =
      (if index v' (Suc l) = i then lookup m2 v' l (e1 AND PTE_ADDR_MASK) else lookup m v' (Suc l) t)"
    and "no_user m (Suc l) t \<Longrightarrow> \<not> bit e1 2 \<Longrightarrow> no_user m2 (Suc l) t"
proof -
  note d = ch [unfolded child_changed_def]
  let ?c = "e1 AND PTE_ADDR_MASK"
  have ej: "entries m2 t j = entries m t j" if "j \<noteq> i" for j using d that by simp
  have ei: "entries m2 t i = e1" using d by simp
  have sib: "tables m2 l (entries m t j AND PTE_ADDR_MASK) = tables m l (entries m t j AND PTE_ADDR_MASK)"
    "tree_ok m2 l (entries m t j AND PTE_ADDR_MASK) = tree_ok m l (entries m t j AND PTE_ADDR_MASK)"
    "no_user m2 l (entries m t j AND PTE_ADDR_MASK) = no_user m l (entries m t j AND PTE_ADDR_MASK)"
    "lookup m2 v' l (entries m t j AND PTE_ADDR_MASK) = lookup m v' l (entries m t j AND PTE_ADDR_MASK)"
    "tables m2 l ?c \<inter> tables m l (entries m t j AND PTE_ADDR_MASK) = {}"
    if "j < 512" "j \<noteq> i" "is_table (entries m t j)" for j v'
  proof -
    have eq: "entries m2 x = entries m x" if "x \<in> tables m l (entries m t j AND PTE_ADDR_MASK)" for x
      using d that \<open>j < 512\<close> \<open>j \<noteq> i\<close> \<open>is_table (entries m t j)\<close> by blast
    show "tables m2 l (entries m t j AND PTE_ADDR_MASK) = tables m l (entries m t j AND PTE_ADDR_MASK)"
      "tree_ok m2 l (entries m t j AND PTE_ADDR_MASK) = tree_ok m l (entries m t j AND PTE_ADDR_MASK)"
      "no_user m2 l (entries m t j AND PTE_ADDR_MASK) = no_user m l (entries m t j AND PTE_ADDR_MASK)"
      "lookup m2 v' l (entries m t j AND PTE_ADDR_MASK) = lookup m v' l (entries m t j AND PTE_ADDR_MASK)"
      using frame_tables [OF eq] frame_tree_ok [OF eq] frame_no_user [OF eq] frame_lookup [OF eq] by auto
    show "tables m2 l ?c \<inter> tables m l (entries m t j AND PTE_ADDR_MASK) = {}" using d that by blast
  qed
  have old: "is_table (entries m t j) \<Longrightarrow> j < 512 \<Longrightarrow>
     bit (entries m t j) 1 \<and> \<not> bit (entries m t j) 63
     \<and> (bit (entries m t j) 2 \<or> no_user m l (entries m t j AND PTE_ADDR_MASK))
     \<and> tree_ok m l (entries m t j AND PTE_ADDR_MASK) \<and> t \<notin> tables m l (entries m t j AND PTE_ADDR_MASK)
     \<and> (\<forall>k < 512. k \<noteq> j \<longrightarrow> is_table (entries m t k) \<longrightarrow>
          tables m l (entries m t j AND PTE_ADDR_MASK) \<inter> tables m l (entries m t k AND PTE_ADDR_MASK) = {})" for j
    using ok by simp
  show "tree_ok m2 (Suc l) t"
    unfolding tree_ok.simps
  proof (intro allI impI)
    fix j assume j: "j < 512" "is_table (entries m2 t j)"
    show "bit (entries m2 t j) 1 \<and> \<not> bit (entries m2 t j) 63
       \<and> (bit (entries m2 t j) 2 \<or> no_user m2 l (entries m2 t j AND PTE_ADDR_MASK))
       \<and> tree_ok m2 l (entries m2 t j AND PTE_ADDR_MASK)
       \<and> t \<notin> tables m2 l (entries m2 t j AND PTE_ADDR_MASK)
       \<and> (\<forall>k < 512. k \<noteq> j \<longrightarrow> is_table (entries m2 t k) \<longrightarrow>
          tables m2 l (entries m2 t j AND PTE_ADDR_MASK) \<inter> tables m2 l (entries m2 t k AND PTE_ADDR_MASK) = {})"
    proof (cases "j = i")
      case True
      show ?thesis using d True ei ej sib by (auto simp del: tables.simps)
    next
      case False
      have jt: "is_table (entries m t j)" using j(2) ej [OF False] by simp
      have "tables m2 l (entries m2 t j AND PTE_ADDR_MASK) \<inter> tables m2 l (entries m2 t k AND PTE_ADDR_MASK) = {}"
        if k: "k < 512" "k \<noteq> j" "is_table (entries m2 t k)" for k
      proof (cases "k = i")
        case True
        then show ?thesis using sib(1,5) [OF j(1) False jt] ei ej [OF False] by auto
      next
        case kF: False
        have "is_table (entries m t k)" using k(3) ej [OF kF] by simp
        with old [OF jt j(1)] k sib(1) [OF j(1) False jt] sib(1) [OF k(1) kF] show ?thesis
          using ej [OF kF] ej [OF False] by simp
      qed
      with old [OF jt j(1)] sib(1,2,3) [OF j(1) False jt] ej [OF False] show ?thesis by simp
    qed
  qed
  show "tables m2 (Suc l) t \<subseteq> tables m (Suc l) t \<union> tables m2 l ?c"
  proof
    fix x assume "x \<in> tables m2 (Suc l) t"
    then consider "x = t" | j where "j < 512" "is_table (entries m2 t j)"
        "x \<in> tables m2 l (entries m2 t j AND PTE_ADDR_MASK)" by auto
    then show "x \<in> tables m (Suc l) t \<union> tables m2 l ?c"
    proof cases
      case 2
      then show ?thesis using ei ej sib(1) [of j] by (cases "j = i") auto
    qed simp
  qed
  show "lookup m2 v' (Suc l) t =
      (if index v' (Suc l) = i then lookup m2 v' l ?c else lookup m v' (Suc l) t)"
  proof (cases "index v' (Suc l) = i")
    case True
    then show ?thesis using ei d by (simp add: is_table_def)
  next
    case False
    then show ?thesis using ej [OF False] sib(4) [OF index_bound False, of v']
      by (auto simp: Let_def is_table_def)
  qed
  show "no_user m (Suc l) t \<Longrightarrow> \<not> bit e1 2 \<Longrightarrow> no_user m2 (Suc l) t"
  proof -
    assume nu: "no_user m (Suc l) t" and e2: "\<not> bit e1 2"
    have c: "no_user m2 l ?c" using d e2 by simp
    have "\<not> bit (entries m2 t j) 2 \<and> (is_table (entries m2 t j) \<longrightarrow> no_user m2 l (entries m2 t j AND PTE_ADDR_MASK))"
      if j: "j < 512" "bit (entries m2 t j) 0" for j
      using nu e2 c ei ej [of j] sib(3) [of j] j by (cases "j = i") auto
    then show ?thesis by simp
  qed
qed


text \<open>Writing one entry that is not a pointer to a table.\<close>

lemma write_leaf:
  assumes ok: "tree_ok m w t" and e: "\<not> is_table e \<or> w = 0" and i: "i < 512"
    and m': "entries m' = (entries m)(t := (entries m t)(i := e))"
  shows "tree_ok m' w t" and "tables m' w t \<subseteq> tables m w t"
    and "lookup m' v' w t = (if index v' w = i then (if bit e 0 then Some (w, e) else None) else lookup m v' w t)"
    and "no_user m w t \<Longrightarrow> \<not> bit e 2 \<Longrightarrow> no_user m' w t"
proof -
  have "tree_ok m' w t \<and> tables m' w t \<subseteq> tables m w t \<and>
    lookup m' v' w t = (if index v' w = i then (if bit e 0 then Some (w, e) else None) else lookup m v' w t)
    \<and> (no_user m w t \<longrightarrow> \<not> bit e 2 \<longrightarrow> no_user m' w t)"
  proof (cases w)
    case 0
    then show ?thesis using m' by (simp add: Let_def)
  next
    case (Suc l)
    have e: "\<not> is_table e" using e Suc by simp
    have ej: "entries m' t j = (if j = i then e else entries m t j)" for j using m' by simp
    have sib: "tables m' l (entries m t j AND PTE_ADDR_MASK) = tables m l (entries m t j AND PTE_ADDR_MASK)"
      "tree_ok m' l (entries m t j AND PTE_ADDR_MASK) = tree_ok m l (entries m t j AND PTE_ADDR_MASK)"
      "no_user m' l (entries m t j AND PTE_ADDR_MASK) = no_user m l (entries m t j AND PTE_ADDR_MASK)"
      "lookup m' v' l (entries m t j AND PTE_ADDR_MASK) = lookup m v' l (entries m t j AND PTE_ADDR_MASK)"
      if "j < 512" "is_table (entries m t j)" for j
    proof -
      have "t \<notin> tables m l (entries m t j AND PTE_ADDR_MASK)" using ok that Suc by simp
      then have eq: "entries m' x = entries m x" if "x \<in> tables m l (entries m t j AND PTE_ADDR_MASK)" for x
        using that m' by auto
      show "tables m' l (entries m t j AND PTE_ADDR_MASK) = tables m l (entries m t j AND PTE_ADDR_MASK)"
        "tree_ok m' l (entries m t j AND PTE_ADDR_MASK) = tree_ok m l (entries m t j AND PTE_ADDR_MASK)"
        "no_user m' l (entries m t j AND PTE_ADDR_MASK) = no_user m l (entries m t j AND PTE_ADDR_MASK)"
        "lookup m' v' l (entries m t j AND PTE_ADDR_MASK) = lookup m v' l (entries m t j AND PTE_ADDR_MASK)"
        using frame_tables [OF eq] frame_tree_ok [OF eq] frame_no_user [OF eq] frame_lookup [OF eq] by auto
    qed
    have tb: "is_table (entries m' t j) \<longleftrightarrow> j \<noteq> i \<and> is_table (entries m t j)" for j using ej e by simp
    have "tree_ok m' (Suc l) t"
      using ok sib unfolding Suc tree_ok.simps tb by (auto simp: ej)
    moreover have "tables m' (Suc l) t \<subseteq> tables m (Suc l) t"
      using sib(1) unfolding tables.simps tb by (auto simp: ej)
    moreover have "lookup m' v' (Suc l) t =
        (if index v' (Suc l) = i then (if bit e 0 then Some (Suc l, e) else None) else lookup m v' (Suc l) t)"
      using e sib(4) [of "index v' (Suc l)"] index_bound by (auto simp: ej Let_def is_table_def)
    moreover have "no_user m (Suc l) t \<longrightarrow> \<not> bit e 2 \<longrightarrow> no_user m' (Suc l) t"
      using sib(3) e unfolding no_user.simps by (auto simp: ej)
    ultimately show ?thesis using Suc by simp
  qed
  then show "tree_ok m' w t" and "tables m' w t \<subseteq> tables m w t"
    and "lookup m' v' w t = (if index v' w = i then (if bit e 0 then Some (w, e) else None) else lookup m v' w t)"
    and "no_user m w t \<Longrightarrow> \<not> bit e 2 \<Longrightarrow> no_user m' w t" by auto
qed

definition down_post :: "u64 \<Rightarrow> rights \<Rightarrow> nat \<Rightarrow> u64 \<Rightarrow> nat \<Rightarrow> u64 \<Rightarrow> phys \<Rightarrow> map_error + unit \<Rightarrow> phys \<Rightarrow> bool" where
  "down_post v r level bits w t m res m' \<longleftrightarrow>
     tree_ok m' w t
     \<and> (\<forall>v'. lookup m' v' w t =
          (if res = Inr () \<and> same_page v v' level w then Some (level, bits) else lookup m v' w t))
     \<and> tables m' w t \<subseteq> tables m w t \<union> (set (pool m) - set (pool m'))
     \<and> (\<exists>used. pool m = used @ pool m')
     \<and> (\<forall>x. x \<notin> tables m w t \<union> set (pool m) \<longrightarrow> entries m' x = entries m x)
     \<and> (no_user m w t \<longrightarrow> \<not> r_user r \<longrightarrow> no_user m' w t)"

lemma same_page_Suc: "level \<le> l \<Longrightarrow>
    same_page v v' level (Suc l) \<longleftrightarrow> index v' (Suc l) = index v (Suc l) \<and> same_page v v' level l"
  by (auto simp: same_page_def le_Suc_eq)

text \<open>The step of the induction, for a child that was there or one that was just allocated.\<close>

lemma down_step:
  assumes ok: "tree_ok m (Suc l) t" and pool: "pool_ok m (tables m (Suc l) t)" and lv: "level \<le> l"
    and e1: "is_table e1" "bit e1 1" "\<not> bit e1 63" "r_user r \<longrightarrow> bit e1 2"
    and old: "\<And>v'. lookup m1 v' l (e1 AND PTE_ADDR_MASK) =
        (if index v' (Suc l) = index v (Suc l) then lookup m v' (Suc l) t else lookup m1 v' l (e1 AND PTE_ADDR_MASK))"
    and nu: "\<not> bit e1 2 \<Longrightarrow> no_user m1 l (e1 AND PTE_ADDR_MASK)"
    and nu2: "no_user m (Suc l) t \<Longrightarrow> \<not> r_user r \<Longrightarrow> \<not> bit e1 2"
    and m1: "entries m1 t = (entries m t)(index v (Suc l) := e1)"
      "\<And>x. x \<noteq> t \<Longrightarrow> x \<notin> tables m1 l (e1 AND PTE_ADDR_MASK) \<Longrightarrow> entries m1 x = entries m x"
    and c: "t \<notin> tables m1 l (e1 AND PTE_ADDR_MASK)"
      "tables m1 l (e1 AND PTE_ADDR_MASK) \<subseteq> tables m (Suc l) t \<union> (set (pool m) - set (pool m1))"
      "\<And>j. j < 512 \<Longrightarrow> j \<noteq> index v (Suc l) \<Longrightarrow> is_table (entries m t j) \<Longrightarrow>
         tables m1 l (e1 AND PTE_ADDR_MASK) \<inter> tables m l (entries m t j AND PTE_ADDR_MASK) = {}"
    and used1: "pool m = used1 @ pool m1"
    and ih: "down_post v r level bits l (e1 AND PTE_ADDR_MASK) m1 res m2"
  shows "down_post v r level bits (Suc l) t m res m2"
proof -
  let ?c = "e1 AND PTE_ADDR_MASK" and ?i = "index v (Suc l)"
  note d = ih [unfolded down_post_def]
  from d obtain used2 where used2: "pool m1 = used2 @ pool m2" by blast
  have P: "set (pool m2) \<subseteq> set (pool m1)" "set (pool m1) \<subseteq> set (pool m)"
    using used1 used2 by auto
  have fresh: "x \<notin> tables m (Suc l) t" if "x \<in> set (pool m)" for x using pool that by (auto simp: pool_ok_def)
  then have tp: "t \<notin> set (pool m)" using tables_self by blast
  have out: "entries m2 x = entries m1 x" if "x \<notin> tables m1 l ?c" "x \<notin> set (pool m1)" for x
    using d that by blast
  have t2: "entries m2 t = (entries m t)(?i := e1)" using out [of t] c(1) tp P m1(1) by auto
  have T2: "tables m2 l ?c \<subseteq> tables m1 l ?c \<union> (set (pool m1) - set (pool m2))" using d by blast
  have ch: "child_changed m m2 l t ?i e1"
    unfolding child_changed_def
  proof (intro conjI allI impI ballI)
    show "?i < 512" by (rule index_bound)
    show "bit e1 2 \<or> no_user m2 l ?c" using d nu e1(4) by blast
    show "tree_ok m2 l ?c" using d by blast
    show "t \<notin> tables m2 l ?c" using T2 c(1) tp P by blast
    fix j assume j: "j < 512" "j \<noteq> ?i" "is_table (entries m t j)"
    have sub: "tables m l (entries m t j AND PTE_ADDR_MASK) \<subseteq> tables m (Suc l) t" using j by auto
    have nt: "t \<notin> tables m l (entries m t j AND PTE_ADDR_MASK)" using ok j by simp
    show "entries m2 x = entries m x" if "x \<in> tables m l (entries m t j AND PTE_ADDR_MASK)" for x
    proof -
      have "x \<noteq> t" "x \<notin> tables m1 l ?c" using that nt c(3) [OF j] by blast+
      moreover have "x \<notin> set (pool m1)" using that sub fresh P by blast
      ultimately show ?thesis using out m1(2) by simp
    qed
    show "tables m2 l ?c \<inter> tables m l (entries m t j AND PTE_ADDR_MASK) = {}"
      using T2 c(3) [OF j] sub fresh P by blast
  qed (use e1 t2 in auto)
  note sp = splice [OF ok ch]
  have "lookup m2 v' (Suc l) t =
      (if res = Inr () \<and> same_page v v' level (Suc l) then Some (level, bits) else lookup m v' (Suc l) t)" for v'
    using sp(3) [of v'] d old [of v'] same_page_Suc [OF lv, of v v'] by auto
  moreover have "tables m2 (Suc l) t \<subseteq> tables m (Suc l) t \<union> (set (pool m) - set (pool m2))"
    using sp(2) T2 c(2) P by blast
  moreover have "entries m2 x = entries m x" if x: "x \<notin> tables m (Suc l) t \<union> set (pool m)" for x
  proof -
    have "x \<noteq> t" using x by auto
    moreover have "x \<notin> tables m1 l ?c" "x \<notin> set (pool m1)" using x c(2) P by auto
    ultimately show ?thesis using out m1(2) by simp
  qed
  moreover have "no_user m2 (Suc l) t" if "no_user m (Suc l) t" "\<not> r_user r"
    using sp(4) that nu2 by blast
  moreover have "\<exists>used. pool m = used @ pool m2" using used1 used2 by simp
  ultimately show ?thesis using sp(1) unfolding down_post_def by blast
qed


lemma widened_entry:
  "is_table e \<Longrightarrow> is_table (e OR intermediate_bits r)"
  "bit (e OR intermediate_bits r) 1" "bit (e OR intermediate_bits r) 63 = bit e 63"
  "bit (e OR intermediate_bits r) 2 \<longleftrightarrow> bit e 2 \<or> r_user r"
  by (auto simp: is_table_def bit_or_iff pte_bits)

lemma fresh_entry:
  assumes "frame_ok f"
  shows "is_table (f OR intermediate_bits r)" "\<not> bit (f OR intermediate_bits r) 63"
    "bit (f OR intermediate_bits r) 2 \<longleftrightarrow> r_user r" "(f OR intermediate_bits r) AND PTE_ADDR_MASK = f"
proof -
  have f: "\<not> bit f n" if "n < 12 \<or> 52 \<le> n" for n
    using assms that by (auto simp: frame_ok_bits)
  show "is_table (f OR intermediate_bits r)" "\<not> bit (f OR intermediate_bits r) 63"
    "bit (f OR intermediate_bits r) 2 \<longleftrightarrow> r_user r"
    using f by (simp_all add: is_table_def bit_or_iff pte_bits)
  show "(f OR intermediate_bits r) AND PTE_ADDR_MASK = f"
    using assms by (simp add: widen_frame frame_ok_def)
qed

lemma empty_table:
  assumes "entries m f = (\<lambda>_. 0)"
  shows "tables m l f = {f}" "tree_ok m l f" "lookup m v l f = None" "no_user m l f"
  using assms by (cases l; simp add: is_table_def Let_def)+

lemma same_page_self: "same_page v v' w w \<longleftrightarrow> index v' w = index v w"
  by (auto simp: same_page_def)

lemma map_down_ok:
  assumes "tree_ok m w t" "pool_ok m (tables m w t)" "level \<le> w"
    and "bit bits 0" "0 < level \<longrightarrow> bit bits 7" "bit bits 2 \<longrightarrow> r_user r"
    and "map_down v r level bits w t m = (res, m')"
  shows "down_post v r level bits w t m res m'"
  using assms
proof (induction w arbitrary: t m res m')
  case 0
  then have e: "res = Inr ()" "entries m' = (entries m)(t := (entries m t)(index v 0 := bits))"
    "pool m' = pool m"
    by (auto simp: map_down.simps [of v r 0 bits 0] write_entry_def)
  then show ?case using 0 by (auto simp: down_post_def same_page_self Let_def)
next
  case (Suc l)
  show ?case
  proof (cases "level \<le> l")
    case False
    then have lv: "level = Suc l" using Suc.prems by simp
    have e: "res = Inr ()" "entries m' = (entries m)(t := (entries m t)(index v (Suc l) := bits))"
      "pool m' = pool m"
      using Suc.prems(7) lv by (auto simp: map_down.simps [of v r "Suc l" bits "Suc l"] write_entry_def)
    have nt: "\<not> is_table bits" using Suc.prems lv by (simp add: is_table_def)
    note w = write_leaf [OF Suc.prems(1) disjI1 [OF nt] index_bound e(2)]
    show ?thesis
      unfolding down_post_def lv same_page_self using w e Suc.prems by auto
  next
    case lv: True
    obtain x m1 where n: "next_table t (index v (Suc l)) r m = (x, m1)"
      by (cases "next_table t (index v (Suc l)) r m")
    have md: "(case x of Inl e \<Rightarrow> (Inl e, m1) | Inr c \<Rightarrow> map_down v r level bits l c m1) = (res, m')"
      using Suc.prems(7) n lv by (simp add: map_down.simps [of v r level bits "Suc l"] split: sum.splits)
    let ?i = "index v (Suc l)" and ?e = "entries m t (index v (Suc l))"
    have tp: "t \<notin> set (pool m)" using Suc.prems(2) by (auto simp: pool_ok_def)
    from n show ?thesis
    proof (cases rule: next_table_cases)
      case huge
      with md Suc.prems show ?thesis by (auto simp: down_post_def)
    next
      case empty
      with md Suc.prems show ?thesis by (auto simp: down_post_def)
    next
      case (present e1)
      let ?c = "?e AND PTE_ADDR_MASK"
      have old: "\<not> bit ?e 63" "bit ?e 2 \<or> no_user m l ?c" "tree_ok m l ?c" "t \<notin> tables m l ?c"
        "\<And>j. j < 512 \<Longrightarrow> j \<noteq> ?i \<Longrightarrow> is_table (entries m t j) \<Longrightarrow>
          tables m l ?c \<inter> tables m l (entries m t j AND PTE_ADDR_MASK) = {}"
        using Suc.prems(1) present(1) index_bound [of v "Suc l"] by auto
      have c: "e1 AND PTE_ADDR_MASK = ?c" by (simp add: present(2) widen_frame)
      have eq: "entries m1 x = entries m x" if "x \<in> tables m l ?c" for x
        using that old(4) present(5) by auto
      note fr = frame_tables [OF eq] frame_tree_ok [OF eq] frame_lookup [OF eq] frame_no_user [OF eq]
      have sub: "tables m l ?c \<subseteq> tables m (Suc l) t" using present(1) index_bound [of v "Suc l"] by auto
      have go: "map_down v r level bits l ?c m1 = (res, m')" using md present(3) by simp
      have "pool_ok m1 (tables m1 l ?c)"
        using Suc.prems(2) sub fr(1) present(4) by (auto simp: pool_ok_def)
      then have ih: "down_post v r level bits l (e1 AND PTE_ADDR_MASK) m1 res m'"
        unfolding c using old(3) fr(2) Suc.prems(4-6) lv go by (intro Suc.IH) auto
      show ?thesis
      proof (rule down_step [OF Suc.prems(1,2) lv _ _ _ _ _ _ _ _ _ _ _ _ _ ih])
        show "is_table e1" "bit e1 1" "\<not> bit e1 63" "r_user r \<longrightarrow> bit e1 2"
          using present(1,2) old(1) widened_entry by auto
        show "lookup m1 v' l (e1 AND PTE_ADDR_MASK) = (if index v' (Suc l) = ?i then lookup m v' (Suc l) t
            else lookup m1 v' l (e1 AND PTE_ADDR_MASK))" for v'
          unfolding c using fr(3) is_table_bits [OF present(1)] by (simp add: Let_def)
        show "no_user m1 l (e1 AND PTE_ADDR_MASK)" if "\<not> bit e1 2"
          using that old(2) fr(4) unfolding c by (auto simp: present(2) widened_entry)
        show "\<not> bit e1 2" if "no_user m (Suc l) t" "\<not> r_user r"
          using that index_bound [of v "Suc l"] is_table_bits [OF present(1)]
          by (auto simp: present(2) widened_entry)
        show "t \<notin> tables m1 l (e1 AND PTE_ADDR_MASK)" unfolding c using fr(1) old(4) by simp
        show "tables m1 l (e1 AND PTE_ADDR_MASK) \<subseteq> tables m (Suc l) t \<union> (set (pool m) - set (pool m1))"
          unfolding c using fr(1) sub by auto
        show "tables m1 l (e1 AND PTE_ADDR_MASK) \<inter> tables m l (entries m t j AND PTE_ADDR_MASK) = {}"
          if "j < 512" "j \<noteq> ?i" "is_table (entries m t j)" for j
          unfolding c using fr(1) old(5) [OF that] by simp
        show "pool m = [] @ pool m1" using present(4) by simp
      qed (use present(5) in auto)
    next
      case (grown f fs)
      have f: "frame_ok f" "f \<notin> tables m (Suc l) t" "f \<noteq> t" "f \<notin> set fs"
        using Suc.prems(2) grown(2) tp by (auto simp: pool_ok_def)
      let ?e1 = "f OR intermediate_bits r"
      note fe = fresh_entry [OF f(1), of r]
      have zero: "entries m1 f = (\<lambda>_. 0)" using grown(5) f(3) by simp
      note em = empty_table [OF zero]
      have go: "map_down v r level bits l f m1 = (res, m')" using md grown(4) by simp
      have "pool_ok m1 (tables m1 l f)"
        using Suc.prems(2) f(4) grown(2,3) em(1) by (auto simp: pool_ok_def)
      then have ih: "down_post v r level bits l (?e1 AND PTE_ADDR_MASK) m1 res m'"
        unfolding fe(4) using em(2) Suc.prems(4-6) lv go by (intro Suc.IH) auto
      show ?thesis
      proof (rule down_step [OF Suc.prems(1,2) lv _ _ _ _ _ _ _ _ _ _ _ _ _ ih])
        show "is_table ?e1" "bit ?e1 1" "\<not> bit ?e1 63" "r_user r \<longrightarrow> bit ?e1 2"
          using fe widened_entry(2) by auto
        show "lookup m1 v' l (?e1 AND PTE_ADDR_MASK) = (if index v' (Suc l) = ?i then lookup m v' (Suc l) t
            else lookup m1 v' l (?e1 AND PTE_ADDR_MASK))" for v'
          unfolding fe(4) using em(3) grown(1) by (simp add: Let_def)
        show "no_user m1 l (?e1 AND PTE_ADDR_MASK)" unfolding fe(4) by (rule em(4))
        show "\<not> bit ?e1 2" if "\<not> r_user r" using that fe(3) by simp
        show "t \<notin> tables m1 l (?e1 AND PTE_ADDR_MASK)" unfolding fe(4) using em(1) f(3) by simp
        show "tables m1 l (?e1 AND PTE_ADDR_MASK) \<subseteq> tables m (Suc l) t \<union> (set (pool m) - set (pool m1))"
          unfolding fe(4) using em(1) f(4) grown(2,3) by auto
        show "tables m1 l (?e1 AND PTE_ADDR_MASK) \<inter> tables m l (entries m t j AND PTE_ADDR_MASK) = {}"
          if "j < 512" "j \<noteq> ?i" "is_table (entries m t j)" for j
          unfolding fe(4) using em(1) f(2) that by auto
        show "entries m1 t = (entries m t)(?i := ?e1)" using grown(5) f(3) by (simp add: Let_def)
        show "entries m1 x = entries m x" if "x \<noteq> t" "x \<notin> tables m1 l (?e1 AND PTE_ADDR_MASK)" for x
          using that em(1) grown(5) unfolding fe(4) by (auto simp: Let_def)
        show "pool m = [f] @ pool m1" using grown(2,3) by simp
      qed
    qed
  qed
qed


section \<open>Addresses and pages\<close>

text \<open>The hardware translates the low 48 bits; \<open>page_no l v\<close> is the number of the page of level \<open>l\<close> that
  \<open>v\<close> lies in.\<close>

definition low :: "u64 \<Rightarrow> nat" where
  "low v = unat v mod 2 ^ 48"

definition page_no :: "nat \<Rightarrow> u64 \<Rightarrow> nat" where
  "page_no l v = low v div 2 ^ (12 + 9 * l)"

lemma bit_drop_take: "bit (take_bit 9 (drop_bit n v)) j \<longleftrightarrow> j < 9 \<and> bit v (n + j)" for v :: u64
  by (simp add: bit_take_bit_iff bit_drop_bit_eq)

lemma index_take: "index v k = unat (take_bit 9 (drop_bit (12 + 9 * k) v))"
  by (simp add: index_def take_bit_eq_mask mask_eq_exp_minus_1)

lemma index_eq: "index v' k = index v k \<longleftrightarrow> (\<forall>j < 9. bit v' (12 + 9 * k + j) = bit v (12 + 9 * k + j))"
proof -
  have "index v' k = index v k \<longleftrightarrow>
      take_bit 9 (drop_bit (12 + 9 * k) v') = take_bit 9 (drop_bit (12 + 9 * k) v)"
    unfolding index_take word_unat_eq_iff by (rule refl)
  also have "\<dots> \<longleftrightarrow> (\<forall>j. bit (take_bit 9 (drop_bit (12 + 9 * k) v')) j = bit (take_bit 9 (drop_bit (12 + 9 * k) v)) j)"
    using u64_eqI by metis
  also have "\<dots> \<longleftrightarrow> (\<forall>j < 9. bit v' (12 + 9 * k + j) = bit v (12 + 9 * k + j))"
    unfolding bit_drop_take by auto
  finally show ?thesis .
qed

lemma same_page_bits: "same_page v v' l 3 \<longleftrightarrow> (\<forall>n. 12 + 9 * l \<le> n \<longrightarrow> n < 48 \<longrightarrow> bit v' n = bit v n)"
proof
  assume s: "same_page v v' l 3"
  show "\<forall>n. 12 + 9 * l \<le> n \<longrightarrow> n < 48 \<longrightarrow> bit v' n = bit v n"
  proof (intro allI impI)
    fix n assume n: "12 + 9 * l \<le> n" "n < 48"
    let ?k = "(n - 12) div 9" and ?j = "(n - 12) mod 9"
    have k: "l \<le> ?k" "?k \<le> 3" "12 + 9 * ?k + ?j = n" using n by auto
    with s have "index v' ?k = index v ?k" by (simp add: same_page_def)
    then show "bit v' n = bit v n" using k(3) unfolding index_eq by (metis mod_less_divisor zero_less_numeral)
  qed
next
  assume "\<forall>n. 12 + 9 * l \<le> n \<longrightarrow> n < 48 \<longrightarrow> bit v' n = bit v n"
  then show "same_page v v' l 3" unfolding same_page_def index_eq by auto
qed

lemma same_page_no: "same_page v v' l 3 \<longleftrightarrow> page_no l v' = page_no l v"
proof -
  let ?d = "\<lambda>v. drop_bit (12 + 9 * l) (take_bit 48 v)"
  have u: "page_no l v = unat (?d v)" for v
  proof -
    have "unat (?d v) = unat (take_bit 48 v) div 2 ^ (12 + 9 * l)"
      by (subst unat_drop_bit_eq) (rule drop_bit_eq_div)
    then show ?thesis by (simp only: page_no_def low_def unat_take_bit)
  qed
  have "page_no l v' = page_no l v \<longleftrightarrow> ?d v' = ?d v" unfolding u word_unat_eq_iff by (rule refl)
  also have "\<dots> \<longleftrightarrow> (\<forall>n. bit (?d v') n = bit (?d v) n)" using u64_eqI by metis
  also have "\<dots> \<longleftrightarrow> (\<forall>n. 12 + 9 * l + n < 48 \<longrightarrow> bit v' (12 + 9 * l + n) = bit v (12 + 9 * l + n))"
    by (auto simp: bit_drop_bit_eq bit_take_bit_iff)
  also have "\<dots> \<longleftrightarrow> same_page v v' l 3"
    unfolding same_page_bits by (metis le_add1 le_add_diff_inverse)
  finally show ?thesis by simp
qed

lemma level_size_pow: "l \<le> 2 \<Longrightarrow> level_size l = 2 ^ (12 + 9 * l)" "l \<le> 2 \<Longrightarrow> unat (level_size l) = 2 ^ (12 + 9 * l)"
proof -
  assume "l \<le> 2"
  then consider "l = 0" | "l = 1" | "l = 2" by linarith
  then show "level_size l = 2 ^ (12 + 9 * l)" "unat (level_size l) = 2 ^ (12 + 9 * l)"
    by (cases; simp add: level_size_def PAGE_SIZE_def SIZE_2M_def SIZE_1G_def)+
qed

lemma and_level_mask: "l \<le> 2 \<Longrightarrow> a AND (level_size l - 1) = take_bit (12 + 9 * l) a"
  by (simp add: level_size_pow(1) take_bit_eq_mask mask_eq_exp_minus_1)

text \<open>What the leaf that was written translates to.\<close>

lemma leaf_entry_translation:
  assumes l: "l \<le> 2" and p: "2 ^ (12 + 9 * l) dvd unat p" "unat p < 2 ^ 52"
  shows "leaf_translation v (l, leaf_entry p r mt l) =
    \<lparr>t_phys = p + take_bit (12 + 9 * l) v, t_rights = r, t_memory_type = mt, t_page_size = level_size l\<rparr>"
proof -
  have pb: "\<not> bit p n" if "n < 12 + 9 * l \<or> 52 \<le> n" for n
    using that p unfolding aligned_bits below_bits by blast
  let ?e = "leaf_entry p r mt l"
  have be: "bit ?e n \<longleftrightarrow> bit p n \<or> bit (leaf_bits r) n \<or> bit (memory_type_bits mt) n \<or> 0 < l \<and> n = 7" for n
    by (auto simp: leaf_entry_def bit_or_iff pte_bits)
  have "?e AND PTE_ADDR_MASK AND NOT (level_size l - 1) = p"
  proof (rule u64_eqI)
    fix n :: nat assume n: "n < 64"
    have "bit (NOT (level_size l - 1)) n \<longleftrightarrow> 12 + 9 * l \<le> n"
      using n l by (simp add: level_size_pow(1) mask_eq_exp_minus_1 [symmetric] bit_not_iff bit_mask_iff not_less)
    then show "bit (?e AND PTE_ADDR_MASK AND NOT (level_size l - 1)) n = bit p n"
      using pb [of n] be [of n] by (cases "n < 12 + 9 * l"; cases "52 \<le> n") (simp_all add: bit_and_iff pte_bits)
  qed
  moreover have "from_bits ?e = r"
    using be [of 1] be [of 2] be [of 63] pb [of 1] pb [of 2] pb [of 63]
    by (simp add: from_bits_bit pte_bits)
  moreover have "memory_type_from_bits ?e = mt"
    using be [of 4] pb [of 4] by (cases mt) (simp_all add: memory_type_from_bits_def pte_bits)
  ultimately show ?thesis using l by (simp add: leaf_translation_def and_level_mask)
qed

text \<open>A whole space; the top level holds no leaf.\<close>

definition space_ok :: "phys \<Rightarrow> u64 \<Rightarrow> bool" where
  "space_ok m root \<longleftrightarrow> tree_ok m 3 root \<and> pool_ok m (tables m 3 root)
     \<and> (\<forall>v l e. lookup m v 3 root = Some (l, e) \<longrightarrow> l \<le> 2)"

lemma map_leaf_effect:
  assumes ok: "space_ok m root" and l: "l \<le> 2" and p: "2 ^ (12 + 9 * l) dvd unat p" "unat p < 2 ^ 52"
    and ml: "map_leaf root v p r mt l m = (res, m')"
  shows "space_ok m' root"
    and "translate root v' m' = (if res = Inr () \<and> page_no l v' = page_no l v
      then Some \<lparr>t_phys = p + take_bit (12 + 9 * l) v', t_rights = r, t_memory_type = mt, t_page_size = level_size l\<rparr>
      else translate root v' m)"
    and "\<exists>used. pool m = used @ pool m'"
proof -
  let ?e = "leaf_entry p r mt l"
  have pb: "\<not> bit p n" if "n < 12 + 9 * l \<or> 52 \<le> n" for n
    using that p unfolding aligned_bits below_bits by blast
  have be: "bit ?e n \<longleftrightarrow> bit p n \<or> bit (leaf_bits r) n \<or> bit (memory_type_bits mt) n \<or> 0 < l \<and> n = 7" for n
    by (auto simp: leaf_entry_def bit_or_iff pte_bits)
  have "bit ?e 0" "0 < l \<longrightarrow> bit ?e 7" "bit ?e 2 \<longrightarrow> r_user r"
    using pb [of 2] by (simp_all add: be pte_bits)
  moreover have "map_down v r l ?e 3 root m = (res, m')" using ml by (simp add: map_leaf_down)
  ultimately have post: "down_post v r l ?e 3 root m res m'"
    using ok l by (intro map_down_ok) (auto simp: space_ok_def)
  note d = post [unfolded down_post_def]
  from d obtain used where used: "pool m = used @ pool m'" by blast
  then show "\<exists>used. pool m = used @ pool m'" by blast
  have "pool_ok m' (tables m' 3 root)" using ok d used unfolding space_ok_def pool_ok_def by fastforce
  moreover have "lookup m' v 3 root = Some (l', e) \<Longrightarrow> l' \<le> 2" for v l' e
    using d l ok by (auto simp: space_ok_def split: if_splits)
  ultimately show ok': "space_ok m' root" using d by (simp add: space_ok_def)
  show "translate root v' m' = (if res = Inr () \<and> page_no l v' = page_no l v
      then Some \<lparr>t_phys = p + take_bit (12 + 9 * l) v', t_rights = r, t_memory_type = mt, t_page_size = level_size l\<rparr>
      else translate root v' m)"
    using d ok ok' leaf_entry_translation [OF l p, of v' r mt] same_page_no [of v v' l]
    by (simp add: translate_lookup space_ok_def)
qed

section \<open>Mapping a range\<close>

text \<open>The loop of \<open>map_as\<close>: the chunk it picks is aligned and inside what is left.\<close>

lemma low_offset:
  assumes "low v + k < 2 ^ 48"
  shows "low (v + word_of_nat k) = low v + k"
proof -
  have "unat (v + word_of_nat k) = (unat v + k) mod 2 ^ 64"
    by (simp add: unat_word_ariths unat_of_nat mod_add_right_eq)
  then have "low (v + word_of_nat k) = (unat v + k) mod 2 ^ 48"
    by (simp add: low_def mod_mod_cancel)
  also have "\<dots> = (low v + k) mod 2 ^ 48"
    by (simp add: low_def mod_add_left_eq)
  finally show ?thesis using assms by simp
qed

lemma low_aligned: "k \<le> 48 \<Longrightarrow> 2 ^ k dvd low v \<longleftrightarrow> 2 ^ k dvd unat v"
  unfolding low_def by (rule dvd_mod_iff) (rule le_imp_power_dvd)

lemma page_no_aligned:
  assumes "2 ^ (12 + 9 * l) dvd low v"
  shows "page_no l v' = page_no l v \<longleftrightarrow> low v \<le> low v' \<and> low v' < low v + 2 ^ (12 + 9 * l)"
proof -
  let ?s = "2 ^ (12 + 9 * l) :: nat"
  obtain q where q: "low v = ?s * q" using assms by (rule dvdE)
  have "low v' div ?s = q \<longleftrightarrow> ?s * q \<le> low v' \<and> low v' < ?s * q + ?s"
  proof
    assume "low v' div ?s = q"
    then have "low v' = ?s * q + low v' mod ?s" using mult_div_mod_eq [of ?s "low v'"] by simp
    moreover have "low v' mod ?s < ?s" by (rule mod_less_divisor) simp
    ultimately show "?s * q \<le> low v' \<and> low v' < ?s * q + ?s" by linarith
  next
    assume "?s * q \<le> low v' \<and> low v' < ?s * q + ?s"
    then show "low v' div ?s = q"
      by (intro div_nat_eqI) (simp_all add: mult.commute)
  qed
  then show ?thesis by (simp add: page_no_def q)
qed

lemma page_offset:
  assumes "2 ^ (12 + 9 * l) dvd low v" "page_no l v' = page_no l v" "l \<le> 2"
  shows "take_bit (12 + 9 * l) v' = word_of_nat (low v' - low v)"
proof -
  let ?k = "12 + 9 * l"
  have "low v' mod 2 ^ ?k = low v' - low v"
  proof -
    obtain q where q: "low v = 2 ^ ?k * q" using assms(1) by (rule dvdE)
    then have "low v' div 2 ^ ?k = q" using assms(2) by (simp add: page_no_def)
    then show ?thesis using minus_div_mult_eq_mod [of "low v'" "2 ^ ?k"] q by (simp add: mult.commute)
  qed
  moreover have "low v' mod 2 ^ ?k = unat v' mod 2 ^ ?k"
    unfolding low_def using assms(3) by (intro mod_mod_cancel le_imp_power_dvd) simp
  ultimately have "unat (take_bit ?k v') = low v' - low v"
    by (simp only: unat_take_bit)
  then show ?thesis by (metis of_nat_unat ucast_id)
qed

lemma leaf_level_le: "leaf_level gib v p left \<le> 2"
  by (simp add: leaf_level_def)

lemma leaf_level_fits:
  fixes gib :: bool
  assumes "2 ^ 12 dvd unat v" "2 ^ 12 dvd unat p" "2 ^ 12 \<le> unat left"
  defines "l \<equiv> leaf_level gib v p left"
  shows "2 ^ (12 + 9 * l) dvd unat v" "2 ^ (12 + 9 * l) dvd unat p" "2 ^ (12 + 9 * l) \<le> unat left"
  using assms
  by (auto simp: leaf_level_def fits_def is_multiple_of_dvd SIZE_1G_def SIZE_2M_def word_le_nat_alt)

text \<open>What an address inside the mapped range must translate to.\<close>

definition mapped_as ::
  "u64 \<Rightarrow> u64 \<Rightarrow> rights \<Rightarrow> memory_type \<Rightarrow> u64 \<Rightarrow> translation option \<Rightarrow> bool" where
  "mapped_as virt phys r mt v x \<longleftrightarrow>
     (case x of None \<Rightarrow> False
      | Some t \<Rightarrow> t_phys t = phys + word_of_nat (low v - low virt) \<and> t_rights t = r
          \<and> t_memory_type t = mt \<and> t_page_size t \<in> {PAGE_SIZE, SIZE_2M, SIZE_1G})"

text \<open>What the loop has done when it stops: \<open>span_post\<close> is the result of mapping the bytes from \<open>dn\<close> on.\<close>

definition span_post ::
  "u64 \<Rightarrow> u64 \<Rightarrow> u64 \<Rightarrow> rights \<Rightarrow> memory_type \<Rightarrow> nat \<Rightarrow> nat \<Rightarrow> phys \<Rightarrow> map_error + unit \<Rightarrow> phys \<Rightarrow> bool" where
  "span_post root virt phys r mt sz dn m res m' \<longleftrightarrow>
     space_ok m' root \<and> (\<exists>used. pool m = used @ pool m')
     \<and> (\<forall>v'. if low virt + dn \<le> low v' \<and> low v' < low virt + sz
            then mapped_as virt phys r mt v' (translate root v' m')
              \<or> res \<noteq> Inr () \<and> translate root v' m' = translate root v' m
            else translate root v' m' = translate root v' m)"

lemma unat_offset: "unat (p :: u64) + k < 2 ^ 64 \<Longrightarrow> unat (p + word_of_nat k) = unat p + k"
  by (simp add: unat_word_ariths unat_of_nat)

lemma chunk_mapped:
  assumes l: "l \<le> 2" and al: "2 ^ (12 + 9 * l) dvd low (virt + word_of_nat dn)"
    and v: "low (virt + word_of_nat dn) = low virt + dn"
    and pg: "page_no l v' = page_no l (virt + word_of_nat dn)"
  shows "mapped_as virt phys r mt v' (Some \<lparr>t_phys = phys + word_of_nat dn + take_bit (12 + 9 * l) v',
    t_rights = r, t_memory_type = mt, t_page_size = level_size l\<rparr>)"
proof -
  have "low virt + dn \<le> low v'" using page_no_aligned [OF al, of v'] pg v by simp
  then have "word_of_nat dn + take_bit (12 + 9 * l) v' = (word_of_nat (low v' - low virt) :: u64)"
    unfolding page_offset [OF al pg l] v of_nat_add [symmetric] by simp
  moreover have "level_size l \<in> {PAGE_SIZE, SIZE_2M, SIZE_1G}" by (simp add: level_size_def)
  ultimately show ?thesis by (simp add: mapped_as_def add.assoc)
qed

lemma map_loop_effect:
  assumes "map_loop gib root virt phys r mt sz dn m = (res, m')"
    and "space_ok m root" "low virt + sz \<le> 2 ^ 48" "unat phys + sz \<le> 2 ^ 52"
    and "2 ^ 12 dvd unat virt" "2 ^ 12 dvd unat phys" "2 ^ 12 dvd sz" "2 ^ 12 dvd dn" "dn \<le> sz"
  shows "span_post root virt phys r mt sz dn m res m'"
  using assms
proof (induction gib root virt phys r mt sz dn m rule: map_loop.induct)
  case (1 gib root virt phys r mt sz dn m)
  show ?case
  proof (cases "dn < sz")
    case False
    with "1.prems" show ?thesis by (auto simp: map_loop.simps [of gib root virt phys r mt sz dn] span_post_def)
  next
    case lt: True
    define v p left where "v = virt + word_of_nat dn" and "p = phys + word_of_nat dn"
      and "left = (word_of_nat (sz - dn) :: u64)"
    define l where "l = leaf_level gib v p left"
    obtain x m1 where ml: "map_leaf root v p r mt l m = (x, m1)" by (cases "map_leaf root v p r mt l m")
    have lv: "low v = low virt + dn" unfolding v_def by (rule low_offset) (use "1.prems" lt in simp)
    have up: "unat p = unat phys + dn" unfolding p_def by (rule unat_offset) (use "1.prems" lt in simp)
    have "sz - dn < 2 ^ 64" using "1.prems"(4) by simp
    then have ul: "unat left = sz - dn" unfolding left_def by (subst unat_of_nat) simp
    have dv: "2 ^ 12 dvd low v" using "1.prems"(5,8) low_aligned [of 12 virt] lv by simp
    have l2: "l \<le> 2" by (simp add: l_def leaf_level_le)
    have "2 ^ 12 dvd sz - dn" using "1.prems"(7,8) by (rule dvd_diff_nat)
    then have "2 ^ 12 \<le> unat left" using lt ul by (auto intro!: dvd_imp_le)
    moreover have "2 ^ 12 dvd unat v" "2 ^ 12 dvd unat p"
      using dv low_aligned [of 12 v] up "1.prems"(6,8) by simp_all
    ultimately have f: "2 ^ (12 + 9 * l) dvd unat v" "2 ^ (12 + 9 * l) dvd unat p"
      "2 ^ (12 + 9 * l) \<le> sz - dn"
      unfolding l_def ul [symmetric] by (auto intro: leaf_level_fits)
    have al: "2 ^ (12 + 9 * l) dvd low v" using f(1) l2 low_aligned [of "12 + 9 * l" v] by simp
    have "unat p < 2 ^ 52" using up "1.prems"(4) lt by simp
    note e = map_leaf_effect [OF "1.prems"(2) l2 f(2) this ml]
    have loop: "(case x of Inl e \<Rightarrow> (Inl e, m1)
        | Inr u \<Rightarrow> map_loop gib root virt phys r mt sz (dn + unat (level_size l)) m1) = (res, m')"
      using "1.prems"(1) [unfolded map_loop.simps [of gib root virt phys r mt sz dn]] lt
      unfolding v_def [symmetric] p_def [symmetric] left_def [symmetric]
      by (simp only: if_True Let_def l_def [symmetric] ml prod.case v_def [symmetric] p_def [symmetric]
          left_def [symmetric] split: sum.splits)
    show ?thesis
    proof (cases x)
      case (Inl err)
      then have "res = Inl err" "m' = m1" using loop by simp_all
      with e Inl show ?thesis by (simp add: span_post_def)
    next
      case (Inr u)
      let ?d = "dn + 2 ^ (12 + 9 * l)"
      have ls: "dn + unat (level_size l) = ?d" using level_size_pow(2) [OF l2] by simp
      have go: "map_loop gib root virt phys r mt sz ?d m1 = (res, m')" using loop Inr ls by simp
      have "(2::nat) ^ 12 dvd 2 ^ (12 + 9 * l)" by (rule le_imp_power_dvd) simp
      note ih = "1.IH" [OF lt v_def p_def left_def l_def ml [symmetric] Inr]
      have "2 ^ 12 dvd ?d" using \<open>2 ^ 12 dvd 2 ^ (12 + 9 * l)\<close> "1.prems"(8) by (rule dvd_add [rotated])
      then have post: "span_post root virt phys r mt sz ?d m1 res m'"
        using ih e(1) "1.prems"(3-7) go ls f(3) lt by simp
      have tr: "translate root v' m1 = (if low virt + dn \<le> low v' \<and> low v' < low virt + ?d
          then Some \<lparr>t_phys = p + take_bit (12 + 9 * l) v', t_rights = r, t_memory_type = mt, t_page_size = level_size l\<rparr>
          else translate root v' m)" for v'
        using e(2) [of v'] Inr page_no_aligned [OF al, of v'] lv by (simp add: add.assoc)
      have mp: "mapped_as virt phys r mt v' (translate root v' m1)"
        if "low virt + dn \<le> low v' \<and> low v' < low virt + ?d" for v'
        using chunk_mapped [OF l2 al [unfolded v_def] lv [unfolded v_def], of v' phys r mt]
          page_no_aligned [OF al, of v'] that lv
        by (simp add: tr v_def p_def add.assoc)
      have "\<exists>used. pool m = used @ pool m'"
        using e(3) post unfolding span_post_def by (metis append_assoc)
      moreover have "if low virt + dn \<le> low v' \<and> low v' < low virt + sz
            then mapped_as virt phys r mt v' (translate root v' m')
              \<or> res \<noteq> Inr () \<and> translate root v' m' = translate root v' m
            else translate root v' m' = translate root v' m" for v'
        using post [unfolded span_post_def] mp [of v'] tr [of v'] f(3)
        by (cases "low v' < low virt + ?d") (auto split: if_splits)
      ultimately show ?thesis using post by (simp add: span_post_def)
    qed
  qed
qed

definition sample_tree :: phys where
  "sample_tree = \<lparr>entries = (\<lambda>_ _. 0), pool = [0x2000, 0x3000, 0x4000, 0x5000]\<rparr>"

lemma sample_tree_ok: "space_ok sample_tree 0x1000"
proof -
  have "entries sample_tree 0x1000 = (\<lambda>_. 0)" by (simp add: sample_tree_def)
  note e = empty_table [OF this]
  have "pool_ok sample_tree {0x1000}"
    by (simp add: pool_ok_def sample_tree_def frame_ok_def PTE_ADDR_MASK_def)
  then show ?thesis by (simp add: space_ok_def e)
qed

lemma map_as_effect:
  assumes "space_ok m root" "low virt + unat sz \<le> 2 ^ 48" "unat phys + unat sz \<le> 2 ^ 52"
    and "map_as gib root virt phys sz r mt m = (res, m')"
  shows "space_ok m' root
    \<and> (\<not> (low virt \<le> low v \<and> low v < low virt + unat sz) \<longrightarrow> translate root v m' = translate root v m)
    \<and> (low virt \<le> low v \<and> low v < low virt + unat sz \<longrightarrow>
        mapped_as virt phys r mt v (translate root v m')
        \<or> res \<noteq> Inr () \<and> translate root v m' = translate root v m)
    \<and> ((\<exists>a \<in> {virt, phys, sz}. \<not> 4096 dvd unat a) \<longrightarrow> res = Inl Misaligned \<and> m' = m)"
proof (cases "\<exists>a \<in> {virt, phys, sz}. \<not> 4096 dvd unat a")
  case True
  then have "res = Inl Misaligned" "m' = m"
    using assms(4) by (auto simp: map_as_def is_multiple_of_dvd PAGE_SIZE_def)
  with assms(1) show ?thesis by simp
next
  case False
  then have "map_loop gib root virt phys r mt (unat sz) 0 m = (res, m')"
    using assms(4) by (simp add: map_as_def is_multiple_of_dvd PAGE_SIZE_def)
  then have "span_post root virt phys r mt (unat sz) 0 m res m'"
    by (rule map_loop_effect) (use assms False in simp_all)
  then show ?thesis using False by (auto simp: span_post_def split: if_splits)
qed

text \<open>C11: Mapping a range installs exactly that range. Whatever the mapper returns, the tree stays well
  formed and every address outside \<open>[virt, virt + size)\<close> translates as before; on success every address
  inside translates to the frame at the same offset with exactly the rights and the memory type asked
  for, and after a failure (no frame left, or a large page in the way) an address inside is either still
  what it was or already mapped as asked. A misaligned call changes nothing.\<close>

theorem map_as_correct:
  assumes "space_ok m root" "low virt + unat sz \<le> 2 ^ 48" "unat phys + unat sz \<le> 2 ^ 52"
    and "map_as gib root virt phys sz r mt m = (res, m')"
  shows "space_ok m' root
    \<and> (\<not> (low virt \<le> low v \<and> low v < low virt + unat sz) \<longrightarrow> translate root v m' = translate root v m)
    \<and> (low virt \<le> low v \<and> low v < low virt + unat sz \<longrightarrow>
        mapped_as virt phys r mt v (translate root v m')
        \<or> res \<noteq> Inr () \<and> translate root v m' = translate root v m)
    \<and> ((\<exists>a \<in> {virt, phys, sz}. \<not> 4096 dvd unat a) \<longrightarrow> res = Inl Misaligned \<and> m' = m)"
  using assms by (rule map_as_effect)

lemma sample_map:
  "fst (map_as False 0x1000 0x400000 0x200000 0x1000 (to_user RW) NormalMemory sample_tree) = Inr ()"
  by code_simp

theorem map_as_correct_witness:
  "mapped_as 0x400000 0x200000 (to_user RW) NormalMemory 0x400234 (translate 0x1000 0x400234
    (snd (map_as False 0x1000 0x400000 0x200000 0x1000 (to_user RW) NormalMemory sample_tree)))"
proof -
  let ?x = "map_as False 0x1000 0x400000 0x200000 0x1000 (to_user RW) NormalMemory sample_tree"
  have "?x = (Inr (), snd ?x)" using sample_map by (simp add: prod_eq_iff)
  from map_as_correct [OF sample_tree_ok _ _ this, of "0x400234"] show ?thesis
    by (simp add: low_def)
qed

section \<open>Unmapping\<close>

definition cleared :: "u64 \<Rightarrow> nat \<Rightarrow> nat \<Rightarrow> u64 \<Rightarrow> phys \<Rightarrow> phys \<Rightarrow> bool" where
  "cleared v l w t m m' \<longleftrightarrow>
     tree_ok m' w t \<and> tables m' w t \<subseteq> tables m w t \<and> pool m' = pool m
     \<and> (\<forall>v'. lookup m' v' w t = (if same_page v v' l w then None else lookup m v' w t))
     \<and> (\<forall>x. x \<notin> tables m w t \<longrightarrow> entries m' x = entries m x)
     \<and> (no_user m w t \<longrightarrow> no_user m' w t)"

lemma cleared_here:
  assumes "tree_ok m w t"
  shows "cleared v w w t m (write_entry t (index v w) 0 m)"
proof -
  let ?m = "write_entry t (index v w) 0 m"
  have "entries ?m = (entries m)(t := (entries m t)(index v w := 0))" by (simp add: write_entry_def)
  note w = write_leaf [OF assms _ index_bound this]
  show ?thesis
    unfolding cleared_def same_page_self
  proof (intro conjI allI impI)
    fix v'
    show "lookup ?m v' w t = (if index v' w = index v w then None else lookup m v' w t)"
      using w(3) [of v'] by (simp add: is_table_def)
  qed (use w tables_self [of t m w] in \<open>auto simp: is_table_def write_entry_def\<close>)
qed

lemma lookup_level: "lookup m v w t = Some (l, e) \<Longrightarrow> l \<le> w"
  by (induction w arbitrary: t) (auto simp: Let_def split: if_splits intro: le_SucI)

lemma clear_leaf_ok:
  assumes "tree_ok m w t" "lookup m v w t = Some (l, e)"
  shows "cleared v l w t m (clear_leaf v w t m)"
  using assms
proof (induction w arbitrary: t)
  case 0
  then show ?case
    using cleared_here [of m 0 t v] by (auto simp: clear_leaf.simps [of v 0] Let_def read_entry_def split: if_splits)
next
  case (Suc k)
  let ?i = "index v (Suc k)" and ?e = "entries m t (index v (Suc k))"
  show ?case
  proof (cases "bit ?e 7")
    case True
    then have "l = Suc k" using Suc.prems(2) by (auto simp: Let_def split: if_splits)
    then show ?thesis
      using True cleared_here [OF Suc.prems(1), of v] by (simp add: clear_leaf.simps [of v "Suc k"] pte_bits read_entry_def)
  next
    case False
    let ?c = "?e AND PTE_ADDR_MASK" and ?m = "clear_leaf v k (?e AND PTE_ADDR_MASK) m"
    have lk: "lookup m v k ?c = Some (l, e)" and e: "is_table ?e"
      using Suc.prems(2) False by (auto simp: Let_def is_table_def split: if_splits)
    have old: "tree_ok m k ?c" "bit ?e 1" "\<not> bit ?e 63" "bit ?e 2 \<or> no_user m k ?c" "t \<notin> tables m k ?c"
      using Suc.prems(1) e index_bound [of v "Suc k"] by auto
    note d = Suc.IH [OF old(1) lk, unfolded cleared_def]
    have go: "clear_leaf v (Suc k) t m = ?m"
      using False by (simp add: clear_leaf.simps [of v "Suc k"] pte_bits read_entry_def)
    have t: "entries ?m t = entries m t" using d old(5) by blast
    have sib: "tables m k ?c \<inter> tables m k (entries m t j AND PTE_ADDR_MASK) = {}"
      if "j < 512" "j \<noteq> ?i" "is_table (entries m t j)" for j
      using Suc.prems(1) e that index_bound [of v "Suc k"] by auto
    have "child_changed m ?m k t ?i ?e"
      unfolding child_changed_def
    proof (intro conjI allI impI ballI)
      show "bit ?e 2 \<or> no_user ?m k ?c" using old(4) d by blast
      show "t \<notin> tables ?m k ?c" using d old(5) by blast
      fix j assume j: "j < 512" "j \<noteq> ?i" "is_table (entries m t j)"
      show "entries ?m x = entries m x" if "x \<in> tables m k (entries m t j AND PTE_ADDR_MASK)" for x
        using sib [OF j] that d by blast
      show "tables ?m k ?c \<inter> tables m k (entries m t j AND PTE_ADDR_MASK) = {}"
        using sib [OF j] d by blast
    qed (use e old t d index_bound in \<open>auto\<close>)
    note sp = splice [OF Suc.prems(1) this]
    have sub: "tables m k ?c \<subseteq> tables m (Suc k) t" using e index_bound [of v "Suc k"] by auto
    have lv: "l \<le> k" using lookup_level [OF lk] .
    show ?thesis
      unfolding go cleared_def
    proof (intro conjI allI impI)
      show "tree_ok ?m (Suc k) t" by (rule sp(1))
      show "tables ?m (Suc k) t \<subseteq> tables m (Suc k) t" using sp(2) d sub by blast
      show "pool ?m = pool m" using d by blast
      fix v'
      have "lookup m v' (Suc k) t = lookup m v' k ?c" if "index v' (Suc k) = ?i"
        using that is_table_bits [OF e] by (simp add: Let_def)
      then show "lookup ?m v' (Suc k) t = (if same_page v v' l (Suc k) then None else lookup m v' (Suc k) t)"
        using sp(3) [of v'] d same_page_Suc [OF lv, of v v'] by auto
    next
      fix x assume "x \<notin> tables m (Suc k) t"
      then show "entries ?m x = entries m x" using d sub by blast
    next
      assume n: "no_user m (Suc k) t"
      then have "\<not> bit ?e 2" using is_table_bits [OF e] index_bound [of v "Suc k"] by simp
      then show "no_user ?m (Suc k) t" using sp(4) n by blast
    qed
  qed
qed

lemma unmap_effect:
  assumes "space_ok m root" and "unmap root v m = (x, m')"
  shows "space_ok m' root \<and> pool m' = pool m \<and> x = translate root v m
    \<and> translate root v' m' =
        (case x of None \<Rightarrow> translate root v' m
         | Some t \<Rightarrow> if low v' div unat (t_page_size t) = low v div unat (t_page_size t) then None
                   else translate root v' m)"
proof (cases "lookup m v 3 root")
  case None
  then have "translate root v m = None" using assms(1) by (simp add: translate_lookup space_ok_def)
  with assms show ?thesis by (auto simp: unmap_def)
next
  case (Some le)
  obtain l e where le: "lookup m v 3 root = Some (l, e)" using Some by (cases le) simp
  have l: "l \<le> 2" and ok: "tree_ok m 3 root" using assms(1) le by (auto simp: space_ok_def)
  have x: "x = translate root v m" "m' = clear_leaf v 3 root m"
    "translate root v m = Some (leaf_translation v (l, e))"
    using assms ok le by (auto simp: unmap_def translate_lookup)
  note c = clear_leaf_ok [OF ok le, folded x(2), unfolded cleared_def]
  have sp: "space_ok m' root"
    using assms(1) c by (auto simp: space_ok_def pool_ok_def split: if_splits)
  have "t_page_size (leaf_translation v (l, e)) = level_size l" by (simp add: leaf_translation_def)
  moreover have "translate root v' m' = (if same_page v v' l 3 then None else translate root v' m)"
    using c ok by (simp add: translate_lookup)
  ultimately show ?thesis
    using x c sp by (simp add: same_page_no page_no_def level_size_pow(2) [OF l])
qed

text \<open>Unmapping removes exactly one page. The page the address lies in, of the size it was mapped
  with, stops translating; every other address translates as before, no table is freed and no frame is
  taken; an address that was not mapped leaves the tables as they are; the caller gets back the
  translation that was removed.\<close>

theorem unmap_correct:
  assumes "space_ok m root" and "unmap root v m = (x, m')"
  shows "space_ok m' root \<and> pool m' = pool m \<and> x = translate root v m
    \<and> translate root v' m' =
        (case x of None \<Rightarrow> translate root v' m
         | Some t \<Rightarrow> if low v' div unat (t_page_size t) = low v div unat (t_page_size t) then None
                   else translate root v' m)"
  using assms by (rule unmap_effect)

text \<open>The tree after one mapping, and one page taken out of it.\<close>

definition mapped_tree :: phys where
  "mapped_tree = snd (map_as False 0x1000 0x400000 0x200000 0x1000 (to_user RW) NormalMemory sample_tree)"

theorem unmap_correct_witness:
  "translate 0x1000 0x400FFF (snd (unmap 0x1000 0x400234 mapped_tree)) = None"
proof -
  have ok: "space_ok mapped_tree 0x1000"
  proof -
    have "map_loop False 0x1000 0x400000 0x200000 (to_user RW) NormalMemory 0x1000 0 sample_tree
        = (fst (map_as False 0x1000 0x400000 0x200000 0x1000 (to_user RW) NormalMemory sample_tree), mapped_tree)"
      by (simp add: mapped_tree_def map_as_def is_multiple_of_def PAGE_SIZE_def)
    from map_loop_effect [OF this sample_tree_ok] show ?thesis
      by (simp add: low_def span_post_def)
  qed
  have t: "map_option t_page_size (translate 0x1000 0x400234 mapped_tree) = Some 0x1000" by code_simp
  obtain x m' where u: "unmap 0x1000 0x400234 mapped_tree = (x, m')" by fastforce
  from unmap_correct [OF ok u, of "0x400FFF"] t show ?thesis
    by (auto simp: u low_def split: option.splits)
qed

text \<open>A new mapper starts from an empty, well-formed space: it takes the next frame of the allocator
  for the root, clears it and maps nothing; with no frame left it reports \<open>OutOfFrames\<close>.\<close>

theorem mapper_new_empty:
  assumes "distinct (pool m)" "list_all frame_ok (pool m)" and "mapper_new m = (res, m')"
  shows "case res of Inl e \<Rightarrow> e = OutOfFrames \<and> pool m = [] \<and> m' = m
    | Inr root \<Rightarrow> pool m = root # pool m' \<and> space_ok m' root \<and> translate root v m' = None"
proof (cases "pool m")
  case Nil
  with assms(3) show ?thesis by (auto simp: mapper_new_def alloc_table_def)
next
  case (Cons f fs)
  then have r: "res = Inr f" "pool m' = fs" "entries m' f = (\<lambda>_. 0)"
    using assms(3) by (auto simp: mapper_new_def alloc_table_def)
  note e = empty_table [OF r(3)]
  have "space_ok m' f"
    using assms(1,2) Cons r by (auto simp: space_ok_def e pool_ok_def list_all_iff)
  moreover have "translate f v m' = None" by (simp add: translate_lookup e)
  ultimately show ?thesis using r Cons by simp
qed

theorem mapper_new_empty_witness: "space_ok (snd (mapper_new sample_tree)) 0x2000"
proof -
  have n: "mapper_new sample_tree = (Inr 0x2000, snd (mapper_new sample_tree))"
    by (simp add: mapper_new_def alloc_table_def sample_tree_def)
  have "distinct (pool sample_tree)" "list_all frame_ok (pool sample_tree)"
    by (simp_all add: sample_tree_def frame_ok_def PTE_ADDR_MASK_def)
  from mapper_new_empty [OF this n] show ?thesis by simp
qed

section \<open>The check before a user pointer is used\<close>

text \<open>Whether ring 3 could make this access itself.\<close>

definition user_may :: "phys \<Rightarrow> u64 \<Rightarrow> bool \<Rightarrow> u64 \<Rightarrow> bool" where
  "user_may m root write a =
     (case translate root a m of None \<Rightarrow> False
      | Some t \<Rightarrow> r_user (t_rights t) \<and> (write \<longrightarrow> r_write (t_rights t)))"

lemma index_div: "index v k = unat v div 4096 div 2 ^ (9 * k) mod 512"
proof -
  have "index v k = unat v div 2 ^ (12 + 9 * k) mod 2 ^ 9"
    unfolding index_take unat_take_bit by (subst unat_drop_bit_eq) (simp add: drop_bit_eq_div)
  then show ?thesis by (simp add: power_add div_mult2_eq)
qed

lemma translate_from_rights:
  "(\<And>k. index v k = index v' k) \<Longrightarrow>
    map_option t_rights (translate_from m v l t eff) = map_option t_rights (translate_from m v' l t eff)"
proof (induction l arbitrary: t eff)
  case 0
  then show ?case by (simp add: translate_from.simps [of m v 0] translate_from.simps [of m v' 0] Let_def)
next
  case (Suc l)
  then show ?case
    by (simp add: translate_from.simps [of m v "Suc l"] translate_from.simps [of m v' "Suc l"] Let_def)
qed

lemma user_may_rights: "user_may m root write a \<longleftrightarrow>
    (case map_option t_rights (translate root a m) of None \<Rightarrow> False
     | Some r \<Rightarrow> r_user r \<and> (write \<longrightarrow> r_write r))"
  by (simp add: user_may_def split: option.split)

lemma user_may_page: "unat a div 4096 = unat b div 4096 \<Longrightarrow> user_may m root write a = user_may m root write b"
  unfolding user_may_rights translate_def
  using translate_from_rights [of a b] by (simp add: index_div)

lemma all_le_Suc0: "(\<forall>j \<le> Suc n. P j) \<longleftrightarrow> P 0 \<and> (\<forall>j \<le> n. P (Suc j))"
  by (metis Suc_le_mono not0_implies_Suc zero_le)

lemma pages_ok_iff: "pages_ok s w page n m \<longleftrightarrow>
    (\<forall>j \<le> n. user_may m (as_root s) w (page + word_of_nat j * 4096))"
proof (induction n arbitrary: page)
  case 0
  show ?case by (simp add: pages_ok.simps [of s w page 0] user_may_def split: option.split)
next
  case (Suc n)
  have "(\<forall>j \<le> Suc n. user_may m (as_root s) w (page + word_of_nat j * 4096)) \<longleftrightarrow>
      user_may m (as_root s) w page
      \<and> (\<forall>j \<le> n. user_may m (as_root s) w (page + word_of_nat (Suc j) * 4096))"
    unfolding all_le_Suc0 by simp
  then show ?case
    by (simp add: pages_ok.simps [of s w page "Suc n"] Suc user_may_def PAGE_SIZE_def algebra_simps
        split: option.split)
qed

lemma page_floor: "unat (a AND NOT (PAGE_SIZE - 1)) = unat a div 4096 * 4096"
proof -
  have m: "a AND NOT (PAGE_SIZE - 1) = a AND NOT (mask 12)"
    by (simp add: PAGE_SIZE_def mask_eq_exp_minus_1)
  have "push_bit 12 (drop_bit 12 a) = a AND NOT (mask 12)"
    by (rule u64_eqI) (auto simp: bit_simps)
  then have "(a AND NOT (mask 12)) + take_bit 12 a = a" using bits_ident [of 12 a] by simp
  then have e: "a AND NOT (mask 12) = a - take_bit 12 a" by (metis add_diff_cancel_right')
  have t: "unat (take_bit 12 a) = unat a mod 4096" using unat_take_bit [of 12 a] by simp
  then have "take_bit 12 a \<le> a" by (simp add: word_le_nat_alt)
  then have "unat (a - take_bit 12 a) = unat a - unat a mod 4096"
    using t by (simp add: unat_sub)
  then show ?thesis unfolding m e by (simp add: minus_mod_eq_div_mult)
qed

lemma page_cover:
  assumes "0 < (len :: nat)"
  shows "(\<forall>j \<le> (p + len - 1) div 4096 - p div 4096. Q (p div 4096 + j)) \<longleftrightarrow> (\<forall>k < len. Q ((p + k) div 4096))"
proof (intro iffI allI impI)
  fix k assume a: "\<forall>j \<le> (p + len - 1) div 4096 - p div 4096. Q (p div 4096 + j)" and k: "k < len"
  have "p div 4096 \<le> (p + k) div 4096" "(p + k) div 4096 \<le> (p + len - 1) div 4096"
    using k by (auto intro: div_le_mono)
  then show "Q ((p + k) div 4096)" using a [rule_format, OF diff_le_mono, of "(p + k) div 4096"] by simp
next
  fix j assume a: "\<forall>k < len. Q ((p + k) div 4096)" and j: "j \<le> (p + len - 1) div 4096 - p div 4096"
  show "Q (p div 4096 + j)"
  proof (cases "j = 0")
    case True
    then show ?thesis using a [rule_format, of 0] assms by simp
  next
    case False
    let ?b = "(p div 4096 + j) * 4096"
    have "p div 4096 + j \<le> (p + len - 1) div 4096" using j False by simp
    then have "?b \<le> p + len - 1" by (simp add: less_eq_div_iff_mult_less_eq)
    moreover have "p < ?b"
    proof -
      have "1 \<le> j" "p mod 4096 < 4096" using False by simp_all
      then have "p < p div 4096 * 4096 + 4096" "4096 \<le> j * 4096" using div_mult_mod_eq [of p 4096] by linarith+
      then show ?thesis unfolding add_mult_distrib by linarith
    qed
    ultimately show ?thesis using a [rule_format, of "?b - p"] by simp
  qed
qed

text \<open>The check the kernel makes on a user pointer is exact. \<open>range_ok\<close> accepts \<open>[ptr, ptr + len)\<close>
  precisely when the range is empty, or when it ends at or below the first address ring 3 can never
  own, without wrapping, and every single byte of it translates through the task's own tree to a page
  ring 3 may read, and may write when the kernel is about to.\<close>

theorem range_ok_exact:
  "range_ok s ptr len w m \<longleftrightarrow>
     len = 0 \<or> unat ptr + unat len \<le> 2 ^ 47
       \<and> list_all (\<lambda>k. user_may m (as_root s) w (ptr + word_of_nat k)) [0 ..< unat len]"
proof (cases "len = 0 \<or> \<not> unat ptr + unat len \<le> 2 ^ 47")
  case True
  have "USER_LIMIT \<le> ptr \<or> USER_LIMIT - ptr < len" if "\<not> unat ptr + unat len \<le> 2 ^ 47"
  proof (cases "USER_LIMIT \<le> ptr")
    case False
    then have "unat (USER_LIMIT - ptr) = 2 ^ 47 - unat ptr"
      by (subst unat_sub) (simp_all add: USER_LIMIT_def)
    moreover have "unat ptr < 2 ^ 47" using False by (simp add: USER_LIMIT_def word_le_nat_alt)
    ultimately show ?thesis using that unfolding word_less_nat_alt by linarith
  qed simp
  with True show ?thesis by (auto simp: range_ok_def)
next
  case False
  then have len: "len \<noteq> 0" "0 < unat len" and top: "unat ptr + unat len \<le> 2 ^ 47"
    by (auto simp: unat_gt_0)
  then have below: "\<not> USER_LIMIT \<le> ptr" by (simp add: USER_LIMIT_def word_le_nat_alt)
  then have "unat (USER_LIMIT - ptr) = 2 ^ 47 - unat ptr"
    by (subst unat_sub) (simp_all add: USER_LIMIT_def)
  then have inside: "\<not> USER_LIMIT - ptr < len" using top by (simp add: word_less_nat_alt)
  let ?first = "ptr AND NOT (PAGE_SIZE - 1)" and ?last = "(ptr + len - 1) AND NOT (PAGE_SIZE - 1)"
  let ?P = "unat ptr div 4096" and ?n = "(unat ptr + unat len - 1) div 4096 - unat ptr div 4096"
  let ?Q = "\<lambda>pg. \<forall>a. unat a div 4096 = pg \<longrightarrow> user_may m (as_root s) w a"
  have e: "unat (ptr + len - 1) = unat ptr + unat len - 1"
  proof -
    have "unat (ptr + len) = unat ptr + unat len" by (rule unat_add_exact) (use top in simp)
    moreover have "1 \<le> ptr + len" using calculation len by (simp add: word_le_nat_alt)
    ultimately show ?thesis by (simp add: unat_sub)
  qed
  have le: "?first \<le> ?last"
    unfolding word_le_nat_alt page_floor e using len(2) by (intro mult_le_mono1 div_le_mono) simp
  have n: "unat ((?last - ?first) div PAGE_SIZE) = ?n"
    unfolding unat_div_distrib unat_sub [OF le] page_floor e
    by (simp add: PAGE_SIZE_def diff_mult_distrib [symmetric])
  have pg: "unat (?first + word_of_nat j * 4096) div 4096 = ?P + j" if "j \<le> ?n" for j
  proof -
    have "?P + j \<le> (unat ptr + unat len - 1) div 4096"
      using that div_le_mono [of "unat ptr" "unat ptr + unat len - 1" 4096] len(2) by linarith
    then have b: "(?P + j) * 4096 \<le> 2 ^ 47" using top by (simp add: less_eq_div_iff_mult_less_eq)
    have "word_of_nat j * 4096 = (word_of_nat (j * 4096) :: u64)" by simp
    then have "unat (?first + word_of_nat j * 4096) = unat ptr div 4096 * 4096 + j * 4096"
      using unat_offset [of ?first "j * 4096"] b by (simp add: page_floor add_mult_distrib)
    also have "\<dots> = (?P + j) * 4096" by (rule add_mult_distrib [symmetric])
    finally show ?thesis by (simp only: nonzero_mult_div_cancel_right zero_neq_numeral not_False_eq_True)
  qed
  have off: "unat (ptr + word_of_nat k) = unat ptr + k" if "k < unat len" for k
    by (rule unat_offset) (use that top in simp)
  have q: "user_may m (as_root s) w a = ?Q pg" if "unat a div 4096 = pg" for a pg
    using user_may_page that by blast
  have "range_ok s ptr len w m \<longleftrightarrow> (\<forall>j \<le> ?n. user_may m (as_root s) w (?first + word_of_nat j * 4096))"
    using len below inside by (simp only: range_ok_def Let_def n pages_ok_iff if_False simp_thms)
  also have "\<dots> \<longleftrightarrow> (\<forall>j \<le> ?n. ?Q (?P + j))"
    by (rule all_cong) (rule q, rule pg)
  also have "\<dots> \<longleftrightarrow> (\<forall>k < unat len. ?Q ((unat ptr + k) div 4096))" by (rule page_cover [OF len(2)])
  also have "\<dots> \<longleftrightarrow> (\<forall>k < unat len. user_may m (as_root s) w (ptr + word_of_nat k))"
    by (rule all_cong) (rule q [symmetric], simp only: off)
  finally show ?thesis using len top by (auto simp: list_all_iff)
qed

end
