(* ===== verification/Sched.thy ===== *)
theory Sched imports Endpoint AddrSpace begin

text \<open>
  Round-robin scheduling, \<open>crates/kernel/src/sched.rs\<close>: task slots, the per-core statics, and every
  way a core leaves or enters a task. A context switch is a jump, so a function of the source that
  switches is modelled up to the switch, with what the abandoned code will do when it is resumed
  kept as the saved context of the task (\<open>resume_point\<close>); the code after the switch is run by the
  context that was switched to (\<open>post_switch\<close> here, the rest in the theory Kernel). A panic
  (\<open>assert!\<close>, \<open>expect\<close>, an index out of range) is the result \<open>None\<close>.
\<close>

section \<open>Tasks\<close>

datatype task_state = Ready | Running | Blocked | Dead

text \<open>Where a task continues when it is switched in: its trampoline, inside \<open>yield_now\<close>, inside
  \<open>on_irq_epilogue\<close>, or inside the \<open>send\<close> or the \<open>recv\<close> that parked it.\<close>

datatype resume_point = ResumeFresh | ResumeYield | ResumePreempt | ResumeSend | ResumeRecv

text \<open>\<open>SyscallFrame\<close> of \<open>arch-x86_64/src/syscall.rs\<close>, which lives on the task's kernel stack while a
  syscall is served.\<close>

record syscall_frame =
  f_rax :: u64
  f_rdi :: u64
  f_rsi :: u64
  f_rdx :: u64
  f_r10 :: u64
  f_r8 :: u64
  f_r9 :: u64
  f_rip :: u64
  f_rflags :: u64
  f_user_rsp :: u64

definition frame_zero :: syscall_frame where
  "frame_zero = \<lparr>f_rax = 0, f_rdi = 0, f_rsi = 0, f_rdx = 0, f_r10 = 0, f_r8 = 0, f_r9 = 0,
     f_rip = 0, f_rflags = 0, f_user_rsp = 0\<rparr>"

text \<open>A task slot. \<open>t_stack\<close> is the number of words its kernel stack holds, 0 once reclaimed;
  \<open>t_frame\<close> and \<open>t_corrupt\<close> are what the syscall path keeps on that stack across a switch.\<close>

record 'm task =
  t_ctx :: resume_point
  t_stack :: nat
  t_stack_top :: u64
  t_cr3 :: u64
  t_space :: "address_space option"
  t_caps :: cap_table
  t_mailbox :: "'m kmessage option"
  t_state :: task_state
  t_id :: nat
  t_name :: string
  t_frame :: syscall_frame
  t_corrupt :: bool

definition STACK_WORDS :: nat where
  "STACK_WORDS = 4096"

section \<open>The scheduler\<close>

text \<open>\<open>Scheduler\<close> with the per-core statics and the registers \<open>enter\<close> writes, each indexed by core;
  \<open>NONE\<close> is \<open>None\<close>. \<open>torn_down\<close> records the address spaces handed to \<open>AddressSpace::destroy\<close>, each
  with the tree that was in the core's \<open>CR3\<close> at that moment.\<close>

record 'm sched =
  tasks :: "'m task list"
  current :: "nat \<Rightarrow> nat option"
  need_resched :: "nat \<Rightarrow> bool"
  prev_slot :: "nat \<Rightarrow> nat option"
  tss_rsp0 :: "nat \<Rightarrow> u64"
  syscall_rsp :: "nat \<Rightarrow> u64"
  cr3 :: "nat \<Rightarrow> u64"
  kernel_root :: u64
  switches :: u64
  preemptions :: u64
  yields :: u64
  blocks :: u64
  wakeups :: u64
  died_blocked :: u64
  reaped_stacks :: u64
  reaped_words :: u64
  reaped_spaces :: u64
  torn_down :: "(address_space \<times> u64) list"

definition upd_task :: "nat \<Rightarrow> ('m task \<Rightarrow> 'm task) \<Rightarrow> 'm sched \<Rightarrow> 'm sched" where
  "upd_task i f s = s\<lparr>tasks := (tasks s)[i := f (tasks s ! i)]\<rparr>"

definition set_state :: "nat \<Rightarrow> task_state \<Rightarrow> 'm sched \<Rightarrow> 'm sched" where
  "set_state i st s = upd_task i (\<lambda>t. t\<lparr>t_state := st\<rparr>) s"

definition first_ready :: "'m sched \<Rightarrow> nat option" where
  "first_ready s = position (\<lambda>t. t_state t = Ready) (tasks s)"

definition pick_next :: "nat \<Rightarrow> 'm sched \<Rightarrow> nat option" where
  "pick_next from_slot s =
     (let n = length (tasks s) in
      if n = 0 then None
      else List.find (\<lambda>i. t_state (tasks s ! i) = Ready)
             (map (\<lambda>off. (from_slot + off) mod n) [1..<n + 1]))"

definition enter :: "nat \<Rightarrow> u64 option \<Rightarrow> u64 option \<Rightarrow> 'm sched \<Rightarrow> 'm sched" where
  "enter cpu stk tree s =
     (let s1 = (case stk of
                  Some t \<Rightarrow> s\<lparr>tss_rsp0 := (tss_rsp0 s)(cpu := t), syscall_rsp := (syscall_rsp s)(cpu := t)\<rparr>
                | None \<Rightarrow> s)
      in case tree of
           None \<Rightarrow> s1
         | Some r \<Rightarrow> if cr3 s1 cpu \<noteq> r then s1\<lparr>cr3 := (cr3 s1)(cpu := r)\<rparr> else s1)"

definition current_space :: "nat \<Rightarrow> 'm sched \<Rightarrow> address_space option" where
  "current_space cpu s = (case current s cpu of None \<Rightarrow> None | Some i \<Rightarrow> t_space (tasks s ! i))"

definition in_task :: "nat \<Rightarrow> 'm sched \<Rightarrow> bool" where
  "in_task cpu s \<longleftrightarrow> current s cpu \<noteq> None"

definition current_name :: "nat \<Rightarrow> 'm sched \<Rightarrow> string" where
  "current_name cpu s =
     (case current s cpu of None \<Rightarrow> ''bootstrap'' | Some i \<Rightarrow> t_name (tasks s ! i))"

definition blocked_tasks :: "'m sched \<Rightarrow> nat" where
  "blocked_tasks s = length (filter (\<lambda>t. t_state t = Blocked) (tasks s))"

definition task_count :: "'m sched \<Rightarrow> nat" where
  "task_count s = length (tasks s)"

section \<open>Spawning\<close>

text \<open>\<open>spawn_with\<close>: \<open>heap_ok\<close> is the heap's answer to the allocations on the way, \<open>stack_base\<close> the
  address of the new stack. A user task runs in its own tree, a kernel thread in the current one.\<close>

definition spawn_with ::
  "nat \<Rightarrow> bool \<Rightarrow> u64 \<Rightarrow> string \<Rightarrow> address_space option \<Rightarrow> cap_table \<Rightarrow> 'm sched \<Rightarrow> bool \<times> 'm sched" where
  "spawn_with cpu heap_ok stack_base name space caps s =
     (if \<not> heap_ok then (False, s)
      else (True, s\<lparr>tasks := tasks s @
        [\<lparr>t_ctx = ResumeFresh, t_stack = STACK_WORDS,
          t_stack_top = (stack_base + word_of_nat STACK_WORDS * 8) AND NOT 0xf,
          t_cr3 = (case space of Some sp \<Rightarrow> as_root sp | None \<Rightarrow> cr3 s cpu),
          t_space = space, t_caps = caps, t_mailbox = None, t_state = Ready,
          t_id = length (tasks s), t_name = name, t_frame = frame_zero, t_corrupt = False\<rparr>]\<rparr>))"

section \<open>Switching\<close>

text \<open>Enter slot \<open>next\<close>: what every path that picked a task does under the lock and after it.\<close>

definition switch_to :: "nat \<Rightarrow> nat \<Rightarrow> 'm sched \<Rightarrow> 'm sched" where
  "switch_to cpu nxt s =
     (let s1 = (set_state nxt Running s)\<lparr>current := (current s)(cpu := Some nxt)\<rparr>;
          t = tasks s1 ! nxt;
          s2 = enter cpu (Some (t_stack_top t)) (Some (t_cr3 t)) s1
      in s2\<lparr>switches := switches s2 + 1\<rparr>)"

text \<open>Enter the bootstrap context, when nothing is runnable.\<close>

definition switch_to_bootstrap :: "nat \<Rightarrow> 'm sched \<Rightarrow> 'm sched" where
  "switch_to_bootstrap cpu s =
     (let s1 = s\<lparr>current := (current s)(cpu := None)\<rparr>;
          s2 = enter cpu None (Some (kernel_root s1)) s1
      in s2\<lparr>switches := switches s2 + 1\<rparr>)"

text \<open>One turn of the loop of \<open>start\<close>, up to its context switch; false when nothing is ready.\<close>

definition start_turn :: "nat \<Rightarrow> 'm sched \<Rightarrow> bool \<times> 'm sched" where
  "start_turn cpu s =
     (case first_ready s of
        None \<Rightarrow> (False, s)
      | Some first \<Rightarrow> (True, switch_to cpu first (s\<lparr>prev_slot := (prev_slot s)(cpu := None)\<rparr>)))"

text \<open>\<open>reschedule\<close>, up to its context switch; \<open>ctx\<close> is where the caller will continue.\<close>

definition reschedule :: "nat \<Rightarrow> resume_point \<Rightarrow> 'm sched \<Rightarrow> bool \<times> 'm sched" where
  "reschedule cpu ctx s =
     (case current s cpu of
        None \<Rightarrow> (False, s)
      | Some prev \<Rightarrow>
          (case pick_next prev s of
             None \<Rightarrow> (False, s)
           | Some nxt \<Rightarrow>
               let s1 = (if t_state (tasks s ! prev) = Running then set_state prev Ready s else s);
                   s2 = upd_task prev (\<lambda>t. t\<lparr>t_ctx := ctx\<rparr>)
                          (s1\<lparr>prev_slot := (prev_slot s1)(cpu := Some prev)\<rparr>)
               in (True, switch_to cpu nxt s2)))"

definition request_resched :: "nat \<Rightarrow> 'm sched \<Rightarrow> 'm sched" where
  "request_resched cpu s = s\<lparr>need_resched := (need_resched s)(cpu := True)\<rparr>"

definition on_irq_epilogue :: "nat \<Rightarrow> 'm sched \<Rightarrow> bool \<times> 'm sched" where
  "on_irq_epilogue cpu s =
     (let s1 = s\<lparr>need_resched := (need_resched s)(cpu := False)\<rparr> in
      if need_resched s cpu then reschedule cpu ResumePreempt s1 else (False, s1))"

definition park_and_switch :: "nat \<Rightarrow> resume_point \<Rightarrow> 'm sched \<Rightarrow> 'm sched option" where
  "park_and_switch cpu ctx s =
     (case current s cpu of
        None \<Rightarrow> None
      | Some prev \<Rightarrow>
          let s1 = set_state prev Blocked s;
              s2 = s1\<lparr>blocks := blocks s1 + 1, prev_slot := (prev_slot s1)(cpu := Some prev)\<rparr>;
              s3 = upd_task prev (\<lambda>t. t\<lparr>t_ctx := ctx\<rparr>) s2
          in Some (case pick_next prev s3 of
                     Some nxt \<Rightarrow> switch_to cpu nxt s3
                   | None \<Rightarrow> switch_to_bootstrap cpu s3))"

text \<open>The switch of \<open>exit\<close>, after the task has left every wait queue.\<close>

definition exit_switch :: "nat \<Rightarrow> 'm sched \<Rightarrow> 'm sched option" where
  "exit_switch cpu s =
     (case current s cpu of
        None \<Rightarrow> None
      | Some prev \<Rightarrow>
          let s1 = set_state prev Dead s;
              s2 = s1\<lparr>prev_slot := (prev_slot s1)(cpu := Some prev)\<rparr>
          in Some (case pick_next prev s2 of
                     Some nxt \<Rightarrow> switch_to cpu nxt s2
                   | None \<Rightarrow> switch_to_bootstrap cpu s2))"

text \<open>\<open>post_switch\<close>: settle the task this core switched away from, and reclaim it if it is dead.\<close>

definition post_switch :: "nat \<Rightarrow> 'm sched \<Rightarrow> 'm sched" where
  "post_switch cpu s =
     (case prev_slot s cpu of
        None \<Rightarrow> s
      | Some p \<Rightarrow>
          let s0 = s\<lparr>prev_slot := (prev_slot s)(cpu := None)\<rparr>;
              t = tasks s0 ! p;
              dead = (t_state t = Dead);
              s1 = (if dead \<and> t_stack t \<noteq> 0
                    then (upd_task p (\<lambda>t. t\<lparr>t_stack := 0\<rparr>) s0)
                           \<lparr>reaped_stacks := reaped_stacks s0 + 1,
                            reaped_words := reaped_words s0 + word_of_nat (t_stack t)\<rparr>
                    else s0);
              space = (if dead then t_space t else None);
              s2 = (if dead
                    then upd_task p (\<lambda>t. t\<lparr>t_space := None, t_caps := [], t_mailbox := None\<rparr>) s1
                    else s1)
          in case space of
               None \<Rightarrow> s2
             | Some sp \<Rightarrow> s2\<lparr>torn_down := torn_down s2 @ [(sp, cr3 s2 cpu)], reaped_spaces := reaped_spaces s2 + 1\<rparr>)"

section \<open>What IPC asks of the scheduler\<close>

definition current_id :: "nat \<Rightarrow> 'm sched \<Rightarrow> nat option" where
  "current_id cpu s = current s cpu"

definition unblock :: "nat \<Rightarrow> 'm sched \<Rightarrow> 'm sched option" where
  "unblock task s =
     (if task < length (tasks s)
      then Some (if t_state (tasks s ! task) = Blocked
                 then (set_state task Ready s)\<lparr>wakeups := wakeups s + 1\<rparr> else s)
      else None)"

definition deliver :: "nat \<Rightarrow> 'm kmessage \<Rightarrow> 'm sched \<Rightarrow> 'm sched option" where
  "deliver task km s =
     (if task < length (tasks s)
      then let s1 = upd_task task (\<lambda>t. t\<lparr>t_mailbox := Some km\<rparr>) s
           in Some (if t_state (tasks s1 ! task) = Blocked
                    then (set_state task Ready s1)\<lparr>wakeups := wakeups s1 + 1\<rparr> else s1)
      else None)"

text \<open>The end of \<open>block_for_message\<close>, once the task is running again.\<close>

definition take_mailbox :: "nat \<Rightarrow> 'm sched \<Rightarrow> ('m kmessage \<times> 'm sched) option" where
  "take_mailbox cpu s =
     (case current s cpu of
        None \<Rightarrow> None
      | Some i \<Rightarrow>
          (case t_mailbox (tasks s ! i) of
             None \<Rightarrow> None
           | Some km \<Rightarrow> Some (km, upd_task i (\<lambda>t. t\<lparr>t_mailbox := None\<rparr>) s)))"

definition resolve_cap :: "nat \<Rightarrow> u32 \<Rightarrow> 'm sched \<Rightarrow> cap option" where
  "resolve_cap cpu handle s =
     (case current s cpu of None \<Rightarrow> None | Some i \<Rightarrow> resolve (t_caps (tasks s ! i)) handle)"

definition install_cap_current :: "nat \<Rightarrow> bool \<Rightarrow> cap \<Rightarrow> 'm sched \<Rightarrow> u32 option \<times> 'm sched" where
  "install_cap_current cpu heap_ok c s =
     (case current s cpu of
        None \<Rightarrow> (None, s)
      | Some i \<Rightarrow>
          (case install heap_ok (t_caps (tasks s ! i)) c of
             (h, caps) \<Rightarrow> (h, upd_task i (\<lambda>t. t\<lparr>t_caps := caps\<rparr>) s)))"

end
