(* ===== verification/Ipc.thy ===== *)
theory Ipc imports Sched begin

text \<open>
  \<open>send\<close> and \<open>recv\<close> of \<open>crates/kernel/src/ipc.rs\<close> over the endpoint table and the scheduler, with the
  module's counters. The endpoint lock is held for the decision only, so a call is the decision
  on the endpoint followed by what the scheduler is asked to do; a call that parks its task ends at
  the switch (\<open>Switched\<close>), and the rest of it runs when the task is resumed.
\<close>

section \<open>State\<close>

text \<open>The errors of \<open>staros_abi::error::KError\<close> this kernel answers; their encoding is the ABI
  crate's and stays a parameter of the syscall layer.\<close>

datatype kerror =
  InvalidArgument | OutOfResources | PermissionDenied | BadHandle | NoSuchSyscall | NotSupported

datatype 'a flow = Returned 'a | Switched

record 'm ipc =
  endpoints :: "'m endpoint list"
  delivered :: u64
  buffered :: u64
  send_blocks :: "u64 list"
  recv_blocks :: u64
  caps_moved :: u64
  sent :: u64
  received :: u64

definition ipc_init :: "'m \<Rightarrow> 'm ipc" where
  "ipc_init zero = \<lparr>endpoints = replicate NUM_ENDPOINTS (endpoint_new zero), delivered = 0,
     buffered = 0, send_blocks = replicate NUM_ENDPOINTS 0, recv_blocks = 0, caps_moved = 0,
     sent = 0, received = 0\<rparr>"

record ipc_stats =
  st_sent :: u64
  st_received :: u64
  st_delivered :: u64
  st_buffered :: u64
  st_send_blocks :: u64
  st_recv_blocks :: u64
  st_caps_moved :: u64

definition stats :: "'m ipc \<Rightarrow> ipc_stats" where
  "stats i = \<lparr>st_sent = sent i, st_received = received i, st_delivered = delivered i,
     st_buffered = buffered i, st_send_blocks = sum_list (send_blocks i),
     st_recv_blocks = recv_blocks i, st_caps_moved = caps_moved i\<rparr>"

definition send_blocks_on :: "nat \<Rightarrow> 'm ipc \<Rightarrow> u64" where
  "send_blocks_on ep i = (if ep < length (send_blocks i) then send_blocks i ! ep else 0)"

definition upd_endpoint :: "nat \<Rightarrow> 'm endpoint \<Rightarrow> 'm ipc \<Rightarrow> 'm ipc" where
  "upd_endpoint ep e i = i\<lparr>endpoints := (endpoints i)[ep := e]\<rparr>"

section \<open>Sending and receiving\<close>

definition ipc_send ::
  "nat \<Rightarrow> nat \<Rightarrow> 'm kmessage \<Rightarrow> 'm sched \<Rightarrow> 'm ipc \<Rightarrow>
     ((kerror + unit) flow \<times> 'm sched \<times> 'm ipc) option" where
  "ipc_send cpu ep km s i =
     (if NUM_ENDPOINTS \<le> ep then Some (Returned (Inl InvalidArgument), s, i)
      else case current_id cpu s of
        None \<Rightarrow> None
      | Some me \<Rightarrow>
          (case endpoint_send me km (endpoints i ! ep) of (action, e) \<Rightarrow>
             let i1 = upd_endpoint ep e i;
                 i2 = (if km_cap km \<noteq> None \<and> action \<noteq> SendFull
                       then i1\<lparr>caps_moved := caps_moved i1 + 1\<rparr> else i1)
             in case action of
                  SendDeliver w \<Rightarrow>
                    map_option (\<lambda>s'. (Returned (Inr ()), s',
                        i2\<lparr>delivered := delivered i2 + 1, sent := sent i2 + 1\<rparr>)) (deliver w km s)
                | SendBuffered \<Rightarrow>
                    Some (Returned (Inr ()), s, i2\<lparr>buffered := buffered i2 + 1, sent := sent i2 + 1\<rparr>)
                | SendBlock \<Rightarrow>
                    map_option (\<lambda>s'. (Switched, s',
                        i2\<lparr>send_blocks := (send_blocks i2)[ep := send_blocks i2 ! ep + 1]\<rparr>))
                      (park_and_switch cpu ResumeSend s)
                | SendFull \<Rightarrow> Some (Returned (Inl OutOfResources), s, i2)))"

text \<open>What is left of \<open>send\<close> when a sender that parked is resumed.\<close>

definition ipc_send_resumed :: "'m ipc \<Rightarrow> (kerror + unit) \<times> 'm ipc" where
  "ipc_send_resumed i = (Inr (), i\<lparr>sent := sent i + 1\<rparr>)"

definition ipc_recv ::
  "nat \<Rightarrow> nat \<Rightarrow> 'm sched \<Rightarrow> 'm ipc \<Rightarrow>
     ((kerror + 'm kmessage) flow \<times> 'm sched \<times> 'm ipc) option" where
  "ipc_recv cpu ep s i =
     (if NUM_ENDPOINTS \<le> ep then Some (Returned (Inl InvalidArgument), s, i)
      else case current_id cpu s of
        None \<Rightarrow> None
      | Some me \<Rightarrow>
          (case endpoint_recv me (endpoints i ! ep) of (action, e) \<Rightarrow>
             let i1 = upd_endpoint ep e i
             in case action of
                  RecvGot km \<Rightarrow> Some (Returned (Inr km), s, i1\<lparr>received := received i1 + 1\<rparr>)
                | RecvWakeSender km tid \<Rightarrow>
                    map_option (\<lambda>s'. (Returned (Inr km), s', i1\<lparr>received := received i1 + 1\<rparr>))
                      (unblock tid s)
                | RecvBlock \<Rightarrow>
                    map_option (\<lambda>s'. (Switched, s', i1\<lparr>recv_blocks := recv_blocks i1 + 1\<rparr>))
                      (park_and_switch cpu ResumeRecv s)
                | RecvFull \<Rightarrow> Some (Returned (Inl OutOfResources), s, i1)))"

text \<open>What is left of \<open>recv\<close> when a receiver that parked is resumed: \<open>block_for_message\<close> takes the
  mailbox, and panics if it is empty.\<close>

definition ipc_recv_resumed :: "nat \<Rightarrow> 'm sched \<Rightarrow> 'm ipc \<Rightarrow> ('m kmessage \<times> 'm sched \<times> 'm ipc) option" where
  "ipc_recv_resumed cpu s i =
     (case take_mailbox cpu s of
        None \<Rightarrow> None
      | Some (km, s') \<Rightarrow> Some (km, s', i\<lparr>received := received i + 1\<rparr>))"

section \<open>Waiters\<close>

fun find_waiting :: "nat \<Rightarrow> nat \<Rightarrow> 'm endpoint list \<Rightarrow> (nat \<times> bool) option" where
  "find_waiting task ep [] = None"
| "find_waiting task ep (e # es) =
     (if task \<in> set (recv_items e) then Some (ep, False)
      else if \<exists>(t, km) \<in> set (send_items e). t = task then Some (ep, True)
      else find_waiting task (ep + 1) es)"

definition waiting_on :: "nat \<Rightarrow> 'm ipc \<Rightarrow> (nat \<times> bool) option" where
  "waiting_on task i = find_waiting task 0 (endpoints i)"

definition forget_task :: "nat \<Rightarrow> 'm ipc \<Rightarrow> nat \<times> 'm ipc" where
  "forget_task task i =
     (length (filter (\<lambda>e. fst (remove_waiter task e)) (endpoints i)),
      i\<lparr>endpoints := map (\<lambda>e. snd (remove_waiter task e)) (endpoints i)\<rparr>)"

text \<open>\<open>sched::exit\<close>: leave every wait queue, then die and switch away.\<close>

definition exit_task :: "nat \<Rightarrow> 'm sched \<Rightarrow> 'm ipc \<Rightarrow> ('m sched \<times> 'm ipc) option" where
  "exit_task cpu s i =
     (case current_id cpu s of
        None \<Rightarrow> None
      | Some me \<Rightarrow>
          (case forget_task me i of (queues, i') \<Rightarrow>
             let s1 = (if 0 < queues then s\<lparr>died_blocked := died_blocked s + 1\<rparr> else s)
             in map_option (\<lambda>s'. (s', i')) (exit_switch cpu s1)))"

end
