(* ===== verification/System.thy ===== *)
theory System imports Ipc begin

text \<open>
  The scheduler and the endpoints together: what is true of every task slot, of the wait queues and
  of the registers of a core between two operations, and while a context switch is under way.
  The invariant is stated slot by slot, so that an operation that touches two slots is two case
  distinctions.
\<close>

section \<open>What the wait queues say of a task\<close>

definition recv_count :: "'m ipc \<Rightarrow> nat \<Rightarrow> nat" where
  "recv_count i j = (\<Sum>e \<leftarrow> endpoints i. count_list (recv_items e) j)"

definition send_count :: "'m ipc \<Rightarrow> nat \<Rightarrow> nat" where
  "send_count i j = (\<Sum>e \<leftarrow> endpoints i. count_list (map fst (send_items e)) j)"

definition ring_total :: "'m ipc \<Rightarrow> nat" where
  "ring_total i = (\<Sum>e \<leftarrow> endpoints i. ring_len e)"

definition endpoints_ok :: "'m ipc \<Rightarrow> bool" where
  "endpoints_ok i \<longleftrightarrow> length (endpoints i) = NUM_ENDPOINTS
     \<and> length (send_blocks i) = NUM_ENDPOINTS \<and> (\<forall>e \<in> set (endpoints i). endpoint_ok e)"

section \<open>The invariant\<close>

definition space_root :: "u64 \<Rightarrow> 'm task \<Rightarrow> u64" where
  "space_root R t = (case t_space t of None \<Rightarrow> R | Some sp \<Rightarrow> as_root sp)"

text \<open>One slot. \<open>tr\<close> says that a context switch is under way, \<open>cur\<close> that the slot is the one the core
  runs, \<open>prv\<close> that it is the one the core has just left; \<open>rc\<close> and \<open>sc\<close> are how often the task
  stands in receive and in send queues. A mailbox is full exactly from the delivery to the moment the
  receiver takes the message.\<close>

definition slot_ok :: "u64 \<Rightarrow> bool \<Rightarrow> bool \<Rightarrow> bool \<Rightarrow> nat \<Rightarrow> nat \<Rightarrow> 'm task \<Rightarrow> bool" where
  "slot_ok R tr cur prv rc sc t \<longleftrightarrow>
     (t_state t = Running \<longleftrightarrow> cur)
     \<and> (t_mailbox t \<noteq> None \<longleftrightarrow> t_ctx t = ResumeRecv \<and> (t_state t = Ready \<or> tr \<and> cur))
     \<and> rc = of_bool (t_state t = Blocked \<and> t_ctx t = ResumeRecv)
     \<and> sc = of_bool (t_state t = Blocked \<and> t_ctx t = ResumeSend)
     \<and> (t_state t = Blocked \<longrightarrow> t_ctx t = ResumeRecv \<or> t_ctx t = ResumeSend)
     \<and> (if t_state t = Dead then prv \<or> t_stack t = 0 \<and> t_space t = None \<and> t_caps t = []
        else t_stack t = STACK_WORDS \<and> t_cr3 t = space_root R t)
     \<and> (\<forall>sp. t_space t = Some sp \<longrightarrow> as_root sp \<noteq> R)"

definition slots_ok :: "u64 \<Rightarrow> nat \<Rightarrow> bool \<Rightarrow> 'm sched \<Rightarrow> 'm ipc \<Rightarrow> bool" where
  "slots_ok R c tr s i \<longleftrightarrow>
     (\<forall>j < length (tasks s). slot_ok R tr (current s c = Some j) (prev_slot s c = Some j)
        (recv_count i j) (send_count i j) (tasks s ! j))"

definition roots_distinct :: "'m sched \<Rightarrow> bool" where
  "roots_distinct s \<longleftrightarrow>
     (\<forall>j k sp sp'. j < length (tasks s) \<longrightarrow> k < length (tasks s) \<longrightarrow> j \<noteq> k \<longrightarrow>
        t_space (tasks s ! j) = Some sp \<longrightarrow> t_space (tasks s ! k) = Some sp' \<longrightarrow>
        as_root sp \<noteq> as_root sp')"

definition regs_ok :: "u64 \<Rightarrow> nat \<Rightarrow> 'm sched \<Rightarrow> bool" where
  "regs_ok R c s \<longleftrightarrow>
     (case current s c of
        None \<Rightarrow> cr3 s c = R
      | Some j \<Rightarrow> kernel_root s = R \<and> cr3 s c = t_cr3 (tasks s ! j)
          \<and> tss_rsp0 s c = t_stack_top (tasks s ! j) \<and> syscall_rsp s c = t_stack_top (tasks s ! j))"

definition links_ok :: "nat \<Rightarrow> 'm sched \<Rightarrow> 'm ipc \<Rightarrow> bool" where
  "links_ok c s i \<longleftrightarrow>
     (\<forall>j. current s c = Some j \<longrightarrow> j < length (tasks s))
     \<and> (\<forall>j. prev_slot s c = Some j \<longrightarrow> j < length (tasks s) \<and> current s c \<noteq> Some j)
     \<and> (\<forall>j \<ge> length (tasks s). recv_count i j = 0 \<and> send_count i j = 0)"

text \<open>The tasks that have been woken out of the context \<open>x\<close> and have not run since.\<close>

definition woken :: "resume_point \<Rightarrow> 'm sched \<Rightarrow> nat" where
  "woken x s = length (filter (\<lambda>t. t_state t = Ready \<and> t_ctx t = x) (tasks s))"

definition resuming :: "nat \<Rightarrow> bool \<Rightarrow> resume_point \<Rightarrow> 'm sched \<Rightarrow> nat" where
  "resuming c tr x s =
     (case current s c of None \<Rightarrow> 0 | Some j \<Rightarrow> of_bool (tr \<and> t_ctx (tasks s ! j) = x))"

definition balanced :: "nat \<Rightarrow> bool \<Rightarrow> 'm sched \<Rightarrow> 'm ipc \<Rightarrow> bool" where
  "balanced c tr s i \<longleftrightarrow>
     sent i + word_of_nat (woken ResumeSend s + resuming c tr ResumeSend s) =
     received i + word_of_nat (ring_total i + woken ResumeRecv s + resuming c tr ResumeRecv s)"

definition reaped_ok :: "'m sched \<Rightarrow> bool" where
  "reaped_ok s \<longleftrightarrow> died_blocked s = 0 \<and> (\<forall>(sp, tree) \<in> set (torn_down s). as_root sp \<noteq> tree)
     \<and> reaped_spaces s = word_of_nat (length (torn_down s))"

definition sys_ok :: "u64 \<Rightarrow> nat \<Rightarrow> bool \<Rightarrow> 'm sched \<Rightarrow> 'm ipc \<Rightarrow> bool" where
  "sys_ok R c tr s i \<longleftrightarrow> endpoints_ok i \<and> slots_ok R c tr s i \<and> links_ok c s i \<and> roots_distinct s
     \<and> regs_ok R c s \<and> balanced c tr s i \<and> reaped_ok s"

lemmas sys_ok_defs = slots_ok_def links_ok_def roots_distinct_def regs_ok_def


text \<open>While a switch is under way to the bootstrap context, nothing is runnable.\<close>

definition no_ready :: "'m sched \<Rightarrow> bool" where
  "no_ready s \<longleftrightarrow> (\<forall>t \<in> set (tasks s). t_state t \<noteq> Ready)"

definition transit_ok :: "u64 \<Rightarrow> nat \<Rightarrow> 'm sched \<Rightarrow> 'm ipc \<Rightarrow> bool" where
  "transit_ok R c s i \<longleftrightarrow> sys_ok R c True s i \<and>
     (current s c = None \<longrightarrow> kernel_root s = R \<and> no_ready s)"

section \<open>Picking a task\<close>

lemma first_ready_Some: "first_ready s = Some n \<Longrightarrow> n < length (tasks s) \<and> t_state (tasks s ! n) = Ready"
  by (auto simp: first_ready_def dest: position_SomeD)

lemma first_ready_None: "first_ready s = None \<longleftrightarrow> no_ready s"
  by (simp add: first_ready_def position_None no_ready_def)

lemma pick_next_Some: "pick_next p s = Some n \<Longrightarrow> n < length (tasks s) \<and> t_state (tasks s ! n) = Ready"
  by (auto simp: pick_next_def Let_def simp del: upt_Suc split: if_splits dest!: find_Some_set)

lemma round_covers: "j < n \<Longrightarrow> \<exists>off \<in> set [1..<n + 1]. (p + off) mod n = (j :: nat)"
proof -
  assume j: "j < n"
  let ?d = "(j + (n - p mod n)) mod n"
  have eq: "(p + ?d) mod n = j"
  proof -
    have "(p + ?d) mod n = (p mod n + (j + (n - p mod n))) mod n" by (simp add: mod_add_left_eq mod_add_right_eq)
    also have "p mod n + (j + (n - p mod n)) = j + n"
      using j mod_less_divisor [of n p] by linarith
    finally show ?thesis using j by simp
  qed
  show ?thesis
  proof (cases "?d = 0")
    case True
    with eq j show ?thesis by (intro bexI [of _ n]) auto
  next
    case False
    have "?d < n" using j by (intro mod_less_divisor) simp
    with eq False show ?thesis by (intro bexI [of _ ?d]) auto
  qed
qed

lemma pick_next_None: "pick_next p s = None \<longleftrightarrow> no_ready s"
proof
  assume none: "pick_next p s = None"
  show "no_ready s" unfolding no_ready_def
  proof
    fix t assume "t \<in> set (tasks s)"
    then obtain j where j: "j < length (tasks s)" "t = tasks s ! j" by (auto simp: in_set_conv_nth)
    obtain off where "off \<in> set [1..<length (tasks s) + 1]" "(p + off) mod length (tasks s) = j"
      using round_covers [OF j(1), of p] by blast
    then have "j \<in> set (map (\<lambda>off. (p + off) mod length (tasks s)) [1..<length (tasks s) + 1])"
      by (metis (no_types, lifting) image_eqI list.set_map)
    moreover have "List.find (\<lambda>i. t_state (tasks s ! i) = Ready)
        (map (\<lambda>off. (p + off) mod length (tasks s)) [1..<length (tasks s) + 1]) = None"
      using none j(1) by (simp add: pick_next_def Let_def split: if_splits)
    ultimately show "t_state t \<noteq> Ready" using find_None_set j(2) by fast
  qed
next
  assume none: "no_ready s"
  show "pick_next p s = None"
  proof (rule ccontr)
    assume "pick_next p s \<noteq> None"
    then obtain n where "pick_next p s = Some n" by blast
    from pick_next_Some [OF this] none show False by (auto simp: no_ready_def)
  qed
qed


section \<open>Changing one slot\<close>

lemma tasks_upd_task [simp]: "tasks (upd_task j f s) = (tasks s)[j := f (tasks s ! j)]"
  by (simp add: upd_task_def)

lemma upd_task_frame [simp]:
  "current (upd_task j f s) = current s" "prev_slot (upd_task j f s) = prev_slot s"
  "cr3 (upd_task j f s) = cr3 s" "kernel_root (upd_task j f s) = kernel_root s"
  "tss_rsp0 (upd_task j f s) = tss_rsp0 s" "syscall_rsp (upd_task j f s) = syscall_rsp s"
  "torn_down (upd_task j f s) = torn_down s" "died_blocked (upd_task j f s) = died_blocked s"
  "reaped_spaces (upd_task j f s) = reaped_spaces s" "wakeups (upd_task j f s) = wakeups s"
  by (simp_all add: upd_task_def)

lemma woken_upd:
  assumes "tasks s' = (tasks s)[j := t]" "j < length (tasks s)"
  shows "woken x s' + of_bool (t_state (tasks s ! j) = Ready \<and> t_ctx (tasks s ! j) = x) =
    woken x s + of_bool (t_state t = Ready \<and> t_ctx t = x)"
  using tally_update [OF assms(2), of "\<lambda>t. t_state t = Ready \<and> t_ctx t = x" t] assms(1)
  by (simp add: woken_def)

section \<open>Leaving a task\<close>

text \<open>All ways out of a task are one: its slot is rewritten, and the core enters the task picked or,
  when there is none, the bootstrap context.\<close>

definition away :: "nat \<Rightarrow> nat option \<Rightarrow> 'm sched \<Rightarrow> 'm sched" where
  "away c nxt s = (case nxt of None \<Rightarrow> switch_to_bootstrap c s | Some n \<Rightarrow> switch_to c n s)"

lemma away_sel:
  "tasks (away c nxt s) = (case nxt of None \<Rightarrow> tasks s | Some n \<Rightarrow>
     (tasks s)[n := (tasks s ! n)\<lparr>t_state := Running\<rparr>])"
  "current (away c nxt s) = (current s)(c := nxt)"
  "prev_slot (away c nxt s) = prev_slot s"
  "kernel_root (away c nxt s) = kernel_root s"
  "torn_down (away c nxt s) = torn_down s"
  "died_blocked (away c nxt s) = died_blocked s"
  "reaped_spaces (away c nxt s) = reaped_spaces s"
  by (simp_all add: away_def switch_to_def switch_to_bootstrap_def set_state_def enter_def Let_def
      split: option.splits)

lemma away_regs:
  "nxt = None \<Longrightarrow> cr3 (away c nxt s) c = kernel_root s"
  "nxt = Some n \<Longrightarrow> n < length (tasks s) \<Longrightarrow> cr3 (away c nxt s) c = t_cr3 (tasks s ! n)
     \<and> tss_rsp0 (away c nxt s) c = t_stack_top (tasks s ! n)
     \<and> syscall_rsp (away c nxt s) c = t_stack_top (tasks s ! n)"
  by (auto simp: away_def switch_to_def switch_to_bootstrap_def set_state_def enter_def Let_def)

text \<open>What the rest of the state has to say about the slot being left.\<close>

definition leaving :: "u64 \<Rightarrow> nat \<Rightarrow> nat \<Rightarrow> 'm task \<Rightarrow> 'm sched \<Rightarrow> 'm ipc \<Rightarrow> 'm sched \<Rightarrow> 'm ipc \<Rightarrow> bool" where
  "leaving R c p t s i s1 i1 \<longleftrightarrow>
     tasks s1 = (tasks s)[p := t] \<and> current s1 = current s \<and> prev_slot s1 c = Some p
     \<and> cr3 s1 = cr3 s \<and> kernel_root s1 = kernel_root s \<and> torn_down s1 = torn_down s
     \<and> died_blocked s1 = died_blocked s \<and> reaped_spaces s1 = reaped_spaces s
     \<and> t_space t = t_space (tasks s ! p)
     \<and> slot_ok R True False True (recv_count i1 p) (send_count i1 p) t
     \<and> (\<forall>j. j \<noteq> p \<longrightarrow> recv_count i1 j = recv_count i j \<and> send_count i1 j = send_count i j)
     \<and> endpoints_ok i1 \<and> ring_total i1 = ring_total i \<and> sent i1 = sent i \<and> received i1 = received i
     \<and> (t_state t = Ready \<longrightarrow> t_ctx t \<noteq> ResumeSend \<and> t_ctx t \<noteq> ResumeRecv)"

lemma slot_ok_enter:
  "slot_ok R tr False prv rc sc t \<Longrightarrow> t_state t = Ready \<Longrightarrow>
     slot_ok R True True prv' rc sc (t\<lparr>t_state := Running\<rparr>)"
  by (auto simp: slot_ok_def space_root_def)

lemma slot_ok_rest:
  "slot_ok R False False False rc sc t \<Longrightarrow> slot_ok R True False False rc sc t"
  by (auto simp: slot_ok_def)

lemma leaving_away:
  assumes ok: "sys_ok R c False s i" and cur: "current s c = Some p" and prev: "prev_slot s c = None"
    and leave: "leaving R c p t s i s1 i1"
    and nxt: "\<And>n. nxt = Some n \<Longrightarrow> n < length (tasks s) \<and> n \<noteq> p \<and> t_state (tasks s ! n) = Ready"
  shows "sys_ok R c True (away c nxt s1) i1"
proof -
  note d = leave [unfolded leaving_def]
  from ok cur have p: "p < length (tasks s)" and lk: "links_ok c s i" and sl: "slots_ok R c False s i"
    and rt: "roots_distinct s" and bal: "balanced c False s i" and rp: "reaped_ok s"
    and kr: "kernel_root s = R"
    by (auto simp: sys_ok_def links_ok_def regs_ok_def)
  let ?s = "away c nxt s1"
  have len: "length (tasks ?s) = length (tasks s)" using d by (simp add: away_sel split: option.split)
  have task: "tasks ?s ! j = (if nxt = Some j then (tasks s ! j)\<lparr>t_state := Running\<rparr>
      else if j = p then t else tasks s ! j)" if "j < length (tasks s)" for j
    using d nxt that by (auto simp: away_sel nth_list_update split: option.splits)
  have prun: "t_state (tasks s ! p) = Running" using sl p cur by (auto simp: slots_ok_def slot_ok_def)
  have "slots_ok R c True ?s i1"
    unfolding slots_ok_def len
  proof (intro allI impI)
    fix j assume j: "j < length (tasks s)"
    have old: "slot_ok R False (p = j) False (recv_count i j) (send_count i j) (tasks s ! j)"
      using sl j cur prev by (auto simp: slots_ok_def)
    show "slot_ok R True (current ?s c = Some j) (prev_slot ?s c = Some j)
        (recv_count i1 j) (send_count i1 j) (tasks ?s ! j)"
    proof (cases "nxt = Some j")
      case True
      then have "j \<noteq> p" "t_state (tasks s ! j) = Ready" using nxt by auto
      with old True d task [OF j] show ?thesis
        using slot_ok_enter [of R False False _ _ "tasks s ! j"] by (simp add: away_sel)
    next
      case False
      then show ?thesis using old d task [OF j] slot_ok_rest [of R _ _ "tasks s ! j"]
        by (cases "j = p") (auto simp: away_sel)
    qed
  qed
  moreover have "links_ok c ?s i1"
    using lk d nxt p len by (auto simp: links_ok_def away_sel)
  moreover have "roots_distinct ?s"
  proof -
    have sp: "t_space (tasks ?s ! j) = t_space (tasks s ! j)" if "j < length (tasks s)" for j
      using that d task by simp
    show ?thesis using rt unfolding roots_distinct_def len by (simp add: sp)
  qed
  moreover have "regs_ok R c ?s"
  proof (cases nxt)
    case None
    then show ?thesis using d kr away_regs(1) [of nxt c s1] by (simp add: regs_ok_def away_sel)
  next
    case (Some n)
    then have n: "n < length (tasks s)" "n \<noteq> p" using nxt by auto
    then show ?thesis using Some d kr away_regs(2) [of nxt n s1 c] task [of n]
      by (simp add: regs_ok_def away_sel nth_list_update)
  qed
  moreover have "balanced c True ?s i1"
  proof -
    have w1: "woken x s1 = woken x s" if "x = ResumeSend \<or> x = ResumeRecv" for x
      using woken_upd [of s1 s p t x] d p prun that by auto
    have "woken x ?s + resuming c True x ?s = woken x s1" for x
    proof (cases nxt)
      case None
      then show ?thesis by (simp add: away_sel woken_def resuming_def)
    next
      case (Some n)
      then have n: "n < length (tasks s)" "n \<noteq> p" "t_state (tasks s ! n) = Ready" using nxt by auto
      with Some d woken_upd [of ?s s1 n "(tasks s1 ! n)\<lparr>t_state := Running\<rparr>" x] show ?thesis
        by (simp add: away_sel resuming_def nth_list_update)
    qed
    with w1 bal d show ?thesis by (simp add: balanced_def resuming_def add.assoc split: option.splits)
  qed
  moreover have "reaped_ok ?s" using rp d by (simp add: reaped_ok_def away_sel)
  ultimately show ?thesis using d by (simp add: sys_ok_def)
qed


section \<open>The ways out of a task\<close>

text \<open>Between two operations: no switch is under way and nobody is left to settle.\<close>

definition settled_ok :: "u64 \<Rightarrow> nat \<Rightarrow> 'm sched \<Rightarrow> 'm ipc \<Rightarrow> bool" where
  "settled_ok R c s i \<longleftrightarrow> sys_ok R c False s i \<and> prev_slot s c = None"

lemma settled_current:
  assumes "settled_ok R c s i" "current s c = Some p"
  shows "p < length (tasks s)" and "t_state (tasks s ! p) = Running"
    and "t_mailbox (tasks s ! p) = None" and "recv_count i p = 0" and "send_count i p = 0"
    and "t_stack (tasks s ! p) = STACK_WORDS" and "kernel_root s = R"
    and "t_cr3 (tasks s ! p) = space_root R (tasks s ! p)"
proof -
  from assms show p: "p < length (tasks s)" and "kernel_root s = R"
    by (auto simp: settled_ok_def sys_ok_def links_ok_def regs_ok_def)
  with assms have "slot_ok R False True False (recv_count i p) (send_count i p) (tasks s ! p)"
    by (auto simp: settled_ok_def sys_ok_def slots_ok_def)
  then show "t_state (tasks s ! p) = Running" and "t_mailbox (tasks s ! p) = None"
    and "recv_count i p = 0" and "send_count i p = 0"
    and "t_stack (tasks s ! p) = STACK_WORDS"
    and "t_cr3 (tasks s ! p) = space_root R (tasks s ! p)"
    by (auto simp: slot_ok_def)
qed

lemma current_slot:
  assumes "settled_ok R c s i" "current s c = Some p"
  shows "slot_ok R False True False 0 0 (tasks s ! p)"
  using assms settled_current(1,4,5) [OF assms]
  by (auto simp: settled_ok_def sys_ok_def slots_ok_def)

lemma reschedule_ok:
  assumes ok: "settled_ok R c s i" and ctx: "ctx = ResumeYield \<or> ctx = ResumePreempt"
  shows "case reschedule c ctx s of (True, s') \<Rightarrow> transit_ok R c s' i \<and> current s' c \<noteq> None
    | (False, s') \<Rightarrow> s' = s"
proof (cases "current s c")
  case None
  then show ?thesis by (simp add: reschedule_def)
next
  case (Some p)
  note cur = settled_current [OF ok Some]
  show ?thesis
  proof (cases "pick_next p s")
    case None
    with Some show ?thesis by (simp add: reschedule_def)
  next
    case pick: (Some n)
    let ?t = "(tasks s ! p)\<lparr>t_state := Ready, t_ctx := ctx\<rparr>"
    let ?s = "upd_task p (\<lambda>t. t\<lparr>t_ctx := ctx\<rparr>)
      ((set_state p Ready s)\<lparr>prev_slot := (prev_slot s)(c := Some p)\<rparr>)"
    have e: "reschedule c ctx s = (True, away c (Some n) ?s)"
      using Some pick cur by (simp add: reschedule_def away_def Let_def set_state_def)
    from pick_next_Some [OF pick] cur have n: "n < length (tasks s)" "n \<noteq> p" "t_state (tasks s ! n) = Ready"
      by auto
    have "leaving R c p ?t s i ?s i"
      using current_slot [OF ok Some] cur ctx ok
      by (auto simp: leaving_def set_state_def slot_ok_def space_root_def settled_ok_def sys_ok_def)
    then have "sys_ok R c True (away c (Some n) ?s) i"
      using ok Some n by (intro leaving_away [of R c s i p ?t ?s i]) (auto simp: settled_ok_def)
    then show ?thesis by (simp add: e transit_ok_def away_sel)
  qed
qed

lemma away_transit:
  assumes "sys_ok R c True (away c (pick_next p s1) s1) i" "kernel_root s1 = R"
  shows "transit_ok R c (away c (pick_next p s1) s1) i"
  using assms pick_next_None [of p s1]
  by (auto simp: transit_ok_def away_sel no_ready_def)

lemma park_ok:
  assumes ok: "settled_ok R c s i" and cur: "current s c = Some p"
    and ctx: "ctx = ResumeSend \<or> ctx = ResumeRecv"
    and eps: "endpoints_ok i1" "ring_total i1 = ring_total i" "sent i1 = sent i" "received i1 = received i"
    and rc: "\<And>j. recv_count i1 j = recv_count i j + of_bool (j = p \<and> ctx = ResumeRecv)"
    and sc: "\<And>j. send_count i1 j = send_count i j + of_bool (j = p \<and> ctx = ResumeSend)"
  shows "\<exists>s'. park_and_switch c ctx s = Some s' \<and> transit_ok R c s' i1"
proof -
  note cp = settled_current [OF ok cur]
  let ?t = "(tasks s ! p)\<lparr>t_state := Blocked, t_ctx := ctx\<rparr>"
  let ?s = "upd_task p (\<lambda>t. t\<lparr>t_ctx := ctx\<rparr>) ((set_state p Blocked s)
    \<lparr>blocks := blocks s + 1, prev_slot := (prev_slot s)(c := Some p)\<rparr>)"
  have e: "park_and_switch c ctx s = Some (away c (pick_next p ?s) ?s)"
    by (simp add: park_and_switch_def cur away_def Let_def set_state_def upd_task_def split: option.split)
  have "leaving R c p ?t s i ?s i1"
    using current_slot [OF ok cur] cp ctx ok eps rc sc
    by (auto simp: leaving_def set_state_def slot_ok_def space_root_def)
  moreover have "n < length (tasks s) \<and> n \<noteq> p \<and> t_state (tasks s ! n) = Ready"
    if "pick_next p ?s = Some n" for n
    using pick_next_Some [OF that] cp by (cases "n = p") (auto simp: set_state_def)
  ultimately have "sys_ok R c True (away c (pick_next p ?s) ?s) i1"
    using ok cur by (intro leaving_away [of R c s i p ?t ?s i1]) (auto simp: settled_ok_def)
  then have "transit_ok R c (away c (pick_next p ?s) ?s) i1"
    using cp by (intro away_transit) (simp_all add: set_state_def)
  with e show ?thesis by blast
qed

lemma exit_switch_ok:
  assumes ok: "settled_ok R c s i" and cur: "current s c = Some p"
  shows "\<exists>s'. exit_switch c s = Some s' \<and> transit_ok R c s' i"
proof -
  note cp = settled_current [OF ok cur]
  let ?t = "(tasks s ! p)\<lparr>t_state := Dead\<rparr>"
  let ?s = "(set_state p Dead s)\<lparr>prev_slot := (prev_slot s)(c := Some p)\<rparr>"
  have e: "exit_switch c s = Some (away c (pick_next p ?s) ?s)"
    by (simp add: exit_switch_def cur away_def Let_def set_state_def upd_task_def split: option.split)
  have "leaving R c p ?t s i ?s i"
    using current_slot [OF ok cur] cp ok
    by (auto simp: leaving_def set_state_def slot_ok_def space_root_def settled_ok_def sys_ok_def)
  moreover have "n < length (tasks s) \<and> n \<noteq> p \<and> t_state (tasks s ! n) = Ready"
    if "pick_next p ?s = Some n" for n
    using pick_next_Some [OF that] cp by (cases "n = p") (auto simp: set_state_def)
  ultimately have "sys_ok R c True (away c (pick_next p ?s) ?s) i"
    using ok cur by (intro leaving_away [of R c s i p ?t ?s i]) (auto simp: settled_ok_def)
  then have "transit_ok R c (away c (pick_next p ?s) ?s) i"
    using cp by (intro away_transit) (simp_all add: set_state_def)
  with e show ?thesis by blast
qed


section \<open>Endpoints and counts\<close>

lemma ring_len_items: "ring_len e = length (ring_items e)"
  by (simp add: ring_items_def)

lemma endpoint_send_effect:
  assumes "endpoint_ok e" "endpoint_send me km e = (a, e')"
  shows "endpoint_ok e' \<and> (case a of
      SendDeliver w \<Rightarrow> recv_items e = w # recv_items e' \<and> ring_items e' = ring_items e \<and> send_items e' = send_items e
    | SendBuffered \<Rightarrow> ring_items e' = ring_items e @ [km] \<and> recv_items e' = recv_items e \<and> send_items e' = send_items e
    | SendBlock \<Rightarrow> send_items e' = send_items e @ [(me, km)] \<and> recv_items e' = recv_items e \<and> ring_items e' = ring_items e
    | SendFull \<Rightarrow> send_items e' = send_items e \<and> recv_items e' = recv_items e \<and> ring_items e' = ring_items e)"
  using endpoint_send_channel [of e me km a e'] endpoint_send_ok [OF assms] assms
  by (auto simp: endpoint_ok_def channel_send_def channel_of_def split: list.splits if_splits)

lemma endpoint_recv_effect:
  assumes "endpoint_ok e" "endpoint_recv me e = (a, e')"
  shows "endpoint_ok e' \<and> (case a of
      RecvGot km \<Rightarrow> ring_items e = km # ring_items e' \<and> recv_items e' = recv_items e \<and> send_items e' = send_items e
    | RecvWakeSender km t \<Rightarrow> (\<exists>skm rest. ring_items e = km # rest \<and> ring_items e' = rest @ [skm] \<and>
        send_items e = (t, skm) # send_items e' \<and> recv_items e' = recv_items e)
    | RecvBlock \<Rightarrow> recv_items e' = recv_items e @ [me] \<and> send_items e' = send_items e \<and> ring_items e' = ring_items e
    | RecvFull \<Rightarrow> send_items e' = send_items e \<and> recv_items e' = recv_items e \<and> ring_items e' = ring_items e)"
  using endpoint_recv_channel [of e me a e'] endpoint_recv_ok [OF assms] assms
  by (auto simp: endpoint_ok_def channel_recv_def channel_of_def split: list.splits if_splits prod.splits)

lemma upd_endpoint_sel [simp]:
  "endpoints (upd_endpoint ep e i) = (endpoints i)[ep := e]" "sent (upd_endpoint ep e i) = sent i"
  "received (upd_endpoint ep e i) = received i" "send_blocks (upd_endpoint ep e i) = send_blocks i"
  by (simp_all add: upd_endpoint_def)

lemma count_ipc_upd:
  assumes "endpoints i1 = (endpoints i)[ep := e]" "ep < length (endpoints i)"
  shows "recv_count i1 j + count_list (recv_items (endpoints i ! ep)) j =
      recv_count i j + count_list (recv_items e) j"
    and "send_count i1 j + count_list (map fst (send_items (endpoints i ! ep))) j =
      send_count i j + count_list (map fst (send_items e)) j"
    and "ring_total i1 + length (ring_items (endpoints i ! ep)) = ring_total i + length (ring_items e)"
  using sum_list_update_nat [OF assms(2), of "\<lambda>e. count_list (recv_items e) j" e]
    sum_list_update_nat [OF assms(2), of "\<lambda>e. count_list (map fst (send_items e)) j" e]
    sum_list_update_nat [OF assms(2), of ring_len e]
  by (simp_all add: recv_count_def send_count_def ring_total_def assms(1) ring_len_items)

lemma endpoints_ok_upd:
  "endpoints_ok i \<Longrightarrow> endpoint_ok e \<Longrightarrow> endpoints i1 = (endpoints i)[ep := e] \<Longrightarrow>
     length (send_blocks i1) = length (send_blocks i) \<Longrightarrow> endpoints_ok i1"
  by (auto simp: endpoints_ok_def dest: set_update_subset_insert [THEN subsetD])

lemma endpoint_at_ok: "endpoints_ok i \<Longrightarrow> ep < NUM_ENDPOINTS \<Longrightarrow>
    endpoint_ok (endpoints i ! ep) \<and> ep < length (endpoints i)"
  by (simp add: endpoints_ok_def)

section \<open>Changing one slot without a switch\<close>

definition same_core :: "'m sched \<Rightarrow> 'm sched \<Rightarrow> bool" where
  "same_core s s1 \<longleftrightarrow> current s1 = current s \<and> prev_slot s1 = prev_slot s \<and> cr3 s1 = cr3 s
     \<and> tss_rsp0 s1 = tss_rsp0 s \<and> syscall_rsp s1 = syscall_rsp s \<and> kernel_root s1 = kernel_root s
     \<and> torn_down s1 = torn_down s \<and> died_blocked s1 = died_blocked s \<and> reaped_spaces s1 = reaped_spaces s"

definition same_place :: "'m task \<Rightarrow> 'm task \<Rightarrow> bool" where
  "same_place t u \<longleftrightarrow> t_space u = t_space t \<and> t_cr3 u = t_cr3 t \<and> t_stack_top u = t_stack_top t"

lemma settled_upd:
  assumes ok: "settled_ok R c s i" and j: "j < length (tasks s)"
    and s1: "tasks s1 = (tasks s)[j := t]" "same_core s s1" "same_place (tasks s ! j) t"
    and slot: "slot_ok R False (current s c = Some j) False (recv_count i1 j) (send_count i1 j) t"
    and rest: "\<And>k. k \<noteq> j \<Longrightarrow> recv_count i1 k = recv_count i k \<and> send_count i1 k = send_count i k"
    and eps: "endpoints_ok i1" and bal: "balanced c False s1 i1"
  shows "settled_ok R c s1 i1"
proof -
  have task: "tasks s1 ! k = (if k = j then t else tasks s ! k)" if "k < length (tasks s)" for k
    using that s1 by (simp add: nth_list_update)
  have len: "length (tasks s1) = length (tasks s)" using s1 by simp
  have "slots_ok R c False s1 i1"
    unfolding slots_ok_def len
  proof (intro allI impI)
    fix k assume k: "k < length (tasks s)"
    then have "slot_ok R False (current s c = Some k) False (recv_count i k) (send_count i k) (tasks s ! k)"
      using ok by (auto simp: settled_ok_def sys_ok_def slots_ok_def)
    then show "slot_ok R False (current s1 c = Some k) (prev_slot s1 c = Some k)
        (recv_count i1 k) (send_count i1 k) (tasks s1 ! k)"
      using k slot rest [of k] task [OF k] s1(2) ok
      by (cases "k = j") (auto simp: same_core_def settled_ok_def)
  qed
  moreover have "links_ok c s1 i1"
    using ok s1(2) len j rest by (auto simp: settled_ok_def sys_ok_def links_ok_def same_core_def)
  moreover have "roots_distinct s1"
  proof -
    have sp: "t_space (tasks s1 ! k) = t_space (tasks s ! k)" if "k < length (tasks s)" for k
      using task [OF that] s1(3) by (simp add: same_place_def)
    have "roots_distinct s" using ok by (simp add: settled_ok_def sys_ok_def)
    then show ?thesis unfolding roots_distinct_def len by (simp add: sp)
  qed
  moreover have "regs_ok R c s1"
  proof (cases "current s c")
    case None
    then show ?thesis using ok s1 by (auto simp: settled_ok_def sys_ok_def regs_ok_def same_core_def)
  next
    case (Some p)
    then have "p < length (tasks s)" using ok by (auto simp: settled_ok_def sys_ok_def links_ok_def)
    with Some show ?thesis using ok s1(2,3) task [of p]
      by (auto simp: settled_ok_def sys_ok_def regs_ok_def same_core_def same_place_def)
  qed
  moreover have "reaped_ok s1" "prev_slot s1 c = None"
    using ok s1(2) by (simp_all add: settled_ok_def sys_ok_def reaped_ok_def same_core_def)
  ultimately show ?thesis using eps bal by (simp add: settled_ok_def sys_ok_def)
qed

lemma settled_same:
  assumes ok: "settled_ok R c s i" and s1: "tasks s1 = tasks s" "same_core s s1"
    and cnt: "\<And>k. recv_count i1 k = recv_count i k \<and> send_count i1 k = send_count i k"
    and eps: "endpoints_ok i1"
    and bal: "\<exists>n. sent i1 = sent i + word_of_nat n \<and>
      received i1 + word_of_nat (ring_total i1) = received i + word_of_nat (ring_total i) + word_of_nat n"
  shows "settled_ok R c s1 i1"
proof -
  from bal obtain n where n: "sent i1 = sent i + word_of_nat n"
    "received i1 + word_of_nat (ring_total i1) = received i + word_of_nat (ring_total i) + word_of_nat n"
    by blast
  have w: "woken x s1 = woken x s" for x using s1(1) by (simp add: woken_def)
  have "sent i + word_of_nat (woken ResumeSend s) =
      received i + word_of_nat (ring_total i) + word_of_nat (woken ResumeRecv s)"
    using ok by (simp add: settled_ok_def sys_ok_def balanced_def resuming_def add.assoc split: option.splits)
  then have "sent i1 + word_of_nat (woken ResumeSend s1) =
      (received i1 + word_of_nat (ring_total i1)) + word_of_nat (woken ResumeRecv s1)"
    unfolding w n by (simp add: algebra_simps)
  then have "balanced c False s1 i1"
    by (simp add: balanced_def resuming_def add.assoc split: option.splits)
  moreover have "slots_ok R c False s1 i1" "links_ok c s1 i1" "roots_distinct s1" "reaped_ok s1"
      "prev_slot s1 c = None"
    using ok s1 cnt by (auto simp: settled_ok_def sys_ok_def slots_ok_def links_ok_def roots_distinct_def
        reaped_ok_def same_core_def)
  moreover have "regs_ok R c s1"
    using ok s1 by (auto simp: settled_ok_def sys_ok_def regs_ok_def same_core_def split: option.splits)
  ultimately show ?thesis using eps by (simp add: settled_ok_def sys_ok_def)
qed


section \<open>Send and receive\<close>

text \<open>A task that stands in a queue is blocked there, and stands in it once.\<close>

lemma waiting_task:
  assumes ok: "settled_ok R c s i"
  shows "0 < recv_count i w \<Longrightarrow> w < length (tasks s) \<and> t_state (tasks s ! w) = Blocked \<and>
      t_ctx (tasks s ! w) = ResumeRecv \<and> recv_count i w = 1 \<and> send_count i w = 0"
    and "0 < send_count i w \<Longrightarrow> w < length (tasks s) \<and> t_state (tasks s ! w) = Blocked \<and>
      t_ctx (tasks s ! w) = ResumeSend \<and> send_count i w = 1 \<and> recv_count i w = 0"
proof -
  have lk: "\<forall>j \<ge> length (tasks s). recv_count i j = 0 \<and> send_count i j = 0"
    using ok by (simp add: settled_ok_def sys_ok_def links_ok_def)
  have slot: "j < length (tasks s) \<Longrightarrow>
      slot_ok R False (current s c = Some j) False (recv_count i j) (send_count i j) (tasks s ! j)" for j
    using ok by (auto simp: settled_ok_def sys_ok_def slots_ok_def)
  have w: "w < length (tasks s)" if "0 < recv_count i w \<or> 0 < send_count i w"
  proof (rule ccontr)
    assume "\<not> w < length (tasks s)"
    with lk that show False by simp
  qed
  show "0 < recv_count i w \<Longrightarrow> w < length (tasks s) \<and> t_state (tasks s ! w) = Blocked \<and>
      t_ctx (tasks s ! w) = ResumeRecv \<and> recv_count i w = 1 \<and> send_count i w = 0"
    using w slot [of w] by (auto simp: slot_ok_def of_bool_def split: if_splits)
  show "0 < send_count i w \<Longrightarrow> w < length (tasks s) \<and> t_state (tasks s ! w) = Blocked \<and>
      t_ctx (tasks s ! w) = ResumeSend \<and> send_count i w = 1 \<and> recv_count i w = 0"
    using w slot [of w] by (auto simp: slot_ok_def of_bool_def split: if_splits)
qed

lemma count_sum_pos: "e \<in> set es \<Longrightarrow> w \<in> set (f e) \<Longrightarrow> 0 < (\<Sum>e \<leftarrow> es. count_list (f e) w)"
  using member_le_sum_list [of "count_list (f e) w" "map (\<lambda>e. count_list (f e) w) es"]
    count_list_0_iff [of "f e" w] by fastforce

lemma count_recv_pos: "ep < length (endpoints i) \<Longrightarrow> w \<in> set (recv_items (endpoints i ! ep)) \<Longrightarrow>
    0 < recv_count i w"
  unfolding recv_count_def by (rule count_sum_pos [OF nth_mem])

lemma count_send_pos: "ep < length (endpoints i) \<Longrightarrow> (w, km) \<in> set (send_items (endpoints i ! ep)) \<Longrightarrow>
    0 < send_count i w"
  unfolding send_count_def by (rule count_sum_pos [OF nth_mem]) force+

lemma balance_settled: "settled_ok R c s i \<Longrightarrow>
    sent i + word_of_nat (woken ResumeSend s) =
    received i + word_of_nat (ring_total i) + word_of_nat (woken ResumeRecv s)"
  by (simp add: settled_ok_def sys_ok_def balanced_def resuming_def add.assoc split: option.splits)

lemma balancedI: "sent i + word_of_nat (woken ResumeSend s) =
    received i + word_of_nat (ring_total i) + word_of_nat (woken ResumeRecv s) \<Longrightarrow> balanced c False s i"
  by (simp add: balanced_def resuming_def add.assoc split: option.splits)

lemma deliver_ok:
  assumes ok: "settled_ok R c s i" and ep: "ep < length (endpoints i)"
    and e: "recv_items (endpoints i ! ep) = w # recv_items e" "ring_items e = ring_items (endpoints i ! ep)"
      "send_items e = send_items (endpoints i ! ep)"
    and i1: "endpoints i1 = (endpoints i)[ep := e]" "sent i1 = sent i + 1" "received i1 = received i"
      "endpoints_ok i1"
  shows "\<exists>s'. deliver w km s = Some s' \<and> settled_ok R c s' i1 \<and> current s' = current s"
proof -
  have "0 < recv_count i w" using count_recv_pos [OF ep, of w] e(1) by simp
  note w = waiting_task(1) [OF ok this]
  let ?t = "(tasks s ! w)\<lparr>t_mailbox := Some km, t_state := Ready\<rparr>"
  let ?s = "(set_state w Ready (upd_task w (\<lambda>t. t\<lparr>t_mailbox := Some km\<rparr>) s))\<lparr>wakeups := wakeups s + 1\<rparr>"
  have d: "deliver w km s = Some ?s"
    using w by (simp add: deliver_def Let_def)
  note cnt = count_ipc_upd [OF i1(1) ep]
  have ts: "tasks ?s = (tasks s)[w := ?t]" using w by (simp add: set_state_def)
  have slot: "slot_ok R False (current s c = Some w) False (recv_count i w) (send_count i w) (tasks s ! w)"
    using ok w by (auto simp: settled_ok_def sys_ok_def slots_ok_def)
  have rw: "recv_count i1 w = 0" "send_count i1 w = 0" using cnt(1,2) [of w] w e by auto
  have rt: "ring_total i1 = ring_total i" using cnt(3) e by simp
  have "settled_ok R c ?s i1"
  proof (rule settled_upd [OF ok, of w])
    show "slot_ok R False (current s c = Some w) False (recv_count i1 w) (send_count i1 w) ?t"
      using slot w rw by (auto simp: slot_ok_def space_root_def)
    show "recv_count i1 k = recv_count i k \<and> send_count i1 k = send_count i k" if "k \<noteq> w" for k
      using cnt(1,2) [of k] e that by auto
    have "woken ResumeSend ?s = woken ResumeSend s" "woken ResumeRecv ?s = woken ResumeRecv s + 1"
      using woken_upd [OF ts, of ResumeSend] woken_upd [OF ts, of ResumeRecv] w by auto
    then show "balanced c False ?s i1" using balance_settled [OF ok] i1 rt
      by (intro balancedI) (simp add: algebra_simps)
  qed (use w ts i1 in \<open>auto simp: same_core_def same_place_def set_state_def\<close>)
  then show ?thesis using d by (auto simp: set_state_def)
qed

lemma unblock_ok:
  assumes ok: "settled_ok R c s i" and ep: "ep < length (endpoints i)"
    and e: "send_items (endpoints i ! ep) = (w, skm) # send_items e"
      "length (ring_items e) = length (ring_items (endpoints i ! ep))"
      "recv_items e = recv_items (endpoints i ! ep)"
    and i1: "endpoints i1 = (endpoints i)[ep := e]" "sent i1 = sent i" "received i1 = received i + 1"
      "endpoints_ok i1"
  shows "\<exists>s'. unblock w s = Some s' \<and> settled_ok R c s' i1 \<and> current s' = current s"
proof -
  have "0 < send_count i w" using count_send_pos [OF ep, of w skm] e(1) by simp
  note w = waiting_task(2) [OF ok this]
  let ?t = "(tasks s ! w)\<lparr>t_state := Ready\<rparr>"
  let ?s = "(set_state w Ready s)\<lparr>wakeups := wakeups s + 1\<rparr>"
  have d: "unblock w s = Some ?s" using w by (simp add: unblock_def)
  note cnt = count_ipc_upd [OF i1(1) ep]
  have ts: "tasks ?s = (tasks s)[w := ?t]" by (simp add: set_state_def)
  have slot: "slot_ok R False (current s c = Some w) False (recv_count i w) (send_count i w) (tasks s ! w)"
    using ok w by (auto simp: settled_ok_def sys_ok_def slots_ok_def)
  have rw: "recv_count i1 w = 0" "send_count i1 w = 0" using cnt(1,2) [of w] w e by auto
  have rt: "ring_total i1 = ring_total i" using cnt(3) e by simp
  have "settled_ok R c ?s i1"
  proof (rule settled_upd [OF ok, of w])
    show "slot_ok R False (current s c = Some w) False (recv_count i1 w) (send_count i1 w) ?t"
      using slot w rw by (auto simp: slot_ok_def space_root_def)
    show "recv_count i1 k = recv_count i k \<and> send_count i1 k = send_count i k" if "k \<noteq> w" for k
      using cnt(1,2) [of k] e that by auto
    have "woken ResumeSend ?s = woken ResumeSend s + 1" "woken ResumeRecv ?s = woken ResumeRecv s"
      using woken_upd [OF ts, of ResumeSend] woken_upd [OF ts, of ResumeRecv] w by auto
    then show "balanced c False ?s i1" using balance_settled [OF ok] i1 rt
      by (intro balancedI) (simp add: algebra_simps)
  qed (use w ts i1 in \<open>auto simp: same_core_def same_place_def set_state_def\<close>)
  then show ?thesis using d by (auto simp: set_state_def)
qed


lemma same_core_refl [simp]: "same_core s s"
  by (simp add: same_core_def)

lemma settled_ipc:
  assumes ok: "settled_ok R c s i" and ep: "ep < length (endpoints i)"
    and e: "recv_items e = recv_items (endpoints i ! ep)" "send_items e = send_items (endpoints i ! ep)"
    and i1: "endpoints i1 = (endpoints i)[ep := e]" "endpoints_ok i1"
    and n: "sent i1 = sent i + word_of_nat n"
      "received i1 + word_of_nat (length (ring_items e)) =
         received i + word_of_nat (length (ring_items (endpoints i ! ep))) + word_of_nat n"
  shows "settled_ok R c s i1"
proof (rule settled_same [OF ok])
  note cnt = count_ipc_upd [OF i1(1) ep]
  show "recv_count i1 k = recv_count i k \<and> send_count i1 k = send_count i k" for k
    using cnt(1,2) [of k] e by simp
  have "word_of_nat (ring_total i1 + length (ring_items (endpoints i ! ep))) =
      (word_of_nat (ring_total i + length (ring_items e)) :: u64)"
    using cnt(3) by simp
  then have rt: "word_of_nat (ring_total i1) = (word_of_nat (ring_total i) :: u64) +
      word_of_nat (length (ring_items e)) - word_of_nat (length (ring_items (endpoints i ! ep)))"
    by (simp add: algebra_simps)
  show "\<exists>n. sent i1 = sent i + word_of_nat n \<and>
      received i1 + word_of_nat (ring_total i1) = received i + word_of_nat (ring_total i) + word_of_nat n"
  proof (intro exI conjI)
    have "received i1 = received i + word_of_nat (length (ring_items (endpoints i ! ep))) +
        word_of_nat n - word_of_nat (length (ring_items e))"
      using n(2) by (simp add: eq_diff_eq)
    then show "received i1 + word_of_nat (ring_total i1) =
        received i + word_of_nat (ring_total i) + word_of_nat n"
      unfolding rt by simp
  qed (rule n(1))
qed (use i1 in simp_all)

lemma ipc_send_ok:
  assumes ok: "settled_ok R c s i" and cur: "current s c = Some p"
  shows "\<exists>r s' i'. ipc_send c ep km s i = Some (r, s', i') \<and> (case r of
      Returned v \<Rightarrow> settled_ok R c s' i' \<and> current s' = current s
    | Switched \<Rightarrow> transit_ok R c s' i')"
proof (cases "ep < NUM_ENDPOINTS")
  case False
  then show ?thesis using ok by (simp add: ipc_send_def)
next
  case True
  have eps: "endpoints_ok i" using ok by (simp add: settled_ok_def sys_ok_def)
  note at = endpoint_at_ok [OF eps True]
  obtain a e where ae: "endpoint_send p km (endpoints i ! ep) = (a, e)"
    by (cases "endpoint_send p km (endpoints i ! ep)") auto
  note eff = endpoint_send_effect [OF conjunct1 [OF at] ae]
  then have eok: "endpoint_ok e" by simp
  define i2 where "i2 = (if km_cap km \<noteq> None \<and> a \<noteq> SendFull
    then (upd_endpoint ep e i)\<lparr>caps_moved := caps_moved (upd_endpoint ep e i) + 1\<rparr> else upd_endpoint ep e i)"
  have i2: "endpoints i2 = (endpoints i)[ep := e]" "sent i2 = sent i" "received i2 = received i"
    "send_blocks i2 = send_blocks i" by (simp_all add: i2_def)
  have send: "ipc_send c ep km s i = (case a of
      SendDeliver w \<Rightarrow> map_option (\<lambda>s'. (Returned (Inr ()), s',
          i2\<lparr>delivered := delivered i2 + 1, sent := sent i2 + 1\<rparr>)) (deliver w km s)
    | SendBuffered \<Rightarrow> Some (Returned (Inr ()), s, i2\<lparr>buffered := buffered i2 + 1, sent := sent i2 + 1\<rparr>)
    | SendBlock \<Rightarrow> map_option (\<lambda>s'. (Switched, s',
          i2\<lparr>send_blocks := (send_blocks i2)[ep := send_blocks i2 ! ep + 1]\<rparr>)) (park_and_switch c ResumeSend s)
    | SendFull \<Rightarrow> Some (Returned (Inl OutOfResources), s, i2))"
    using True cur ae by (cases a) (simp_all add: ipc_send_def current_id_def Let_def i2_def)
  have epsok: "endpoints_ok i1" if "endpoints i1 = (endpoints i)[ep := e]"
      "length (send_blocks i1) = length (send_blocks i)" for i1
    using endpoints_ok_upd [OF eps eok] that by blast
  show ?thesis
  proof (cases a)
    case (SendDeliver w)
    let ?i = "i2\<lparr>delivered := delivered i2 + 1, sent := sent i2 + 1\<rparr>"
    have "\<exists>s'. deliver w km s = Some s' \<and> settled_ok R c s' ?i \<and> current s' = current s"
      using eff SendDeliver at i2 epsok by (intro deliver_ok [OF ok, of ep w e]) auto
    then show ?thesis using send SendDeliver by auto
  next
    case SendBuffered
    let ?i = "i2\<lparr>buffered := buffered i2 + 1, sent := sent i2 + 1\<rparr>"
    have "settled_ok R c s ?i"
      using eff SendBuffered at i2 epsok
      by (intro settled_ipc [OF ok, of ep e _ 1]) (auto simp: algebra_simps)
    then show ?thesis using send SendBuffered by simp
  next
    case SendFull
    have "settled_ok R c s i2"
      using eff SendFull at i2 epsok by (intro settled_ipc [OF ok, of ep e _ 0]) auto
    then show ?thesis using send SendFull by simp
  next
    case SendBlock
    let ?i = "i2\<lparr>send_blocks := (send_blocks i2)[ep := send_blocks i2 ! ep + 1]\<rparr>"
    have ie: "endpoints ?i = (endpoints i)[ep := e]" using i2 by simp
    note cnt = count_ipc_upd [OF ie conjunct2 [OF at]]
    have "\<exists>s'. park_and_switch c ResumeSend s = Some s' \<and> transit_ok R c s' ?i"
    proof (rule park_ok [OF ok cur])
      show "endpoints_ok ?i" using epsok i2 by simp
      show "ring_total ?i = ring_total i" using cnt(3) eff SendBlock by simp
      show "recv_count ?i j = recv_count i j + of_bool (j = p \<and> ResumeSend = ResumeRecv)" for j
        using cnt(1) [of j] eff SendBlock by simp
      show "send_count ?i j = send_count i j + of_bool (j = p \<and> ResumeSend = ResumeSend)" for j
        using cnt(2) [of j] eff SendBlock by auto
    qed (use i2 in simp_all)
    then show ?thesis using send SendBlock by auto
  qed
qed

lemma ipc_recv_ok:
  assumes ok: "settled_ok R c s i" and cur: "current s c = Some p"
  shows "\<exists>r s' i'. ipc_recv c ep s i = Some (r, s', i') \<and> (case r of
      Returned v \<Rightarrow> settled_ok R c s' i' \<and> current s' = current s
    | Switched \<Rightarrow> transit_ok R c s' i')"
proof (cases "ep < NUM_ENDPOINTS")
  case False
  then show ?thesis using ok by (simp add: ipc_recv_def)
next
  case True
  have eps: "endpoints_ok i" using ok by (simp add: settled_ok_def sys_ok_def)
  note at = endpoint_at_ok [OF eps True]
  obtain a e where ae: "endpoint_recv p (endpoints i ! ep) = (a, e)"
    by (cases "endpoint_recv p (endpoints i ! ep)") auto
  note eff = endpoint_recv_effect [OF conjunct1 [OF at] ae]
  then have eok: "endpoint_ok e" by simp
  let ?i = "upd_endpoint ep e i"
  have epsok: "endpoints_ok i1" if "endpoints i1 = (endpoints i)[ep := e]"
      "length (send_blocks i1) = length (send_blocks i)" for i1
    using endpoints_ok_upd [OF eps eok] that by blast
  show ?thesis
  proof (cases a)
    case (RecvGot km)
    have "settled_ok R c s (?i\<lparr>received := received ?i + 1\<rparr>)"
      using eff RecvGot at epsok by (intro settled_ipc [OF ok, of ep e _ 0]) (auto simp: algebra_simps)
    then show ?thesis using True cur ae RecvGot by (simp add: ipc_recv_def current_id_def Let_def)
  next
    case (RecvWakeSender km w)
    then obtain skm rest where x: "ring_items (endpoints i ! ep) = km # rest" "ring_items e = rest @ [skm]"
      "send_items (endpoints i ! ep) = (w, skm) # send_items e" "recv_items e = recv_items (endpoints i ! ep)"
      using eff by auto
    have "\<exists>s'. unblock w s = Some s' \<and> settled_ok R c s' (?i\<lparr>received := received ?i + 1\<rparr>)
        \<and> current s' = current s"
      using x at epsok by (intro unblock_ok [OF ok, of ep w skm e]) auto
    then show ?thesis using True cur ae RecvWakeSender
      by (auto simp: ipc_recv_def current_id_def Let_def)
  next
    case RecvFull
    have "settled_ok R c s ?i"
      using eff RecvFull at epsok by (intro settled_ipc [OF ok, of ep e _ 0]) auto
    then show ?thesis using True cur ae RecvFull by (simp add: ipc_recv_def current_id_def Let_def)
  next
    case RecvBlock
    let ?j = "?i\<lparr>recv_blocks := recv_blocks ?i + 1\<rparr>"
    have ie: "endpoints ?j = (endpoints i)[ep := e]" by simp
    note cnt = count_ipc_upd [OF ie conjunct2 [OF at]]
    have "\<exists>s'. park_and_switch c ResumeRecv s = Some s' \<and> transit_ok R c s' ?j"
    proof (rule park_ok [OF ok cur])
      show "endpoints_ok ?j" using epsok by simp
      show "ring_total ?j = ring_total i" using cnt(3) eff RecvBlock by simp
      show "send_count ?j j = send_count i j + of_bool (j = p \<and> ResumeRecv = ResumeSend)" for j
        using cnt(2) [of j] eff RecvBlock by simp
      show "recv_count ?j j = recv_count i j + of_bool (j = p \<and> ResumeRecv = ResumeRecv)" for j
        using cnt(1) [of j] eff RecvBlock by auto
    qed simp_all
    then show ?thesis using True cur ae RecvBlock
      by (auto simp: ipc_recv_def current_id_def Let_def)
  qed
qed


section \<open>Exit\<close>

lemma remove_waiter_absent:
  assumes ok: "endpoint_ok e" and abs: "t \<notin> set (recv_items e)" "t \<notin> fst ` set (send_items e)"
  shows "fst (remove_waiter t e) = False \<and> recv_items (snd (remove_waiter t e)) = recv_items e
    \<and> send_items (snd (remove_waiter t e)) = send_items e
    \<and> ring_items (snd (remove_waiter t e)) = ring_items e \<and> endpoint_ok (snd (remove_waiter t e))"
proof -
  have "filter (\<lambda>x. x \<noteq> t) (recv_items e) = recv_items e"
    using abs(1) by (intro filter_True) auto
  moreover have "filter (\<lambda>(x, km). x \<noteq> t) (send_items e) = send_items e"
    using abs(2) by (intro filter_True) force
  ultimately show ?thesis
    using remove_waiter_channel [of e t] remove_waiter_ok [OF ok, of t] ok abs
    by (simp add: endpoint_ok_def channel_forget_def channel_of_def)
qed

lemma forget_current:
  assumes ok: "settled_ok R c s i" and cur: "current s c = Some p"
  shows "\<exists>i'. forget_task p i = (0, i') \<and> settled_ok R c s i' \<and> sent i' = sent i \<and> received i' = received i"
proof -
  have eps: "endpoints_ok i" using ok by (simp add: settled_ok_def sys_ok_def)
  note cp = settled_current [OF ok cur]
  let ?f = "\<lambda>e. snd (remove_waiter p e)"
  let ?i = "i\<lparr>endpoints := map ?f (endpoints i)\<rparr>"
  have abs: "p \<notin> set (recv_items e)" "p \<notin> fst ` set (send_items e)" "endpoint_ok e"
    if "e \<in> set (endpoints i)" for e
  proof -
    from that obtain ep where ep: "ep < length (endpoints i)" "e = endpoints i ! ep"
      by (auto simp: in_set_conv_nth)
    then show "p \<notin> set (recv_items e)" "p \<notin> fst ` set (send_items e)"
      using count_recv_pos [OF ep(1), of p] count_send_pos [OF ep(1), of p] cp by auto
    show "endpoint_ok e" using eps that by (simp add: endpoints_ok_def)
  qed
  note rm = remove_waiter_absent [OF abs(3) abs(1,2)]
  have "filter (\<lambda>e. fst (remove_waiter p e)) (endpoints i) = []"
    using rm by (simp add: filter_empty_conv)
  then have f: "forget_task p i = (0, ?i)" by (simp add: forget_task_def)
  have "settled_ok R c s ?i"
  proof (rule settled_same [OF ok])
    show "recv_count ?i k = recv_count i k \<and> send_count ?i k = send_count i k" for k
      using rm by (auto simp: recv_count_def send_count_def comp_def intro!: arg_cong [where f = sum_list] map_cong)
    have "ring_total ?i = ring_total i"
      using rm by (auto simp: ring_total_def ring_len_items comp_def intro!: arg_cong [where f = sum_list] map_cong)
    then show "\<exists>n. sent ?i = sent i + word_of_nat n \<and>
        received ?i + word_of_nat (ring_total ?i) = received i + word_of_nat (ring_total i) + word_of_nat n"
      by (intro exI [of _ 0]) simp
    show "endpoints_ok ?i" using eps rm by (auto simp: endpoints_ok_def)
  qed simp_all
  with f show ?thesis by auto
qed

lemma exit_task_ok:
  assumes ok: "settled_ok R c s i" and cur: "current s c = Some p"
  shows "\<exists>s' i'. exit_task c s i = Some (s', i') \<and> transit_ok R c s' i'"
proof -
  obtain i' where i': "forget_task p i = (0, i')" "settled_ok R c s i'"
    using forget_current [OF ok cur] by blast
  obtain s' where "exit_switch c s = Some s'" "transit_ok R c s' i'"
    using exit_switch_ok [OF i'(2) cur] by blast
  with i' cur show ?thesis by (simp add: exit_task_def current_id_def)
qed

section \<open>Settling the predecessor\<close>

lemma slot_ok_settle:
  "slot_ok R True cur True rc sc t \<Longrightarrow> t_state t \<noteq> Dead \<Longrightarrow> slot_ok R True cur False rc sc t"
  "slot_ok R True cur True rc sc t \<Longrightarrow> t_state t = Dead \<Longrightarrow>
     slot_ok R True cur False rc sc (t\<lparr>t_stack := 0, t_space := None, t_caps := [], t_mailbox := None\<rparr>)"
  by (auto simp: slot_ok_def space_root_def)

text \<open>The tree of a task that was left is not the one in \<open>CR3\<close>.\<close>

lemma left_tree:
  assumes ok: "sys_ok R c True s i" and prev: "prev_slot s c = Some p"
    and sp: "t_space (tasks s ! p) = Some sp"
  shows "as_root sp \<noteq> cr3 s c"
proof -
  from ok prev have p: "p < length (tasks s)" "current s c \<noteq> Some p"
    by (auto simp: sys_ok_def links_ok_def)
  have sl: "slots_ok R c True s i" using ok by (simp add: sys_ok_def)
  then have notR: "as_root sp \<noteq> R" using p(1) sp by (auto simp: slots_ok_def slot_ok_def)
  show ?thesis
  proof (cases "current s c")
    case None
    then show ?thesis using ok notR by (simp add: sys_ok_def regs_ok_def)
  next
    case (Some n)
    then have n: "n < length (tasks s)" "n \<noteq> p" and c3: "cr3 s c = t_cr3 (tasks s ! n)"
      using ok p(2) by (auto simp: sys_ok_def links_ok_def regs_ok_def)
    have "slot_ok R True True (prev_slot s c = Some n) (recv_count i n) (send_count i n) (tasks s ! n)"
      using sl n Some by (auto simp: slots_ok_def)
    then have root: "t_cr3 (tasks s ! n) = space_root R (tasks s ! n)" by (auto simp: slot_ok_def)
    show ?thesis
    proof (cases "t_space (tasks s ! n)")
      case None
      with root c3 notR show ?thesis by (simp add: space_root_def)
    next
      case (Some sp')
      have "roots_distinct s" using ok by (simp add: sys_ok_def)
      with n p(1) sp Some have "as_root sp \<noteq> as_root sp'"
        unfolding roots_distinct_def by metis
      with root c3 Some show ?thesis by (simp add: space_root_def)
    qed
  qed
qed


lemma post_switch_sel:
  assumes "prev_slot s c = Some p" "p < length (tasks s)"
  shows "tasks (post_switch c s) = (if t_state (tasks s ! p) = Dead
      then (tasks s)[p := (tasks s ! p)\<lparr>t_stack := 0, t_space := None, t_caps := [], t_mailbox := None\<rparr>]
      else tasks s)"
    and "current (post_switch c s) = current s" "prev_slot (post_switch c s) c = None"
    and "cr3 (post_switch c s) = cr3 s" "tss_rsp0 (post_switch c s) = tss_rsp0 s"
    and "syscall_rsp (post_switch c s) = syscall_rsp s" "kernel_root (post_switch c s) = kernel_root s"
    and "died_blocked (post_switch c s) = died_blocked s"
    and "torn_down (post_switch c s) = torn_down s @ (case t_space (tasks s ! p) of
        Some sp \<Rightarrow> if t_state (tasks s ! p) = Dead then [(sp, cr3 s c)] else [] | None \<Rightarrow> [])"
    and "reaped_spaces (post_switch c s) = reaped_spaces s + (case t_space (tasks s ! p) of
        Some sp \<Rightarrow> of_bool (t_state (tasks s ! p) = Dead) | None \<Rightarrow> 0)"
proof -
  have stk: "t\<lparr>t_space := None, t_caps := [], t_mailbox := None\<rparr> =
      t\<lparr>t_stack := 0, t_space := None, t_caps := [], t_mailbox := None\<rparr>" if "t_stack t = 0"
    for t :: "'a task" using that by (cases t) simp
  show "tasks (post_switch c s) = (if t_state (tasks s ! p) = Dead
      then (tasks s)[p := (tasks s ! p)\<lparr>t_stack := 0, t_space := None, t_caps := [], t_mailbox := None\<rparr>]
      else tasks s)"
    using assms
    by (cases "t_stack (tasks s ! p) = 0"; cases "t_space (tasks s ! p)")
      (simp_all add: post_switch_def Let_def; metis stk)+
qed (use assms in \<open>simp_all add: post_switch_def Let_def split: option.split\<close>)

lemma post_switch_ok:
  assumes ok: "transit_ok R c s i"
  shows "transit_ok R c (post_switch c s) i \<and> prev_slot (post_switch c s) c = None
    \<and> current (post_switch c s) = current s"
proof (cases "prev_slot s c")
  case None
  then have "post_switch c s = s" by (simp add: post_switch_def)
  with ok None show ?thesis by simp
next
  case (Some p)
  let ?s = "post_switch c s"
  from ok have sys: "sys_ok R c True s i" by (simp add: transit_ok_def)
  with Some have p: "p < length (tasks s)" "current s c \<noteq> Some p"
    by (auto simp: sys_ok_def links_ok_def)
  note sel = post_switch_sel [OF Some p(1)]
  let ?t = "if t_state (tasks s ! p) = Dead
    then (tasks s ! p)\<lparr>t_stack := 0, t_space := None, t_caps := [], t_mailbox := None\<rparr> else tasks s ! p"
  have ts: "tasks ?s = (tasks s)[p := ?t]" using sel(1) by (simp add: list_update_id)
  have len: "length (tasks ?s) = length (tasks s)" by (simp add: ts)
  have task: "tasks ?s ! k = (if k = p then ?t else tasks s ! k)" if "k < length (tasks s)" for k
    using that by (simp add: ts nth_list_update)
  have slot: "slot_ok R True (current s c = Some k) (k = p) (recv_count i k) (send_count i k) (tasks s ! k)"
    if "k < length (tasks s)" for k
    using sys that Some by (auto simp: sys_ok_def slots_ok_def eq_commute [of p k])
  have "slots_ok R c True ?s i"
    unfolding slots_ok_def len
  proof (intro allI impI)
    fix k assume k: "k < length (tasks s)"
    show "slot_ok R True (current ?s c = Some k) (prev_slot ?s c = Some k)
        (recv_count i k) (send_count i k) (tasks ?s ! k)"
      using slot [OF k] slot_ok_settle [of R "current s c = Some k" _ _ "tasks s ! k"] task [OF k]
      by (cases "k = p") (auto simp: sel(2,3))
  qed
  moreover have "links_ok c ?s i" using sys len by (simp add: sys_ok_def links_ok_def sel(2,3))
  moreover have "roots_distinct ?s"
  proof -
    have rd: "roots_distinct s" using sys by (simp add: sys_ok_def)
    have sp: "t_space (tasks ?s ! k) = Some x \<Longrightarrow> t_space (tasks s ! k) = Some x"
      if "k < length (tasks s)" for k x using task [OF that] by (auto split: if_splits)
    show ?thesis unfolding roots_distinct_def len
      using rd sp unfolding roots_distinct_def by blast
  qed
  moreover have "regs_ok R c ?s"
  proof (cases "current s c")
    case None
    then show ?thesis using sys by (simp add: sys_ok_def regs_ok_def sel(2,4))
  next
    case (Some n)
    then have "n < length (tasks s)" "n \<noteq> p" using sys p(2) by (auto simp: sys_ok_def links_ok_def)
    then show ?thesis using sys Some task [of n]
      by (simp add: sys_ok_def regs_ok_def sel(2,4-7))
  qed
  moreover have "balanced c True ?s i"
  proof -
    have w: "woken x ?s = woken x s" for x
      using woken_upd [OF ts p(1), of x] by (auto split: if_splits)
    have "resuming c True x ?s = resuming c True x s" for x
      using p sys task by (auto simp: resuming_def sel(2) sys_ok_def links_ok_def split: option.split)
    with w sys show ?thesis by (simp add: sys_ok_def balanced_def)
  qed
  moreover have "reaped_ok ?s"
    using sys left_tree [OF sys Some]
    by (auto simp: sys_ok_def reaped_ok_def sel(8,9,10) split: option.splits)
  moreover have "no_ready ?s" if "no_ready s"
    using that p(1) unfolding no_ready_def ts
    by (auto dest!: set_update_subset_insert [THEN subsetD] split: if_splits)
  ultimately show ?thesis using ok sel(2,3,7) by (simp add: transit_ok_def sys_ok_def)
qed


section \<open>Entering a task\<close>

lemma start_turn_ok:
  assumes ok: "settled_ok R c s i" and cur: "current s c = None" and kr: "kernel_root s = R"
  shows "case start_turn c s of (True, s') \<Rightarrow> transit_ok R c s' i \<and> current s' c \<noteq> None
    | (False, s') \<Rightarrow> s' = s \<and> no_ready s"
proof (cases "first_ready s")
  case None
  then show ?thesis using first_ready_None [of s] by (simp add: start_turn_def)
next
  case (Some n)
  note n = first_ready_Some [OF Some]
  from ok have sys: "sys_ok R c False s i" and prev: "prev_slot s c = None"
    by (simp_all add: settled_ok_def)
  let ?base = "s\<lparr>prev_slot := (prev_slot s)(c := None)\<rparr>"
  let ?s = "away c (Some n) ?base"
  have e: "start_turn c s = (True, ?s)" using Some by (simp add: start_turn_def away_def)
  have ts: "tasks ?s = (tasks s)[n := (tasks s ! n)\<lparr>t_state := Running\<rparr>]" by (simp add: away_sel)
  have len: "length (tasks ?s) = length (tasks s)" by (simp add: ts)
  have task: "tasks ?s ! k = (if k = n then (tasks s ! n)\<lparr>t_state := Running\<rparr> else tasks s ! k)"
    if "k < length (tasks s)" for k using that by (simp add: ts nth_list_update)
  have slot: "slot_ok R False False False (recv_count i k) (send_count i k) (tasks s ! k)"
    if "k < length (tasks s)" for k
    using sys that prev cur by (auto simp: sys_ok_def slots_ok_def)
  have "slots_ok R c True ?s i"
    unfolding slots_ok_def len
  proof (intro allI impI)
    fix k assume k: "k < length (tasks s)"
    show "slot_ok R True (current ?s c = Some k) (prev_slot ?s c = Some k)
        (recv_count i k) (send_count i k) (tasks ?s ! k)"
      using slot [OF k] n task [OF k] slot_ok_rest [of R _ _ "tasks s ! k"]
        slot_ok_enter [of R False False _ _ "tasks s ! k" False]
      by (cases "k = n") (auto simp: away_sel)
  qed
  moreover have "links_ok c ?s i" using sys n len by (simp add: sys_ok_def links_ok_def away_sel)
  moreover have "roots_distinct ?s"
  proof -
    have sp: "t_space (tasks ?s ! k) = t_space (tasks s ! k)" if "k < length (tasks s)" for k
      using task [OF that] by simp
    have "roots_distinct s" using sys by (simp add: sys_ok_def)
    then show ?thesis unfolding roots_distinct_def len by (simp add: sp)
  qed
  moreover have "regs_ok R c ?s"
    using away_regs(2) [of "Some n" n ?base c] n kr task [of n] by (simp add: regs_ok_def away_sel)
  moreover have "balanced c True ?s i"
  proof -
    have "woken x ?s + resuming c True x ?s = woken x s" for x
      using woken_upd [OF ts, of x] n by (simp add: resuming_def away_sel)
    then show ?thesis using balance_settled [OF ok] by (simp add: balanced_def add.assoc)
  qed
  moreover have "reaped_ok ?s" using sys by (simp add: sys_ok_def reaped_ok_def away_sel)
  ultimately have "sys_ok R c True ?s i" using sys by (simp add: sys_ok_def)
  then show ?thesis by (simp add: e transit_ok_def away_sel)
qed

text \<open>The task switched in takes up what it was doing: the send or receive that had parked it is
  counted, and the message delivered to it leaves its mailbox.\<close>

lemma resume_ok:
  assumes ok: "sys_ok R c True s i" and prev: "prev_slot s c = None" and cur: "current s c = Some p"
    and s1: "tasks s1 = (tasks s)[p := (tasks s ! p)\<lparr>t_mailbox := None\<rparr>]" "same_core s s1"
    and i1: "endpoints i1 = endpoints i" "send_blocks i1 = send_blocks i"
      "sent i1 = sent i + of_bool (t_ctx (tasks s ! p) = ResumeSend)"
      "received i1 = received i + of_bool (t_ctx (tasks s ! p) = ResumeRecv)"
  shows "settled_ok R c s1 i1"
proof -
  from ok cur have p: "p < length (tasks s)" by (auto simp: sys_ok_def links_ok_def)
  have len: "length (tasks s1) = length (tasks s)" by (simp add: s1)
  have task: "tasks s1 ! k = (if k = p then (tasks s ! p)\<lparr>t_mailbox := None\<rparr> else tasks s ! k)"
    if "k < length (tasks s)" for k using that by (simp add: s1 nth_list_update)
  have slot: "slot_ok R True (p = k) False (recv_count i k) (send_count i k) (tasks s ! k)"
    if "k < length (tasks s)" for k
    using ok that prev cur by (auto simp: sys_ok_def slots_ok_def)
  have run: "t_state (tasks s ! p) = Running" using slot [OF p] by (simp add: slot_ok_def)
  have cnt: "recv_count i1 k = recv_count i k" "send_count i1 k = send_count i k"
    "ring_total i1 = ring_total i" for k
    using i1(1) by (simp_all add: recv_count_def send_count_def ring_total_def)
  have "slots_ok R c False s1 i1"
    unfolding slots_ok_def len
  proof (intro allI impI)
    fix k assume k: "k < length (tasks s)"
    show "slot_ok R False (current s1 c = Some k) (prev_slot s1 c = Some k)
        (recv_count i1 k) (send_count i1 k) (tasks s1 ! k)"
      using slot [OF k] task [OF k] s1(2) cur prev
      by (cases "k = p") (auto simp: slot_ok_def same_core_def cnt space_root_def)
  qed
  moreover have "links_ok c s1 i1" using ok s1(2) len cnt
    by (simp add: sys_ok_def links_ok_def same_core_def)
  moreover have "roots_distinct s1"
  proof -
    have sp: "t_space (tasks s1 ! k) = t_space (tasks s ! k)" if "k < length (tasks s)" for k
      using task [OF that] by simp
    have "roots_distinct s" using ok by (simp add: sys_ok_def)
    then show ?thesis unfolding roots_distinct_def len by (simp add: sp)
  qed
  moreover have "regs_ok R c s1" using ok s1(2) cur p task [of p]
    by (simp add: sys_ok_def regs_ok_def same_core_def)
  moreover have "balanced c False s1 i1"
  proof (rule balancedI)
    have w: "woken x s1 = woken x s" for x using woken_upd [OF s1(1) p, of x] run by simp
    have r: "resuming c True x s = of_bool (t_ctx (tasks s ! p) = x)" for x
      using cur by (simp add: resuming_def)
    have "sent i + word_of_nat (woken ResumeSend s) + of_bool (t_ctx (tasks s ! p) = ResumeSend) =
        received i + word_of_nat (ring_total i) + word_of_nat (woken ResumeRecv s) +
        of_bool (t_ctx (tasks s ! p) = ResumeRecv)"
      using ok by (simp add: sys_ok_def balanced_def r add.assoc)
    then show "sent i1 + word_of_nat (woken ResumeSend s1) =
        received i1 + word_of_nat (ring_total i1) + word_of_nat (woken ResumeRecv s1)"
      by (simp add: w i1(3,4) cnt algebra_simps)
  qed
  moreover have "reaped_ok s1" "prev_slot s1 c = None" "endpoints_ok i1"
    using ok s1(2) prev i1 by (simp_all add: sys_ok_def reaped_ok_def same_core_def endpoints_ok_def)
  ultimately show ?thesis by (simp add: settled_ok_def sys_ok_def)
qed

lemma resume_plain:
  assumes ok: "sys_ok R c True s i" and prev: "prev_slot s c = None" and cur: "current s c = Some p"
    and ctx: "t_ctx (tasks s ! p) \<noteq> ResumeRecv" and s1: "tasks s1 = tasks s" "same_core s s1"
    and i1: "endpoints i1 = endpoints i" "send_blocks i1 = send_blocks i" "received i1 = received i"
      "sent i1 = sent i + of_bool (t_ctx (tasks s ! p) = ResumeSend)"
  shows "settled_ok R c s1 i1"
proof (rule resume_ok [OF ok prev cur _ s1(2)])
  from ok cur have p: "p < length (tasks s)" by (auto simp: sys_ok_def links_ok_def)
  then have "t_mailbox (tasks s ! p) = None"
    using ok cur ctx by (auto simp: sys_ok_def slots_ok_def slot_ok_def)
  then have "(tasks s ! p)\<lparr>t_mailbox := None\<rparr> = tasks s ! p" by (cases "tasks s ! p") simp
  then show "tasks s1 = (tasks s)[p := (tasks s ! p)\<lparr>t_mailbox := None\<rparr>]"
    using s1(1) by (simp add: list_update_id)
qed (use ctx i1 in simp_all)

lemma resume_recv:
  assumes ok: "sys_ok R c True s i" and prev: "prev_slot s c = None" and cur: "current s c = Some p"
    and ctx: "t_ctx (tasks s ! p) = ResumeRecv"
  shows "\<exists>km s1 i1. ipc_recv_resumed c s i = Some (km, s1, i1) \<and> settled_ok R c s1 i1
    \<and> current s1 = current s"
proof -
  from ok cur have p: "p < length (tasks s)" by (auto simp: sys_ok_def links_ok_def)
  then have "t_mailbox (tasks s ! p) \<noteq> None"
    using ok cur ctx by (auto simp: sys_ok_def slots_ok_def slot_ok_def)
  then obtain km where "t_mailbox (tasks s ! p) = Some km" by blast
  then have e: "ipc_recv_resumed c s i = Some (km, upd_task p (\<lambda>t. t\<lparr>t_mailbox := None\<rparr>) s,
      i\<lparr>received := received i + 1\<rparr>)"
    using cur by (simp add: ipc_recv_resumed_def take_mailbox_def)
  have "settled_ok R c (upd_task p (\<lambda>t. t\<lparr>t_mailbox := None\<rparr>) s) (i\<lparr>received := received i + 1\<rparr>)"
    using ctx by (intro resume_ok [OF ok prev cur]) (simp_all add: same_core_def)
  with e show ?thesis by simp
qed


section \<open>Changes that do not matter\<close>

lemma task_detail_ok:
  assumes ok: "settled_ok R c s i" and cur: "current s c = Some p"
    and f: "\<And>t. t_state (f t) = t_state t \<and> t_ctx (f t) = t_ctx t \<and> t_mailbox (f t) = t_mailbox t
      \<and> t_space (f t) = t_space t \<and> t_cr3 (f t) = t_cr3 t \<and> t_stack (f t) = t_stack t
      \<and> t_stack_top (f t) = t_stack_top t"
  shows "settled_ok R c (upd_task p f s) i"
proof (rule settled_upd [OF ok, of p])
  note cp = settled_current [OF ok cur]
  show "slot_ok R False (current s c = Some p) False (recv_count i p) (send_count i p) (f (tasks s ! p))"
    using current_slot [OF ok cur] f [of "tasks s ! p"] cp cur by (simp add: slot_ok_def space_root_def)
  have "woken x (upd_task p f s) = woken x s" for x
    using woken_upd [of "upd_task p f s" s p "f (tasks s ! p)" x] f [of "tasks s ! p"] cp by simp
  then show "balanced c False (upd_task p f s) i"
    using balance_settled [OF ok] by (intro balancedI) simp
qed (use settled_current [OF ok cur] ok f in
  \<open>simp_all add: same_core_def same_place_def settled_ok_def sys_ok_def\<close>)

lemma count_ok:
  "settled_ok R c s i \<Longrightarrow> settled_ok R c (s\<lparr>need_resched := nr\<rparr>) i"
  "settled_ok R c s i \<Longrightarrow> current s c = None \<Longrightarrow> settled_ok R c (s\<lparr>kernel_root := R\<rparr>) i"
  by (auto simp: settled_ok_def sys_ok_def slots_ok_def links_ok_def roots_distinct_def regs_ok_def
      balanced_def resuming_def woken_def reaped_ok_def split: option.splits)

section \<open>A new task\<close>

text \<open>The tree a task is spawned with is not the kernel's and belongs to nobody else.\<close>

definition fresh_space :: "u64 \<Rightarrow> address_space option \<Rightarrow> 'm sched \<Rightarrow> bool" where
  "fresh_space R space s \<longleftrightarrow> (case space of None \<Rightarrow> True | Some sp \<Rightarrow> as_root sp \<noteq> R \<and>
     (\<forall>t \<in> set (tasks s). case t_space t of None \<Rightarrow> True | Some sp' \<Rightarrow> as_root sp' \<noteq> as_root sp))"

lemma spawn_ok:
  assumes ok: "settled_ok R c s i" and cur: "current s c = None" and fresh: "fresh_space R space s"
  shows "settled_ok R c (snd (spawn_with c h base name space caps s)) i"
proof (cases h)
  case False
  with ok show ?thesis by (simp add: spawn_with_def)
next
  case True
  let ?s = "snd (spawn_with c h base name space caps s)"
  from ok have sys: "sys_ok R c False s i" and prev: "prev_slot s c = None"
    by (simp_all add: settled_ok_def)
  define t where "t = \<lparr>t_ctx = ResumeFresh, t_stack = STACK_WORDS,
          t_stack_top = (base + word_of_nat STACK_WORDS * 8) AND NOT 0xf,
          t_cr3 = (case space of Some sp \<Rightarrow> as_root sp | None \<Rightarrow> cr3 s c),
          t_space = space, t_caps = caps, t_mailbox = (None :: 'a kmessage option), t_state = Ready,
          t_id = length (tasks s), t_name = name, t_frame = frame_zero, t_corrupt = False\<rparr>"
  have s': "?s = s\<lparr>tasks := tasks s @ [t]\<rparr>" using True by (simp add: spawn_with_def t_def)
  have slot: "slot_ok R False False False 0 0 t"
    using sys cur fresh
    by (auto simp: slot_ok_def t_def space_root_def fresh_space_def sys_ok_def regs_ok_def split: option.splits)
  have z: "recv_count i (length (tasks s)) = 0 \<and> send_count i (length (tasks s)) = 0"
    using sys by (simp add: sys_ok_def links_ok_def)
  have nc: "current s c \<noteq> Some k" for k using cur by simp
  have "slots_ok R c False ?s i"
    using sys slot z prev cur by (auto simp: sys_ok_def slots_ok_def s' less_Suc_eq nth_append)
  moreover have "links_ok c ?s i" using sys cur prev by (simp add: sys_ok_def links_ok_def s')
  moreover have "roots_distinct ?s"
  proof -
    have old: "roots_distinct s" using sys by (simp add: sys_ok_def)
    have new: "as_root sp \<noteq> as_root sp'"
      if "k < length (tasks s)" "t_space (tasks s ! k) = Some sp" "t_space t = Some sp'" for k sp sp'
      using fresh that nth_mem [OF that(1)] by (auto simp: fresh_space_def t_def split: option.splits)
    show ?thesis unfolding roots_distinct_def
    proof (intro allI impI)
      fix j k sp sp'
      assume j: "j < length (tasks ?s)" and k: "k < length (tasks ?s)" and ne: "j \<noteq> k"
        and sp: "t_space (tasks ?s ! j) = Some sp" "t_space (tasks ?s ! k) = Some sp'"
      consider "j < length (tasks s)" "k < length (tasks s)" | "j < length (tasks s)" "k = length (tasks s)"
        | "j = length (tasks s)" "k < length (tasks s)" using j k ne by (auto simp: s' less_Suc_eq)
      then show "as_root sp \<noteq> as_root sp'"
      proof cases
        case 1
        with old sp ne show ?thesis unfolding roots_distinct_def by (simp add: s' nth_append)
      next
        case 2
        with new [of j sp sp'] sp show ?thesis by (simp add: s' nth_append)
      next
        case 3
        with new [of k sp' sp] sp show ?thesis by (simp add: s' nth_append)
      qed
    qed
  qed
  moreover have "regs_ok R c ?s" using sys cur by (simp add: sys_ok_def regs_ok_def s')
  moreover have "balanced c False ?s i"
    using sys by (auto simp: sys_ok_def balanced_def woken_def resuming_def s' t_def split: option.splits)
  moreover have "reaped_ok ?s" using sys by (simp add: sys_ok_def reaped_ok_def s')
  ultimately show ?thesis using sys prev by (simp add: settled_ok_def sys_ok_def s')
qed


section \<open>Fairness\<close>

text \<open>How many slots round the table from \<open>p\<close> the slot \<open>j\<close> is, counting \<open>p\<close> itself as a full turn.\<close>

definition turn_distance :: "nat \<Rightarrow> nat \<Rightarrow> nat \<Rightarrow> nat" where
  "turn_distance n p j = (if p < j then j - p else j + n - p)"

lemma turn_distance_mod: "p < n \<Longrightarrow> j < n \<Longrightarrow>
    0 < turn_distance n p j \<and> turn_distance n p j \<le> n \<and> (p + turn_distance n p j) mod n = j"
  by (auto simp: turn_distance_def)

lemma turn_distance_unique:
  assumes "p < n" "0 < off" "off \<le> n"
  shows "turn_distance n p ((p + off) mod n) = off"
proof (cases "p + off < n")
  case True
  then show ?thesis using assms by (simp add: turn_distance_def)
next
  case False
  then have "(p + off) mod n = p + off - n" using assms by (simp add: mod_if)
  then show ?thesis using assms False by (auto simp: turn_distance_def)
qed

lemma pick_next_first:
  assumes "pick_next p s = Some m" "p < length (tasks s)" "j < length (tasks s)"
    "t_state (tasks s ! j) = Ready"
  shows "turn_distance (length (tasks s)) p m \<le> turn_distance (length (tasks s)) p j"
proof -
  let ?n = "length (tasks s)"
  let ?xs = "map (\<lambda>off. (p + off) mod ?n) [1..<?n + 1]"
  from assms(1,2) have "List.find (\<lambda>i. t_state (tasks s ! i) = Ready) ?xs = Some m"
    by (auto simp: pick_next_def Let_def split: if_splits simp del: upt_Suc)
  then obtain i where i: "i < ?n" "m = ?xs ! i" "\<forall>k < i. t_state (tasks s ! (?xs ! k)) \<noteq> Ready"
    by (auto simp: find_Some_iff simp del: upt_Suc)
  have xs: "?xs ! k = (p + Suc k) mod ?n" if "k < ?n" for k using that by (simp del: upt_Suc)
  have m: "turn_distance ?n p m = Suc i"
    using turn_distance_unique [OF assms(2), of "Suc i"] i xs [OF i(1)] by simp
  note d = turn_distance_mod [OF assms(2,3)]
  show ?thesis
  proof (rule ccontr)
    assume "\<not> ?thesis"
    then have k: "turn_distance ?n p j - 1 < i" using m d by auto
    then have "?xs ! (turn_distance ?n p j - 1) = j" using xs [of "turn_distance ?n p j - 1"] i(1) d by simp
    with i(3) k assms(4) show False by metis
  qed
qed

end
