(* ===== verification/Syscall.thy ===== *)
theory Syscall imports Ipc begin

text \<open>
  The system call layer: the entry and exit of \<open>crates/arch-x86_64/src/syscall.rs\<close> with its \<open>GS\<close>
  discipline, the handlers of \<open>crates/kernel/src/usermode.rs\<close>, and what runs after a context switch.
  What the ABI crates of the other repository define (syscall numbers, error values, the layout of
  \<open>Message\<close>) is the record \<open>abi\<close>, a parameter of every definition that uses it.
\<close>

section \<open>The ABI\<close>

text \<open>\<open>Syscall::from_raw\<close> answers one of twenty numbers, of which this kernel serves six.\<close>

datatype syscall_no = Yield | Exit | DebugWrite | Send | Recv | Revoke | OtherSyscall nat

record 'm abi =
  syscall_from_raw :: "u64 \<Rightarrow> syscall_no option"
  kerror_as_raw :: "kerror \<Rightarrow> u64"
  message_new :: 'm
  message_size :: nat
  message_bytes :: "'m \<Rightarrow> u8 list"
  message_parse :: "u8 list \<Rightarrow> 'm"
  message_cap :: "'m \<Rightarrow> u32"
  message_set_cap :: "u32 \<Rightarrow> 'm \<Rightarrow> 'm"
  handle_is_null :: "u32 \<Rightarrow> bool"
  handle_null :: u32

section \<open>Kernel state\<close>

text \<open>\<open>k_gs\<close> holds, per core, \<open>IA32_GS_BASE\<close> and \<open>IA32_KERNEL_GS_BASE\<close> as the per-core block each
  points at, \<open>None\<close> for a null base. \<open>k_umem\<close> is user memory, by the tree it is reached through and
  the virtual address.\<close>

record 'm kernel =
  k_sched :: "'m sched"
  k_ipc :: "'m ipc"
  k_objects :: object_table
  k_phys :: phys
  k_umem :: "u64 \<Rightarrow> u64 \<Rightarrow> u8"
  k_gs :: "nat \<Rightarrow> nat option \<times> nat option"
  k_console :: "u8 list"
  k_arm_noncanonical :: bool
  k_syscalls :: u64
  k_refused :: u64
  k_bytes_written :: u64
  k_yield_calls :: u64
  k_user_faults :: u64
  k_revocations :: u64
  k_iret_returns :: u64

definition MAX_CPUS :: nat where "MAX_CPUS = 32"

text \<open>\<open>syscall::cpu_index\<close> reads the kernel base, whichever side of a \<open>swapgs\<close> it is called on.\<close>

definition cpu_index :: "nat \<Rightarrow> 'm kernel \<Rightarrow> nat" where
  "cpu_index c k = (case snd (k_gs k c) of None \<Rightarrow> 0 | Some block \<Rightarrow> block)"

definition me :: "nat \<Rightarrow> 'm kernel \<Rightarrow> nat" where
  "me c k = min (cpu_index c k) (MAX_CPUS - 1)"

definition swap_gs :: "nat \<Rightarrow> 'm kernel \<Rightarrow> 'm kernel" where
  "swap_gs c k = k\<lparr>k_gs := (k_gs k)(c := (snd (k_gs k c), fst (k_gs k c)))\<rparr>"

definition upd_frame :: "nat \<Rightarrow> (syscall_frame \<Rightarrow> syscall_frame) \<Rightarrow> 'm kernel \<Rightarrow> 'm kernel" where
  "upd_frame c f k =
     (case current (k_sched k) c of
        None \<Rightarrow> k
      | Some i \<Rightarrow> k\<lparr>k_sched := upd_task i (\<lambda>t. t\<lparr>t_frame := f (t_frame t)\<rparr>) (k_sched k)\<rparr>)"

definition NONCANONICAL_RIP :: u64 where "NONCANONICAL_RIP = 0x0000800000000000"

definition DEBUG_WRITE_MAX :: nat where "DEBUG_WRITE_MAX = 256"

text \<open>The address is sign-extended from bit 47 and compared with itself.\<close>

definition is_canonical :: "u64 \<Rightarrow> bool" where
  "is_canonical address \<longleftrightarrow> signed_drop_bit 16 (push_bit 16 address) = address"

section \<open>User memory\<close>

definition user_bytes :: "u64 \<Rightarrow> u64 \<Rightarrow> nat \<Rightarrow> 'm kernel \<Rightarrow> u8 list" where
  "user_bytes tree ptr n k = map (\<lambda>j. k_umem k tree (ptr + word_of_nat j)) [0..<n]"

fun poke_bytes :: "u64 \<Rightarrow> u8 list \<Rightarrow> (u64 \<Rightarrow> u8) \<Rightarrow> (u64 \<Rightarrow> u8)" where
  "poke_bytes ptr [] mem = mem"
| "poke_bytes ptr (b # bs) mem = poke_bytes (ptr + 1) bs (mem(ptr := b))"

text \<open>The copies go through the tree in \<open>CR3\<close>; the check walks the tree of the running task.\<close>

definition read_user_msg :: "'m abi \<Rightarrow> nat \<Rightarrow> u64 \<Rightarrow> 'm kernel \<Rightarrow> 'm option" where
  "read_user_msg A c ptr k =
     (if \<not> is_multiple_of ptr 8 then None
      else case current_space (me c k) (k_sched k) of
        None \<Rightarrow> None
      | Some sp \<Rightarrow>
          if \<not> range_ok sp ptr (word_of_nat (message_size A)) False (k_phys k) then None
          else Some (message_parse A (user_bytes (cr3 (k_sched k) c) ptr (message_size A) k)))"

definition write_user_msg :: "'m abi \<Rightarrow> nat \<Rightarrow> u64 \<Rightarrow> 'm \<Rightarrow> 'm kernel \<Rightarrow> bool \<times> 'm kernel" where
  "write_user_msg A c ptr m k =
     (if \<not> is_multiple_of ptr 8 then (False, k)
      else case current_space (me c k) (k_sched k) of
        None \<Rightarrow> (False, k)
      | Some sp \<Rightarrow>
          if \<not> range_ok sp ptr (word_of_nat (message_size A)) True (k_phys k) then (False, k)
          else let tree = cr3 (k_sched k) c in
            (True, k\<lparr>k_umem := (k_umem k)
               (tree := poke_bytes ptr (take (message_size A) (message_bytes A m)) (k_umem k tree))\<rparr>))"

section \<open>Handlers\<close>

definition endpoint_for :: "nat \<Rightarrow> u32 \<Rightarrow> bool \<Rightarrow> 'm kernel \<Rightarrow> kerror + nat" where
  "endpoint_for c handle want_send k =
     (case resolve_cap (me c k) handle (k_sched k) of
        Some (EndpointCap obj snd_ok rcv_ok) \<Rightarrow>
          if (want_send \<and> \<not> snd_ok) \<or> (\<not> want_send \<and> \<not> rcv_ok) then Inl PermissionDenied
          else (case get obj (k_objects k) of
                  Some (EndpointObject i) \<Rightarrow> Inr i
                | None \<Rightarrow> Inl BadHandle)
      | None \<Rightarrow> Inl BadHandle)"

definition count_refused :: "'m kernel \<Rightarrow> 'm kernel" where
  "count_refused k = k\<lparr>k_refused := k_refused k + 1\<rparr>"

definition result_raw :: "'m abi \<Rightarrow> (kerror + unit) \<Rightarrow> u64" where
  "result_raw A r = (case r of Inl e \<Rightarrow> kerror_as_raw A e | Inr u \<Rightarrow> 0)"

definition sys_send :: "'m abi \<Rightarrow> nat \<Rightarrow> u32 \<Rightarrow> u64 \<Rightarrow> 'm kernel \<Rightarrow> (u64 flow \<times> 'm kernel) option" where
  "sys_send A c handle ptr k =
     (case endpoint_for c handle True k of
        Inl e \<Rightarrow> Some (Returned (kerror_as_raw A e), count_refused k)
      | Inr ep \<Rightarrow>
          (case read_user_msg A c ptr k of
             None \<Rightarrow> Some (Returned (kerror_as_raw A InvalidArgument), k)
           | Some m \<Rightarrow>
               (case (if handle_is_null A (message_cap A m) then Some None
                      else map_option Some (resolve_cap (me c k) (message_cap A m) (k_sched k))) of
                  None \<Rightarrow> Some (Returned (kerror_as_raw A BadHandle), k)
                | Some transfer \<Rightarrow>
                    (case ipc_send (me c k) ep \<lparr>km_msg = m, km_cap = transfer\<rparr> (k_sched k) (k_ipc k) of
                       None \<Rightarrow> None
                     | Some (r, s', i') \<Rightarrow>
                         Some (case r of Returned v \<Rightarrow> Returned (result_raw A v) | Switched \<Rightarrow> Switched,
                               k\<lparr>k_sched := s', k_ipc := i'\<rparr>)))))"

text \<open>The part of \<open>sys_recv\<close> after \<open>ipc::recv\<close> has answered a message.\<close>

definition finish_recv :: "'m abi \<Rightarrow> nat \<Rightarrow> bool \<Rightarrow> u64 \<Rightarrow> 'm kmessage \<Rightarrow> 'm kernel \<Rightarrow> u64 \<times> 'm kernel" where
  "finish_recv A c heap_ok ptr km k =
     (case (case km_cap km of
              None \<Rightarrow> (Some (handle_null A), k)
            | Some cp \<Rightarrow>
                (case install_cap_current (me c k) heap_ok cp (k_sched k) of
                   (h, s') \<Rightarrow> (h, k\<lparr>k_sched := s'\<rparr>))) of
        (None, k1) \<Rightarrow> (kerror_as_raw A OutOfResources, k1)
      | (Some h, k1) \<Rightarrow>
          (case write_user_msg A c ptr (message_set_cap A h (km_msg km)) k1 of
             (True, k2) \<Rightarrow> (0, k2)
           | (False, k2) \<Rightarrow> (kerror_as_raw A InvalidArgument, k2)))"

definition sys_recv ::
  "'m abi \<Rightarrow> nat \<Rightarrow> bool \<Rightarrow> u32 \<Rightarrow> u64 \<Rightarrow> 'm kernel \<Rightarrow> (u64 flow \<times> 'm kernel) option" where
  "sys_recv A c heap_ok handle ptr k =
     (case endpoint_for c handle False k of
        Inl e \<Rightarrow> Some (Returned (kerror_as_raw A e), count_refused k)
      | Inr ep \<Rightarrow>
          (case write_user_msg A c ptr (message_new A) k of
             (False, k1) \<Rightarrow> Some (Returned (kerror_as_raw A InvalidArgument), k1)
           | (True, k1) \<Rightarrow>
               (case ipc_recv (me c k1) ep (k_sched k1) (k_ipc k1) of
                  None \<Rightarrow> None
                | Some (r, s', i') \<Rightarrow>
                    let k2 = k1\<lparr>k_sched := s', k_ipc := i'\<rparr> in
                    Some (case r of
                            Switched \<Rightarrow> (Switched, k2)
                          | Returned (Inl e) \<Rightarrow> (Returned (kerror_as_raw A e), k2)
                          | Returned (Inr km) \<Rightarrow>
                              (case finish_recv A c heap_ok ptr km k2 of
                                 (rc, k3) \<Rightarrow> (Returned rc, k3))))))"

definition sys_revoke :: "'m abi \<Rightarrow> nat \<Rightarrow> u32 \<Rightarrow> 'm kernel \<Rightarrow> u64 \<times> 'm kernel" where
  "sys_revoke A c handle k =
     (case resolve_cap (me c k) handle (k_sched k) of
        None \<Rightarrow> (kerror_as_raw A BadHandle, k)
      | Some cp \<Rightarrow>
          (case revoke (cap_object cp) (k_objects k) of
             (True, objs) \<Rightarrow> (0, k\<lparr>k_objects := objs, k_revocations := k_revocations k + 1\<rparr>)
           | (False, objs) \<Rightarrow> (kerror_as_raw A BadHandle, k\<lparr>k_objects := objs\<rparr>)))"

text \<open>\<open>core::str::from_utf8\<close>: whether the bytes are well-formed UTF-8.\<close>

definition utf8_cont :: "u8 \<Rightarrow> bool" where
  "utf8_cont b \<longleftrightarrow> 0x80 \<le> b \<and> b \<le> 0xBF"

fun utf8_ok :: "u8 list \<Rightarrow> bool" where
  "utf8_ok [] = True"
| "utf8_ok (a # bs) =
     (if a < 0x80 then utf8_ok bs
      else if 0xC2 \<le> a \<and> a \<le> 0xDF then
        (case bs of b # bs' \<Rightarrow> utf8_cont b \<and> utf8_ok bs' | _ \<Rightarrow> False)
      else if 0xE0 \<le> a \<and> a \<le> 0xEF then
        (case bs of
           b # c # bs' \<Rightarrow> (if a = 0xE0 then 0xA0 \<le> b \<and> b \<le> 0xBF
                          else if a = 0xED then 0x80 \<le> b \<and> b \<le> 0x9F else utf8_cont b)
                        \<and> utf8_cont c \<and> utf8_ok bs'
         | _ \<Rightarrow> False)
      else if 0xF0 \<le> a \<and> a \<le> 0xF4 then
        (case bs of
           b # c # d # bs' \<Rightarrow> (if a = 0xF0 then 0x90 \<le> b \<and> b \<le> 0xBF
                              else if a = 0xF4 then 0x80 \<le> b \<and> b \<le> 0x8F else utf8_cont b)
                            \<and> utf8_cont c \<and> utf8_cont d \<and> utf8_ok bs'
         | _ \<Rightarrow> False)
      else False)"

definition debug_write :: "'m abi \<Rightarrow> nat \<Rightarrow> u64 \<Rightarrow> u64 \<Rightarrow> 'm kernel \<Rightarrow> u64 \<times> 'm kernel" where
  "debug_write A c ptr len k =
     (if DEBUG_WRITE_MAX < unat len then (kerror_as_raw A InvalidArgument, k)
      else case current_space (me c k) (k_sched k) of
        None \<Rightarrow> (kerror_as_raw A NotSupported, k)
      | Some sp \<Rightarrow>
          if \<not> range_ok sp ptr len False (k_phys k) then (kerror_as_raw A InvalidArgument, k)
          else let buffer = user_bytes (cr3 (k_sched k) c) ptr (unat len) k in
            if utf8_ok buffer
            then (len, k\<lparr>k_console := k_console k @ buffer, k_bytes_written := k_bytes_written k + len\<rparr>)
            else (kerror_as_raw A InvalidArgument, k))"

section \<open>Dispatch\<close>

text \<open>Storing the result: \<open>frame.rax = rc\<close>, and the armed corruption of the return address.\<close>

definition store_result :: "nat \<Rightarrow> u64 \<Rightarrow> 'm kernel \<Rightarrow> 'm kernel" where
  "store_result c rc k =
     (case current (k_sched k) c of
        None \<Rightarrow> k
      | Some i \<Rightarrow>
          upd_frame c (\<lambda>f. if t_corrupt (tasks (k_sched k) ! i)
             then f\<lparr>f_rax := rc, f_rip := NONCANONICAL_RIP\<rparr> else f\<lparr>f_rax := rc\<rparr>) k)"

datatype return_path = Sysret | Iret

text \<open>The end of \<open>staros_syscall_dispatch\<close> and the stub's way out: choose the instruction, swap
  \<open>GS\<close> back.\<close>

definition syscall_return :: "nat \<Rightarrow> 'm kernel \<Rightarrow> return_path \<times> 'm kernel" where
  "syscall_return c k =
     (let rip = (case current (k_sched k) c of
                   None \<Rightarrow> 0 | Some i \<Rightarrow> f_rip (t_frame (tasks (k_sched k) ! i)))
      in if is_canonical rip then (Sysret, swap_gs c k)
         else (Iret, swap_gs c (k\<lparr>k_iret_returns := k_iret_returns k + 1\<rparr>)))"

text \<open>The \<open>match\<close> of \<open>on_syscall\<close>, up to where it returns or is switched away from. The frame is the
  running task's; what a resumed task still has to do is \<open>resume_task\<close>.\<close>

definition serve_syscall ::
  "'m abi \<Rightarrow> nat \<Rightarrow> bool \<Rightarrow> syscall_frame \<Rightarrow> 'm kernel \<Rightarrow> (unit flow \<times> 'm kernel) option" where
  "serve_syscall A c heap_ok f k =
     (case syscall_from_raw A (f_rax f) of
        Some Yield \<Rightarrow>
          let k1 = swap_gs c (store_result c 0 (k\<lparr>k_yield_calls := k_yield_calls k + 1\<rparr>))
          in (case reschedule (me c k1) ResumeYield (k_sched k1) of
                (True, s') \<Rightarrow> Some (Switched, k1\<lparr>k_sched := s'\<rparr>)
              | (False, s') \<Rightarrow> Some (Returned (), swap_gs c (k1\<lparr>k_sched := s'\<rparr>)))
      | Some Exit \<Rightarrow>
          let k1 = swap_gs c k
          in map_option (\<lambda>(s', i'). (Switched, k1\<lparr>k_sched := s', k_ipc := i'\<rparr>))
               (exit_task (me c k1) (k_sched k1) (k_ipc k1))
      | Some DebugWrite \<Rightarrow>
          (case debug_write A c (f_rdi f) (f_rsi f) k of
             (rc, k1) \<Rightarrow> Some (Returned (), store_result c rc k1))
      | Some Send \<Rightarrow>
          (case sys_send A c (ucast (f_rdi f)) (f_rsi f) (swap_gs c k) of
             None \<Rightarrow> None
           | Some (Switched, k1) \<Rightarrow> Some (Switched, k1)
           | Some (Returned rc, k1) \<Rightarrow> Some (Returned (), store_result c rc (swap_gs c k1)))
      | Some Recv \<Rightarrow>
          (case sys_recv A c heap_ok (ucast (f_rdi f)) (f_rsi f) (swap_gs c k) of
             None \<Rightarrow> None
           | Some (Switched, k1) \<Rightarrow> Some (Switched, k1)
           | Some (Returned rc, k1) \<Rightarrow> Some (Returned (), store_result c rc (swap_gs c k1)))
      | Some Revoke \<Rightarrow>
          (case sys_revoke A c (ucast (f_rdi f)) k of
             (rc, k1) \<Rightarrow> Some (Returned (), store_result c rc k1))
      | _ \<Rightarrow> Some (Returned (), store_result c (kerror_as_raw A NoSuchSyscall) (count_refused k)))"

definition on_syscall :: "'m abi \<Rightarrow> nat \<Rightarrow> bool \<Rightarrow> 'm kernel \<Rightarrow> (unit flow \<times> 'm kernel) option" where
  "on_syscall A c heap_ok k0 =
     (case current (k_sched k0) c of
        None \<Rightarrow> None
      | Some t \<Rightarrow>
          let corrupt = k_arm_noncanonical k0;
              k = k0\<lparr>k_syscalls := k_syscalls k0 + 1, k_arm_noncanonical := False,
                     k_sched := upd_task t (\<lambda>x. x\<lparr>t_corrupt := corrupt\<rparr>) (k_sched k0)\<rparr>
          in serve_syscall A c heap_ok (t_frame (tasks (k_sched k) ! t)) k)"

section \<open>After a context switch\<close>

text \<open>What a task that was switched to runs after it has settled its predecessor: the rest of the code
  it was in when it left, down to ring 3.\<close>

definition continue_task :: "'m abi \<Rightarrow> nat \<Rightarrow> bool \<Rightarrow> nat \<Rightarrow> 'm kernel \<Rightarrow> 'm kernel option" where
  "continue_task A c heap_ok t k =
     (case t_ctx (tasks (k_sched k) ! t) of
        ResumeFresh \<Rightarrow> Some k
      | ResumePreempt \<Rightarrow>
          Some (k\<lparr>k_sched := (k_sched k)\<lparr>preemptions := preemptions (k_sched k) + 1\<rparr>\<rparr>)
      | ResumeYield \<Rightarrow>
          Some (snd (syscall_return c (swap_gs c
            (k\<lparr>k_sched := (k_sched k)\<lparr>yields := yields (k_sched k) + 1\<rparr>\<rparr>))))
      | ResumeSend \<Rightarrow>
          (case ipc_send_resumed (k_ipc k) of
             (r, i') \<Rightarrow>
               Some (snd (syscall_return c
                 (store_result c (result_raw A r) (swap_gs c (k\<lparr>k_ipc := i'\<rparr>))))))
      | ResumeRecv \<Rightarrow>
          (case ipc_recv_resumed (me c k) (k_sched k) (k_ipc k) of
             None \<Rightarrow> None
           | Some (km, s', i') \<Rightarrow>
               (case finish_recv A c heap_ok (f_rsi (t_frame (tasks s' ! t))) km
                       (k\<lparr>k_sched := s', k_ipc := i'\<rparr>) of
                  (rc, k1) \<Rightarrow> Some (snd (syscall_return c (store_result c rc (swap_gs c k1)))))))"

definition resume_task :: "'m abi \<Rightarrow> nat \<Rightarrow> bool \<Rightarrow> 'm kernel \<Rightarrow> 'm kernel option" where
  "resume_task A c heap_ok k0 =
     (let k = k0\<lparr>k_sched := post_switch (me c k0) (k_sched k0)\<rparr> in
      case current (k_sched k) c of
        None \<Rightarrow> None
      | Some t \<Rightarrow> continue_task A c heap_ok t k)"

text \<open>The context a core switched to: a task, or the loop of \<open>start\<close> in the bootstrap context, which
  settles the predecessor and looks for work again.\<close>

definition resume_context :: "'m abi \<Rightarrow> nat \<Rightarrow> bool \<Rightarrow> 'm kernel \<Rightarrow> 'm kernel option" where
  "resume_context A c heap_ok k =
     (case current (k_sched k) c of
        Some t \<Rightarrow> resume_task A c heap_ok k
      | None \<Rightarrow>
          let cpu = me c k;
              s1 = post_switch cpu (enter cpu None (Some (kernel_root (k_sched k))) (k_sched k))
          in case start_turn cpu s1 of
               (False, s2) \<Rightarrow> Some (k\<lparr>k_sched := s2\<rparr>)
             | (True, s2) \<Rightarrow> resume_task A c heap_ok (k\<lparr>k_sched := s2\<rparr>))"

section \<open>Whole operations\<close>

text \<open>One system call: the stub saves the frame and swaps \<open>GS\<close>, the handler runs, and either the
  caller returns to ring 3 or whichever context was switched to goes on.\<close>

definition do_syscall :: "'m abi \<Rightarrow> nat \<Rightarrow> bool \<Rightarrow> syscall_frame \<Rightarrow> 'm kernel \<Rightarrow> 'm kernel option" where
  "do_syscall A c heap_ok frame k =
     (case on_syscall A c heap_ok (swap_gs c (upd_frame c (\<lambda>_. frame) k)) of
        None \<Rightarrow> None
      | Some (Returned u, k1) \<Rightarrow> Some (snd (syscall_return c k1))
      | Some (Switched, k1) \<Rightarrow> resume_context A c heap_ok k1)"

text \<open>A timer interrupt: ask for a reschedule, and honour it in the epilogue.\<close>

definition do_tick :: "'m abi \<Rightarrow> nat \<Rightarrow> bool \<Rightarrow> 'm kernel \<Rightarrow> 'm kernel option" where
  "do_tick A c heap_ok k =
     (case on_irq_epilogue (me c k) (request_resched (me c k) (k_sched k)) of
        (False, s') \<Rightarrow> Some (k\<lparr>k_sched := s'\<rparr>)
      | (True, s') \<Rightarrow> resume_context A c heap_ok (k\<lparr>k_sched := s'\<rparr>))"

text \<open>A fault in ring 3: counted, and the task that took it exits.\<close>

definition do_user_fault :: "'m abi \<Rightarrow> nat \<Rightarrow> bool \<Rightarrow> 'm kernel \<Rightarrow> 'm kernel option" where
  "do_user_fault A c heap_ok k0 =
     (let k = k0\<lparr>k_user_faults := k_user_faults k0 + 1\<rparr> in
      case exit_task (me c k) (k_sched k) (k_ipc k) of
        None \<Rightarrow> None
      | Some (s', i') \<Rightarrow> resume_context A c heap_ok (k\<lparr>k_sched := s', k_ipc := i'\<rparr>))"

text \<open>A kernel thread whose entry function returned: the trampoline calls \<open>exit\<close>.\<close>

definition do_thread_exit :: "'m abi \<Rightarrow> nat \<Rightarrow> bool \<Rightarrow> 'm kernel \<Rightarrow> 'm kernel option" where
  "do_thread_exit A c heap_ok k =
     (case exit_task (me c k) (k_sched k) (k_ipc k) of
        None \<Rightarrow> None
      | Some (s', i') \<Rightarrow> resume_context A c heap_ok (k\<lparr>k_sched := s', k_ipc := i'\<rparr>))"

text \<open>\<open>start\<close>, called from the bootstrap context.\<close>

definition do_start :: "'m abi \<Rightarrow> nat \<Rightarrow> bool \<Rightarrow> 'm kernel \<Rightarrow> 'm kernel option" where
  "do_start A c heap_ok k =
     (let cpu = me c k; s = (k_sched k)\<lparr>kernel_root := cr3 (k_sched k) cpu\<rparr> in
      case start_turn cpu s of
        (False, s1) \<Rightarrow> Some (k\<lparr>k_sched := s1\<rparr>)
      | (True, s1) \<Rightarrow> resume_task A c heap_ok (k\<lparr>k_sched := s1\<rparr>))"

definition do_spawn ::
  "nat \<Rightarrow> bool \<Rightarrow> u64 \<Rightarrow> string \<Rightarrow> address_space option \<Rightarrow> cap_table \<Rightarrow> 'm kernel \<Rightarrow> bool \<times> 'm kernel" where
  "do_spawn c heap_ok stack_base name space caps k =
     (case spawn_with (me c k) heap_ok stack_base name space caps (k_sched k) of
        (ok, s') \<Rightarrow> (ok, k\<lparr>k_sched := s'\<rparr>))"

section \<open>Canonical addresses\<close>

text \<open>What the shift and the comparison of \<open>is_canonical\<close> amount to.\<close>

lemma canon_bit: "bit (signed_drop_bit 16 (push_bit 16 a)) n \<longleftrightarrow> bit a (if 48 \<le> n \<and> n < 64 then 47 else n)"
  for a :: u64
proof -
  consider "48 \<le> n \<and> n < 64" | "n < 48" | "64 \<le> n" by linarith
  then show ?thesis
  proof cases
    case 3
    then show ?thesis using bit_u64 [of a n] bit_u64 [of "signed_drop_bit 16 (push_bit 16 a)" n] by auto
  qed (simp_all add: bit_signed_drop_bit_iff bit_push_bit_iff)
qed

lemma canonical_bits: "is_canonical a \<longleftrightarrow> (\<forall>n. 48 \<le> n \<longrightarrow> n < 64 \<longrightarrow> bit a n = bit a 47)"
proof -
  have "is_canonical a \<longleftrightarrow> (\<forall>n. bit (signed_drop_bit 16 (push_bit 16 a)) n = bit a n)"
    using bit_u64 [of a] bit_u64 [of "signed_drop_bit 16 (push_bit 16 a)"]
    unfolding is_canonical_def bit_eq_iff by auto
  then show ?thesis unfolding canon_bit by (auto split: if_splits)
qed

lemma unat_not: "unat (NOT a) = 2 ^ 64 - 1 - unat a" for a :: u64
proof -
  have "NOT a = - 1 - a" by (simp add: not_eq_complement)
  also have "unat \<dots> = unat (- 1 :: u64) - unat a" by (rule unat_sub) simp
  finally show ?thesis by (simp only: unat_minus_one_width) simp
qed

lemma canonical_range: "is_canonical a \<longleftrightarrow> unat a < 2 ^ 47 \<or> 2 ^ 64 - 2 ^ 47 \<le> unat a"
proof -
  have hi: "2 ^ 64 - 2 ^ 47 \<le> unat a \<longleftrightarrow> unat (NOT a) < 2 ^ 47"
    using unat_less_width [of a] unfolding unat_not by simp linarith
  have split: "(\<forall>n \<ge> 47. P n) \<longleftrightarrow> P 47 \<and> (\<forall>n. 48 \<le> n \<longrightarrow> P n)" for P :: "nat \<Rightarrow> bool"
  proof -
    have "47 \<le> n \<longleftrightarrow> n = 47 \<or> 48 \<le> n" for n :: nat by auto
    then show ?thesis by auto
  qed
  show ?thesis unfolding hi below_bits canonical_bits bit_not_iff split
    using bit_u64 [of a] by (cases "bit a 47") (auto simp: not_le [symmetric])
qed
end
