(* ===== verification/Kernel.thy ===== *)
theory Kernel imports System Syscall begin

text \<open>
  The whole kernel as a step relation: everything that can happen on the core that runs tasks, from a
  freshly booted kernel, in any order. A step is one system call, fault, tick or action of the
  bootstrap context, from ring 3 (or the bootstrap) back to ring 3, and \<open>None\<close> when the kernel
  panics on the way. The properties of reachable states are at the end.
\<close>

section \<open>Steps\<close>

datatype kernel_op =
    OpSpawn bool u64 string "address_space option" cap_table
  | OpCreateObject bool object
  | OpArm
  | OpStart bool
  | OpSyscall bool syscall_frame
  | OpTick bool
  | OpFault bool
  | OpThreadExit bool
  | OpMemory phys "u64 \<Rightarrow> u64 \<Rightarrow> u8"

text \<open>The machine as \<open>kmain\<close> hands it to the scheduler: no tasks, empty endpoints, \<open>CR3\<close> on the kernel's
  own tree, \<open>GS\<close> as \<open>syscall::init\<close> left it on core 0.\<close>

definition kernel_boot :: "'m \<Rightarrow> u64 \<Rightarrow> 'm kernel" where
  "kernel_boot zero root = \<lparr>k_sched = \<lparr>tasks = [], current = (\<lambda>_. None), need_resched = (\<lambda>_. False),
       prev_slot = (\<lambda>_. None), tss_rsp0 = (\<lambda>_. 0), syscall_rsp = (\<lambda>_. 0), cr3 = (\<lambda>_. root),
       kernel_root = 0, switches = 0, preemptions = 0, yields = 0, blocks = 0, wakeups = 0,
       died_blocked = 0, reaped_stacks = 0, reaped_words = 0, reaped_spaces = 0, torn_down = []\<rparr>,
     k_ipc = ipc_init zero, k_objects = [], k_phys = \<lparr>entries = (\<lambda>_ _. 0), pool = []\<rparr>,
     k_umem = (\<lambda>_ _. 0), k_gs = (\<lambda>c. (None, Some c)), k_console = [], k_arm_noncanonical = False,
     k_syscalls = 0, k_refused = 0, k_bytes_written = 0, k_yield_calls = 0, k_user_faults = 0,
     k_revocations = 0, k_iret_returns = 0\<rparr>"

fun kernel_step :: "'m abi \<Rightarrow> kernel_op \<Rightarrow> 'm kernel \<Rightarrow> 'm kernel option" where
  "kernel_step A (OpSpawn h base name space caps) k = Some (snd (do_spawn 0 h base name space caps k))"
| "kernel_step A (OpCreateObject h obj) k = Some (k\<lparr>k_objects := snd (create h obj (k_objects k))\<rparr>)"
| "kernel_step A OpArm k = Some (k\<lparr>k_arm_noncanonical := True\<rparr>)"
| "kernel_step A (OpStart h) k = do_start A 0 h k"
| "kernel_step A (OpSyscall h frame) k = do_syscall A 0 h frame k"
| "kernel_step A (OpTick h) k = do_tick A 0 h k"
| "kernel_step A (OpFault h) k = do_user_fault A 0 h k"
| "kernel_step A (OpThreadExit h) k = do_thread_exit A 0 h k"
| "kernel_step A (OpMemory phys umem) k = Some (k\<lparr>k_phys := phys, k_umem := umem\<rparr>)"

text \<open>When a step can happen: the bootstrap context acts only while no task runs, a system call or a
  fault comes from a task that has an address space, and the address space a task is spawned with is
  one that nobody else holds.\<close>

definition in_user :: "'m kernel \<Rightarrow> bool" where
  "in_user k \<longleftrightarrow> (case current (k_sched k) 0 of None \<Rightarrow> False
     | Some j \<Rightarrow> t_space (tasks (k_sched k) ! j) \<noteq> None)"

definition op_enabled :: "u64 \<Rightarrow> kernel_op \<Rightarrow> 'm kernel \<Rightarrow> bool" where
  "op_enabled root x k = (case x of
       OpSpawn h base name space caps \<Rightarrow> current (k_sched k) 0 = None \<and> fresh_space root space (k_sched k)
     | OpCreateObject h obj \<Rightarrow> current (k_sched k) 0 = None
     | OpArm \<Rightarrow> current (k_sched k) 0 = None
     | OpStart h \<Rightarrow> current (k_sched k) 0 = None
     | OpSyscall h frame \<Rightarrow> in_user k
     | OpTick h \<Rightarrow> True
     | OpFault h \<Rightarrow> in_user k
     | OpThreadExit h \<Rightarrow> current (k_sched k) 0 \<noteq> None \<and> \<not> in_user k
     | OpMemory phys umem \<Rightarrow> True)"

text \<open>A run is the list of the operations that led from boot to the state, the latest one last.\<close>

inductive kernel_run :: "'m abi \<Rightarrow> u64 \<Rightarrow> 'm \<Rightarrow> kernel_op list \<Rightarrow> 'm kernel \<Rightarrow> bool"
  for A root zero where
  boot: "kernel_run A root zero [] (kernel_boot zero root)"
| step: "kernel_run A root zero xs k \<Longrightarrow> op_enabled root x k \<Longrightarrow> kernel_step A x k = Some k' \<Longrightarrow>
    kernel_run A root zero (xs @ [x]) k'"

inductive_cases kernel_run_snocE: "kernel_run A root zero (xs @ [x]) k"

definition reachable :: "'m abi \<Rightarrow> u64 \<Rightarrow> 'm \<Rightarrow> 'm kernel \<Rightarrow> bool" where
  "reachable A root zero k \<longleftrightarrow> (\<exists>xs. kernel_run A root zero xs k)"

section \<open>The invariant of a kernel\<close>

abbreviation outside_gs :: "nat option \<times> nat option" where
  "outside_gs \<equiv> (None, Some 0)"

abbreviation inside_gs :: "nat option \<times> nat option" where
  "inside_gs \<equiv> (Some 0, None)"

definition ksettled :: "u64 \<Rightarrow> 'm kernel \<Rightarrow> bool" where
  "ksettled R k \<longleftrightarrow> settled_ok R 0 (k_sched k) (k_ipc k)"

definition ktransit :: "u64 \<Rightarrow> 'm kernel \<Rightarrow> bool" where
  "ktransit R k \<longleftrightarrow> transit_ok R 0 (k_sched k) (k_ipc k) \<and> k_gs k 0 = outside_gs"

definition kernel_ok :: "u64 \<Rightarrow> 'm kernel \<Rightarrow> bool" where
  "kernel_ok R k \<longleftrightarrow> ksettled R k \<and> k_gs k 0 = outside_gs"

lemma me_0 [simp]: "k_gs k 0 = outside_gs \<or> k_gs k 0 = inside_gs \<Longrightarrow> me 0 k = 0"
  by (auto simp: me_def cpu_index_def)

lemma swap_gs_sel [simp]:
  "k_sched (swap_gs c k) = k_sched k" "k_ipc (swap_gs c k) = k_ipc k" "k_objects (swap_gs c k) = k_objects k"
  "k_gs (swap_gs c k) c = (snd (k_gs k c), fst (k_gs k c))" "k_phys (swap_gs c k) = k_phys k"
  "k_umem (swap_gs c k) = k_umem k"
  by (simp_all add: swap_gs_def)

lemma upd_frame_sel [simp]:
  "k_ipc (upd_frame c f k) = k_ipc k" "k_gs (upd_frame c f k) = k_gs k"
  "k_objects (upd_frame c f k) = k_objects k"
  "current (k_sched (upd_frame c f k)) = current (k_sched k)"
  by (simp_all add: upd_frame_def upd_task_def split: option.split)

lemma store_result_sel [simp]:
  "k_ipc (store_result c rc k) = k_ipc k" "k_gs (store_result c rc k) = k_gs k"
  "k_objects (store_result c rc k) = k_objects k"
  "current (k_sched (store_result c rc k)) = current (k_sched k)"
  by (simp_all add: store_result_def split: option.split)

lemma upd_frame_ok: "ksettled R k \<Longrightarrow> ksettled R (upd_frame 0 f k)"
  unfolding ksettled_def upd_frame_def
  by (cases "current (k_sched k) 0") (auto intro!: task_detail_ok)

lemma store_result_ok: "ksettled R k \<Longrightarrow> ksettled R (store_result 0 rc k)"
  by (auto simp: store_result_def upd_frame_ok split: option.split)

lemma syscall_return_ok:
  "k_sched (snd (syscall_return 0 k)) = k_sched k" "k_ipc (snd (syscall_return 0 k)) = k_ipc k"
  "k_objects (snd (syscall_return 0 k)) = k_objects k"
  "k_gs (snd (syscall_return 0 k)) 0 = (snd (k_gs k 0), fst (k_gs k 0))"
  by (simp_all add: syscall_return_def Let_def swap_gs_def)

lemma write_user_msg_sel:
  assumes "write_user_msg A c ptr m k = (b, k')"
  shows "k_sched k' = k_sched k \<and> k_ipc k' = k_ipc k \<and> k_gs k' = k_gs k \<and> k_objects k' = k_objects k"
  using assms by (auto simp: write_user_msg_def Let_def split: if_splits option.splits)

lemma install_cap_current_ok:
  "settled_ok R c s i \<Longrightarrow> settled_ok R c (snd (install_cap_current c h cp s)) i \<and>
     current (snd (install_cap_current c h cp s)) = current s"
  by (cases "current s c")
    (auto simp: install_cap_current_def case_prod_unfold intro!: task_detail_ok)


section \<open>Handlers\<close>

lemma finish_recv_ok:
  assumes ok: "ksettled R k" and gs: "k_gs k 0 = outside_gs"
    and fin: "finish_recv A 0 h ptr km k = (rc, k')"
  shows "ksettled R k' \<and> k_gs k' 0 = outside_gs \<and> current (k_sched k') = current (k_sched k)
    \<and> k_objects k' = k_objects k"
proof -
  define got where "got = (case km_cap km of None \<Rightarrow> (Some (handle_null A), k)
    | Some cp \<Rightarrow> (case install_cap_current (me 0 k) h cp (k_sched k) of (hn, s') \<Rightarrow> (hn, k\<lparr>k_sched := s'\<rparr>)))"
  obtain hn k1 where k1: "got = (hn, k1)" by (cases got) auto
  have o: "ksettled R k1 \<and> k_gs k1 0 = outside_gs \<and> current (k_sched k1) = current (k_sched k)
      \<and> k_objects k1 = k_objects k"
    using k1 ok gs install_cap_current_ok [of R 0 "k_sched k" "k_ipc k" h]
    by (auto simp: got_def ksettled_def split: option.splits prod.splits)
      (metis snd_conv)+
  have f: "(case got of (None, k1) \<Rightarrow> (kerror_as_raw A OutOfResources, k1)
      | (Some hn, k1) \<Rightarrow> (case write_user_msg A 0 ptr (message_set_cap A hn (km_msg km)) k1 of
          (True, k2) \<Rightarrow> (0, k2) | (False, k2) \<Rightarrow> (kerror_as_raw A InvalidArgument, k2))) = (rc, k')"
    using fin by (simp add: finish_recv_def got_def)
  show ?thesis
  proof (cases hn)
    case None
    with f k1 o show ?thesis by simp
  next
    case (Some hn')
    obtain b k2 where w: "write_user_msg A 0 ptr (message_set_cap A hn' (km_msg km)) k1 = (b, k2)"
      by (cases "write_user_msg A 0 ptr (message_set_cap A hn' (km_msg km)) k1") auto
    with f k1 Some have "k' = k2" by (cases b) auto
    with write_user_msg_sel [OF w] o show ?thesis by (simp add: ksettled_def)
  qed
qed

text \<open>What a handler that may park its caller leaves behind.\<close>

definition handled :: "u64 \<Rightarrow> 'm kernel \<Rightarrow> ('a flow \<times> 'm kernel) \<Rightarrow> bool" where
  "handled R k r \<longleftrightarrow> (case r of
      (Returned v, k') \<Rightarrow> ksettled R k' \<and> k_gs k' 0 = outside_gs \<and> current (k_sched k') 0 = current (k_sched k) 0
    | (Switched, k') \<Rightarrow> ktransit R k')"

lemma sys_send_ok:
  assumes ok: "ksettled R k" and gs: "k_gs k 0 = outside_gs" and cur: "current (k_sched k) 0 = Some p"
  shows "\<exists>r. sys_send A 0 handle ptr k = Some r \<and> handled R k r"
proof (cases "endpoint_for 0 handle True k")
  case (Inl e)
  with ok gs show ?thesis by (simp add: sys_send_def handled_def count_refused_def ksettled_def)
next
  case (Inr ep)
  show ?thesis
  proof (cases "read_user_msg A 0 ptr k")
    case None
    with Inr ok gs show ?thesis by (simp add: sys_send_def handled_def)
  next
    case (Some m)
    show ?thesis
    proof (cases "if handle_is_null A (message_cap A m) then Some None
        else map_option Some (resolve_cap (me 0 k) (message_cap A m) (k_sched k))")
      case None
      with Inr Some ok gs show ?thesis by (simp add: sys_send_def handled_def)
    next
      case tr: (Some transfer)
      let ?km = "\<lparr>km_msg = m, km_cap = transfer\<rparr>"
      obtain r s' i' where sent: "ipc_send 0 ep ?km (k_sched k) (k_ipc k) = Some (r, s', i')"
        and res: "case r of Returned v \<Rightarrow> settled_ok R 0 s' i' \<and> current s' = current (k_sched k)
          | Switched \<Rightarrow> transit_ok R 0 s' i'"
        using ipc_send_ok [OF ok [unfolded ksettled_def] cur] by blast
      show ?thesis
      proof (intro exI conjI)
        show "sys_send A 0 handle ptr k = Some (case r of Returned v \<Rightarrow> Returned (result_raw A v)
            | Switched \<Rightarrow> Switched, k\<lparr>k_sched := s', k_ipc := i'\<rparr>)"
          using Inr Some tr sent gs by (simp add: sys_send_def)
        show "handled R k (case r of Returned v \<Rightarrow> Returned (result_raw A v)
            | Switched \<Rightarrow> Switched, k\<lparr>k_sched := s', k_ipc := i'\<rparr>)"
          using res gs by (cases r) (simp_all add: handled_def ksettled_def ktransit_def)
      qed
    qed
  qed
qed

lemma sys_recv_ok:
  assumes ok: "ksettled R k" and gs: "k_gs k 0 = outside_gs" and cur: "current (k_sched k) 0 = Some p"
  shows "\<exists>r. sys_recv A 0 h handle ptr k = Some r \<and> handled R k r"
proof (cases "endpoint_for 0 handle False k")
  case (Inl e)
  with ok gs show ?thesis by (simp add: sys_recv_def handled_def count_refused_def ksettled_def)
next
  case (Inr ep)
  obtain b k1 where w: "write_user_msg A 0 ptr (message_new A) k = (b, k1)"
    by (cases "write_user_msg A 0 ptr (message_new A) k") auto
  note sel = write_user_msg_sel [OF w]
  show ?thesis
  proof (cases b)
    case False
    with Inr w sel ok gs show ?thesis by (simp add: sys_recv_def handled_def ksettled_def)
  next
    case True
    have ok1: "settled_ok R 0 (k_sched k1) (k_ipc k1)" "current (k_sched k1) 0 = Some p"
      using ok sel cur by (simp_all add: ksettled_def)
    obtain r s' i' where got: "ipc_recv 0 ep (k_sched k1) (k_ipc k1) = Some (r, s', i')"
      and res: "case r of Returned v \<Rightarrow> settled_ok R 0 s' i' \<and> current s' = current (k_sched k1)
        | Switched \<Rightarrow> transit_ok R 0 s' i'"
      using ipc_recv_ok [OF ok1] by blast
    let ?k2 = "k1\<lparr>k_sched := s', k_ipc := i'\<rparr>"
    have e: "sys_recv A 0 h handle ptr k = Some (case r of Switched \<Rightarrow> (Switched, ?k2)
        | Returned (Inl e) \<Rightarrow> (Returned (kerror_as_raw A e), ?k2)
        | Returned (Inr km) \<Rightarrow> (case finish_recv A 0 h ptr km ?k2 of (rc, k3) \<Rightarrow> (Returned rc, k3)))"
      using Inr w True got gs sel by (simp add: sys_recv_def Let_def)
    show ?thesis
    proof (cases r)
      case Switched
      with e res sel gs show ?thesis by (simp add: handled_def ktransit_def)
    next
      case (Returned v)
      have ok2: "ksettled R ?k2" "k_gs ?k2 0 = outside_gs" "current (k_sched ?k2) = current (k_sched k)"
        using Returned res sel gs by (simp_all add: ksettled_def)
      show ?thesis
      proof (cases v)
        case (Inl x)
        with Returned e ok2 show ?thesis by (simp add: handled_def)
      next
        case (Inr km)
        obtain rc k3 where fin: "finish_recv A 0 h ptr km ?k2 = (rc, k3)"
          by (cases "finish_recv A 0 h ptr km ?k2") auto
        with finish_recv_ok [OF ok2(1,2) fin] Returned Inr e ok2(3) show ?thesis
          by (simp add: handled_def)
      qed
    qed
  qed
qed


definition served :: "u64 \<Rightarrow> ('a flow \<times> 'm kernel) option \<Rightarrow> bool" where
  "served R r \<longleftrightarrow> (case r of None \<Rightarrow> False
    | Some (Returned v, k') \<Rightarrow> ksettled R k' \<and> k_gs k' 0 = inside_gs \<and> current (k_sched k') 0 \<noteq> None
    | Some (Switched, k') \<Rightarrow> ktransit R k')"

lemma debug_write_sel:
  assumes "debug_write A c ptr len k = (rc, k')"
  shows "k_sched k' = k_sched k \<and> k_ipc k' = k_ipc k \<and> k_gs k' = k_gs k \<and> k_objects k' = k_objects k"
  using assms by (auto simp: debug_write_def Let_def split: if_splits option.splits)

lemma sys_revoke_sel:
  assumes "sys_revoke A c handle k = (rc, k')"
  shows "k_sched k' = k_sched k \<and> k_ipc k' = k_ipc k \<and> k_gs k' = k_gs k"
  using assms by (auto simp: sys_revoke_def split: option.splits prod.splits bool.splits)

lemma handled_served:
  assumes "handled R (swap_gs 0 k) r" "current (k_sched k) 0 \<noteq> None"
  shows "served R (case r of (Switched, k1) \<Rightarrow> Some (Switched, k1)
    | (Returned rc, k1) \<Rightarrow> Some (Returned (), store_result 0 rc (swap_gs 0 k1)))"
  using assms store_result_ok [of R "swap_gs 0 (snd r)"]
  by (cases r; cases "fst r") (auto simp: handled_def served_def ksettled_def)

lemma ksettled_upd: "ksettled R k \<Longrightarrow> k_sched k' = k_sched k \<Longrightarrow> k_ipc k' = k_ipc k \<Longrightarrow> ksettled R k'"
  by (simp add: ksettled_def)

lemma ktransit_gs: "transit_ok R 0 s i \<Longrightarrow> k_gs k 0 = outside_gs \<Longrightarrow>
    ktransit R (k\<lparr>k_sched := s, k_ipc := i\<rparr>)"
  by (simp add: ktransit_def)

lemma serve_syscall_ok:
  assumes kok: "ksettled R k" "k_gs k 0 = inside_gs" "current (k_sched k) 0 = Some t"
  shows "served R (serve_syscall A 0 h f k)"
proof -
  have sw: "ksettled R (swap_gs 0 k)" "k_gs (swap_gs 0 k) 0 = outside_gs"
    "current (k_sched (swap_gs 0 k)) 0 = Some t"
    using kok by (simp_all add: ksettled_def)
  define call where "call = syscall_from_raw A (f_rax f)"
  note e = serve_syscall_def [of A 0 h f k, folded call_def]
  have refused: "served R (Some (Returned (), store_result 0 (kerror_as_raw A NoSuchSyscall) (count_refused k)))"
    using kok store_result_ok [of R "count_refused k"]
    by (simp add: served_def count_refused_def ksettled_def)
  show ?thesis
  proof (cases call)
    case None
    then show ?thesis using e refused by simp
  next
    case (Some no)
    show ?thesis
    proof (cases no)
      case Yield
      define k1 where "k1 = swap_gs 0 (store_result 0 0 (k\<lparr>k_yield_calls := k_yield_calls k + 1\<rparr>))"
      have k1: "ksettled R k1" "k_gs k1 0 = outside_gs" "current (k_sched k1) 0 = Some t"
        using kok store_result_ok [of R "k\<lparr>k_yield_calls := k_yield_calls k + 1\<rparr>"]
        by (simp_all add: k1_def ksettled_def)
      obtain b s' where r: "reschedule 0 ResumeYield (k_sched k1) = (b, s')"
        by (cases "reschedule 0 ResumeYield (k_sched k1)") auto
      have e': "serve_syscall A 0 h f k = (if b then Some (Switched, k1\<lparr>k_sched := s'\<rparr>)
          else Some (Returned (), swap_gs 0 (k1\<lparr>k_sched := s'\<rparr>)))"
        using e Some Yield r k1(2) by (simp add: k1_def [symmetric])
      from reschedule_ok [OF k1(1) [unfolded ksettled_def], of ResumeYield] r
      show ?thesis using e' k1 by (cases b) (auto simp: served_def ktransit_def ksettled_def)
    next
      case Exit
      obtain s' i' where x: "exit_task 0 (k_sched (swap_gs 0 k)) (k_ipc (swap_gs 0 k)) = Some (s', i')"
        "transit_ok R 0 s' i'"
        using exit_task_ok [OF sw(1) [unfolded ksettled_def] sw(3)] by blast
      then have "serve_syscall A 0 h f k = Some (Switched, (swap_gs 0 k)\<lparr>k_sched := s', k_ipc := i'\<rparr>)"
        using e Some Exit sw(2) by simp
      then show ?thesis using x(2) sw(2) by (simp add: served_def ktransit_def)
    next
      case DebugWrite
      obtain rc k1 where d: "debug_write A 0 (f_rdi f) (f_rsi f) k = (rc, k1)"
        by (cases "debug_write A 0 (f_rdi f) (f_rsi f) k") auto
      with debug_write_sel [OF d] have "ksettled R k1" "k_gs k1 0 = inside_gs" "current (k_sched k1) 0 = Some t"
        using kok by (simp_all add: ksettled_def)
      with store_result_ok [of R k1 rc] d e Some DebugWrite show ?thesis by (simp add: served_def)
    next
      case Send
      obtain r where r: "sys_send A 0 (ucast (f_rdi f)) (f_rsi f) (swap_gs 0 k) = Some r"
        "handled R (swap_gs 0 k) r" using sys_send_ok [OF sw] by blast
      from handled_served [OF r(2)] kok(3) r(1) e Some Send show ?thesis
        by (cases r) (auto split: flow.splits)
    next
      case Recv
      obtain r where r: "sys_recv A 0 h (ucast (f_rdi f)) (f_rsi f) (swap_gs 0 k) = Some r"
        "handled R (swap_gs 0 k) r" using sys_recv_ok [OF sw] by blast
      from handled_served [OF r(2)] kok(3) r(1) e Some Recv show ?thesis
        by (cases r) (auto split: flow.splits)
    next
      case Revoke
      obtain rc k1 where d: "sys_revoke A 0 (ucast (f_rdi f)) k = (rc, k1)"
        by (cases "sys_revoke A 0 (ucast (f_rdi f)) k") auto
      with sys_revoke_sel [OF d] have "ksettled R k1" "k_gs k1 0 = inside_gs" "current (k_sched k1) 0 = Some t"
        using kok by (simp_all add: ksettled_def)
      with store_result_ok [of R k1 rc] d e Some Revoke show ?thesis by (simp add: served_def)
    next
      case (OtherSyscall n)
      then show ?thesis using e refused Some by simp
    qed
  qed
qed

lemma on_syscall_ok:
  assumes ok: "ksettled R k0" and gs: "k_gs k0 0 = inside_gs" and cur: "current (k_sched k0) 0 = Some t"
  shows "served R (on_syscall A 0 h k0)"
proof -
  let ?k = "k0\<lparr>k_syscalls := k_syscalls k0 + 1, k_arm_noncanonical := False,
    k_sched := upd_task t (\<lambda>x. x\<lparr>t_corrupt := k_arm_noncanonical k0\<rparr>) (k_sched k0)\<rparr>"
  have "ksettled R ?k" "k_gs ?k 0 = inside_gs" "current (k_sched ?k) 0 = Some t"
    using ok gs cur by (auto simp: ksettled_def intro!: task_detail_ok)
  from serve_syscall_ok [OF this] cur show ?thesis by (simp add: on_syscall_def Let_def)
qed

section \<open>After a switch\<close>

lemma kernel_ok_return:
  "ksettled R k \<Longrightarrow> k_gs k 0 = inside_gs \<Longrightarrow> kernel_ok R (snd (syscall_return 0 k))"
  by (simp add: kernel_ok_def ksettled_def syscall_return_ok)

lemma kernel_ok_store:
  "ksettled R k \<Longrightarrow> k_gs k 0 = outside_gs \<Longrightarrow>
     kernel_ok R (snd (syscall_return 0 (store_result 0 rc (swap_gs 0 k))))"
  by (intro kernel_ok_return store_result_ok) (simp_all add: ksettled_def)

lemma resume_task_ok:
  assumes ok: "ktransit R k0" and cur: "current (k_sched k0) 0 = Some t"
  shows "\<exists>k'. resume_task A 0 h k0 = Some k' \<and> kernel_ok R k' \<and> current (k_sched k') 0 = Some t"
proof -
  define k where "k = k0\<lparr>k_sched := post_switch 0 (k_sched k0)\<rparr>"
  have post: "transit_ok R 0 (k_sched k) (k_ipc k)" "prev_slot (k_sched k) 0 = None"
    "current (k_sched k) 0 = Some t"
    using post_switch_ok [of R 0 "k_sched k0" "k_ipc k0"] ok cur by (simp_all add: k_def ktransit_def)
  then have sys: "sys_ok R 0 True (k_sched k) (k_ipc k)" by (simp add: transit_ok_def)
  have gs: "k_gs k 0 = outside_gs" using ok by (simp add: k_def ktransit_def)
  note plain = resume_plain [OF sys post(2,3)]
  let ?ctx = "t_ctx (tasks (k_sched k) ! t)"
  have e: "resume_task A 0 h k0 = continue_task A 0 h t k"
    using ok post(3) by (simp add: resume_task_def k_def [symmetric] Let_def ktransit_def)
  note e = e [unfolded continue_task_def]
  show ?thesis
  proof (cases ?ctx)
    case ResumeFresh
    with e gs post plain [of "k_sched k" "k_ipc k"] show ?thesis by (simp add: kernel_ok_def ksettled_def)
  next
    case ResumePreempt
    with e gs post plain [of "(k_sched k)\<lparr>preemptions := preemptions (k_sched k) + 1\<rparr>" "k_ipc k"]
    show ?thesis by (simp add: kernel_ok_def ksettled_def same_core_def)
  next
    case ResumeYield
    with plain [of "(k_sched k)\<lparr>yields := yields (k_sched k) + 1\<rparr>" "k_ipc k"]
    have "ksettled R (swap_gs 0 (k\<lparr>k_sched := (k_sched k)\<lparr>yields := yields (k_sched k) + 1\<rparr>\<rparr>))"
      by (simp add: ksettled_def same_core_def)
    with ResumeYield e gs post show ?thesis
      by (auto simp: syscall_return_ok intro!: kernel_ok_return)
  next
    case ResumeSend
    with plain [of "k_sched k" "(k_ipc k)\<lparr>sent := sent (k_ipc k) + 1\<rparr>"]
    have "ksettled R (k\<lparr>k_ipc := (k_ipc k)\<lparr>sent := sent (k_ipc k) + 1\<rparr>\<rparr>)"
      by (simp add: ksettled_def)
    with ResumeSend e gs post show ?thesis
      by (auto simp: ipc_send_resumed_def syscall_return_ok intro!: kernel_ok_store)
  next
    case ResumeRecv
    obtain km s' i' where r: "ipc_recv_resumed 0 (k_sched k) (k_ipc k) = Some (km, s', i')"
      "settled_ok R 0 s' i'" "current s' = current (k_sched k)"
      using resume_recv [OF sys post(2,3) ResumeRecv] by blast
    let ?k1 = "k\<lparr>k_sched := s', k_ipc := i'\<rparr>"
    obtain rc k2 where fin: "finish_recv A 0 h (f_rsi (t_frame (tasks s' ! t))) km ?k1 = (rc, k2)"
      by (cases "finish_recv A 0 h (f_rsi (t_frame (tasks s' ! t))) km ?k1") auto
    have k2: "ksettled R k2" "k_gs k2 0 = outside_gs" "current (k_sched k2) = current s'"
      using finish_recv_ok [OF _ _ fin] r(2) gs by (auto simp: ksettled_def)
    with ResumeRecv e gs r(1,3) fin post show ?thesis
      by (auto simp: syscall_return_ok intro!: kernel_ok_store)
  qed
qed

text \<open>Back in the bootstrap context there is nothing to run, so \<open>start\<close> returns.\<close>

lemma resume_context_ok:
  assumes ok: "ktransit R k"
  shows "\<exists>k'. resume_context A 0 h k = Some k' \<and> kernel_ok R k' \<and>
    (current (k_sched k) 0 = None \<longrightarrow> no_ready (k_sched k') \<and> current (k_sched k') 0 = None)"
proof (cases "current (k_sched k) 0")
  case (Some t)
  with resume_task_ok [OF ok Some, of A h] show ?thesis by (auto simp: resume_context_def)
next
  case None
  let ?s = "k_sched k"
  have tr: "transit_ok R 0 ?s (k_ipc k)" and gs: "k_gs k 0 = outside_gs" using ok by (simp_all add: ktransit_def)
  with None have root: "kernel_root ?s = R" and sys: "sys_ok R 0 True ?s (k_ipc k)"
    by (simp_all add: transit_ok_def)
  have "enter 0 None (Some (kernel_root ?s)) ?s = ?s"
    using root sys None by (simp add: enter_def sys_ok_def regs_ok_def)
  moreover define s1 where "s1 = post_switch 0 ?s"
  note post = post_switch_ok [OF tr, folded s1_def]
  have none: "current s1 0 = None" "no_ready s1" "prev_slot s1 0 = None"
    using post None by (simp_all add: transit_ok_def)
  moreover have "start_turn 0 s1 = (False, s1)"
    using first_ready_None [of s1] none(2) by (simp add: start_turn_def)
  ultimately have e: "resume_context A 0 h k = Some (k\<lparr>k_sched := s1\<rparr>)"
    using None gs by (simp add: resume_context_def Let_def s1_def)
  have sys1: "sys_ok R 0 True s1 (k_ipc k)" using post by (simp add: transit_ok_def)
  have "sys_ok R 0 False s1 (k_ipc k)"
    using sys1 none(1) by (auto simp: sys_ok_def slots_ok_def slot_ok_def balanced_def resuming_def)
  then have "kernel_ok R (k\<lparr>k_sched := s1\<rparr>)"
    using gs none by (simp add: kernel_ok_def ksettled_def settled_ok_def)
  with e none show ?thesis by simp
qed

section \<open>Every step\<close>

text \<open>After a step the kernel is in order, and it is idle only when nothing can run.\<close>

definition stepped :: "u64 \<Rightarrow> 'm kernel option \<Rightarrow> bool" where
  "stepped R r \<longleftrightarrow> (case r of None \<Rightarrow> False
     | Some k' \<Rightarrow> kernel_ok R k' \<and> (current (k_sched k') 0 = None \<longrightarrow> no_ready (k_sched k')))"

lemma kernel_step_keeps: "kernel_ok R k \<Longrightarrow> k_sched k' = k_sched k \<Longrightarrow> k_ipc k' = k_ipc k \<Longrightarrow>
    k_gs k' = k_gs k \<Longrightarrow> kernel_ok R k'"
  by (simp add: kernel_ok_def ksettled_def)

lemma resumed: "ktransit R k \<Longrightarrow> stepped R (resume_context A 0 h k)"
  using resume_context_ok [of R k A h] resume_task_ok [of R k _ A h]
  by (cases "current (k_sched k) 0") (auto simp: stepped_def resume_context_def)

lemma do_syscall_ok:
  assumes ok: "kernel_ok R k" and cur: "current (k_sched k) 0 \<noteq> None"
  shows "stepped R (do_syscall A 0 h frame k)"
proof -
  let ?k = "swap_gs 0 (upd_frame 0 (\<lambda>_. frame) k)"
  obtain t where t: "current (k_sched ?k) 0 = Some t" using cur by auto
  have "ksettled R ?k" "k_gs ?k 0 = inside_gs"
    using ok upd_frame_ok [of R k] by (auto simp: kernel_ok_def ksettled_def)
  from on_syscall_ok [OF this t, of A h] have s: "served R (on_syscall A 0 h ?k)" .
  show ?thesis
  proof (cases "on_syscall A 0 h ?k")
    case None
    with s show ?thesis by (simp add: served_def)
  next
    case (Some r)
    obtain v k1 where r: "r = (v, k1)" by (cases r)
    show ?thesis
    proof (cases v)
      case (Returned u)
      with s Some r have "ksettled R k1" "k_gs k1 0 = inside_gs" "current (k_sched k1) 0 \<noteq> None"
        by (simp_all add: served_def)
      with Some r Returned show ?thesis
        by (auto simp: do_syscall_def stepped_def kernel_ok_return syscall_return_ok)
    next
      case Switched
      with s Some r resumed [of R k1 A h] show ?thesis by (simp add: do_syscall_def served_def)
    qed
  qed
qed

lemma exit_resumed:
  assumes "kernel_ok R k" "current (k_sched k) 0 = Some t"
  shows "stepped R (case exit_task (me 0 k) (k_sched k) (k_ipc k) of None \<Rightarrow> None
    | Some (s', i') \<Rightarrow> resume_context A 0 h (k\<lparr>k_sched := s', k_ipc := i'\<rparr>))"
proof -
  from assms have ok: "settled_ok R 0 (k_sched k) (k_ipc k)" and gs: "k_gs k 0 = outside_gs"
    by (simp_all add: kernel_ok_def ksettled_def)
  obtain s' i' where "exit_task 0 (k_sched k) (k_ipc k) = Some (s', i')" "transit_ok R 0 s' i'"
    using exit_task_ok [OF ok assms(2)] by blast
  with gs resumed [of R "k\<lparr>k_sched := s', k_ipc := i'\<rparr>" A h] show ?thesis by (simp add: ktransit_def)
qed

lemma do_tick_ok:
  assumes ok: "kernel_ok R k" and idle: "current (k_sched k) 0 \<noteq> None"
  shows "stepped R (do_tick A 0 h k)"
proof -
  let ?s = "(request_resched 0 (k_sched k))\<lparr>need_resched :=
    (need_resched (request_resched 0 (k_sched k)))(0 := False)\<rparr>"
  have set: "settled_ok R 0 ?s (k_ipc k)" and gs: "k_gs k 0 = outside_gs"
    using ok by (auto simp: kernel_ok_def ksettled_def request_resched_def intro: count_ok)
  obtain b s' where r: "reschedule 0 ResumePreempt ?s = (b, s')"
    by (cases "reschedule 0 ResumePreempt ?s") auto
  have e: "do_tick A 0 h k = (if b then resume_context A 0 h (k\<lparr>k_sched := s'\<rparr>) else Some (k\<lparr>k_sched := s'\<rparr>))"
    using r gs by (simp add: do_tick_def on_irq_epilogue_def request_resched_def)
  from reschedule_ok [OF set, of ResumePreempt] r
  show ?thesis
  proof (cases b)
    case True
    with reschedule_ok [OF set, of ResumePreempt] r gs have "ktransit R (k\<lparr>k_sched := s'\<rparr>)"
      by (simp add: ktransit_def)
    from resumed [OF this, of A h] e True show ?thesis by simp
  next
    case False
    with reschedule_ok [OF set, of ResumePreempt] r have "s' = ?s" by simp
    with e False set gs idle show ?thesis
      by (auto simp: stepped_def kernel_ok_def ksettled_def request_resched_def)
  qed
qed

lemma do_tick_idle:
  assumes "kernel_ok R k" "current (k_sched k) 0 = None"
  shows "\<exists>k'. do_tick A 0 h k = Some k' \<and> kernel_ok R k'"
  using assms
  by (auto simp: do_tick_def on_irq_epilogue_def request_resched_def reschedule_def kernel_ok_def
      ksettled_def intro: count_ok)

lemma do_start_ok:
  assumes ok: "kernel_ok R k" and idle: "current (k_sched k) 0 = None"
  shows "stepped R (do_start A 0 h k)"
proof -
  let ?s = "(k_sched k)\<lparr>kernel_root := R\<rparr>"
  have k: "settled_ok R 0 (k_sched k) (k_ipc k)" and gs: "k_gs k 0 = outside_gs"
    using ok by (simp_all add: kernel_ok_def ksettled_def)
  have root: "cr3 (k_sched k) 0 = R" using k idle by (simp add: settled_ok_def sys_ok_def regs_ok_def)
  have set: "settled_ok R 0 ?s (k_ipc k)" using count_ok(2) [OF k idle] .
  obtain b s1 where r: "start_turn 0 ?s = (b, s1)" by (cases "start_turn 0 ?s") auto
  have e: "do_start A 0 h k = (if b then resume_task A 0 h (k\<lparr>k_sched := s1\<rparr>) else Some (k\<lparr>k_sched := s1\<rparr>))"
    using r gs root by (simp add: do_start_def Let_def)
  note st = start_turn_ok [OF set]
  show ?thesis
  proof (cases b)
    case True
    then have tr: "transit_ok R 0 s1 (k_ipc k)" and "current s1 0 \<noteq> None" using st r idle by simp_all
    then obtain t where t: "current (k_sched (k\<lparr>k_sched := s1\<rparr>)) 0 = Some t" by auto
    have "ktransit R (k\<lparr>k_sched := s1\<rparr>)" using tr gs by (simp add: ktransit_def)
    from resume_task_ok [OF this t, of A h] e True show ?thesis by (auto simp: stepped_def)
  next
    case False
    with st r idle have "s1 = ?s" "no_ready ?s" by simp_all
    with e False set gs show ?thesis by (simp add: stepped_def kernel_ok_def ksettled_def)
  qed
qed

lemma do_spawn_ok:
  assumes "kernel_ok R k" "current (k_sched k) 0 = None" "fresh_space R space (k_sched k)"
  shows "kernel_ok R (snd (do_spawn 0 h base name space caps k))"
  using assms spawn_ok [of R 0 "k_sched k" "k_ipc k" space h base name caps]
  by (simp add: do_spawn_def case_prod_unfold kernel_ok_def ksettled_def)

lemma kernel_step_ok:
  assumes ok: "kernel_ok R k" and en: "op_enabled R x k"
  shows "\<exists>k'. kernel_step A x k = Some k' \<and> kernel_ok R k' \<and>
    (current (k_sched k) 0 \<noteq> None \<longrightarrow> current (k_sched k') 0 = None \<longrightarrow> no_ready (k_sched k'))"
proof -
  have st: "\<exists>k'. r = Some k' \<and> kernel_ok R k' \<and> (current (k_sched k) 0 \<noteq> None \<longrightarrow>
      current (k_sched k') 0 = None \<longrightarrow> no_ready (k_sched k'))" if "stepped R r" for r
    using that by (auto simp: stepped_def split: option.splits)
  show ?thesis
  proof (cases x)
    case (OpSpawn h base name space caps)
    with en ok do_spawn_ok [of R k space h base name caps] show ?thesis by (simp add: op_enabled_def)
  next
    case (OpStart h)
    with en st [OF do_start_ok [OF ok, of A h]] show ?thesis by (simp add: op_enabled_def)
  next
    case (OpSyscall h frame)
    with en have "current (k_sched k) 0 \<noteq> None"
      by (auto simp: op_enabled_def in_user_def split: option.splits)
    from st [OF do_syscall_ok [OF ok this, of A h frame]] OpSyscall show ?thesis by simp
  next
    case (OpTick h)
    then show ?thesis using st [OF do_tick_ok [OF ok, of A h]] do_tick_idle [OF ok, of A h]
      by (cases "current (k_sched k) 0") simp_all
  next
    case (OpFault h)
    with en obtain t where t: "current (k_sched k) 0 = Some t"
      by (auto simp: op_enabled_def in_user_def split: option.splits)
    let ?k = "k\<lparr>k_user_faults := k_user_faults k + 1\<rparr>"
    have "kernel_ok R ?k" using ok by (simp add: kernel_ok_def ksettled_def)
    with t have "stepped R (do_user_fault A 0 h k)"
      using exit_resumed [of R ?k t A h] by (simp add: do_user_fault_def Let_def)
    from st [OF this] OpFault show ?thesis by simp
  next
    case (OpThreadExit h)
    with en obtain t where t: "current (k_sched k) 0 = Some t" by (auto simp: op_enabled_def)
    with ok have "stepped R (do_thread_exit A 0 h k)"
      using exit_resumed [of R k t A h] by (simp add: do_thread_exit_def)
    from st [OF this] OpThreadExit show ?thesis by simp
  qed (use ok en in \<open>auto simp: op_enabled_def intro: kernel_step_keeps\<close>)
qed

lemma ipc_init_sel:
  "endpoints_ok (ipc_init zero)" "recv_count (ipc_init zero) j = 0" "send_count (ipc_init zero) j = 0"
  "ring_total (ipc_init zero) = 0" "sent (ipc_init zero) = 0" "received (ipc_init zero) = 0"
proof -
  show "endpoints_ok (ipc_init zero)" by (simp add: endpoints_ok_def ipc_init_def endpoint_new_ok)
qed (simp_all add: ipc_init_def recv_count_def send_count_def ring_total_def recv_items_def
  send_items_def endpoint_new_def sum_list_replicate)

lemma kernel_boot_ok: "kernel_ok R (kernel_boot zero R)"
  by (simp add: kernel_ok_def ksettled_def settled_ok_def sys_ok_def kernel_boot_def ipc_init_sel
      slots_ok_def links_ok_def roots_distinct_def regs_ok_def balanced_def
      reaped_ok_def woken_def resuming_def)

lemma run_ok: "kernel_run A R zero xs k \<Longrightarrow> kernel_ok R k"
proof (induction rule: kernel_run.induct)
  case boot
  show ?case by (rule kernel_boot_ok)
next
  case (step xs k x k')
  with kernel_step_ok [OF step.IH step.hyps(2), of A] show ?case by auto
qed

lemma reachable_ok: "reachable A R zero k \<Longrightarrow> settled_ok R 0 (k_sched k) (k_ipc k) \<and> k_gs k 0 = outside_gs"
  by (auto simp: reachable_def kernel_ok_def ksettled_def dest: run_ok)

lemma reachable_slot:
  assumes "reachable A R zero k" "j < length (tasks (k_sched k))"
  shows "slot_ok R False (current (k_sched k) 0 = Some j) False
    (recv_count (k_ipc k) j) (send_count (k_ipc k) j) (tasks (k_sched k) ! j)"
  using reachable_ok [OF assms(1)] assms(2)
  by (auto simp: settled_ok_def sys_ok_def slots_ok_def)

section \<open>A sample machine\<close>

text \<open>One concrete ABI, with numbers in place of the other repository's, and one concrete machine: a task
  that has been spawned and started. They show that the hypotheses of the properties can hold.\<close>

definition sample_abi :: "nat abi" where
  "sample_abi = \<lparr>syscall_from_raw = (\<lambda>n. if n = 0 then Some Yield else if n = 1 then Some Exit
       else if n = 2 then Some Send else if n = 3 then Some Recv else if n = 4 then Some Revoke
       else if n = 5 then Some DebugWrite else None),
     kerror_as_raw = (\<lambda>e. - 1), message_new = 0, message_size = 8, message_bytes = (\<lambda>m. replicate 8 0),
     message_parse = length, message_cap = (\<lambda>m. 0), message_set_cap = (\<lambda>h m. m),
     handle_is_null = (\<lambda>h. h = 0), handle_null = 0\<rparr>"

definition sample_space :: address_space where
  "sample_space = \<lparr>as_root = 0x2000, as_entry = 0x400000, as_gib_pages = False, as_borrowed = None\<rparr>"

definition sample_cap :: cap where
  "sample_cap = EndpointCap \<lparr>ref_index = 0, ref_generation = 0\<rparr> True False"

definition sample_ops :: "kernel_op list" where
  "sample_ops = [OpSpawn True 0x9000 ''a'' (Some sample_space) [None, Some sample_cap], OpStart True]"

definition sample_spawned :: "nat kernel" where
  "sample_spawned = snd (do_spawn 0 True 0x9000 ''a'' (Some sample_space) [None, Some sample_cap]
     (kernel_boot 0 0x1000))"

definition sample_kernel :: "nat kernel" where
  "sample_kernel = the (do_start sample_abi 0 True sample_spawned)"

lemma sample_spawned_sched: "k_sched sample_spawned = (k_sched (kernel_boot 0 0x1000))\<lparr>tasks :=
    [\<lparr>t_ctx = ResumeFresh, t_stack = STACK_WORDS, t_stack_top = 0x11000, t_cr3 = 0x2000,
      t_space = Some sample_space, t_caps = [None, Some sample_cap], t_mailbox = None, t_state = Ready,
      t_id = 0, t_name = ''a'', t_frame = frame_zero, t_corrupt = False\<rparr>]\<rparr>"
  by (simp add: sample_spawned_def do_spawn_def spawn_with_def kernel_boot_def me_def cpu_index_def
      sample_space_def STACK_WORDS_def)

lemma sample_run: "kernel_run sample_abi 0x1000 0 sample_ops sample_kernel"
proof -
  have 1: "kernel_run sample_abi 0x1000 0 [OpSpawn True 0x9000 ''a'' (Some sample_space) [None, Some sample_cap]]
      sample_spawned"
    using kernel_run.step [OF kernel_run.boot, where k' = sample_spawned and A = sample_abi and
        x = "OpSpawn True 0x9000 ''a'' (Some sample_space) [None, Some sample_cap]"]
    by (simp add: op_enabled_def kernel_boot_def fresh_space_def sample_space_def sample_spawned_def)
  have idle: "current (k_sched sample_spawned) 0 = None"
    by (simp add: sample_spawned_sched kernel_boot_def)
  have "stepped 0x1000 (do_start sample_abi 0 True sample_spawned)"
    using do_start_ok [OF run_ok [OF 1] idle] .
  then obtain k where k: "do_start sample_abi 0 True sample_spawned = Some k"
    by (auto simp: stepped_def split: option.splits)
  have "kernel_run sample_abi 0x1000 0 sample_ops k"
    using kernel_run.step [OF 1, where x = "OpStart True" and k' = k] idle k by (simp add: op_enabled_def sample_ops_def)
  then show ?thesis using k by (simp add: sample_kernel_def)
qed

lemma sample_reachable: "reachable sample_abi 0x1000 0 sample_kernel"
  using sample_run by (auto simp: reachable_def)


lemma sample_sched: "current (k_sched sample_kernel) 0 = Some 0 \<and>
    map t_space (tasks (k_sched sample_kernel)) = [Some sample_space] \<and>
    map t_caps (tasks (k_sched sample_kernel)) = [[None, Some sample_cap]]"
  by (simp add: sample_kernel_def do_start_def sample_spawned_sched start_turn_def first_ready_def
      switch_to_def set_state_def enter_def resume_task_def continue_task_def post_switch_def Let_def
      kernel_boot_def sample_spawned_def do_spawn_def spawn_with_def me_def cpu_index_def upd_task_def)


section \<open>Properties of reachable states\<close>

lemma find_waiting_None: "find_waiting t n es = None \<longleftrightarrow>
    (\<forall>e \<in> set es. t \<notin> set (recv_items e) \<and> t \<notin> fst ` set (send_items e))"
proof (induction t n es rule: find_waiting.induct)
  case (2 t n e es)
  have "(\<exists>(u, km) \<in> set (send_items e). u = t) \<longleftrightarrow> t \<in> fst ` set (send_items e)" by force
  with 2 show ?case by simp
qed simp

lemma find_waiting_Some: "find_waiting t n es = Some (ep, b) \<Longrightarrow> n \<le> ep \<and> ep < n + length es \<and>
    (if b then t \<in> fst ` set (send_items (es ! (ep - n))) else t \<in> set (recv_items (es ! (ep - n))))"
proof (induction t n es rule: find_waiting.induct)
  case (2 t n e es)
  show ?case
  proof (cases "t \<in> set (recv_items e) \<or> t \<in> fst ` set (send_items e)")
    case True
    with "2.prems" show ?thesis by (auto simp: image_iff split: if_splits)
  next
    case False
    then have no: "t \<notin> set (recv_items e)" "\<not> (\<exists>(u, km) \<in> set (send_items e). u = t)"
      by (auto simp: image_iff)
    with "2.prems" have "find_waiting t (n + 1) es = Some (ep, b)" by (simp split: if_splits)
    note ih = "2.IH" [OF no this]
    then have "(e # es) ! (ep - n) = es ! (ep - (n + 1))" by (simp add: nth_Cons')
    with ih show ?thesis by (auto split: if_splits)
  qed
qed simp



text \<open>C2: A task is blocked exactly while it stands in a wait queue, and then it stands in one queue
  once, on the side it was blocked for: no wakeup can be lost, and no task that runs, is ready or is
  dead can be handed a message or woken.\<close>

theorem blocked_iff_queued:
  assumes "reachable A R zero k" "j < length (tasks (k_sched k))"
  shows "(t_state (tasks (k_sched k) ! j) = Blocked) = (waiting_on j (k_ipc k) \<noteq> None)
    \<and> recv_count (k_ipc k) j + send_count (k_ipc k) j = of_bool (t_state (tasks (k_sched k) ! j) = Blocked)
    \<and> (case waiting_on j (k_ipc k) of None \<Rightarrow> True | Some (ep, sending) \<Rightarrow>
         ep < NUM_ENDPOINTS \<and> sending = (t_ctx (tasks (k_sched k) ! j) = ResumeSend))"
proof -
  let ?i = "k_ipc k" and ?t = "tasks (k_sched k) ! j"
  note slot = reachable_slot [OF assms]
  have len: "length (endpoints ?i) = NUM_ENDPOINTS"
    using reachable_ok [OF assms(1)] by (simp add: settled_ok_def sys_ok_def endpoints_ok_def)
  have zero: "recv_count ?i j = 0 \<and> send_count ?i j = 0 \<longleftrightarrow> waiting_on j ?i = None"
    by (auto simp: waiting_on_def find_waiting_None recv_count_def send_count_def sum_list_eq_0_iff
        count_list_0_iff)
  have side: "ep < NUM_ENDPOINTS \<and> sending = (t_ctx ?t = ResumeSend)"
    if w: "waiting_on j ?i = Some (ep, sending)" for ep sending
  proof -
    from w have f: "ep < length (endpoints ?i)" "if sending then j \<in> fst ` set (send_items (endpoints ?i ! ep))
        else j \<in> set (recv_items (endpoints ?i ! ep))"
      using find_waiting_Some [of j 0 "endpoints ?i" ep sending] by (auto simp: waiting_on_def)
    show ?thesis
    proof (cases sending)
      case True
      then obtain km where "(j, km) \<in> set (send_items (endpoints ?i ! ep))" using f(2) by auto
      from count_send_pos [OF f(1) this] slot True f(1) len show ?thesis by (auto simp: slot_ok_def)
    next
      case False
      with f(2) have "j \<in> set (recv_items (endpoints ?i ! ep))" by simp
      from count_recv_pos [OF f(1) this] slot False f(1) len show ?thesis by (auto simp: slot_ok_def)
    qed
  qed
  have "recv_count ?i j + send_count ?i j = of_bool (t_state ?t = Blocked)"
    using slot by (auto simp: slot_ok_def)
  moreover have "(t_state ?t = Blocked) = (waiting_on j ?i \<noteq> None)"
    unfolding zero [symmetric] using calculation by (cases "t_state ?t = Blocked") auto
  ultimately show ?thesis using side by (auto split: option.splits)
qed

theorem blocked_iff_queued_witness:
  "(t_state (tasks (k_sched sample_kernel) ! 0) = Blocked) = (waiting_on 0 (k_ipc sample_kernel) \<noteq> None)"
proof -
  have "0 < length (tasks (k_sched sample_kernel))" using sample_sched by (cases "tasks (k_sched sample_kernel)") auto
  from blocked_iff_queued [OF sample_reachable this] show ?thesis by blast
qed

text \<open>C4: Every message is accounted for: the sends that have completed and the senders woken but not yet
  resumed balance the receives that have completed, the messages in the rings and the receivers woken
  with a message but not yet resumed. When nothing is runnable, messages sent are messages received
  plus messages buffered.\<close>

theorem messages_balance:
  assumes "reachable A R zero k"
  shows "sent (k_ipc k) + word_of_nat (woken ResumeSend (k_sched k)) =
      received (k_ipc k) + word_of_nat (ring_total (k_ipc k) + woken ResumeRecv (k_sched k))
    \<and> (no_ready (k_sched k) \<longrightarrow> sent (k_ipc k) = received (k_ipc k) + word_of_nat (ring_total (k_ipc k)))"
proof -
  have "settled_ok R 0 (k_sched k) (k_ipc k)" using reachable_ok [OF assms] by simp
  note b = balance_settled [OF this]
  have "woken x (k_sched k) = 0" if "no_ready (k_sched k)" for x
    using that by (auto simp: no_ready_def woken_def filter_empty_conv)
  with b show ?thesis by (auto simp: add.assoc)
qed

theorem messages_balance_witness:
  "sent (k_ipc sample_kernel) + word_of_nat (woken ResumeSend (k_sched sample_kernel)) =
     received (k_ipc sample_kernel) +
     word_of_nat (ring_total (k_ipc sample_kernel) + woken ResumeRecv (k_sched sample_kernel))"
  using messages_balance [OF sample_reachable] by blast

text \<open>C5: The core's registers belong to the task it runs: the task named current is the only one in state
  \<open>Running\<close>, its kernel stack is allocated, both places a trap or a system call takes a stack from hold
  the top of it, \<open>CR3\<close> holds its own tree, and \<open>GS\<close> is the user's side of the swap.\<close>

theorem core_belongs_to_current:
  assumes "reachable A R zero k" "current (k_sched k) 0 = Some p"
  shows "p < length (tasks (k_sched k))
    \<and> (\<forall>j < length (tasks (k_sched k)). t_state (tasks (k_sched k) ! j) = Running \<longleftrightarrow> j = p)
    \<and> t_stack (tasks (k_sched k) ! p) = STACK_WORDS
    \<and> tss_rsp0 (k_sched k) 0 = t_stack_top (tasks (k_sched k) ! p)
    \<and> syscall_rsp (k_sched k) 0 = t_stack_top (tasks (k_sched k) ! p)
    \<and> cr3 (k_sched k) 0 = (case current_space 0 (k_sched k) of None \<Rightarrow> R | Some sp \<Rightarrow> as_root sp)
    \<and> k_gs k 0 = (None, Some 0)"
proof -
  let ?s = "k_sched k"
  have ok: "settled_ok R 0 ?s (k_ipc k)" "k_gs k 0 = outside_gs" using reachable_ok [OF assms(1)] by simp_all
  note cur = settled_current [OF ok(1) assms(2)]
  have regs: "cr3 ?s 0 = t_cr3 (tasks ?s ! p)" "tss_rsp0 ?s 0 = t_stack_top (tasks ?s ! p)"
    "syscall_rsp ?s 0 = t_stack_top (tasks ?s ! p)"
    using ok(1) assms(2) by (simp_all add: settled_ok_def sys_ok_def regs_ok_def)
  have "\<forall>j < length (tasks ?s). t_state (tasks ?s ! j) = Running \<longleftrightarrow> j = p"
    using reachable_slot [OF assms(1)] assms(2) by (auto simp: slot_ok_def)
  with regs cur ok(2) assms(2) show ?thesis by (simp add: current_space_def space_root_def)
qed

theorem core_belongs_to_current_witness:
  "cr3 (k_sched sample_kernel) 0 = 0x2000"
  using core_belongs_to_current [OF sample_reachable, of 0] sample_sched
  by (cases "tasks (k_sched sample_kernel)") (auto simp: current_space_def sample_space_def)




text \<open>C9: The core goes idle only when it has to: whenever a step that began in a task ends in the
  bootstrap context, every task is blocked or dead, so no runnable task is ever left behind.\<close>

theorem idle_means_nothing_runnable:
  assumes "reachable A R zero k" "op_enabled R x k" "current (k_sched k) 0 \<noteq> None"
    and "kernel_step A x k = Some k'" "current (k_sched k') 0 = None"
  shows "\<forall>t \<in> set (tasks (k_sched k')). t_state t = Blocked \<or> t_state t = Dead"
proof -
  have ok: "kernel_ok R k" using assms(1) by (auto simp: reachable_def dest: run_ok)
  from kernel_step_ok [OF ok assms(2), of A] assms(3-5) have n: "no_ready (k_sched k')" "kernel_ok R k'" by auto
  have "t_state (tasks (k_sched k') ! j) \<noteq> Running" if "j < length (tasks (k_sched k'))" for j
    using n(2) that assms(5) by (auto simp: kernel_ok_def ksettled_def settled_ok_def sys_ok_def slots_ok_def slot_ok_def)
  then have run: "\<forall>t \<in> set (tasks (k_sched k')). t_state t \<noteq> Running" by (auto simp: in_set_conv_nth)
  show ?thesis
  proof
    fix t assume "t \<in> set (tasks (k_sched k'))"
    with run n(1) have "t_state t \<noteq> Running" "t_state t \<noteq> Ready" by (auto simp: no_ready_def)
    then show "t_state t = Blocked \<or> t_state t = Dead" by (cases "t_state t") auto
  qed
qed


lemma exit_switch_alone:
  assumes "current s c = Some 0" "length (tasks s) = 1" "exit_switch c s = Some s'"
  shows "current s' c = None"
proof -
  let ?s = "(set_state 0 Dead s)\<lparr>prev_slot := (prev_slot s)(c := Some 0)\<rparr>"
  obtain t where "tasks s = [t]" using assms(2) by (auto simp: length_Suc_conv)
  then have "pick_next 0 ?s = None" by (simp add: pick_next_None no_ready_def set_state_def)
  then show ?thesis using assms(1,3)
    by (auto simp: exit_switch_def Let_def switch_to_bootstrap_def enter_def set_state_def upd_task_def)
qed

lemma sample_len: "length (tasks (k_sched sample_kernel)) = 1"
  using arg_cong [OF conjunct1 [OF conjunct2 [OF sample_sched]], of length] by simp

lemma sample_exit: "\<exists>k'. kernel_step sample_abi (OpFault True) sample_kernel = Some k' \<and>
    current (k_sched k') 0 = None"
proof -
  let ?k = "sample_kernel\<lparr>k_user_faults := k_user_faults sample_kernel + 1\<rparr>"
  have ok: "kernel_ok 0x1000 ?k" using run_ok [OF sample_run] by (simp add: kernel_ok_def ksettled_def)
  then have set: "settled_ok 0x1000 0 (k_sched ?k) (k_ipc ?k)" and gs: "k_gs ?k 0 = outside_gs"
    by (simp_all add: kernel_ok_def ksettled_def)
  have cur: "current (k_sched ?k) 0 = Some 0" using sample_sched by simp
  have len: "length (tasks (k_sched ?k)) = 1"
    using sample_len by simp
  obtain i' where i': "forget_task 0 (k_ipc ?k) = (0, i')" "settled_ok 0x1000 0 (k_sched ?k) i'"
    using forget_current [OF set cur] by blast
  obtain s' where s': "exit_switch 0 (k_sched ?k) = Some s'" "transit_ok 0x1000 0 s' i'"
    using exit_switch_ok [OF i'(2) cur] by blast
  have idle: "current s' 0 = None" using exit_switch_alone [OF cur len s'(1)] .
  let ?k1 = "?k\<lparr>k_sched := s', k_ipc := i'\<rparr>"
  have "ktransit 0x1000 ?k1" using s'(2) gs by (simp add: ktransit_def)
  from resume_context_ok [OF this, of sample_abi True] idle
  obtain k' where "resume_context sample_abi 0 True ?k1 = Some k'" "current (k_sched k') 0 = None" by auto
  moreover have "exit_task (me 0 ?k) (k_sched ?k) (k_ipc ?k) = Some (s', i')"
    using i'(1) s'(1) cur gs by (simp add: exit_task_def current_id_def)
  ultimately have "kernel_step sample_abi (OpFault True) sample_kernel = Some k'"
    by (simp add: do_user_fault_def Let_def)
  then show ?thesis using \<open>current (k_sched k') 0 = None\<close> by blast
qed

theorem idle_means_nothing_runnable_witness:
  "\<exists>k'. kernel_step sample_abi (OpFault True) sample_kernel = Some k' \<and>
     (\<forall>t \<in> set (tasks (k_sched k')). t_state t = Blocked \<or> t_state t = Dead)"
proof -
  obtain k' where k': "kernel_step sample_abi (OpFault True) sample_kernel = Some k'"
    "current (k_sched k') 0 = None" using sample_exit by blast
  have "op_enabled 0x1000 (OpFault True) sample_kernel" "current (k_sched sample_kernel) 0 \<noteq> None"
    using sample_sched by (auto simp: op_enabled_def in_user_def)
  from idle_means_nothing_runnable [OF sample_reachable this k'] k'(1) show ?thesis by blast
qed

text \<open>C10: The scheduler is fair: if anything is ready it picks a ready task, and every other ready task is
  then strictly closer to its turn than before, so a task that stays ready waits for at most as many
  switches as there are tasks.\<close>

theorem round_robin_progress:
  assumes "p < length (tasks s)"
  shows "case pick_next p s of
      None \<Rightarrow> \<forall>t \<in> set (tasks s). t_state t \<noteq> Ready
    | Some m \<Rightarrow> m < length (tasks s) \<and> t_state (tasks s ! m) = Ready \<and>
        (\<forall>j < length (tasks s). t_state (tasks s ! j) = Ready \<longrightarrow> j \<noteq> m \<longrightarrow>
          turn_distance (length (tasks s)) m j < turn_distance (length (tasks s)) p j)"
proof (cases "pick_next p s")
  case None
  then show ?thesis using pick_next_None [of p s] by (simp add: no_ready_def)
next
  case (Some m)
  let ?n = "length (tasks s)"
  note m = pick_next_Some [OF Some]
  have "turn_distance ?n m j < turn_distance ?n p j"
    if j: "j < ?n" "t_state (tasks s ! j) = Ready" "j \<noteq> m" for j
    using pick_next_first [OF Some assms j(1,2)] j m assms
    by (auto simp: turn_distance_def split: if_splits)
  with m Some show ?thesis by simp
qed

theorem round_robin_progress_witness:
  "case pick_next 0 (k_sched sample_kernel) of
     None \<Rightarrow> \<forall>t \<in> set (tasks (k_sched sample_kernel)). t_state t \<noteq> Ready
   | Some m \<Rightarrow> m < 1 \<and> t_state (tasks (k_sched sample_kernel) ! m) = Ready"
  using round_robin_progress [of 0 "k_sched sample_kernel"] sample_len
  by (cases "pick_next 0 (k_sched sample_kernel)") simp_all

text \<open>The way back to ring 3 never executes \<open>sysretq\<close> with a non-canonical return address: the fast path
  is taken exactly when the saved \<open>rip\<close> lies below 2^47 or at or above 2^64 - 2^47, every other return
  goes through \<open>iretq\<close> and is counted, and either way \<open>GS\<close> is swapped back.\<close>

theorem sysret_only_canonical:
  assumes "current (k_sched k) c = Some t"
  shows "let rip = f_rip (t_frame (tasks (k_sched k) ! t)); (path, k') = syscall_return c k in
    path = (if unat rip < 2 ^ 47 \<or> 2 ^ 64 - 2 ^ 47 \<le> unat rip then Sysret else Iret)
    \<and> k_iret_returns k' = k_iret_returns k + of_bool (path = Iret)
    \<and> k_gs k' c = (snd (k_gs k c), fst (k_gs k c))"
  unfolding canonical_range [symmetric]
  using assms by (simp add: syscall_return_def Let_def swap_gs_def)

theorem sysret_only_canonical_witness:
  "fst (syscall_return 0 (upd_frame 0 (\<lambda>f. f\<lparr>f_rip := NONCANONICAL_RIP\<rparr>) sample_kernel)) = Iret"
proof -
  let ?k = "upd_frame 0 (\<lambda>f. f\<lparr>f_rip := NONCANONICAL_RIP\<rparr>) sample_kernel"
  have cur: "current (k_sched ?k) 0 = Some 0" using sample_sched by simp
  have "f_rip (t_frame (tasks (k_sched ?k) ! 0)) = NONCANONICAL_RIP"
    using sample_sched sample_len by (simp add: upd_frame_def)
  with sysret_only_canonical [OF cur] show ?thesis
    by (simp add: case_prod_unfold Let_def NONCANONICAL_RIP_def)
qed

end
