(* ===== verification/Ledger.thy ===== *)
theory Ledger imports Kernel begin

text \<open>
  Two conservation laws over whole runs: address spaces are created and torn down one for one, and
  capabilities are copied and dropped but never made. Both are shown operation by operation, without
  any assumption on the state where none is needed.
\<close>

section \<open>Address spaces\<close>

text \<open>The spaces the tasks hold, by slot, and those already torn down.\<close>

definition held_spaces :: "'m sched \<Rightarrow> address_space option list \<times> (address_space \<times> u64) list" where
  "held_spaces s = (map t_space (tasks s), torn_down s)"

definition space_account :: "'m sched \<Rightarrow> address_space multiset" where
  "space_account s = mset (List.map_filter t_space (tasks s)) + mset (map fst (torn_down s))"

lemma space_account_held: "held_spaces s = held_spaces s' \<Longrightarrow> space_account s = space_account s'"
proof -
  have "List.map_filter t_space ts = List.map_filter id (map t_space ts)" for ts :: "'b task list"
    by (induction ts) (simp_all add: List.map_filter_def)
  moreover have "List.map_filter t_space ts = List.map_filter id (map t_space ts)" for ts :: "'a task list"
    by (induction ts) (simp_all add: List.map_filter_def)
  ultimately show "held_spaces s = held_spaces s' \<Longrightarrow> space_account s = space_account s'"
    by (simp add: held_spaces_def space_account_def)
qed

lemma map_update_same: "f y = f (xs ! j) \<Longrightarrow> map f (xs[j := y]) = map f xs"
  by (cases "j < length xs") (simp_all add: map_update list_update_beyond, metis list_update_id map_update)

lemma held_upd_task: "(\<And>t. t_space (f t) = t_space t) \<Longrightarrow> held_spaces (upd_task j f s) = held_spaces s"
  by (simp add: held_spaces_def upd_task_def map_update_same)

lemma held_set_state [simp]: "held_spaces (set_state j st s) = held_spaces s"
  by (simp add: set_state_def held_upd_task)

lemma held_more: "tasks s' = tasks s \<Longrightarrow> torn_down s' = torn_down s \<Longrightarrow> held_spaces s' = held_spaces s"
  by (simp add: held_spaces_def)

lemma held_enter [simp]: "held_spaces (enter c a b s) = held_spaces s"
  by (simp add: enter_def held_spaces_def Let_def split: option.split)

lemma held_away [simp]: "held_spaces (away c nxt s) = held_spaces s"
  by (simp add: held_spaces_def away_sel map_update_same split: option.split)

lemma held_switch_to [simp]: "held_spaces (switch_to c n s) = held_spaces s"
  using held_away [of c "Some n" s] by (simp add: away_def)

lemma held_bootstrap [simp]: "held_spaces (switch_to_bootstrap c s) = held_spaces s"
  using held_away [of c None s] by (simp add: away_def)


lemma held_record [simp]:
  "held_spaces (s\<lparr>prev_slot := a\<rparr>) = held_spaces s" "held_spaces (s\<lparr>need_resched := b\<rparr>) = held_spaces s"
  "held_spaces (s\<lparr>blocks := n\<rparr>) = held_spaces s" "held_spaces (s\<lparr>wakeups := n\<rparr>) = held_spaces s"
  "held_spaces (s\<lparr>died_blocked := n\<rparr>) = held_spaces s" "held_spaces (s\<lparr>kernel_root := n\<rparr>) = held_spaces s"
  "held_spaces (s\<lparr>preemptions := n\<rparr>) = held_spaces s" "held_spaces (s\<lparr>yields := n\<rparr>) = held_spaces s"
  by (simp_all add: held_spaces_def)

lemma held_ops:
  "start_turn c s = (b, s') \<Longrightarrow> held_spaces s' = held_spaces s"
  "reschedule c x s = (b, s') \<Longrightarrow> held_spaces s' = held_spaces s"
  "park_and_switch c x s = Some s' \<Longrightarrow> held_spaces s' = held_spaces s"
  "exit_switch c s = Some s' \<Longrightarrow> held_spaces s' = held_spaces s"
  "unblock w s = Some s' \<Longrightarrow> held_spaces s' = held_spaces s"
  "deliver w km s = Some s' \<Longrightarrow> held_spaces s' = held_spaces s"
  "take_mailbox c s = Some (km, s') \<Longrightarrow> held_spaces s' = held_spaces s"
  "install_cap_current c h cp s = (hn, s') \<Longrightarrow> held_spaces s' = held_spaces s"
  by (auto simp: start_turn_def reschedule_def park_and_switch_def exit_switch_def unblock_def
      deliver_def take_mailbox_def install_cap_current_def Let_def held_upd_task
      split: option.splits if_splits prod.splits)

lemma held_ipc:
  "ipc_send c ep km s i = Some (r, s', i') \<Longrightarrow> held_spaces s' = held_spaces s"
  "ipc_recv c ep s i = Some (r', s', i') \<Longrightarrow> held_spaces s' = held_spaces s"
  "ipc_recv_resumed c s i = Some (m, s', i') \<Longrightarrow> held_spaces s' = held_spaces s"
  "exit_task c s i = Some (s', i') \<Longrightarrow> held_spaces s' = held_spaces s"
  by (auto simp: ipc_send_def ipc_recv_def ipc_recv_resumed_def exit_task_def Let_def held_ops
      split: option.splits if_splits prod.splits send_action.splits recv_action.splits)

abbreviation kspaces :: "'m kernel \<Rightarrow> address_space option list \<times> (address_space \<times> u64) list" where
  "kspaces k \<equiv> held_spaces (k_sched k)"

lemma kspaces_simps [simp]:
  "kspaces (swap_gs c k) = kspaces k" "kspaces (upd_frame c f k) = kspaces k"
  "kspaces (store_result c rc k) = kspaces k" "kspaces (snd (syscall_return c k)) = kspaces k"
  "kspaces (count_refused k) = kspaces k"
proof -
  show f: "kspaces (upd_frame c f k) = kspaces k" for c f and k :: "'m kernel"
    by (simp add: upd_frame_def held_upd_task split: option.split)
  show "kspaces (store_result c rc k) = kspaces k"
    by (simp add: store_result_def f split: option.split)
qed (simp_all add: count_refused_def syscall_return_def Let_def)

lemma kspaces_finish: "finish_recv A c h ptr km k = (rc, k') \<Longrightarrow> kspaces k' = kspaces k"
  by (auto simp: finish_recv_def held_ops dest!: write_user_msg_sel
      split: option.splits prod.splits bool.splits)

lemma kspaces_handlers:
  "sys_send A c handle ptr k = Some (r, k') \<Longrightarrow> kspaces k' = kspaces k"
  "sys_recv A c h handle ptr k = Some (r, k') \<Longrightarrow> kspaces k' = kspaces k"
  "sys_revoke A c handle k = (rc, k') \<Longrightarrow> kspaces k' = kspaces k"
  "debug_write A c ptr len k = (rc, k') \<Longrightarrow> kspaces k' = kspaces k"
proof -
  show "sys_send A c handle ptr k = Some (r, k') \<Longrightarrow> kspaces k' = kspaces k"
    by (auto simp: sys_send_def count_refused_def held_ipc split: option.splits sum.splits if_splits)
  show "sys_recv A c h handle ptr k = Some (r, k') \<Longrightarrow> kspaces k' = kspaces k"
    by (auto simp: sys_recv_def Let_def count_refused_def held_ipc
        dest!: write_user_msg_sel kspaces_finish
        split: option.splits sum.splits if_splits prod.splits bool.splits flow.splits)
qed (auto simp: dest: sys_revoke_sel debug_write_sel)

lemma kspaces_on_syscall: "on_syscall A c h k = Some (r, k') \<Longrightarrow> kspaces k' = kspaces k"
  by (auto simp: on_syscall_def serve_syscall_def Let_def held_upd_task
      dest!: kspaces_handlers held_ops held_ipc
      split: option.splits syscall_no.splits prod.splits bool.splits flow.splits)

abbreviation kaccount :: "'m kernel \<Rightarrow> address_space multiset" where
  "kaccount k \<equiv> space_account (k_sched k)"

lemma map_filter_mset_update:
  assumes "j < length xs"
  shows "mset (List.map_filter f (xs[j := y])) + (case f (xs ! j) of None \<Rightarrow> {#} | Some z \<Rightarrow> {#z#}) =
    mset (List.map_filter f xs) + (case f y of None \<Rightarrow> {#} | Some z \<Rightarrow> {#z#})"
  using assms
proof (induction xs arbitrary: j)
  case (Cons x xs)
  then show ?case by (cases j) (auto simp: List.map_filter_simps split: option.splits)
qed simp

lemma account_post_switch:
  assumes "\<And>p. prev_slot s c = Some p \<Longrightarrow> p < length (tasks s)"
  shows "space_account (post_switch c s) = space_account s"
proof (cases "prev_slot s c")
  case None
  then show ?thesis by (simp add: post_switch_def)
next
  case (Some p)
  with assms have p: "p < length (tasks s)" by simp
  note sel = post_switch_sel [OF Some p]
  show ?thesis
    using map_filter_mset_update [OF p, of t_space
        "(tasks s ! p)\<lparr>t_stack := 0, t_space := None, t_caps := [], t_mailbox := None\<rparr>"]
    by (auto simp: space_account_def sel(1,9) split: option.splits)
qed

lemma kaccount_resume_task:
  assumes "ktransit R k" "resume_task A 0 h k = Some k'"
  shows "kaccount k' = kaccount k"
proof -
  let ?k = "k\<lparr>k_sched := post_switch (me 0 k) (k_sched k)\<rparr>"
  from assms(1) have "prev_slot (k_sched k) 0 = Some p \<Longrightarrow> p < length (tasks (k_sched k))" for p
    by (auto simp: ktransit_def transit_ok_def sys_ok_def links_ok_def)
  then have "kaccount ?k = kaccount k"
    using account_post_switch [of "k_sched k" 0] assms(1) by (simp add: ktransit_def)
  moreover have "kspaces k' = kspaces ?k"
    using assms(2)
    by (auto simp: resume_task_def continue_task_def Let_def ipc_send_resumed_def
        dest!: held_ipc(3) kspaces_finish split: option.splits resume_point.splits prod.splits)
  ultimately show ?thesis using space_account_held by metis
qed

lemma kaccount_resume_context:
  assumes ok: "ktransit R k" and res: "resume_context A 0 h k = Some k'"
  shows "kaccount k' = kaccount k"
proof (cases "current (k_sched k) 0")
  case (Some t)
  with res kaccount_resume_task [OF ok] show ?thesis by (simp add: resume_context_def)
next
  case None
  let ?s = "k_sched k"
  have tr: "transit_ok R 0 ?s (k_ipc k)" and gs: "k_gs k 0 = outside_gs" using ok by (simp_all add: ktransit_def)
  with None have root: "kernel_root ?s = R" and sys: "sys_ok R 0 True ?s (k_ipc k)"
    by (simp_all add: transit_ok_def)
  have e: "enter 0 None (Some (kernel_root ?s)) ?s = ?s"
    using root sys None by (simp add: enter_def sys_ok_def regs_ok_def)
  have none: "first_ready (post_switch 0 ?s) = None"
    using post_switch_ok [OF tr] None by (simp add: first_ready_None transit_ok_def)
  have "k' = k\<lparr>k_sched := post_switch 0 ?s\<rparr>"
    using res None gs e none by (simp add: resume_context_def Let_def start_turn_def)
  moreover have "prev_slot ?s 0 = Some p \<Longrightarrow> p < length (tasks ?s)" for p
    using sys by (auto simp: sys_ok_def links_ok_def)
  ultimately show ?thesis using account_post_switch [of ?s 0] by simp
qed

text \<open>The address spaces a list of operations brings in.\<close>

definition spawned_space :: "kernel_op \<Rightarrow> address_space option" where
  "spawned_space x = (case x of OpSpawn h base name space caps \<Rightarrow> if h then space else None | _ \<Rightarrow> None)"

lemma kaccount_step:
  assumes ok: "kernel_ok R k" and en: "op_enabled R x k" and st: "kernel_step A x k = Some k'"
  shows "kaccount k' = kaccount k + (case spawned_space x of None \<Rightarrow> {#} | Some sp \<Rightarrow> {#sp#})"
proof -
  have set: "settled_ok R 0 (k_sched k) (k_ipc k)" and gs: "k_gs k 0 = outside_gs"
    using ok by (simp_all add: kernel_ok_def ksettled_def)
  have same: "kspaces k' = kspaces k \<Longrightarrow> kaccount k' = kaccount k" using space_account_held .
  have exit: "kaccount k' = kaccount k0"
    if k0: "kernel_ok R k0" "current (k_sched k0) 0 \<noteq> None" and r: "(case exit_task (me 0 k0) (k_sched k0) (k_ipc k0) of
      None \<Rightarrow> None | Some (s', i') \<Rightarrow> resume_context A 0 h (k0\<lparr>k_sched := s', k_ipc := i'\<rparr>)) = Some k'"
    for k0 h
  proof -
    from k0(1) have ok0: "settled_ok R 0 (k_sched k0) (k_ipc k0)" and gs0: "k_gs k0 0 = outside_gs"
      by (simp_all add: kernel_ok_def ksettled_def)
    from k0(2) obtain t where t: "current (k_sched k0) 0 = Some t" by auto
    obtain s' i' where x: "exit_task 0 (k_sched k0) (k_ipc k0) = Some (s', i')" "transit_ok R 0 s' i'"
      using exit_task_ok [OF ok0 t] by blast
    have tr: "ktransit R (k0\<lparr>k_sched := s', k_ipc := i'\<rparr>)" using x(2) gs0 by (simp add: ktransit_def)
    from r x(1) gs0 have "resume_context A 0 h (k0\<lparr>k_sched := s', k_ipc := i'\<rparr>) = Some k'" by simp
    from kaccount_resume_context [OF tr this] held_ipc(4) [OF x(1)] show ?thesis
      using space_account_held [of s' "k_sched k0"] by simp
  qed
  show ?thesis
  proof (cases x)
    case (OpSpawn h base name space caps)
    with st gs show ?thesis
      by (auto simp: do_spawn_def spawn_with_def space_account_def spawned_space_def
          List.map_filter_def split: if_splits option.splits)
  next
    case (OpSyscall h frame)
    let ?k = "swap_gs 0 (upd_frame 0 (\<lambda>_. frame) k)"
    from OpSyscall en obtain t where "current (k_sched k) 0 = Some t"
      by (auto simp: op_enabled_def in_user_def split: option.splits)
    then have t: "current (k_sched ?k) 0 = Some t" by simp
    have "ksettled R ?k" "k_gs ?k 0 = inside_gs"
      using ok upd_frame_ok [of R k] by (auto simp: kernel_ok_def ksettled_def)
    from on_syscall_ok [OF this t, of A h] have s: "served R (on_syscall A 0 h ?k)" .
    from st OpSyscall obtain v k1 where o: "on_syscall A 0 h ?k = Some (v, k1)"
      and r: "case v of Returned u \<Rightarrow> k' = snd (syscall_return 0 k1) | Switched \<Rightarrow> resume_context A 0 h k1 = Some k'"
      by (auto simp: do_syscall_def split: option.splits flow.splits)
    have k1: "kspaces k1 = kspaces k" using kspaces_on_syscall [OF o] by simp
    show ?thesis
    proof (cases v)
      case (Returned u)
      with r k1 same OpSyscall show ?thesis by (simp add: spawned_space_def)
    next
      case Switched
      with s o have "ktransit R k1" by (simp add: served_def)
      with Switched r have "kaccount k' = kaccount k1" using kaccount_resume_context by auto
      with space_account_held [OF k1] OpSyscall show ?thesis by (simp add: spawned_space_def)
    qed
  next
    case (OpTick h)
    let ?s = "(k_sched k)\<lparr>need_resched := (need_resched (k_sched k))(0 := False)\<rparr>"
    obtain b s' where r: "reschedule 0 ResumePreempt ?s = (b, s')"
      by (cases "reschedule 0 ResumePreempt ?s") auto
    have k': "k' = k\<lparr>k_sched := s'\<rparr>" if "\<not> b"
      using that st OpTick r gs by (simp add: do_tick_def on_irq_epilogue_def request_resched_def)
    have "kaccount k' = space_account s'" if b
    proof -
      have "resume_context A 0 h (k\<lparr>k_sched := s'\<rparr>) = Some k'"
        using that st OpTick r gs by (simp add: do_tick_def on_irq_epilogue_def request_resched_def)
      moreover have "ktransit R (k\<lparr>k_sched := s'\<rparr>)"
        using reschedule_ok [OF count_ok(1) [OF set, of "(need_resched (k_sched k))(0 := False)"], of ResumePreempt] r that gs by (simp add: ktransit_def)
      ultimately show ?thesis using kaccount_resume_context by fastforce
    qed
    with k' have "kaccount k' = space_account s'" by (cases b) simp_all
    with space_account_held [of s' "k_sched k"] held_ops(2) [OF r] OpTick show ?thesis
      by (simp add: spawned_space_def)
  next
    case (OpFault h)
    let ?k = "k\<lparr>k_user_faults := k_user_faults k + 1\<rparr>"
    have "kernel_ok R ?k" using ok by (simp add: kernel_ok_def ksettled_def)
    with OpFault en st exit [of ?k h] show ?thesis
      by (auto simp: op_enabled_def in_user_def do_user_fault_def Let_def spawned_space_def split: option.splits)
  next
    case (OpThreadExit h)
    with en st ok exit [of k h] show ?thesis
      by (simp add: op_enabled_def do_thread_exit_def spawned_space_def)
  next
    case (OpStart h)
    with en have idle: "current (k_sched k) 0 = None" by (simp add: op_enabled_def)
    have root: "cr3 (k_sched k) 0 = R" using set idle by (simp add: settled_ok_def sys_ok_def regs_ok_def)
    let ?s = "(k_sched k)\<lparr>kernel_root := R\<rparr>"
    obtain b s1 where r: "start_turn 0 ?s = (b, s1)" by (cases "start_turn 0 ?s") auto
    have e: "(if b then resume_task A 0 h (k\<lparr>k_sched := s1\<rparr>) else Some (k\<lparr>k_sched := s1\<rparr>)) = Some k'"
      using st OpStart r gs root by (cases b) (simp_all add: do_start_def Let_def)
    have "kaccount k' = space_account s1"
    proof (cases b)
      case True
      then have "ktransit R (k\<lparr>k_sched := s1\<rparr>)"
        using start_turn_ok [OF count_ok(2) [OF set idle]] r idle gs by (simp add: ktransit_def)
      with e True kaccount_resume_task show ?thesis by fastforce
    next
      case False
      with e show ?thesis by auto
    qed
    with space_account_held [of s1 "k_sched k"] held_ops(1) [OF r] OpStart show ?thesis
      by (simp add: spawned_space_def)
  qed (use st in \<open>auto simp: spawned_space_def\<close>)
qed


text \<open>C7: No address space is leaked and none is torn down twice: over any run, the spaces that tasks were
  spawned with are, each exactly once, either held by a task that is still there or torn down.\<close>

theorem spaces_conserved:
  assumes "kernel_run A R zero xs k"
  shows "mset (List.map_filter spawned_space xs) =
    mset (List.map_filter t_space (tasks (k_sched k))) + mset (map fst (torn_down (k_sched k)))"
  using assms
proof (induction rule: kernel_run.induct)
  case boot
  show ?case by (simp add: kernel_boot_def List.map_filter_def)
next
  case (step xs k x k')
  have "mset (List.map_filter spawned_space (xs @ [x])) =
      mset (List.map_filter spawned_space xs) + (case spawned_space x of None \<Rightarrow> {#} | Some sp \<Rightarrow> {#sp#})"
    by (simp add: List.map_filter_def split: option.split)
  with step.IH kaccount_step [OF run_ok [OF step.hyps(1)] step.hyps(2,3)] show ?case
    by (simp add: space_account_def)
qed

theorem spaces_conserved_witness:
  "mset (List.map_filter t_space (tasks (k_sched sample_kernel))) +
     mset (map fst (torn_down (k_sched sample_kernel))) = {#sample_space#}"
  using spaces_conserved [OF sample_run]
  by (simp add: sample_ops_def spawned_space_def List.map_filter_def)

end
