(* ===== verification/Authority.thy ===== *)
theory Authority imports Ledger begin

text \<open>
  Where capabilities can be: in the table of a task, in a message in a mailbox, in a message in a ring,
  in the message of a blocked sender. No operation puts a capability in any of these that was in none
  of them before, except the spawn that grants it; rights are part of the capability, so delegation
  cannot widen them.
\<close>

section \<open>What is held\<close>

definition task_caps :: "'m task \<Rightarrow> cap set" where
  "task_caps t = {c. Some c \<in> set (t_caps t)} \<union> {c. \<exists>km. t_mailbox t = Some km \<and> km_cap km = Some c}"

definition msg_caps :: "'m kmessage \<Rightarrow> cap set" where
  "msg_caps km = set_option (km_cap km)"

definition endpoint_caps :: "'m endpoint \<Rightarrow> cap set" where
  "endpoint_caps e = \<Union> (msg_caps ` (set (ring_items e) \<union> snd ` set (send_items e)))"

definition sched_caps :: "'m sched \<Rightarrow> cap set" where
  "sched_caps s = \<Union> (task_caps ` set (tasks s))"

definition ipc_caps :: "'m ipc \<Rightarrow> cap set" where
  "ipc_caps i = \<Union> (endpoint_caps ` set (endpoints i))"

definition held_caps :: "'m kernel \<Rightarrow> cap set" where
  "held_caps k = sched_caps (k_sched k) \<union> ipc_caps (k_ipc k)"

definition granted_caps :: "kernel_op \<Rightarrow> cap set" where
  "granted_caps x = (case x of OpSpawn h base name space caps \<Rightarrow> {c. Some c \<in> set caps} | _ \<Rightarrow> {})"

section \<open>The scheduler\<close>

lemma Union_update: "(\<And>x. x \<in> set xs \<Longrightarrow> F (f x) \<subseteq> F x \<union> X) \<Longrightarrow>
    \<Union> (F ` set (xs[j := f (xs ! j)])) \<subseteq> \<Union> (F ` set xs) \<union> X"
proof (cases "j < length xs")
  case True
  assume "\<And>x. x \<in> set xs \<Longrightarrow> F (f x) \<subseteq> F x \<union> X"
  with True have "F (f (xs ! j)) \<subseteq> F (xs ! j) \<union> X" by simp
  with True show ?thesis using set_update_subset_insert [of xs j "f (xs ! j)"] nth_mem [OF True] by blast
qed (simp add: list_update_beyond)

lemma caps_upd_task: "(\<And>t. task_caps (f t) \<subseteq> task_caps t \<union> X) \<Longrightarrow>
    sched_caps (upd_task j f s) \<subseteq> sched_caps s \<union> X"
  unfolding sched_caps_def upd_task_def using Union_update [of "tasks s" task_caps f X j] by simp

lemma caps_at: "p < length (tasks s) \<Longrightarrow> task_caps (tasks s ! p) \<subseteq> sched_caps s"
  unfolding sched_caps_def by (rule UN_upper) simp

lemma caps_drop: "tasks s' = (tasks s)[p := t] \<Longrightarrow> task_caps t = {} \<Longrightarrow> sched_caps s' \<subseteq> sched_caps s"
  using set_update_subset_insert [of "tasks s" p t] unfolding sched_caps_def by auto

lemma caps_same: "task_caps (t\<lparr>t_state := a\<rparr>) = task_caps t" "task_caps (t\<lparr>t_ctx := b\<rparr>) = task_caps t"
  "task_caps (t\<lparr>t_frame := fr\<rparr>) = task_caps t" "task_caps (t\<lparr>t_corrupt := cr\<rparr>) = task_caps t"
  "task_caps (t\<lparr>t_stack := n\<rparr>) = task_caps t"
  by (simp_all add: task_caps_def)

lemma caps_detail: "(\<And>t. task_caps (f t) = task_caps t) \<Longrightarrow> sched_caps (upd_task j f s) \<subseteq> sched_caps s"
  using caps_upd_task [of f "{}"] by auto

lemma caps_set_state: "sched_caps (set_state j st s) \<subseteq> sched_caps s"
  unfolding set_state_def by (rule caps_detail) (rule caps_same)

lemma caps_tasks: "tasks s' = tasks s \<Longrightarrow> sched_caps s' = sched_caps s"
  by (simp add: sched_caps_def)

lemma caps_away: "sched_caps (away c nxt s) \<subseteq> sched_caps s"
  unfolding sched_caps_def away_sel
  using Union_update [of "tasks s" task_caps "\<lambda>t. t\<lparr>t_state := Running\<rparr>" "{}"]
  by (simp add: caps_same split: option.split)

lemma caps_switch: "sched_caps (switch_to c n s) \<subseteq> sched_caps s"
  "sched_caps (switch_to_bootstrap c s) \<subseteq> sched_caps s"
  using caps_away [of c "Some n" s] caps_away [of c None s] by (simp_all add: away_def)

lemma caps_leave: "tasks s2 = tasks (upd_task p (\<lambda>t. t\<lparr>t_ctx := x\<rparr>) s1) \<Longrightarrow> tasks s1 = tasks (set_state p st s) \<Longrightarrow>
    sched_caps s2 \<subseteq> sched_caps s"
  using caps_set_state [of p st s] caps_detail [of "\<lambda>t. t\<lparr>t_ctx := x\<rparr>" p s1] caps_same(2)
    caps_tasks [of s1 "set_state p st s"] caps_tasks [of s2 "upd_task p (\<lambda>t. t\<lparr>t_ctx := x\<rparr>) s1"]
  by auto

lemma caps_switches:
  "start_turn c s = (b, s') \<Longrightarrow> sched_caps s' \<subseteq> sched_caps s"
  "park_and_switch c x s = Some s' \<Longrightarrow> sched_caps s' \<subseteq> sched_caps s"
  "exit_switch c s = Some s' \<Longrightarrow> sched_caps s' \<subseteq> sched_caps s"
proof -
  show "start_turn c s = (b, s') \<Longrightarrow> sched_caps s' \<subseteq> sched_caps s"
    using caps_switch(1) [of c _ "s\<lparr>prev_slot := (prev_slot s)(c := None)\<rparr>"]
      caps_tasks [of "s\<lparr>prev_slot := (prev_slot s)(c := None)\<rparr>" s]
    by (auto simp: start_turn_def split: option.splits)
next
  assume p: "park_and_switch c x s = Some s'"
  then obtain p where cur: "current s c = Some p" by (auto simp: park_and_switch_def split: option.splits)
  let ?s = "upd_task p (\<lambda>t. t\<lparr>t_ctx := x\<rparr>) ((set_state p Blocked s)
    \<lparr>blocks := blocks s + 1, prev_slot := (prev_slot s)(c := Some p)\<rparr>)"
  have "s' = away c (pick_next p ?s) ?s"
    using p cur by (simp add: park_and_switch_def away_def Let_def set_state_def upd_task_def split: option.splits)
  moreover have "sched_caps ?s \<subseteq> sched_caps s" by (rule caps_leave [of _ p x _ Blocked]) simp_all
  ultimately show "sched_caps s' \<subseteq> sched_caps s" using caps_away by fast
next
  assume e: "exit_switch c s = Some s'"
  then obtain p where cur: "current s c = Some p" by (auto simp: exit_switch_def split: option.splits)
  let ?s = "(set_state p Dead s)\<lparr>prev_slot := (prev_slot s)(c := Some p)\<rparr>"
  have "s' = away c (pick_next p ?s) ?s"
    using e cur by (simp add: exit_switch_def away_def Let_def set_state_def upd_task_def split: option.splits)
  moreover have "sched_caps ?s \<subseteq> sched_caps s" using caps_set_state [of p Dead s] by (simp add: sched_caps_def)
  ultimately show "sched_caps s' \<subseteq> sched_caps s" using caps_away by fast
qed

lemma caps_reschedule: "reschedule c x s = (b, s') \<Longrightarrow> sched_caps s' \<subseteq> sched_caps s"
proof -
  assume r: "reschedule c x s = (b, s')"
  show ?thesis
  proof (cases "current s c")
    case None
    with r show ?thesis by (simp add: reschedule_def)
  next
    case (Some p)
    show ?thesis
    proof (cases "pick_next p s")
      case None
      with Some r show ?thesis by (simp add: reschedule_def)
    next
      case (Some n)
      let ?s1 = "if t_state (tasks s ! p) = Running then set_state p Ready s else s"
      let ?s2 = "upd_task p (\<lambda>t. t\<lparr>t_ctx := x\<rparr>) (?s1\<lparr>prev_slot := (prev_slot ?s1)(c := Some p)\<rparr>)"
      have "s' = switch_to c n ?s2" using r Some \<open>current s c = Some p\<close> by (simp add: reschedule_def Let_def)
      moreover have "sched_caps ?s2 \<subseteq> sched_caps ?s1"
        using caps_detail [of "\<lambda>t. t\<lparr>t_ctx := x\<rparr>", OF caps_same(2), of p "?s1\<lparr>prev_slot := (prev_slot ?s1)(c := Some p)\<rparr>"]
          caps_tasks [of "?s1\<lparr>prev_slot := (prev_slot ?s1)(c := Some p)\<rparr>" ?s1] by auto
      moreover have "sched_caps ?s1 \<subseteq> sched_caps s" using caps_set_state [of p Ready s] by simp
      ultimately show ?thesis using caps_switch(1) by fast
    qed
  qed
qed


lemma caps_wake:
  "unblock w s = Some s' \<Longrightarrow> sched_caps s' \<subseteq> sched_caps s"
  "deliver w km s = Some s' \<Longrightarrow> sched_caps s' \<subseteq> sched_caps s \<union> msg_caps km"
  "take_mailbox c s = Some (km, s') \<Longrightarrow> sched_caps s' \<subseteq> sched_caps s"
  "install_cap_current c h cp s = (hn, s') \<Longrightarrow> sched_caps s' \<subseteq> sched_caps s \<union> {cp}"
proof -
  show "unblock w s = Some s' \<Longrightarrow> sched_caps s' \<subseteq> sched_caps s"
    using caps_set_state [of w Ready s] caps_tasks [of "(set_state w Ready s)\<lparr>wakeups := wakeups s + 1\<rparr>" "set_state w Ready s"]
    by (auto simp: unblock_def split: if_splits)
next
  let ?s1 = "upd_task w (\<lambda>t. t\<lparr>t_mailbox := Some km\<rparr>) s"
  have "sched_caps ?s1 \<subseteq> sched_caps s \<union> msg_caps km"
    by (rule caps_upd_task) (auto simp: task_caps_def msg_caps_def)
  then show "deliver w km s = Some s' \<Longrightarrow> sched_caps s' \<subseteq> sched_caps s \<union> msg_caps km"
    using caps_set_state [of w Ready ?s1] caps_tasks [of "(set_state w Ready ?s1)\<lparr>wakeups := wakeups ?s1 + 1\<rparr>" "set_state w Ready ?s1"]
    by (auto simp: deliver_def Let_def split: if_splits)
next
  have "sched_caps (upd_task j (\<lambda>t. t\<lparr>t_mailbox := None\<rparr>) s) \<subseteq> sched_caps s" for j
    using caps_upd_task [of "\<lambda>t. t\<lparr>t_mailbox := None\<rparr>" "{}" j s] by (auto simp: task_caps_def)
  then show "take_mailbox c s = Some (km, s') \<Longrightarrow> sched_caps s' \<subseteq> sched_caps s"
    by (auto simp: take_mailbox_def split: option.splits)
next
  assume i: "install_cap_current c h cp s = (hn, s')"
  show "sched_caps s' \<subseteq> sched_caps s \<union> {cp}"
  proof (cases "current s c")
    case None
    with i show ?thesis by (auto simp: install_cap_current_def)
  next
    case (Some j)
    obtain r caps where r: "install h (t_caps (tasks s ! j)) cp = (r, caps)"
      by (cases "install h (t_caps (tasks s ! j)) cp") auto
    have s': "s' = upd_task j (\<lambda>t. t\<lparr>t_caps := caps\<rparr>) s"
      using i Some r by (simp add: install_cap_current_def)
    have "task_caps ((tasks s ! j)\<lparr>t_caps := caps\<rparr>) \<subseteq> task_caps (tasks s ! j) \<union> {cp}"
      using install_set [OF r] by (auto simp: task_caps_def)
    then show ?thesis
      unfolding s' sched_caps_def tasks_upd_task
      using set_update_subset_insert [of "tasks s" j "(tasks s ! j)\<lparr>t_caps := caps\<rparr>"] nth_mem [of j "tasks s"]
      by (cases "j < length (tasks s)") (fastforce simp: list_update_beyond)+
  qed
qed

lemma caps_taken: "take_mailbox c s = Some (km, s') \<Longrightarrow> current s c = Some p \<Longrightarrow> p < length (tasks s) \<Longrightarrow>
    msg_caps km \<subseteq> sched_caps s"
  using caps_at [of p s]
  by (auto simp: take_mailbox_def task_caps_def msg_caps_def split: option.splits)

lemma caps_post_switch:
  assumes "\<And>p. prev_slot s c = Some p \<Longrightarrow> p < length (tasks s)"
  shows "sched_caps (post_switch c s) \<subseteq> sched_caps s"
proof (cases "prev_slot s c")
  case None
  then show ?thesis by (simp add: post_switch_def)
next
  case (Some p)
  with assms have p: "p < length (tasks s)" by simp
  let ?t = "(tasks s ! p)\<lparr>t_stack := 0, t_space := None, t_caps := [], t_mailbox := None\<rparr>"
  have "task_caps ?t = {}" by (simp add: task_caps_def)
  then show ?thesis
    using caps_drop [of "post_switch c s" s p ?t] caps_tasks [of "post_switch c s" s]
      post_switch_sel(1) [OF Some p] by (simp split: if_splits)
qed

lemma caps_resolved: "resolve_cap c handle s = Some cp \<Longrightarrow> current s c = Some p \<Longrightarrow> p < length (tasks s) \<Longrightarrow>
    cp \<in> sched_caps s"
  using resolve_in_set [of "t_caps (tasks s ! p)" handle cp] caps_at [of p s]
  by (auto simp: resolve_cap_def task_caps_def)

section \<open>The endpoints\<close>

lemma endpoint_caps_send:
  assumes "endpoint_ok e" "endpoint_send self km e = (a, e')"
  shows "endpoint_caps e' \<subseteq> endpoint_caps e \<union> msg_caps km"
  using endpoint_send_effect [OF assms] by (cases a) (auto simp: endpoint_caps_def)

lemma endpoint_caps_recv:
  assumes "endpoint_ok e" "endpoint_recv self e = (a, e')"
  shows "endpoint_caps e' \<subseteq> endpoint_caps e"
    and "a = RecvGot km \<or> a = RecvWakeSender km t \<Longrightarrow> msg_caps km \<subseteq> endpoint_caps e"
  using endpoint_recv_effect [OF assms] by (cases a; force simp: endpoint_caps_def)+

lemma endpoint_caps_forget: "endpoint_ok e \<Longrightarrow> endpoint_caps (snd (remove_waiter t e)) \<subseteq> endpoint_caps e"
proof -
  assume "endpoint_ok e"
  then have "channel_of (snd (remove_waiter t e)) = snd (channel_forget t (channel_of e))"
    using remove_waiter_channel [of e t] by (simp add: endpoint_ok_def)
  then have "ring_items (snd (remove_waiter t e)) = ring_items e"
    "set (send_items (snd (remove_waiter t e))) \<subseteq> set (send_items e)"
    by (auto simp: channel_of_def channel_forget_def)
  then show ?thesis unfolding endpoint_caps_def by auto
qed

lemma ipc_caps_upd: "ep < length (endpoints i) \<Longrightarrow> endpoint_caps e \<subseteq> endpoint_caps (endpoints i ! ep) \<union> X \<Longrightarrow>
    endpoints i' = (endpoints i)[ep := e] \<Longrightarrow> ipc_caps i' \<subseteq> ipc_caps i \<union> X"
  using set_update_subset_insert [of "endpoints i" ep e] nth_mem [of ep "endpoints i"]
  unfolding ipc_caps_def by fastforce

lemma caps_ipc_send:
  assumes eps: "endpoints_ok i" and res: "ipc_send c ep km s i = Some (r, s', i')"
  shows "sched_caps s' \<union> ipc_caps i' \<subseteq> sched_caps s \<union> ipc_caps i \<union> msg_caps km"
proof (cases "ep < NUM_ENDPOINTS")
  case False
  with res show ?thesis by (auto simp: ipc_send_def)
next
  case True
  note at = endpoint_at_ok [OF eps True]
  from res True obtain self a e where cur: "current s c = Some self"
    and ae: "endpoint_send self km (endpoints i ! ep) = (a, e)"
    by (auto simp: ipc_send_def current_id_def split: option.splits prod.splits)
  have ie: "endpoints i' = (endpoints i)[ep := e]"
    using res True cur ae
    by (cases a) (auto simp: ipc_send_def current_id_def Let_def split: if_splits option.splits)
  have "ipc_caps i' \<subseteq> ipc_caps i \<union> msg_caps km"
    using ipc_caps_upd [OF conjunct2 [OF at] endpoint_caps_send [OF conjunct1 [OF at] ae] ie] .
  moreover have "sched_caps s' \<subseteq> sched_caps s \<union> msg_caps km"
    using res True cur ae caps_wake(2) [of _ km s s'] caps_switches(2) [of c ResumeSend s s']
    by (cases a) (auto simp: ipc_send_def current_id_def Let_def split: if_splits option.splits)
  ultimately show ?thesis by auto
qed

lemma caps_ipc_recv:
  assumes eps: "endpoints_ok i" and res: "ipc_recv c ep s i = Some (r, s', i')"
  shows "sched_caps s' \<union> ipc_caps i' \<subseteq> sched_caps s \<union> ipc_caps i"
    and "r = Returned (Inr km) \<Longrightarrow> msg_caps km \<subseteq> ipc_caps i"
proof -
  have "sched_caps s' \<union> ipc_caps i' \<subseteq> sched_caps s \<union> ipc_caps i \<and>
      (r = Returned (Inr km) \<longrightarrow> msg_caps km \<subseteq> ipc_caps i)"
  proof (cases "ep < NUM_ENDPOINTS")
    case False
    with res show ?thesis by (auto simp: ipc_recv_def)
  next
    case True
    note at = endpoint_at_ok [OF eps True]
    from res True obtain self a e where cur: "current s c = Some self"
      and ae: "endpoint_recv self (endpoints i ! ep) = (a, e)"
      by (auto simp: ipc_recv_def current_id_def split: option.splits prod.splits)
    have ie: "endpoints i' = (endpoints i)[ep := e]"
      using res True cur ae
      by (cases a) (auto simp: ipc_recv_def current_id_def Let_def split: if_splits option.splits)
    have "ipc_caps i' \<subseteq> ipc_caps i \<union> {}"
      using endpoint_caps_recv(1) [OF conjunct1 [OF at] ae]
      by (intro ipc_caps_upd [OF conjunct2 [OF at] _ ie]) simp
    moreover have "sched_caps s' \<subseteq> sched_caps s"
      using res True cur ae caps_wake(1) [of _ s s'] caps_switches(2) [of c ResumeRecv s s']
      by (cases a) (auto simp: ipc_recv_def current_id_def Let_def split: if_splits option.splits)
    moreover have "msg_caps km \<subseteq> ipc_caps i" if "r = Returned (Inr km)"
    proof -
      have "a = RecvGot km \<or> (\<exists>t. a = RecvWakeSender km t)"
        using res True cur ae that
        by (cases a) (auto simp: ipc_recv_def current_id_def Let_def split: if_splits option.splits)
      then have "msg_caps km \<subseteq> endpoint_caps (endpoints i ! ep)"
        using endpoint_caps_recv(2) [OF conjunct1 [OF at] ae] by blast
      with at show ?thesis unfolding ipc_caps_def by (meson UN_upper dual_order.trans nth_mem)
    qed
    ultimately show ?thesis by blast
  qed
  then show "sched_caps s' \<union> ipc_caps i' \<subseteq> sched_caps s \<union> ipc_caps i"
    and "r = Returned (Inr km) \<Longrightarrow> msg_caps km \<subseteq> ipc_caps i" by auto
qed

lemma caps_exit_task:
  assumes eps: "endpoints_ok i" and res: "exit_task c s i = Some (s', i')"
  shows "sched_caps s' \<union> ipc_caps i' \<subseteq> sched_caps s \<union> ipc_caps i"
proof -
  from res obtain self where cur: "current_id c s = Some self" by (auto simp: exit_task_def split: option.splits)
  obtain n i2 where f: "forget_task self i = (n, i2)" by (cases "forget_task self i")
  define s1 where "s1 = (if 0 < n then s\<lparr>died_blocked := died_blocked s + 1\<rparr> else s)"
  have "exit_switch c s1 = Some s'" "i' = i2"
    using res cur f by (auto simp: exit_task_def s1_def Let_def)
  moreover have "tasks s1 = tasks s" by (simp add: s1_def)
  moreover have i': "endpoints i' = map (\<lambda>e. snd (remove_waiter self e)) (endpoints i)"
    using f \<open>i' = i2\<close> by (auto simp: forget_task_def)
  ultimately have "sched_caps s' \<subseteq> sched_caps s" using caps_switches(3) caps_tasks by metis
  moreover have "ipc_caps i' \<subseteq> ipc_caps i"
    using eps endpoint_caps_forget unfolding ipc_caps_def i' endpoints_ok_def by fastforce
  ultimately show ?thesis by auto
qed


section \<open>The kernel\<close>

lemma held_caps_same: "k_sched k' = k_sched k \<Longrightarrow> k_ipc k' = k_ipc k \<Longrightarrow> held_caps k' = held_caps k"
  by (simp add: held_caps_def)

lemma held_caps_frame: "held_caps (upd_frame c f k) \<subseteq> held_caps k"
proof -
  have "sched_caps (upd_task j (\<lambda>t. t\<lparr>t_frame := f (t_frame t)\<rparr>) s) \<subseteq> sched_caps s" for j and s :: "'a sched"
    by (rule caps_detail) (simp add: task_caps_def)
  then show ?thesis by (auto simp: held_caps_def upd_frame_def split: option.splits) 
qed

lemma held_caps_store: "held_caps (store_result c rc k) \<subseteq> held_caps k"
  using held_caps_frame by (auto simp: store_result_def split: option.splits)

lemma held_caps_swap [simp]: "held_caps (swap_gs c k) = held_caps k"
  "held_caps (snd (syscall_return c k)) = held_caps k" "held_caps (count_refused k) = held_caps k"
  by (simp_all add: held_caps_def syscall_return_def Let_def count_refused_def)

lemma held_caps_finish:
  assumes fin: "finish_recv A c h ptr km k = (rc, k')"
  shows "held_caps k' \<subseteq> held_caps k \<union> msg_caps km"
proof (cases "km_cap km")
  case None
  with fin show ?thesis
    by (auto simp: finish_recv_def held_caps_def dest!: write_user_msg_sel split: prod.splits bool.splits)
next
  case (Some cp)
  obtain hn s' where ic: "install_cap_current (Syscall.me c k) h cp (k_sched k) = (hn, s')"
    by (cases "install_cap_current (Syscall.me c k) h cp (k_sched k)")
  have "sched_caps (k_sched k') \<subseteq> sched_caps s' \<and> k_ipc k' = k_ipc k"
    using fin Some ic
    by (auto simp: finish_recv_def dest!: write_user_msg_sel split: option.splits prod.splits bool.splits)
  with caps_wake(4) [OF ic] Some show ?thesis by (auto simp: held_caps_def msg_caps_def)
qed

lemma held_caps_send:
  assumes ok: "ksettled R k" and gs: "k_gs k 0 = outside_gs"
    and res: "sys_send A 0 handle ptr k = Some (r, k')"
  shows "held_caps k' \<subseteq> held_caps k"
proof (cases "k_sched k' = k_sched k \<and> k_ipc k' = k_ipc k")
  case True
  then show ?thesis by (simp add: held_caps_def)
next
  case False
  have eps: "endpoints_ok (k_ipc k)" using ok by (simp add: ksettled_def settled_ok_def sys_ok_def)
  from res False gs obtain ep m transfer q s' i' where
    sent: "ipc_send 0 ep \<lparr>km_msg = m, km_cap = transfer\<rparr> (k_sched k) (k_ipc k) = Some (q, s', i')"
    and tr: "transfer = None \<or> (\<exists>h. transfer = resolve_cap 0 h (k_sched k))"
    and k': "k_sched k' = s'" "k_ipc k' = i'"
    by (auto simp: sys_send_def count_refused_def split: sum.splits option.splits if_splits) metis+
  have "msg_caps \<lparr>km_msg = m, km_cap = transfer\<rparr> \<subseteq> sched_caps (k_sched k)"
  proof (cases transfer)
    case None
    then show ?thesis by (simp add: msg_caps_def)
  next
    case (Some cp)
    with tr obtain h where h: "resolve_cap 0 h (k_sched k) = Some cp" by auto
    then obtain p where p: "current (k_sched k) 0 = Some p" by (auto simp: resolve_cap_def split: option.splits)
    then have "p < length (tasks (k_sched k))" using settled_current(1) ok by (auto simp: ksettled_def)
    from caps_resolved [OF h p this] Some show ?thesis by (simp add: msg_caps_def)
  qed
  with caps_ipc_send [OF eps sent] k' show ?thesis by (auto simp: held_caps_def)
qed

lemma held_caps_recv:
  assumes ok: "ksettled R k" and gs: "k_gs k 0 = outside_gs"
    and res: "sys_recv A 0 h handle ptr k = Some (r, k')"
  shows "held_caps k' \<subseteq> held_caps k"
proof (cases "endpoint_for 0 handle False k")
  case (Inl e)
  with res show ?thesis by (auto simp: sys_recv_def)
next
  case (Inr ep)
  obtain b k1 where w: "write_user_msg A 0 ptr (message_new A) k = (b, k1)"
    by (cases "write_user_msg A 0 ptr (message_new A) k") auto
  note sel = write_user_msg_sel [OF w]
  have eps: "endpoints_ok (k_ipc k)" using ok by (simp add: ksettled_def settled_ok_def sys_ok_def)
  show ?thesis
  proof (cases b)
    case False
    with res Inr w sel show ?thesis by (auto simp: sys_recv_def held_caps_def)
  next
    case True
    with res Inr w sel gs obtain q s' i' where got: "ipc_recv 0 ep (k_sched k) (k_ipc k) = Some (q, s', i')"
      by (auto simp: sys_recv_def split: option.splits)
    let ?k2 = "k1\<lparr>k_sched := s', k_ipc := i'\<rparr>"
    have base: "held_caps ?k2 \<subseteq> held_caps k" using caps_ipc_recv(1) [OF eps got] by (simp add: held_caps_def)
    show ?thesis
    proof (cases "\<exists>km. q = Returned (Inr km)")
      case False
      with res Inr w True sel gs got base show ?thesis
        by (auto simp: sys_recv_def Let_def held_caps_def split: flow.splits sum.splits)
    next
      case True
      then obtain km where km: "q = Returned (Inr km)" by blast
      obtain rc k3 where fin: "finish_recv A 0 h ptr km ?k2 = (rc, k3)"
        by (cases "finish_recv A 0 h ptr km ?k2") auto
      have "k' = k3" using res Inr w \<open>b\<close> sel gs got km fin by (auto simp: sys_recv_def Let_def)
      with held_caps_finish [OF fin] base caps_ipc_recv(2) [OF eps got km] show ?thesis
        by (auto simp: held_caps_def)
    qed
  qed
qed


lemma held_caps_sched: "sched_caps s' \<subseteq> sched_caps (k_sched k) \<Longrightarrow> k_sched k' = s' \<Longrightarrow> k_ipc k' = k_ipc k \<Longrightarrow>
    held_caps k' \<subseteq> held_caps k"
  by (auto simp: held_caps_def)

lemma held_caps_corrupt:
  "held_caps (k\<lparr>k_syscalls := n, k_arm_noncanonical := b,
     k_sched := upd_task t (\<lambda>x. x\<lparr>t_corrupt := corr\<rparr>) (k_sched k)\<rparr>) \<subseteq> held_caps k"
  by (rule held_caps_sched [OF caps_detail [of "\<lambda>x. x\<lparr>t_corrupt := corr\<rparr>" t "k_sched k"]]) (simp_all add: caps_same)

lemma held_caps_serve:
  assumes kok: "ksettled R k" "k_gs k 0 = inside_gs" and res: "serve_syscall A 0 h f k = Some (r, k')"
  shows "held_caps k' \<subseteq> held_caps k"
proof -
  have eps: "endpoints_ok (k_ipc k)" using kok by (simp add: ksettled_def settled_ok_def sys_ok_def)
  have sw: "ksettled R (swap_gs 0 k)" "k_gs (swap_gs 0 k) 0 = outside_gs" using kok by (simp_all add: ksettled_def)
  define call where "call = syscall_from_raw A (f_rax f)"
  note e = serve_syscall_def [of A 0 h f k, folded call_def]
  have ret: "held_caps (store_result 0 rc (swap_gs 0 k1)) \<subseteq> held_caps k" if "held_caps k1 \<subseteq> held_caps k" for rc k1
    using held_caps_store [of 0 rc "swap_gs 0 k1"] that by simp
  have ret': "held_caps (store_result 0 rc k1) \<subseteq> held_caps k" if "held_caps k1 \<subseteq> held_caps k" for rc k1
    using held_caps_store [of 0 rc k1] that by simp
  show ?thesis
  proof (cases call)
    case None
    with e res ret' [of "count_refused k"] show ?thesis by auto
  next
    case (Some no)
    show ?thesis
    proof (cases no)
      case Yield
      define k1 where "k1 = swap_gs 0 (store_result 0 0 (k\<lparr>k_yield_calls := k_yield_calls k + 1\<rparr>))"
      have k1: "held_caps k1 \<subseteq> held_caps k"
        using held_caps_store [of 0 0 "k\<lparr>k_yield_calls := k_yield_calls k + 1\<rparr>"] by (simp add: k1_def held_caps_def)
      obtain b s' where r: "reschedule (Syscall.me 0 k1) ResumeYield (k_sched k1) = (b, s')"
        by (cases "reschedule (Syscall.me 0 k1) ResumeYield (k_sched k1)") auto
      have "k_sched k' = s' \<and> k_ipc k' = k_ipc k1"
        using e res Some Yield r by (cases b) (auto simp: k1_def [symmetric])
      with held_caps_sched [OF caps_reschedule [OF r]] k1 show ?thesis by blast
    next
      case Exit
      then obtain s' i' where "exit_task (Syscall.me 0 (swap_gs 0 k)) (k_sched k) (k_ipc k) = Some (s', i')"
        "k_sched k' = s'" "k_ipc k' = i'" using e res Some
        by (cases "exit_task (Syscall.me 0 (swap_gs 0 k)) (k_sched k) (k_ipc k)") (auto simp: Let_def)
      with caps_exit_task [OF eps] show ?thesis by (auto simp: held_caps_def)
    next
      case DebugWrite
      obtain rc k1 where d: "debug_write A 0 (f_rdi f) (f_rsi f) k = (rc, k1)"
        by (cases "debug_write A 0 (f_rdi f) (f_rsi f) k") auto
      with debug_write_sel [OF d] ret' [of k1 rc] e res Some DebugWrite show ?thesis
        by (simp add: held_caps_def)
    next
      case Send
      with e res Some obtain q k1 where s: "sys_send A 0 (ucast (f_rdi f)) (f_rsi f) (swap_gs 0 k) = Some (q, k1)"
        by (auto split: option.splits)
      with e res Some Send have k': "k' = k1 \<or> (\<exists>rc. k' = store_result 0 rc (swap_gs 0 k1))"
        by (cases q) auto
      have "held_caps k1 \<subseteq> held_caps k" using held_caps_send [OF sw s] by simp
      with k' ret show ?thesis by blast
    next
      case Recv
      with e res Some obtain q k1 where s: "sys_recv A 0 h (ucast (f_rdi f)) (f_rsi f) (swap_gs 0 k) = Some (q, k1)"
        by (auto split: option.splits)
      with e res Some Recv have k': "k' = k1 \<or> (\<exists>rc. k' = store_result 0 rc (swap_gs 0 k1))"
        by (cases q) auto
      have "held_caps k1 \<subseteq> held_caps k" using held_caps_recv [OF sw s] by simp
      with k' ret show ?thesis by blast
    next
      case Revoke
      obtain rc k1 where d: "sys_revoke A 0 (ucast (f_rdi f)) k = (rc, k1)"
        by (cases "sys_revoke A 0 (ucast (f_rdi f)) k") auto
      with sys_revoke_sel [OF d] ret' [of k1 rc] e res Some Revoke show ?thesis
        by (simp add: held_caps_def)
    next
      case (OtherSyscall n)
      with e res Some ret' [of "count_refused k"] show ?thesis by auto
    qed
  qed
qed

lemma held_caps_on_syscall:
  assumes ok: "ksettled R k0" and gs: "k_gs k0 0 = inside_gs" and cur: "current (k_sched k0) 0 = Some t"
    and res: "on_syscall A 0 h k0 = Some (r, k')"
  shows "held_caps k' \<subseteq> held_caps k0"
proof -
  let ?k = "k0\<lparr>k_syscalls := k_syscalls k0 + 1, k_arm_noncanonical := False,
    k_sched := upd_task t (\<lambda>x. x\<lparr>t_corrupt := k_arm_noncanonical k0\<rparr>) (k_sched k0)\<rparr>"
  have "ksettled R ?k" "k_gs ?k 0 = inside_gs"
    using ok gs cur by (auto simp: ksettled_def intro!: task_detail_ok)
  from held_caps_serve [OF this] res cur have "held_caps k' \<subseteq> held_caps ?k" by (simp add: on_syscall_def Let_def)
  also have "\<dots> \<subseteq> held_caps k0" by (rule held_caps_corrupt)
  finally show ?thesis .
qed

lemma held_caps_resume_task:
  assumes ok: "ktransit R k0" and cur: "current (k_sched k0) 0 = Some t"
    and res: "resume_task A 0 h k0 = Some k'"
  shows "held_caps k' \<subseteq> held_caps k0"
proof -
  define k where "k = k0\<lparr>k_sched := post_switch 0 (k_sched k0)\<rparr>"
  have gs: "k_gs k 0 = outside_gs" and sys: "sys_ok R 0 True (k_sched k0) (k_ipc k0)"
    using ok by (simp_all add: k_def ktransit_def transit_ok_def)
  have post: "current (k_sched k) 0 = Some t" "sys_ok R 0 True (k_sched k) (k_ipc k)"
    using post_switch_ok [of R 0 "k_sched k0" "k_ipc k0"] ok cur by (simp_all add: k_def ktransit_def transit_ok_def)
  then have t: "t < length (tasks (k_sched k))" by (auto simp: sys_ok_def links_ok_def)
  have base: "held_caps k \<subseteq> held_caps k0"
    using sys by (intro held_caps_sched [OF caps_post_switch [of "k_sched k0" 0]])
      (auto simp: k_def sys_ok_def links_ok_def)
  have st: "held_caps (store_result 0 rc (swap_gs 0 k1)) \<subseteq> held_caps k1" for rc k1
    using held_caps_store [of 0 rc "swap_gs 0 k1"] by simp
  have "resume_task A 0 h k0 = continue_task A 0 h t k"
    using ok post(1) by (simp add: resume_task_def k_def [symmetric] Let_def ktransit_def)
  with res have go: "continue_task A 0 h t k = Some k'" by simp
  have "held_caps k' \<subseteq> held_caps k"
  proof (cases "t_ctx (tasks (k_sched k) ! t)")
    case ResumeRecv
    with go gs obtain km s' i' where r: "ipc_recv_resumed 0 (k_sched k) (k_ipc k) = Some (km, s', i')"
      by (cases "ipc_recv_resumed 0 (k_sched k) (k_ipc k)") (auto simp: continue_task_def)
    let ?k1 = "k\<lparr>k_sched := s', k_ipc := i'\<rparr>"
    obtain rc k2 where fin: "finish_recv A 0 h (f_rsi (t_frame (tasks s' ! t))) km ?k1 = (rc, k2)"
      by (cases "finish_recv A 0 h (f_rsi (t_frame (tasks s' ! t))) km ?k1") auto
    have k': "k' = snd (syscall_return 0 (store_result 0 rc (swap_gs 0 k2)))"
      using go gs ResumeRecv r fin by (simp add: continue_task_def)
    have tm: "take_mailbox 0 (k_sched k) = Some (km, s')" "endpoints i' = endpoints (k_ipc k)"
      using r by (auto simp: ipc_recv_resumed_def split: option.splits)
    have "held_caps ?k1 \<union> msg_caps km \<subseteq> held_caps k"
      using caps_wake(3) [OF tm(1)] caps_taken [OF tm(1) post(1) t] tm(2) by (auto simp: held_caps_def ipc_caps_def)
    with held_caps_finish [OF fin] st [of rc k2] show ?thesis unfolding k' by auto
  next
    case ResumeSend
    let ?k1 = "k\<lparr>k_ipc := (k_ipc k)\<lparr>sent := sent (k_ipc k) + 1\<rparr>\<rparr>"
    have "held_caps ?k1 = held_caps k" by (simp add: held_caps_def ipc_caps_def)
    moreover have "k' = snd (syscall_return 0 (store_result 0 (result_raw A (Inr ())) (swap_gs 0 ?k1)))"
      using go ResumeSend by (simp add: continue_task_def ipc_send_resumed_def)
    ultimately show ?thesis using st [of "result_raw A (Inr ())" ?k1] by (simp only: held_caps_swap)
  next
    case ResumeYield
    let ?k1 = "k\<lparr>k_sched := (k_sched k)\<lparr>yields := yields (k_sched k) + 1\<rparr>\<rparr>"
    have "held_caps ?k1 = held_caps k" by (simp add: held_caps_def sched_caps_def)
    moreover have "k' = snd (syscall_return 0 (swap_gs 0 ?k1))"
      using go ResumeYield by (simp add: continue_task_def)
    ultimately show ?thesis by (simp only: held_caps_swap)
  next
    case ResumePreempt
    with go have "k' = k\<lparr>k_sched := (k_sched k)\<lparr>preemptions := preemptions (k_sched k) + 1\<rparr>\<rparr>"
      by (simp add: continue_task_def)
    then show ?thesis by (simp add: held_caps_def sched_caps_def)
  next
    case ResumeFresh
    with go show ?thesis by (simp add: continue_task_def)
  qed
  with base show ?thesis by blast
qed

lemma held_caps_resume_context:
  assumes ok: "ktransit R k" and res: "resume_context A 0 h k = Some k'"
  shows "held_caps k' \<subseteq> held_caps k"
proof (cases "current (k_sched k) 0")
  case (Some t)
  with res held_caps_resume_task [OF ok Some] show ?thesis by (simp add: resume_context_def)
next
  case None
  let ?s = "k_sched k"
  have tr: "transit_ok R 0 ?s (k_ipc k)" and gs: "k_gs k 0 = outside_gs" using ok by (simp_all add: ktransit_def)
  with None have root: "kernel_root ?s = R" and sys: "sys_ok R 0 True ?s (k_ipc k)"
    by (simp_all add: transit_ok_def)
  have e: "enter 0 None (Some (kernel_root ?s)) ?s = ?s"
    using root sys None by (simp add: enter_def sys_ok_def regs_ok_def)
  have none: "first_ready (post_switch 0 ?s) = None"
    using post_switch_ok [OF tr] None by (simp add: first_ready_None transit_ok_def)
  have "k' = k\<lparr>k_sched := post_switch 0 ?s\<rparr>"
    using res None gs e none by (simp add: resume_context_def Let_def start_turn_def)
  then show ?thesis
    using sys by (intro held_caps_sched [OF caps_post_switch [of ?s 0]]) (auto simp: sys_ok_def links_ok_def)
qed


lemma held_caps_exit:
  assumes ok: "kernel_ok R k" and cur: "current (k_sched k) 0 = Some t"
    and res: "(case exit_task (Syscall.me 0 k) (k_sched k) (k_ipc k) of None \<Rightarrow> None
      | Some (s', i') \<Rightarrow> resume_context A 0 h (k\<lparr>k_sched := s', k_ipc := i'\<rparr>)) = Some k'"
  shows "held_caps k' \<subseteq> held_caps k"
proof -
  from ok have set: "settled_ok R 0 (k_sched k) (k_ipc k)" and gs: "k_gs k 0 = outside_gs"
    by (simp_all add: kernel_ok_def ksettled_def)
  then have eps: "endpoints_ok (k_ipc k)" by (simp add: settled_ok_def sys_ok_def)
  obtain s' i' where x: "exit_task 0 (k_sched k) (k_ipc k) = Some (s', i')" "transit_ok R 0 s' i'"
    using exit_task_ok [OF set cur] by blast
  let ?k1 = "k\<lparr>k_sched := s', k_ipc := i'\<rparr>"
  have "ktransit R ?k1" using x(2) gs by (simp add: ktransit_def)
  moreover have "resume_context A 0 h ?k1 = Some k'" using res x(1) gs by simp
  ultimately have "held_caps k' \<subseteq> held_caps ?k1" by (rule held_caps_resume_context)
  also have "\<dots> \<subseteq> held_caps k" using caps_exit_task [OF eps x(1)] by (simp add: held_caps_def)
  finally show ?thesis .
qed

lemma held_caps_spawn:
  "held_caps (snd (do_spawn 0 h base name space caps k)) \<subseteq> held_caps k \<union> {c. Some c \<in> set caps}"
  by (auto simp: do_spawn_def spawn_with_def held_caps_def sched_caps_def task_caps_def)

lemma held_caps_tick:
  assumes ok: "kernel_ok R k" and res: "do_tick A 0 h k = Some k'"
  shows "held_caps k' \<subseteq> held_caps k"
proof -
  let ?s = "(k_sched k)\<lparr>need_resched := (need_resched (k_sched k))(0 := False)\<rparr>"
  have set: "settled_ok R 0 ?s (k_ipc k)" and gs: "k_gs k 0 = outside_gs"
    using ok by (auto simp: kernel_ok_def ksettled_def intro: count_ok)
  obtain b s' where r: "reschedule 0 ResumePreempt ?s = (b, s')"
    by (cases "reschedule 0 ResumePreempt ?s") auto
  let ?k1 = "k\<lparr>k_sched := s'\<rparr>"
  have base: "held_caps ?k1 \<subseteq> held_caps k"
    using caps_reschedule [OF r] by (auto simp: held_caps_def sched_caps_def)
  have e: "(if b then resume_context A 0 h ?k1 else Some ?k1) = Some k'"
    using res r gs by (cases b) (simp_all add: do_tick_def on_irq_epilogue_def request_resched_def)
  show ?thesis
  proof (cases b)
    case True
    with reschedule_ok [OF set, of ResumePreempt] r gs have "ktransit R ?k1" by (simp add: ktransit_def)
    moreover have "resume_context A 0 h ?k1 = Some k'" using e True by simp
    ultimately have "held_caps k' \<subseteq> held_caps ?k1" by (rule held_caps_resume_context)
    with base show ?thesis by blast
  next
    case False
    with e have "k' = ?k1" by simp
    with base show ?thesis by (simp only:)
  qed
qed

lemma held_caps_start:
  assumes ok: "kernel_ok R k" and idle: "current (k_sched k) 0 = None" and res: "do_start A 0 h k = Some k'"
  shows "held_caps k' \<subseteq> held_caps k"
proof -
  have k: "settled_ok R 0 (k_sched k) (k_ipc k)" and gs: "k_gs k 0 = outside_gs"
    using ok by (simp_all add: kernel_ok_def ksettled_def)
  have root: "cr3 (k_sched k) 0 = R" using k idle by (simp add: settled_ok_def sys_ok_def regs_ok_def)
  let ?s = "(k_sched k)\<lparr>kernel_root := R\<rparr>"
  obtain b s1 where r: "start_turn 0 ?s = (b, s1)" by (cases "start_turn 0 ?s") auto
  let ?k1 = "k\<lparr>k_sched := s1\<rparr>"
  have base: "held_caps ?k1 \<subseteq> held_caps k"
    using caps_switches(1) [OF r] by (auto simp: held_caps_def sched_caps_def)
  have e: "(if b then resume_task A 0 h ?k1 else Some ?k1) = Some k'"
    using res r gs root by (cases b) (simp_all add: do_start_def Let_def)
  show ?thesis
  proof (cases b)
    case True
    with start_turn_ok [OF count_ok(2) [OF k idle]] r idle have tr: "transit_ok R 0 s1 (k_ipc k)"
      and "current s1 0 \<noteq> None" by simp_all
    then obtain t where t: "current (k_sched ?k1) 0 = Some t" by auto
    have "ktransit R ?k1" using tr gs by (simp add: ktransit_def)
    from held_caps_resume_task [OF this t] e True base show ?thesis by (metis (no_types) subset_trans)
  next
    case False
    with e have "k' = ?k1" by simp
    with base show ?thesis by (simp only:)
  qed
qed

lemma held_caps_syscall:
  assumes ok: "kernel_ok R k" and cur: "current (k_sched k) 0 = Some t" and res: "do_syscall A 0 h frame k = Some k'"
  shows "held_caps k' \<subseteq> held_caps k"
proof -
  let ?k = "swap_gs 0 (upd_frame 0 (\<lambda>_. frame) k)"
  have t: "current (k_sched ?k) 0 = Some t" using cur by simp
  have k: "ksettled R ?k" "k_gs ?k 0 = inside_gs"
    using ok upd_frame_ok [of R k] by (auto simp: kernel_ok_def ksettled_def)
  have s: "served R (on_syscall A 0 h ?k)" using on_syscall_ok [OF k t] .
  from res obtain v k1 where o: "on_syscall A 0 h ?k = Some (v, k1)"
    and r: "case v of Returned u \<Rightarrow> k' = snd (syscall_return 0 k1) | Switched \<Rightarrow> resume_context A 0 h k1 = Some k'"
    by (auto simp: do_syscall_def split: option.splits flow.splits)
  have base: "held_caps k1 \<subseteq> held_caps k"
    using held_caps_on_syscall [OF k t o] held_caps_frame [of 0 _ k] by auto
  show ?thesis
  proof (cases v)
    case (Returned u)
    with r base show ?thesis by simp
  next
    case Switched
    with s o have "ktransit R k1" by (simp add: served_def)
    moreover have "resume_context A 0 h k1 = Some k'" using Switched r by simp
    ultimately have "held_caps k' \<subseteq> held_caps k1" by (rule held_caps_resume_context)
    with base show ?thesis by blast
  qed
qed

lemma held_caps_step:
  assumes ok: "kernel_ok R k" and en: "op_enabled R x k" and st: "kernel_step A x k = Some k'"
  shows "held_caps k' \<subseteq> held_caps k \<union> granted_caps x"
proof (cases x)
  case (OpSpawn h base name space caps)
  with st held_caps_spawn [of h base name space caps k] show ?thesis by (simp add: granted_caps_def)
next
  case (OpSyscall h frame)
  with en obtain t where "current (k_sched k) 0 = Some t"
    by (auto simp: op_enabled_def in_user_def split: option.splits)
  with held_caps_syscall [OF ok] OpSyscall st show ?thesis by (auto simp: granted_caps_def)
next
  case (OpTick h)
  with held_caps_tick [OF ok] st show ?thesis by (auto simp: granted_caps_def)
next
  case (OpStart h)
  with held_caps_start [OF ok] en st show ?thesis by (auto simp: granted_caps_def op_enabled_def)
next
  case (OpFault h)
  with en obtain t where t: "current (k_sched k) 0 = Some t"
    by (auto simp: op_enabled_def in_user_def split: option.splits)
  let ?k = "k\<lparr>k_user_faults := k_user_faults k + 1\<rparr>"
  have "kernel_ok R ?k" "current (k_sched ?k) 0 = Some t" using ok t by (simp_all add: kernel_ok_def ksettled_def)
  moreover have "(case exit_task (Syscall.me 0 ?k) (k_sched ?k) (k_ipc ?k) of None \<Rightarrow> None
      | Some (s', i') \<Rightarrow> resume_context A 0 h (?k\<lparr>k_sched := s', k_ipc := i'\<rparr>)) = Some k'"
    using st OpFault by (simp add: do_user_fault_def Let_def)
  ultimately have "held_caps k' \<subseteq> held_caps ?k" by (rule held_caps_exit)
  then show ?thesis by (auto simp: held_caps_def)
next
  case (OpThreadExit h)
  with en obtain t where t: "current (k_sched k) 0 = Some t" by (auto simp: op_enabled_def)
  have "held_caps k' \<subseteq> held_caps k"
    using held_caps_exit [OF ok t] st OpThreadExit by (simp add: do_thread_exit_def)
  then show ?thesis by auto
qed (use st in \<open>auto simp: held_caps_def\<close>)

lemma held_caps_boot: "held_caps (kernel_boot zero R) = {}"
  by (auto simp: held_caps_def sched_caps_def ipc_caps_def kernel_boot_def ipc_init_def endpoint_caps_def
      endpoint_new_def ring_items_def send_items_def)

section \<open>Properties\<close>

text \<open>C3: Authority is confined: over any run, every capability that is in any task's table, or in flight
  in any message, with exactly the rights it carries, is one that was granted to some task when it was
  spawned. No sequence of system calls mints a capability or widens the rights of one.\<close>

theorem authority_confined:
  assumes "kernel_run A R zero xs k"
  shows "held_caps k \<subseteq> \<Union> (granted_caps ` set xs)"
  using assms
proof (induction rule: kernel_run.induct)
  case boot
  show ?case by (simp add: held_caps_boot)
next
  case (step xs k x k')
  from held_caps_step [OF run_ok [OF step.hyps(1)] step.hyps(2,3)] step.IH show ?case by auto
qed

theorem authority_confined_witness: "held_caps sample_kernel \<subseteq> {sample_cap}"
proof -
  have "\<Union> (granted_caps ` set sample_ops) = {sample_cap}"
    by (auto simp: sample_ops_def granted_caps_def)
  with authority_confined [OF sample_run] show ?thesis by simp
qed


text \<open>C17: A revocation reaches every holder at once: when the revoke system call succeeds, every handle of
  every task that names the same object, in whichever table and with whichever rights, stops working,
  and every handle that names another object behaves exactly as before.\<close>

theorem revocation_reaches_every_holder:
  fixes k :: "'m kernel"
  assumes "resolve_cap (Syscall.me c k) handle (k_sched k) = Some cp"
    and "get (cap_object cp) (k_objects k) \<noteq> None"
  shows "case sys_revoke A c handle k of (rc, k') \<Rightarrow> rc = 0 \<and>
    (\<forall>(k2 :: 'm kernel) c2 h2 want. k_objects k2 = k_objects k' \<longrightarrow>
      (case resolve_cap (Syscall.me c2 k2) h2 (k_sched k2) of
         None \<Rightarrow> endpoint_for c2 h2 want k2 = Inl BadHandle
       | Some cp2 \<Rightarrow>
           if cap_object cp2 = cap_object cp
           then endpoint_for c2 h2 want k2 = Inl BadHandle \<or> endpoint_for c2 h2 want k2 = Inl PermissionDenied
           else endpoint_for c2 h2 want k2 = endpoint_for c2 h2 want (k2\<lparr>k_objects := k_objects k\<rparr>)))"
proof -
  let ?r = "cap_object cp"
  have rv: "fst (revoke ?r (k_objects k))" using assms(2) by (auto simp: revoke_def get_def Let_def split: if_splits)
  let ?k' = "k\<lparr>k_objects := snd (revoke ?r (k_objects k)), k_revocations := k_revocations k + 1\<rparr>"
  have e: "sys_revoke A c handle k = (0, ?k')"
    using assms(1) rv by (cases "revoke ?r (k_objects k)") (simp add: sys_revoke_def)
  have del: "get r (snd (revoke ?r (k_objects k))) = (if r = ?r then None else get r (k_objects k))" for r
    by (auto simp: object_ref_eq revoke_def get_def Let_def nth_list_update)
  have me_same: "Syscall.me c2 (k2\<lparr>k_objects := x\<rparr>) = Syscall.me c2 k2" for c2 x and k2 :: "'m kernel"
    by (simp add: Syscall.me_def cpu_index_def)
  have all: "case resolve_cap (Syscall.me c2 k2) h2 (k_sched k2) of
         None \<Rightarrow> endpoint_for c2 h2 want k2 = Inl BadHandle
       | Some cp2 \<Rightarrow>
           if cap_object cp2 = ?r
           then endpoint_for c2 h2 want k2 = Inl BadHandle \<or> endpoint_for c2 h2 want k2 = Inl PermissionDenied
           else endpoint_for c2 h2 want k2 = endpoint_for c2 h2 want (k2\<lparr>k_objects := k_objects k\<rparr>)"
    if objs: "k_objects k2 = k_objects ?k'" for k2 :: "'m kernel" and c2 h2 want
  proof (cases "resolve_cap (Syscall.me c2 k2) h2 (k_sched k2)")
    case None
    then show ?thesis by (simp add: endpoint_for_def)
  next
    case (Some cp2)
    obtain obj snd_ok rcv_ok where cp2: "cp2 = EndpointCap obj snd_ok rcv_ok" by (cases cp2)
    have o: "k_objects k2 = snd (revoke ?r (k_objects k))" using objs by simp
    show ?thesis
      using Some by (simp add: endpoint_for_def cp2 cap_object_def [of "EndpointCap obj snd_ok rcv_ok"] me_same o del)
  qed
  show ?thesis unfolding e prod.case by (intro conjI refl allI impI) (rule all)
qed

theorem revocation_reaches_every_holder_witness:
  "fst (sys_revoke sample_abi 0 1 (sample_kernel\<lparr>k_objects := [\<lparr>generation = 0, slot_object = Some (EndpointObject 2)\<rparr>]\<rparr>)) = 0"
proof -
  let ?k = "sample_kernel\<lparr>k_objects := [\<lparr>generation = 0, slot_object = Some (EndpointObject 2)\<rparr>]\<rparr>"
  have me0: "Syscall.me 0 ?k = 0" using reachable_ok [OF sample_reachable] by simp
  have "t_caps (tasks (k_sched sample_kernel) ! 0) = map t_caps (tasks (k_sched sample_kernel)) ! 0"
    using sample_len by simp
  then have "t_caps (tasks (k_sched sample_kernel) ! 0) = [None, Some sample_cap]" using sample_sched by simp
  then have held: "resolve_cap (Syscall.me 0 ?k) 1 (k_sched ?k) = Some sample_cap"
    using me0 sample_sched by (simp add: resolve_cap_def resolve_def)
  have live: "get (cap_object sample_cap) (k_objects ?k) \<noteq> None"
    by (simp add: sample_cap_def cap_object_def get_def)
  obtain rc k' where e: "sys_revoke sample_abi 0 1 ?k = (rc, k')" by (cases "sys_revoke sample_abi 0 1 ?k")
  from revocation_reaches_every_holder [OF held live, of sample_abi] have "rc = 0"
    unfolding e prod.case by (rule conjunct1)
  with e show ?thesis by simp
qed

end
