(* ===== verification/Bytes.thy ===== *)
theory Bytes imports Prelude begin

text \<open>
  Byte slices: \<open>slice::get\<close> with a range, little-endian reads and writes, and fallible results as the
  code chains them with \<open>?\<close>, \<open>ok_or\<close> and early returns.
\<close>

type_synonym bytes = "u8 list"

section \<open>Results\<close>

text \<open>\<open>x.ok_or(e)\<close> and \<open>x?\<close> followed by the rest of the function.\<close>

definition ok_or :: "'e \<Rightarrow> 'a option \<Rightarrow> 'e + 'a" where
  "ok_or e x = (case x of None \<Rightarrow> Inl e | Some a \<Rightarrow> Inr a)"

definition and_then :: "'e + 'a \<Rightarrow> ('a \<Rightarrow> 'e + 'b) \<Rightarrow> 'e + 'b" where
  "and_then x f = (case x of Inl e \<Rightarrow> Inl e | Inr a \<Rightarrow> f a)"

lemma and_then_Inr: "and_then x f = Inr b \<longleftrightarrow> (\<exists>a. x = Inr a \<and> f a = Inr b)"
  by (cases x) (auto simp: and_then_def)

lemma and_then_simps [simp]: "and_then (Inl e) f = Inl e" "and_then (Inr a) f = f a"
  by (simp_all add: and_then_def)

lemma ok_or_Inr: "ok_or e x = Inr a \<longleftrightarrow> x = Some a"
  by (cases x) (auto simp: ok_or_def)

lemma ok_or_simps [simp]: "ok_or e None = Inl e" "ok_or e (Some a) = Inr a"
  by (simp_all add: ok_or_def)

section \<open>Ranges of a slice\<close>

text \<open>The \<open>n\<close> bytes from \<open>off\<close> on, and \<open>b.get(s..e)\<close>.\<close>

definition slice :: "nat \<Rightarrow> nat \<Rightarrow> 'a list \<Rightarrow> 'a list" where
  "slice off n xs = take n (drop off xs)"

definition get_range :: "'a list \<Rightarrow> u64 \<Rightarrow> u64 \<Rightarrow> 'a list option" where
  "get_range xs s e =
     (if s \<le> e \<and> unat e \<le> length xs then Some (slice (unat s) (unat e - unat s) xs) else None)"

lemma slice_take: "slice off n xs = drop off (take (off + n) xs)"
  by (simp add: slice_def drop_take)

lemma length_slice: "off + n \<le> length xs \<Longrightarrow> length (slice off n xs) = n"
  by (simp add: slice_def)

lemma slice_append:
  "off + n \<le> length xs \<Longrightarrow> slice off n (xs @ ys) = slice off n xs"
  "length xs \<le> off \<Longrightarrow> slice off n (xs @ ys) = slice (off - length xs) n ys"
  by (simp_all add: slice_def)

lemma slice_slice: "o2 + n2 \<le> n1 \<Longrightarrow> slice o2 n2 (slice o1 n1 xs) = slice (o1 + o2) n2 xs"
  by (simp add: slice_def drop_take min_def add.commute)

lemma get_range_Some: "get_range xs s e = Some ys \<longleftrightarrow>
    s \<le> e \<and> unat e \<le> length xs \<and> ys = slice (unat s) (unat e - unat s) xs"
  by (auto simp: get_range_def)

text \<open>\<open>xs[off .. off + n].copy_from_slice(bs)\<close> with \<open>n\<close> the length of \<open>bs\<close>.\<close>

definition put :: "nat \<Rightarrow> 'a list \<Rightarrow> 'a list \<Rightarrow> 'a list" where
  "put off bs xs = take off xs @ bs @ drop (off + length bs) xs"

lemma length_put [simp]: "off + length bs \<le> length xs \<Longrightarrow> length (put off bs xs) = length xs"
  by (simp add: put_def)

lemma slice_put_same: "off + length bs \<le> length xs \<Longrightarrow> n = length bs \<Longrightarrow> slice off n (put off bs xs) = bs"
  by (simp add: slice_def put_def)

lemma slice_put_below: "off + length bs \<le> length xs \<Longrightarrow> o2 + n \<le> off \<Longrightarrow> slice o2 n (put off bs xs) = slice o2 n xs"
  by (simp add: slice_take put_def min_absorb2)

lemma slice_put_above:
  assumes "off + length bs \<le> length xs" "off + length bs \<le> o2"
  shows "slice o2 n (put off bs xs) = slice o2 n xs"
proof -
  have "drop o2 (put off bs xs) = drop o2 xs" using assms by (simp add: put_def)
  then show ?thesis by (simp add: slice_def)
qed

lemmas slice_put = slice_put_same slice_put_below slice_put_above

lemma nth_slice: "i < n \<Longrightarrow> off + n \<le> length xs \<Longrightarrow> slice off n xs ! i = xs ! (off + i)"
  by (simp add: slice_def)

lemma nth_as_slice: "i < length xs \<Longrightarrow> xs ! i = hd (slice i 1 xs)"
  by (simp add: slice_def hd_drop_conv_nth take_Suc)

section \<open>Little-endian integers\<close>

fun from_le :: "bytes \<Rightarrow> nat" where
  "from_le [] = 0"
| "from_le (b # bs) = unat b + 256 * from_le bs"

fun to_le :: "nat \<Rightarrow> nat \<Rightarrow> bytes" where
  "to_le 0 x = []"
| "to_le (Suc n) x = word_of_nat (x mod 256) # to_le n (x div 256)"

lemma length_to_le [simp]: "length (to_le n x) = n"
  by (induction n arbitrary: x) auto

lemma from_to_le: "from_le (to_le n x) = x mod 256 ^ n"
proof (induction n arbitrary: x)
  case (Suc n)
  have "unat (word_of_nat (x mod 256) :: u8) = x mod 256"
    by (rule unat_word_of_nat_small) (simp add: mod_less_divisor)
  then show ?case by (simp add: Suc mod_mult2_eq)
qed simp

lemma from_le_bound: "from_le bs < 256 ^ length bs"
proof (induction bs)
  case (Cons b bs)
  have "unat b < 256" using unat_less_width [of b] by simp
  with Cons show ?case by simp
qed simp

lemma to_from_le: "to_le (length bs) (from_le bs) = bs"
proof (induction bs)
  case (Cons b bs)
  have "unat b < 256" using unat_less_width [of b] by simp
  then show ?case using Cons by simp
qed simp

text \<open>\<open>b.get(off..off.checked_add(n)?)?\<close>, converted with \<open>from_le_bytes\<close>.\<close>

definition read_le :: "nat \<Rightarrow> bytes \<Rightarrow> u64 \<Rightarrow> nat option" where
  "read_le n b off =
     (case checked_add off (word_of_nat n) of
        None \<Rightarrow> None
      | Some e \<Rightarrow> map_option from_le (get_range b off e))"

lemma read_le_Some:
  assumes "n < 2 ^ 64"
  shows "read_le n b off = Some x \<longleftrightarrow>
    unat off + n < 2 ^ 64 \<and> unat off + n \<le> length b \<and> x = from_le (slice (unat off) n b)"
proof -
  have n: "unat (word_of_nat n :: u64) = n" using assms by (simp add: unat_word_of_nat_small)
  show ?thesis
  proof (cases "unat off + n < 2 ^ 64")
    case True
    then have c: "checked_add off (word_of_nat n) = Some (off + word_of_nat n)"
      and u: "unat (off + word_of_nat n) = unat off + n"
      using n by (simp_all add: checked_add_def unat_add_exact)
    have "off \<le> off + word_of_nat n" using u by (simp add: word_le_nat_alt)
    then show ?thesis using True c u by (auto simp: read_le_def get_range_def)
  next
    case False
    then show ?thesis using n by (auto simp: read_le_def checked_add_def)
  qed
qed

lemma unat_ucast_u8: "unat (ucast w :: u64) = unat w" for w :: u8
  using unat_less_width [of w] by (simp add: unsigned_ucast_eq take_bit_nat_eq_self)

lemma unat_ucast_u16: "unat (ucast w :: u64) = unat w" for w :: u16
  using unat_less_width [of w] by (simp add: unsigned_ucast_eq take_bit_nat_eq_self)

lemma unat_ucast_u32: "unat (ucast w :: u64) = unat w" for w :: u32
  using unat_less_width [of w] by (simp add: unsigned_ucast_eq take_bit_nat_eq_self)

lemma read_le_in: "n < 2 ^ 64 \<Longrightarrow> unat off + n < 2 ^ 64 \<Longrightarrow> unat off + n \<le> length b \<Longrightarrow>
    read_le n b off = Some (from_le (slice (unat off) n b))"
  by (simp add: read_le_Some)

end
