(* ===== verification/Elf64.thy ===== *)
theory Elf64 imports Bytes begin

text \<open>
  The program-header parser the loader reads the kernel image with, \<open>crates/elf64/src/lib.rs\<close>: header
  validation, the walk over the \<open>PT_LOAD\<close> segments, and the block of memory they need. An image is the
  list of its bytes and a \<open>usize\<close> is a 64-bit word. The builder of the file's tests is modelled too: it
  is the encoder the parser is checked against.
\<close>

section \<open>Constants, errors and rights\<close>

definition PT_LOAD :: u32 where "PT_LOAD = 1"
definition EM_X86_64 :: u16 where "EM_X86_64 = 62"
definition ET_EXEC :: u16 where "ET_EXEC = 2"
definition ELF_PAGE_SIZE :: u64 where "ELF_PAGE_SIZE = 4096"
definition PF_X :: u32 where "PF_X = 1"
definition PF_W :: u32 where "PF_W = 2"
definition PF_R :: u32 where "PF_R = 4"

datatype elf_error = NotElf | NotElf64 | NotLittleEndian | WrongMachine | WrongType | TruncatedHeader
  | TruncatedProgramHeaders | SegmentOutOfImage | FileLargerThanMemory | UnalignedSegment
  | NoLoadableSegments | SpanOverflow

record elf_rights =
  er_read :: bool
  er_write :: bool
  er_exec :: bool

definition rights_from_flags :: "u32 \<Rightarrow> elf_rights" where
  "rights_from_flags flags = \<lparr>er_read = (flags AND PF_R \<noteq> 0), er_write = (flags AND PF_W \<noteq> 0),
     er_exec = (flags AND PF_X \<noteq> 0)\<rparr>"

definition elf_is_wx :: "elf_rights \<Rightarrow> bool" where
  "elf_is_wx r \<longleftrightarrow> er_write r \<and> er_exec r"

record segment =
  sg_vaddr :: u64
  sg_file :: bytes
  sg_memsz :: u64
  sg_rights :: elf_rights

definition segment_pages :: "segment \<Rightarrow> u64" where
  "segment_pages s = (let m = sg_memsz s in m div ELF_PAGE_SIZE + (if m mod ELF_PAGE_SIZE = 0 then 0 else 1))"

definition elf_read_u16 :: "bytes \<Rightarrow> u64 \<Rightarrow> u16 option" where
  "elf_read_u16 b off = map_option word_of_nat (read_le 2 b off)"

definition elf_read_u32 :: "bytes \<Rightarrow> u64 \<Rightarrow> u32 option" where
  "elf_read_u32 b off = map_option word_of_nat (read_le 4 b off)"

definition elf_read_u64 :: "bytes \<Rightarrow> u64 \<Rightarrow> u64 option" where
  "elf_read_u64 b off = map_option word_of_nat (read_le 8 b off)"

section \<open>The header\<close>

record elf =
  e_image :: bytes
  e_entry :: u64
  e_phoff :: u64
  e_phentsize :: u64
  e_phnum :: u64

definition elf_parse :: "bytes \<Rightarrow> elf_error + elf" where
  "elf_parse img =
     (if length img < 64 then Inl TruncatedHeader
      else if get_range img 0 4 \<noteq> Some [0x7F, 0x45, 0x4C, 0x46] then Inl NotElf
      else if img ! 4 \<noteq> 2 then Inl NotElf64
      else if img ! 5 \<noteq> 1 then Inl NotLittleEndian
      else if elf_read_u16 img 16 \<noteq> Some ET_EXEC then Inl WrongType
      else if elf_read_u16 img 18 \<noteq> Some EM_X86_64 then Inl WrongMachine
      else
        and_then (ok_or TruncatedHeader (elf_read_u64 img 24)) (\<lambda>entry.
        and_then (ok_or TruncatedHeader (elf_read_u64 img 32)) (\<lambda>phoff.
        and_then (ok_or TruncatedHeader (map_option ucast (elf_read_u16 img 54))) (\<lambda>phentsize.
        and_then (ok_or TruncatedHeader (map_option ucast (elf_read_u16 img 56))) (\<lambda>phnum.
          if phentsize < 56 then Inl TruncatedProgramHeaders
          else
            and_then (ok_or TruncatedProgramHeaders (checked_mul phentsize phnum)) (\<lambda>table_len.
            and_then (ok_or TruncatedProgramHeaders (checked_add phoff table_len)) (\<lambda>table_end.
              if unat table_end > length img then Inl TruncatedProgramHeaders
              else Inr \<lparr>e_image = img, e_entry = entry, e_phoff = phoff, e_phentsize = phentsize,
                         e_phnum = phnum\<rparr>)))))))"

section \<open>The segments\<close>

record segments =
  ss_image :: bytes
  ss_phoff :: u64
  ss_phentsize :: u64
  ss_phnum :: u64
  ss_index :: u64

definition elf_segments :: "elf \<Rightarrow> segments" where
  "elf_segments e = \<lparr>ss_image = e_image e, ss_phoff = e_phoff e, ss_phentsize = e_phentsize e,
     ss_phnum = e_phnum e, ss_index = 0\<rparr>"

text \<open>The body of the loop of \<open>Segments::next\<close> for the program header at \<open>ph\<close>: \<open>None\<close> is \<open>continue\<close>.\<close>

definition header_item :: "bytes \<Rightarrow> u64 \<Rightarrow> (elf_error + segment) option" where
  "header_item img ph =
     (case (elf_read_u32 img ph, elf_read_u32 img (ph + 4)) of
        (Some p_type, Some p_flags) \<Rightarrow>
          if p_type \<noteq> PT_LOAD then None
          else
            (case (elf_read_u64 img (ph + 8), elf_read_u64 img (ph + 16),
                   elf_read_u64 img (ph + 32), elf_read_u64 img (ph + 40)) of
               (Some offset, Some vaddr, Some filesz, Some memsz) \<Rightarrow>
                 Some (if filesz > memsz then Inl FileLargerThanMemory
                       else if \<not> is_multiple_of vaddr ELF_PAGE_SIZE then Inl UnalignedSegment
                       else
                         (case checked_add offset filesz of
                            None \<Rightarrow> Inl SegmentOutOfImage
                          | Some fin \<Rightarrow>
                              (case get_range img offset fin of
                                 None \<Rightarrow> Inl SegmentOutOfImage
                               | Some file \<Rightarrow>
                                   Inr \<lparr>sg_vaddr = vaddr, sg_file = file, sg_memsz = memsz,
                                         sg_rights = rights_from_flags p_flags\<rparr>)))
             | _ \<Rightarrow> Some (Inl TruncatedProgramHeaders))
      | _ \<Rightarrow> Some (Inl TruncatedProgramHeaders))"

definition left_over :: "segments \<Rightarrow> nat" where
  "left_over s = unat (ss_phnum s) - unat (ss_index s)"

lemma index_step: "(i :: u64) < n \<Longrightarrow> unat (i + 1) = Suc (unat i)"
  using unat_add_exact [of i 1] unat_less_width [of n] by (simp add: word_less_nat_alt)

function segments_next :: "segments \<Rightarrow> (elf_error + segment) option \<times> segments" where
  "segments_next s =
     (if ss_index s < ss_phnum s then
        let ph = ss_phoff s + ss_index s * ss_phentsize s;
            s' = s\<lparr>ss_index := ss_index s + 1\<rparr>
        in case header_item (ss_image s) ph of
             Some item \<Rightarrow> (Some item, s')
           | None \<Rightarrow> segments_next s'
      else (None, s))"
  by pat_completeness auto

termination
  by (relation "measure left_over") (auto simp: left_over_def index_step word_less_nat_alt)

declare segments_next.simps [simp del]

lemma segments_next_left: "segments_next s = (Some x, s') \<Longrightarrow> left_over s' < left_over s"
proof (induction s rule: segments_next.induct)
  case (1 s)
  then have lt: "ss_index s < ss_phnum s"
    by (auto simp: segments_next.simps [of s] split: if_splits)
  then have step: "left_over (s\<lparr>ss_index := ss_index s + 1\<rparr>) < left_over s"
    by (simp add: left_over_def index_step word_less_nat_alt)
  show ?case
  proof (cases "header_item (ss_image s) (ss_phoff s + ss_index s * ss_phentsize s)")
    case None
    then have "left_over s' < left_over (s\<lparr>ss_index := ss_index s + 1\<rparr>)"
      using "1.IH" [OF lt refl refl] "1.prems" lt by (simp add: segments_next.simps [of s])
    with step show ?thesis by simp
  next
    case (Some y)
    then have "s' = s\<lparr>ss_index := ss_index s + 1\<rparr>"
      using "1.prems" lt by (simp add: segments_next.simps [of s])
    with step show ?thesis by simp
  qed
qed

text \<open>The items a \<open>for\<close> loop over the iterator sees.\<close>

function segment_items :: "segments \<Rightarrow> (elf_error + segment) list" where
  "segment_items s =
     (case segments_next s of
        (None, s') \<Rightarrow> []
      | (Some x, s') \<Rightarrow> x # segment_items s')"
  by pat_completeness auto
termination
  by (relation "measure left_over") (auto dest: segments_next_left [OF sym])

declare segment_items.simps [simp del]

section \<open>The span of the image\<close>

function span_loop :: "segments \<Rightarrow> u64 \<Rightarrow> u64 \<Rightarrow> elf_error + u64 \<times> u64" where
  "span_loop s lo hi =
     (case segments_next s of
        (None, s') \<Rightarrow> Inr (lo, hi)
      | (Some item, s') \<Rightarrow>
          and_then item (\<lambda>seg.
          and_then (ok_or SpanOverflow (checked_add (sg_vaddr seg) (sg_memsz seg))) (\<lambda>fin.
            span_loop s' (min lo (sg_vaddr seg)) (max hi fin))))"
  by pat_completeness auto
termination
  by (relation "measure (\<lambda>(s, lo, hi). left_over s)") (auto dest: segments_next_left [OF sym])

declare span_loop.simps [simp del]

definition load_span :: "elf \<Rightarrow> elf_error + u64 \<times> u64" where
  "load_span e =
     and_then (span_loop (elf_segments e) (- 1) 0) (\<lambda>(lo, hi).
       if lo = - 1 then Inl NoLoadableSegments
       else
         and_then (ok_or SpanOverflow (checked_next_multiple_of hi ELF_PAGE_SIZE)) (\<lambda>hi'.
           Inr (lo, hi' - lo)))"


section \<open>The walk as a list\<close>

lemma segment_items_step: "segment_items s =
    (if ss_index s < ss_phnum s then
       (case header_item (ss_image s) (ss_phoff s + ss_index s * ss_phentsize s) of
          None \<Rightarrow> segment_items (s\<lparr>ss_index := ss_index s + 1\<rparr>)
        | Some x \<Rightarrow> x # segment_items (s\<lparr>ss_index := ss_index s + 1\<rparr>))
     else [])"
  by (subst segment_items.simps, subst segments_next.simps)
    (auto simp: Let_def segment_items.simps [of "s\<lparr>ss_index := ss_index s + 1\<rparr>"] split: option.split)

lemma segment_items_filter: "segment_items s =
    List.map_filter (\<lambda>i. header_item (ss_image s) (ss_phoff s + word_of_nat i * ss_phentsize s))
      [unat (ss_index s) ..< unat (ss_phnum s)]"
proof (induction "left_over s" arbitrary: s rule: less_induct)
  case less
  show ?case
  proof (cases "ss_index s < ss_phnum s")
    case False
    then show ?thesis by (subst segment_items_step) (simp add: map_filter_def word_less_nat_alt)
  next
    case True
    let ?s = "s\<lparr>ss_index := ss_index s + 1\<rparr>"
    have "left_over ?s < left_over s"
      using True by (simp add: left_over_def index_step word_less_nat_alt)
    note ih = less [OF this]
    have "[unat (ss_index s) ..< unat (ss_phnum s)] = unat (ss_index s) # [unat (ss_index ?s) ..< unat (ss_phnum ?s)]"
      using True by (simp add: upt_conv_Cons index_step word_less_nat_alt)
    then show ?thesis
      using ih True by (subst segment_items_step) (simp add: map_filter_simps split: option.split)
  qed
qed

text \<open>The loop of \<open>load_span\<close> over the list of items.\<close>

fun span_items :: "(elf_error + segment) list \<Rightarrow> u64 \<Rightarrow> u64 \<Rightarrow> elf_error + u64 \<times> u64" where
  "span_items [] lo hi = Inr (lo, hi)"
| "span_items (x # xs) lo hi =
     and_then x (\<lambda>seg.
     and_then (ok_or SpanOverflow (checked_add (sg_vaddr seg) (sg_memsz seg))) (\<lambda>fin.
       span_items xs (min lo (sg_vaddr seg)) (max hi fin)))"

lemma span_loop_items: "span_loop s lo hi = span_items (segment_items s) lo hi"
proof (induction s lo hi rule: span_loop.induct)
  case (1 s lo hi)
  obtain x s' where n: "segments_next s = (x, s')" by fastforce
  show ?case
  proof (cases x)
    case None
    with n show ?thesis by (simp add: span_loop.simps [of s] segment_items.simps [of s])
  next
    case (Some item)
    show ?thesis
      using n Some 1 [OF n [symmetric, unfolded Some] refl]
      by (cases item; cases "checked_add (sg_vaddr (projr item)) (sg_memsz (projr item))")
        (auto simp: span_loop.simps [of s] segment_items.simps [of s])
  qed
qed


section \<open>What a parsed image guarantees\<close>

text \<open>The program-header table lies inside the file.\<close>

definition table_inside :: "elf \<Rightarrow> bool" where
  "table_inside e \<longleftrightarrow> 56 \<le> unat (e_phentsize e)
     \<and> unat (e_phoff e) + unat (e_phentsize e) * unat (e_phnum e) \<le> length (e_image e)"

lemma elf_parse_ok:
  assumes "elf_parse img = Inr e"
  shows "e_image e = img" "table_inside e"
proof -
  from assms obtain phoff phentsize phnum l fin where
    p: "\<not> phentsize < 56" "checked_mul phentsize phnum = Some l" "checked_add phoff l = Some fin"
      "unat fin \<le> length img"
    and e: "e_image e = img" "e_phoff e = phoff" "e_phentsize e = phentsize" "e_phnum e = phnum"
    by (auto simp: elf_parse_def and_then_Inr ok_or_Inr split: if_splits)
  have "unat l = unat phentsize * unat phnum" "unat fin = unat phoff + unat l"
    using p by (auto dest: checked_mul_unat checked_add_unat)
  then show "e_image e = img" "table_inside e"
    using p e by (auto simp: table_inside_def word_less_nat_alt)
qed

lemma header_address:
  assumes t: "table_inside e" and i: "i < unat (e_phnum e)" and len: "length (e_image e) < 2 ^ 64"
  shows "unat (e_phoff e + word_of_nat i * e_phentsize e) = unat (e_phoff e) + i * unat (e_phentsize e)"
    and "unat (e_phoff e) + i * unat (e_phentsize e) + 56 \<le> length (e_image e)"
proof -
  let ?s = "unat (e_phentsize e)"
  have "Suc i * ?s \<le> unat (e_phnum e) * ?s" using i by (intro mult_le_mono1) simp
  then have b: "unat (e_phoff e) + i * ?s + 56 \<le> length (e_image e)"
    using t by (simp add: table_inside_def mult.commute)
  then show "unat (e_phoff e) + i * ?s + 56 \<le> length (e_image e)" .
  have ui: "unat (word_of_nat i :: u64) = i"
    using i unat_less_width [of "e_phnum e"] by (intro unat_word_of_nat_small) simp
  have "unat (word_of_nat i * e_phentsize e) = i * ?s"
    using unat_mul_exact [of "word_of_nat i" "e_phentsize e"] ui b len by simp
  then show "unat (e_phoff e + word_of_nat i * e_phentsize e) = unat (e_phoff e) + i * ?s"
    using unat_add_exact [of "e_phoff e" "word_of_nat i * e_phentsize e"] b len by simp
qed

lemma elf_segment_items: "segment_items (elf_segments e) =
    List.map_filter (\<lambda>i. header_item (e_image e) (e_phoff e + word_of_nat i * e_phentsize e))
      [0 ..< unat (e_phnum e)]"
  by (simp add: segment_items_filter elf_segments_def)

lemma map_filter_cong_set: "(\<And>x. x \<in> set xs \<Longrightarrow> f x = g x) \<Longrightarrow> List.map_filter f xs = List.map_filter g xs"
  by (induction xs) (simp_all add: map_filter_simps cong: option.case_cong)

lemma map_filter_set: "x \<in> set (List.map_filter f xs) \<longleftrightarrow> (\<exists>a \<in> set xs. f a = Some x)"
  by (force simp: map_filter_def image_iff)

text \<open>What one program header inside the file yields, in terms of its fields.\<close>

definition field :: "nat \<Rightarrow> bytes \<Rightarrow> nat \<Rightarrow> nat" where
  "field n img off = from_le (slice off n img)"

definition header_fields :: "bytes \<Rightarrow> nat \<Rightarrow> (elf_error + segment) option" where
  "header_fields img p =
     (let vaddr = word_of_nat (field 8 img (p + 16)); memsz = word_of_nat (field 8 img (p + 40));
          off = field 8 img (p + 8); filesz = field 8 img (p + 32) in
      if field 4 img p \<noteq> 1 then None
      else Some (if field 8 img (p + 40) < filesz then Inl FileLargerThanMemory
        else if \<not> 4096 dvd field 8 img (p + 16) then Inl UnalignedSegment
        else if \<not> off + filesz < 2 ^ 64 \<or> \<not> off + filesz \<le> length img then Inl SegmentOutOfImage
        else Inr \<lparr>sg_vaddr = vaddr, sg_file = slice off filesz img, sg_memsz = memsz,
          sg_rights = rights_from_flags (word_of_nat (field 4 img (p + 4)))\<rparr>))"

lemma field_bound: "off + n \<le> length img \<Longrightarrow> field n img off < 256 ^ n"
  unfolding field_def using from_le_bound [of "slice off n img"] by (simp add: length_slice)

lemma header_item_fields:
  assumes p: "unat ph + 56 \<le> length img" and len: "length img < 2 ^ 64"
  shows "header_item img ph = header_fields img (unat ph)"
proof -
  have r: "read_le n img (ph + word_of_nat d) = Some (field n img (unat ph + d))" if "d + n \<le> 56" for n d
  proof -
    have "unat (ph + word_of_nat d) = unat ph + d"
      using unat_add_exact [of ph "word_of_nat d"] p len that by (simp add: unat_word_of_nat_small)
    then show ?thesis unfolding field_def using p len that by (simp add: read_le_in)
  qed
  note r0 = r [of 0 4, simplified] r [of 4 4, simplified] r [of 8 8, simplified] r [of 16 8, simplified]
    r [of 32 8, simplified] r [of 40 8, simplified]
  have b: "field 4 img (unat ph) < 2 ^ 32" "field 8 img (unat ph + 8) < 2 ^ 64"
    "field 8 img (unat ph + 16) < 2 ^ 64" "field 8 img (unat ph + 32) < 2 ^ 64" "field 8 img (unat ph + 40) < 2 ^ 64"
    using field_bound [of "unat ph" 4 img] field_bound [of "unat ph + 8" 8 img] field_bound [of "unat ph + 16" 8 img]
      field_bound [of "unat ph + 32" 8 img] field_bound [of "unat ph + 40" 8 img] p by simp_all
  have ty: "(word_of_nat (field 4 img (unat ph)) = PT_LOAD) = (field 4 img (unat ph) = 1)"
    using b(1) by (simp add: PT_LOAD_def word_unat_eq_iff unat_word_of_nat_small)
  have u: "unat (word_of_nat (field 8 img (unat ph + d)) :: u64) = field 8 img (unat ph + d)" if "d + 8 \<le> 56" for d
    using field_bound [of "unat ph + d" 8 img] p that by (intro unat_word_of_nat_small) simp
  show ?thesis
    unfolding header_item_def elf_read_u32_def elf_read_u64_def r0 header_fields_def Let_def
    by (auto simp: ty u word_less_nat_alt word_le_nat_alt is_multiple_of_dvd ELF_PAGE_SIZE_def checked_add_def
        get_range_def unat_add_exact)
qed


section \<open>The test builder: an encoder\<close>

record builder =
  bl_entry :: u64
  bl_machine :: u16
  bl_etype :: u16
  bl_class :: u8
  bl_data :: u8
  bl_magic :: bytes
  bl_phentsize :: u16
  bl_phdrs :: "(u32 \<times> u32 \<times> u64 \<times> u64 \<times> u64 \<times> u64) list"
  bl_tail :: bytes

definition builder_new :: builder where
  "builder_new = \<lparr>bl_entry = 0xFFFFFFFF80000000, bl_machine = EM_X86_64, bl_etype = ET_EXEC, bl_class = 2,
     bl_data = 1, bl_magic = [0x7F, 0x45, 0x4C, 0x46], bl_phentsize = 56, bl_phdrs = [], bl_tail = []\<rparr>"

definition builder_load :: "u64 \<Rightarrow> u64 \<Rightarrow> u64 \<Rightarrow> u64 \<Rightarrow> u32 \<Rightarrow> builder \<Rightarrow> builder" where
  "builder_load offset vaddr filesz memsz flags b =
     b\<lparr>bl_phdrs := bl_phdrs b @ [(PT_LOAD, flags, offset, vaddr, filesz, memsz)]\<rparr>"

definition builder_note :: "u64 \<Rightarrow> u64 \<Rightarrow> builder \<Rightarrow> builder" where
  "builder_note offset filesz b = b\<lparr>bl_phdrs := bl_phdrs b @ [(4, PF_R, offset, 0, filesz, filesz)]\<rparr>"

definition phdr_bytes :: "u16 \<Rightarrow> u32 \<times> u32 \<times> u64 \<times> u64 \<times> u64 \<times> u64 \<Rightarrow> bytes" where
  "phdr_bytes sz h =
     (case h of (ty, flags, offset, vaddr, filesz, memsz) \<Rightarrow>
        let ph0 = replicate 56 0;
            ph1 = put 0 (to_le 4 (unat ty)) ph0;
            ph2 = put 4 (to_le 4 (unat flags)) ph1;
            ph3 = put 8 (to_le 8 (unat offset)) ph2;
            ph4 = put 16 (to_le 8 (unat vaddr)) ph3;
            ph5 = put 24 (to_le 8 (unat vaddr)) ph4;
            ph6 = put 32 (to_le 8 (unat filesz)) ph5;
            ph7 = put 40 (to_le 8 (unat memsz)) ph6;
            ph8 = put 48 (to_le 8 (unat ELF_PAGE_SIZE)) ph7
        in take (unat sz) ph8 @ replicate (unat sz - length ph8) 0)"

definition header_bytes :: "builder \<Rightarrow> bytes" where
  "header_bytes b =
     (let out0 = replicate 64 0;
          out1 = put 0 (bl_magic b) out0;
          out2 = put 4 [bl_class b] out1;
          out3 = put 5 [bl_data b] out2;
          out4 = put 6 [1] out3;
          out5 = put 16 (to_le 2 (unat (bl_etype b))) out4;
          out6 = put 18 (to_le 2 (unat (bl_machine b))) out5;
          out7 = put 20 (to_le 4 1) out6;
          out8 = put 24 (to_le 8 (unat (bl_entry b))) out7;
          out9 = put 32 (to_le 8 64) out8;
          out10 = put 52 (to_le 2 64) out9;
          out11 = put 54 (to_le 2 (unat (bl_phentsize b))) out10
      in put 56 (to_le 2 (unat (word_of_nat (length (bl_phdrs b)) :: u16))) out11)"

definition build :: "builder \<Rightarrow> bytes" where
  "build b = header_bytes b @ concat (map (phdr_bytes (bl_phentsize b)) (bl_phdrs b)) @ bl_tail b"

text \<open>What the parser must find for a program header the builder was given.\<close>

definition phdr_item :: "bytes \<Rightarrow> u32 \<times> u32 \<times> u64 \<times> u64 \<times> u64 \<times> u64 \<Rightarrow> (elf_error + segment) option" where
  "phdr_item img h =
     (case h of (ty, flags, offset, vaddr, filesz, memsz) \<Rightarrow>
        if ty \<noteq> 1 then None
        else Some (if memsz < filesz then Inl FileLargerThanMemory
          else if \<not> 4096 dvd unat vaddr then Inl UnalignedSegment
          else if length img < unat offset + unat filesz then Inl SegmentOutOfImage
          else Inr \<lparr>sg_vaddr = vaddr, sg_file = slice (unat offset) (unat filesz) img, sg_memsz = memsz,
            sg_rights = rights_from_flags flags\<rparr>))"

lemma length_phdr_bytes: "length (phdr_bytes sz h) = unat sz"
  by (cases h) (simp add: phdr_bytes_def Let_def min_def)

lemma slice_in_concat:
  assumes "\<forall>x \<in> set xss. length x = k" "i < length xss" "d + n \<le> k"
  shows "slice (i * k + d) n (concat xss @ ys) = slice d n (xss ! i)"
  using assms
proof (induction xss arbitrary: i)
  case (Cons x xss)
  show ?case
  proof (cases i)
    case 0
    then show ?thesis using Cons.prems by (simp add: slice_append)
  next
    case (Suc j)
    have "slice (i * k + d) n (concat (x # xss) @ ys) = slice (j * k + d) n (concat xss @ ys)"
      using Cons.prems Suc by (simp add: slice_append)
    then show ?thesis using Cons Suc by simp
  qed
qed simp

lemma phdr_field:
  assumes "56 \<le> unat sz"
  shows "field 4 (phdr_bytes sz (ty, flags, offset, vaddr, filesz, memsz)) 0 = unat ty"
    "field 4 (phdr_bytes sz (ty, flags, offset, vaddr, filesz, memsz)) 4 = unat flags"
    "field 8 (phdr_bytes sz (ty, flags, offset, vaddr, filesz, memsz)) 8 = unat offset"
    "field 8 (phdr_bytes sz (ty, flags, offset, vaddr, filesz, memsz)) 16 = unat vaddr"
    "field 8 (phdr_bytes sz (ty, flags, offset, vaddr, filesz, memsz)) 32 = unat filesz"
    "field 8 (phdr_bytes sz (ty, flags, offset, vaddr, filesz, memsz)) 40 = unat memsz"
  using assms unat_less_width [of ty] unat_less_width [of flags] unat_less_width [of offset]
    unat_less_width [of vaddr] unat_less_width [of filesz] unat_less_width [of memsz]
  by (simp_all add: field_def phdr_bytes_def Let_def slice_append slice_put from_to_le)


definition builder_ok :: "builder \<Rightarrow> bool" where
  "builder_ok b \<longleftrightarrow> bl_magic b = [0x7F, 0x45, 0x4C, 0x46] \<and> bl_class b = 2 \<and> bl_data b = 1
     \<and> bl_etype b = ET_EXEC \<and> bl_machine b = EM_X86_64 \<and> 56 \<le> unat (bl_phentsize b)
     \<and> length (bl_phdrs b) < 2 ^ 16"

lemma header_slices:
  assumes "length (bl_magic b) = 4"
  shows "length (header_bytes b) = 64" "slice 0 4 (header_bytes b) = bl_magic b"
    "slice 4 1 (header_bytes b) = [bl_class b]" "slice 5 1 (header_bytes b) = [bl_data b]"
    "slice 16 2 (header_bytes b) = to_le 2 (unat (bl_etype b))"
    "slice 18 2 (header_bytes b) = to_le 2 (unat (bl_machine b))"
    "slice 24 8 (header_bytes b) = to_le 8 (unat (bl_entry b))"
    "slice 32 8 (header_bytes b) = to_le 8 64"
    "slice 54 2 (header_bytes b) = to_le 2 (unat (bl_phentsize b))"
    "slice 56 2 (header_bytes b) = to_le 2 (unat (word_of_nat (length (bl_phdrs b)) :: u16))"
  using assms by (simp_all add: header_bytes_def Let_def slice_put)

lemma build_read:
  assumes "length (bl_magic b) = 4" "off + n \<le> 64" "n \<le> 8"
  shows "read_le n (build b) (word_of_nat off) = Some (from_le (slice off n (header_bytes b)))"
proof -
  have "unat (word_of_nat off :: u64) = off" using assms by (intro unat_word_of_nat_small) simp
  then show ?thesis
    using assms header_slices(1) [OF assms(1)] by (simp add: read_le_in build_def slice_append)
qed

lemma length_phdrs: "length (concat (map (phdr_bytes sz) hs)) = length hs * unat sz"
  by (induction hs) (auto simp: length_phdr_bytes)

lemma length_build: "length (bl_magic b) = 4 \<Longrightarrow>
    length (build b) = 64 + length (bl_phdrs b) * unat (bl_phentsize b) + length (bl_tail b)"
  by (simp add: build_def length_phdrs header_slices(1))

definition built :: "builder \<Rightarrow> elf" where
  "built b = \<lparr>e_image = build b, e_entry = bl_entry b, e_phoff = 64,
     e_phentsize = ucast (bl_phentsize b), e_phnum = word_of_nat (length (bl_phdrs b))\<rparr>"

lemma parse_build:
  assumes ok: "builder_ok b" and len: "length (build b) < 2 ^ 63"
  shows "elf_parse (build b) = Inr (built b)"
proof -
  have m: "length (bl_magic b) = 4" using ok by (simp add: builder_ok_def)
  note sl = header_slices [OF m]
  note rd = build_read [OF m, of 16 2, simplified] build_read [OF m, of 18 2, simplified]
    build_read [OF m, of 24 8, simplified] build_read [OF m, of 32 8, simplified]
    build_read [OF m, of 54 2, simplified] build_read [OF m, of 56 2, simplified]
  have l64: "64 \<le> length (build b)" using sl(1) by (simp add: build_def)
  have g: "get_range (build b) 0 4 = Some (bl_magic b)"
    using l64 sl(1,2) by (simp add: get_range_def build_def slice_append)
  have n: "build b ! 4 = bl_class b" "build b ! 5 = bl_data b"
  proof -
    have "build b ! i = header_bytes b ! i" if "i < 64" for i
      using that sl(1) by (simp add: build_def nth_append)
    then show "build b ! 4 = bl_class b" "build b ! 5 = bl_data b"
      using sl(1,3,4) nth_as_slice [of 4 "header_bytes b"] nth_as_slice [of 5 "header_bytes b"] by simp_all
  qed
  have u16: "unat (w :: u16) mod 65536 = unat w" for w using unat_less_width [of w] by simp
  have np: "unat (word_of_nat (length (bl_phdrs b)) :: u16) = length (bl_phdrs b)"
    using ok by (simp add: builder_ok_def unat_word_of_nat_small)
  have len2: "length (build b) = 64 + length (bl_phdrs b) * unat (bl_phentsize b) + length (bl_tail b)"
    by (rule length_build [OF m])
  have sz: "unat (ucast (bl_phentsize b) :: u64) = unat (bl_phentsize b)" by (rule unat_ucast_u16)
  have ph: "unat (word_of_nat (length (bl_phdrs b)) :: u64) = length (bl_phdrs b)"
    using ok by (simp add: builder_ok_def unat_word_of_nat_small)
  let ?l = "ucast (bl_phentsize b) * word_of_nat (length (bl_phdrs b)) :: u64"
  have mul: "unat ?l = unat (bl_phentsize b) * length (bl_phdrs b)"
    "checked_mul (ucast (bl_phentsize b)) (word_of_nat (length (bl_phdrs b))) = Some ?l"
    using unat_mul_exact [of "ucast (bl_phentsize b)" "word_of_nat (length (bl_phdrs b)) :: u64"] sz ph len len2
    by (simp_all add: checked_mul_def mult.commute)
  have add: "unat (64 + ?l) = 64 + unat ?l" "checked_add 64 ?l = Some (64 + ?l)"
    using unat_add_exact [of 64 ?l] mul(1) len len2 by (simp_all add: checked_add_def mult.commute)
  have e16: "elf_read_u16 (build b) 16 = Some (bl_etype b)" "elf_read_u16 (build b) 18 = Some (bl_machine b)"
    "elf_read_u16 (build b) 54 = Some (bl_phentsize b)"
    "elf_read_u16 (build b) 56 = Some (word_of_nat (length (bl_phdrs b)))"
    using rd sl by (simp_all add: elf_read_u16_def from_to_le u16)
  have e64: "elf_read_u64 (build b) 24 = Some (bl_entry b)" "elf_read_u64 (build b) 32 = Some 64"
    using rd sl unat_less_width [of "bl_entry b"] by (simp_all add: elf_read_u64_def from_to_le)
  have c: "ucast (word_of_nat (length (bl_phdrs b)) :: u16) = (word_of_nat (length (bl_phdrs b)) :: u64)"
    unfolding word_unat_eq_iff unat_ucast_u16 np ph ..
  show ?thesis
    unfolding elf_parse_def e16 e64 g n
    using ok l64 sz mul add len2 by (simp add: builder_ok_def built_def c word_less_nat_alt)
qed


lemma build_header_fields:
  assumes ok: "builder_ok b" and i: "i < length (bl_phdrs b)" and len: "length (build b) < 2 ^ 63"
  shows "header_fields (build b) (64 + i * unat (bl_phentsize b)) = phdr_item (build b) (bl_phdrs b ! i)"
proof -
  obtain ty flags offset vaddr filesz memsz where h: "bl_phdrs b ! i = (ty, flags, offset, vaddr, filesz, memsz)"
    by (cases "bl_phdrs b ! i") auto
  let ?p = "64 + i * unat (bl_phentsize b)"
  have sz: "56 \<le> unat (bl_phentsize b)" and m: "length (bl_magic b) = 4" using ok by (auto simp: builder_ok_def)
  have f: "field n (build b) (?p + d) = field n (phdr_bytes (bl_phentsize b) (ty, flags, offset, vaddr, filesz, memsz)) d"
    if "d + n \<le> 56" for n d
  proof -
    have "slice (?p + d) n (build b) = slice (i * unat (bl_phentsize b) + d) n
        (concat (map (phdr_bytes (bl_phentsize b)) (bl_phdrs b)) @ bl_tail b)"
      using header_slices(1) [OF m] by (simp add: build_def slice_append)
    also have "\<dots> = slice d n (phdr_bytes (bl_phentsize b) (bl_phdrs b ! i))"
      using i sz that by (subst slice_in_concat) (auto simp: length_phdr_bytes)
    finally show ?thesis by (simp add: field_def h)
  qed
  have ff: "field 4 (build b) ?p = unat ty" "field 4 (build b) (?p + 4) = unat flags"
    "field 8 (build b) (?p + 8) = unat offset" "field 8 (build b) (?p + 16) = unat vaddr"
    "field 8 (build b) (?p + 32) = unat filesz" "field 8 (build b) (?p + 40) = unat memsz"
    using f [of 0 4] f [of 4 4] f [of 8 8] f [of 16 8] f [of 32 8] f [of 40 8] phdr_field [OF sz] by simp_all
  have one: "unat ty = 1 \<longleftrightarrow> ty = 1" by (metis unat_1 word_unat_eq_iff)
  show ?thesis
    unfolding header_fields_def phdr_item_def h Let_def ff
    using len by (simp add: one [simplified] word_less_nat_alt)
qed

lemma map_filter_cong_nth:
  "(\<And>i. i < length xs \<Longrightarrow> f i = g (xs ! i)) \<Longrightarrow> List.map_filter f [0 ..< length xs] = List.map_filter g xs"
proof (induction xs rule: rev_induct)
  case (snoc x xs)
  have "List.map_filter f [0 ..< length xs] = List.map_filter g xs"
    using snoc.prems by (intro snoc.IH) (metis length_append_singleton less_SucI nth_append)
  moreover have "f (length xs) = g x" using snoc.prems [of "length xs"] by simp
  ultimately show ?case by (simp add: map_filter_def)
qed (simp add: map_filter_def)

lemma build_items:
  assumes "builder_ok b" and "length (build b) < 2 ^ 63"
  shows "unat (e_phnum (built b)) = length (bl_phdrs b)"
    and "segment_items (elf_segments (built b)) = List.map_filter (phdr_item (build b)) (bl_phdrs b)"
proof -
  let ?e = "built b"
  have e: "e_image ?e = build b" "e_phoff ?e = 64" "e_phentsize ?e = ucast (bl_phentsize b)"
    "e_phnum ?e = word_of_nat (length (bl_phdrs b))"
    by (simp_all add: built_def)
  note t = elf_parse_ok(2) [OF parse_build [OF assms]]
  show n: "unat (e_phnum ?e) = length (bl_phdrs b)"
    using assms(1) by (simp add: e builder_ok_def unat_word_of_nat_small)
  have "header_item (e_image ?e) (e_phoff ?e + word_of_nat i * e_phentsize ?e) = phdr_item (build b) (bl_phdrs b ! i)"
    if i: "i < length (bl_phdrs b)" for i
  proof -
    have l: "length (e_image ?e) < 2 ^ 64" using assms(2) e by simp
    note a = header_address [OF t _ l, of i, unfolded n, OF i]
    have "header_item (e_image ?e) (e_phoff ?e + word_of_nat i * e_phentsize ?e) =
        header_fields (e_image ?e) (unat (e_phoff ?e + word_of_nat i * e_phentsize ?e))"
      by (rule header_item_fields) (use a l in simp_all)
    then show ?thesis
      using a(1) build_header_fields [OF assms(1) i assms(2)] by (simp add: e unat_ucast_u16)
  qed
  then show "segment_items (elf_segments ?e) = List.map_filter (phdr_item (build b)) (bl_phdrs b)"
    unfolding elf_segment_items n by (rule map_filter_cong_nth)
qed

text \<open>C36: Parsing an image the builder wrote gives back what went in: the entry point, the program-header
  table, and, walking the segments, for each header in order nothing if it is not \<open>PT_LOAD\<close> and otherwise
  its segment with the bytes, sizes and rights it was given, or the error that header deserves.\<close>

theorem elf_roundtrip:
  assumes "builder_ok b" and "length (build b) < 2 ^ 63"
  shows "\<exists>e. elf_parse (build b) = Inr e \<and> e_entry e = bl_entry b
    \<and> unat (e_phnum e) = length (bl_phdrs b)
    \<and> segment_items (elf_segments e) = List.map_filter (phdr_item (build b)) (bl_phdrs b)"
  using parse_build [OF assms] build_items [OF assms] by (intro exI [of _ "built b"]) (simp add: built_def)

definition sample_image :: builder where
  "sample_image = (builder_load 176 0x1000 4 8 5 (builder_note 176 0 builder_new))\<lparr>bl_tail := [1, 2, 3, 4]\<rparr>"

lemmas sample_image_defs = sample_image_def builder_load_def builder_note_def builder_new_def

lemma sample_image_ok: "builder_ok sample_image" "length (build sample_image) = 180"
  by (simp_all add: builder_ok_def length_build sample_image_defs)

lemma sample_image_tail: "slice 176 4 (build sample_image) = [1, 2, 3, 4]"
proof -
  have "slice 176 4 (build sample_image) = slice 0 4 (bl_tail sample_image)"
    using header_slices(1) [of sample_image]
    by (simp add: build_def slice_append length_phdrs sample_image_defs del: concat.simps list.map)
  then show ?thesis by (simp add: sample_image_defs slice_def)
qed

definition sample_segment :: segment where
  "sample_segment = \<lparr>sg_vaddr = 0x1000, sg_file = [1, 2, 3, 4], sg_memsz = 8,
     sg_rights = \<lparr>er_read = True, er_write = False, er_exec = True\<rparr>\<rparr>"

lemma sample_phdr_items:
  "List.map_filter (phdr_item (build sample_image)) (bl_phdrs sample_image) = [Inr sample_segment]"
  using sample_image_tail sample_image_ok(2)
  by (simp add: phdr_item_def map_filter_def PT_LOAD_def rights_from_flags_def PF_R_def PF_W_def PF_X_def
      sample_image_defs sample_segment_def)

lemma sample_parse: "elf_parse (build sample_image) = Inr (built sample_image)"
  using parse_build [OF sample_image_ok(1)] sample_image_ok(2) by simp

lemma sample_items: "segment_items (elf_segments (built sample_image)) = [Inr sample_segment]"
  using build_items(2) [OF sample_image_ok(1)] sample_image_ok(2) sample_phdr_items by simp

theorem elf_roundtrip_witness:
  "\<exists>e. elf_parse (build sample_image) = Inr e \<and> segment_items (elf_segments e) = [Inr sample_segment]"
  using elf_roundtrip [OF sample_image_ok(1)] sample_image_ok(2) sample_phdr_items by auto

section \<open>Hostile images\<close>

text \<open>Walking the segments of any accepted image reads nothing outside it and never computes an address
  that wraps: it is the list of what each entry of the program-header table, at its place inside the
  file, says. The error that the walk keeps for a truncated table cannot occur.\<close>

theorem elf_walk_exact:
  assumes "elf_parse img = Inr e" and "length img < 2 ^ 63"
  shows "segment_items (elf_segments e) =
      List.map_filter (\<lambda>i. header_fields img (unat (e_phoff e) + i * unat (e_phentsize e))) [0 ..< unat (e_phnum e)]
    \<and> Inl TruncatedProgramHeaders \<notin> set (segment_items (elf_segments e))
    \<and> unat (e_phoff e) + unat (e_phnum e) * unat (e_phentsize e) \<le> length img"
proof -
  note p = elf_parse_ok [OF assms(1)]
  have l: "length (e_image e) < 2 ^ 64" using assms(2) p by simp
  have "header_item (e_image e) (e_phoff e + word_of_nat i * e_phentsize e) =
      header_fields img (unat (e_phoff e) + i * unat (e_phentsize e))" if "i < unat (e_phnum e)" for i
    using header_item_fields [of "e_phoff e + word_of_nat i * e_phentsize e" "e_image e"]
      header_address [OF p(2) that l] l p(1) by simp
  then have items: "segment_items (elf_segments e) =
      List.map_filter (\<lambda>i. header_fields img (unat (e_phoff e) + i * unat (e_phentsize e))) [0 ..< unat (e_phnum e)]"
    unfolding elf_segment_items by (intro map_filter_cong_set) simp
  have "header_fields img q \<noteq> Some (Inl TruncatedProgramHeaders)" for q
    by (simp add: header_fields_def Let_def)
  then show ?thesis
    unfolding items using p by (auto simp: map_filter_set table_inside_def mult.commute)
qed

theorem elf_walk_exact_witness:
  "Inl TruncatedProgramHeaders \<notin> set (segment_items (elf_segments (built sample_image)))"
  proof -
  have "length (build sample_image) < 2 ^ 63" using sample_image_ok(2) by simp
  from elf_walk_exact [OF sample_parse this] show ?thesis by blast
qed

text \<open>Every segment the loader is handed is safe to place: its bytes are a part of the file, there
  are no more of them than the memory the segment asks for, and it starts on a page boundary; what is not
  so is an error with its reason.\<close>

theorem elf_segments_sound:
  assumes "elf_parse img = Inr e" and "length img < 2 ^ 63" and "item \<in> set (segment_items (elf_segments e))"
  shows "case item of
      Inl err \<Rightarrow> err = FileLargerThanMemory \<or> err = UnalignedSegment \<or> err = SegmentOutOfImage
    | Inr s \<Rightarrow> (\<exists>off. off + length (sg_file s) \<le> length img \<and> sg_file s = slice off (length (sg_file s)) img)
        \<and> length (sg_file s) \<le> unat (sg_memsz s) \<and> 4096 dvd unat (sg_vaddr s)"
proof -
  note p = elf_parse_ok [OF assms(1)]
  have l: "length (e_image e) < 2 ^ 64" using assms(2) p by simp
  from assms(3) obtain i where i: "i < unat (e_phnum e)"
    and it: "header_item (e_image e) (e_phoff e + word_of_nat i * e_phentsize e) = Some item"
    unfolding elf_segment_items map_filter_set by auto
  let ?q = "unat (e_phoff e) + i * unat (e_phentsize e)"
  note a = header_address [OF p(2) i l]
  have f: "header_fields img ?q = Some item"
    using it header_item_fields [of "e_phoff e + word_of_nat i * e_phentsize e" "e_image e"] a l p(1) by simp
  have b: "field 8 img (?q + 16) < 2 ^ 64" "field 8 img (?q + 40) < 2 ^ 64"
    using field_bound [of "?q + 16" 8 img] field_bound [of "?q + 40" 8 img] a(2) p(1) by simp_all
  show ?thesis
  proof (cases item)
    case (Inl err)
    then show ?thesis using f by (auto simp: header_fields_def Let_def split: if_splits)
  next
    case (Inr s)
    then have s: "sg_file s = slice (field 8 img (?q + 8)) (field 8 img (?q + 32)) img"
      "sg_vaddr s = word_of_nat (field 8 img (?q + 16))" "sg_memsz s = word_of_nat (field 8 img (?q + 40))"
      "field 8 img (?q + 8) + field 8 img (?q + 32) \<le> length img"
      "4096 dvd field 8 img (?q + 16)" "field 8 img (?q + 32) \<le> field 8 img (?q + 40)"
      using f by (auto simp: header_fields_def Let_def split: if_splits)
    have n: "length (sg_file s) = field 8 img (?q + 32)" using s by (simp add: length_slice)
    have "unat (sg_vaddr s) = field 8 img (?q + 16)" "unat (sg_memsz s) = field 8 img (?q + 40)"
      unfolding s(2,3) using b by (simp_all add: unat_word_of_nat_small)
    then show ?thesis using s n Inr by auto
  qed
qed

theorem elf_segments_sound_witness: "4096 dvd unat (sg_vaddr sample_segment)"
  using elf_segments_sound [OF sample_parse, of "Inr sample_segment"] sample_image_ok(2) sample_items by simp

text \<open>No item is an error, and every segment lies whole between two addresses.\<close>

definition spans :: "(elf_error + segment) list \<Rightarrow> u64 \<Rightarrow> nat \<Rightarrow> bool" where
  "spans xs lo fin \<longleftrightarrow> (\<forall>x \<in> set xs. case x of Inl e \<Rightarrow> False
     | Inr s \<Rightarrow> lo \<le> sg_vaddr s \<and> unat (sg_vaddr s) + unat (sg_memsz s) \<le> fin)"

lemma span_items_ok:
  assumes "span_items xs lo hi = Inr (l, h)"
  shows "spans xs l (unat h) \<and> l \<le> lo \<and> hi \<le> h
    \<and> (l = lo \<or> (\<exists>s. Inr s \<in> set xs \<and> sg_vaddr s = l))
    \<and> (h = hi \<or> (\<exists>s. Inr s \<in> set xs \<and> unat h = unat (sg_vaddr s) + unat (sg_memsz s)))"
  using assms
proof (induction xs arbitrary: lo hi)
  case (Cons x xs)
  from Cons.prems obtain s fin where s: "x = Inr s" "checked_add (sg_vaddr s) (sg_memsz s) = Some fin"
    and r: "span_items xs (min lo (sg_vaddr s)) (max hi fin) = Inr (l, h)"
    by (auto simp: and_then_Inr ok_or_Inr)
  have u: "unat fin = unat (sg_vaddr s) + unat (sg_memsz s)" using s(2) by (rule checked_add_unat)
  note ih = Cons.IH [OF r]
  have "l \<le> sg_vaddr s" "fin \<le> h" "l \<le> lo" "hi \<le> h" using ih by (auto simp: min_def max_def split: if_splits)
  then have "spans (x # xs) l (unat h)"
    using ih s(1) u by (simp add: spans_def word_le_nat_alt)
  moreover have "l = lo \<or> (\<exists>s. Inr s \<in> set (x # xs) \<and> sg_vaddr s = l)"
    using ih s(1) by (auto simp: min_def split: if_splits)
  moreover have "h = hi \<or> (\<exists>s. Inr s \<in> set (x # xs) \<and> unat h = unat (sg_vaddr s) + unat (sg_memsz s))"
    using ih s(1) u by (auto simp: max_def split: if_splits)
  ultimately show ?case using \<open>l \<le> lo\<close> \<open>hi \<le> h\<close> by blast
qed (auto simp: spans_def)

lemma header_item_aligned: "header_item img ph = Some (Inr s) \<Longrightarrow> is_multiple_of (sg_vaddr s) ELF_PAGE_SIZE"
  by (auto simp: header_item_def split: option.splits if_splits)

lemma item_aligned: "Inr s \<in> set (segment_items (elf_segments e)) \<Longrightarrow> 4096 dvd unat (sg_vaddr s)"
  unfolding elf_segment_items map_filter_set
  by (auto simp: is_multiple_of_dvd ELF_PAGE_SIZE_def dest!: header_item_aligned)

text \<open>The block \<open>load_span\<close> reports is exactly what the image needs: page-aligned at both ends, not
  wrapping, containing every segment whole, starting where the lowest one starts and reaching less than a
  page past the highest end; and an answer means that no segment was malformed.\<close>

theorem load_span_exact:
  assumes "load_span e = Inr (base, len)"
  defines "items \<equiv> segment_items (elf_segments e)"
  shows "spans items base (unat base + unat len)
    \<and> unat base + unat len < 2 ^ 64 \<and> 4096 dvd unat base \<and> 4096 dvd unat len
    \<and> (\<exists>s. Inr s \<in> set items \<and> sg_vaddr s = base)
    \<and> (\<exists>s. Inr s \<in> set items \<and> unat base + unat len < unat (sg_vaddr s) + unat (sg_memsz s) + 4096)"
proof -
  from assms(1) obtain h h' where r: "span_items items (- 1) 0 = Inr (base, h)" and ne: "base \<noteq> - 1"
    and h': "checked_next_multiple_of h ELF_PAGE_SIZE = Some h'" and len: "len = h' - base"
    by (auto simp: load_span_def span_loop_items items_def and_then_Inr ok_or_Inr split: if_splits prod.splits)
  note ok = span_items_ok [OF r]
  note up = checked_next_multiple_of_Some [OF h', unfolded ELF_PAGE_SIZE_def, simplified]
  obtain s where s: "Inr s \<in> set items" "sg_vaddr s = base" using ok ne by auto
  have fin: "unat (sg_vaddr s) + unat (sg_memsz s) \<le> unat h" using ok s(1) by (force simp: spans_def)
  then have "base \<le> h'" using s(2) up(2) by (simp add: word_le_nat_alt)
  then have b: "unat base + unat len = unat h'" using len by (simp add: unat_sub word_le_nat_alt)
  have al: "4096 dvd unat base" using item_aligned s unfolding items_def by blast
  then have "4096 dvd unat len" using up(1) b by (metis dvd_add_right_iff)
  moreover have "spans items base (unat h')"
    using ok up(2) unfolding spans_def by (force split: sum.splits)
  moreover have "\<exists>s. Inr s \<in> set items \<and> unat h' < unat (sg_vaddr s) + unat (sg_memsz s) + 4096"
  proof (cases "h = 0")
    case True
    then show ?thesis using s up(3) by (intro exI [of _ s]) simp
  next
    case False
    then show ?thesis using ok up(3) by force
  qed
  ultimately show ?thesis using b al s unat_less_width [of h'] by auto
qed

lemma sample_span: "load_span (built sample_image) = Inr (0x1000, 0x1000)"
  by (simp add: load_span_def span_loop_items sample_items sample_segment_def checked_add_def
      checked_next_multiple_of_def ELF_PAGE_SIZE_def)

theorem load_span_exact_witness:
  "spans (segment_items (elf_segments (built sample_image))) 0x1000 0x2000"
  using load_span_exact [OF sample_span] by simp

end
