(* ===== verification/BootInfo.thy ===== *)
theory BootInfo imports Bytes begin

text \<open>
  The hand-off from the loader to the kernel, \<open>crates/bootinfo/src/lib.rs\<close>: the structure itself and its
  validation, the summary of a memory map, and the free runs left when the memory already in use is
  carved out of it. Addresses are 64-bit words; the array \<open>out\<close> that \<open>free_runs\<close> works in is a list of
  pairs whose length never changes.
\<close>

section \<open>The structure\<close>

definition PHYS_MAP_BASE :: u64 where "PHYS_MAP_BASE = 0xFFFF800000000000"
definition KERNEL_VMA :: u64 where "KERNEL_VMA = 0xFFFFFFFF80000000"

definition phys_to_virt :: "u64 \<Rightarrow> u64" where
  "phys_to_virt phys = saturating_add PHYS_MAP_BASE phys"

datatype memory_kind = Usable | Reserved | AcpiReclaimable | AcpiNvs | LoaderReclaimable | BadMemory

definition usable_at_boot :: "memory_kind \<Rightarrow> bool" where
  "usable_at_boot k \<longleftrightarrow> k = Usable"

record memory_region =
  mr_start :: u64
  mr_len :: u64
  mr_kind :: memory_kind

definition region_new :: "u64 \<Rightarrow> u64 \<Rightarrow> memory_kind \<Rightarrow> memory_region" where
  "region_new start len kind = \<lparr>mr_start = start, mr_len = len, mr_kind = kind\<rparr>"

definition region_end :: "memory_region \<Rightarrow> u64" where
  "region_end r = saturating_add (mr_start r) (mr_len r)"

definition region_contains :: "memory_region \<Rightarrow> u64 \<Rightarrow> bool" where
  "region_contains r addr \<longleftrightarrow> mr_start r \<le> addr \<and> addr < region_end r"

datatype pixel_format = Bgrx8888 | Rgbx8888

record framebuffer =
  fb_phys :: u64
  fb_width :: u32
  fb_height :: u32
  fb_stride :: u32
  fb_bpp :: u32
  fb_format :: pixel_format

definition framebuffer_new :: "u64 \<Rightarrow> u32 \<Rightarrow> u32 \<Rightarrow> u32 \<Rightarrow> pixel_format \<Rightarrow> framebuffer" where
  "framebuffer_new phys width height stride fmt =
     \<lparr>fb_phys = phys, fb_width = width, fb_height = height, fb_stride = stride, fb_bpp = 32, fb_format = fmt\<rparr>"

definition framebuffer_bytes :: "framebuffer \<Rightarrow> u64" where
  "framebuffer_bytes f = ucast (fb_height f) * ucast (fb_stride f)"

text \<open>\<open>self.width * 4\<close> is a 32-bit product: it wraps in the release build.\<close>

definition is_sane :: "framebuffer \<Rightarrow> bool" where
  "is_sane f \<longleftrightarrow> fb_phys f \<noteq> 0 \<and> 0 < fb_width f \<and> 0 < fb_height f \<and> fb_width f * 4 \<le> fb_stride f"

record boot_info =
  bi_magic :: u64
  bi_version :: u32
  bi_memory_map_len :: u32
  bi_memory_map :: u64
  bi_framebuffer :: framebuffer
  bi_rsdp :: u64
  bi_initrd :: u64
  bi_initrd_len :: u64
  bi_kernel_phys :: u64
  bi_kernel_len :: u64

datatype boot_info_error = BadMagic | BadVersion | NoMemoryMap

definition BOOT_MAGIC :: u64 where
  "BOOT_MAGIC = word_of_nat (from_le [0x53, 0x54, 0x41, 0x52, 0x4F, 0x53, 0x50, 0x43])"

definition BOOT_VERSION :: u32 where "BOOT_VERSION = 1"

definition validate :: "boot_info \<Rightarrow> boot_info_error + unit" where
  "validate b =
     (if bi_magic b \<noteq> BOOT_MAGIC then Inl BadMagic
      else if bi_version b \<noteq> BOOT_VERSION then Inl BadVersion
      else if bi_memory_map b = 0 \<or> bi_memory_map_len b = 0 then Inl NoMemoryMap
      else Inr ())"

definition boot_framebuffer :: "boot_info \<Rightarrow> framebuffer option" where
  "boot_framebuffer b = (if is_sane (bi_framebuffer b) then Some (bi_framebuffer b) else None)"

definition boot_initrd :: "boot_info \<Rightarrow> (u64 \<times> u64) option" where
  "boot_initrd b =
     (if bi_initrd b \<noteq> 0 \<and> bi_initrd_len b \<noteq> 0 then Some (bi_initrd b, bi_initrd_len b) else None)"

section \<open>Summary of a memory map\<close>

record memory_stats =
  ms_usable_bytes :: u64
  ms_total_bytes :: u64
  ms_largest_usable :: "(u64 \<times> u64) option"
  ms_highest_address :: u64
  ms_highest_ram :: u64

definition memory_stats_default :: memory_stats where
  "memory_stats_default = \<lparr>ms_usable_bytes = 0, ms_total_bytes = 0, ms_largest_usable = None,
     ms_highest_address = 0, ms_highest_ram = 0\<rparr>"

text \<open>The body of the loop of \<open>summarise\<close>.\<close>

definition summarise_region :: "memory_region \<Rightarrow> memory_stats \<Rightarrow> memory_stats" where
  "summarise_region r s =
     (if mr_len r = 0 then s
      else
        let s1 = s\<lparr>ms_total_bytes := saturating_add (ms_total_bytes s) (mr_len r)\<rparr>;
            s2 = s1\<lparr>ms_highest_address := max (ms_highest_address s1) (region_end r)\<rparr>;
            s3 = (if mr_kind r \<noteq> Reserved
                  then s2\<lparr>ms_highest_ram := max (ms_highest_ram s2) (region_end r)\<rparr> else s2)
        in if usable_at_boot (mr_kind r) then
             let s4 = s3\<lparr>ms_usable_bytes := saturating_add (ms_usable_bytes s3) (mr_len r)\<rparr>;
                 better = (case ms_largest_usable s4 of Some (_, l) \<Rightarrow> mr_len r > l | None \<Rightarrow> True)
             in if better then s4\<lparr>ms_largest_usable := Some (mr_start r, mr_len r)\<rparr> else s4
           else s3)"

definition summarise :: "memory_region list \<Rightarrow> memory_stats" where
  "summarise regions = fold summarise_region regions memory_stats_default"

section \<open>Free runs\<close>

type_synonym runs = "(u64 \<times> u64) list"

definition MAX_FREE_RUNS :: nat where "MAX_FREE_RUNS = 96"

text \<open>The first loop: the usable regions as \<open>(start, end)\<close>; past the end of \<open>out\<close> they are only counted.\<close>

definition fill_run :: "memory_region \<Rightarrow> runs \<times> nat \<Rightarrow> runs \<times> nat" where
  "fill_run r st = (case st of (out, n) \<Rightarrow>
     (if n < length out then out[n := (mr_start r, region_end r)] else out, n + 1))"

definition is_usable :: "memory_region \<Rightarrow> bool" where
  "is_usable r \<longleftrightarrow> usable_at_boot (mr_kind r) \<and> 0 < mr_len r"

text \<open>The inner loop: run \<open>i\<close> against the exclusion \<open>[xs, xe)\<close>.\<close>

definition carve_run :: "u64 \<Rightarrow> u64 \<Rightarrow> nat \<Rightarrow> runs \<times> nat \<Rightarrow> runs \<times> nat" where
  "carve_run xs xe i st = (case st of (out, live) \<Rightarrow>
     (case out ! i of (start, fin) \<Rightarrow>
        if xe \<le> start \<or> xs \<ge> fin then (out, live)
        else
          let left = (start, min (max xs start) fin);
              right = (max (min xe fin) start, fin);
              left_len = snd left - fst left;
              right_len = snd right - fst right
          in if left_len > 0 \<and> right_len > 0 then
               if live < length out then (out[i := left, live := right], live + 1)
               else (out[i := (if left_len \<ge> right_len then left else right)], live)
             else if left_len > 0 then (out[i := left], live)
             else if right_len > 0 then (out[i := right], live)
             else (out[i := (start, start)], live)))"

text \<open>The body of the outer loop, for one exclusion \<open>(start, len)\<close>.\<close>

definition carve :: "u64 \<times> u64 \<Rightarrow> runs \<times> nat \<Rightarrow> runs \<times> nat" where
  "carve x st = (case x of (xs, xlen) \<Rightarrow>
     let xe = saturating_add xs xlen in
     if xe \<le> xs then st else fold (carve_run xs xe) [0 ..< snd st] st)"

text \<open>The compaction: run \<open>i\<close>, kept if it is not empty, as \<open>(start, len)\<close>.\<close>

definition compact_run :: "nat \<Rightarrow> runs \<times> nat \<Rightarrow> runs \<times> nat" where
  "compact_run i st = (case st of (out, kept) \<Rightarrow>
     (case out ! i of (start, fin) \<Rightarrow>
        if fin > start then (out[kept := (start, fin - start)], kept + 1) else (out, kept)))"

definition free_runs :: "memory_region list \<Rightarrow> (u64 \<times> u64) list \<Rightarrow> runs \<Rightarrow> nat \<times> runs" where
  "free_runs regions exclusions out =
     (let (out1, n) = fold fill_run (filter is_usable regions) (out, 0);
          (out2, live) = fold carve exclusions (out1, min n (length out1));
          (out3, kept) = fold compact_run [0 ..< live] (out2, 0)
      in (kept + (n - length out3), out3))"

definition keep_larger :: "u64 \<times> u64 \<Rightarrow> (u64 \<times> u64) option \<Rightarrow> (u64 \<times> u64) option" where
  "keep_larger p best =
     (if (case best of None \<Rightarrow> True | Some (_, best_len) \<Rightarrow> snd p > best_len) then Some p else best)"

definition largest_free_run :: "memory_region list \<Rightarrow> (u64 \<times> u64) list \<Rightarrow> (u64 \<times> u64) option" where
  "largest_free_run regions exclusions =
     (let (found, scratch) = free_runs regions exclusions (replicate MAX_FREE_RUNS (0, 0)) in
      fold keep_larger (take (min found MAX_FREE_RUNS) scratch) None)"

section \<open>Carving, as sets of addresses\<close>

definition rb :: "u64 \<times> u64 \<Rightarrow> u64 set" where
  "rb p = {fst p ..< snd p}"

text \<open>What one step of the inner loop does to run \<open>i\<close>: it is cut down, or split in two where there is
  room, or cut down to a part of what is left where there is none.\<close>

lemma len_pos: "a \<le> b \<Longrightarrow> 0 < b - a \<longleftrightarrow> a < b" for a b :: u64
  by (simp add: word_less_nat_alt unat_sub word_le_nat_alt)

lemma cut_facts:
  fixes s e xs xe :: u64
  assumes "s \<le> e" "xs < xe" "\<not> (xe \<le> s \<or> xs \<ge> e)"
  defines "l \<equiv> min (max xs s) e" and "r \<equiv> max (min xe e) s"
  shows "s \<le> l" "r \<le> e" "rb (s, l) \<union> rb (r, e) = rb (s, e) - {xs ..< xe}" "rb (s, l) \<inter> rb (r, e) = {}"
    "s < l \<Longrightarrow> r < e \<Longrightarrow> {xs ..< xe} \<subseteq> rb (s, e)"
  using assms by (auto simp: rb_def min_def max_def split: if_splits)

lemma carve_run_cases:
  assumes c: "carve_run xs xe i (out, live) = (out', live')"
    and i: "i < live" "live \<le> length out" and le: "fst (out ! i) \<le> snd (out ! i)" and x: "xs < xe"
  obtains (cut) p where "live' = live" "out' = out[i := p]" "fst p \<le> snd p"
      "rb p = rb (out ! i) - {xs ..< xe}"
    | (split) l r where "live < length out" "live' = live + 1" "out' = out[i := l, live := r]"
      "fst l \<le> snd l" "fst r \<le> snd r" "rb l \<union> rb r = rb (out ! i) - {xs ..< xe}" "rb l \<inter> rb r = {}"
      "{xs ..< xe} \<subseteq> rb (out ! i)"
    | (full) p where "live = length out" "live' = live" "out' = out[i := p]" "fst p \<le> snd p"
      "rb p \<subseteq> rb (out ! i) - {xs ..< xe}" "{xs ..< xe} \<subseteq> rb (out ! i)"
proof -
  obtain s e where se: "out ! i = (s, e)" by fastforce
  have same: "out[i := (s, e)] = out" using i by (metis list_update_id se)
  show thesis
  proof (cases "xe \<le> s \<or> xs \<ge> e")
    case True
    then have "rb (s, e) = rb (s, e) - {xs ..< xe}" by (auto simp: rb_def)
    moreover have "out' = out" "live' = live" using c se True by (auto simp: carve_run_def)
    ultimately show thesis using cut [of "(s, e)"] le se same by simp
  next
    case False
    define l r where "l = min (max xs s) e" and "r = max (min xe e) s"
    have le': "s \<le> e" using le se by simp
    note f = cut_facts [OF le' x False, folded l_def r_def]
    have pos: "0 < l - s \<longleftrightarrow> s < l" "0 < e - r \<longleftrightarrow> r < e"
      using f(1,2) by (simp_all add: len_pos)
    have st: "(out', live') = (if s < l \<and> r < e then
        if live < length out then (out[i := (s, l), live := (r, e)], live + 1)
        else (out[i := (if e - r \<le> l - s then (s, l) else (r, e))], live)
      else if s < l then (out[i := (s, l)], live)
      else if r < e then (out[i := (r, e)], live)
      else (out[i := (s, s)], live))"
      using c unfolding carve_run_def se prod.case Let_def if_not_P [OF False] fst_conv snd_conv
        l_def [symmetric] r_def [symmetric] pos by (rule sym)
    consider "s < l" "r < e" "live < length out" | "s < l" "r < e" "live = length out"
      | "s < l" "\<not> r < e" | "\<not> s < l" "r < e" | "\<not> s < l" "\<not> r < e"
      using i by linarith
    then show thesis
    proof cases
      case 1
      then show thesis using st f se by (intro split [of "(s, l)" "(r, e)"]) (auto simp: less_imp_le)
    next
      case 2
      define p where "p = (if e - r \<le> l - s then (s, l) else (r, e))"
      have "rb p \<subseteq> rb (s, e) - {xs ..< xe}" "fst p \<le> snd p" using f 2 by (auto simp: p_def less_imp_le)
      then show thesis using st 2 se f(5) by (intro full [of p]) (auto simp: p_def)
    next
      case 3
      then have "rb (r, e) = {}" by (simp add: rb_def)
      then show thesis using st f 3 se by (intro cut [of "(s, l)"]) auto
    next
      case 4
      then have "rb (s, l) = {}" by (simp add: rb_def)
      then show thesis using st f 4 se by (intro cut [of "(r, e)"]) (auto simp: less_imp_le)
    next
      case 5
      then have "rb (s, l) = {}" "rb (r, e) = {}" by (simp_all add: rb_def)
      then have "rb (s, s) = rb (s, e) - {xs ..< xe}" using f(3) by (auto simp: rb_def)
      then show thesis using st 5 se by (intro cut [of "(s, s)"]) auto
    qed
  qed
qed


definition live_ok :: "runs \<Rightarrow> nat \<Rightarrow> bool" where
  "live_ok out live \<longleftrightarrow> live \<le> length out \<and> (\<forall>j < live. fst (out ! j) \<le> snd (out ! j))"

definition cover :: "runs \<Rightarrow> nat \<Rightarrow> u64 set" where
  "cover out live = (\<Union>j < live. rb (out ! j))"

definition apart :: "runs \<Rightarrow> nat \<Rightarrow> bool" where
  "apart out live \<longleftrightarrow> (\<forall>i < live. \<forall>j < live. i \<noteq> j \<longrightarrow> rb (out ! i) \<inter> rb (out ! j) = {})"

lemma cover_I: "j < live \<Longrightarrow> a \<in> rb (out ! j) \<Longrightarrow> a \<in> cover out live"
  by (auto simp: cover_def)

text \<open>The inner loop after the first \<open>k\<close> runs, started at \<open>(out0, live0)\<close>; \<open>B\<close> is what is carved out.\<close>

definition carved :: "u64 set \<Rightarrow> nat \<Rightarrow> runs \<Rightarrow> nat \<Rightarrow> runs \<Rightarrow> nat \<Rightarrow> bool" where
  "carved B k out0 live0 out live \<longleftrightarrow>
     live_ok out live \<and> length out = length out0 \<and> live0 \<le> live
     \<and> (\<forall>j. k \<le> j \<and> j < live0 \<longrightarrow> out ! j = out0 ! j)
     \<and> (\<forall>j < live. j < k \<or> live0 \<le> j \<longrightarrow> rb (out ! j) \<subseteq> cover out0 live0 - B)
     \<and> (apart out0 live0 \<longrightarrow> apart out live
          \<and> (live = live0 \<or> live = live0 + 1 \<and> (\<exists>j < k. B \<subseteq> rb (out0 ! j)))
          \<and> (live0 < length out0 \<longrightarrow> cover out0 live0 - B \<subseteq> cover out live))"

lemma carved_start: "live_ok out0 live0 \<Longrightarrow> carved B 0 out0 live0 out0 live0"
  by (auto simp: carved_def)

lemma apart_shrink:
  assumes "apart out live" "i < live" "live \<le> length out" "rb p \<subseteq> rb (out ! i)"
  shows "apart (out[i := p]) live"
  using assms by (fastforce simp: apart_def nth_list_update)

lemma carved_cut:
  assumes c: "carved B k out0 live0 out live" and k: "k < live0"
    and p: "fst p \<le> snd p" "rb p \<subseteq> rb (out ! k) - B"
    and whole: "apart out0 live0 \<and> live0 < length out0 \<Longrightarrow> rb p = rb (out ! k) - B"
  shows "carved B (Suc k) out0 live0 (out[k := p]) live"
proof -
  note d = c [unfolded carved_def]
  have kl: "k < live" "live \<le> length out" using d k by (auto simp: live_ok_def)
  have ok: "out ! k = out0 ! k" using d k by blast
  have sub: "rb p \<subseteq> cover out0 live0 - B" using p(2) ok k by (auto simp: cover_def)
  have "cover out0 live0 - B \<subseteq> cover (out[k := p]) live" if a: "apart out0 live0" "live0 < length out0"
  proof
    fix x assume x: "x \<in> cover out0 live0 - B"
    then obtain j where j: "j < live" "x \<in> rb (out ! j)" using d a unfolding cover_def by blast
    show "x \<in> cover (out[k := p]) live"
    proof (cases "j = k")
      case True
      then have "x \<in> rb p" using j(2) x whole a by blast
      then show ?thesis using kl by (intro cover_I [of k]) simp_all
    next
      case False
      then show ?thesis using j by (intro cover_I [of j]) simp_all
    qed
  qed
  moreover have "apart (out[k := p]) live" if "apart out0 live0"
    using apart_shrink [of out live k p] d that kl p(2) by blast
  moreover have "\<forall>j < live. j < Suc k \<or> live0 \<le> j \<longrightarrow> rb (out[k := p] ! j) \<subseteq> cover out0 live0 - B"
    using d sub kl by (auto simp: nth_list_update less_Suc_eq)
  moreover have "live_ok (out[k := p]) live"
  proof -
    have "k < length out" "live_ok out live" using kl d by auto
    then show ?thesis using p(1) by (simp add: live_ok_def nth_list_update)
  qed
  ultimately show ?thesis
    using d kl by (auto simp: carved_def less_Suc_eq)
qed

lemma carved_split:
  assumes c: "carved B k out0 live0 out live" and k: "k < live0" and room: "live < length out"
    and lr: "fst l \<le> snd l" "fst r \<le> snd r" "rb l \<union> rb r = rb (out ! k) - B" "rb l \<inter> rb r = {}"
    and B: "B \<subseteq> rb (out ! k)" "B \<noteq> {}"
  shows "carved B (Suc k) out0 live0 (out[k := l, live := r]) (live + 1)"
proof -
  define upd where "upd = out[k := l, live := r]"
  note d = c [unfolded carved_def]
  have kl: "k < live" "k < length out" using d k room by auto
  have ok: "out ! k = out0 ! k" using d k by blast
  have at: "upd ! live = r" "upd ! k = l" "\<And>j. j \<noteq> k \<Longrightarrow> j \<noteq> live \<Longrightarrow> upd ! j = out ! j"
    using kl room by (simp_all add: upd_def nth_list_update)
  have sub: "rb l \<subseteq> cover out0 live0 - B" "rb r \<subseteq> cover out0 live0 - B"
    using lr(3) ok k by (auto simp: cover_def)
  have one: "live = live0" if a: "apart out0 live0"
  proof (rule ccontr)
    assume "live \<noteq> live0"
    then obtain j where j: "j < k" "B \<subseteq> rb (out0 ! j)" using d a by blast
    then have "rb (out0 ! j) \<inter> rb (out0 ! k) = {}" using a k by (auto simp: apart_def)
    then show False using j(2) B ok by auto
  qed
  have "live_ok upd (live + 1)"
    unfolding live_ok_def
  proof (intro conjI allI impI)
    show "live + 1 \<le> length upd" using room by (simp add: upd_def)
    fix j assume "j < live + 1"
    then show "fst (upd ! j) \<le> snd (upd ! j)"
      using d at lr by (cases "j = k"; cases "j = live") (auto simp: live_ok_def)
  qed
  moreover have "\<forall>j. Suc k \<le> j \<and> j < live0 \<longrightarrow> upd ! j = out0 ! j"
    using d at by auto
  moreover have "\<forall>j < live + 1. j < Suc k \<or> live0 \<le> j \<longrightarrow> rb (upd ! j) \<subseteq> cover out0 live0 - B"
  proof (intro allI impI)
    fix j assume j: "j < live + 1" "j < Suc k \<or> live0 \<le> j"
    show "rb (upd ! j) \<subseteq> cover out0 live0 - B"
    proof (cases "j = k \<or> j = live")
      case True
      then show ?thesis using at(1,2) sub by auto
    next
      case False
      then have "j < live" "j < k \<or> live0 \<le> j" "upd ! j = out ! j" using j at(3) [of j] by auto
      moreover have "\<forall>j < live. j < k \<or> live0 \<le> j \<longrightarrow> rb (out ! j) \<subseteq> cover out0 live0 - B" using d by blast
      ultimately show ?thesis by metis
    qed
  qed
  moreover have "apart upd (live + 1)" if a: "apart out0 live0"
    unfolding apart_def
  proof (intro allI impI)
    fix i j assume ij: "i < live + 1" "j < live + 1" "i \<noteq> j"
    have ap: "apart out live" using d a by blast
    define own where "own i = (if i = live then k else i)" for i
    have own: "own i < live" "rb (upd ! i) \<subseteq> rb (out ! own i)" if "i < live + 1" for i
    proof -
      show "own i < live" using that kl by (simp add: own_def)
      have "rb l \<subseteq> rb (out ! k)" "rb r \<subseteq> rb (out ! k)" using lr(3) by auto
      then show "rb (upd ! i) \<subseteq> rb (out ! own i)"
        using at(1,2) at(3) [of i] kl by (cases "i = k \<or> i = live") (auto simp: own_def)
    qed
    show "rb (upd ! i) \<inter> rb (upd ! j) = {}"
    proof (cases "own i = own j")
      case True
      then have "{i, j} = {k, live}" using ij by (auto simp: own_def split: if_splits)
      then show ?thesis using lr(4) at by (auto simp: doubleton_eq_iff)
    next
      case False
      then have "rb (out ! own i) \<inter> rb (out ! own j) = {}" using ap own ij by (auto simp: apart_def)
      then show ?thesis using own ij by blast
    qed
  qed
  moreover have "cover out0 live0 - B \<subseteq> cover upd (live + 1)" if a: "apart out0 live0" "live0 < length out0"
  proof
    fix x assume x: "x \<in> cover out0 live0 - B"
    then obtain j where j: "j < live" "x \<in> rb (out ! j)" using d a unfolding cover_def by blast
    show "x \<in> cover upd (live + 1)"
    proof (cases "j = k")
      case True
      then have "x \<in> rb l \<union> rb r" using j(2) x lr(3) by blast
      then show ?thesis
        using at kl cover_I [of k "live + 1" x upd] cover_I [of live "live + 1" x upd] by auto
    next
      case False
      then show ?thesis using j at(3) [of j] by (intro cover_I [of j]) auto
    qed
  qed
  moreover have "live = live0 \<longrightarrow> (\<exists>j < Suc k. B \<subseteq> rb (out0 ! j))" using B(1) ok by auto
  moreover have "length upd = length out0" using d by (simp add: upd_def)
  ultimately show ?thesis using one d unfolding carved_def upd_def by auto
qed

lemma carve_inner:
  assumes ok: "live_ok out0 live0" and x: "xs < xe"
  shows "k \<le> live0 \<Longrightarrow> fold (carve_run xs xe) [0 ..< k] (out0, live0) = (out, live) \<Longrightarrow>
    carved {xs ..< xe} k out0 live0 out live"
proof (induction k arbitrary: out live)
  case 0
  then show ?case using carved_start [OF ok] by simp
next
  case (Suc k)
  obtain out1 live1 where f: "fold (carve_run xs xe) [0 ..< k] (out0, live0) = (out1, live1)" by fastforce
  have c: "carved {xs ..< xe} k out0 live0 out1 live1" using Suc f by simp
  note d = c [unfolded carved_def]
  have "live_ok out1 live1" "live0 \<le> live1" using d by auto
  then have k: "k < live0" "k < live1" "live1 \<le> length out1" "fst (out1 ! k) \<le> snd (out1 ! k)"
    using Suc.prems(1) by (simp_all add: live_ok_def)
  have "carve_run xs xe k (out1, live1) = (out, live)" using Suc.prems(2) f by simp
  then show ?case using k(2-4) x
  proof (cases rule: carve_run_cases)
    case (cut p)
    then show ?thesis using carved_cut [OF c k(1), of p] by simp
  next
    case (split l r)
    then show ?thesis using carved_split [OF c k(1), of l r] x by auto
  next
    case (full p)
    have "\<not> (apart out0 live0 \<and> live0 < length out0)"
    proof
      assume a: "apart out0 live0 \<and> live0 < length out0"
      then obtain j where j: "j < k" "{xs ..< xe} \<subseteq> rb (out0 ! j)" using d full(1) by auto
      then have "rb (out0 ! j) \<inter> rb (out0 ! k) = {}" using a k by (auto simp: apart_def)
      moreover have "out1 ! k = out0 ! k" using d k by blast
      moreover have "xs \<in> {xs ..< xe}" using x by simp
      note subsetD [OF j(2) this] subsetD [OF full(6) this]
      ultimately show False using \<open>rb (out0 ! j) \<inter> rb (out0 ! k) = {}\<close> by auto
    qed
    then show ?thesis using carved_cut [OF c k(1), of p] full by blast
  qed
qed

section \<open>All exclusions\<close>

definition ex_bytes :: "u64 \<times> u64 \<Rightarrow> u64 set" where
  "ex_bytes x = {fst x ..< saturating_add (fst x) (snd x)}"

definition carved_all :: "u64 set \<Rightarrow> nat \<Rightarrow> runs \<Rightarrow> nat \<Rightarrow> runs \<Rightarrow> nat \<Rightarrow> bool" where
  "carved_all B c out0 live0 out live \<longleftrightarrow>
     live_ok out live \<and> length out = length out0
     \<and> cover out live \<subseteq> cover out0 live0 - B
     \<and> (apart out0 live0 \<longrightarrow> apart out live \<and> live \<le> live0 + c
          \<and> (live0 + c \<le> length out0 \<longrightarrow> cover out live = cover out0 live0 - B))"

lemma carve_ok:
  assumes ok: "live_ok out0 live0" and c: "carve x (out0, live0) = (out, live)"
  shows "carved_all (ex_bytes x) 1 out0 live0 out live"
proof -
  obtain xs xl where x: "x = (xs, xl)" by fastforce
  let ?e = "saturating_add xs xl"
  show ?thesis
  proof (cases "?e \<le> xs")
    case True
    then have "ex_bytes x = {}" "out = out0" "live = live0" using c x by (auto simp: ex_bytes_def carve_def)
    then show ?thesis using ok by (simp add: carved_all_def)
  next
    case False
    then have "fold (carve_run xs ?e) [0 ..< live0] (out0, live0) = (out, live)"
      using c x by (simp add: carve_def)
    then have "carved {xs ..< ?e} live0 out0 live0 out live"
      using carve_inner [OF ok, of xs ?e live0] False by simp
    note d = this [unfolded carved_def]
    have "rb (out ! j) \<subseteq> cover out0 live0 - {xs ..< ?e}" if "j < live" for j
      using d that by (meson not_le)
    then have sub: "cover out live \<subseteq> cover out0 live0 - {xs ..< ?e}" unfolding cover_def by blast
    have "live \<le> live0 + 1" if "apart out0 live0" using d that by linarith
    moreover have "cover out live = cover out0 live0 - {xs ..< ?e}" if "apart out0 live0" "live0 + 1 \<le> length out0"
      using sub d that by (intro equalityI) (auto simp del: Diff_subset_conv)
    ultimately show ?thesis
      using d sub by (auto simp: carved_all_def ex_bytes_def x simp del: Diff_subset_conv)
  qed
qed

lemma carve_all_ok:
  assumes "live_ok out0 live0" "fold carve xs (out0, live0) = (out, live)"
  shows "carved_all (\<Union>x \<in> set xs. ex_bytes x) (length xs) out0 live0 out live"
  using assms
proof (induction xs arbitrary: out0 live0)
  case Nil
  then show ?case by (auto simp: carved_all_def)
next
  case (Cons x xs)
  obtain out1 live1 where c: "carve x (out0, live0) = (out1, live1)" by fastforce
  note d1 = carve_ok [OF Cons.prems(1) c, unfolded carved_all_def]
  have "fold carve xs (out1, live1) = (out, live)" using Cons.prems(2) c by simp
  note d2 = Cons.IH [OF _ this, unfolded carved_all_def]
  have "live_ok out1 live1" using d1 by blast
  note d2 = d2 [OF this]
  have e: "(\<Union>y \<in> set (x # xs). ex_bytes y) = ex_bytes x \<union> (\<Union>y \<in> set xs. ex_bytes y)" by simp
  show ?case
    unfolding carved_all_def e
  proof (intro conjI impI)
    show "live_ok out live" "length out = length out0" using d1 d2 by auto
    show "cover out live \<subseteq> cover out0 live0 - (ex_bytes x \<union> (\<Union>y \<in> set xs. ex_bytes y))" using d1 d2 by blast
    assume a: "apart out0 live0"
    then have a1: "apart out1 live1" "live1 \<le> live0 + 1" using d1 by auto
    then show "apart out live" "live \<le> live0 + length (x # xs)" using d2 by auto
    assume n: "live0 + length (x # xs) \<le> length out0"
    then have "cover out1 live1 = cover out0 live0 - ex_bytes x" using d1 a by simp
    moreover have "cover out live = cover out1 live1 - (\<Union>y \<in> set xs. ex_bytes y)" using d1 d2 a1 n by simp
    ultimately show "cover out live = cover out0 live0 - (ex_bytes x \<union> (\<Union>y \<in> set xs. ex_bytes y))" by blast
  qed
qed

section \<open>Filling and compacting\<close>

lemma fill_ok:
  assumes "fold fill_run rs (out0, n0) = (out, n)"
  shows "n = n0 + length rs \<and> length out = length out0
    \<and> (\<forall>j < length out. out ! j = (if n0 \<le> j \<and> j < n0 + length rs
        then (mr_start (rs ! (j - n0)), region_end (rs ! (j - n0))) else out0 ! j))"
  using assms
proof (induction rs arbitrary: out0 n0)
  case (Cons r rs)
  let ?o = "if n0 < length out0 then out0[n0 := (mr_start r, region_end r)] else out0"
  have "fill_run r (out0, n0) = (?o, n0 + 1)" by (simp add: fill_run_def)
  then have "fold fill_run rs (?o, n0 + 1) = (out, n)" using Cons.prems by simp
  note ih = Cons.IH [OF this]
  have "out ! j = (if n0 \<le> j \<and> j < n0 + length (r # rs)
        then (mr_start ((r # rs) ! (j - n0)), region_end ((r # rs) ! (j - n0))) else out0 ! j)"
    if "j < length out" for j
  proof (cases "j = n0")
    case True
    moreover have "n0 < length out0" using ih that True by (simp split: if_splits)
    ultimately show ?thesis using ih that by simp
  next
    case False
    then have "(r # rs) ! (j - n0) = rs ! (j - (n0 + 1))" if "n0 \<le> j"
      using that by (simp add: nth_Cons')
    then show ?thesis using ih that False by auto
  qed
  then show ?case using ih by simp
qed auto

definition as_run :: "u64 \<times> u64 \<Rightarrow> u64 \<times> u64" where
  "as_run p = (fst p, snd p - fst p)"

lemma compact_ok:
  "k \<le> length out0 \<Longrightarrow> fold compact_run [0 ..< k] (out0, 0) = (out, kept) \<Longrightarrow>
     kept \<le> k \<and> length out = length out0 \<and> (\<forall>j. k \<le> j \<longrightarrow> out ! j = out0 ! j)
     \<and> take kept out = map as_run (filter (\<lambda>p. fst p < snd p) (take k out0))"
proof (induction k arbitrary: out kept)
  case (Suc k)
  obtain out1 kept1 where f: "fold compact_run [0 ..< k] (out0, 0) = (out1, kept1)" by fastforce
  then have ih: "kept1 \<le> k" "length out1 = length out0" "\<forall>j. k \<le> j \<longrightarrow> out1 ! j = out0 ! j"
    "take kept1 out1 = map as_run (filter (\<lambda>p. fst p < snd p) (take k out0))"
    using Suc by auto
  have st: "compact_run k (out1, kept1) = (out, kept)" using Suc.prems(2) f by simp
  have t: "take (Suc k) out0 = take k out0 @ [out0 ! k]" using Suc.prems(1) by (simp add: take_Suc_conv_app_nth)
  obtain s e where se: "out0 ! k = (s, e)" by fastforce
  show ?case
  proof (cases "s < e")
    case True
    then have o: "out = out1[kept1 := (s, e - s)]" "kept = Suc kept1"
      using st ih(3) se by (auto simp: compact_run_def)
    then have "take kept out = take kept1 out1 @ [(s, e - s)]"
      using ih(1,2) Suc.prems(1) by (simp add: take_Suc_conv_app_nth)
    then show ?thesis using o ih t se True by (simp add: as_run_def)
  next
    case False
    then have "out = out1" "kept = kept1" using st ih(3) se by (auto simp: compact_run_def)
    then show ?thesis using ih t se False by simp
  qed
qed simp

section \<open>What \<open>free_runs\<close> returns\<close>

definition run_bytes :: "u64 \<times> u64 \<Rightarrow> u64 set" where
  "run_bytes p = {a. fst p \<le> a \<and> unat a < unat (fst p) + unat (snd p)}"

definition usable_set :: "memory_region list \<Rightarrow> u64 set" where
  "usable_set regions = {a. list_ex (\<lambda>r. is_usable r \<and> region_contains r a) regions}"

definition excluded_set :: "(u64 \<times> u64) list \<Rightarrow> u64 set" where
  "excluded_set xs = {a. list_ex (\<lambda>x. fst x \<le> a \<and> a < saturating_add (fst x) (snd x)) xs}"

lemma as_run_bytes: "fst p < snd p \<Longrightarrow> run_bytes (as_run p) = rb p"
  by (auto simp: run_bytes_def as_run_def rb_def word_less_nat_alt word_le_nat_alt unat_sub)

lemma region_end_ge: "mr_start r \<le> region_end r"
  using unat_less_width [of "mr_start r"] unfolding region_end_def word_le_nat_alt unat_saturating_add
  by simp

definition usable_runs :: "memory_region list \<Rightarrow> runs" where
  "usable_runs regions = map (\<lambda>r. (mr_start r, region_end r)) (filter is_usable regions)"

lemma free_runs_parts:
  assumes "free_runs regions xs out = (found, out')" "length (usable_runs regions) \<le> length out"
  obtains out1 out2 live where "fold carve xs (out1, length (usable_runs regions)) = (out2, live)"
    "length out1 = length out" "live_ok out1 (length (usable_runs regions))"
    "take (length (usable_runs regions)) out1 = usable_runs regions"
    "live \<le> length out2 \<Longrightarrow> length out2 = length out \<Longrightarrow> found \<le> length out' \<and> length out' = length out \<and>
       take found out' = map as_run (filter (\<lambda>p. fst p < snd p) (take live out2))"
proof -
  let ?us = "filter is_usable regions"
  obtain out1 n where f: "fold fill_run ?us (out, 0) = (out1, n)" by fastforce
  obtain out2 live where c: "fold carve xs (out1, min n (length out1)) = (out2, live)" by fastforce
  obtain out3 kept where k: "fold compact_run [0 ..< live] (out2, 0) = (out3, kept)" by fastforce
  note fo = fill_ok [OF f]
  have n: "n = length (usable_runs regions)" "length out1 = length out" using fo by (simp_all add: usable_runs_def)
  have nth: "out1 ! j = usable_runs regions ! j" if "j < n" for j
    using fo that n assms(2) by (simp add: usable_runs_def)
  have "live_ok out1 n"
    using nth n assms(2) region_end_ge by (auto simp: live_ok_def usable_runs_def)
  moreover have "take n out1 = usable_runs regions"
    using nth n assms(2) by (intro nth_equalityI) auto
  moreover have r: "found = kept + (n - length out3)" "out' = out3"
    using assms(1) f c k by (auto simp: free_runs_def)
  ultimately show thesis
  proof (intro that [of out1 out2 live])
    assume l: "live \<le> length out2" "length out2 = length out"
    note co = compact_ok [OF l(1) k]
    show "found \<le> length out' \<and> length out' = length out \<and>
        take found out' = map as_run (filter (\<lambda>p. fst p < snd p) (take live out2))"
      using co l n assms(2) r by auto
  qed (use c n assms(2) in \<open>auto simp: min_absorb1\<close>)
qed

lemma cover_take: "live \<le> length out \<Longrightarrow> cover out live = (\<Union>p \<in> set (take live out). rb p)"
  by (force simp: cover_def set_conv_nth)

lemma cover_usable: "(\<Union>p \<in> set (usable_runs regions). rb p) = usable_set regions"
  by (auto simp: usable_runs_def usable_set_def rb_def region_contains_def list_ex_iff)

lemma excluded_union: "(\<Union>x \<in> set xs. ex_bytes x) = excluded_set xs"
  by (force simp: excluded_set_def ex_bytes_def list_ex_iff)

lemma kept_cover: "(\<Union>p \<in> set (map as_run (filter (\<lambda>p. fst p < snd p) L)). run_bytes p) = (\<Union>p \<in> set L. rb p)"
proof -
  have "rb p = {}" if "\<not> fst p < snd p" for p using that by (auto simp: rb_def)
  then show ?thesis using as_run_bytes by fastforce
qed

lemma free_runs_result:
  assumes fr: "free_runs regions xs out = (found, out')" and fit: "length (usable_runs regions) \<le> length out"
  shows "found \<le> length out'" "length out' = length out"
    and "p \<in> set (take found out') \<Longrightarrow> run_bytes p \<noteq> {} \<and> run_bytes p \<subseteq> usable_set regions - excluded_set xs"
    and "apart (usable_runs regions) (length (usable_runs regions)) \<Longrightarrow>
      length (usable_runs regions) + length xs \<le> length out \<Longrightarrow>
      (\<Union>p \<in> set (take found out'). run_bytes p) = usable_set regions - excluded_set xs"
proof -
  let ?n = "length (usable_runs regions)"
  obtain out1 out2 live where c: "fold carve xs (out1, ?n) = (out2, live)"
    and l1: "length out1 = length out" "live_ok out1 ?n" and t1: "take ?n out1 = usable_runs regions"
    and k: "live \<le> length out2 \<Longrightarrow> length out2 = length out \<Longrightarrow> found \<le> length out' \<and> length out' = length out \<and>
       take found out' = map as_run (filter (\<lambda>p. fst p < snd p) (take live out2))"
    using free_runs_parts [OF fr fit] by blast
  note a = carve_all_ok [OF l1(2) c, unfolded carved_all_def excluded_union]
  have l2: "live \<le> length out2" "length out2 = length out" using a l1 by (auto simp: live_ok_def)
  note k = k [OF l2]
  then show "found \<le> length out'" "length out' = length out" by auto
  have cov: "(\<Union>p \<in> set (take found out'). run_bytes p) = cover out2 live"
    using k l2 kept_cover [of "take live out2"] by (simp add: cover_take)
  have c1: "cover out1 ?n = usable_set regions"
    using l1 fit t1 cover_usable [of regions] by (simp add: cover_take)
  show "run_bytes p \<noteq> {} \<and> run_bytes p \<subseteq> usable_set regions - excluded_set xs" if p: "p \<in> set (take found out')"
  proof
    obtain q where q: "p = as_run q" "fst q < snd q" using p k by auto
    then show "run_bytes p \<noteq> {}" by (auto simp: as_run_bytes rb_def)
    show "run_bytes p \<subseteq> usable_set regions - excluded_set xs" using p cov a c1 by blast
  qed
  assume ap: "apart (usable_runs regions) ?n" and room: "?n + length xs \<le> length out"
  have "out1 ! i = usable_runs regions ! i" if "i < ?n" for i using t1 that by (metis nth_take)
  then have "apart out1 ?n" using ap by (auto simp: apart_def)
  then show "(\<Union>p \<in> set (take found out'). run_bytes p) = usable_set regions - excluded_set xs"
    using cov a c1 room l1 by simp
qed


definition sample_map :: "memory_region list" where
  "sample_map = [region_new 0 0x10000 Usable, region_new 0x10000 0x1000 AcpiNvs, region_new 0x20000 0x8000 Usable]"

lemma sample_runs: "free_runs sample_map [(0x4000, 0x1000)] [(0, 0), (0, 0), (0, 0), (0, 0)] =
    (3, [(0, 0x4000), (0x20000, 0x8000), (0x5000, 0xB000), (0, 0)])"
proof -
  have f: "fold fill_run (filter is_usable sample_map) ([(0, 0), (0, 0), (0, 0), (0, 0)], 0) =
      ([(0, 0x10000), (0x20000, 0x28000), (0, 0), (0, 0)], 2)"
    by (simp add: sample_map_def region_new_def is_usable_def usable_at_boot_def fill_run_def region_end_def
        saturating_add_def)
  have c0: "carve_run 0x4000 0x5000 0 ([(0, 0x10000), (0x20000, 0x28000), (0, 0), (0, 0)], 2) =
      ([(0, 0x4000), (0x20000, 0x28000), (0x5000, 0x10000), (0, 0)], 3)"
    by (simp add: carve_run_def Let_def max_def min_def)
  have c1: "carve_run 0x4000 0x5000 1 ([(0, 0x4000), (0x20000, 0x28000), (0x5000, 0x10000), (0, 0)], 3) =
      ([(0, 0x4000), (0x20000, 0x28000), (0x5000, 0x10000), (0, 0)], 3)"
    by (simp add: carve_run_def)
  have u: "[0 ..< 2] = [0, 1 :: nat]" "[0 ..< 3] = [0, 1, 2 :: nat]" by (simp_all add: upt_rec)
  have c: "fold carve [(0x4000, 0x1000)] ([(0, 0x10000), (0x20000, 0x28000), (0, 0), (0, 0)], 2) =
      ([(0, 0x4000), (0x20000, 0x28000), (0x5000, 0x10000), (0, 0)], 3)"
    using c0 c1 by (simp add: carve_def saturating_add_def u)
  have k: "fold compact_run [0 ..< 3] ([(0, 0x4000), (0x20000, 0x28000), (0x5000, 0x10000), (0, 0)], 0) =
      ([(0, 0x4000), (0x20000, 0x8000), (0x5000, 0xB000), (0, 0)], 3)"
    by (simp add: u compact_run_def)
  have m: "min 2 (length [(0 :: u64, 0x10000 :: u64), (0x20000, 0x28000), (0, 0), (0, 0)]) = 2" by (simp add: min_def)
  show ?thesis unfolding free_runs_def f Let_def prod.case m c k by simp
qed


text \<open>No free memory is lost on a sane map. When the usable ranges do not overlap each other and the
  array has one slot per usable range and one per exclusion, the runs reported cover exactly the bytes
  that are usable and not excluded: every exclusion splits at most one run, so nothing is dropped.\<close>

theorem free_runs_all:
  assumes "free_runs regions exclusions out = (found, out')"
    and "apart (usable_runs regions) (length (usable_runs regions))"
    and "length (usable_runs regions) + length exclusions \<le> length out"
  shows "(\<Union>p \<in> set (take found out'). run_bytes p) = usable_set regions - excluded_set exclusions"
  using free_runs_result(4) [OF assms(1) _ assms(2,3)] assms(3) by simp

lemma apart_two: "apart [p, q] (Suc (Suc 0)) \<longleftrightarrow> rb p \<inter> rb q = {}"
proof
  assume "apart [p, q] (Suc (Suc 0))"
  then have "rb ([p, q] ! 0) \<inter> rb ([p, q] ! Suc 0) = {}" unfolding apart_def by blast
  then show "rb p \<inter> rb q = {}" by simp
next
  assume "rb p \<inter> rb q = {}"
  then show "apart [p, q] (Suc (Suc 0))" by (auto simp: apart_def nth_Cons split: nat.splits)
qed

theorem free_runs_all_witness:
  "run_bytes (0, 0x4000) \<union> run_bytes (0x20000, 0x8000) \<union> run_bytes (0x5000, 0xB000) =
     usable_set sample_map - excluded_set [(0x4000, 0x1000)]"
proof -
  have r: "free_runs sample_map [(0x4000, 0x1000)] [(0, 0), (0, 0), (0, 0), (0, 0)] =
      (3, [(0, 0x4000), (0x20000, 0x8000), (0x5000, 0xB000), (0, 0)])" by (rule sample_runs)
  have u: "usable_runs sample_map = [(0, 0x10000), (0x20000, 0x28000)]"
    by (simp add: usable_runs_def sample_map_def region_new_def is_usable_def usable_at_boot_def region_end_def
        saturating_add_def)
  have "apart (usable_runs sample_map) (length (usable_runs sample_map))"
    unfolding u by (simp add: apart_two) (auto simp: rb_def word_less_nat_alt word_le_nat_alt)
  from free_runs_all [OF r this] show ?thesis by (auto simp: u)
qed

section \<open>More usable ranges than slots\<close>

text \<open>97 usable pages, every other one of low memory.\<close>

definition page_region :: "nat \<Rightarrow> memory_region" where
  "page_region i = region_new (word_of_nat (i * 0x2000)) 0x1000 Usable"

definition many_pages :: "memory_region list" where
  "many_pages = map page_region [0 ..< 97]"

lemma page_region_simps:
  assumes "i < 97"
  shows "is_usable (page_region i)" "unat (mr_start (page_region i)) = i * 0x2000"
    "unat (region_end (page_region i)) = i * 0x2000 + 0x1000"
proof -
  have u: "unat (word_of_nat (i * 0x2000) :: u64) = i * 0x2000" using assms by (intro unat_word_of_nat_small) simp
  then show "unat (mr_start (page_region i)) = i * 0x2000" by (simp add: page_region_def region_new_def)
  show "is_usable (page_region i)" by (simp add: page_region_def region_new_def is_usable_def usable_at_boot_def)
  show "unat (region_end (page_region i)) = i * 0x2000 + 0x1000"
    unfolding region_end_def unat_saturating_add using u assms by (simp add: page_region_def region_new_def)
qed

lemma fold_carve_disjoint:
  assumes "\<And>i. i < k \<Longrightarrow> xe \<le> fst (out ! i) \<or> snd (out ! i) \<le> xs"
  shows "fold (carve_run xs xe) [0 ..< k] (out, live) = (out, live)"
  using assms
proof (induction k)
  case (Suc k)
  have "carve_run xs xe k (out, live) = (out, live)"
    using Suc.prems [of k] by (cases "out ! k") (auto simp: carve_run_def)
  then show ?case using Suc by simp
qed simp

lemma fold_keep_larger:
  "\<forall>p \<in> set ps. snd p \<le> bound \<Longrightarrow> pred_option (\<lambda>q. snd q \<le> bound) b \<Longrightarrow>
    pred_option (\<lambda>q. snd q \<le> bound) (fold keep_larger ps b)"
proof (induction ps arbitrary: b)
  case (Cons p ps)
  then have "pred_option (\<lambda>q. snd q \<le> bound) (keep_larger p b)" by (simp add: keep_larger_def)
  then show ?case using Cons by simp
qed simp

lemma many_pages_runs:
  obtains ps where "length ps = 95" "\<forall>p \<in> set ps. snd p = 0x1000"
    "free_runs many_pages [(0xBE000, 0x1000)] (replicate MAX_FREE_RUNS (0, 0)) = (96, ps @ [(0xBE000, 0xBE000)])"
proof -
  have us: "filter is_usable many_pages = many_pages"
    using page_region_simps(1) by (auto simp: many_pages_def filter_id_conv)
  obtain out1 n where f: "fold fill_run many_pages (replicate 96 (0, 0), 0) = (out1, n)" by fastforce
  have o1: "n = 97" "length out1 = 96"
    "\<And>j. j < 96 \<Longrightarrow> out1 ! j = (mr_start (page_region j), region_end (page_region j))"
    using fill_ok [OF f] by (simp_all add: many_pages_def)
  have at95: "out1 ! 95 = (0xBE000, 0xBF000)"
    using o1(3) [of 95] page_region_simps [of 95] by (simp add: word_unat_eq_iff)
  have "fold (carve_run 0xBE000 0xBF000) [0 ..< 95] (out1, 96) = (out1, 96)"
    by (rule fold_carve_disjoint) (use o1(3) page_region_simps in \<open>simp add: word_le_nat_alt\<close>)
  moreover have "carve_run 0xBE000 0xBF000 95 (out1, 96) = (out1[95 := (0xBE000, 0xBE000)], 96)"
    by (simp add: carve_run_def at95 Let_def max_def min_def)
  moreover have "[0 ..< 96] = [0 ..< 95] @ [95 :: nat]" using upt_Suc_append [of 0 95] by simp
  ultimately have c: "carve (0xBE000, 0x1000) (out1, 96) = (out1[95 := (0xBE000, 0xBE000)], 96)"
    by (simp add: carve_def saturating_add_def)
  let ?o = "out1[95 := (0xBE000, 0xBE000)]"
  obtain out3 kept where k: "fold compact_run [0 ..< 95] (?o, 0) = (out3, kept)" by fastforce
  have co: "kept \<le> 95" "length out3 = 96" "out3 ! 95 = (0xBE000, 0xBE000)"
    "take kept out3 = map as_run (filter (\<lambda>p. fst p < snd p) (take 95 ?o))"
    using compact_ok [OF _ k] o1 by auto
  have "fst p < snd p \<and> snd p - fst p = 0x1000" if "p \<in> set (take 95 ?o)" for p
  proof -
    obtain j where j: "j < 95" "p = out1 ! j"
    proof -
      from \<open>p \<in> set (take 95 ?o)\<close> obtain j where "j < length (take 95 ?o)" "take 95 ?o ! j = p"
        unfolding in_set_conv_nth by blast
      then have "j < 95" "p = out1 ! j" by simp_all
      then show thesis by (rule that)
    qed
    then have p: "unat (fst p) = j * 0x2000" "unat (snd p) = j * 0x2000 + 0x1000"
      using o1(3) [of j] page_region_simps [of j] by simp_all
    then have "unat (snd p - fst p) = 0x1000" by (subst unat_sub) (simp_all add: word_le_nat_alt)
    then show ?thesis using p by (simp add: word_less_nat_alt word_unat_eq_iff)
  qed
  then have t: "filter (\<lambda>p. fst p < snd p) (take 95 ?o) = take 95 ?o"
    "\<forall>p \<in> set (take 95 ?o). snd (as_run p) = 0x1000"
    by (auto simp: filter_id_conv as_run_def)
  have "length (take kept out3) = 95" unfolding co(4) t(1) using o1(2) by simp
  then have kept: "kept = 95" unfolding length_take co(2) using co(1) by simp
  have "out3 = take 95 out3 @ [(0xBE000, 0xBE000)]"
    using co(2,3) id_take_nth_drop [of 95 out3] by simp
  moreover have "compact_run 95 (out3, 95) = (out3, 95)" using co(3) by (simp add: compact_run_def)
  moreover have "[0 ..< 96] = [0 ..< 95] @ [95 :: nat]" using upt_Suc_append [of 0 95] by simp
  ultimately have "fold compact_run [0 ..< 96] (?o, 0) = (take 95 out3 @ [(0xBE000, 0xBE000)], 95)"
    using k kept by simp
  then have "free_runs many_pages [(0xBE000, 0x1000)] (replicate MAX_FREE_RUNS (0, 0)) =
      (96, take 95 out3 @ [(0xBE000, 0xBE000)])"
    using f c o1(1,2) co(2) by (simp add: free_runs_def us MAX_FREE_RUNS_def)
  moreover have "\<forall>p \<in> set (take 95 out3). snd p = 0x1000"
    using co(4) t kept by auto
  ultimately show thesis using that [of "take 95 out3"] co(2) by simp
qed

text \<open>When the map has more usable ranges than the array, the guarantee above is lost: slots past the
  runs that were kept still hold what the earlier loops left there, and the count covers them. With 97
  usable pages and the last of the 96 that fit excluded, \<open>largest_free_run\<close> answers with that very page,
  read as a length the address it ends at.\<close>

theorem stale_run_reported:
  "largest_free_run many_pages [(0xBE000, 0x1000)] = Some (0xBE000, 0xBE000)"
proof -
  obtain ps where ps: "length ps = 95" "\<forall>p \<in> set ps. snd p = 0x1000"
    "free_runs many_pages [(0xBE000, 0x1000)] (replicate MAX_FREE_RUNS (0, 0)) = (96, ps @ [(0xBE000, 0xBE000)])"
    by (rule many_pages_runs)
  have "pred_option (\<lambda>q. snd q \<le> 0x1000) (fold keep_larger ps None)"
    using ps(2) by (intro fold_keep_larger) auto
  then have "keep_larger (0xBE000, 0xBE000) (fold keep_larger ps None) = Some (0xBE000, 0xBE000)"
    by (cases "fold keep_larger ps None") (auto simp: keep_larger_def word_le_nat_alt word_less_nat_alt)
  then show ?thesis using ps(1,3) by (simp add: largest_free_run_def MAX_FREE_RUNS_def)
qed

section \<open>The summary\<close>

text \<open>The largest value of \<open>f\<close> over the elements of a list that satisfy \<open>P\<close>, 0 if there are none.\<close>

definition is_highest :: "('a \<Rightarrow> bool) \<Rightarrow> ('a \<Rightarrow> u64) \<Rightarrow> 'a list \<Rightarrow> u64 \<Rightarrow> bool" where
  "is_highest P f xs m \<longleftrightarrow> list_all (\<lambda>x. f x \<le> m) (filter P xs) \<and> (m = 0 \<or> list_ex (\<lambda>x. f x = m) (filter P xs))"

lemma is_highest_snoc:
  assumes "is_highest P f xs m"
  shows "P x \<Longrightarrow> is_highest P f (xs @ [x]) (max m (f x))" "\<not> P x \<Longrightarrow> is_highest P f (xs @ [x]) m"
  using assms by (auto simp: is_highest_def list_all_iff list_ex_iff max_def intro: order_trans)

definition is_largest :: "memory_region list \<Rightarrow> (u64 \<times> u64) option \<Rightarrow> bool" where
  "is_largest us x = (case x of None \<Rightarrow> us = []
     | Some p \<Rightarrow> list_ex (\<lambda>r. p = (mr_start r, mr_len r)) us \<and> list_all (\<lambda>r. mr_len r \<le> snd p) us)"

lemma is_largest_snoc: "is_largest us x \<Longrightarrow>
    is_largest (us @ [r])
      (if (case x of Some (_, l) \<Rightarrow> mr_len r > l | None \<Rightarrow> True) then Some (mr_start r, mr_len r) else x)"
  by (cases x) (auto simp: is_largest_def list_all_iff list_ex_iff not_less intro: order_trans less_imp_le)

lemma saturating_sum: "unat (a :: u64) = min n (2 ^ 64 - 1) \<Longrightarrow>
    unat (saturating_add a b) = min (n + unat b) (2 ^ 64 - 1)"
  by (simp add: unat_saturating_add)

lemma sum_skip: "\<not> P x \<Longrightarrow> (\<Sum>y \<leftarrow> filter P (xs @ [x]). f y) = (\<Sum>y \<leftarrow> filter P xs. f y)" for f :: "'a \<Rightarrow> nat"
  by simp

definition non_empty :: "memory_region \<Rightarrow> bool" where
  "non_empty r \<longleftrightarrow> mr_len r \<noteq> 0"

text \<open>The summary of a memory map is right on every map: the two byte counts are the sums of the ranges
  (of the usable ones), capped instead of wrapped; the two top addresses are the highest ends of the
  non-empty ranges, with and without the reserved ones; and the largest usable range is a non-empty usable
  range of the map that no other exceeds, reported whenever there is one.\<close>

theorem summarise_exact:
  "let s = summarise rs in
      unat (ms_total_bytes s) = min (\<Sum>r \<leftarrow> rs. unat (mr_len r)) (2 ^ 64 - 1)
    \<and> unat (ms_usable_bytes s) = min (\<Sum>r \<leftarrow> filter is_usable rs. unat (mr_len r)) (2 ^ 64 - 1)
    \<and> is_highest non_empty region_end rs (ms_highest_address s)
    \<and> is_highest (\<lambda>r. non_empty r \<and> mr_kind r \<noteq> Reserved) region_end rs (ms_highest_ram s)
    \<and> is_largest (filter is_usable rs) (ms_largest_usable s)"
proof (induction rs rule: rev_induct)
  case Nil
  then show ?case
    by (simp add: summarise_def memory_stats_default_def is_highest_def is_largest_def)
next
  case (snoc r rs)
  let ?s = "summarise rs" and ?t = "summarise (rs @ [r])"
  have t: "?t = summarise_region r ?s" by (simp add: summarise_def)
  note ih = snoc [unfolded Let_def]
  show ?case
  proof (cases "mr_len r = 0")
    case True
    then have "?t = ?s" "\<not> is_usable r" "\<not> non_empty r" by (simp_all add: t summarise_region_def is_usable_def non_empty_def)
    then show ?thesis using ih True is_highest_snoc(2) [of non_empty]
        is_highest_snoc(2) [of "\<lambda>r. non_empty r \<and> mr_kind r \<noteq> Reserved"] by (simp add: Let_def)
  next
    case False
    then have f: "non_empty r" "is_usable r = usable_at_boot (mr_kind r)"
      by (simp_all add: non_empty_def is_usable_def word_greater_zero_iff)
    have parts: "ms_total_bytes ?t = saturating_add (ms_total_bytes ?s) (mr_len r)"
      "ms_highest_address ?t = max (ms_highest_address ?s) (region_end r)"
      "ms_highest_ram ?t = (if mr_kind r \<noteq> Reserved then max (ms_highest_ram ?s) (region_end r) else ms_highest_ram ?s)"
      "ms_usable_bytes ?t = (if is_usable r then saturating_add (ms_usable_bytes ?s) (mr_len r) else ms_usable_bytes ?s)"
      "ms_largest_usable ?t = (if is_usable r then
          if (case ms_largest_usable ?s of Some (_, l) \<Rightarrow> mr_len r > l | None \<Rightarrow> True)
          then Some (mr_start r, mr_len r) else ms_largest_usable ?s else ms_largest_usable ?s)"
      using False f(2) by (auto simp: t summarise_region_def Let_def)
    have "unat (ms_total_bytes ?t) = min (\<Sum>r \<leftarrow> rs @ [r]. unat (mr_len r)) (2 ^ 64 - 1)"
      unfolding parts using ih saturating_sum by simp
    moreover have "unat (ms_usable_bytes ?t) = min (\<Sum>r \<leftarrow> filter is_usable (rs @ [r]). unat (mr_len r)) (2 ^ 64 - 1)"
      unfolding parts using ih saturating_sum by (cases "is_usable r") simp_all
    moreover have "is_highest non_empty region_end (rs @ [r]) (ms_highest_address ?t)"
      unfolding parts by (rule is_highest_snoc(1)) (use ih f(1) in simp_all)
    moreover have "is_highest (\<lambda>r. non_empty r \<and> mr_kind r \<noteq> Reserved) region_end (rs @ [r]) (ms_highest_ram ?t)"
      unfolding parts using ih is_highest_snoc [of "\<lambda>r. non_empty r \<and> mr_kind r \<noteq> Reserved" region_end rs "ms_highest_ram ?s" r] f(1)
      by simp
    moreover have "is_largest (filter is_usable (rs @ [r])) (ms_largest_usable ?t)"
      unfolding parts using ih is_largest_snoc [of "filter is_usable rs" "ms_largest_usable ?s" r]
      by (cases "is_usable r") simp_all
    ultimately show ?thesis by (simp only: Let_def simp_thms)
  qed
qed

end
