(* ===== verification/MemMap.thy ===== *)
theory MemMap imports BootInfo begin

text \<open>
  Turning the firmware's memory map into the kernel's, \<open>crates/boot-uefi/src/memmap.rs\<close>: the walk over the
  raw descriptors with the firmware's own stride, the classification of each, coalescing, and how far up
  the linear map has to reach. Offsets into the buffer are natural numbers below its length.
\<close>

section \<open>Descriptors\<close>

definition RESERVED :: u32 where "RESERVED = 0"
definition LOADER_CODE :: u32 where "LOADER_CODE = 1"
definition LOADER_DATA :: u32 where "LOADER_DATA = 2"
definition BOOT_SERVICES_CODE :: u32 where "BOOT_SERVICES_CODE = 3"
definition BOOT_SERVICES_DATA :: u32 where "BOOT_SERVICES_DATA = 4"
definition CONVENTIONAL :: u32 where "CONVENTIONAL = 7"
definition UNUSABLE :: u32 where "UNUSABLE = 8"
definition ACPI_RECLAIM :: u32 where "ACPI_RECLAIM = 9"
definition ACPI_NVS :: u32 where "ACPI_NVS = 10"
definition MMIO :: u32 where "MMIO = 11"
definition MMIO_PORT :: u32 where "MMIO_PORT = 12"
definition PAL_CODE :: u32 where "PAL_CODE = 13"
definition PERSISTENT :: u32 where "PERSISTENT = 14"

definition EFI_PAGE_SIZE :: u64 where "EFI_PAGE_SIZE = 4096"

text \<open>\<open>size_of::<MemoryDescriptor>()\<close>: two 32-bit fields and four 64-bit ones.\<close>

definition DESCRIPTOR_SIZE :: nat where "DESCRIPTOR_SIZE = 4 + 4 + 8 + 8 + 8 + 8"

datatype convert_error = BadDescriptorSize | TooManyRegions nat

definition classify :: "u32 \<Rightarrow> memory_kind" where
  "classify ty =
     (if ty = CONVENTIONAL then Usable
      else if ty = ACPI_RECLAIM then AcpiReclaimable
      else if ty = ACPI_NVS then AcpiNvs
      else if ty = UNUSABLE then BadMemory
      else if ty = LOADER_CODE \<or> ty = LOADER_DATA then LoaderReclaimable
      else if ty = BOOT_SERVICES_CODE \<or> ty = BOOT_SERVICES_DATA then Reserved
      else if ty = PERSISTENT then Reserved
      else Reserved)"

definition raw_ty :: "bytes \<Rightarrow> u32" where
  "raw_ty raw = word_of_nat (from_le (slice 0 4 raw))"

definition raw_phys :: "bytes \<Rightarrow> u64" where
  "raw_phys raw = word_of_nat (from_le (slice 8 8 raw))"

definition raw_pages :: "bytes \<Rightarrow> u64" where
  "raw_pages raw = word_of_nat (from_le (slice 24 8 raw))"

section \<open>The conversion\<close>

text \<open>The loop of \<open>convert\<close>. It is entered with a stride of at least 40 bytes; the first conjunct of the
  condition says so.\<close>

function convert_loop :: "bytes \<Rightarrow> nat \<Rightarrow> nat \<Rightarrow> memory_region list \<Rightarrow> nat \<Rightarrow> convert_error + nat \<times> memory_region list" where
  "convert_loop mp dsize offset out n =
     (if 0 < dsize \<and> offset + dsize \<le> length mp then
        let raw = slice offset dsize mp;
            offset' = offset + dsize;
            len = saturating_mul (raw_pages raw) EFI_PAGE_SIZE
        in if len = 0 then convert_loop mp dsize offset' out n
           else
             let kind = classify (raw_ty raw); phys = raw_phys raw in
             if n > 0 \<and> mr_kind (out ! (n - 1)) = kind \<and> region_end (out ! (n - 1)) = phys
             then convert_loop mp dsize offset'
                    (out[n - 1 := (out ! (n - 1))\<lparr>mr_len := saturating_add (mr_len (out ! (n - 1))) len\<rparr>]) n
             else if n = length out
             then Inl (TooManyRegions (n + 1 + (length mp - offset') div dsize))
             else convert_loop mp dsize offset' (out[n := region_new phys len kind]) (n + 1)
      else Inr (n, out))"
  by pat_completeness auto
termination
  by (relation "measure (\<lambda>(mp, dsize, offset, out, n). length mp - offset)") auto

declare convert_loop.simps [simp del]

definition convert :: "bytes \<Rightarrow> nat \<Rightarrow> memory_region list \<Rightarrow> convert_error + nat \<times> memory_region list" where
  "convert mp dsize out =
     (if dsize < DESCRIPTOR_SIZE then Inl BadDescriptorSize else convert_loop mp dsize 0 out 0)"

section \<open>How far the linear map must reach\<close>

function highest_loop :: "bytes \<Rightarrow> nat \<Rightarrow> nat \<Rightarrow> u64 \<Rightarrow> u64" where
  "highest_loop mp dsize offset hi =
     (if 0 < dsize \<and> offset + dsize \<le> length mp then
        let raw = slice offset dsize mp; offset' = offset + dsize; ty = raw_ty raw in
        if ty = RESERVED \<or> ty = MMIO \<or> ty = MMIO_PORT \<or> ty = PAL_CODE
        then highest_loop mp dsize offset' hi
        else highest_loop mp dsize offset'
               (max hi (saturating_add (raw_phys raw) (saturating_mul (raw_pages raw) EFI_PAGE_SIZE)))
      else hi)"
  by pat_completeness auto
termination
  by (relation "measure (\<lambda>(mp, dsize, offset, hi). length mp - offset)") auto

declare highest_loop.simps [simp del]

definition highest_ram_address :: "bytes \<Rightarrow> nat \<Rightarrow> u64 \<Rightarrow> convert_error + u64" where
  "highest_ram_address mp dsize align =
     (if dsize < DESCRIPTOR_SIZE then Inl BadDescriptorSize
      else let hi = highest_loop mp dsize 0 0 in
        Inr (case checked_next_multiple_of hi align of Some v \<Rightarrow> v | None \<Rightarrow> - 1))"

section \<open>The descriptors as a list\<close>

text \<open>The raw descriptors from an offset on; a partial one at the end is not among them.\<close>

function descriptors :: "nat \<Rightarrow> bytes \<Rightarrow> nat \<Rightarrow> bytes list" where
  "descriptors dsize mp offset =
     (if 0 < dsize \<and> offset + dsize \<le> length mp
      then slice offset dsize mp # descriptors dsize mp (offset + dsize) else [])"
  by pat_completeness auto
termination
  by (relation "measure (\<lambda>(dsize, mp, offset). length mp - offset)") auto

declare descriptors.simps [simp del]

text \<open>The region one descriptor stands for, and its addresses.\<close>

definition raw_region :: "bytes \<Rightarrow> memory_region" where
  "raw_region raw =
     region_new (raw_phys raw) (saturating_mul (raw_pages raw) EFI_PAGE_SIZE) (classify (raw_ty raw))"

definition region_bytes :: "memory_region \<Rightarrow> u64 set" where
  "region_bytes r = {a. region_contains r a}"

definition kind_bytes :: "memory_kind \<Rightarrow> memory_region list \<Rightarrow> u64 set" where
  "kind_bytes k rs = (\<Union>r \<in> set (filter (\<lambda>r. mr_kind r = k) rs). region_bytes r)"

lemma kind_bytes_append: "kind_bytes k (xs @ ys) = kind_bytes k xs \<union> kind_bytes k ys"
  by (auto simp: kind_bytes_def)

lemma kind_bytes_Cons: "kind_bytes k (r # rs) = (if mr_kind r = k then region_bytes r else {}) \<union> kind_bytes k rs"
  by (auto simp: kind_bytes_def)

lemma kind_bytes_Nil [simp]: "kind_bytes k [] = {}"
  by (simp add: kind_bytes_def)

lemma empty_region: "mr_len r = 0 \<Longrightarrow> region_bytes r = {}"
  using unat_less_width [of "mr_start r"]
  by (auto simp: region_bytes_def region_contains_def region_end_def saturating_add_def)

text \<open>Growing a region by one that starts where it ends adds exactly the bytes of that one.\<close>

lemma coalesce_bytes:
  assumes "region_end r = phys"
  shows "region_bytes (r\<lparr>mr_len := saturating_add (mr_len r) len\<rparr>) =
    region_bytes r \<union> region_bytes (region_new phys len k)"
proof -
  let ?M = "2 ^ 64 - 1 :: nat"
  have e: "unat (region_end r) = min (unat (mr_start r) + unat (mr_len r)) ?M" for r
    by (simp add: region_end_def unat_saturating_add)
  have m: "a \<in> region_bytes r \<longleftrightarrow> unat (mr_start r) \<le> unat a \<and> unat a < min (unat (mr_start r) + unat (mr_len r)) ?M"
    for a r
    by (simp add: region_bytes_def region_contains_def word_le_nat_alt word_less_nat_alt e)
  have p: "unat phys = min (unat (mr_start r) + unat (mr_len r)) ?M" using assms e by auto
  have s: "unat (mr_start r) \<le> ?M" using unat_less_width [of "mr_start r"] by simp
  show ?thesis
  proof (rule set_eqI)
    fix a
    show "a \<in> region_bytes (r\<lparr>mr_len := saturating_add (mr_len r) len\<rparr>) \<longleftrightarrow>
        a \<in> region_bytes r \<union> region_bytes (region_new phys len k)"
      unfolding Un_iff m using p s by (simp add: region_new_def unat_saturating_add min_def) linarith
  qed
qed

section \<open>What the conversion keeps\<close>

lemma take_push: "n < length out \<Longrightarrow> take (Suc n) (out[n := x]) = take n out @ [x]"
  by (simp add: take_Suc_conv_app_nth)

lemma take_last: "0 < n \<Longrightarrow> n \<le> length out \<Longrightarrow> take n out = take (n - 1) out @ [out ! (n - 1)]"
  using take_Suc_conv_app_nth [of "n - 1" out] by simp

lemma take_grow: "0 < n \<Longrightarrow> n \<le> length out \<Longrightarrow> take n (out[n - 1 := x]) = take (n - 1) out @ [x]"
  using take_last [of n "out[n - 1 := x]"] by simp

lemma convert_loop_bytes:
  "convert_loop mp dsize offset out n = Inr (n', out') \<Longrightarrow> n \<le> length out \<Longrightarrow>
    n' \<le> length out' \<and> length out' = length out
    \<and> kind_bytes k (take n' out') = kind_bytes k (take n out) \<union> kind_bytes k (map raw_region (descriptors dsize mp offset))"
proof (induction mp dsize offset out n rule: convert_loop.induct)
  case (1 mp dsize offset out n)
  show ?case
  proof (cases "0 < dsize \<and> offset + dsize \<le> length mp")
    case False
    then show ?thesis
      using "1.prems" by (auto simp: convert_loop.simps [of mp dsize offset] descriptors.simps [of dsize mp offset])
  next
    case go: True
    define raw where "raw = slice offset dsize mp"
    define off where "off = offset + dsize"
    define len where "len = saturating_mul (raw_pages raw) EFI_PAGE_SIZE"
    define kind where "kind = classify (raw_ty raw)"
    define phys where "phys = raw_phys raw"
    have ds: "descriptors dsize mp offset = raw # descriptors dsize mp off"
      using go by (simp add: descriptors.simps [of dsize mp offset] raw_def off_def)
    have rr: "raw_region raw = region_new phys len kind"
      by (simp add: raw_region_def len_def kind_def phys_def)
    note step = "1.prems"(1) [unfolded convert_loop.simps [of mp dsize offset] Let_def if_P [OF go],
        folded raw_def off_def, folded len_def kind_def phys_def]
    note ih = "1.IH" [OF go raw_def off_def len_def]
    show ?thesis
    proof (cases "len = 0")
      case True
      then have "kind_bytes k [raw_region raw] = {}" by (simp add: rr kind_bytes_Cons empty_region region_new_def)
      then show ?thesis using ih(1) [OF True] step True "1.prems"(2) by (simp add: ds kind_bytes_Cons)
    next
      case len: False
      let ?prev = "out ! (n - 1)"
      show ?thesis
      proof (cases "n > 0 \<and> mr_kind ?prev = kind \<and> region_end ?prev = phys")
        case True
        let ?r = "?prev\<lparr>mr_len := saturating_add (mr_len ?prev) len\<rparr>"
        have tk: "take n out = take (n - 1) out @ [?prev]" "take n (out[n - 1 := ?r]) = take (n - 1) out @ [?r]"
          using True "1.prems"(2) by (simp_all only: take_last take_grow)
        have cb: "region_bytes ?r = region_bytes ?prev \<union> region_bytes (region_new phys len kind)"
          using True by (intro coalesce_bytes) simp
        have e: "kind_bytes k (take n (out[n - 1 := ?r])) = kind_bytes k (take n out) \<union> kind_bytes k [raw_region raw]"
          unfolding tk rr kind_bytes_append kind_bytes_Cons using True cb by (simp add: region_new_def Un_assoc)
        have "convert_loop mp dsize off (out[n - 1 := ?r]) n = Inr (n', out')"
          using step len True by simp
        then show ?thesis
          using ih(2) [OF len kind_def phys_def True] "1.prems"(2) e
          by (simp add: ds kind_bytes_Cons Un_assoc)
      next
        case fresh: False
        then have nf: "n \<noteq> length out" using step len by (auto split: if_splits)
        then have "convert_loop mp dsize off (out[n := region_new phys len kind]) (n + 1) = Inr (n', out')"
          using step by (simp only: len fresh nf if_False)
        moreover have "kind_bytes k (take (n + 1) (out[n := region_new phys len kind])) =
            kind_bytes k (take n out) \<union> kind_bytes k [raw_region raw]"
          using nf "1.prems"(2) by (simp add: take_push kind_bytes_append rr)
        ultimately show ?thesis
          using ih(3) [OF len kind_def phys_def fresh nf] "1.prems"(2) nf
          by (simp add: ds kind_bytes_Cons Un_assoc)
      qed
    qed
  qed
qed

text \<open>The kernel's map says exactly what the firmware's said. When \<open>convert\<close> succeeds, whatever the
  stride and however the entries are ordered, split, empty or saturating, the regions of each kind cover
  exactly the bytes of the descriptors classified as that kind; coalescing neither gains nor loses one, and
  nothing is written past the array.\<close>

theorem convert_exact:
  assumes "convert mp dsize out = Inr (n, out')"
  shows "n \<le> length out' \<and> length out' = length out
    \<and> kind_bytes k (take n out') = kind_bytes k (map raw_region (descriptors dsize mp 0))"
  using assms convert_loop_bytes [of mp dsize 0 out 0 n out' k]
  by (simp add: convert_def split: if_splits)

text \<open>A map of two descriptors that coalesce.\<close>

definition sample_descriptor :: "u8 \<Rightarrow> u8 \<Rightarrow> u8 \<Rightarrow> bytes" where
  "sample_descriptor ty phys pages = [ty, 0, 0, 0, 0, 0, 0, 0, 0, phys, 0, 0, 0, 0, 0, 0, 0, 0, 0, 0, 0, 0, 0, 0,
     pages, 0, 0, 0, 0, 0, 0, 0, 15, 0, 0, 0, 0, 0, 0, 0]"

definition sample_raw :: bytes where
  "sample_raw = sample_descriptor 7 0 1 @ sample_descriptor 7 0x10 2"

lemma sample_slices:
  "slice 0 40 sample_raw = sample_descriptor 7 0 1" "slice 40 40 sample_raw = sample_descriptor 7 0x10 2"
  "length sample_raw = 80"
  by (simp_all add: sample_raw_def sample_descriptor_def slice_def)

lemma sample_raw_fields:
  "raw_ty (sample_descriptor ty phys pages) = ucast ty" "raw_phys (sample_descriptor ty phys pages) = 256 * ucast phys"
  "raw_pages (sample_descriptor ty phys pages) = ucast pages"
  by (simp_all add: raw_ty_def raw_phys_def raw_pages_def sample_descriptor_def slice_def)

lemma sample_convert:
  "convert sample_raw 40 [region_new 0 0 Reserved] = Inr (1, [region_new 0 0x3000 Usable])"
  by (simp add: convert_def DESCRIPTOR_SIZE_def convert_loop.simps [of sample_raw 40 0] convert_loop.simps [of sample_raw 40 40]
      convert_loop.simps [of sample_raw 40 80] Let_def sample_slices sample_raw_fields classify_def CONVENTIONAL_def
      EFI_PAGE_SIZE_def saturating_mul_def saturating_add_def region_new_def region_end_def)

theorem convert_exact_witness:
  "kind_bytes Usable [region_new 0 0x3000 Usable] = kind_bytes Usable (map raw_region (descriptors 40 sample_raw 0))"
  using convert_exact [OF sample_convert, of Usable] by simp

section \<open>The reach of the linear map\<close>

lemma highest_loop_ge:
  "hi \<le> highest_loop mp dsize offset hi
   \<and> (\<forall>raw \<in> set (descriptors dsize mp offset). mr_kind (raw_region raw) \<noteq> Reserved \<longrightarrow>
        region_end (raw_region raw) \<le> highest_loop mp dsize offset hi)"
proof (induction mp dsize offset hi rule: highest_loop.induct)
  case (1 mp dsize offset hi)
  show ?case
  proof (cases "0 < dsize \<and> offset + dsize \<le> length mp")
    case False
    then show ?thesis by (auto simp: highest_loop.simps [of mp dsize offset] descriptors.simps [of dsize mp offset])
  next
    case go: True
    define raw where "raw = slice offset dsize mp"
    define off where "off = offset + dsize"
    define ty where "ty = raw_ty raw"
    have ds: "descriptors dsize mp offset = raw # descriptors dsize mp off"
      using go by (simp add: descriptors.simps [of dsize mp offset] raw_def off_def)
    have step: "highest_loop mp dsize offset hi = (if ty = RESERVED \<or> ty = MMIO \<or> ty = MMIO_PORT \<or> ty = PAL_CODE
        then highest_loop mp dsize off hi
        else highest_loop mp dsize off
               (max hi (saturating_add (raw_phys raw) (saturating_mul (raw_pages raw) EFI_PAGE_SIZE))))"
      unfolding highest_loop.simps [of mp dsize offset hi] if_P [OF go] Let_def raw_def off_def ty_def by (rule refl)
    note ih = "1.IH" [OF go raw_def off_def ty_def]
    show ?thesis
    proof (cases "ty = RESERVED \<or> ty = MMIO \<or> ty = MMIO_PORT \<or> ty = PAL_CODE")
      case True
      then have "mr_kind (raw_region raw) = Reserved"
        by (auto simp: raw_region_def region_new_def ty_def [symmetric] classify_def BOOT_SERVICES_CODE_def
            BOOT_SERVICES_DATA_def PERSISTENT_def CONVENTIONAL_def ACPI_RECLAIM_def
            ACPI_NVS_def UNUSABLE_def LOADER_CODE_def LOADER_DATA_def RESERVED_def MMIO_def MMIO_PORT_def PAL_CODE_def
            split: if_splits)
      then show ?thesis using ih(1) [OF True] True by (simp add: ds step)
    next
      case False
      have "region_end (raw_region raw) = saturating_add (raw_phys raw) (saturating_mul (raw_pages raw) EFI_PAGE_SIZE)"
        by (simp add: raw_region_def region_new_def region_end_def)
      then show ?thesis using ih(2) [OF False] False by (auto simp: ds step)
    qed
  qed
qed

lemma round_up_or_top:
  assumes "(case checked_next_multiple_of hi align of Some v \<Rightarrow> v | None \<Rightarrow> - 1) = reach"
  shows "hi \<le> reach" "reach = - 1 \<or> unat align dvd unat reach"
proof -
  have "hi \<le> reach \<and> (reach = - 1 \<or> unat align dvd unat reach)"
  proof (cases "checked_next_multiple_of hi align")
    case None
    then have r: "reach = - 1" using assms by simp
    show ?thesis unfolding r by simp
  next
    case (Some v)
    then show ?thesis using assms checked_next_multiple_of_Some [OF Some] by (simp add: word_le_nat_alt)
  qed
  then show "hi \<le> reach" "reach = - 1 \<or> unat align dvd unat reach" by auto
qed

text \<open>The linear map the loader sizes with \<open>highest_ram_address\<close> reaches everything the kernel may
  later treat as memory: every byte that \<open>convert\<close> puts in a region of any kind but \<open>Reserved\<close> lies below
  it, also when a descriptor claims the end of the address space, and the bound is a multiple of the
  alignment or the top of the address space.\<close>

theorem linear_map_covers_memory:
  assumes "convert mp dsize out = Inr (n, out')" and "highest_ram_address mp dsize align = Inr reach"
    and "k \<noteq> Reserved" and "a \<in> kind_bytes k (take n out')"
  shows "a < reach \<and> (reach = - 1 \<or> unat align dvd unat reach)"
proof -
  let ?hi = "highest_loop mp dsize 0 0"
  have reach: "(case checked_next_multiple_of ?hi align of Some v \<Rightarrow> v | None \<Rightarrow> - 1) = reach"
    using assms(2) by (simp add: highest_ram_address_def Let_def split: if_splits)
  have "a \<in> kind_bytes k (map raw_region (descriptors dsize mp 0))"
    using assms(1,4) convert_loop_bytes [of mp dsize 0 out 0 n out' k] by (simp add: convert_def split: if_splits)
  then obtain raw where raw: "raw \<in> set (descriptors dsize mp 0)" "mr_kind (raw_region raw) = k"
    "a \<in> region_bytes (raw_region raw)"
    by (auto simp: kind_bytes_def)
  then have "a < region_end (raw_region raw)" by (simp add: region_bytes_def region_contains_def)
  also have "\<dots> \<le> ?hi" using highest_loop_ge [of 0 mp dsize 0] raw(1,2) assms(3) by blast
  also have "\<dots> \<le> reach" by (rule round_up_or_top(1) [OF reach])
  finally show ?thesis using round_up_or_top(2) [OF reach] by simp
qed

theorem linear_map_covers_memory_witness: "(0x2FFF :: u64) < 0x200000"
proof -
  have h: "highest_ram_address sample_raw 40 0x200000 = Inr 0x200000"
    by (simp add: highest_ram_address_def DESCRIPTOR_SIZE_def highest_loop.simps [of sample_raw 40 0]
        highest_loop.simps [of sample_raw 40 40] highest_loop.simps [of sample_raw 40 80] Let_def sample_slices
        sample_raw_fields RESERVED_def MMIO_def MMIO_PORT_def PAL_CODE_def EFI_PAGE_SIZE_def saturating_mul_def
        saturating_add_def checked_next_multiple_of_def checked_add_def)
  have "(0x2FFF :: u64) \<in> kind_bytes Usable (take 1 [region_new 0 0x3000 Usable])"
    by (simp add: kind_bytes_def region_bytes_def region_contains_def region_end_def region_new_def saturating_add_def)
  from linear_map_covers_memory [OF sample_convert h _ this] show ?thesis by simp
qed

section \<open>Too small an array\<close>

lemma descriptors_count: "0 < dsize \<Longrightarrow> length (descriptors dsize mp offset) = (length mp - offset) div dsize"
proof (induction dsize mp offset rule: descriptors.induct)
  case (1 dsize mp offset)
  show ?case
  proof (cases "offset + dsize \<le> length mp")
    case True
    then have "(length mp - offset) div dsize = Suc ((length mp - (offset + dsize)) div dsize)"
      using "1.prems" le_div_geq [of dsize "length mp - offset"] by simp
    then show ?thesis using 1 True by (simp add: descriptors.simps [of dsize mp offset])
  next
    case False
    then have "length mp - offset < dsize" using "1.prems" by linarith
    then show ?thesis using False by (simp add: descriptors.simps [of dsize mp offset])
  qed
qed

lemma convert_loop_fits:
  "0 < dsize \<Longrightarrow> n + length (descriptors dsize mp offset) \<le> length out \<Longrightarrow>
    \<exists>r. convert_loop mp dsize offset out n = Inr r"
proof (induction mp dsize offset out n rule: convert_loop.induct)
  case (1 mp dsize offset out n)
  show ?case
  proof (cases "0 < dsize \<and> offset + dsize \<le> length mp")
    case False
    then show ?thesis unfolding convert_loop.simps [of mp dsize offset out] if_not_P [OF False] by blast
  next
    case go: True
    define raw where "raw = slice offset dsize mp"
    define off where "off = offset + dsize"
    define len where "len = saturating_mul (raw_pages raw) EFI_PAGE_SIZE"
    define kind where "kind = classify (raw_ty raw)"
    define phys where "phys = raw_phys raw"
    let ?prev = "out ! (n - 1)"
    have ds: "n + Suc (length (descriptors dsize mp off)) \<le> length out"
      using go "1.prems" by (simp add: descriptors.simps [of dsize mp offset] off_def)
    note step = convert_loop.simps [of mp dsize offset, unfolded Let_def if_P [OF go], folded raw_def off_def,
        folded len_def kind_def phys_def]
    note ih = "1.IH" [OF go raw_def off_def len_def]
    show ?thesis
    proof (cases "len = 0")
      case True
      then show ?thesis using ih(1) [OF True] "1.prems" ds by (simp add: step)
    next
      case len: False
      show ?thesis
      proof (cases "n > 0 \<and> mr_kind ?prev = kind \<and> region_end ?prev = phys")
        case True
        then show ?thesis using ih(2) [OF len kind_def phys_def True] "1.prems" ds len
          by (simp only: step if_False if_True simp_thms len) simp
      next
        case fresh: False
        have nf: "n \<noteq> length out" using ds by simp
        then show ?thesis using ih(3) [OF len kind_def phys_def fresh nf] "1.prems" ds
          unfolding step by (simp only: len fresh nf if_False) simp
      qed
    qed
  qed
qed

lemma convert_loop_retry:
  "convert_loop mp dsize offset out n = Inl e \<Longrightarrow> n \<le> length out \<Longrightarrow>
    (\<exists>m. e = TooManyRegions m \<and> n < m \<and> length out < m \<and>
      (take n out2 = take n out \<longrightarrow> m \<le> length out2 \<longrightarrow> (\<exists>r. convert_loop mp dsize offset out2 n = Inr r)))"
proof (induction mp dsize offset out n arbitrary: out2 rule: convert_loop.induct)
  case (1 mp dsize offset out n)
  have go: "0 < dsize \<and> offset + dsize \<le> length mp"
    using "1.prems"(1) by (auto simp: convert_loop.simps [of mp dsize offset] split: if_splits)
  define raw where "raw = slice offset dsize mp"
  define off where "off = offset + dsize"
  define len where "len = saturating_mul (raw_pages raw) EFI_PAGE_SIZE"
  define kind where "kind = classify (raw_ty raw)"
  define phys where "phys = raw_phys raw"
  let ?prev = "out ! (n - 1)"
  note step = convert_loop.simps [of mp dsize offset, unfolded Let_def if_P [OF go], folded raw_def off_def,
      folded len_def kind_def phys_def]
  note ih = "1.IH" [OF go raw_def off_def len_def]
  show ?case
  proof (cases "len = 0")
    case True
    then show ?thesis using ih(1) [OF True, of out2] "1.prems" by (simp add: step [of out] step [of out2])
  next
    case len: False
    show ?thesis
    proof (cases "n > 0 \<and> mr_kind ?prev = kind \<and> region_end ?prev = phys")
      case grow: True
      let ?r = "?prev\<lparr>mr_len := saturating_add (mr_len ?prev) len\<rparr>"
      have "convert_loop mp dsize off (out[n - 1 := ?r]) n = Inl e"
        using "1.prems"(1) unfolding step [of out] by (simp only: len grow if_False if_True simp_thms)
      from ih(2) [OF len kind_def phys_def grow this, of "out2[n - 1 := ?r]"] "1.prems"(2) obtain m where
        m: "e = TooManyRegions m" "n < m" "length out < m"
        "take n (out2[n - 1 := ?r]) = take n (out[n - 1 := ?r]) \<Longrightarrow> m \<le> length out2 \<Longrightarrow>
          \<exists>r. convert_loop mp dsize off (out2[n - 1 := ?r]) n = Inr r"
        by auto
      have "\<exists>r. convert_loop mp dsize offset out2 n = Inr r" if t: "take n out2 = take n out" "m \<le> length out2"
      proof -
        have n2: "n \<le> length out2" using m(2) t(2) by simp
        have p: "out2 ! (n - 1) = ?prev" using t(1) grow by (metis diff_less nth_take zero_less_one)
        have "take (n - 1) out2 = take (n - 1) out" using t(1) by (metis diff_le_self min_absorb1 take_take)
        then have "take n (out2[n - 1 := ?r]) = take n (out[n - 1 := ?r])"
          using grow n2 "1.prems"(2) by (simp only: take_grow)
        from m(4) [OF this t(2)] show ?thesis
          unfolding step [of out2] p by (simp only: len grow if_False if_True simp_thms)
      qed
      then show ?thesis using m(1-3) by blast
    next
      case fresh: False
      show ?thesis
      proof (cases "n = length out")
        case full: True
        have e: "e = TooManyRegions (n + 1 + (length mp - off) div dsize)"
          using "1.prems"(1) unfolding step [of out] if_not_P [OF len] if_not_P [OF fresh] if_P [OF full] by simp
        have "\<exists>r. convert_loop mp dsize offset out2 n = Inr r" if "n + 1 + (length mp - off) div dsize \<le> length out2"
        proof (rule convert_loop_fits)
          show "n + length (descriptors dsize mp offset) \<le> length out2"
            using that go descriptors_count [of dsize mp off]
            by (simp add: descriptors.simps [of dsize mp offset] off_def [symmetric])
        qed (use go in simp)
        then show ?thesis using e full by auto
      next
        case nf: False
        let ?new = "region_new phys len kind"
        have "convert_loop mp dsize off (out[n := ?new]) (n + 1) = Inl e"
          using "1.prems"(1) unfolding step [of out] by (simp only: len fresh nf if_False)
        from ih(3) [OF len kind_def phys_def fresh nf this, of "out2[n := ?new]"] "1.prems"(2) nf obtain m where
          m: "e = TooManyRegions m" "n + 1 < m" "length out < m"
          "take (n + 1) (out2[n := ?new]) = take (n + 1) (out[n := ?new]) \<Longrightarrow> m \<le> length out2 \<Longrightarrow>
            \<exists>r. convert_loop mp dsize off (out2[n := ?new]) (n + 1) = Inr r"
          by auto
        have "\<exists>r. convert_loop mp dsize offset out2 n = Inr r" if t: "take n out2 = take n out" "m \<le> length out2"
        proof -
          have n2: "n < length out2" using m(2) t(2) by simp
          have p: "0 < n \<Longrightarrow> out2 ! (n - 1) = ?prev" using t(1) by (metis diff_less nth_take zero_less_one)
          have f2: "\<not> (0 < n \<and> mr_kind (out2 ! (n - 1)) = kind \<and> region_end (out2 ! (n - 1)) = phys)"
            using fresh p by auto
          have "take (n + 1) (out2[n := ?new]) = take (n + 1) (out[n := ?new])"
            using n2 nf "1.prems"(2) t(1) by (simp add: take_push)
          moreover have "n \<noteq> length out2" using n2 by simp
          ultimately show ?thesis
            using m(4) t(2) unfolding step [of out2] by (simp only: len f2 if_False)
        qed
        then show ?thesis using m(1-3) by auto
      qed
    qed
  qed
qed

text \<open>A failure of \<open>convert\<close> tells the caller the truth. A bad stride is exactly one too small for a
  descriptor; and when the array was too small, the number reported is more than it had room for and is
  enough: with an array of that many slots the same map converts.\<close>

theorem convert_failure_informs:
  assumes "convert mp dsize out = Inl e"
  shows "case e of BadDescriptorSize \<Rightarrow> dsize < 40
    | TooManyRegions m \<Rightarrow> 40 \<le> dsize \<and> length out < m \<and> (m \<le> length out2 \<longrightarrow> \<not> isl (convert mp dsize out2))"
proof (cases "dsize < 40")
  case True
  then show ?thesis using assms by (auto simp: convert_def DESCRIPTOR_SIZE_def)
next
  case False
  then have "convert_loop mp dsize 0 out 0 = Inl e" using assms by (simp add: convert_def DESCRIPTOR_SIZE_def)
  from convert_loop_retry [OF this, of out2] obtain m where m: "e = TooManyRegions m" "length out < m"
    "m \<le> length out2 \<Longrightarrow> \<exists>r. convert_loop mp dsize 0 out2 0 = Inr r" by auto
  then show ?thesis using False by (auto simp: convert_def DESCRIPTOR_SIZE_def)
qed

theorem convert_failure_informs_witness: "\<not> isl (convert sample_raw 40 (replicate 2 (region_new 0 0 Reserved)))"
proof -
  have "convert sample_raw 40 [] = Inl (TooManyRegions 2)"
    by (simp add: convert_def DESCRIPTOR_SIZE_def convert_loop.simps [of sample_raw 40 0] Let_def sample_slices
        sample_raw_fields EFI_PAGE_SIZE_def saturating_mul_def)
  from convert_failure_informs [OF this, of "replicate 2 (region_new 0 0 Reserved)"] show ?thesis by simp
qed

end
