(* ===== verification/Space.thy ===== *)
theory Space imports PageTree Elf64 begin

text \<open>
  Building and tearing down the tree of a ring-3 task: the rest of \<open>crates/kernel/src/addrspace.rs\<close>,
  \<open>build_space\<close> of \<open>usermode.rs\<close> and the frame ledger of \<open>mem.rs\<close>. The frame allocator belongs to
  another crate: the frames it will hand out are the list \<open>pool\<close>, and what giving one back does to that
  list is the parameter \<open>give\<close>. The bytes of data pages are kept beside the entries of tables.
\<close>

section \<open>Frames\<close>

definition MAX_PAGE :: nat where "MAX_PAGE = 4096"

record memory =
  m_phys :: phys
  m_data :: "u64 \<Rightarrow> bytes"
  m_in_use :: u64

text \<open>\<open>mem::alloc_frame\<close> and \<open>mem::free_frame\<close>.\<close>

definition alloc_frame :: "memory \<Rightarrow> u64 option \<times> memory" where
  "alloc_frame m =
     (case pool (m_phys m) of
        [] \<Rightarrow> (None, m)
      | f # fs \<Rightarrow> (Some f, m\<lparr>m_phys := (m_phys m)\<lparr>pool := fs\<rparr>, m_in_use := m_in_use m + 1\<rparr>))"

definition free_frame :: "(u64 \<Rightarrow> u64 list \<Rightarrow> u64 list) \<Rightarrow> u64 \<Rightarrow> memory \<Rightarrow> memory" where
  "free_frame give f m =
     m\<lparr>m_phys := (m_phys m)\<lparr>pool := give f (pool (m_phys m))\<rparr>, m_in_use := m_in_use m - 1\<rparr>"

text \<open>What a mapper call does to the ledger: \<open>KernelFrames::alloc_table\<close> goes through \<open>alloc_frame\<close>, so
  every table frame it took is counted.\<close>

definition through_mapper :: "(phys \<Rightarrow> 'r \<times> phys) \<Rightarrow> memory \<Rightarrow> 'r \<times> memory" where
  "through_mapper f m =
     (case f (m_phys m) of (r, p) \<Rightarrow>
        (r, m\<lparr>m_phys := p, m_in_use := m_in_use m + word_of_nat (length (pool (m_phys m)) - length (pool p))\<rparr>))"

section \<open>The space\<close>

definition KERNEL_PML4_FIRST :: nat where "KERNEL_PML4_FIRST = 256"
definition USER_STACK :: u64 where "USER_STACK = 0x000000007FFFF000"
definition USER_STACK_TOP :: u64 where "USER_STACK_TOP = USER_STACK + PAGE_SIZE"
definition USER_DATA_VA :: u64 where "USER_DATA_VA = 0x0000000400000000"
definition USER_CLOCK_VA :: u64 where "USER_CLOCK_VA = 0x0000000400010000"

definition zero_page :: "u64 \<Rightarrow> memory \<Rightarrow> memory" where
  "zero_page f m = m\<lparr>m_data := (m_data m)(f := replicate MAX_PAGE 0)\<rparr>"

definition zero_table :: "u64 \<Rightarrow> phys \<Rightarrow> phys" where
  "zero_table f p = p\<lparr>entries := (entries p)(f := (\<lambda>_. 0))\<rparr>"

text \<open>\<open>AddressSpace::new\<close>, for a kernel tree at \<open>kroot\<close>.\<close>

definition space_new :: "u64 \<Rightarrow> bool \<Rightarrow> memory \<Rightarrow> (string + address_space) \<times> memory" where
  "space_new kroot gib m =
     (case alloc_frame m of
        (None, m1) \<Rightarrow> (Inl ''no frame for a user PML4'', m1)
      | (Some root, m1) \<Rightarrow>
          let p1 = zero_table root (m_phys m1);
              p2 = fold (\<lambda>slot p. write_entry root slot (read_entry kroot slot p) p)
                     [KERNEL_PML4_FIRST ..< 512] p1
          in (Inr \<lparr>as_root = root, as_entry = 0, as_gib_pages = gib, as_borrowed = None\<rparr>, m1\<lparr>m_phys := p2\<rparr>))"

definition map_error_as_str :: "map_error \<Rightarrow> string" where
  "map_error_as_str e = (case e of
     Misaligned \<Rightarrow> ''mapping request is not page-aligned''
   | OutOfFrames \<Rightarrow> ''no free frame for a page table''
   | LargePageCollision \<Rightarrow> ''mapping collides with an existing large page'')"

definition elf_error_as_str :: "elf_error \<Rightarrow> string" where
  "elf_error_as_str e = (case e of
     NotElf \<Rightarrow> ''not an ELF file''
   | NotElf64 \<Rightarrow> ''not ELF64 (32-bit image?)''
   | NotLittleEndian \<Rightarrow> ''not little-endian''
   | WrongMachine \<Rightarrow> ''wrong machine (not x86-64 '' @ [CHR 0xE2, CHR 0x80, CHR 0x94]
       @ '' aarch64 kernel on this ESP?)''
   | WrongType \<Rightarrow> ''not ET_EXEC (position-independent image?)''
   | TruncatedHeader \<Rightarrow> ''truncated ELF header''
   | TruncatedProgramHeaders \<Rightarrow> ''truncated program headers''
   | SegmentOutOfImage \<Rightarrow> ''segment lies outside the file''
   | FileLargerThanMemory \<Rightarrow> ''segment p_filesz > p_memsz''
   | UnalignedSegment \<Rightarrow> ''segment p_vaddr is not page-aligned''
   | NoLoadableSegments \<Rightarrow> ''no PT_LOAD segments''
   | SpanOverflow \<Rightarrow> ''image span overflows the address space'')"

text \<open>\<open>AddressSpace::map\<close>: one page, and never one without the user bit.\<close>

definition space_map ::
  "address_space \<Rightarrow> u64 \<Rightarrow> u64 \<Rightarrow> rights \<Rightarrow> memory \<Rightarrow> (string + unit) \<times> memory" where
  "space_map s virt phys r m =
     (if \<not> r_user r then (Inl ''a user mapping without the user bit is one ring 3 cannot use'', m)
      else case through_mapper (map_normal (as_gib_pages s) (as_root s) virt phys PAGE_SIZE r) m of
        (Inl e, m1) \<Rightarrow> (Inl (map_error_as_str e), m1)
      | (Inr u, m1) \<Rightarrow> (Inr (), m1))"

text \<open>Writing bytes from the start of a page.\<close>

definition write_page :: "u64 \<Rightarrow> bytes \<Rightarrow> memory \<Rightarrow> memory" where
  "write_page f bs m = m\<lparr>m_data := (m_data m)(f := bs @ drop (length bs) (m_data m f))\<rparr>"

text \<open>The inner loop of \<open>load\<close>, over the pages of a segment still to come.\<close>

fun load_pages ::
  "address_space \<Rightarrow> segment \<Rightarrow> rights \<Rightarrow> u64 \<Rightarrow> nat \<Rightarrow> nat \<Rightarrow> memory \<Rightarrow> (string + unit) \<times> memory"
where
  "load_pages s seg r page copied 0 m = (Inr (), m)"
| "load_pages s seg r page copied (Suc left) m =
     (case alloc_frame m of
        (None, m1) \<Rightarrow> (Inl ''no frame for a program segment'', m1)
      | (Some frame, m1) \<Rightarrow>
          let n = min MAX_PAGE (length (sg_file seg) - copied);
              m2 = write_page frame (take n (drop copied (sg_file seg))) (zero_page frame m1)
          in case space_map s (sg_vaddr seg + page * PAGE_SIZE) frame r m2 of
               (Inl e, m3) \<Rightarrow> (Inl e, m3)
             | (Inr u, m3) \<Rightarrow> load_pages s seg r (page + 1) (copied + n) left m3)"

fun load_segments ::
  "address_space \<Rightarrow> (elf_error + segment) list \<Rightarrow> memory \<Rightarrow> (string + unit) \<times> memory"
where
  "load_segments s [] m = (Inr (), m)"
| "load_segments s (Inl e # rest) m = (Inl (elf_error_as_str e), m)"
| "load_segments s (Inr seg # rest) m =
     (if elf_is_wx (sg_rights seg)
      then (Inl ''the image has a segment that is both writable and executable'', m)
      else if USER_LIMIT \<le> sg_vaddr seg \<or> USER_LIMIT - sg_vaddr seg < sg_memsz seg
      then (Inl ''a segment does not fit in the user half of the address space'', m)
      else
        let r = \<lparr>r_write = er_write (sg_rights seg), r_exec = er_exec (sg_rights seg), r_user = True\<rparr>
        in case load_pages s seg r 0 0 (unat (segment_pages seg)) m of
             (Inl e, m1) \<Rightarrow> (Inl e, m1)
           | (Inr u, m1) \<Rightarrow> load_segments s rest m1)"

text \<open>\<open>AddressSpace::load\<close>: the space comes back with its entry point set.\<close>

definition load :: "address_space \<Rightarrow> elf \<Rightarrow> memory \<Rightarrow> (string + address_space) \<times> memory" where
  "load s img m =
     (case load_segments s (segment_items (elf_segments img)) m of
        (Inl e, m1) \<Rightarrow> (Inl e, m1)
      | (Inr u, m1) \<Rightarrow>
          let s1 = s\<lparr>as_entry := e_entry img\<rparr> in
          if USER_LIMIT \<le> as_entry s1 then (Inl ''the image's entry point is not a user address'', m1)
          else (Inr s1, m1))"

definition map_stack :: "address_space \<Rightarrow> memory \<Rightarrow> (string + unit) \<times> memory" where
  "map_stack s m =
     (case alloc_frame m of
        (None, m1) \<Rightarrow> (Inl ''no frame for a user stack'', m1)
      | (Some frame, m1) \<Rightarrow> space_map s USER_STACK frame (to_user RW) (zero_page frame m1))"

definition seed_id :: "address_space \<Rightarrow> u8 \<Rightarrow> memory \<Rightarrow> (string + unit) \<times> memory" where
  "seed_id s i m =
     (case alloc_frame m of
        (None, m1) \<Rightarrow> (Inl ''no frame for the process id page'', m1)
      | (Some frame, m1) \<Rightarrow>
          space_map s USER_DATA_VA frame (to_user RW) (write_page frame [i] (zero_page frame m1)))"

definition map_clock :: "address_space \<Rightarrow> u64 \<Rightarrow> memory \<Rightarrow> (string + address_space) \<times> memory" where
  "map_clock s frame m =
     (let s1 = s\<lparr>as_borrowed := Some frame\<rparr> in
      case space_map s1 USER_CLOCK_VA frame (to_user RO) m of
        (Inl e, m1) \<Rightarrow> (Inl e, m1)
      | (Inr u, m1) \<Rightarrow> (Inr s1, m1))"

definition space_translate :: "address_space \<Rightarrow> u64 \<Rightarrow> memory \<Rightarrow> u64 option" where
  "space_translate s virt m = map_option t_phys (translate (as_root s) virt (m_phys m))"

text \<open>\<open>build_space\<close> of \<open>usermode.rs\<close>: every \<open>?\<close> of it is a branch.\<close>

definition build_space ::
  "u64 \<Rightarrow> bool \<Rightarrow> bytes \<Rightarrow> u8 \<Rightarrow> u64 \<Rightarrow> memory \<Rightarrow> (string + address_space) \<times> memory" where
  "build_space kroot gib user_image i clock m =
     (case elf_parse user_image of
        Inl e \<Rightarrow> (Inl (elf_error_as_str e), m)
      | Inr img \<Rightarrow>
     (case space_new kroot gib m of
        (Inl e, m1) \<Rightarrow> (Inl e, m1)
      | (Inr s, m1) \<Rightarrow>
     (case load s img m1 of
        (Inl e, m2) \<Rightarrow> (Inl e, m2)
      | (Inr s, m2) \<Rightarrow>
     (case map_stack s m2 of
        (Inl e, m3) \<Rightarrow> (Inl e, m3)
      | (Inr _, m3) \<Rightarrow>
     (case seed_id s i m3 of
        (Inl e, m4) \<Rightarrow> (Inl e, m4)
      | (Inr _, m4) \<Rightarrow> map_clock s clock m4)))))"

section \<open>Teardown\<close>

text \<open>\<open>free_level\<close>: levels count 4, 3, 2, 1 as in the source; the slots are visited in order, and a
  table is given back after everything below it.\<close>

fun free_level ::
  "(u64 \<Rightarrow> u64 list \<Rightarrow> u64 list) \<Rightarrow> u64 \<Rightarrow> nat \<Rightarrow> u64 option \<Rightarrow> memory \<Rightarrow> nat \<times> memory" where
  "free_level give table 0 borrowed m = (0, m)"
| "free_level give table (Suc level) borrowed m =
     fold (\<lambda>slot (freed, m1).
        let entry = read_entry table slot (m_phys m1); frame = entry AND PTE_ADDR_MASK in
        if entry AND PTE_PRESENT = 0 then (freed, m1)
        else if Suc level = 1 \<or> entry AND PTE_HUGE \<noteq> 0 then
          (if Some frame = borrowed then (freed, m1) else (freed + 1, free_frame give frame m1))
        else (case free_level give frame level borrowed m1 of
            (n, m2) \<Rightarrow> (freed + n + 1, free_frame give frame m2)))
       [0 ..< (if Suc level = 4 then KERNEL_PML4_FIRST else 512)] (0, m)"

definition destroy :: "(u64 \<Rightarrow> u64 list \<Rightarrow> u64 list) \<Rightarrow> address_space \<Rightarrow> memory \<Rightarrow> nat \<times> memory" where
  "destroy give s m =
     (case free_level give (as_root s) 4 (as_borrowed s) m of
        (freed, m1) \<Rightarrow> (freed + 1, free_frame give (as_root s) m1))"

definition reachable_by_user :: "u64 \<Rightarrow> bool" where
  "reachable_by_user entry \<longleftrightarrow> entry AND PTE_PRESENT \<noteq> 0 \<and> entry AND PTE_USER \<noteq> 0"

definition user_reachable_kernel_slots :: "u64 \<Rightarrow> phys \<Rightarrow> nat" where
  "user_reachable_kernel_slots root p =
     length (filter (\<lambda>slot. reachable_by_user (read_entry root slot p)) [KERNEL_PML4_FIRST ..< 512])"

end
