(* ===== verification/SpaceTree.thy ===== *)
theory SpaceTree imports Space begin

text \<open>
  What a ring-3 address space holds: the frames its tree reaches below the user half, how mapping a page
  changes them, and the invariant of a space while \<open>crates/kernel/src/addrspace.rs\<close> is building it.
\<close>

section \<open>The frames a tree holds\<close>

text \<open>The frame of a leaf, unless it is the borrowed one.\<close>

definition owned :: "u64 option \<Rightarrow> u64 \<Rightarrow> u64 multiset" where
  "owned b e = (if Some (e AND PTE_ADDR_MASK) = b then {#} else {#e AND PTE_ADDR_MASK#})"

definition slot_held :: "(u64 \<Rightarrow> u64 multiset) \<Rightarrow> u64 option \<Rightarrow> nat \<Rightarrow> u64 \<Rightarrow> u64 multiset" where
  "slot_held below b l e =
     (if \<not> bit e 0 then {#} else if l = 0 \<or> bit e 7 then owned b e
      else add_mset (e AND PTE_ADDR_MASK) (below (e AND PTE_ADDR_MASK)))"

definition slots :: "nat \<Rightarrow> nat" where
  "slots l = (if l = 3 then KERNEL_PML4_FIRST else 512)"

text \<open>Levels as in \<open>free_level\<close>: the table is at level \<open>Suc l\<close>.\<close>

fun held :: "phys \<Rightarrow> u64 option \<Rightarrow> nat \<Rightarrow> u64 \<Rightarrow> u64 multiset" where
  "held m b 0 t = {#}"
| "held m b (Suc l) t = (\<Sum>i < slots l. slot_held (held m b l) b l (entries m t i))"

declare held.simps(2) [simp del]

lemma slot_zero: "slot_held h b 0 e = (if bit e 0 then owned b e else {#})"
  by (simp add: slot_held_def)

lemma slots_le: "slots l \<le> 512" "l \<noteq> 3 \<Longrightarrow> slots l = 512"
  by (simp_all add: slots_def KERNEL_PML4_FIRST_def)

lemma sum_change:
  fixes f g :: "nat \<Rightarrow> 'a multiset"
  assumes "i < k" "\<And>j. j < k \<Longrightarrow> j \<noteq> i \<Longrightarrow> g j = f j"
  shows "(\<Sum>j < k. g j) + f i = (\<Sum>j < k. f j) + g i"
proof -
  have "(\<Sum>j \<in> {..<k} - {i}. g j) = (\<Sum>j \<in> {..<k} - {i}. f j)" using assms(2) by (intro sum.cong) auto
  then show ?thesis using assms(1) by (simp add: sum.remove [of "{..<k}" i] add.commute add.left_commute)
qed

lemma slot_in_held: "i < slots l \<Longrightarrow> slot_held (held m b l) b l (entries m t i) \<subseteq># held m b (Suc l) t"
  unfolding held.simps by (simp add: sum.remove [of "{..<slots l}" i])

lemma frame_held:
  assumes "\<And>x. x \<in> tables m w t \<Longrightarrow> entries m' x = entries m x"
  shows "held m' b (Suc w) t = held m b (Suc w) t"
  using assms
proof (induction w arbitrary: t)
  case 0
  have "entries m' t = entries m t" using 0 by simp
  then show ?case by (simp add: held.simps slot_zero)
next
  case (Suc l)
  have e: "entries m' t = entries m t" using Suc.prems by simp
  have "slot_held (held m' b (Suc l)) b (Suc l) (entries m t i) = slot_held (held m b (Suc l)) b (Suc l) (entries m t i)"
    if "i < slots (Suc l)" for i
  proof (cases "is_table (entries m t i)")
    case True
    have "i < 512" using that slots_le(1) [of "Suc l"] by simp
    then have "held m' b (Suc l) (entries m t i AND PTE_ADDR_MASK) = held m b (Suc l) (entries m t i AND PTE_ADDR_MASK)"
      using True Suc.prems by (intro Suc.IH) auto
    then show ?thesis by (simp add: slot_held_def)
  next
    case False
    then show ?thesis by (auto simp: slot_held_def is_table_def)
  qed
  then show ?case unfolding held.simps(2) [of _ b "Suc l"] e by (intro sum.cong) auto
qed

lemma held_empty: "entries m f = (\<lambda>_. 0) \<Longrightarrow> held m b (Suc l) f = {#}"
  by (simp add: held.simps slot_held_def)

text \<open>What mapping one page does to the frames held: the tables it took are added, the page is added, and
  the page that was there before is gone from the tree. Nothing outside the tables reached through
  user slots and the pool is written.\<close>

definition was_there :: "u64 option \<Rightarrow> (nat \<times> u64) option \<Rightarrow> u64 multiset" where
  "was_there b x = (case x of None \<Rightarrow> {#} | Some (l, e) \<Rightarrow> owned b e)"

definition down_held ::
  "u64 option \<Rightarrow> u64 \<Rightarrow> u64 \<Rightarrow> nat \<Rightarrow> u64 \<Rightarrow> phys \<Rightarrow> map_error + unit \<Rightarrow> phys \<Rightarrow> bool" where
  "down_held b v bits w t m res m' \<longleftrightarrow>
     (\<exists>used. pool m = used @ pool m'
       \<and> held m' b (Suc w) t + (if res = Inr () then was_there b (lookup m v w t) else {#})
         = held m b (Suc w) t + mset used + (if res = Inr () then owned b bits else {#}))
     \<and> (\<forall>x. x \<noteq> t \<longrightarrow> x \<notin># held m b (Suc w) t \<longrightarrow> x \<notin> set (pool m) \<longrightarrow> entries m' x = entries m x)
     \<and> (\<forall>j. j \<noteq> index v w \<longrightarrow> entries m' t j = entries m t j)"

lemma slot_table: "is_table e \<Longrightarrow> slot_held h b (Suc l) e = add_mset (e AND PTE_ADDR_MASK) (h (e AND PTE_ADDR_MASK))"
  by (simp add: slot_held_def is_table_def)

lemma slot_absent: "\<not> bit e 0 \<Longrightarrow> slot_held h b l e = {#}"
  by (simp add: slot_held_def)

text \<open>The step of the induction: the child at \<open>i\<close> was worked on, its siblings were not touched.\<close>

lemma held_child:
  assumes ok: "tree_ok m (Suc l) t" and i: "i < slots (Suc l)"
    and e1: "is_table e1" and t2: "entries m2 t = (entries m t)(i := e1)"
    and sib: "\<And>j x. j < 512 \<Longrightarrow> j \<noteq> i \<Longrightarrow> is_table (entries m t j) \<Longrightarrow>
       x \<in> tables m l (entries m t j AND PTE_ADDR_MASK) \<Longrightarrow> entries m2 x = entries m x"
  shows "held m2 b (Suc (Suc l)) t + slot_held (held m b (Suc l)) b (Suc l) (entries m t i)
    = held m b (Suc (Suc l)) t + add_mset (e1 AND PTE_ADDR_MASK) (held m2 b (Suc l) (e1 AND PTE_ADDR_MASK))"
proof -
  have "slot_held (held m2 b (Suc l)) b (Suc l) (entries m2 t j) = slot_held (held m b (Suc l)) b (Suc l) (entries m t j)"
    if "j < slots (Suc l)" "j \<noteq> i" for j
  proof (cases "is_table (entries m t j)")
    case True
    have "j < 512" using that slots_le(1) [of "Suc l"] by simp
    from sib [OF this that(2) True] have "held m2 b (Suc l) (entries m t j AND PTE_ADDR_MASK)
        = held m b (Suc l) (entries m t j AND PTE_ADDR_MASK)" by (rule frame_held)
    then show ?thesis using that t2 True by (simp add: slot_table)
  next
    case False
    then show ?thesis using that t2 by (auto simp: slot_held_def is_table_def)
  qed
  from sum_change [where g = "\<lambda>j. slot_held (held m2 b (Suc l)) b (Suc l) (entries m2 t j)"
      and f = "\<lambda>j. slot_held (held m b (Suc l)) b (Suc l) (entries m t j)", OF i this]
  show ?thesis
    unfolding held.simps(2) [of _ b "Suc l"] using t2 e1 by (simp add: slot_table)
qed

lemma held_balance:
  assumes "A + add_mset c H = B + add_mset c H'" "H' + W = H + U + N"
  shows "A + W = B + U + N"
proof -
  have "A + W + H = B + H' + W" using assms(1) by (simp add: ac_simps)
  then have "A + W + H = B + U + N + H" using assms(2) by (simp add: ac_simps)
  then show ?thesis by simp
qed

lemma map_down_held:
  assumes "tree_ok m w t" "pool_ok m (tables m w t)" "w \<le> 3" "index v w < slots w"
    and "bit bits 0" "bit bits 2 \<longrightarrow> r_user r" "map_down v r 0 bits w t m = (res, m')"
  shows "down_held b v bits w t m res m'"
  using assms
proof (induction w arbitrary: t m res m')
  case 0
  have e: "res = Inr ()" "entries m' = (entries m)(t := (entries m t)(index v 0 := bits))" "pool m' = pool m"
    using 0 by (auto simp: map_down.simps [of v r 0 bits 0] write_entry_def)
  have "held m' b (Suc 0) t + slot_held (held m b 0) b 0 (entries m t (index v 0))
      = held m b (Suc 0) t + slot_held (held m' b 0) b 0 (entries m' t (index v 0))"
    unfolding held.simps by (rule sum_change [OF 0(4)]) (simp add: e slot_zero)
  then show ?case using 0(5) e
    by (auto simp: down_held_def was_there_def slot_zero Let_def)
next
  case (Suc l)
  have l3: "l \<noteq> 3" "l \<le> 3" using Suc.prems(3) by simp_all
  let ?i = "index v (Suc l)" and ?e = "entries m t (index v (Suc l))"
  obtain x m1 where n: "next_table t ?i r m = (x, m1)" by (cases "next_table t ?i r m")
  have md: "(case x of Inl e \<Rightarrow> (Inl e, m1) | Inr c \<Rightarrow> map_down v r 0 bits l c m1) = (res, m')"
    using Suc.prems(7) n by (simp add: map_down.simps [of v r 0 bits "Suc l"] split: sum.splits)
  have idx: "index v l < slots l" using index_bound [of v l] slots_le(2) [OF l3(1)] by simp
  have fresh: "x \<notin> tables m (Suc l) t" if "x \<in> set (pool m)" for x
    using Suc.prems(2) that by (auto simp: pool_ok_def)
  then have tp: "t \<notin> set (pool m)" using tables_self by blast
  have part: "slot_held (held m b (Suc l)) b (Suc l) ?e \<subseteq># held m b (Suc (Suc l)) t"
    by (rule slot_in_held [OF Suc.prems(4)])
  from n show ?case
  proof (cases rule: next_table_cases)
    case huge
    with md show ?thesis by (auto simp: down_held_def)
  next
    case empty
    with md show ?thesis by (auto simp: down_held_def)
  next
    case (present e1)
    let ?c = "?e AND PTE_ADDR_MASK"
    have old: "tree_ok m l ?c" "t \<notin> tables m l ?c"
      "\<And>j. j < 512 \<Longrightarrow> j \<noteq> ?i \<Longrightarrow> is_table (entries m t j) \<Longrightarrow>
        tables m l ?c \<inter> tables m l (entries m t j AND PTE_ADDR_MASK) = {} \<and> t \<notin> tables m l (entries m t j AND PTE_ADDR_MASK)"
      using Suc.prems(1) present(1) index_bound [of v "Suc l"] by auto
    have c: "e1 AND PTE_ADDR_MASK = ?c" by (simp add: present(2) widen_frame)
    have eq: "entries m1 x = entries m x" if "x \<in> tables m l ?c" for x
      using that old(2) present(5) by auto
    note fr = frame_tables [OF eq] frame_tree_ok [OF eq] frame_lookup [OF eq]
    have heq: "held m1 b (Suc l) ?c = held m b (Suc l) ?c" by (rule frame_held) (rule eq)
    have sub: "tables m l ?c \<subseteq> tables m (Suc l) t" using present(1) index_bound [of v "Suc l"] by auto
    have go: "map_down v r 0 bits l ?c m1 = (res, m')" using md present(3) by simp
    have pok: "pool_ok m1 (tables m1 l ?c)"
      using Suc.prems(2) sub fr(1) present(4) by (auto simp: pool_ok_def)
    have ih: "down_held b v bits l ?c m1 res m'"
      using old(1) fr(2) pok Suc.prems(5,6) idx l3(2) go by (intro Suc.IH) auto
    have post: "down_post v r 0 bits l ?c m1 res m'"
      using old(1) fr(2) pok Suc.prems(5,6) go by (intro map_down_ok) auto
    have out: "entries m' x = entries m1 x" if "x \<notin> tables m l ?c" "x \<notin> set (pool m)" for x
      using post that fr(1) present(4) by (simp add: down_post_def)
    have lk: "lookup m v (Suc l) t = lookup m1 v l ?c"
      using fr(3) is_table_bits [OF present(1)] by (simp add: Let_def)
    have t1: "entries m1 t = (entries m t)(?i := e1)" using present(5) by simp
    have ch: "held m' b (Suc (Suc l)) t + slot_held (held m b (Suc l)) b (Suc l) ?e
        = held m b (Suc (Suc l)) t + add_mset (e1 AND PTE_ADDR_MASK) (held m' b (Suc l) (e1 AND PTE_ADDR_MASK))"
    proof (rule held_child [OF Suc.prems(1,4)])
      show "is_table e1" using present(1,2) widened_entry(1) by simp
      show "entries m' t = (entries m t)(?i := e1)" using out [OF old(2) tp] t1 by simp
      fix j x assume j: "j < 512" "j \<noteq> ?i" "is_table (entries m t j)"
        and x: "x \<in> tables m l (entries m t j AND PTE_ADDR_MASK)"
      have "x \<in> tables m (Suc l) t" using j x by auto
      then have "x \<notin> set (pool m)" using fresh by blast
      then have "entries m' x = entries m1 x" using old(3) [OF j] x by (intro out) auto
      moreover have "x \<noteq> t" using old(3) [OF j] x by auto
      ultimately show "entries m' x = entries m x" using present(5) by simp
    qed
    from ih obtain used where used: "pool m1 = used @ pool m'"
      "held m' b (Suc l) ?c + (if res = Inr () then was_there b (lookup m1 v l ?c) else {#})
         = held m b (Suc l) ?c + mset used + (if res = Inr () then owned b bits else {#})"
      unfolding down_held_def heq by blast
    have "held m' b (Suc (Suc l)) t + (if res = Inr () then was_there b (lookup m v (Suc l) t) else {#})
         = held m b (Suc (Suc l)) t + mset used + (if res = Inr () then owned b bits else {#})"
      using ch unfolding lk slot_table [OF present(1)] c by (rule held_balance) (rule used(2))
    moreover have "entries m' x = entries m x"
      if x: "x \<noteq> t" "x \<notin># held m b (Suc (Suc l)) t" "x \<notin> set (pool m)" for x
    proof -
      have "x \<noteq> ?c" "x \<notin># held m b (Suc l) ?c"
        using part x(2) unfolding slot_table [OF present(1)] by (auto dest: mset_subset_eqD)
      then have "entries m' x = entries m1 x"
        using ih x(3) heq present(4) by (simp add: down_held_def)
      then show ?thesis using x(1) present(5) by simp
    qed
    moreover have "entries m' t = (entries m t)(?i := e1)" using out [OF old(2) tp] t1 by simp
    ultimately show ?thesis using used(1) present(4) unfolding down_held_def by auto
  next
    case (grown f fs)
    have f: "frame_ok f" "f \<notin> tables m (Suc l) t" "f \<noteq> t" "f \<notin> set fs"
      using Suc.prems(2) grown(2) tp by (auto simp: pool_ok_def)
    let ?e1 = "f OR intermediate_bits r"
    note fe = fresh_entry [OF f(1), of r]
    have zero: "entries m1 f = (\<lambda>_. 0)" using grown(5) f(3) by simp
    note em = empty_table [OF zero]
    have go: "map_down v r 0 bits l f m1 = (res, m')" using md grown(4) by simp
    have pok: "pool_ok m1 (tables m1 l f)"
      using Suc.prems(2) f(4) grown(2,3) em(1) by (auto simp: pool_ok_def)
    have ih: "down_held b v bits l f m1 res m'"
      using em(2) pok Suc.prems(5,6) idx l3(2) go by (intro Suc.IH) auto
    have post: "down_post v r 0 bits l f m1 res m'"
      using em(2) pok Suc.prems(5,6) go by (intro map_down_ok) auto
    have out: "entries m' x = entries m1 x" if "x \<noteq> f" "x \<notin> set fs" for x
      using post that em(1) grown(3) by (simp add: down_post_def)
    have other: "entries m1 x = entries m x" if "x \<noteq> t" "x \<noteq> f" for x
      using that grown(5) by (simp add: Let_def)
    have t1: "entries m1 t = (entries m t)(?i := ?e1)" using grown(5) f(3) by (simp add: Let_def)
    have ch: "held m' b (Suc (Suc l)) t + slot_held (held m b (Suc l)) b (Suc l) ?e
        = held m b (Suc (Suc l)) t + add_mset (?e1 AND PTE_ADDR_MASK) (held m' b (Suc l) (?e1 AND PTE_ADDR_MASK))"
    proof (rule held_child [OF Suc.prems(1,4) fe(1)])
      show "entries m' t = (entries m t)(?i := ?e1)" using out [of t] f(3) tp grown(2) t1 by auto
      fix j x assume j: "j < 512" "j \<noteq> ?i" "is_table (entries m t j)"
        and x: "x \<in> tables m l (entries m t j AND PTE_ADDR_MASK)"
      have xt: "x \<in> tables m (Suc l) t" using j x by auto
      then have "x \<notin> set (pool m)" using fresh by blast
      moreover have "x \<noteq> t" using Suc.prems(1) j x by auto
      ultimately show "entries m' x = entries m x" using out [of x] other [of x] grown(2) by auto
    qed
    from ih obtain used where used: "fs = used @ pool m'"
      "held m' b (Suc l) f = mset used + (if res = Inr () then owned b bits else {#})"
      using em(3) held_empty [OF zero] by (auto simp: down_held_def grown(3) was_there_def split: if_splits)
    have "held m' b (Suc (Suc l)) t = held m b (Suc (Suc l)) t + add_mset f (held m' b (Suc l) f)"
      using ch unfolding slot_absent [OF grown(1)] fe(4) by simp
    moreover have "lookup m v (Suc l) t = None" using grown(1) by (simp add: Let_def)
    ultimately have "held m' b (Suc (Suc l)) t + (if res = Inr () then was_there b (lookup m v (Suc l) t) else {#})
         = held m b (Suc (Suc l)) t + mset (f # used) + (if res = Inr () then owned b bits else {#})"
      using used(2) by (simp add: was_there_def)
    moreover have "pool m = (f # used) @ pool m'" using grown(2) used(1) by simp
    moreover have "entries m' x = entries m x"
      if x: "x \<noteq> t" "x \<notin> set (pool m)" for x
      using out [of x] other [of x] x grown(2) by auto
    moreover have "entries m' t = (entries m t)(?i := ?e1)" using out [of t] f(3) tp grown(2) t1 by auto
    ultimately show ?thesis unfolding down_held_def by auto
  qed
qed

section \<open>Giving the frames back\<close>

lemma held_entries: "entries m' = entries m \<Longrightarrow> held m' b l t = held m b l t"
proof (induction l arbitrary: t)
  case (Suc l)
  then have "held m' b l = held m b l" by (intro ext) simp
  with Suc.prems show ?case by (simp add: held.simps)
qed simp

lemma free_frame_simps [simp]:
  "entries (m_phys (free_frame give f m)) = entries (m_phys m)" "m_data (free_frame give f m) = m_data m"
  "m_in_use (free_frame give f m) = m_in_use m - 1" "pool (m_phys (free_frame give f m)) = give f (pool (m_phys m))"
  by (simp_all add: free_frame_def)

lemma free_all:
  shows "entries (m_phys (fold (free_frame give) fs m)) = entries (m_phys m)"
    and "m_data (fold (free_frame give) fs m) = m_data m"
    and "m_in_use (fold (free_frame give) fs m) = m_in_use m - word_of_nat (length fs)"
    and "(\<And>f p. mset (give f p) = add_mset f (mset p)) \<Longrightarrow>
      mset (pool (m_phys (fold (free_frame give) fs m))) = mset (pool (m_phys m)) + mset fs"
  by (induction fs arbitrary: m) simp_all

text \<open>\<open>free_level\<close> gives back the frames the tree holds, each as often as the tree reaches it.\<close>

lemma free_level_held:
  "\<exists>fs. mset fs = held (m_phys m) b l t \<and> free_level give t l b m = (length fs, fold (free_frame give) fs m)"
proof (induction l arbitrary: t m)
  case (Suc l)
  define step where "step = (\<lambda>slot (freed, m1).
        let entry = read_entry t slot (m_phys m1); frame = entry AND PTE_ADDR_MASK in
        if entry AND PTE_PRESENT = 0 then (freed, m1)
        else if Suc l = 1 \<or> entry AND PTE_HUGE \<noteq> 0 then
          (if Some frame = b then (freed, m1) else (freed + 1, free_frame give frame m1))
        else (case free_level give frame l b m1 of
            (n, m2) \<Rightarrow> (freed + n + 1, free_frame give frame m2)))"
  define P where "P = m_phys m"
  have one: "\<exists>fs. mset fs = slot_held (held P b l) b l (entries P t s)
      \<and> step s (n, m1) = (n + length fs, fold (free_frame give) fs m1)"
    if e: "entries (m_phys m1) = entries P" for s n m1
  proof (cases "bit (entries P t s) 0 \<and> \<not> (l = 0 \<or> bit (entries P t s) 7)")
    case True
    let ?f = "entries P t s AND PTE_ADDR_MASK"
    from Suc.IH [of m1 ?f] obtain fs where fs: "mset fs = held P b l ?f"
      "free_level give ?f l b m1 = (length fs, fold (free_frame give) fs m1)"
      using held_entries [OF e] by metis
    have "step s (n, m1) = (n + length (fs @ [?f]), fold (free_frame give) (fs @ [?f]) m1)"
      using True e fs(2) by (simp add: step_def read_entry_def Let_def pte_bits)
    moreover have "mset (fs @ [?f]) = slot_held (held P b l) b l (entries P t s)"
      using True fs(1) by (simp add: slot_held_def)
    ultimately show ?thesis by blast
  next
    case False
    let ?fs = "if bit (entries P t s) 0 \<and> Some (entries P t s AND PTE_ADDR_MASK) \<noteq> b
      then [entries P t s AND PTE_ADDR_MASK] else []"
    have "step s (n, m1) = (n + length ?fs, fold (free_frame give) ?fs m1)"
      using False e by (auto simp: step_def read_entry_def Let_def pte_bits)
    moreover have "mset ?fs = slot_held (held P b l) b l (entries P t s)"
      using False by (auto simp: slot_held_def owned_def)
    ultimately show ?thesis by blast
  qed
  have many: "\<exists>fs. mset fs = (\<Sum>s \<leftarrow> ss. slot_held (held P b l) b l (entries P t s))
      \<and> fold step ss (n, m1) = (n + length fs, fold (free_frame give) fs m1)"
    if "entries (m_phys m1) = entries P" for ss n m1
    using that
  proof (induction ss arbitrary: n m1)
    case (Cons s ss)
    from one [OF Cons.prems] obtain fs where fs: "mset fs = slot_held (held P b l) b l (entries P t s)"
      "step s (n, m1) = (n + length fs, fold (free_frame give) fs m1)" by blast
    have "entries (m_phys (fold (free_frame give) fs m1)) = entries P" using Cons.prems by (simp add: free_all(1))
    from Cons.IH [OF this, of "n + length fs"] obtain gs where gs:
      "mset gs = (\<Sum>s \<leftarrow> ss. slot_held (held P b l) b l (entries P t s))"
      "fold step ss (n + length fs, fold (free_frame give) fs m1)
        = (n + length fs + length gs, fold (free_frame give) gs (fold (free_frame give) fs m1))" by blast
    have "mset (fs @ gs) = (\<Sum>s \<leftarrow> s # ss. slot_held (held P b l) b l (entries P t s))"
      using fs(1) gs(1) by simp
    moreover have "fold step (s # ss) (n, m1) = (n + length (fs @ gs), fold (free_frame give) (fs @ gs) m1)"
      using fs(2) gs(2) by simp
    ultimately show ?case by blast
  qed simp
  have "[0 ..< (if Suc l = 4 then KERNEL_PML4_FIRST else 512)] = [0 ..< slots l]" by (simp add: slots_def)
  then have "free_level give t (Suc l) b m = fold step [0 ..< slots l] (0, m)"
    by (simp add: step_def)
  moreover have "held (m_phys m) b (Suc l) t = (\<Sum>s \<leftarrow> [0 ..< slots l]. slot_held (held P b l) b l (entries P t s))"
    by (simp add: held.simps P_def interv_sum_list_conv_sum_set_nat atLeast0LessThan)
  ultimately show ?case using many [of m "[0 ..< slots l]" 0] by (simp add: P_def)
qed simp

end
