(* ===== verification/SpaceBuild.thy ===== *)
theory SpaceBuild imports SpaceTree begin

text \<open>
  What \<open>build_space\<close> leaves behind: the pages of the image, a stack, the task's id and the clock at their
  addresses, nothing written outside frames that were free, and every frame accounted for.
\<close>

section \<open>Mapping one page\<close>

lemma frame_ok_aligned: "frame_ok f \<Longrightarrow> 2 ^ 12 dvd unat f \<and> unat f < 2 ^ 52"
  unfolding frame_ok_bits aligned_bits below_bits by (meson not_le)

lemma fits_page: "fits v p PAGE_SIZE SIZE_2M = False" "fits v p PAGE_SIZE SIZE_1G = False"
  by (simp_all add: fits_def PAGE_SIZE_def SIZE_2M_def SIZE_1G_def)

lemma map_one_page:
  assumes "2 ^ 12 dvd unat v" "2 ^ 12 dvd unat p"
  shows "map_normal gib root v p PAGE_SIZE r m = map_leaf root v p r NormalMemory 0 m"
proof -
  have l: "leaf_level gib v p PAGE_SIZE = 0" by (simp add: leaf_level_def fits_page)
  have s: "unat PAGE_SIZE = 4096" "level_size 0 = PAGE_SIZE" "(word_of_nat 4096 :: u64) = PAGE_SIZE"
    by (simp_all add: PAGE_SIZE_def level_size_def)
  have "map_normal gib root v p PAGE_SIZE r m = map_loop gib root v p r NormalMemory 4096 0 m"
    using assms by (simp add: map_normal_def map_as_def is_multiple_of_dvd s)
  also have "\<dots> = map_leaf root v p r NormalMemory 0 m"
    using l s by (simp add: map_loop.simps [of _ _ _ _ _ _ 4096 0] map_loop.simps [of _ _ _ _ _ _ 4096 4096]
        Let_def split: prod.splits sum.splits)
  finally show ?thesis .
qed

lemma map_misaligned: "\<not> 2 ^ 12 dvd unat v \<Longrightarrow> map_normal gib root v p PAGE_SIZE r m = (Inl Misaligned, m)"
  by (simp add: map_normal_def map_as_def is_multiple_of_dvd PAGE_SIZE_def)

lemma leaf_entry_bits:
  assumes "frame_ok f"
  shows "bit (leaf_entry f r mt 0) 0" "bit (leaf_entry f r mt 0) 2 \<longleftrightarrow> r_user r"
    "leaf_entry f r mt 0 AND PTE_ADDR_MASK = f"
proof -
  have pb: "\<not> bit f n" if "n < 12 \<or> 52 \<le> n" for n using assms that by (auto simp: frame_ok_bits)
  have be: "bit (leaf_entry f r mt 0) n \<longleftrightarrow> bit f n \<or> bit (leaf_bits r) n \<or> bit (memory_type_bits mt) n" for n
    by (auto simp: leaf_entry_def bit_or_iff)
  show "bit (leaf_entry f r mt 0) 0" "bit (leaf_entry f r mt 0) 2 \<longleftrightarrow> r_user r"
    using pb [of 2] by (auto simp: be pte_bits)
  show "leaf_entry f r mt 0 AND PTE_ADDR_MASK = f"
  proof (rule u64_eqI)
    fix n :: nat assume "n < 64"
    show "bit (leaf_entry f r mt 0 AND PTE_ADDR_MASK) n = bit f n"
      using pb [of n] by (cases "n < 12"; cases "52 \<le> n") (auto simp: bit_and_iff be pte_bits)
  qed
qed

lemma user_index: "index v 3 < 256 \<longleftrightarrow> low v < 2 ^ 47"
proof -
  have "x mod (2 ^ 39 * 512) div 2 ^ 39 = x div 2 ^ 39 mod 512" for x :: nat
    unfolding mod_mult2_eq by simp
  from this [of "unat v"] have "index v 3 = low v div 2 ^ 39" by (simp add: index_div low_def div_mult2_eq [symmetric])
  then show ?thesis by (simp add: div_less_iff_less_mult)
qed

lemma page_no_index: "page_no 0 v' = page_no 0 v \<Longrightarrow> index v' 3 = index v 3"
  using same_page_no [of v v' 0] by (simp add: same_page_def)

lemma same_entries:
  assumes "entries m' = entries m"
  shows "tree_ok m' w t = tree_ok m w t" "tables m' w t = tables m w t" "lookup m' v w t = lookup m v w t"
  by (rule frame_tree_ok frame_tables frame_lookup; simp add: assms)+

section \<open>The invariant of a space being presents\<close>

text \<open>Relative to the memory \<open>start\<close> before the first frame was taken: \<open>hand\<close> are frames taken and not yet
  in the tree.\<close>

definition growing :: "memory \<Rightarrow> u64 option \<Rightarrow> u64 \<Rightarrow> u64 \<Rightarrow> u64 multiset \<Rightarrow> memory \<Rightarrow> bool" where
  "growing start b kroot root hand m \<longleftrightarrow>
     space_ok (m_phys m) root
     \<and> held (m_phys m) b 4 root + {#root#} + mset (pool (m_phys m)) + hand \<subseteq># mset (pool (m_phys start))
     \<and> m_in_use m + word_of_nat (length (pool (m_phys m)))
        = m_in_use start + word_of_nat (length (pool (m_phys start)))
     \<and> (\<forall>x. x \<notin> set (pool (m_phys start)) \<longrightarrow>
          entries (m_phys m) x = entries (m_phys start) x \<and> m_data m x = m_data start x)
     \<and> (\<forall>i. 256 \<le> i \<longrightarrow> i < 512 \<longrightarrow> entries (m_phys m) root i = entries (m_phys start) kroot i)"

text \<open>The user half is exactly the pages of a list: page number, frame, rights and bytes.\<close>

definition laid_out :: "u64 option \<Rightarrow> u64 \<Rightarrow> u64 multiset \<Rightarrow> (nat \<times> u64 \<times> rights \<times> bytes) list \<Rightarrow> memory \<Rightarrow> bool" where
  "laid_out b root hand ps m \<longleftrightarrow>
     (\<forall>v. index v 3 < 256 \<longrightarrow> lookup (m_phys m) v 3 root =
        (case map_of ps (page_no 0 v) of None \<Rightarrow> None
         | Some (f, r, bs) \<Rightarrow> Some (0, leaf_entry f r NormalMemory 0)))
     \<and> (\<forall>(k, f, r, bs) \<in> set ps. frame_ok f \<and> m_data m f = bs \<and> f \<notin> set (pool (m_phys m)) \<and> f \<notin># hand)"

definition complete :: "memory \<Rightarrow> u64 option \<Rightarrow> u64 \<Rightarrow> u64 multiset \<Rightarrow> memory \<Rightarrow> bool" where
  "complete start b root hand m \<longleftrightarrow>
     held (m_phys m) b 4 root + {#root#} + mset (pool (m_phys m)) + hand = mset (pool (m_phys start))"

lemma growing_pool: "growing start b kroot root hand m \<Longrightarrow>
    distinct (pool (m_phys m)) \<and> (\<forall>f \<in> set (pool (m_phys m)). frame_ok f \<and> f \<in> set (pool (m_phys start)))"
  by (auto simp: growing_def space_ok_def pool_ok_def dest!: mset_subset_eqD)

text \<open>Taking a frame, and writing to it.\<close>

lemma alloc_growing:
  assumes "growing start b kroot root {#} m" "alloc_frame m = (Some f, m1)"
  shows "growing start b kroot root {#f#} m1" "frame_ok f" "f \<in> set (pool (m_phys start))"
    "f \<notin> set (pool (m_phys m1))"
    "laid_out b root {#} ps m \<Longrightarrow> laid_out b root {#f#} ps m1"
    "complete start b root {#} m \<Longrightarrow> complete start b root {#f#} m1"
proof -
  obtain fs where p: "pool (m_phys m) = f # fs" "m1 = m\<lparr>m_phys := (m_phys m)\<lparr>pool := fs\<rparr>, m_in_use := m_in_use m + 1\<rparr>"
    using assms(2) by (auto simp: alloc_frame_def split: list.splits)
  have g: "pool (m_phys m1) = fs" "entries (m_phys m1) = entries (m_phys m)" "m_data m1 = m_data m"
    using p(2) by simp_all
  have ok: "space_ok (m_phys m1) root"
    using assms(1) p same_entries [OF g(2)] by (auto simp: growing_def space_ok_def pool_ok_def g)
  have h: "held (m_phys m1) b 4 root = held (m_phys m) b 4 root" by (rule held_entries [OF g(2)])
  show "growing start b kroot root {#f#} m1"
    using assms(1) ok p(1) unfolding growing_def h g by (simp add: p(2) ac_simps)
  show "frame_ok f" "f \<in> set (pool (m_phys start))" "f \<notin> set (pool (m_phys m1))"
    using growing_pool [OF assms(1)] p by auto
  show "complete start b root {#} m \<Longrightarrow> complete start b root {#f#} m1"
    using p(1) unfolding complete_def h g by simp
  show "laid_out b root {#} ps m \<Longrightarrow> laid_out b root {#f#} ps m1"
    unfolding laid_out_def same_entries(3) [OF g(2)] g p(1) by fastforce
qed

lemma write_growing:
  assumes "growing start b kroot root hand m" "f \<in> set (pool (m_phys start))" "f \<in># hand"
    and m1: "m1 = m\<lparr>m_data := (m_data m)(f := bs)\<rparr>"
  shows "growing start b kroot root hand m1" "laid_out b root hand ps m \<Longrightarrow> laid_out b root hand ps m1"
    "complete start b root hand m \<Longrightarrow> complete start b root hand m1"
  using assms(1-3) by (auto simp: growing_def laid_out_def complete_def m1)

lemma held_part: "A + (if c then W else {#}) = B + U + (if c then N else {#}) \<Longrightarrow> A \<subseteq># B + U + N"
proof -
  assume a: "A + (if c then W else {#}) = B + U + (if c then N else {#})"
  have "A \<subseteq># A + (if c then W else {#})" by (rule mset_subset_eq_add_left)
  also have "\<dots> = B + U + (if c then N else {#})" by (rule a)
  also have "\<dots> \<subseteq># B + U + N" by simp
  finally show ?thesis .
qed

text \<open>Mapping the frame in hand, or the borrowed one.\<close>

lemma map_growing:
  assumes g: "growing start b kroot root (owned b f) m" and f: "frame_ok f" "f \<notin> set (pool (m_phys m))"
    and r: "r_user r" and v: "low v < 2 ^ 47" and s: "as_root s = root" and sm: "space_map s v f r m = (res, m')"
  shows "growing start b kroot root {#} m'"
    and "laid_out b root (owned b f) ps m \<Longrightarrow> \<not> isl res \<Longrightarrow> page_no 0 v \<notin> fst ` set ps \<Longrightarrow>
      laid_out b root {#} (ps @ [(page_no 0 v, f, r, m_data m f)]) m'"
    and "laid_out b root (owned b f) ps m \<Longrightarrow> \<not> isl res \<Longrightarrow> page_no 0 v \<notin> fst ` set ps \<Longrightarrow>
      complete start b root (owned b f) m \<Longrightarrow> complete start b root {#} m'"
proof -
  let ?p = "m_phys m" and ?p' = "m_phys m'" and ?e = "leaf_entry f r NormalMemory 0"
  note le = leaf_entry_bits [OF f(1), of r NormalMemory]
  have of_e: "owned b ?e = owned b f" using f(1) le(3) by (simp add: owned_def frame_ok_def)
  have al: "2 ^ 12 dvd unat f" "unat f < 2 ^ 52" using frame_ok_aligned [OF f(1)] by simp_all
  obtain rs where mn: "map_normal (as_gib_pages s) root v f PAGE_SIZE r ?p = (rs, ?p')"
    and res: "res = (case rs of Inl e \<Rightarrow> Inl (map_error_as_str e) | Inr _ \<Rightarrow> Inr ())"
    and md: "m_data m' = m_data m"
    and mu: "m_in_use m' = m_in_use m + word_of_nat (length (pool ?p) - length (pool ?p'))"
    using sm r s by (auto simp: space_map_def through_mapper_def split: prod.splits sum.splits)
  have "growing start b kroot root {#} m'
    \<and> (laid_out b root (owned b f) ps m \<longrightarrow> \<not> isl res \<longrightarrow> page_no 0 v \<notin> fst ` set ps \<longrightarrow>
        laid_out b root {#} (ps @ [(page_no 0 v, f, r, m_data m f)]) m'
        \<and> (complete start b root (owned b f) m \<longrightarrow> complete start b root {#} m'))"
  proof (cases "2 ^ 12 dvd unat v")
    case False
    then have "rs = Inl Misaligned" "?p' = ?p" using mn by (simp_all add: map_misaligned)
    moreover have "growing start b kroot root {#} m" using g unfolding growing_def by (auto elim: subset_mset.order_trans [rotated])
    moreover have "m' = m" using md mu \<open>?p' = ?p\<close> by simp
    ultimately show ?thesis using res by simp
  next
    case True
    have ml: "map_leaf root v f r NormalMemory 0 ?p = (rs, ?p')" using mn map_one_page [OF True al(1)] by simp
    then have down: "map_down v r 0 ?e 3 root ?p = (rs, ?p')" by (simp add: map_leaf_down)
    have ok: "space_ok ?p root" using g by (simp add: growing_def)
    then have t: "tree_ok ?p 3 root" "pool_ok ?p (tables ?p 3 root)" by (simp_all add: space_ok_def)
    have i: "index v 3 < slots 3" using v by (simp add: slots_def KERNEL_PML4_FIRST_def user_index)
    have post: "down_post v r 0 ?e 3 root ?p rs ?p'"
      using t le down by (intro map_down_ok) auto
    have hd: "down_held b v ?e 3 root ?p rs ?p'"
      using t i le down by (intro map_down_held) auto
    have ok': "space_ok ?p' root" using map_leaf_effect(1) [OF ok _ _ al(2) ml] al(1) by simp
    from hd obtain used where u: "pool ?p = used @ pool ?p'"
      "held ?p' b 4 root + (if rs = Inr () then was_there b (lookup ?p v 3 root) else {#})
         = held ?p b 4 root + mset used + (if rs = Inr () then owned b f else {#})"
      unfolding down_held_def of_e by (auto simp: eval_nat_numeral)
    have out: "entries ?p' x = entries ?p x" if "x \<noteq> root" "x \<notin># held ?p b 4 root" "x \<notin> set (pool ?p)" for x
      using hd that by (auto simp: down_held_def eval_nat_numeral)
    have slot: "entries ?p' root j = entries ?p root j" if "256 \<le> j" for j
      using hd that v user_index [of v] by (auto simp: down_held_def)
    have sub: "held ?p' b 4 root + {#root#} + mset (pool ?p') \<subseteq># held ?p b 4 root + {#root#} + mset (pool ?p) + owned b f"
    proof -
      have "held ?p' b 4 root \<subseteq># held ?p b 4 root + mset used + owned b f"
        using u(2) by (rule held_part)
      then show ?thesis using u(1) by (simp add: ac_simps subset_mset.add_mono)
    qed
    have P: "held ?p b 4 root + {#root#} + mset (pool ?p) + owned b f \<subseteq># mset (pool (m_phys start))"
      using g by (simp add: growing_def)
    then have inP: "x \<in> set (pool (m_phys start))" if "x = root \<or> x \<in># held ?p b 4 root \<or> x \<in> set (pool ?p)" for x
    proof -
      have "x \<in># held ?p b 4 root + {#root#} + mset (pool ?p) + owned b f" using that by auto
      then show ?thesis using mset_subset_eqD [OF P] by simp
    qed
    have grow: "growing start b kroot root {#} m'"
      unfolding growing_def
    proof (intro conjI allI impI)
      show "space_ok ?p' root" by (rule ok')
      show "held ?p' b 4 root + {#root#} + mset (pool ?p') + {#} \<subseteq># mset (pool (m_phys start))"
        using subset_mset.order_trans [OF sub P] by simp
      have "m_in_use m' + word_of_nat (length (pool ?p')) = m_in_use m + word_of_nat (length (pool ?p))"
        unfolding mu u(1) by simp
      then show "m_in_use m' + word_of_nat (length (pool ?p')) = m_in_use start + word_of_nat (length (pool (m_phys start)))"
        using g by (simp add: growing_def)
      fix x assume x: "x \<notin> set (pool (m_phys start))"
      have "entries ?p' x = entries ?p x" by (rule out) (use x inP in blast)+
      then show "entries ?p' x = entries (m_phys start) x" "m_data m' x = m_data start x"
        using g x md by (simp_all add: growing_def)
    next
      fix j assume "(256 :: nat) \<le> j" "j < 512"
      then show "entries ?p' root j = entries (m_phys start) kroot j" using g slot by (simp add: growing_def)
    qed
    have "laid_out b root {#} (ps @ [(page_no 0 v, f, r, m_data m f)]) m'
        \<and> (complete start b root (owned b f) m \<longrightarrow> complete start b root {#} m')"
      if lo: "laid_out b root (owned b f) ps m" and rl: "\<not> isl res" and new: "page_no 0 v \<notin> fst ` set ps"
    proof -
      have rs: "rs = Inr ()" using rl res by (auto split: sum.splits)
      have no: "map_of ps (page_no 0 v) = None" using new by (simp add: map_of_eq_None_iff)
      have lk: "lookup ?p v 3 root = None"
        using lo v no unfolding laid_out_def user_index [symmetric] by simp
      have lk': "lookup ?p' v' 3 root = (if page_no 0 v' = page_no 0 v then Some (0, ?e) else lookup ?p v' 3 root)" for v'
        using post rs same_page_no [of v v' 0] by (simp add: down_post_def)
      have "f \<notin> set (pool ?p')" using f(2) u(1) by simp
      moreover have "g \<notin> set (pool ?p')" if "g \<notin> set (pool ?p)" for g using that u(1) by simp
      ultimately have "laid_out b root {#} (ps @ [(page_no 0 v, f, r, m_data m f)]) m'"
        using lo f(1) unfolding laid_out_def lk' md
        by (auto simp: map_add_def no split: option.splits)
      moreover have "complete start b root {#} m'" if "complete start b root (owned b f) m"
        using that u rs lk unfolding complete_def by (simp add: was_there_def ac_simps)
      ultimately show ?thesis by blast
    qed
    with grow show ?thesis by blast
  qed
  then show "growing start b kroot root {#} m'"
    and "laid_out b root (owned b f) ps m \<Longrightarrow> \<not> isl res \<Longrightarrow> page_no 0 v \<notin> fst ` set ps \<Longrightarrow>
      laid_out b root {#} (ps @ [(page_no 0 v, f, r, m_data m f)]) m'"
    and "laid_out b root (owned b f) ps m \<Longrightarrow> \<not> isl res \<Longrightarrow> page_no 0 v \<notin> fst ` set ps \<Longrightarrow>
      complete start b root (owned b f) m \<Longrightarrow> complete start b root {#} m'" by blast+
qed

section \<open>Pages\<close>

text \<open>Taking a frame, filling it and mapping it: what every operation that gives a space a page does.\<close>

definition place :: "address_space \<Rightarrow> u64 \<Rightarrow> rights \<Rightarrow> bytes \<Rightarrow> string \<Rightarrow> memory \<Rightarrow> (string + unit) \<times> memory" where
  "place s v r bs err m =
     (case alloc_frame m of
        (None, m1) \<Rightarrow> (Inl err, m1)
      | (Some f, m1) \<Rightarrow> space_map s v f r (m1\<lparr>m_data := (m_data m1)(f := bs)\<rparr>))"

text \<open>The pages a space shows, each with its rights and bytes, whatever frames they are in.\<close>

definition presents :: "memory \<Rightarrow> u64 option \<Rightarrow> u64 \<Rightarrow> (nat \<times> rights \<times> bytes) list \<Rightarrow> memory \<Rightarrow> bool" where
  "presents start b root pages m \<longleftrightarrow> complete start b root {#} m \<and>
     (\<exists>ps. laid_out b root {#} ps m \<and> map (\<lambda>(k, f, r, bs). (k, r, bs)) ps = pages
       \<and> (\<forall>(k, f, r, bs) \<in> set ps. Some f = b \<and> \<not> r_write r \<or> f \<in> set (pool (m_phys start))))"

lemma fst_pages: "fst ` set (map (\<lambda>(k, f, r, bs). (k, r, bs)) ps) = fst ` set ps"
  by force

lemma presents_after:
  assumes "laid_out b root {#} (ps @ [(k, f, r, bs)]) m'" "complete start b root {#} m'"
    "map (\<lambda>(k, f, r, bs). (k, r, bs)) ps = pages"
    "\<forall>(k, f, r, bs) \<in> set ps. Some f = b \<and> \<not> r_write r \<or> f \<in> set (pool (m_phys start))"
    "Some f = b \<and> \<not> r_write r \<or> f \<in> set (pool (m_phys start))"
  shows "presents start b root (pages @ [(k, r, bs)]) m'"
  unfolding presents_def using assms by (intro conjI exI [of _ "ps @ [(k, f, r, bs)]"]) auto

lemma place_ok:
  assumes g: "growing start (Some c) kroot root {#} m" and c: "c \<notin> set (pool (m_phys start))"
    and r: "r_user r" and v: "low v < 2 ^ 47" and s: "as_root s = root" and pl: "place s v r bs err m = (res, m')"
  shows "growing start (Some c) kroot root {#} m'"
    and "\<not> isl res \<Longrightarrow> page_no 0 v \<notin> fst ` set pages \<Longrightarrow> presents start (Some c) root pages m \<Longrightarrow>
      presents start (Some c) root (pages @ [(page_no 0 v, r, bs)]) m'"
proof -
  have "growing start (Some c) kroot root {#} m' \<and> (\<not> isl res \<longrightarrow> page_no 0 v \<notin> fst ` set pages \<longrightarrow>
      presents start (Some c) root pages m \<longrightarrow> presents start (Some c) root (pages @ [(page_no 0 v, r, bs)]) m')"
  proof (cases "alloc_frame m")
    case (Pair fo m1)
    show ?thesis
    proof (cases fo)
      case None
      then have "m1 = m" "res = Inl err" "m' = m" using pl Pair
        by (auto simp: place_def alloc_frame_def split: list.splits)
      then show ?thesis using g by simp
    next
      case (Some f)
      note a = alloc_growing [OF g, of f m1] Pair Some
      have al: "alloc_frame m = (Some f, m1)" using Pair Some by simp
      note a = alloc_growing [OF g al]
      define m2 where "m2 = m1\<lparr>m_data := (m_data m1)(f := bs)\<rparr>"
      have "f \<noteq> c" using a(3) c by auto
      then have ow: "owned (Some c) f = {#f#}" using a(2) by (simp add: owned_def frame_ok_def)
      note w = write_growing [OF a(1,3) _ m2_def, simplified]
      have sm: "space_map s v f r m2 = (res, m')" using pl al by (simp add: place_def m2_def)
      have nf: "f \<notin> set (pool (m_phys m2))" "m_data m2 f = bs" using a(4) by (simp_all add: m2_def)
      note mp = map_growing [OF w(1) [folded ow] a(2) nf(1) r v s sm, unfolded ow]
      have "presents start (Some c) root (pages @ [(page_no 0 v, r, bs)]) m'"
        if ok: "\<not> isl res" and new: "page_no 0 v \<notin> fst ` set pages" and bt: "presents start (Some c) root pages m"
      proof -
        from bt obtain ps where ps: "complete start (Some c) root {#} m" "laid_out (Some c) root {#} ps m"
          "map (\<lambda>(k, f, r, bs). (k, r, bs)) ps = pages"
          "\<forall>(k, f, r, bs) \<in> set ps. Some f = Some c \<and> \<not> r_write r \<or> f \<in> set (pool (m_phys start))"
          unfolding presents_def by blast
        have lo: "laid_out (Some c) root {#f#} ps m2" using a(5) [OF ps(2)] by (rule w(2))
        have co: "complete start (Some c) root {#f#} m2" using a(6) [OF ps(1)] by (rule w(3))
        have nw: "page_no 0 v \<notin> fst ` set ps" using new ps(3) fst_pages [of ps] by simp
        show ?thesis
          using mp(2) [OF lo ok nw, unfolded nf(2)] mp(3) [OF lo ok nw co] ps(3,4)
          by (rule presents_after) (simp add: a(3))
      qed
      with mp(1) show ?thesis by blast
    qed
  qed
  then show "growing start (Some c) kroot root {#} m'"
    and "\<not> isl res \<Longrightarrow> page_no 0 v \<notin> fst ` set pages \<Longrightarrow> presents start (Some c) root pages m \<Longrightarrow>
      presents start (Some c) root (pages @ [(page_no 0 v, r, bs)]) m'" by blast+
qed

text \<open>The bytes of page \<open>k\<close> of a segment: what is left of the file, then zeros.\<close>

definition page_bytes :: "bytes \<Rightarrow> nat \<Rightarrow> bytes" where
  "page_bytes file k = (let p = take MAX_PAGE (drop (MAX_PAGE * k) file) in p @ replicate (MAX_PAGE - length p) 0)"

definition segment_page :: "segment \<Rightarrow> nat \<Rightarrow> nat \<times> rights \<times> bytes" where
  "segment_page seg k = (page_no 0 (sg_vaddr seg + word_of_nat k * PAGE_SIZE),
     \<lparr>r_write = er_write (sg_rights seg), r_exec = er_exec (sg_rights seg), r_user = True\<rparr>,
     page_bytes (sg_file seg) k)"

definition segment_layout :: "segment \<Rightarrow> (nat \<times> rights \<times> bytes) list" where
  "segment_layout seg = map (segment_page seg) [0 ..< unat (segment_pages seg)]"

definition image_layout :: "(elf_error + segment) list \<Rightarrow> (nat \<times> rights \<times> bytes) list" where
  "image_layout items = concat (map (\<lambda>it. case it of Inl _ \<Rightarrow> [] | Inr seg \<Rightarrow> segment_layout seg) items)"

lemma load_pages_place:
  assumes "copied = min (MAX_PAGE * k) (length (sg_file seg))"
  shows "load_pages s seg r (word_of_nat k) copied (Suc left) m =
    (case place s (sg_vaddr seg + word_of_nat k * PAGE_SIZE) r (page_bytes (sg_file seg) k) ''no frame for a program segment'' m of
       (Inl e, m1) \<Rightarrow> (Inl e, m1)
     | (Inr u, m1) \<Rightarrow> load_pages s seg r (word_of_nat (Suc k)) (min (MAX_PAGE * Suc k) (length (sg_file seg))) left m1)"
proof -
  let ?n = "min MAX_PAGE (length (sg_file seg) - copied)"
  have n: "copied + ?n = min (MAX_PAGE * Suc k) (length (sg_file seg))" using assms by (auto simp: min_def MAX_PAGE_def)
  have "take ?n (drop copied (sg_file seg)) = take MAX_PAGE (drop (MAX_PAGE * k) (sg_file seg))"
    unfolding assms by (simp add: min_def)
  then have b: "write_page f (take ?n (drop copied (sg_file seg))) (zero_page f m1)
      = m1\<lparr>m_data := (m_data m1)(f := page_bytes (sg_file seg) k)\<rparr>" for f m1
    by (simp add: write_page_def zero_page_def page_bytes_def Let_def)
  have w: "word_of_nat k + 1 = (word_of_nat (Suc k) :: u64)" by simp
  show ?thesis unfolding load_pages.simps(2) place_def Let_def b n w by (auto split: prod.splits option.splits)
qed

lemma low_page: "unat v + 4096 * k < 2 ^ 47 \<Longrightarrow> low (v + word_of_nat k * PAGE_SIZE) < 2 ^ 47"
proof -
  assume a: "unat v + 4096 * k < 2 ^ 47"
  have e: "word_of_nat k * PAGE_SIZE = (word_of_nat (4096 * k) :: u64)" by (simp add: PAGE_SIZE_def mult.commute)
  have "unat (v + word_of_nat k * PAGE_SIZE) = unat v + 4096 * k" unfolding e by (rule unat_offset) (use a in simp)
  then show ?thesis using a by (simp add: low_def)
qed

lemma load_pages_ok:
  assumes "growing start (Some c) kroot root {#} m" "c \<notin> set (pool (m_phys start))" "as_root s = root"
    and "unat (sg_vaddr seg) + 4096 * (k + left) \<le> 2 ^ 47"
    and "copied = min (MAX_PAGE * k) (length (sg_file seg))"
    and "r = \<lparr>r_write = er_write (sg_rights seg), r_exec = er_exec (sg_rights seg), r_user = True\<rparr>"
    and "load_pages s seg r (word_of_nat k) copied left m = (res, m')"
  shows "growing start (Some c) kroot root {#} m' \<and>
    (\<not> isl res \<longrightarrow> distinct (map fst (pages @ map (segment_page seg) [k ..< k + left])) \<longrightarrow>
      presents start (Some c) root pages m \<longrightarrow>
      presents start (Some c) root (pages @ map (segment_page seg) [k ..< k + left]) m')"
  using assms
proof (induction left arbitrary: k copied m pages)
  case (Suc left)
  let ?v = "sg_vaddr seg + word_of_nat k * PAGE_SIZE"
  have v: "low ?v < 2 ^ 47" using Suc.prems(4) by (intro low_page) simp
  have r: "r_user r" using Suc.prems(6) by simp
  obtain x m1 where pl: "place s ?v r (page_bytes (sg_file seg) k) ''no frame for a program segment'' m = (x, m1)"
    by (cases "place s ?v r (page_bytes (sg_file seg) k) ''no frame for a program segment'' m")
  note po = place_ok [OF Suc.prems(1,2) r v Suc.prems(3) pl]
  note ld = Suc.prems(7) [unfolded load_pages_place [OF Suc.prems(5)] pl, simplified]
  show ?case
  proof (cases x)
    case (Inl e)
    then have "res = Inl e" "m' = m1" using ld by simp_all
    with po(1) show ?thesis by simp
  next
    case (Inr u)
    have go: "load_pages s seg r (word_of_nat (Suc k)) (min (MAX_PAGE * Suc k) (length (sg_file seg))) left m1 = (res, m')"
      using ld Inr by simp
    have e: "[k ..< k + Suc left] = k # [Suc k ..< Suc k + left]" by (simp add: upt_conv_Cons)
    have k1: "segment_page seg k = (page_no 0 ?v, r, page_bytes (sg_file seg) k)"
      using Suc.prems(6) by (simp add: segment_page_def)
    note ih = Suc.IH [OF po(1) Suc.prems(2,3) _ refl Suc.prems(6) go, of "pages @ [segment_page seg k]"]
    have "presents start (Some c) root (pages @ map (segment_page seg) [k ..< k + Suc left]) m'"
      if ok: "\<not> isl res" and dist: "distinct (map fst (pages @ map (segment_page seg) [k ..< k + Suc left]))"
        and bt: "presents start (Some c) root pages m"
    proof -
      have "page_no 0 ?v \<notin> fst ` set pages" using dist unfolding e by (auto simp: k1)
      then have "presents start (Some c) root (pages @ [segment_page seg k]) m1"
        unfolding k1 using po(2) bt Inr by simp
      moreover have "distinct (map fst ((pages @ [segment_page seg k]) @ map (segment_page seg) [Suc k ..< Suc k + left]))"
        using dist unfolding e by simp
      ultimately show ?thesis using ih ok Suc.prems(4) unfolding e by simp
    qed
    moreover have "growing start (Some c) kroot root {#} m'" using ih Suc.prems(4) by simp
    ultimately show ?thesis by blast
  qed
qed simp

lemma page_round_up:
  fixes n q :: nat
  assumes n: "n \<le> 2 ^ 47 - 4096 * q" and q: "4096 * q < 2 ^ 47"
  shows "4096 * q + 4096 * (n div 4096 + (if n mod 4096 = 0 then 0 else 1)) \<le> 2 ^ 47"
proof -
  define a b where "a = n div 4096" and "b = n mod 4096"
  have ab: "n = 4096 * a + b" by (simp add: a_def b_def)
  then have le: "4096 * a + b + 4096 * q \<le> 2 ^ 47" using n q by simp
  have s: "a + q < 2 ^ 35" if "b \<noteq> 0" using le that by simp
  show ?thesis unfolding a_def [symmetric] b_def [symmetric]
  proof (cases "b = 0")
    case True
    then show "4096 * q + 4096 * (a + (if b = 0 then 0 else 1)) \<le> 2 ^ 47" using le by simp
  next
    case False
    then show "4096 * q + 4096 * (a + (if b = 0 then 0 else 1)) \<le> 2 ^ 47" using s by simp
  qed
qed

lemma segment_span:
  assumes "4096 dvd unat (sg_vaddr seg)" "\<not> USER_LIMIT \<le> sg_vaddr seg" "\<not> USER_LIMIT - sg_vaddr seg < sg_memsz seg"
  shows "unat (sg_vaddr seg) + 4096 * unat (segment_pages seg) \<le> 2 ^ 47"
proof -
  let ?v = "unat (sg_vaddr seg)" and ?n = "unat (sg_memsz seg)"
  have U: "unat USER_LIMIT = 2 ^ 47" by (simp add: USER_LIMIT_def)
  have v: "?v < 2 ^ 47" using assms(2) U by (simp add: word_le_nat_alt)
  have "unat (USER_LIMIT - sg_vaddr seg) = 2 ^ 47 - ?v"
    using assms(2) U by (subst unat_sub) (simp_all add: word_le_nat_alt)
  then have n: "?n \<le> 2 ^ 47 - ?v" using assms(3) by (simp add: word_less_nat_alt)
  have E: "unat ELF_PAGE_SIZE = 4096" by (simp add: ELF_PAGE_SIZE_def)
  have "unat (segment_pages seg) = ?n div 4096 + (if ?n mod 4096 = 0 then 0 else 1)"
    using n by (simp add: segment_pages_def Let_def unat_word_ariths E unat_div unat_mod word_unat_eq_iff)
  moreover obtain q where q: "?v = 4096 * q" using assms(1) by (auto elim: dvdE)
  ultimately show ?thesis using page_round_up [of ?n q] n v by simp
qed

lemma load_segments_ok:
  assumes "growing start (Some c) kroot root {#} m" "c \<notin> set (pool (m_phys start))" "as_root s = root"
    and "\<And>seg. Inr seg \<in> set items \<Longrightarrow> 4096 dvd unat (sg_vaddr seg)"
    and "load_segments s items m = (res, m')"
  shows "growing start (Some c) kroot root {#} m' \<and>
    (\<not> isl res \<longrightarrow> distinct (map fst (pages @ image_layout items)) \<longrightarrow> presents start (Some c) root pages m \<longrightarrow>
      presents start (Some c) root (pages @ image_layout items) m')"
  using assms
proof (induction s items m arbitrary: pages rule: load_segments.induct)
  case (1 s m)
  then show ?case by (simp add: image_layout_def)
next
  case (2 s e rest m)
  then show ?case by auto
next
  case (3 s seg rest m)
  let ?r = "\<lparr>r_write = er_write (sg_rights seg), r_exec = er_exec (sg_rights seg), r_user = True\<rparr>"
  show ?case
  proof (cases "elf_is_wx (sg_rights seg) \<or> USER_LIMIT \<le> sg_vaddr seg \<or> USER_LIMIT - sg_vaddr seg < sg_memsz seg")
    case True
    then have "isl res \<and> m' = m" using "3.prems"(5) by (auto split: if_splits)
    with "3.prems"(1) show ?thesis by simp
  next
    case False
    then have nx: "\<not> elf_is_wx (sg_rights seg)" "\<not> USER_LIMIT \<le> sg_vaddr seg" "\<not> USER_LIMIT - sg_vaddr seg < sg_memsz seg"
      by simp_all
    have al: "4096 dvd unat (sg_vaddr seg)" using "3.prems"(4) by simp
    obtain x m1 where lp: "load_pages s seg ?r 0 0 (unat (segment_pages seg)) m = (x, m1)"
      by (cases "load_pages s seg ?r 0 0 (unat (segment_pages seg)) m")
    have ld: "(case x of Inl e \<Rightarrow> (Inl e, m1) | Inr u \<Rightarrow> load_segments s rest m1) = (res, m')"
      using "3.prems"(5) nx lp by (simp add: Let_def)
    have "load_pages s seg ?r (word_of_nat 0) 0 (unat (segment_pages seg)) m = (x, m1)" using lp by simp
    from load_pages_ok [OF "3.prems"(1-3) _ _ refl this, of pages] segment_span [OF al nx(2,3)]
    have step: "growing start (Some c) kroot root {#} m1"
      "\<not> isl x \<Longrightarrow> distinct (map fst (pages @ segment_layout seg)) \<Longrightarrow> presents start (Some c) root pages m \<Longrightarrow>
        presents start (Some c) root (pages @ segment_layout seg) m1"
      by (simp_all add: segment_layout_def)
    show ?thesis
    proof (cases x)
      case (Inl e)
      then show ?thesis using ld step(1) by auto
    next
      case (Inr u)
      have go: "load_segments s rest m1 = (res, m')" using ld Inr by simp
      have il: "image_layout (Inr seg # rest) = segment_layout seg @ image_layout rest" by (simp add: image_layout_def)
      have "4096 dvd unat (sg_vaddr sg)" if "Inr sg \<in> set rest" for sg using "3.prems"(4) that by simp
      from "3.IH" [OF nx(1) _ refl lp [symmetric] Inr step(1) "3.prems"(2,3) this go, of "pages @ segment_layout seg"] nx(2,3)
      have ih: "growing start (Some c) kroot root {#} m'"
        "\<not> isl res \<Longrightarrow> distinct (map fst ((pages @ segment_layout seg) @ image_layout rest)) \<Longrightarrow>
          presents start (Some c) root (pages @ segment_layout seg) m1 \<Longrightarrow>
          presents start (Some c) root ((pages @ segment_layout seg) @ image_layout rest) m'"
        by simp_all
      show ?thesis using ih step(2) Inr unfolding il by auto
    qed
  qed
qed

section \<open>An empty space\<close>

lemma copy_entries:
  assumes "kroot \<noteq> root"
  shows "entries (fold (\<lambda>slot p. write_entry root slot (read_entry kroot slot p) p) ss p) =
      (entries p)(root := (\<lambda>i. if i \<in> set ss then entries p kroot i else entries p root i))"
    and "pool (fold (\<lambda>slot p. write_entry root slot (read_entry kroot slot p) p) ss p) = pool p"
  using assms by (induction ss arbitrary: p) (auto simp: write_entry_def read_entry_def fun_eq_iff)

lemma root_copy:
  assumes ok: "tree_ok m (Suc l) kroot" and nr: "root \<notin> tables m (Suc l) kroot"
    and e: "entries m' = (entries m)(root := (\<lambda>i. if P i then entries m kroot i else 0))"
  shows "tree_ok m' (Suc l) root" "tables m' (Suc l) root \<subseteq> insert root (tables m (Suc l) kroot)"
    "lookup m' v (Suc l) root = (if P (index v (Suc l)) then lookup m v (Suc l) kroot else None)"
proof -
  let ?c = "\<lambda>i. entries m kroot i AND PTE_ADDR_MASK"
  have z: "\<not> is_table 0" by (simp add: is_table_def)
  have child: "tables m' l (?c i) = tables m l (?c i)" "tree_ok m' l (?c i) = tree_ok m l (?c i)"
    "no_user m' l (?c i) = no_user m l (?c i)" "lookup m' v l (?c i) = lookup m v l (?c i)"
    "root \<notin> tables m l (?c i)"
    if "i < 512" "is_table (entries m kroot i)" for i
  proof -
    have sub: "tables m l (?c i) \<subseteq> tables m (Suc l) kroot" using that by auto
    then show nr': "root \<notin> tables m l (?c i)" using nr by blast
    have eq: "entries m' x = entries m x" if "x \<in> tables m l (?c i)" for x
      using that nr' by (auto simp: e)
    show "tables m' l (?c i) = tables m l (?c i)" by (rule frame_tables) (rule eq)
    show "tree_ok m' l (?c i) = tree_ok m l (?c i)" by (rule frame_tree_ok) (rule eq)
    show "no_user m' l (?c i) = no_user m l (?c i)" by (rule frame_no_user) (rule eq)
    show "lookup m' v l (?c i) = lookup m v l (?c i)" by (rule frame_lookup) (rule eq)
  qed
  have en: "entries m' root i = (if P i then entries m kroot i else 0)" for i by (simp add: e)
  have tab: "is_table (entries m' root i) \<longleftrightarrow> P i \<and> is_table (entries m kroot i)" for i using z by (simp add: en)
  show "tree_ok m' (Suc l) root"
    using ok child unfolding tree_ok.simps tab by (auto simp: en)
  show "tables m' (Suc l) root \<subseteq> insert root (tables m (Suc l) kroot)"
    using child(1) unfolding tables.simps tab by (auto simp: en)
  show "lookup m' v (Suc l) root = (if P (index v (Suc l)) then lookup m v (Suc l) kroot else None)"
    using child(4) [OF index_bound, of v] by (auto simp: en Let_def is_table_def)
qed

lemma space_new_ok:
  assumes ok: "space_ok (m_phys start) kroot" and sn: "space_new kroot gib start = (Inr s, m)"
  shows "growing start b kroot (as_root s) {#} m" "presents start b (as_root s) [] m"
    "as_gib_pages s = gib" "as_borrowed s = None"
proof -
  let ?p = "m_phys start" and ?q = "m_phys m"
  obtain root fs where p: "pool ?p = root # fs" and s: "s = \<lparr>as_root = root, as_entry = 0, as_gib_pages = gib, as_borrowed = None\<rparr>"
    and q: "?q = fold (\<lambda>slot p. write_entry root slot (read_entry kroot slot p) p) [KERNEL_PML4_FIRST ..< 512]
        (zero_table root (?p\<lparr>pool := fs\<rparr>))" and m: "m_data m = m_data start" "m_in_use m = m_in_use start + 1"
    using sn by (auto simp: space_new_def alloc_frame_def Let_def split: list.splits)
  have nk: "root \<notin> tables ?p 3 kroot" and fs: "root \<notin> set fs" "distinct fs" "\<And>f. f \<in> set fs \<Longrightarrow> frame_ok f \<and> f \<notin> tables ?p 3 kroot"
    and tk: "tree_ok ?p 3 kroot"
    using ok p by (auto simp: space_ok_def pool_ok_def)
  then have ne: "kroot \<noteq> root" using tables_self by metis
  have e: "entries ?q = (entries ?p)(root := (\<lambda>i. if i \<in> {256 ..< 512} then entries ?p kroot i else 0))"
    and pq: "pool ?q = fs"
    unfolding q copy_entries [OF ne] set_upt using ne
    by (auto simp: zero_table_def KERNEL_PML4_FIRST_def fun_eq_iff)
  have three: "Suc 2 = 3" by simp
  note rc = root_copy [where l = 2, unfolded three, OF tk nk e]
  have sp: "space_ok ?q root"
    using rc(1,2) fs ok unfolding space_ok_def pool_ok_def pq rc(3) by (auto split: if_splits)
  have "slot_held h b 3 (entries ?q root i) = {#}" if "i < 256" for h i
    using that by (simp add: e slot_held_def)
  then have h: "held ?q b 4 root = {#}"
    using held.simps(2) [of ?q b 3 root] by (simp add: slots_def KERNEL_PML4_FIRST_def)
  show "growing start b kroot (as_root s) {#} m"
    unfolding growing_def s using sp h p pq m by (auto simp: e)
  have "complete start b root {#} m" by (simp add: complete_def h pq p)
  moreover have "laid_out b root {#} [] m" by (auto simp: laid_out_def rc(3))
  ultimately show "presents start b (as_root s) [] m" unfolding presents_def s by auto
  show "as_gib_pages s = gib" "as_borrowed s = None" by (simp_all add: s)
qed

section \<open>The whole of \<open>build_space\<close>\<close>

lemma map_stack_place:
  "map_stack s m = place s USER_STACK (to_user RW) (replicate MAX_PAGE 0) ''no frame for a user stack'' m"
  by (simp add: map_stack_def place_def zero_page_def split: prod.split option.split)

lemma seed_id_place:
  "seed_id s i m = place s USER_DATA_VA (to_user RW) (i # replicate (MAX_PAGE - 1) 0)
     ''no frame for the process id page'' m"
  by (simp add: seed_id_def place_def zero_page_def write_page_def MAX_PAGE_def split: prod.split option.split)

definition space_layout :: "(elf_error + segment) list \<Rightarrow> u8 \<Rightarrow> bytes \<Rightarrow> (nat \<times> rights \<times> bytes) list" where
  "space_layout items i clock = image_layout items @
     [(page_no 0 USER_STACK, to_user RW, replicate MAX_PAGE 0),
      (page_no 0 USER_DATA_VA, to_user RW, i # replicate (MAX_PAGE - 1) 0),
      (page_no 0 USER_CLOCK_VA, to_user RO, clock)]"

lemma fixed_pages: "low USER_STACK < 2 ^ 47" "low USER_DATA_VA < 2 ^ 47" "low USER_CLOCK_VA < 2 ^ 47"
  "r_user (to_user r)" "\<not> r_write (to_user RO)"
  by (simp_all add: low_def USER_STACK_def USER_DATA_VA_def USER_CLOCK_VA_def to_user_def RO_def)

lemma map_clock_ok:
  assumes g: "growing start (Some c) kroot root {#} m" and c: "c \<notin> set (pool (m_phys start))" "frame_ok c"
    and s: "as_root s = root" and mc: "map_clock s c m = (res, m')"
  shows "growing start (Some c) kroot root {#} m'"
    and "res = Inr s' \<Longrightarrow> as_root s' = root \<and> as_borrowed s' = Some c \<and> as_entry s' = as_entry s"
    and "\<not> isl res \<Longrightarrow> page_no 0 USER_CLOCK_VA \<notin> fst ` set pages \<Longrightarrow> presents start (Some c) root pages m \<Longrightarrow>
      presents start (Some c) root (pages @ [(page_no 0 USER_CLOCK_VA, to_user RO, m_data start c)]) m'"
proof -
  let ?s = "s\<lparr>as_borrowed := Some c\<rparr>"
  obtain x where sm: "space_map ?s USER_CLOCK_VA c (to_user RO) m = (x, m')"
    and res: "res = (case x of Inl e \<Rightarrow> Inl e | Inr _ \<Rightarrow> Inr ?s)"
    using mc by (auto simp: map_clock_def Let_def split: prod.splits sum.splits)
  have ow: "owned (Some c) c = {#}" using c(2) by (simp add: owned_def frame_ok_def)
  have np: "c \<notin> set (pool (m_phys m))" using growing_pool [OF g] c(1) by blast
  have s': "as_root ?s = root" using s by simp
  note mp = map_growing [where b = "Some c" and f = c, unfolded ow, OF g c(2) np fixed_pages(4,3) s' sm]
  show "growing start (Some c) kroot root {#} m'" by (rule mp(1))
  show "res = Inr s' \<Longrightarrow> as_root s' = root \<and> as_borrowed s' = Some c \<and> as_entry s' = as_entry s"
    using res s by (auto split: sum.splits)
  assume ok: "\<not> isl res" and new: "page_no 0 USER_CLOCK_VA \<notin> fst ` set pages" and bt: "presents start (Some c) root pages m"
  from bt obtain ps where ps: "complete start (Some c) root {#} m" "laid_out (Some c) root {#} ps m"
    "map (\<lambda>(k, f, r, bs). (k, r, bs)) ps = pages"
    "\<forall>(k, f, r, bs) \<in> set ps. Some f = Some c \<and> \<not> r_write r \<or> f \<in> set (pool (m_phys start))"
    unfolding presents_def by blast
  have nw: "page_no 0 USER_CLOCK_VA \<notin> fst ` set ps" using new ps(3) fst_pages [of ps] by simp
  have x: "\<not> isl x" using ok res by (auto split: sum.splits)
  have d: "m_data m c = m_data start c" using g c(1) by (simp add: growing_def)
  show "presents start (Some c) root (pages @ [(page_no 0 USER_CLOCK_VA, to_user RO, m_data start c)]) m'"
    using mp(2) [OF ps(2) x nw, unfolded d] mp(3) [OF ps(2) x nw ps(1)] ps(3,4)
    by (rule presents_after) (simp add: fixed_pages)
qed

text \<open>What holds of the memory whatever \<open>build_space\<close> answers.\<close>

definition confined :: "memory \<Rightarrow> memory \<Rightarrow> bool" where
  "confined m m' \<longleftrightarrow> set (pool (m_phys m')) \<subseteq> set (pool (m_phys m))
     \<and> m_in_use m' + word_of_nat (length (pool (m_phys m'))) = m_in_use m + word_of_nat (length (pool (m_phys m)))
     \<and> (\<forall>x. x \<notin> set (pool (m_phys m)) \<longrightarrow> entries (m_phys m') x = entries (m_phys m) x \<and> m_data m' x = m_data m x)"

lemma growing_confined: "growing m b kroot root {#} m' \<Longrightarrow> confined m m'"
  using growing_pool [of m b kroot root "{#}" m'] by (auto simp: growing_def confined_def)

lemma confined_refl: "confined m m"
  by (simp add: confined_def)

lemma build_space_ok:
  assumes ok: "space_ok (m_phys m) kroot" and c: "c \<notin> set (pool (m_phys m))" "frame_ok c"
    and bs: "build_space kroot gib user_image i c m = (res, m')"
  shows "confined m m'"
    and "res = Inr s \<Longrightarrow> growing m (Some c) kroot (as_root s) {#} m' \<and> as_borrowed s = Some c \<and> as_entry s < USER_LIMIT"
    and "res = Inr s \<Longrightarrow> elf_parse user_image = Inr img \<Longrightarrow>
      distinct (map fst (space_layout (segment_items (elf_segments img)) i (m_data m c))) \<Longrightarrow>
      presents m (Some c) (as_root s) (space_layout (segment_items (elf_segments img)) i (m_data m c)) m'"
proof -
  have "confined m m' \<and> (\<forall>s. res = Inr s \<longrightarrow> growing m (Some c) kroot (as_root s) {#} m' \<and> as_borrowed s = Some c
      \<and> as_entry s < USER_LIMIT \<and> (\<forall>img. elf_parse user_image = Inr img \<longrightarrow>
        distinct (map fst (space_layout (segment_items (elf_segments img)) i (m_data m c))) \<longrightarrow>
        presents m (Some c) (as_root s) (space_layout (segment_items (elf_segments img)) i (m_data m c)) m'))"
  proof (cases "elf_parse user_image")
    case (Inl e)
    then show ?thesis using bs by (auto simp: build_space_def confined_refl)
  next
    case img: (Inr img)
    let ?items = "segment_items (elf_segments img)"
    obtain x1 m1 where s1: "space_new kroot gib m = (x1, m1)" by (cases "space_new kroot gib m")
    show ?thesis
    proof (cases x1)
      case (Inl e)
      then have "m1 = m" using s1 by (auto simp: space_new_def alloc_frame_def Let_def split: list.splits)
      then show ?thesis using bs img s1 Inl by (auto simp: build_space_def confined_refl)
    next
      case x1: (Inr a)
      note n = space_new_ok [OF ok s1 [unfolded x1]]
      obtain x2 m2 where s2: "load a img m1 = (x2, m2)" by (cases "load a img m1")
      obtain y where ls: "load_segments a ?items m1 = (y, m2)"
        and x2: "x2 = (case y of Inl e \<Rightarrow> Inl e | Inr _ \<Rightarrow>
          if USER_LIMIT \<le> e_entry img then Inl ''the image's entry point is not a user address''
          else Inr (a\<lparr>as_entry := e_entry img\<rparr>))"
        using s2 by (auto simp: load_def Let_def split: prod.splits sum.splits if_splits)
      have "growing m (Some c) kroot (as_root a) {#} m2 \<and> (\<not> isl y \<longrightarrow> distinct (map fst ([] @ image_layout ?items)) \<longrightarrow>
          presents m (Some c) (as_root a) [] m1 \<longrightarrow> presents m (Some c) (as_root a) ([] @ image_layout ?items) m2)"
        by (rule load_segments_ok [OF n(1) c(1) refl _ ls]) (rule item_aligned)
      then have lo: "growing m (Some c) kroot (as_root a) {#} m2"
        "\<not> isl y \<Longrightarrow> distinct (map fst (image_layout ?items)) \<Longrightarrow> presents m (Some c) (as_root a) [] m1 \<Longrightarrow>
          presents m (Some c) (as_root a) (image_layout ?items) m2"
        by simp_all
      show ?thesis
      proof (cases x2)
        case (Inl e)
        then have "res = Inl e" "m' = m2" using bs img s1 x1 s2 by (simp_all add: build_space_def)
        then show ?thesis using growing_confined [OF lo(1)] by auto
      next
        case x2i: (Inr a2)
        have a2: "as_root a2 = as_root a" "as_entry a2 < USER_LIMIT" "\<not> isl y"
          using x2 x2i by (auto split: sum.splits if_splits)
        obtain x3 m3 where s3: "map_stack a2 m2 = (x3, m3)" by (cases "map_stack a2 m2")
        note st = place_ok [OF lo(1) c(1) fixed_pages(4,1) a2(1) s3 [unfolded map_stack_place]]
        obtain x4 m4 where s4: "seed_id a2 i m3 = (x4, m4)" by (cases "seed_id a2 i m3")
        note sd = place_ok [OF st(1) c(1) fixed_pages(4,2) a2(1) s4 [unfolded seed_id_place]]
        show ?thesis
        proof (cases "isl x3")
          case True
          then have "isl res" "m' = m3" using bs img s1 x1 s2 x2i s3 by (auto simp: build_space_def isl_def)
          then show ?thesis using growing_confined [OF st(1)] by (auto simp: isl_def)
        next
          case x3: False
          show ?thesis
          proof (cases "isl x4")
            case True
            then have "isl res" "m' = m4" using bs img s1 x1 s2 x2i s3 x3 s4
              by (auto simp: build_space_def isl_def split: sum.splits)
            then show ?thesis using growing_confined [OF sd(1)] by (auto simp: isl_def)
          next
            case x4: False
            have mc: "map_clock a2 c m4 = (res, m')" using bs img s1 x1 s2 x2i s3 x3 s4 x4
              by (auto simp: build_space_def isl_def split: sum.splits)
            note ck = map_clock_ok [OF sd(1) c a2(1) mc]
            have "presents m (Some c) (as_root a) (space_layout ?items i (m_data m c)) m'"
              if r: "res = Inr s" and d: "distinct (map fst (space_layout ?items i (m_data m c)))" for s
            proof -
              have d1: "distinct (map fst (image_layout ?items))"
                "page_no 0 USER_STACK \<notin> fst ` set (image_layout ?items)"
                "page_no 0 USER_DATA_VA \<notin> fst ` set (image_layout ?items @ [(page_no 0 USER_STACK, to_user RW, replicate MAX_PAGE 0)])"
                "page_no 0 USER_CLOCK_VA \<notin> fst ` set ((image_layout ?items @ [(page_no 0 USER_STACK, to_user RW, replicate MAX_PAGE 0)])
                  @ [(page_no 0 USER_DATA_VA, to_user RW, i # replicate (MAX_PAGE - 1) 0)])"
                using d by (auto simp: space_layout_def)
              have "presents m (Some c) (as_root a) (image_layout ?items) m2" using lo(2) a2(3) d1(1) n(2) by blast
              from ck(3) [OF _ d1(4) sd(2) [OF x4 d1(3) st(2) [OF x3 d1(2) this]]] r
              show ?thesis by (simp add: space_layout_def)
            qed
            note all = this
            show ?thesis
            proof (intro conjI allI impI)
              show "confined m m'" by (rule growing_confined [OF ck(1)])
              fix s assume r: "res = Inr s"
              note s = ck(2) [OF r]
              show "growing m (Some c) kroot (as_root s) {#} m'" using ck(1) s by simp
              show "as_borrowed s = Some c" "as_entry s < USER_LIMIT" using s a2(2) by simp_all
              fix img' assume "elf_parse user_image = Inr img'"
                and d: "distinct (map fst (space_layout (segment_items (elf_segments img')) i (m_data m c)))"
              then have "img' = img" using img by simp
              then show "presents m (Some c) (as_root s) (space_layout (segment_items (elf_segments img')) i (m_data m c)) m'"
                using all [OF r] d s by simp
            qed
          qed
        qed
      qed
    qed
  qed
  then show "confined m m'"
    and "res = Inr s \<Longrightarrow> growing m (Some c) kroot (as_root s) {#} m' \<and> as_borrowed s = Some c \<and> as_entry s < USER_LIMIT"
    and "res = Inr s \<Longrightarrow> elf_parse user_image = Inr img \<Longrightarrow>
      distinct (map fst (space_layout (segment_items (elf_segments img)) i (m_data m c))) \<Longrightarrow>
      presents m (Some c) (as_root s) (space_layout (segment_items (elf_segments img)) i (m_data m c)) m'" by blast+
qed

end
