(* ===== verification/SpaceProps.thy ===== *)
theory SpaceProps imports SpaceBuild begin

text \<open>
  The properties of \<open>build_space\<close> and \<open>destroy\<close>, and that a build succeeds when the image is sound and
  there are frames enough: four for each page (one for the page, at most three for new tables) and
  one for the root.
\<close>

section \<open>A build succeeds when there are frames\<close>

text \<open>Going down to the bottom level fails only on a large page, or when the pool runs dry.\<close>

lemma map_down_succeeds:
  assumes "\<And>l e. lookup m v w t = Some (l, e) \<Longrightarrow> l = 0" "w \<le> length (pool m)"
    and "pool_ok m (tables m w t)" "tree_ok m w t"
  shows "\<exists>m'. map_down v r 0 bits w t m = (Inr (), m') \<and> length (pool m) \<le> length (pool m') + w"
  using assms
proof (induction w arbitrary: t m)
  case 0
  then show ?case by (simp add: map_down.simps [of v r 0 bits 0] write_entry_def)
next
  case (Suc l)
  let ?i = "index v (Suc l)" and ?e = "entries m t (index v (Suc l))"
  obtain x m1 where n: "next_table t ?i r m = (x, m1)" by (cases "next_table t ?i r m")
  have md: "map_down v r 0 bits (Suc l) t m =
      (case x of Inl e \<Rightarrow> (Inl e, m1) | Inr c \<Rightarrow> map_down v r 0 bits l c m1)"
    using n by (simp add: map_down.simps [of v r 0 bits "Suc l"] split: sum.splits)
  from n show ?case
  proof (cases rule: next_table_cases)
    case huge
    then have "lookup m v (Suc l) t = Some (Suc l, ?e)" by (simp add: Let_def)
    then show ?thesis using Suc.prems(1) by blast
  next
    case empty
    then have "pool m = []" using n by (auto simp: next_table_def read_entry_def pte_bits Let_def alloc_table_def split: list.splits)
    then show ?thesis using Suc.prems(2) by simp
  next
    case (present e1)
    let ?c = "?e AND PTE_ADDR_MASK"
    have old: "tree_ok m l ?c" "t \<notin> tables m l ?c"
      using Suc.prems(4) present(1) index_bound [of v "Suc l"] by auto
    have eq: "entries m1 x = entries m x" if "x \<in> tables m l ?c" for x
      using that old(2) present(5) by auto
    have fr: "tables m1 l ?c = tables m l ?c" "tree_ok m1 l ?c = tree_ok m l ?c"
      "lookup m1 v l ?c = lookup m v l ?c"
      by (rule frame_tables frame_tree_ok frame_lookup; rule eq; assumption)+
    have lk: "lookup m v (Suc l) t = lookup m1 v l ?c"
      using fr(3) is_table_bits [OF present(1)] by (simp add: Let_def)
    have sub: "tables m l ?c \<subseteq> tables m (Suc l) t" using present(1) index_bound [of v "Suc l"] by auto
    have "pool_ok m1 (tables m1 l ?c)"
      using Suc.prems(3) sub fr(1) present(4) by (auto simp: pool_ok_def)
    then have "\<exists>m'. map_down v r 0 bits l ?c m1 = (Inr (), m') \<and> length (pool m1) \<le> length (pool m') + l"
      using Suc.prems(1,2) old(1) fr(2) present(4) lk by (intro Suc.IH) auto
    then show ?thesis using md present(3,4) by auto
  next
    case (grown f fs)
    have f: "frame_ok f" "f \<noteq> t" "f \<notin> set fs" using Suc.prems(3) grown(2) by (auto simp: pool_ok_def)
    have zero: "entries m1 f = (\<lambda>_. 0)" using grown(5) f(2) by simp
    note em = empty_table [OF zero]
    have "pool_ok m1 (tables m1 l f)"
      using Suc.prems(3) f(3) grown(2,3) em(1) by (auto simp: pool_ok_def)
    then have "\<exists>m'. map_down v r 0 bits l f m1 = (Inr (), m') \<and> length (pool m1) \<le> length (pool m') + l"
      using Suc.prems(2) grown(2,3) em(2,3) by (intro Suc.IH) auto
    then show ?thesis using md grown(2-4) by auto
  qed
qed

lemma map_succeeds:
  assumes g: "growing start b kroot root hand m" and lo: "laid_out b root hand ps m"
    and f: "2 ^ 12 dvd unat f" and v: "low v < 2 ^ 47" "2 ^ 12 dvd unat v" and r: "r_user r" and s: "as_root s = root"
    and n: "3 \<le> length (pool (m_phys m))"
  shows "\<exists>m'. space_map s v f r m = (Inr (), m') \<and> length (pool (m_phys m)) \<le> length (pool (m_phys m')) + 3"
proof -
  have l0: "lookup (m_phys m) v 3 root = Some (l, e) \<Longrightarrow> l = 0" for l e
    using lo v(1) by (auto simp: laid_out_def user_index split: option.splits)
  have "pool_ok (m_phys m) (tables (m_phys m) 3 root)" "tree_ok (m_phys m) 3 root"
    using g by (simp_all add: growing_def space_ok_def)
  then have "\<exists>p'. map_down v r 0 (leaf_entry f r NormalMemory 0) 3 root (m_phys m) = (Inr (), p')
      \<and> length (pool (m_phys m)) \<le> length (pool p') + 3"
    by (intro map_down_succeeds n l0)
  then obtain p' where
    p: "map_down v r 0 (leaf_entry f r NormalMemory 0) 3 root (m_phys m) = (Inr (), p')"
      "length (pool (m_phys m)) \<le> length (pool p') + 3" by blast
  have "map_normal (as_gib_pages s) root v f PAGE_SIZE r (m_phys m) = (Inr (), p')"
    using p(1) map_one_page [OF v(2) f] by (simp add: map_leaf_down)
  then show ?thesis using p(2) r s by (simp add: space_map_def through_mapper_def)
qed

lemma place_succeeds:
  assumes g: "growing start b kroot root {#} m" and bt: "presents start b root pages m"
    and v: "low v < 2 ^ 47" "2 ^ 12 dvd unat v" and r: "r_user r" and s: "as_root s = root"
    and n: "4 \<le> length (pool (m_phys m))"
  shows "\<exists>m'. place s v r bs err m = (Inr (), m') \<and> length (pool (m_phys m)) \<le> length (pool (m_phys m')) + 4"
proof -
  obtain f fs where p: "pool (m_phys m) = f # fs" using n by (cases "pool (m_phys m)") auto
  define m1 where "m1 = m\<lparr>m_phys := (m_phys m)\<lparr>pool := fs\<rparr>, m_in_use := m_in_use m + 1\<rparr>"
  have al: "alloc_frame m = (Some f, m1)" using p by (simp add: alloc_frame_def m1_def)
  note a = alloc_growing [OF g al]
  from bt obtain ps where lo: "laid_out b root {#} ps m" unfolding presents_def by blast
  define m2 where "m2 = m1\<lparr>m_data := (m_data m1)(f := bs)\<rparr>"
  note w = write_growing [OF a(1,3) _ m2_def, simplified]
  have p2: "pool (m_phys m2) = fs" by (simp add: m2_def m1_def)
  have "\<exists>m'. space_map s v f r m2 = (Inr (), m') \<and> length (pool (m_phys m2)) \<le> length (pool (m_phys m')) + 3"
    using n p p2 frame_ok_aligned [OF a(2)] v r s
    by (intro map_succeeds [OF w(1) w(2) [OF a(5) [OF lo]]]) auto
  then show ?thesis using al p p2 by (auto simp: place_def m2_def)
qed

lemma page_aligned: "4096 dvd unat v \<Longrightarrow> 4096 dvd unat (v + word_of_nat k * PAGE_SIZE)" for v :: u64
proof -
  assume a: "4096 dvd unat v"
  have e: "word_of_nat k * PAGE_SIZE = (word_of_nat (4096 * k) :: u64)" by (simp add: PAGE_SIZE_def mult.commute)
  have "unat (v + word_of_nat k * PAGE_SIZE) = (unat v + 4096 * k mod 2 ^ 64) mod 2 ^ 64"
    unfolding e by (simp only: unat_word_ariths unat_of_nat len_bit0 len_num1) simp
  moreover have "(4096 :: nat) dvd 2 ^ 64" by simp
  ultimately show ?thesis using a by (simp add: dvd_mod dvd_add)
qed

lemma load_pages_succeeds:
  assumes "growing start (Some c) kroot root {#} m" "c \<notin> set (pool (m_phys start))" "as_root s = root"
    and "unat (sg_vaddr seg) + 4096 * (k + left) \<le> 2 ^ 47" "4096 dvd unat (sg_vaddr seg)"
    and "copied = min (MAX_PAGE * k) (length (sg_file seg))"
    and "r = \<lparr>r_write = er_write (sg_rights seg), r_exec = er_exec (sg_rights seg), r_user = True\<rparr>"
    and "distinct (map fst (pages @ map (segment_page seg) [k ..< k + left]))" "presents start (Some c) root pages m"
    and "4 * left \<le> length (pool (m_phys m))"
  shows "\<exists>m'. load_pages s seg r (word_of_nat k) copied left m = (Inr (), m')
    \<and> length (pool (m_phys m)) \<le> length (pool (m_phys m')) + 4 * left"
  using assms
proof (induction left arbitrary: k copied m pages)
  case (Suc left)
  let ?v = "sg_vaddr seg + word_of_nat k * PAGE_SIZE"
  have v: "low ?v < 2 ^ 47" using Suc.prems(4) by (intro low_page) simp
  have va: "2 ^ 12 dvd unat ?v" using page_aligned [OF Suc.prems(5), of k] by simp
  have r: "r_user r" using Suc.prems(7) by simp
  have "4 \<le> length (pool (m_phys m))" using Suc.prems(10) by simp
  from place_succeeds [OF Suc.prems(1,9) v va r Suc.prems(3) this] obtain m1 where
    pl: "place s ?v r (page_bytes (sg_file seg) k) ''no frame for a program segment'' m = (Inr (), m1)"
      "length (pool (m_phys m)) \<le> length (pool (m_phys m1)) + 4" by blast
  note po = place_ok [OF Suc.prems(1,2) r v Suc.prems(3) pl(1)]
  have e: "[k ..< k + Suc left] = k # [Suc k ..< Suc k + left]" by (simp add: upt_conv_Cons)
  have k1: "segment_page seg k = (page_no 0 ?v, r, page_bytes (sg_file seg) k)"
    using Suc.prems(7) by (simp add: segment_page_def)
  have "page_no 0 ?v \<notin> fst ` set pages" using Suc.prems(8) unfolding e by (auto simp: k1)
  then have b1: "presents start (Some c) root (pages @ [segment_page seg k]) m1"
    unfolding k1 using po(2) Suc.prems(9) by simp
  have "\<exists>m'. load_pages s seg r (word_of_nat (Suc k)) (min (MAX_PAGE * Suc k) (length (sg_file seg))) left m1 = (Inr (), m')
      \<and> length (pool (m_phys m1)) \<le> length (pool (m_phys m')) + 4 * left"
  proof (rule Suc.IH [OF po(1) Suc.prems(2,3) _ Suc.prems(5) refl Suc.prems(7) _ b1])
    show "distinct (map fst ((pages @ [segment_page seg k]) @ map (segment_page seg) [Suc k ..< Suc k + left]))"
      using Suc.prems(8) unfolding e by simp
  qed (use Suc.prems(4,10) pl(2) in simp_all)
  then show ?case unfolding load_pages_place [OF Suc.prems(6)] pl(1) using pl(2) by auto
qed simp

lemma load_segments_succeeds:
  assumes "growing start (Some c) kroot root {#} m" "c \<notin> set (pool (m_phys start))" "as_root s = root"
    and "\<And>it. it \<in> set items \<Longrightarrow> \<exists>seg. it = Inr seg \<and> 4096 dvd unat (sg_vaddr seg) \<and> \<not> elf_is_wx (sg_rights seg)
       \<and> sg_vaddr seg < USER_LIMIT \<and> sg_memsz seg \<le> USER_LIMIT - sg_vaddr seg"
    and "distinct (map fst (pages @ image_layout items))" "presents start (Some c) root pages m"
    and "4 * length (image_layout items) \<le> length (pool (m_phys m))"
  shows "\<exists>m'. load_segments s items m = (Inr (), m')
    \<and> length (pool (m_phys m)) \<le> length (pool (m_phys m')) + 4 * length (image_layout items)"
  using assms
proof (induction items arbitrary: m pages)
  case (Cons it rest)
  from Cons.prems(4) [of it] obtain seg where it: "it = Inr seg" and seg: "4096 dvd unat (sg_vaddr seg)"
    "\<not> elf_is_wx (sg_rights seg)" "\<not> USER_LIMIT \<le> sg_vaddr seg" "\<not> USER_LIMIT - sg_vaddr seg < sg_memsz seg"
    by (auto simp: not_le not_less)
  let ?r = "\<lparr>r_write = er_write (sg_rights seg), r_exec = er_exec (sg_rights seg), r_user = True\<rparr>"
  let ?n = "unat (segment_pages seg)"
  have il: "image_layout (it # rest) = segment_layout seg @ image_layout rest" by (simp add: image_layout_def it)
  have ln: "length (segment_layout seg) = ?n" by (simp add: segment_layout_def)
  have d: "distinct (map fst (pages @ map (segment_page seg) [0 ..< 0 + ?n]))"
    using Cons.prems(5) unfolding il segment_layout_def by auto
  have b: "unat (sg_vaddr seg) + 4096 * (0 + ?n) \<le> 2 ^ 47" using segment_span [OF seg(1,3,4)] by simp
  have "4 * ?n \<le> length (pool (m_phys m))" using Cons.prems(7) ln unfolding il by simp
  from load_pages_succeeds [OF Cons.prems(1-3) b seg(1) _ refl d Cons.prems(6) this, of 0] obtain m1 where
    lp: "load_pages s seg ?r 0 0 ?n m = (Inr (), m1)" "length (pool (m_phys m)) \<le> length (pool (m_phys m1)) + 4 * ?n"
    by auto
  have lp0: "load_pages s seg ?r (word_of_nat 0) 0 ?n m = (Inr (), m1)" using lp(1) by simp
  have "growing start (Some c) kroot root {#} m1 \<and>
    (\<not> isl (Inr () :: string + unit) \<longrightarrow> distinct (map fst (pages @ map (segment_page seg) [0 ..< 0 + ?n])) \<longrightarrow>
      presents start (Some c) root pages m \<longrightarrow> presents start (Some c) root (pages @ map (segment_page seg) [0 ..< 0 + ?n]) m1)"
    by (rule load_pages_ok [OF Cons.prems(1-3) b _ refl lp0]) simp
  then have step: "growing start (Some c) kroot root {#} m1"
    "presents start (Some c) root (pages @ segment_layout seg) m1"
    using d Cons.prems(6) by (simp_all add: segment_layout_def)
  have "\<exists>m'. load_segments s rest m1 = (Inr (), m')
      \<and> length (pool (m_phys m1)) \<le> length (pool (m_phys m')) + 4 * length (image_layout rest)"
    by (rule Cons.IH [OF step(1) Cons.prems(2,3) Cons.prems(4) _ step(2)])
      (use Cons.prems(5,7) lp(2) ln in \<open>auto simp: il\<close>)
  then show ?case using seg lp ln unfolding il by (auto simp: Let_def it)
qed (simp add: image_layout_def)

text \<open>An image that can be loaded: every program header is sound, no segment is writable and executable,
  every segment lies in the user half, and so does the entry point.\<close>

definition loadable :: "elf \<Rightarrow> bool" where
  "loadable img \<longleftrightarrow> (\<forall>it \<in> set (segment_items (elf_segments img)). case it of Inl _ \<Rightarrow> False
     | Inr seg \<Rightarrow> \<not> elf_is_wx (sg_rights seg) \<and> sg_vaddr seg < USER_LIMIT
         \<and> sg_memsz seg \<le> USER_LIMIT - sg_vaddr seg)
   \<and> e_entry img < USER_LIMIT"

lemma fixed_aligned: "2 ^ 12 dvd unat USER_STACK" "2 ^ 12 dvd unat USER_DATA_VA" "2 ^ 12 dvd unat USER_CLOCK_VA"
  by (simp_all add: USER_STACK_def USER_DATA_VA_def USER_CLOCK_VA_def)

lemma build_succeeds:
  assumes "space_ok (m_phys m) kroot" "clock \<notin> set (pool (m_phys m))" "frame_ok clock"
    and "elf_parse user_image = Inr img" "loadable img"
    and "distinct (map fst (space_layout (segment_items (elf_segments img)) i (m_data m clock)))"
    and "1 + 4 * length (space_layout (segment_items (elf_segments img)) i (m_data m clock)) \<le> length (pool (m_phys m))"
  shows "\<exists>s m'. build_space kroot gib user_image i clock m = (Inr s, m')"
proof -
  let ?items = "segment_items (elf_segments img)"
  let ?stack = "(page_no 0 USER_STACK, to_user RW, replicate MAX_PAGE 0)"
  let ?id = "(page_no 0 USER_DATA_VA, to_user RW, i # replicate (MAX_PAGE - 1) 0)"
  have ln: "length (space_layout ?items i (m_data m clock)) = length (image_layout ?items) + 3"
    by (simp add: space_layout_def)
  obtain f fs where p: "pool (m_phys m) = f # fs" using assms(7) by (cases "pool (m_phys m)") auto
  obtain a m1 where s1: "space_new kroot gib m = (Inr a, m1)" and p1: "pool (m_phys m1) = fs" and ent: "as_entry a = 0"
  proof -
    obtain x m1 where x: "space_new kroot gib m = (x, m1)" by (cases "space_new kroot gib m")
    have nk: "f \<noteq> kroot" using assms(1) p by (auto simp: space_ok_def pool_ok_def)
    from x p show thesis
      using copy_entries(2) [OF nk [symmetric], of "[KERNEL_PML4_FIRST ..< 512]"]
      by (intro that [of "\<lparr>as_root = f, as_entry = 0, as_gib_pages = gib, as_borrowed = None\<rparr>" m1])
        (auto simp: space_new_def alloc_frame_def Let_def zero_table_def)
  qed
  note n = space_new_ok [OF assms(1) s1]
  have d: "distinct (map fst (image_layout ?items))"
      "page_no 0 USER_STACK \<notin> fst ` set (image_layout ?items)"
      "page_no 0 USER_DATA_VA \<notin> fst ` set (image_layout ?items @ [?stack])"
      "page_no 0 USER_CLOCK_VA \<notin> fst ` set ((image_layout ?items @ [?stack]) @ [?id])"
    using assms(6) by (auto simp: space_layout_def)
  have "\<exists>m2. load_segments a ?items m1 = (Inr (), m2)
      \<and> length (pool (m_phys m1)) \<le> length (pool (m_phys m2)) + 4 * length (image_layout ?items)"
  proof (rule load_segments_succeeds [OF n(1) assms(2) refl _ _ n(2)])
    fix it assume it: "it \<in> set ?items"
    have "case it of Inl _ \<Rightarrow> False | Inr seg \<Rightarrow> \<not> elf_is_wx (sg_rights seg) \<and> sg_vaddr seg < USER_LIMIT
         \<and> sg_memsz seg \<le> USER_LIMIT - sg_vaddr seg"
      using bspec [OF conjunct1 [OF assms(5) [unfolded loadable_def]] it] .
    then obtain seg where seg: "it = Inr seg" "\<not> elf_is_wx (sg_rights seg)" "sg_vaddr seg < USER_LIMIT"
        "sg_memsz seg \<le> USER_LIMIT - sg_vaddr seg"
      by (cases it) auto
    moreover have "4096 dvd unat (sg_vaddr seg)" using it seg(1) by (simp add: item_aligned)
    ultimately show "\<exists>seg. it = Inr seg \<and> 4096 dvd unat (sg_vaddr seg) \<and> \<not> elf_is_wx (sg_rights seg)
       \<and> sg_vaddr seg < USER_LIMIT \<and> sg_memsz seg \<le> USER_LIMIT - sg_vaddr seg"
      by blast
  qed (use d(1) assms(7) ln p p1 in simp_all)
  then obtain m2 where s2: "load_segments a ?items m1 = (Inr (), m2)" "13 \<le> length (pool (m_phys m2)) + 1"
    using assms(7) ln p p1 by auto
  have "growing m (Some clock) kroot (as_root a) {#} m2 \<and> (\<not> isl (Inr () :: string + unit) \<longrightarrow>
      distinct (map fst ([] @ image_layout ?items)) \<longrightarrow> presents m (Some clock) (as_root a) [] m1 \<longrightarrow>
      presents m (Some clock) (as_root a) ([] @ image_layout ?items) m2)"
    by (rule load_segments_ok [OF n(1) assms(2) refl _ s2(1)]) (rule item_aligned)
  then have g2: "growing m (Some clock) kroot (as_root a) {#} m2"
    and b2: "presents m (Some clock) (as_root a) (image_layout ?items) m2" using d(1) n(2) by simp_all
  let ?a = "a\<lparr>as_entry := e_entry img\<rparr>"
  have ld: "load a img m1 = (Inr ?a, m2)" using s2(1) assms(5) by (simp add: load_def loadable_def Let_def not_le)
  have ra: "as_root ?a = as_root a" by simp
  from place_succeeds [OF g2 b2 fixed_pages(1) fixed_aligned(1) fixed_pages(4) ra] s2(2) obtain m3 where
    s3: "map_stack ?a m2 = (Inr (), m3)" "length (pool (m_phys m2)) \<le> length (pool (m_phys m3)) + 4"
    unfolding map_stack_place by fastforce
  note g3 = place_ok(1) [OF g2 assms(2) fixed_pages(4,1) ra s3(1) [unfolded map_stack_place]]
  have b3: "presents m (Some clock) (as_root a) (image_layout ?items @ [?stack]) m3"
    using place_ok(2) [OF g2 assms(2) fixed_pages(4,1) ra s3(1) [unfolded map_stack_place] _ d(2) b2] by simp
  from place_succeeds [OF g3 b3 fixed_pages(2) fixed_aligned(2) fixed_pages(4) ra] s2(2) s3(2) obtain m4 where
    s4: "seed_id ?a i m3 = (Inr (), m4)" "length (pool (m_phys m3)) \<le> length (pool (m_phys m4)) + 4"
    unfolding seed_id_place by fastforce
  note g4 = place_ok(1) [OF g3 assms(2) fixed_pages(4,2) ra s4(1) [unfolded seed_id_place]]
  have b4: "presents m (Some clock) (as_root a) ((image_layout ?items @ [?stack]) @ [?id]) m4"
    using place_ok(2) [OF g3 assms(2) fixed_pages(4,2) ra s4(1) [unfolded seed_id_place] _ d(3) b3] by simp
  then obtain ps where lo: "laid_out (Some clock) (as_root a) {#} ps m4" unfolding presents_def by blast
  have "\<exists>m5. space_map (?a\<lparr>as_borrowed := Some clock\<rparr>) USER_CLOCK_VA clock (to_user RO) m4 = (Inr (), m5)
      \<and> length (pool (m_phys m4)) \<le> length (pool (m_phys m5)) + 3"
    using s2(2) s3(2) s4(2) frame_ok_aligned [OF assms(3)]
    by (intro map_succeeds [OF g4 lo _ fixed_pages(3) fixed_aligned(3) fixed_pages(4)]) auto
  then obtain m5 where "map_clock ?a clock m4 = (Inr (?a\<lparr>as_borrowed := Some clock\<rparr>), m5)"
    by (auto simp: map_clock_def Let_def)
  then show ?thesis using assms(4) s1 ld s3(1) s4(1) by (simp add: build_space_def)
qed

text \<open>C16: A sound image always gets its space when there are frames. If the image parses and is loadable,
  its pages and the three fixed ones are distinct, and the pool holds four frames for each page of the
  layout and one more, \<open>build_space\<close> succeeds.\<close>

theorem build_space_succeeds:
  assumes "space_ok (m_phys m) kroot" "clock \<notin> set (pool (m_phys m))" "frame_ok clock"
    and "elf_parse user_image = Inr img" "loadable img"
    and "distinct (map fst (space_layout (segment_items (elf_segments img)) i (m_data m clock)))"
    and "1 + 4 * length (space_layout (segment_items (elf_segments img)) i (m_data m clock)) \<le> length (pool (m_phys m))"
  shows "\<exists>s m'. build_space kroot gib user_image i clock m = (Inr s, m')"
  by (rule build_succeeds [OF assms])

section \<open>No page of a program is a table of its tree\<close>

lemma slots_low: "l \<le> 2 \<Longrightarrow> slots l = 512"
  by (simp add: slots_def)

lemma two_slots:
  assumes "i < slots l" "j < slots l" "i \<noteq> j"
  shows "slot_held (held m b l) b l (entries m t i) + slot_held (held m b l) b l (entries m t j) \<subseteq># held m b (Suc l) t"
proof -
  define f where "f = (\<lambda>k. slot_held (held m b l) b l (entries m t k))"
  have "sum f {..<slots l} = f i + (f j + sum f ({..<slots l} - {i} - {j}))"
    using assms by (simp add: sum.remove [of "{..<slots l}" i] sum.remove [of "{..<slots l} - {i}" j])
  then show ?thesis unfolding held.simps f_def by (simp add: add.assoc [symmetric])
qed

lemma tables_held: "l \<le> 2 \<Longrightarrow> x \<in> tables m l t \<Longrightarrow> x \<in># add_mset t (held m b (Suc l) t)"
proof (induction l arbitrary: t)
  case (Suc l)
  from Suc.prems(2) consider "x = t"
    | j where "j < 512" "is_table (entries m t j)" "x \<in> tables m l (entries m t j AND PTE_ADDR_MASK)" by auto
  then show ?case
  proof cases
    case (2 j)
    then have "x \<in># slot_held (held m b (Suc l)) b (Suc l) (entries m t j)"
      using Suc.IH [OF _ 2(3)] Suc.prems(1) by (simp add: slot_table)
    moreover have "slot_held (held m b (Suc l)) b (Suc l) (entries m t j) \<subseteq># held m b (Suc (Suc l)) t"
      using 2(1) slots_low [OF Suc.prems(1)] by (intro slot_in_held) simp
    ultimately show ?thesis by (auto dest: mset_subset_eqD)
  qed simp
qed simp

lemma pair_sub: "x \<in># A \<Longrightarrow> y \<in># B \<Longrightarrow> A + B \<subseteq># C \<Longrightarrow> {#x, y#} \<subseteq># C"
proof -
  assume x: "x \<in># A" and y: "y \<in># B" and s: "A + B \<subseteq># C"
  have "{#x#} + {#y#} \<subseteq># A + B" using x y by (intro subset_mset.add_mono) simp_all
  then show ?thesis using s by (simp add: subset_mset.order_trans add_mset_commute)
qed

text \<open>The step from a child's level to its parent's, for slots below \<open>slots (Suc l)\<close>.\<close>

lemma leaf_and_table_step:
  assumes l: "l \<le> 2" and i: "index v (Suc l) < slots (Suc l)"
    and x: "x = t \<or> (\<exists>j < slots (Suc l). is_table (entries m t j) \<and> x \<in> tables m l (entries m t j AND PTE_ADDR_MASK))"
    and lk: "lookup m v (Suc l) t = Some (k, e)" and nb: "Some (e AND PTE_ADDR_MASK) \<noteq> b"
    and ih: "\<And>c y. y \<in> tables m l c \<Longrightarrow> lookup m v l c = Some (k, e) \<Longrightarrow>
       {#y, e AND PTE_ADDR_MASK#} \<subseteq># add_mset c (held m b (Suc l) c)"
  shows "{#x, e AND PTE_ADDR_MASK#} \<subseteq># add_mset t (held m b (Suc (Suc l)) t)"
proof -
  let ?i = "index v (Suc l)" and ?f = "e AND PTE_ADDR_MASK"
  define S where "S = (\<lambda>j. slot_held (held m b (Suc l)) b (Suc l) (entries m t j))"
  have sub: "S j \<subseteq># held m b (Suc (Suc l)) t" if "j < slots (Suc l)" for j
    unfolding S_def using that by (rule slot_in_held)
  have tab: "y \<in># S j" if "is_table (entries m t j)" "y \<in> tables m l (entries m t j AND PTE_ADDR_MASK)" for y j
    using tables_held [OF l that(2), of b] that(1) by (simp add: S_def slot_table)
  have f: "?f \<in># S ?i"
  proof (cases "is_table (entries m t ?i)")
    case True
    let ?c = "entries m t ?i AND PTE_ADDR_MASK"
    have "lookup m v l ?c = Some (k, e)" using lk is_table_bits [OF True] by (simp add: Let_def)
    from ih [OF tables_self this] have "?f \<in># held m b (Suc l) ?c" by simp
    then show ?thesis using True by (simp add: S_def slot_table)
  next
    case False
    then have "entries m t ?i = e" "bit e 0" "bit e 7" using lk by (auto simp: Let_def is_table_def split: if_splits)
    then show ?thesis using nb by (simp add: S_def slot_held_def owned_def)
  qed
  from x consider "x = t" | j where "j < slots (Suc l)" "is_table (entries m t j)"
      "x \<in> tables m l (entries m t j AND PTE_ADDR_MASK)" by blast
  then show ?thesis
  proof cases
    case 1
    then show ?thesis using mset_subset_eqD [OF sub [OF i] f] by simp
  next
    case (2 j)
    have "{#x, ?f#} \<subseteq># held m b (Suc (Suc l)) t"
    proof (cases "j = ?i")
      case True
      have "lookup m v l (entries m t j AND PTE_ADDR_MASK) = Some (k, e)"
        using lk is_table_bits [OF 2(2)] True by (simp add: Let_def)
      from ih [OF 2(3) this] have "{#x, ?f#} \<subseteq># S j" using 2(2) by (simp add: S_def slot_table)
      then show ?thesis using sub [OF 2(1)] by (rule subset_mset.order_trans)
    next
      case False
      from pair_sub [OF tab [OF 2(2,3)] f] show ?thesis
        unfolding S_def using two_slots [OF 2(1) i False] by blast
    qed
    then show ?thesis by (rule subset_mset.order_trans) simp
  qed
qed

lemma leaf_and_table:
  assumes "l \<le> 2" "x \<in> tables m l t" "lookup m v l t = Some (k, e)" "Some (e AND PTE_ADDR_MASK) \<noteq> b"
  shows "{#x, e AND PTE_ADDR_MASK#} \<subseteq># add_mset t (held m b (Suc l) t)"
  using assms
proof (induction l arbitrary: t x)
  case 0
  have "slot_held (held m b 0) b 0 (entries m t (index v 0)) \<subseteq># held m b (Suc 0) t"
    using index_bound [of v 0] by (intro slot_in_held) (simp add: slots_def)
  then show ?case using 0 by (auto simp: slot_zero owned_def Let_def split: if_splits)
next
  case (Suc l)
  show ?case
  proof (rule leaf_and_table_step [OF _ _ _ Suc.prems(3,4)])
    show "l \<le> 2" using Suc.prems(1) by simp
    show "index v (Suc l) < slots (Suc l)" using index_bound [of v "Suc l"] slots_low [OF Suc.prems(1)] by simp
    show "x = t \<or> (\<exists>j < slots (Suc l). is_table (entries m t j) \<and> x \<in> tables m l (entries m t j AND PTE_ADDR_MASK))"
      using Suc.prems(2) slots_low [OF Suc.prems(1)] by auto
    show "{#y, e AND PTE_ADDR_MASK#} \<subseteq># add_mset c (held m b (Suc l) c)"
      if "y \<in> tables m l c" "lookup m v l c = Some (k, e)" for c y
      using Suc.IH [OF _ that Suc.prems(4)] Suc.prems(1) by simp
  qed
qed

text \<open>The tables reached through the user half.\<close>

definition user_tables :: "phys \<Rightarrow> u64 \<Rightarrow> u64 set" where
  "user_tables p root = insert root (\<Union>i \<in> {i. i < KERNEL_PML4_FIRST \<and> is_table (entries p root i)}.
     tables p 2 (entries p root i AND PTE_ADDR_MASK))"

lemma leaf_not_table:
  assumes g: "growing start b kroot root {#} m" and v: "low v < 2 ^ 47"
    and lk: "lookup (m_phys m) v 3 root = Some (k, e)" and nb: "Some (e AND PTE_ADDR_MASK) \<noteq> b"
    and d: "distinct (pool (m_phys start))"
  shows "e AND PTE_ADDR_MASK \<notin> user_tables (m_phys m) root"
    and "e AND PTE_ADDR_MASK \<in> set (pool (m_phys start)) - set (pool (m_phys m))"
proof -
  let ?f = "e AND PTE_ADDR_MASK"
  have three: "Suc 2 = 3" "Suc 3 = 4" by simp_all
  have P: "held (m_phys m) b 4 root + {#root#} + mset (pool (m_phys m)) \<subseteq># mset (pool (m_phys start))"
    using g by (simp add: growing_def)
  have one: "count (mset (pool (m_phys start))) y \<le> 1" for y using d by (simp add: distinct_count_atmost_1)
  have pair: "{#x, ?f#} \<subseteq># add_mset root (held (m_phys m) b 4 root)" if x: "x \<in> user_tables (m_phys m) root" for x
  proof (rule leaf_and_table_step [where l = 2, unfolded three, OF _ _ _ lk nb])
    show "index v 3 < slots 3" using v by (simp add: slots_def KERNEL_PML4_FIRST_def user_index)
    show "x = root \<or> (\<exists>j < slots 3. is_table (entries (m_phys m) root j)
        \<and> x \<in> tables (m_phys m) 2 (entries (m_phys m) root j AND PTE_ADDR_MASK))"
      using x by (auto simp: user_tables_def slots_def)
    show "{#y, ?f#} \<subseteq># add_mset c (held (m_phys m) b 3 c)"
      if "y \<in> tables (m_phys m) 2 c" "lookup (m_phys m) v 2 c = Some (k, e)" for c y
      using leaf_and_table [OF _ that nb] by (simp add: eval_nat_numeral)
  qed simp
  show "?f \<notin> user_tables (m_phys m) root"
  proof
    assume "?f \<in> user_tables (m_phys m) root"
    from pair [OF this] have "{#?f, ?f#} \<subseteq># held (m_phys m) b 4 root + {#root#} + mset (pool (m_phys m))"
      by (auto intro: subset_mset.order_trans)
    then have "{#?f, ?f#} \<subseteq># mset (pool (m_phys start))" using P by (rule subset_mset.order_trans)
    then have "count {#?f, ?f#} ?f \<le> count (mset (pool (m_phys start))) ?f" by (rule mset_subset_eq_count)
    then show False using one [of ?f] by simp
  qed
  have "root \<in> user_tables (m_phys m) root" by (simp add: user_tables_def)
  from pair [OF this] have f: "?f \<in># held (m_phys m) b 4 root" by simp
  then have "?f \<in># held (m_phys m) b 4 root + {#root#} + mset (pool (m_phys m))" by simp
  then have "?f \<in># mset (pool (m_phys start))" by (rule mset_subset_eqD [OF P])
  moreover have "?f \<notin> set (pool (m_phys m))"
  proof
    assume "?f \<in> set (pool (m_phys m))"
    then have "{#?f, ?f#} \<subseteq># held (m_phys m) b 4 root + {#root#} + mset (pool (m_phys m))"
      using f by (intro pair_sub [where A = "held (m_phys m) b 4 root" and B = "mset (pool (m_phys m))"]) auto
    then have "{#?f, ?f#} \<subseteq># mset (pool (m_phys start))" using P by (rule subset_mset.order_trans)
    then have "count {#?f, ?f#} ?f \<le> count (mset (pool (m_phys start))) ?f" by (rule mset_subset_eq_count)
    then show False using one [of ?f] by simp
  qed
  ultimately show "?f \<in> set (pool (m_phys start)) - set (pool (m_phys m))" by simp
qed

section \<open>Properties\<close>

text \<open>C15: Building a task's address space writes nothing but frames that were free. Whatever
  \<open>build_space\<close> answers (a bad image, no frame left, success), every table entry and every data page
  outside the pool is what it was, the frames still free were free before, the count of frames in
  use and the length of the pool move together, and every tree whose tables are not in the pool - the
  kernel's and the other tasks' - is still well formed and translates every address as before.\<close>

theorem build_space_confined:
  assumes "space_ok (m_phys m) kroot" "clock \<notin> set (pool (m_phys m))" "frame_ok clock"
    and "build_space kroot gib user_image i clock m = (res, m')"
    and "tree_ok (m_phys m) 3 other" "tables (m_phys m) 3 other \<inter> set (pool (m_phys m)) = {}"
  shows "confined m m' \<and> tree_ok (m_phys m') 3 other
    \<and> translate other v (m_phys m') = translate other v (m_phys m)"
proof -
  have c: "confined m m'" by (rule build_space_ok(1) [OF assms(1-4)])
  have e: "entries (m_phys m') x = entries (m_phys m) x" if "x \<in> tables (m_phys m) 3 other" for x
    using c that assms(6) by (auto simp: confined_def)
  have t: "tree_ok (m_phys m') 3 other = tree_ok (m_phys m) 3 other" by (rule frame_tree_ok) (rule e)
  have "lookup (m_phys m') v 3 other = lookup (m_phys m) v 3 other" by (rule frame_lookup) (rule e)
  then show ?thesis using c t assms(5) by (simp add: translate_lookup)
qed

text \<open>What an address shows: the rights of its page and the bytes of the frame behind it.\<close>

definition page_view :: "memory \<Rightarrow> u64 \<Rightarrow> u64 \<Rightarrow> (rights \<times> bytes) option" where
  "page_view m root v =
     map_option (\<lambda>t. (t_rights t, m_data m (t_phys t AND NOT 0xFFF))) (translate root v (m_phys m))"

lemma growing_tree: "growing start b kroot root hand m \<Longrightarrow> tree_ok (m_phys m) 3 root"
  by (simp add: growing_def space_ok_def)

lemma leaf_shows:
  assumes "frame_ok f"
  shows "leaf_translation v (0, leaf_entry f r mt 0) =
      \<lparr>t_phys = f + take_bit 12 v, t_rights = r, t_memory_type = mt, t_page_size = PAGE_SIZE\<rparr>"
    and "(f + take_bit 12 v) AND NOT 0xFFF = f"
proof -
  show "leaf_translation v (0, leaf_entry f r mt 0) =
      \<lparr>t_phys = f + take_bit 12 v, t_rights = r, t_memory_type = mt, t_page_size = PAGE_SIZE\<rparr>"
    using leaf_entry_translation [of 0 f v r mt] frame_ok_aligned [OF assms] by (simp add: level_size_def)
  have nb: "\<not> bit f n" if "n < 12" for n using assms that by (auto simp: frame_ok_bits)
  then have d: "f AND take_bit 12 v = 0" by (intro u64_eqI) (auto simp: bit_and_iff bit_take_bit_iff)
  have p: "f + take_bit 12 v = f OR take_bit 12 v" by (rule disjunctive_add_eq_or [OF d])
  have m: "(0xFFF :: u64) = mask 12" by (simp add: mask_eq_exp_minus_1)
  show "(f + take_bit 12 v) AND NOT 0xFFF = f"
    unfolding p m
  proof (rule u64_eqI)
    fix n :: nat assume "n < 64"
    then show "bit ((f OR take_bit 12 v) AND NOT (mask 12)) n = bit f n"
      using nb [of n] by (auto simp: bit_and_iff bit_or_iff bit_not_iff bit_take_bit_iff bit_mask_iff)
  qed
qed

lemma presents_view:
  assumes g: "growing start b kroot root {#} m" and bt: "presents start b root pages m" and v: "low v < 2 ^ 47"
  shows "page_view m root v = map_of pages (page_no 0 v)"
proof -
  from bt obtain ps where ps: "laid_out b root {#} ps m" "map (\<lambda>(k, f, r, bs). (k, r, bs)) ps = pages"
    unfolding presents_def by blast
  have mo: "map_of pages k = map_option (\<lambda>(f, r, bs). (r, bs)) (map_of ps k)" for k
    unfolding ps(2) [symmetric] by (induction ps) auto
  have lk: "lookup (m_phys m) v 3 root = (case map_of ps (page_no 0 v) of None \<Rightarrow> None
         | Some (f, r, bs) \<Rightarrow> Some (0, leaf_entry f r NormalMemory 0))"
    using ps(1) v by (simp add: laid_out_def user_index)
  show ?thesis
  proof (cases "map_of ps (page_no 0 v)")
    case None
    then show ?thesis using lk growing_tree [OF g] by (simp add: page_view_def translate_lookup mo)
  next
    case (Some x)
    obtain f r bs where x: "x = (f, r, bs)" by (cases x)
    have "(page_no 0 v, f, r, bs) \<in> set ps" using Some x by (simp add: map_of_SomeD)
    then have "frame_ok f" "m_data m f = bs" using ps(1) by (auto simp: laid_out_def)
    then show ?thesis using lk Some x growing_tree [OF g] leaf_shows(1) [of f v r NormalMemory] leaf_shows(2) [of f v]
      by (simp add: page_view_def translate_lookup mo)
  qed
qed

lemma kernel_half:
  assumes ok: "space_ok (m_phys start) kroot" and g: "growing start b kroot root {#} m" and v: "\<not> low v < 2 ^ 47"
  shows "translate root v (m_phys m) = translate kroot v (m_phys start)"
proof -
  let ?p = "m_phys start" and ?q = "m_phys m" and ?i = "index v 3"
  have three: "Suc 2 = 3" by simp
  have i: "256 \<le> ?i" "?i < 512" using v user_index [of v] index_bound [of v 3] by simp_all
  then have e: "entries ?q root ?i = entries ?p kroot ?i" using g by (simp add: growing_def)
  have "lookup ?q v 2 (entries ?p kroot ?i AND PTE_ADDR_MASK) = lookup ?p v 2 (entries ?p kroot ?i AND PTE_ADDR_MASK)"
    if "is_table (entries ?p kroot ?i)"
  proof (rule frame_lookup)
    fix x assume "x \<in> tables ?p 2 (entries ?p kroot ?i AND PTE_ADDR_MASK)"
    then have "x \<in> tables ?p (Suc 2) kroot" unfolding tables.simps using i(2) that by blast
    then have "x \<in> tables ?p 3 kroot" by (simp only: eval_nat_numeral)
    then have "x \<notin> set (pool ?p)" using ok by (auto simp: space_ok_def pool_ok_def)
    then show "entries ?q x = entries ?p x" using g by (simp add: growing_def)
  qed
  moreover have "lookup p v 3 t = (let e = entries p t ?i in
      if \<not> bit e 0 then None else if bit e 7 then Some (3, e) else lookup p v 2 (e AND PTE_ADDR_MASK))" for p t
    using lookup.simps(2) [of p v 2 t] unfolding three .
  ultimately have "lookup ?q v 3 root = lookup ?p v 3 kroot"
    using e by (simp add: Let_def is_table_def)
  then show ?thesis using growing_tree [OF g] ok by (simp add: translate_lookup space_ok_def)
qed

lemma shows_pages:
  assumes "space_ok (m_phys m) kroot" "clock \<notin> set (pool (m_phys m))" "frame_ok clock"
    and "build_space kroot gib user_image i clock m = (Inr s, m')" "elf_parse user_image = Inr img"
    and "distinct (map fst (space_layout (segment_items (elf_segments img)) i (m_data m clock)))"
  shows "if low v < 2 ^ 47
    then page_view m' (as_root s) v = map_of (space_layout (segment_items (elf_segments img)) i (m_data m clock)) (page_no 0 v)
    else translate (as_root s) v (m_phys m') = translate kroot v (m_phys m)"
proof -
  note g = build_space_ok(2) [OF assms(1-4) refl, THEN conjunct1]
  note b = build_space_ok(3) [OF assms(1-4) refl assms(5,6)]
  show ?thesis using presents_view [OF g b] kernel_half [OF assms(1) g] by simp
qed

text \<open>C14: A space that was built shows exactly its program. When no two pages of the image, the stack, the
  id page and the clock page coincide, every address of the user half shows the rights and the bytes
  the layout gives its page - file bytes, then zeros, for the image; a zeroed stack; the id in the
  first byte of its page; the kernel's clock page read-only - and nothing where the layout has no
  page, while every address of the kernel half translates as in the kernel's own tree.\<close>

theorem build_space_shows:
  assumes "space_ok (m_phys m) kroot" "clock \<notin> set (pool (m_phys m))" "frame_ok clock"
    and "build_space kroot gib user_image i clock m = (Inr s, m')" "elf_parse user_image = Inr img"
    and "distinct (map fst (space_layout (segment_items (elf_segments img)) i (m_data m clock)))"
  shows "if low v < 2 ^ 47
    then page_view m' (as_root s) v = map_of (space_layout (segment_items (elf_segments img)) i (m_data m clock)) (page_no 0 v)
    else translate (as_root s) v (m_phys m') = translate kroot v (m_phys m)"
  by (rule shows_pages [OF assms])

text \<open>C13: Tearing a space down gives back exactly what building it took. When the pages of the program
  are distinct, \<open>destroy\<close> of the space \<open>build_space\<close> returned leaves the pool with the frames it had
  before (as a multiset, each once), the count of frames in use at its old value, and reports as many
  frames as the build had taken; the clock frame, which the space only borrows, is not among them.\<close>

theorem build_destroy_roundtrip:
  assumes "space_ok (m_phys m) kroot" "clock \<notin> set (pool (m_phys m))" "frame_ok clock"
    and "build_space kroot gib user_image i clock m = (Inr s, m')" "elf_parse user_image = Inr img"
    and "distinct (map fst (space_layout (segment_items (elf_segments img)) i (m_data m clock)))"
    and "\<And>f p. mset (give f p) = add_mset f (mset p)"
    and "destroy give s m' = (n, m'')"
  shows "mset (pool (m_phys m'')) = mset (pool (m_phys m)) \<and> m_in_use m'' = m_in_use m
    \<and> n + length (pool (m_phys m')) = length (pool (m_phys m))"
proof -
  note g = build_space_ok(2) [OF assms(1-4) refl]
  have b: "as_borrowed s = Some clock" using g by blast
  have co: "complete m (Some clock) (as_root s) {#} m'"
    using build_space_ok(3) [OF assms(1-4) refl assms(5,6)] by (simp add: presents_def)
  obtain fs where fs: "mset fs = held (m_phys m') (Some clock) 4 (as_root s)"
    "free_level give (as_root s) 4 (Some clock) m' = (length fs, fold (free_frame give) fs m')"
    using free_level_held by blast
  have m'': "n = length (fs @ [as_root s])" "m'' = fold (free_frame give) (fs @ [as_root s]) m'"
    using assms(8) fs(2) b by (simp_all add: destroy_def)
  have all: "mset (fs @ [as_root s]) + mset (pool (m_phys m')) = mset (pool (m_phys m))"
    using co fs(1) by (simp add: complete_def)
  have "mset (pool (m_phys m'')) = mset (pool (m_phys m'))+ mset (fs @ [as_root s])"
    unfolding m''(2) by (rule free_all(4)) (rule assms(7))
  then have p: "mset (pool (m_phys m'')) = mset (pool (m_phys m))" using all by (simp add: ac_simps)
  have l: "n + length (pool (m_phys m')) = length (pool (m_phys m))"
    using arg_cong [OF all, of size] m''(1) by simp
  have "m_in_use m' + word_of_nat (length (pool (m_phys m'))) = m_in_use m + word_of_nat (length (pool (m_phys m)))"
    using g by (simp add: growing_def)
  then have "m_in_use m' = m_in_use m + word_of_nat n" unfolding l [symmetric] by simp
  moreover have "m_in_use m'' = m_in_use m' - word_of_nat n" unfolding m'' by (rule free_all(3))
  ultimately show ?thesis using p l by simp
qed

lemma load_segments_wx:
  "load_segments s items m = (Inr u, m') \<Longrightarrow> Inr seg \<in> set items \<Longrightarrow> \<not> elf_is_wx (sg_rights seg)"
proof (induction s items m arbitrary: u m' rule: load_segments.induct)
  case (3 s sg rest m)
  let ?r = "\<lparr>r_write = er_write (sg_rights sg), r_exec = er_exec (sg_rights sg), r_user = True\<rparr>"
  have nx: "\<not> elf_is_wx (sg_rights sg)" "\<not> (USER_LIMIT \<le> sg_vaddr sg \<or> USER_LIMIT - sg_vaddr sg < sg_memsz sg)"
    using "3.prems"(1) by (auto split: if_splits)
  obtain x m1 where lp: "load_pages s sg ?r 0 0 (unat (segment_pages sg)) m = (x, m1)"
    by (cases "load_pages s sg ?r 0 0 (unat (segment_pages sg)) m")
  then obtain y where y: "x = Inr y" and go: "load_segments s rest m1 = (Inr u, m')"
    using "3.prems"(1) nx by (cases x) (simp_all add: Let_def)
  show ?case
  proof (cases "seg = sg")
    case True
    then show ?thesis using nx(1) by simp
  next
    case False
    then have "Inr seg \<in> set rest" using "3.prems"(2) by simp
    then show ?thesis using "3.IH" [OF nx refl lp [symmetric] y go] by blast
  qed
qed simp_all

lemma build_space_wx:
  assumes "build_space kroot gib user_image i clock m = (Inr s, m')" "elf_parse user_image = Inr img"
    and "Inr seg \<in> set (segment_items (elf_segments img))"
  shows "\<not> elf_is_wx (sg_rights seg)"
proof -
  obtain x1 m1 where s1: "space_new kroot gib m = (x1, m1)" by (cases "space_new kroot gib m")
  then obtain a where a: "x1 = Inr a" using assms(1,2) by (cases x1) (simp_all add: build_space_def)
  obtain x2 m2 where s2: "load a img m1 = (x2, m2)" by (cases "load a img m1")
  then obtain a2 where a2: "x2 = Inr a2" using assms(1,2) s1 a by (cases x2) (simp_all add: build_space_def)
  obtain y m3 where "load_segments a (segment_items (elf_segments img)) m1 = (y, m3)"
    by (cases "load_segments a (segment_items (elf_segments img)) m1")
  moreover then obtain u where "y = Inr u" using s2 a2 by (cases y) (simp_all add: load_def)
  ultimately show ?thesis using load_segments_wx assms(3) by blast
qed

lemma layout_rights:
  assumes "\<And>seg. Inr seg \<in> set items \<Longrightarrow> \<not> elf_is_wx (sg_rights seg)" "(k, r, bs) \<in> set (space_layout items i clock)"
  shows "r_user r \<and> \<not> is_wx r"
proof -
  have "r_user r \<and> \<not> is_wx r" if seg: "Inr seg \<in> set items" and p: "(k, r, bs) \<in> set (segment_layout seg)" for seg
    using assms(1) [OF seg] p by (auto simp: segment_layout_def segment_page_def is_wx_def elf_is_wx_def)
  then show ?thesis using assms(2)
    by (auto simp: space_layout_def image_layout_def is_wx_def to_user_def RW_def RO_def split: sum.splits)
qed

text \<open>C12: A program can reach its own pages and the clock, and nothing else. In a space that was built from
  distinct pages, every address of the user half that translates at all does so with the user bit, never
  both writable and executable, and to a frame that was free before the build and is not in the pool
  any more - or to the kernel's clock frame, without the write bit; and that frame is never one of
  the tables through which the program's own addresses are translated.\<close>

theorem build_space_private:
  assumes "space_ok (m_phys m) kroot" "clock \<notin> set (pool (m_phys m))" "frame_ok clock"
    and "build_space kroot gib user_image i clock m = (Inr s, m')" "elf_parse user_image = Inr img"
    and "distinct (map fst (space_layout (segment_items (elf_segments img)) i (m_data m clock)))"
    and "low v < 2 ^ 47" "translate (as_root s) v (m_phys m') = Some t"
  defines "f \<equiv> t_phys t AND NOT 0xFFF"
  shows "r_user (t_rights t) \<and> \<not> is_wx (t_rights t) \<and> f \<notin> user_tables (m_phys m') (as_root s)
    \<and> (f = clock \<and> \<not> r_write (t_rights t) \<or> f \<in> set (pool (m_phys m)) - set (pool (m_phys m')))"
proof -
  let ?L = "space_layout (segment_items (elf_segments img)) i (m_data m clock)"
  note g = build_space_ok(2) [OF assms(1-4) refl, THEN conjunct1]
  from build_space_ok(3) [OF assms(1-4) refl assms(5,6)] obtain ps where
    lo: "laid_out (Some clock) (as_root s) {#} ps m'" and ps: "map (\<lambda>(k, f, r, bs). (k, r, bs)) ps = ?L"
      "\<forall>(k, f, r, bs) \<in> set ps. Some f = Some clock \<and> \<not> r_write r \<or> f \<in> set (pool (m_phys m))"
    unfolding presents_def by blast
  have t: "map_option (leaf_translation v) (lookup (m_phys m') v 3 (as_root s)) = Some t"
    using assms(8) growing_tree [OF g] by (simp add: translate_lookup)
  have lk: "lookup (m_phys m') v 3 (as_root s) = (case map_of ps (page_no 0 v) of None \<Rightarrow> None
         | Some (f, r, bs) \<Rightarrow> Some (0, leaf_entry f r NormalMemory 0))"
    using lo assms(7) by (simp add: laid_out_def user_index)
  then obtain h r bs where mo: "map_of ps (page_no 0 v) = Some (h, r, bs)" using t by (auto split: option.splits)
  then have lk': "lookup (m_phys m') v 3 (as_root s) = Some (0, leaf_entry h r NormalMemory 0)" using lk by simp
  have hin: "(page_no 0 v, h, r, bs) \<in> set ps" using mo by (rule map_of_SomeD)
  then have fo: "frame_ok h" using lo by (auto simp: laid_out_def)
  have te: "t_rights t = r" "f = h"
    using t lk' leaf_shows(1) [OF fo, of v r NormalMemory] leaf_shows(2) [OF fo, of v] by (auto simp: f_def)
  have "(page_no 0 v, r, bs) \<in> set ?L" unfolding ps(1) [symmetric] using hin by force
  then have rt: "r_user r \<and> \<not> is_wx r"
    using layout_rights build_space_wx [OF assms(4,5)] by blast
  note le = leaf_entry_bits(3) [OF fo, of r NormalMemory]
  have d: "distinct (pool (m_phys m))" using assms(1) by (simp add: space_ok_def pool_ok_def)
  show ?thesis
  proof (cases "h = clock")
    case False
    then have "Some (leaf_entry h r NormalMemory 0 AND PTE_ADDR_MASK) \<noteq> Some clock" by (simp add: le)
    from leaf_not_table [OF g assms(7) lk' this d] show ?thesis unfolding te le using rt by blast
  next
    case True
    have "clock \<notin> user_tables (m_phys m') (as_root s)"
    proof
      assume "clock \<in> user_tables (m_phys m') (as_root s)"
      then have "clock \<in># add_mset (as_root s) (held (m_phys m') (Some clock) 4 (as_root s))"
      proof -
        have "x \<in># held (m_phys m') b 4 (as_root s)"
          if j: "j < KERNEL_PML4_FIRST" "is_table (entries (m_phys m') (as_root s) j)"
            and x: "x \<in> tables (m_phys m') 2 (entries (m_phys m') (as_root s) j AND PTE_ADDR_MASK)" for x j b
        proof -
          have three: "Suc 3 = 4" "Suc 2 = 3" by simp_all
          have "x \<in># slot_held (held (m_phys m') b 3) b 3 (entries (m_phys m') (as_root s) j)"
            using tables_held [OF order_refl x, of b] slot_table [OF j(2), of "held (m_phys m') b 3" b 2]
            unfolding three by simp
          then show ?thesis using slot_in_held [of j 3 "m_phys m'" b "as_root s"] j(1)
            unfolding three by (auto simp: slots_def dest: mset_subset_eqD)
        qed
        then show ?thesis using \<open>clock \<in> user_tables (m_phys m') (as_root s)\<close> by (auto simp: user_tables_def)
      qed
      moreover have "held (m_phys m') (Some clock) 4 (as_root s) + {#as_root s#} + mset (pool (m_phys m'))
          \<subseteq># mset (pool (m_phys m))"
        using g by (simp add: growing_def)
      ultimately have "clock \<in># mset (pool (m_phys m))" by (auto dest: mset_subset_eqD)
      then show False using assms(2) by simp
    qed
    then show ?thesis unfolding te using True rt ps(2) hin assms(2) by fastforce
  qed
qed

section \<open>The properties at a small machine\<close>

text \<open>A kernel tree with nothing in it, twenty-four free frames and a clock frame beside them.\<close>

definition small_memory :: memory where
  "small_memory = \<lparr>m_phys = \<lparr>entries = (\<lambda>_ _. 0), pool = map (\<lambda>k. 0x2000 + word_of_nat k * 0x1000) [0 ..< 24]\<rparr>,
     m_data = (\<lambda>_. []), m_in_use = 0\<rparr>"

lemma small_memory_ok: "space_ok (m_phys small_memory) 0x1000" "0x100000 \<notin> set (pool (m_phys small_memory))"
  "frame_ok 0x100000" "length (pool (m_phys small_memory)) = 24"
proof -
  have "entries (m_phys small_memory) 0x1000 = (\<lambda>_. 0)" by (simp add: small_memory_def)
  note e = empty_table [OF this]
  have "pool_ok (m_phys small_memory) {0x1000}"
    by (simp add: pool_ok_def small_memory_def frame_ok_def PTE_ADDR_MASK_def upt_conv_Cons)
  then show "space_ok (m_phys small_memory) 0x1000" by (simp add: space_ok_def e)
  show "0x100000 \<notin> set (pool (m_phys small_memory))" by (simp add: small_memory_def upt_conv_Cons)
  show "frame_ok 0x100000" by (simp add: frame_ok_def PTE_ADDR_MASK_def)
  show "length (pool (m_phys small_memory)) = 24" by (simp add: small_memory_def)
qed

text \<open>The sample image of the loader, entered at its first byte.\<close>

definition user_sample :: builder where
  "user_sample = sample_image\<lparr>bl_entry := 0x1000\<rparr>"

lemmas user_sample_defs = user_sample_def sample_image_defs

lemma user_sample_ok: "builder_ok user_sample" "length (build user_sample) = 180"
  by (simp_all add: builder_ok_def length_build user_sample_defs)

lemma user_sample_tail: "slice 176 4 (build user_sample) = [1, 2, 3, 4]"
proof -
  have "slice 176 4 (build user_sample) = slice 0 4 (bl_tail user_sample)"
    using header_slices(1) [of user_sample]
    by (simp add: build_def slice_append length_phdrs user_sample_defs del: concat.simps list.map)
  then show ?thesis by (simp add: user_sample_defs slice_def)
qed

lemma user_sample_parse: "elf_parse (build user_sample) = Inr (built user_sample)"
  using parse_build [OF user_sample_ok(1)] user_sample_ok(2) by simp

lemma user_sample_items: "segment_items (elf_segments (built user_sample)) = [Inr sample_segment]"
proof -
  have "List.map_filter (phdr_item (build user_sample)) (bl_phdrs user_sample) = [Inr sample_segment]"
    using user_sample_tail user_sample_ok(2)
    by (simp add: phdr_item_def map_filter_def PT_LOAD_def rights_from_flags_def PF_R_def PF_W_def PF_X_def
        user_sample_defs sample_segment_def)
  then show ?thesis using build_items(2) [OF user_sample_ok(1)] user_sample_ok(2) by simp
qed

lemma small_loadable: "loadable (built user_sample)"
  unfolding loadable_def user_sample_items
  by (simp add: sample_segment_def elf_is_wx_def USER_LIMIT_def built_def user_sample_defs)

lemma small_layout: "space_layout [Inr sample_segment] i c =
    (1, \<lparr>r_write = False, r_exec = True, r_user = True\<rparr>, page_bytes [1, 2, 3, 4] 0)
    # [(0x7FFFF, to_user RW, replicate MAX_PAGE 0), (0x400000, to_user RW, i # replicate (MAX_PAGE - 1) 0),
       (0x400010, to_user RO, c)]"
  by (simp add: space_layout_def image_layout_def segment_layout_def segment_page_def sample_segment_def
      segment_pages_def ELF_PAGE_SIZE_def page_no_def low_def USER_STACK_def USER_DATA_VA_def USER_CLOCK_VA_def)

lemma small_distinct: "distinct (map fst (space_layout [Inr sample_segment] i c))"
  by (simp add: small_layout)

theorem build_space_succeeds_witness:
  "\<exists>s m'. build_space 0x1000 False (build user_sample) 7 0x100000 small_memory = (Inr s, m')"
  by (rule build_space_succeeds [OF small_memory_ok(1-3) user_sample_parse small_loadable])
    (simp_all add: user_sample_items small_layout small_memory_ok(4))

text \<open>The space that build leaves, and its memory.\<close>

definition small_build :: "(string + address_space) \<times> memory" where
  "small_build = build_space 0x1000 False (build user_sample) 7 0x100000 small_memory"

lemma small_build_ok: "build_space 0x1000 False (build user_sample) 7 0x100000 small_memory
    = (Inr (projr (fst small_build)), snd small_build)"
proof -
  have "\<exists>s m'. build_space 0x1000 False (build user_sample) 7 0x100000 small_memory = (Inr s, m')"
    by (rule build_succeeds [OF small_memory_ok(1-3) user_sample_parse small_loadable])
      (simp_all add: user_sample_items small_layout small_memory_ok(4))
  then show ?thesis by (auto simp: small_build_def)
qed

theorem build_space_confined_witness:
  "translate 0x1000 0x1234 (m_phys (snd small_build)) = translate 0x1000 0x1234 (m_phys small_memory)"
proof -
  have "tables (m_phys small_memory) 3 0x1000 = {0x1000}" "tree_ok (m_phys small_memory) 3 0x1000"
    by (rule empty_table; simp add: small_memory_def)+
  moreover have "0x1000 \<notin> set (pool (m_phys small_memory))" using small_memory_ok(1)
    by (auto simp: space_ok_def pool_ok_def)
  ultimately show ?thesis
    using build_space_confined [OF small_memory_ok(1-3) small_build_ok, of "0x1000" "0x1234"] by simp
qed

lemmas small_space = small_memory_ok(1-3) small_build_ok user_sample_parse

theorem build_space_shows_witness:
  "page_view (snd small_build) (as_root (projr (fst small_build))) 0x400000123
     = Some (to_user RW, 7 # replicate 4095 0)"
  using build_space_shows [OF small_space, unfolded user_sample_items, OF small_distinct, of "0x400000123"]
  by (simp add: small_layout low_def page_no_def MAX_PAGE_def)

theorem build_destroy_roundtrip_witness:
  "mset (pool (m_phys (snd (destroy (\<lambda>f p. p @ [f]) (projr (fst small_build)) (snd small_build)))))
     = mset (pool (m_phys small_memory))"
proof -
  let ?d = "destroy (\<lambda>f p. p @ [f]) (projr (fst small_build)) (snd small_build)"
  have d: "?d = (fst ?d, snd ?d)" by simp
  have "mset (p @ [f]) = add_mset f (mset p)" for f :: u64 and p by simp
  from build_destroy_roundtrip [OF small_space, unfolded user_sample_items, OF small_distinct this d]
  show ?thesis by simp
qed

theorem build_space_private_witness:
  "\<exists>t. translate (as_root (projr (fst small_build))) 0x400010000 (m_phys (snd small_build)) = Some t
     \<and> r_user (t_rights t) \<and> \<not> is_wx (t_rights t)"
proof -
  have "page_view (snd small_build) (as_root (projr (fst small_build))) 0x400010000 \<noteq> None"
    using shows_pages [OF small_space, unfolded user_sample_items, OF small_distinct, of "0x400010000"]
    by (simp add: small_layout low_def page_no_def)
  then obtain t where t: "translate (as_root (projr (fst small_build))) 0x400010000 (m_phys (snd small_build)) = Some t"
    unfolding page_view_def by auto
  from build_space_private [OF small_space, unfolded user_sample_items, OF small_distinct _ t] t
  show ?thesis by (simp add: low_def)
qed

end
