(* ===== verification/Run.thy ===== *)
theory Run imports Bytes begin

text \<open>
  Code that may panic, and code that may never return. A failed \<open>assert!\<close>, an index out of range
  and an overflowing sum are the value \<open>Panic\<close> of \<open>run\<close>. An \<open>act\<close> is a step on some state: it
  answers \<open>None\<close> when it never returns, \<open>Some Panic\<close> when it panics, and otherwise its result with
  the state it leaves.
\<close>

section \<open>Code that may panic\<close>

datatype 'a run = Panic | Done 'a

definition bind_run :: "'a run \<Rightarrow> ('a \<Rightarrow> 'b run) \<Rightarrow> 'b run" where
  "bind_run x f = (case x of Panic \<Rightarrow> Panic | Done a \<Rightarrow> f a)"

text \<open>\<open>x?\<close> in a function that returns an option.\<close>

definition try_run :: "'a option run \<Rightarrow> ('a \<Rightarrow> 'b option run) \<Rightarrow> 'b option run" where
  "try_run x f = bind_run x (\<lambda>r. case r of None \<Rightarrow> Done None | Some a \<Rightarrow> f a)"

definition get_at :: "'a list \<Rightarrow> u64 \<Rightarrow> 'a option" where
  "get_at xs i = (if unat i < length xs then Some (xs ! unat i) else None)"

definition index_at :: "'a list \<Rightarrow> u64 \<Rightarrow> 'a run" where
  "index_at xs i = (case get_at xs i of None \<Rightarrow> Panic | Some x \<Rightarrow> Done x)"

definition index_range :: "'a list \<Rightarrow> u64 \<Rightarrow> u64 \<Rightarrow> 'a list run" where
  "index_range xs s e = (case get_range xs s e of None \<Rightarrow> Panic | Some ys \<Rightarrow> Done ys)"

definition usize_add :: "u64 \<Rightarrow> u64 \<Rightarrow> u64 run" where
  "usize_add a b = (case checked_add a b of None \<Rightarrow> Panic | Some c \<Rightarrow> Done c)"

lemma bind_run_simps [simp]: "bind_run Panic f = Panic" "bind_run (Done a) f = f a"
  by (simp_all add: bind_run_def)

lemma try_run_simps [simp]: "try_run Panic f = Panic" "try_run (Done None) f = Done None"
  "try_run (Done (Some a)) f = f a"
  by (simp_all add: try_run_def)

section \<open>Checked arithmetic of any width\<close>

definition add_run :: "'a::len word \<Rightarrow> 'a word \<Rightarrow> 'a word run" where
  "add_run a b = (case checked_add a b of None \<Rightarrow> Panic | Some c \<Rightarrow> Done c)"

definition mul_run :: "'a::len word \<Rightarrow> 'a word \<Rightarrow> 'a word run" where
  "mul_run a b = (case checked_mul a b of None \<Rightarrow> Panic | Some c \<Rightarrow> Done c)"

definition sub_run :: "'a::len word \<Rightarrow> 'a word \<Rightarrow> 'a word run" where
  "sub_run a b = (if b \<le> a then Done (a - b) else Panic)"

section \<open>Steps on a state\<close>

type_synonym ('m, 'a) act = "'m \<Rightarrow> ('a \<times> 'm) run option"

definition ret :: "'a \<Rightarrow> ('m, 'a) act" where
  "ret a = (\<lambda>m. Some (Done (a, m)))"

definition panic :: "('m, 'a) act" where
  "panic = (\<lambda>m. Some Panic)"

definition bind_act :: "('m, 'a) act \<Rightarrow> ('a \<Rightarrow> ('m, 'b) act) \<Rightarrow> ('m, 'b) act" where
  "bind_act f g = (\<lambda>m. case f m of
     None \<Rightarrow> None
   | Some Panic \<Rightarrow> Some Panic
   | Some (Done (a, n)) \<Rightarrow> g a n)"

definition seq_act :: "('m, unit) act \<Rightarrow> ('m, 'b) act \<Rightarrow> ('m, 'b) act" where
  "seq_act f g = bind_act f (\<lambda>u. g)"

definition when_act :: "bool \<Rightarrow> ('m, unit) act \<Rightarrow> ('m, unit) act" where
  "when_act b f = (if b then f else ret ())"

definition assert_act :: "bool \<Rightarrow> ('m, unit) act" where
  "assert_act b = (if b then ret () else panic)"

text \<open>A value computed by code that may panic.\<close>

definition of_run :: "'a run \<Rightarrow> ('m, 'a) act" where
  "of_run r = (\<lambda>m. Some (bind_run r (\<lambda>a. Done (a, m))))"

fun each_act :: "('m, unit) act list \<Rightarrow> ('m, unit) act" where
  "each_act [] = ret ()"
| "each_act (f # fs) = seq_act f (each_act fs)"

text \<open>\<open>x?\<close> in a function that returns a \<open>Result\<close>.\<close>

definition try_sum :: "('m, 'e + 'a) act \<Rightarrow> ('a \<Rightarrow> ('m, 'e + 'b) act) \<Rightarrow> ('m, 'e + 'b) act" where
  "try_sum f g = bind_act f (\<lambda>r. case r of Inl e \<Rightarrow> ret (Inl e) | Inr a \<Rightarrow> g a)"

text \<open>A step on a component of the state.\<close>

definition on_part :: "('w \<Rightarrow> 'm) \<Rightarrow> ('m \<Rightarrow> 'w \<Rightarrow> 'w) \<Rightarrow> ('m, 'a) act \<Rightarrow> ('w, 'a) act" where
  "on_part view store f = (\<lambda>w. case f (view w) of
     None \<Rightarrow> None
   | Some Panic \<Rightarrow> Some Panic
   | Some (Done (a, n)) \<Rightarrow> Some (Done (a, store n w)))"

lemma ret_apply [simp]: "ret a m = Some (Done (a, m))" by (simp add: ret_def)

lemma panic_apply [simp]: "panic m = Some Panic" by (simp add: panic_def)

lemma bind_act_simps [simp]:
  "f m = None \<Longrightarrow> bind_act f g m = None"
  "f m = Some Panic \<Longrightarrow> bind_act f g m = Some Panic"
  "f m = Some (Done (a, n)) \<Longrightarrow> bind_act f g m = g a n"
  by (simp_all add: bind_act_def)

lemma seq_act_simps [simp]:
  "f m = None \<Longrightarrow> seq_act f g m = None"
  "f m = Some Panic \<Longrightarrow> seq_act f g m = Some Panic"
  "f m = Some (Done (a, n)) \<Longrightarrow> seq_act f g m = g n"
  by (simp_all add: seq_act_def)

lemma when_act_simps [simp]: "when_act True f = f" "when_act False f = ret ()"
  by (simp_all add: when_act_def)

lemma assert_act_simps [simp]: "assert_act True = ret ()" "assert_act False = panic"
  by (simp_all add: assert_act_def)

lemma seq_assert: "seq_act (assert_act b) f m = (if b then f m else Some Panic)"
  by (cases b) simp_all

lemma of_run_simps [simp]: "of_run Panic m = Some Panic" "of_run (Done a) m = Some (Done (a, m))"
  by (simp_all add: of_run_def)

lemma on_part_simps [simp]:
  "f (view w) = None \<Longrightarrow> on_part view store f w = None"
  "f (view w) = Some Panic \<Longrightarrow> on_part view store f w = Some Panic"
  "f (view w) = Some (Done (a, n)) \<Longrightarrow> on_part view store f w = Some (Done (a, store n w))"
  by (simp_all add: on_part_def)

lemma bind_act_Done:
  "bind_act f g m = Some (Done (b, k)) \<longleftrightarrow>
     (\<exists>a n. f m = Some (Done (a, n)) \<and> g a n = Some (Done (b, k)))"
  by (auto simp: bind_act_def split: option.splits run.splits)

lemma seq_act_Done:
  "seq_act f g m = Some (Done (b, k)) \<longleftrightarrow>
     (\<exists>n. f m = Some (Done ((), n)) \<and> g n = Some (Done (b, k)))"
  by (auto simp: seq_act_def bind_act_Done)

lemma try_sum_simps [simp]:
  "f m = None \<Longrightarrow> try_sum f g m = None"
  "f m = Some Panic \<Longrightarrow> try_sum f g m = Some Panic"
  "f m = Some (Done (Inl e, n)) \<Longrightarrow> try_sum f g m = Some (Done (Inl e, n))"
  "f m = Some (Done (Inr a, n)) \<Longrightarrow> try_sum f g m = g a n"
  by (simp_all add: try_sum_def)

lemma try_sum_Inr: "try_sum f g m = Some (Done (Inr b, k)) \<longleftrightarrow>
    (\<exists>a n. f m = Some (Done (Inr a, n)) \<and> g a n = Some (Done (Inr b, k)))"
  by (simp add: try_sum_def bind_act_Done split_sum_ex)

lemma try_sum_Done: "try_sum f g m = Some (Done (r, k)) \<longleftrightarrow>
    (\<exists>e. f m = Some (Done (Inl e, k)) \<and> r = Inl e) \<or>
    (\<exists>a n. f m = Some (Done (Inr a, n)) \<and> g a n = Some (Done (r, k)))"
  by (auto simp: try_sum_def bind_act_Done split_sum_ex)

lemma of_run_Done: "of_run r m = Some (Done (a, n)) \<longleftrightarrow> r = Done a \<and> n = m"
  by (cases r) auto

lemma add_run_Done: "add_run a b = Done c \<longleftrightarrow> unat a + unat b < 2 ^ LENGTH('a) \<and> c = a + b"
  for a b :: "'a::len word"
  by (auto simp: add_run_def checked_add_def)

end
