(* ===== verification/Acpi.thy ===== *)
theory Acpi imports Run begin

text \<open>
  ACPI tables: the parsers of \<open>crates/acpi/src/lib.rs\<close> and the discovery of \<open>crates/kernel/src/acpi.rs\<close>
  on top of them. An index out of range, a range out of a slice and a sum that overflows are
  the value \<open>Panic\<close>; a parser that refuses its input answers \<open>Done None\<close>.
\<close>

section \<open>Fields\<close>

definition u16_of :: "u8 \<Rightarrow> u8 \<Rightarrow> u16" where
  "u16_of lo hi = word_of_nat (from_le [lo, hi])"

definition u32_at :: "bytes \<Rightarrow> u64 \<Rightarrow> u32 option run" where
  "u32_at b off = bind_run (usize_add off 4) (\<lambda>e.
     Done (map_option (\<lambda>bs. word_of_nat (from_le bs)) (get_range b off e)))"

definition u64_at :: "bytes \<Rightarrow> u64 \<Rightarrow> u64 option run" where
  "u64_at b off = bind_run (usize_add off 8) (\<lambda>e.
     Done (map_option (\<lambda>bs. word_of_nat (from_le bs)) (get_range b off e)))"

definition checksum_ok :: "bytes \<Rightarrow> bool" where
  "checksum_ok bs \<longleftrightarrow> fold (\<lambda>b acc. acc + b) bs 0 = 0"

definition ascii :: "string \<Rightarrow> bytes" where
  "ascii s = map of_char s"

section \<open>The root pointer\<close>

definition RSDP_SIGNATURE :: bytes where "RSDP_SIGNATURE = ascii ''RSD PTR ''"
definition RSDP_V1_LEN :: u64 where "RSDP_V1_LEN = 20"
definition RSDP_V2_LEN :: u64 where "RSDP_V2_LEN = 36"
definition SDT_HEADER_LEN :: u64 where "SDT_HEADER_LEN = 36"

record rsdp =
  rs_revision :: u8
  rs_rsdt :: u32
  rs_xsdt :: u64
  rs_oem_id :: bytes

definition rsdp_parse :: "bytes \<Rightarrow> rsdp option run" where
  "rsdp_parse b =
     (if length b < unat RSDP_V1_LEN then Done None else
      bind_run (index_range b 0 8) (\<lambda>sig.
      if sig \<noteq> RSDP_SIGNATURE then Done None else
      bind_run (index_range b 0 RSDP_V1_LEN) (\<lambda>v1.
      if \<not> checksum_ok v1 then Done None else
      bind_run (index_at b 15) (\<lambda>revision.
      try_run (u32_at b 16) (\<lambda>rsdt.
      bind_run (index_range b 9 15) (\<lambda>oem.
      try_run
        (if 2 \<le> revision then
           if length b < unat RSDP_V2_LEN then Done None else
           try_run (u32_at b 20) (\<lambda>len.
           if \<not> (unat RSDP_V2_LEN \<le> unat len \<and> unat len \<le> length b) then Done None else
           bind_run (index_range b 0 (ucast len)) (\<lambda>v2.
           if \<not> checksum_ok v2 then Done None else u64_at b 24))
         else Done (Some 0))
        (\<lambda>xsdt. Done (Some \<lparr>rs_revision = revision, rs_rsdt = rsdt, rs_xsdt = xsdt, rs_oem_id = oem\<rparr>))))))))"

definition rsdp_directory :: "rsdp \<Rightarrow> (u64 \<times> u64) option" where
  "rsdp_directory r =
     (if 2 \<le> rs_revision r \<and> rs_xsdt r \<noteq> 0 then Some (rs_xsdt r, 8)
      else if rs_rsdt r \<noteq> 0 then Some (ucast (rs_rsdt r), 4)
      else None)"

section \<open>Tables\<close>

record sdt_header =
  sdt_signature :: bytes
  sdt_length :: u32
  sdt_revision :: u8
  sdt_oem_table_id :: bytes

definition sdt_parse :: "bytes \<Rightarrow> sdt_header option run" where
  "sdt_parse b =
     (if length b < unat SDT_HEADER_LEN then Done None else
      try_run (u32_at b 4) (\<lambda>len.
      if unat len < unat SDT_HEADER_LEN \<or> length b < unat len then Done None else
      bind_run (index_range b 0 (ucast len)) (\<lambda>whole.
      if \<not> checksum_ok whole then Done None else
      bind_run (index_range b 0 4) (\<lambda>sig.
      bind_run (index_range b 16 24) (\<lambda>oem.
      bind_run (index_at b 8) (\<lambda>rev.
      Done (Some \<lparr>sdt_signature = sig, sdt_length = len, sdt_revision = rev, sdt_oem_table_id = oem\<rparr>)))))))"

definition sdt_is :: "sdt_header \<Rightarrow> bytes \<Rightarrow> bool" where
  "sdt_is h sig \<longleftrightarrow> sdt_signature h = sig"

text \<open>The directory: the bytes after the header and the width of a pointer in it.\<close>

record directory =
  dir_entries :: bytes
  dir_width :: u64

definition directory_parse :: "bytes \<Rightarrow> u64 \<Rightarrow> directory option run" where
  "directory_parse b width =
     try_run (sdt_parse b) (\<lambda>h.
     if \<not> sdt_is h (if width = 8 then ascii ''XSDT'' else ascii ''RSDT'') then Done None
     else Done (map_option (\<lambda>es. \<lparr>dir_entries = es, dir_width = width\<rparr>)
       (get_range b SDT_HEADER_LEN (ucast (sdt_length h)))))"

definition dir_len :: "directory \<Rightarrow> nat run" where
  "dir_len d = (if dir_width d = 0 then Panic else Done (length (dir_entries d) div unat (dir_width d)))"

definition dir_entry :: "directory \<Rightarrow> u64 \<Rightarrow> u64 option run" where
  "dir_entry d i =
     (case checked_mul i (dir_width d) of
        None \<Rightarrow> Done None
      | Some off \<Rightarrow>
          if dir_width d = 8 then u64_at (dir_entries d) off
          else try_run (u32_at (dir_entries d) off) (\<lambda>x. Done (Some (ucast x))))"

text \<open>\<open>filter_map\<close> over \<open>0..n\<close>, an item at a time.\<close>

fun filter_map_run :: "('a \<Rightarrow> 'b option run) \<Rightarrow> 'a list \<Rightarrow> 'b list run" where
  "filter_map_run f [] = Done []"
| "filter_map_run f (x # xs) = bind_run (f x) (\<lambda>r. bind_run (filter_map_run f xs) (\<lambda>ys.
     Done (case r of None \<Rightarrow> ys | Some y \<Rightarrow> y # ys)))"

definition dir_iter :: "directory \<Rightarrow> u64 list run" where
  "dir_iter d = bind_run (dir_len d) (\<lambda>n. filter_map_run (\<lambda>i. dir_entry d (word_of_nat i)) [0 ..< n])"

section \<open>The interrupt topology\<close>

datatype madt_entry =
    LocalApic u8 u8 bool
  | IoApic u8 u32 u32
  | InterruptOverride u8 u8 u32 u16
  | LocalApicNmi u8 u16 u8
  | LocalX2Apic u32 u32 bool
  | OtherEntry u8

record madt =
  md_body :: bytes
  md_local_apic_address :: u32
  md_has_legacy_pics :: bool

definition madt_parse :: "bytes \<Rightarrow> madt option run" where
  "madt_parse b =
     try_run (sdt_parse b) (\<lambda>h.
     if \<not> sdt_is h (ascii ''APIC'') then Done None else
     try_run (u32_at b 36) (\<lambda>addr.
     try_run (u32_at b 40) (\<lambda>flags.
     Done (map_option (\<lambda>body. \<lparr>md_body = body, md_local_apic_address = addr, md_has_legacy_pics = (flags AND 1 \<noteq> 0)\<rparr>)
       (get_range b 44 (ucast (sdt_length h)))))))"

text \<open>The match of \<open>MadtIter::next\<close>: \<open>e\<close> are the \<open>len\<close> bytes of the entry.\<close>

definition madt_decode :: "u8 \<Rightarrow> u64 \<Rightarrow> bytes \<Rightarrow> madt_entry option run" where
  "madt_decode ty len e =
     (if ty = 0 \<and> 8 \<le> len then
        bind_run (index_at e 2) (\<lambda>acpi. bind_run (index_at e 3) (\<lambda>apic.
        try_run (u32_at e 4) (\<lambda>f. Done (Some (LocalApic acpi apic (f AND 1 \<noteq> 0))))))
      else if ty = 1 \<and> 12 \<le> len then
        bind_run (index_at e 2) (\<lambda>i. try_run (u32_at e 4) (\<lambda>addr. try_run (u32_at e 8) (\<lambda>base.
        Done (Some (IoApic i addr base)))))
      else if ty = 2 \<and> 10 \<le> len then
        bind_run (index_at e 2) (\<lambda>bus. bind_run (index_at e 3) (\<lambda>irq. try_run (u32_at e 4) (\<lambda>gsi.
        bind_run (index_at e 8) (\<lambda>lo. bind_run (index_at e 9) (\<lambda>hi.
        Done (Some (InterruptOverride bus irq gsi (u16_of lo hi))))))))
      else if ty = 4 \<and> 6 \<le> len then
        bind_run (index_at e 2) (\<lambda>acpi. bind_run (index_at e 3) (\<lambda>lo. bind_run (index_at e 4) (\<lambda>hi.
        bind_run (index_at e 5) (\<lambda>lint. Done (Some (LocalApicNmi acpi (u16_of lo hi) lint))))))
      else if ty = 9 \<and> 16 \<le> len then
        try_run (u32_at e 4) (\<lambda>apic. try_run (u32_at e 12) (\<lambda>acpi. try_run (u32_at e 8) (\<lambda>f.
        Done (Some (LocalX2Apic apic acpi (f AND 1 \<noteq> 0))))))
      else Done (Some (OtherEntry ty)))"

definition madt_next :: "bytes \<Rightarrow> u64 \<Rightarrow> (madt_entry option \<times> u64) run" where
  "madt_next body off =
     (case get_at body off of
        None \<Rightarrow> Done (None, off)
      | Some ty \<Rightarrow>
     bind_run (usize_add off 1) (\<lambda>o1.
     case get_at body o1 of
        None \<Rightarrow> Done (None, off)
      | Some l \<Rightarrow>
     let len = ucast l in
     if len < 2 then Done (None, off) else
     bind_run (usize_add off len) (\<lambda>e.
     if length body < unat e then Done (None, off) else
     bind_run (index_range body off e) (\<lambda>bs.
     bind_run (madt_decode ty len bs) (\<lambda>x. Done (x, e))))))"

lemma madt_next_advances:
  "madt_next body off = Done (Some x, off') \<Longrightarrow> unat off < unat off' \<and> unat off' \<le> length body"
  by (auto simp: madt_next_def Let_def usize_add_def index_range_def bind_run_def word_less_nat_alt checked_add_def
      unat_add_exact split: option.splits if_splits run.splits)

function madt_entries :: "bytes \<Rightarrow> u64 \<Rightarrow> madt_entry list run" where
  "madt_entries body off =
     (case madt_next body off of
        Panic \<Rightarrow> Panic
      | Done (None, off') \<Rightarrow> Done []
      | Done (Some e, off') \<Rightarrow> bind_run (madt_entries body off') (\<lambda>es. Done (e # es)))"
  by pat_completeness auto
termination
  by (relation "measure (\<lambda>(body, off). length body - unat off)")
    (auto dest!: madt_next_advances intro!: diff_less_mono2)

declare madt_entries.simps [simp del]

text \<open>\<open>Madt::cpus\<close>: the identities are written as far as \<open>out\<close> reaches, the count goes on.\<close>

fun startable :: "madt_entry \<Rightarrow> u32 option" where
  "startable (LocalApic acpi apic True) = Some (ucast apic)"
| "startable (LocalX2Apic apic acpi True) = Some apic"
| "startable _ = None"

fun cpus_loop :: "madt_entry list \<Rightarrow> u32 list \<Rightarrow> nat \<Rightarrow> nat \<times> u32 list" where
  "cpus_loop [] out n = (n, out)"
| "cpus_loop (e # es) out n =
     (case startable e of
        None \<Rightarrow> cpus_loop es out n
      | Some i \<Rightarrow> cpus_loop es (if n < length out then out[n := i] else out) (n + 1))"

definition madt_cpus :: "madt \<Rightarrow> u32 list \<Rightarrow> (nat \<times> u32 list) run" where
  "madt_cpus m out = bind_run (madt_entries (md_body m) 0) (\<lambda>es. Done (cpus_loop es out 0))"

text \<open>\<open>Iterator::find_map\<close>.\<close>

fun find_map :: "('a \<Rightarrow> 'b option) \<Rightarrow> 'a list \<Rightarrow> 'b option" where
  "find_map f [] = None"
| "find_map f (x # xs) = (case f x of None \<Rightarrow> find_map f xs | Some y \<Rightarrow> Some y)"

definition first_io_apic :: "madt \<Rightarrow> (u32 \<times> u32) option run" where
  "first_io_apic m = bind_run (madt_entries (md_body m) 0) (\<lambda>es.
     Done (find_map (\<lambda>e. case e of IoApic i address base \<Rightarrow> Some (address, base) | _ \<Rightarrow> None) es))"

definition gsi_for_irq :: "madt \<Rightarrow> u8 \<Rightarrow> u32 run" where
  "gsi_for_irq m irq = bind_run (madt_entries (md_body m) 0) (\<lambda>es.
     Done (case find_map (\<lambda>e. case e of InterruptOverride bus src gsi flags \<Rightarrow>
         if src = irq then Some gsi else None | _ \<Rightarrow> None) es of
       None \<Rightarrow> ucast irq | Some gsi \<Rightarrow> gsi))"

section \<open>The PCI Express windows and the HPET\<close>

record ecam_window =
  ew_base :: u64
  ew_segment :: u16
  ew_bus_start :: u8
  ew_bus_end :: u8

definition config_address :: "ecam_window \<Rightarrow> u8 \<Rightarrow> u8 \<Rightarrow> u8 \<Rightarrow> u64 option run" where
  "config_address w bus dev func =
     (if bus < ew_bus_start w \<or> ew_bus_end w < bus \<or> 32 \<le> dev \<or> 8 \<le> func then Done None
      else let offset = push_bit 20 (ucast (bus - ew_bus_start w)) OR push_bit 15 (ucast dev) OR push_bit 12 (ucast func)
           in bind_run (usize_add (ew_base w) offset) (\<lambda>a. Done (Some a)))"

definition mcfg_parse :: "bytes \<Rightarrow> bytes option run" where
  "mcfg_parse b =
     try_run (sdt_parse b) (\<lambda>h.
     if \<not> sdt_is h (ascii ''MCFG'') then Done None
     else Done (get_range b 44 (ucast (sdt_length h))))"

definition mcfg_windows :: "bytes \<Rightarrow> ecam_window list run" where
  "mcfg_windows body = filter_map_run (\<lambda>i.
     case get_range body (word_of_nat (i * 16)) (word_of_nat (i * 16 + 16)) of
       None \<Rightarrow> Done None
     | Some e \<Rightarrow> try_run (u64_at e 0) (\<lambda>base. bind_run (index_at e 8) (\<lambda>lo. bind_run (index_at e 9) (\<lambda>hi.
         bind_run (index_at e 10) (\<lambda>s. bind_run (index_at e 11) (\<lambda>l.
         Done (Some \<lparr>ew_base = base, ew_segment = u16_of lo hi, ew_bus_start = s, ew_bus_end = l\<rparr>)))))))
     [0 ..< length body div 16]"

record hpet =
  hp_address :: u64
  hp_number :: u8
  hp_min_tick :: u16

definition hpet_parse :: "bytes \<Rightarrow> hpet option run" where
  "hpet_parse b =
     try_run (sdt_parse b) (\<lambda>h.
     if \<not> sdt_is h (ascii ''HPET'') \<or> unat (sdt_length h) < 56 then Done None else
     try_run (u64_at b 44) (\<lambda>addr. bind_run (index_at b 52) (\<lambda>num. bind_run (index_at b 53) (\<lambda>lo.
     bind_run (index_at b 54) (\<lambda>hi.
     Done (Some \<lparr>hp_address = addr, hp_number = num, hp_min_tick = u16_of lo hi\<rparr>))))))"

section \<open>What the kernel takes out of ACPI\<close>

text \<open>\<open>crates/kernel/src/acpi.rs\<close> reads physical memory through the linear map; \<open>mem\<close> gives the byte at a
  physical address.\<close>

definition HEADER_BYTES :: nat where "HEADER_BYTES = 36"
definition MAX_TABLE_BYTES :: nat where "MAX_TABLE_BYTES = 64 * 1024"
definition MAX_CPU_IDS :: nat where "MAX_CPU_IDS = 64"

record facts =
  f_local_apic :: u64
  f_io_apic :: "(u64 \<times> u32) option"
  f_has_legacy_pics :: bool
  f_cpus :: nat
  f_cpu_ids :: "u32 list"
  f_hpet :: "u64 option"
  f_madt :: u64

definition bytes_at :: "(u64 \<Rightarrow> u8) \<Rightarrow> u64 \<Rightarrow> nat \<Rightarrow> bytes" where
  "bytes_at mem phys len = map (\<lambda>i. mem (phys + word_of_nat i)) [0 ..< len]"

text \<open>A table comes back with the address it is at.\<close>

definition table_at :: "(u64 \<Rightarrow> u8) \<Rightarrow> u64 \<Rightarrow> (u64 \<times> bytes) option run" where
  "table_at mem phys =
     try_run (Done (get_range (bytes_at mem phys HEADER_BYTES) 4 8)) (\<lambda>l.
     let len = from_le l in
     if \<not> (HEADER_BYTES \<le> len \<and> len \<le> MAX_TABLE_BYTES) then Done None else
     let table = bytes_at mem phys len in
     try_run (sdt_parse table) (\<lambda>_. Done (Some (phys, table))))"

fun search_tables :: "(u64 \<Rightarrow> u8) \<Rightarrow> bytes \<Rightarrow> directory \<Rightarrow> nat list \<Rightarrow> (u64 \<times> bytes) option run" where
  "search_tables mem sig dir [] = Done None"
| "search_tables mem sig dir (i # is) =
     bind_run (dir_entry dir (word_of_nat i)) (\<lambda>entry.
     case entry of None \<Rightarrow> search_tables mem sig dir is
     | Some entry \<Rightarrow>
     bind_run (table_at mem entry) (\<lambda>table.
     case table of None \<Rightarrow> search_tables mem sig dir is
     | Some (phys, table) \<Rightarrow>
     bind_run (sdt_parse table) (\<lambda>h.
     if (case h of None \<Rightarrow> False | Some h \<Rightarrow> sdt_is h sig) then Done (Some (phys, table))
     else search_tables mem sig dir is)))"

definition find_table :: "(u64 \<Rightarrow> u8) \<Rightarrow> u64 \<Rightarrow> bytes \<Rightarrow> (u64 \<times> bytes) option run" where
  "find_table mem rsdp_phys sig =
     try_run (rsdp_parse (bytes_at mem rsdp_phys 36)) (\<lambda>rsdp.
     try_run (Done (rsdp_directory rsdp)) (\<lambda>(dir_phys, width).
     try_run (table_at mem dir_phys) (\<lambda>(_, dir_bytes).
     try_run (directory_parse dir_bytes width) (\<lambda>dir.
     bind_run (dir_len dir) (\<lambda>n. search_tables mem sig dir [0 ..< n])))))"

definition discover :: "(u64 \<Rightarrow> u8) \<Rightarrow> u64 \<Rightarrow> facts option run" where
  "discover mem rsdp_phys =
     (if rsdp_phys = 0 then Done None else
      try_run (find_table mem rsdp_phys (ascii ''APIC'')) (\<lambda>(madt_phys, madt_bytes).
      try_run (madt_parse madt_bytes) (\<lambda>madt.
      bind_run (madt_cpus madt (replicate MAX_CPU_IDS 0)) (\<lambda>(cpus, ids).
      bind_run (find_table mem rsdp_phys (ascii ''HPET'')) (\<lambda>t.
      bind_run (case t of None \<Rightarrow> Done None | Some (_, b) \<Rightarrow> hpet_parse b) (\<lambda>h.
      bind_run (first_io_apic madt) (\<lambda>io.
      Done (Some \<lparr>f_local_apic = ucast (md_local_apic_address madt),
        f_io_apic = map_option (\<lambda>(address, gsi_base). (ucast address, gsi_base)) io,
        f_has_legacy_pics = md_has_legacy_pics madt, f_cpus = cpus, f_cpu_ids = ids,
        f_hpet = map_option hp_address h, f_madt = madt_phys\<rparr>))))))))"

definition facts_gsi_for_irq :: "(u64 \<Rightarrow> u8) \<Rightarrow> facts \<Rightarrow> u8 \<Rightarrow> u32 run" where
  "facts_gsi_for_irq mem f irq =
     bind_run (table_at mem (f_madt f)) (\<lambda>t.
     case t of None \<Rightarrow> Done (ucast irq)
     | Some (_, b) \<Rightarrow> bind_run (madt_parse b) (\<lambda>m.
         case m of None \<Rightarrow> Done (ucast irq) | Some madt \<Rightarrow> gsi_for_irq madt irq))"

definition override_flags :: "(u64 \<Rightarrow> u8) \<Rightarrow> facts \<Rightarrow> u8 \<Rightarrow> u16 option run" where
  "override_flags mem f irq =
     try_run (table_at mem (f_madt f)) (\<lambda>(_, b).
     try_run (madt_parse b) (\<lambda>madt.
     bind_run (madt_entries (md_body madt) 0) (\<lambda>es.
     Done (find_map (\<lambda>e. case e of InterruptOverride bus src gsi flags \<Rightarrow>
       if src = irq then Some flags else None | _ \<Rightarrow> None) es))))"

end
