(* ===== verification/AcpiProps.thy ===== *)
theory AcpiProps imports Acpi begin

text \<open>
  The ACPI parsers never panic, walk a MADT entry by entry, read back what a table encodes, refuse a table
  with a wrong byte in it; and what the kernel keeps of the tables agrees with the tables.
\<close>

section \<open>Totality\<close>

lemma length_bound: "unat (off :: u64) + n \<le> length b \<Longrightarrow> length b < 2 ^ 64 \<Longrightarrow> unat off + n < 2 ^ 64"
  by simp

lemma usize_add_done: "unat a + unat b < 2 ^ 64 \<Longrightarrow> usize_add a b = Done (a + b)"
  by (simp add: usize_add_def checked_add_def)

lemma usize_add_cases: "usize_add a b = (if unat a + unat b < 2 ^ 64 then Done (a + b) else Panic)"
  by (simp add: usize_add_def checked_add_def)

text \<open>The little-endian number of \<open>n\<close> bytes at \<open>off\<close>.\<close>

definition le :: "nat \<Rightarrow> nat \<Rightarrow> bytes \<Rightarrow> nat" where
  "le n off b = from_le (slice off n b)"

lemma u32_at_done:
  assumes "unat off + 4 < 2 ^ 64"
  shows "u32_at b off = Done (if unat off + 4 \<le> length b then Some (word_of_nat (le 4 (unat off) b)) else None)"
proof -
  have u: "unat (off + 4) = unat off + 4" using assms unat_add_exact [of off 4] by simp
  then have "off \<le> off + 4" by (simp add: word_le_nat_alt)
  then show ?thesis using assms u by (simp add: u32_at_def usize_add_done get_range_def le_def)
qed

lemma u64_at_done:
  assumes "unat off + 8 < 2 ^ 64"
  shows "u64_at b off = Done (if unat off + 8 \<le> length b then Some (word_of_nat (le 8 (unat off) b)) else None)"
proof -
  have u: "unat (off + 8) = unat off + 8" using assms unat_add_exact [of off 8] by simp
  then have "off \<le> off + 8" by (simp add: word_le_nat_alt)
  then show ?thesis using assms u by (simp add: u64_at_def usize_add_done get_range_def le_def)
qed

lemma index_at_done: "unat i < length xs \<Longrightarrow> index_at xs i = Done (xs ! unat i)"
  by (simp add: index_at_def get_at_def)

lemma index_range_done: "s \<le> e \<Longrightarrow> unat e \<le> length xs \<Longrightarrow> index_range xs s e = Done (slice (unat s) (unat e - unat s) xs)"
  by (simp add: index_range_def get_range_def)

lemma le_bound: "off + n \<le> length b \<Longrightarrow> le n off b < 256 ^ n"
  using from_le_bound [of "slice off n b"] length_slice [of off n b] by (simp add: le_def)

lemma unat_le4: "off + 4 \<le> length b \<Longrightarrow> unat (word_of_nat (le 4 off b) :: u32) = le 4 off b"
  using le_bound [of off 4 b] by (intro unat_word_of_nat_small) simp

text \<open>The header, in closed form.\<close>

definition sdt_len :: "bytes \<Rightarrow> nat" where
  "sdt_len b = le 4 4 b"

definition sdt_valid :: "bytes \<Rightarrow> bool" where
  "sdt_valid b \<longleftrightarrow> 36 \<le> length b \<and> 36 \<le> sdt_len b \<and> sdt_len b \<le> length b \<and> checksum_ok (take (sdt_len b) b)"

definition sdt_of :: "bytes \<Rightarrow> sdt_header" where
  "sdt_of b = \<lparr>sdt_signature = slice 0 4 b, sdt_length = word_of_nat (sdt_len b), sdt_revision = b ! 8,
     sdt_oem_table_id = slice 16 8 b\<rparr>"

lemma sdt_parse_closed: "sdt_parse b = Done (if sdt_valid b then Some (sdt_of b) else None)"
proof (cases "36 \<le> length b")
  case True
  let ?w = "word_of_nat (le 4 4 b) :: u32"
  have len: "u32_at b 4 = Done (Some ?w)" using u32_at_done [of 4 b] True by simp
  have w: "unat ?w = sdt_len b" using unat_le4 [of 4 b] True by (simp add: sdt_len_def)
  have u: "unat (ucast ?w :: u64) = sdt_len b" using unat_ucast_u32 [of ?w] w by simp
  have r: "index_range b 0 4 = Done (slice 0 4 b)" "index_range b 16 24 = Done (slice 16 8 b)" "index_at b 8 = Done (b ! 8)"
    using True by (simp_all add: index_range_done index_at_done word_le_nat_alt)
  show ?thesis
  proof (cases "36 \<le> sdt_len b \<and> sdt_len b \<le> length b")
    case True
    then have "index_range b 0 (ucast ?w) = Done (take (sdt_len b) b)"
      using u by (simp add: index_range_done word_le_nat_alt slice_def)
    then show ?thesis using True \<open>36 \<le> length b\<close> len w r
      by (simp add: sdt_parse_def SDT_HEADER_LEN_def sdt_valid_def sdt_of_def sdt_len_def)
  next
    case False
    then show ?thesis using \<open>36 \<le> length b\<close> len w
      by (auto simp: sdt_parse_def SDT_HEADER_LEN_def sdt_valid_def)
  qed
next
  case False
  then show ?thesis by (simp add: sdt_parse_def SDT_HEADER_LEN_def sdt_valid_def)
qed

lemma sdt_length_valid: "sdt_valid b \<Longrightarrow> unat (ucast (sdt_length (sdt_of b)) :: u64) = sdt_len b"
  "sdt_valid b \<Longrightarrow> unat (sdt_length (sdt_of b)) = sdt_len b"
  using unat_le4 [of 4 b] unat_ucast_u32 [of "word_of_nat (le 4 4 b)"]
  by (simp_all add: sdt_valid_def sdt_of_def sdt_len_def)

lemma body_range:
  "sdt_valid b \<Longrightarrow> k \<le> sdt_len b \<Longrightarrow> k < 2 ^ 64 \<Longrightarrow> get_range b (word_of_nat k) (ucast (sdt_length (sdt_of b)))
    = Some (slice k (sdt_len b - k) b)"
  using sdt_length_valid(1) [of b] unat_word_of_nat_small [of k, where ?'a = 64]
  by (simp add: get_range_def word_le_nat_alt sdt_valid_def)

lemma body_range_none:
  "sdt_valid b \<Longrightarrow> \<not> k \<le> sdt_len b \<Longrightarrow> k < 2 ^ 64 \<Longrightarrow>
    get_range b (word_of_nat k) (ucast (sdt_length (sdt_of b))) = None"
  using sdt_length_valid(1) [of b] unat_word_of_nat_small [of k, where ?'a = 64]
  by (simp add: get_range_def word_le_nat_alt)

section \<open>The walk over a MADT\<close>

text \<open>What the bytes of one entry mean, and the entries of a body: each as long as its second byte says,
  until one cannot be advanced past.\<close>

definition entry_of :: "bytes \<Rightarrow> madt_entry" where
  "entry_of e =
     (let ty = e ! 0; n = length e in
      if ty = 0 \<and> 8 \<le> n then LocalApic (e ! 2) (e ! 3) (odd (le 4 4 e))
      else if ty = 1 \<and> 12 \<le> n then IoApic (e ! 2) (word_of_nat (le 4 4 e)) (word_of_nat (le 4 8 e))
      else if ty = 2 \<and> 10 \<le> n then InterruptOverride (e ! 2) (e ! 3) (word_of_nat (le 4 4 e)) (u16_of (e ! 8) (e ! 9))
      else if ty = 4 \<and> 6 \<le> n then LocalApicNmi (e ! 2) (u16_of (e ! 3) (e ! 4)) (e ! 5)
      else if ty = 9 \<and> 16 \<le> n then LocalX2Apic (word_of_nat (le 4 4 e)) (word_of_nat (le 4 12 e)) (odd (le 4 8 e))
      else OtherEntry ty)"

function madt_walk :: "bytes \<Rightarrow> madt_entry list" where
  "madt_walk b =
     (if length b < 2 then []
      else let n = unat (b ! 1) in
        if n < 2 \<or> length b < n then [] else entry_of (take n b) # madt_walk (drop n b))"
  by pat_completeness auto
termination by (relation "measure length") auto

declare madt_walk.simps [simp del]

lemma even_u32: "even (word_of_nat n :: u32) = even n"
  by transfer simp

lemma odd_flag: "((word_of_nat n :: u32) AND 1 \<noteq> 0) = odd n"
proof -
  have "((word_of_nat n :: u32) AND 1 \<noteq> 0) = odd (word_of_nat n :: u32)"
    unfolding and_one_eq odd_iff_mod_2_eq_one by (rule not_mod_2_eq_0_eq_1)
  then show ?thesis by (simp only: even_u32)
qed

lemma decode_closed:
  assumes "length e = unat len" "1 \<le> length e" "length e < 256"
  shows "madt_decode (e ! 0) len e = Done (Some (entry_of e))"
proof -
  have n: "k \<le> len \<longleftrightarrow> unat k \<le> length e" for k using assms(1) by (simp add: word_le_nat_alt)
  have f: "u32_at e 4 = Done (Some (word_of_nat (le 4 4 e)))" if "8 \<le> length e"
    using u32_at_done [of 4 e] that by simp
  have g: "u32_at e 8 = Done (Some (word_of_nat (le 4 8 e)))" if "12 \<le> length e"
    using u32_at_done [of 8 e] that by simp
  have h: "u32_at e 12 = Done (Some (word_of_nat (le 4 12 e)))" if "16 \<le> length e"
    using u32_at_done [of 12 e] that by simp
  have ia: "index_at e k = Done (e ! unat k)" if "unat k < length e" for k using that by (rule index_at_done)
  show ?thesis
    unfolding madt_decode_def entry_of_def Let_def n
    by (simp add: f g h ia odd_flag)
qed

lemma madt_next_closed:
  assumes "length body < 2 ^ 63" "unat off \<le> length body"
  shows "madt_next body off =
    (let b = drop (unat off) body in
     if length b < 2 \<or> unat (b ! 1) < 2 \<or> length b < unat (b ! 1) then Done (None, off)
     else Done (Some (entry_of (take (unat (b ! 1)) b)), off + word_of_nat (unat (b ! 1))))"
proof -
  define b where "b = drop (unat off) body"
  have lb: "length b = length body - unat off" by (simp add: b_def)
  show ?thesis
  proof (cases "length b < 2")
    case True
    then consider "unat off = length body" | "unat off + 1 = length body" using lb assms(2) by linarith
    then have "madt_next body off = Done (None, off)"
    proof cases
      case 1
      then show ?thesis by (simp add: madt_next_def get_at_def)
    next
      case 2
      then have "unat (off + 1) = length body" using unat_add_exact [of off 1] assms(1) by simp
      then show ?thesis using 2 assms(1) by (simp add: madt_next_def get_at_def usize_add_done)
    qed
    then show ?thesis using True by (simp add: Let_def b_def)
  next
    case False
    define l where "l = b ! Suc 0"
    have l256: "unat l < 256" using unat_less_width [of l] by simp
    note lu = unat_ucast_u8 [of l]
    have o1: "unat (off + 1) = unat off + 1" using unat_add_exact [of off 1] assms False lb by simp
    have at0: "get_at body off = Some (b ! 0)" using False lb assms(2) by (simp add: get_at_def b_def)
    have at1: "get_at body (off + 1) = Some l" using False lb assms(2) o1 by (simp add: get_at_def b_def l_def)
    have a1: "usize_add off 1 = Done (off + 1)" using assms False lb by (intro usize_add_done) simp
    have oe: "unat (off + ucast l) = unat off + unat l"
      using unat_add_exact [of off "ucast l"] assms False lb l256 lu by simp
    have a2: "usize_add off (ucast l) = Done (off + ucast l)"
      using assms False lb l256 lu by (intro usize_add_done) simp
    have small: "(ucast l < (2 :: u64)) = (unat l < 2)" using lu by (simp add: word_less_nat_alt)
    have w: "word_of_nat (unat l) = (ucast l :: u64)" by simp
    show ?thesis
    proof (cases "unat l < 2 \<or> length b < unat l")
      case True
      have "madt_next body off = Done (None, off)"
        using True at0 at1 a1 a2 small oe lb assms(2)
        by (auto simp: madt_next_def Let_def)
      then show ?thesis using True by (simp add: Let_def b_def [symmetric] l_def [symmetric])
    next
      case False
      then have ok: "2 \<le> unat l" "unat l \<le> length b" by simp_all
      let ?e = "take (unat l) b"
      have r: "index_range body off (off + ucast l) = Done ?e"
        using ok oe lb assms(2) by (subst index_range_done) (simp_all add: word_le_nat_alt slice_def b_def)
      have le: "length ?e = unat (ucast l :: u64)" using ok lu by simp
      have e0: "?e ! 0 = b ! 0" using ok by simp
      have "madt_decode (?e ! 0) (ucast l) ?e = Done (Some (entry_of ?e))"
        by (rule decode_closed [OF le]) (use ok l256 in auto)
      then have "madt_next body off = Done (Some (entry_of ?e), off + ucast l)"
        using ok at0 at1 a1 a2 small oe lb assms(2) r e0 by (simp add: madt_next_def Let_def)
      then show ?thesis using ok \<open>\<not> length b < 2\<close> by (simp add: Let_def b_def [symmetric] l_def [symmetric])
    qed
  qed
qed

lemma madt_entries_walk:
  "length body < 2 ^ 63 \<Longrightarrow> unat off \<le> length body \<Longrightarrow>
    madt_entries body off = Done (madt_walk (drop (unat off) body))"
proof (induction body off rule: madt_entries.induct)
  case (1 body off)
  define b where "b = drop (unat off) body"
  have lb: "length b = length body - unat off" by (simp add: b_def)
  note nx = madt_next_closed [OF "1.prems", unfolded Let_def, folded b_def]
  show ?case
  proof (cases "length b < 2 \<or> unat (b ! 1) < 2 \<or> length b < unat (b ! 1)")
    case True
    then show ?thesis using nx unfolding b_def [symmetric]
      by (auto simp: madt_entries.simps [of body off] madt_walk.simps [of b] Let_def)
  next
    case False
    let ?n = "unat (b ! 1)"
    have ok: "2 \<le> length b" "2 \<le> ?n" "?n \<le> length b" using False by auto
    let ?e = "entry_of (take (unat (b ! 1)) b)"
    let ?off = "off + word_of_nat ?n"
    have nx: "madt_next body off = Done (Some ?e, ?off)" using nx False by simp
    have u: "unat ?off = unat off + ?n"
      using ok lb "1.prems" by (intro unat_add_exact [THEN trans]) (simp_all add: unat_ucast_u8)
    have "madt_entries body ?off = Done (madt_walk (drop (unat ?off) body))"
      using "1.IH" [OF nx refl refl] "1.prems" u ok lb by simp
    moreover have "drop (unat ?off) body = drop ?n b" using u by (simp add: b_def add.commute)
    ultimately show ?thesis using nx False unfolding b_def [symmetric]
      by (simp add: madt_entries.simps [of body off] madt_walk.simps [of b] Let_def)
  qed
qed

section \<open>The other parsers, in closed form\<close>

lemma madt_parse_closed: "madt_parse b =
    Done (if sdt_valid b \<and> slice 0 4 b = ascii ''APIC'' \<and> 44 \<le> sdt_len b
      then Some \<lparr>md_body = slice 44 (sdt_len b - 44) b, md_local_apic_address = word_of_nat (le 4 36 b),
        md_has_legacy_pics = odd (le 4 40 b)\<rparr>
      else None)"
proof (cases "sdt_valid b \<and> slice 0 4 b = ascii ''APIC''")
  case True
  then have v: "sdt_valid b" and sg: "sdt_is (sdt_of b) (ascii ''APIC'')" by (simp_all add: sdt_is_def sdt_of_def)
  then have len: "sdt_len b \<le> length b" by (simp add: sdt_valid_def)
  note u = u32_at_done [of 36 b] u32_at_done [of 40 b]
  show ?thesis
  proof (cases "44 \<le> sdt_len b")
    case True
    note r = body_range [OF v True]
    show ?thesis using u True \<open>sdt_valid b \<and> slice 0 4 b = ascii ''APIC''\<close> v sg len r
      by (simp add: madt_parse_def sdt_parse_closed odd_flag)
  next
    case False
    note r = body_range_none [OF v False]
    have "u32_at b 36 = Done None \<or> (\<exists>x. u32_at b 36 = Done (Some x))"
      "u32_at b 40 = Done None \<or> (\<exists>x. u32_at b 40 = Done (Some x))" using u by simp_all
    then show ?thesis using False v sg r by (auto simp: madt_parse_def sdt_parse_closed)
  qed
next
  case False
  then show ?thesis by (auto simp: madt_parse_def sdt_parse_closed sdt_is_def sdt_of_def)
qed

lemma mcfg_parse_closed: "mcfg_parse b =
    Done (if sdt_valid b \<and> slice 0 4 b = ascii ''MCFG'' \<and> 44 \<le> sdt_len b then Some (slice 44 (sdt_len b - 44) b) else None)"
  using body_range [of b 44] body_range_none [of b 44]
  by (auto simp: mcfg_parse_def sdt_parse_closed sdt_is_def sdt_of_def)

lemma directory_parse_closed: "directory_parse b w =
    Done (if sdt_valid b \<and> slice 0 4 b = (if w = 8 then ascii ''XSDT'' else ascii ''RSDT'')
      then Some \<lparr>dir_entries = slice 36 (sdt_len b - 36) b, dir_width = w\<rparr> else None)"
  using body_range [of b 36]
  by (auto simp: directory_parse_def sdt_parse_closed sdt_is_def sdt_of_def SDT_HEADER_LEN_def sdt_valid_def)

lemma hpet_parse_closed: "hpet_parse b =
    Done (if sdt_valid b \<and> slice 0 4 b = ascii ''HPET'' \<and> 56 \<le> sdt_len b
      then Some \<lparr>hp_address = word_of_nat (le 8 44 b), hp_number = b ! 52, hp_min_tick = u16_of (b ! 53) (b ! 54)\<rparr>
      else None)"
proof (cases "sdt_valid b \<and> slice 0 4 b = ascii ''HPET'' \<and> 56 \<le> sdt_len b")
  case True
  then have v: "sdt_valid b" and sg: "sdt_is (sdt_of b) (ascii ''HPET'')" and l: "56 \<le> length b"
    by (simp_all add: sdt_is_def sdt_of_def sdt_valid_def)
  have "u64_at b 44 = Done (Some (word_of_nat (le 8 44 b)))" "index_at b 52 = Done (b ! 52)"
    "index_at b 53 = Done (b ! 53)" "index_at b 54 = Done (b ! 54)"
    using l by (simp_all add: u64_at_done index_at_done)
  then show ?thesis using True sg sdt_length_valid(2) [OF v] by (simp add: hpet_parse_def sdt_parse_closed)
next
  case False
  then show ?thesis using sdt_length_valid(2) [of b]
    by (auto simp: hpet_parse_def sdt_parse_closed sdt_is_def sdt_of_def)
qed

lemma try_run_done: "x \<noteq> Panic \<Longrightarrow> (\<And>a. x = Done (Some a) \<Longrightarrow> f a \<noteq> Panic) \<Longrightarrow> try_run x f \<noteq> Panic"
  by (cases x) (auto simp: try_run_def split: option.splits)

lemma bind_run_done: "x \<noteq> Panic \<Longrightarrow> (\<And>a. x = Done a \<Longrightarrow> f a \<noteq> Panic) \<Longrightarrow> bind_run x f \<noteq> Panic"
  by (cases x) auto

lemma rsdp_parse_done: "rsdp_parse b \<noteq> Panic"
proof (cases "20 \<le> length b")
  case True
  have r: "index_range b 0 8 = Done (slice 0 8 b)" "index_range b 0 20 = Done (slice 0 20 b)"
    "index_range b 9 15 = Done (slice 9 6 b)" "index_at b 15 = Done (b ! 15)"
    using True by (simp_all add: index_range_done index_at_done word_le_nat_alt)
  have u: "u32_at b 16 = Done (Some (word_of_nat (le 4 16 b)))"
    "length b < 36 \<or> u32_at b 20 = Done (Some (word_of_nat (le 4 20 b)))"
    "length b < 36 \<or> u64_at b 24 = Done (Some (word_of_nat (le 8 24 b)))"
    using True by (simp_all add: u32_at_done u64_at_done)
  have w: "index_range b 0 (ucast len) = Done (slice 0 (unat len) b)" if "unat len \<le> length b" for len :: u32
    using that unat_ucast_u32 [of len] by (simp add: index_range_done word_le_nat_alt)
  show ?thesis using r u by (auto simp: rsdp_parse_def RSDP_V1_LEN_def RSDP_V2_LEN_def w split: if_splits)
qed (simp add: rsdp_parse_def RSDP_V1_LEN_def)

lemma rsdp_directory_width: "rsdp_directory r = Some (a, w) \<Longrightarrow> w = 4 \<or> w = 8"
  by (auto simp: rsdp_directory_def split: if_splits)

lemma filter_map_run_done: "(\<And>x. x \<in> set xs \<Longrightarrow> f x \<noteq> Panic) \<Longrightarrow> filter_map_run f xs \<noteq> Panic"
proof (induction xs)
  case (Cons x xs)
  then have "f x \<noteq> Panic" "filter_map_run f xs \<noteq> Panic" by simp_all
  then show ?case by (cases "f x"; cases "filter_map_run f xs") simp_all
qed simp

text \<open>A directory entry inside the length never overflows.\<close>

lemma dir_entry_done:
  assumes "dir_width d = 4 \<or> dir_width d = 8" "length (dir_entries d) < 2 ^ 63" "dir_len d = Done n" "i < n"
  shows "dir_entry d (word_of_nat i) \<noteq> Panic"
proof -
  let ?w = "unat (dir_width d)"
  have w: "?w = 4 \<or> ?w = 8" "dir_width d \<noteq> 0" using assms(1) by auto
  have n: "n = length (dir_entries d) div ?w" using assms(3) w(2) by (simp add: dir_len_def)
  then have "n * ?w \<le> length (dir_entries d)" by simp
  moreover have "i * ?w + ?w \<le> n * ?w" using assms(4) by (metis Suc_leI add.commute mult_Suc mult_le_mono1)
  ultimately have b: "i * ?w + 8 < 2 ^ 64" using assms(2) by simp
  then have i: "unat (word_of_nat i :: u64) = i" using w(1) by (intro unat_word_of_nat_small) auto
  have "unat (word_of_nat i * dir_width d) = i * ?w"
    using unat_mul_exact [of "word_of_nat i" "dir_width d"] b i by simp
  moreover have "checked_mul (word_of_nat i) (dir_width d) = Some (word_of_nat i * dir_width d)"
    using b i by (simp add: checked_mul_def)
  ultimately show ?thesis using b
    by (auto simp: dir_entry_def u64_at_done u32_at_done intro!: try_run_done)
qed

lemma madt_entries_done: "length body < 2 ^ 63 \<Longrightarrow> madt_entries body 0 = Done (madt_walk body)"
  using madt_entries_walk [of body 0] by simp

lemma mcfg_windows_done:
  assumes "length body < 2 ^ 63"
  shows "mcfg_windows body \<noteq> Panic"
  unfolding mcfg_windows_def
proof (rule filter_map_run_done)
  fix i assume "i \<in> set [0 ..< length body div 16]"
  then have i: "i * 16 + 16 \<le> length body" by (auto simp: less_eq_div_iff_mult_less_eq Suc_le_eq [symmetric])
  have u: "unat (word_of_nat (i * 16) :: u64) = i * 16" "unat (word_of_nat (i * 16 + 16) :: u64) = i * 16 + 16"
    using i assms by (intro unat_word_of_nat_small; simp)+
  have g: "get_range body (word_of_nat (i * 16)) (word_of_nat (i * 16 + 16)) = Some (slice (i * 16) 16 body)"
    using i unfolding get_range_def u word_le_nat_alt by simp
  have l: "length (slice (i * 16) 16 body) = 16" using i by (simp add: length_slice)
  then show "(case get_range body (word_of_nat (i * 16)) (word_of_nat (i * 16 + 16)) of
       None \<Rightarrow> Done None
     | Some e \<Rightarrow> try_run (u64_at e 0) (\<lambda>base. bind_run (index_at e 8) (\<lambda>lo. bind_run (index_at e 9) (\<lambda>hi.
         bind_run (index_at e 10) (\<lambda>s. bind_run (index_at e 11) (\<lambda>l.
         Done (Some \<lparr>ew_base = base, ew_segment = u16_of lo hi, ew_bus_start = s, ew_bus_end = l\<rparr>))))))) \<noteq> Panic"
    unfolding g by (simp add: u64_at_done index_at_done)
qed

section \<open>Checksums\<close>

lemma fold_sum: "fold (\<lambda>b acc. acc + b) bs a = a + sum_list (bs :: u8 list)"
  by (induction bs arbitrary: a) (simp_all add: add.assoc)

lemma checksum_sum: "checksum_ok bs \<longleftrightarrow> sum_list bs = 0"
  by (simp add: checksum_ok_def fold_sum)

lemma sum_list_update_word: "i < length xs \<Longrightarrow> sum_list (xs[i := x]) = sum_list xs - xs ! i + x"
  for xs :: "u8 list"
  by (induction xs arbitrary: i) (auto split: nat.split)

lemma slice_list_update: "i < off \<or> off + n \<le> i \<Longrightarrow> slice off n (xs[i := x]) = slice off n xs"
  by (auto simp: slice_def drop_update_swap)

text \<open>A table with one wrong byte is refused. Take any table the parser accepts and change any byte of
  it, the four of the length field apart, to any other value: no header comes back, so none of
  the parsers built on it believes the table.\<close>

theorem corrupt_table_rejected:
  assumes "sdt_parse b = Done (Some h)" "i < unat (sdt_length h)" "i \<notin> {4 ..< 8}" "x \<noteq> b ! i"
  shows "sdt_parse (b[i := x]) = Done None"
proof -
  have v: "sdt_valid b" "h = sdt_of b" using assms(1) by (auto simp: sdt_parse_closed split: if_splits)
  then have i: "i < sdt_len b" "sdt_len b \<le> length b" using assms(2) sdt_length_valid(2) by (auto simp: sdt_valid_def)
  have l: "sdt_len (b[i := x]) = sdt_len b" using assms(3) slice_list_update [of i 4 4 b x]
    by (auto simp: sdt_len_def le_def)
  have "sum_list (take (sdt_len b) (b[i := x])) = sum_list (take (sdt_len b) b) - b ! i + x"
    using i by (simp add: take_update_swap sum_list_update_word)
  also have "\<dots> = x - b ! i" using v(1) by (simp add: sdt_valid_def checksum_sum)
  finally have "\<not> sdt_valid (b[i := x])" using assms(4) by (simp add: sdt_valid_def l checksum_sum)
  then show ?thesis by (simp add: sdt_parse_closed)
qed

section \<open>Writing a table\<close>

text \<open>The table builder of the parser's tests: header, body, and the checksum byte last.\<close>

definition fix_checksum :: "bytes \<Rightarrow> nat \<Rightarrow> nat \<Rightarrow> bytes" where
  "fix_checksum t off len =
     (let t0 = t[off := 0]; sum = fold (\<lambda>b a. a + b) (take len t0) 0 in t0[off := - sum])"

definition acpi_table :: "bytes \<Rightarrow> bytes \<Rightarrow> bytes" where
  "acpi_table sig body =
     (let len = 36 + length body;
          t0 = replicate len 0;
          t1 = put 0 sig t0;
          t2 = put 4 (to_le 4 len) t1;
          t3 = t2[8 := 1];
          t4 = put 10 (ascii ''STAROS'') t3;
          t5 = put 16 (ascii ''STARPC01'') t4;
          t6 = put 36 body t5
      in fix_checksum t6 9 len)"

text \<open>The bytes of an entry, as firmware writes it.\<close>

fun encode_entry :: "madt_entry \<Rightarrow> bytes" where
  "encode_entry (LocalApic acpi apic en) = [0, 8, acpi, apic] @ to_le 4 (of_bool en)"
| "encode_entry (IoApic i addr base) = [1, 12, i, 0] @ to_le 4 (unat addr) @ to_le 4 (unat base)"
| "encode_entry (InterruptOverride bus irq gsi flags) = [2, 10, bus, irq] @ to_le 4 (unat gsi) @ to_le 2 (unat flags)"
| "encode_entry (LocalApicNmi acpi flags lint) = [4, 6, acpi] @ to_le 2 (unat flags) @ [lint]"
| "encode_entry (LocalX2Apic apic acpi en) = [9, 16, 0, 0] @ to_le 4 (unat apic) @ to_le 4 (of_bool en) @ to_le 4 (unat acpi)"
| "encode_entry (OtherEntry ty) = [ty, 2]"

lemma fix_checksum_ok:
  assumes "off < len" "len \<le> length t"
  shows "checksum_ok (take len (fix_checksum t off len))" "length (fix_checksum t off len) = length t"
    "off < o2 \<or> o2 + n \<le> off \<Longrightarrow> slice o2 n (fix_checksum t off len) = slice o2 n t"
  using assms by (auto simp: fix_checksum_def Let_def checksum_sum fold_sum take_update_swap sum_list_update_word
      slice_list_update)

lemma length_ascii [simp]: "length (ascii s) = length s"
  by (simp add: ascii_def)

lemma acpi_table_ok:
  assumes "length sig = 4" "36 + length body < 2 ^ 32"
  defines "t \<equiv> acpi_table sig body"
  shows "sdt_valid t" "sdt_len t = 36 + length body" "slice 0 4 t = sig" "slice 36 (length body) t = body"
proof -
  let ?n = "36 + length body"
  define t6 where "t6 = put 36 body (put 16 (ascii ''STARPC01'') (put 10 (ascii ''STAROS'')
    ((put 4 (to_le 4 ?n) (put 0 sig (replicate ?n 0)))[8 := 1])))"
  have t: "t = fix_checksum t6 9 ?n" by (simp add: t_def acpi_table_def Let_def t6_def)
  have l6: "length t6 = ?n" using assms(1) by (simp add: t6_def)
  have s6: "slice 4 4 t6 = to_le 4 ?n" "slice 0 4 t6 = sig" "slice 36 (length body) t6 = body"
    using assms(1) by (simp_all add: t6_def slice_put slice_list_update)
  note f = fix_checksum_ok [of 9 ?n t6]
  have len: "length t = ?n" using f(2) l6 by (simp add: t)
  have "sdt_len t = from_le (to_le 4 ?n)" using f(3) [of 4 4] l6 s6(1) by (simp add: sdt_len_def le_def t)
  then show l: "sdt_len t = ?n" using assms(2) by (simp add: from_to_le)
  show "sdt_valid t" using f(1) l6 len l by (simp add: sdt_valid_def t)
  show "slice 0 4 t = sig" using f(3) [of 0 4] l6 s6(2) by (simp add: t)
  show "slice 36 (length body) t = body" using f(3) [of 36 "length body"] l6 s6(3) by (simp add: t)
qed

lemma encode_entry_length:
  "2 \<le> length (encode_entry e)" "unat (encode_entry e ! 1) = length (encode_entry e)"
  by (cases e; simp)+

lemma to_le_2: "to_le 2 (unat w) = [word_of_nat (unat w mod 256), word_of_nat (unat w div 256 mod 256)]"
  by (simp add: numeral_2_eq_2)

lemma u16_of_to_le: "u16_of (to_le 2 (unat w) ! 0) (to_le 2 (unat w) ! 1) = w" for w :: u16
proof -
  have "[to_le 2 (unat w) ! 0, to_le 2 (unat w) ! 1] = to_le 2 (unat w)" by (simp add: to_le_2)
  then have "u16_of (to_le 2 (unat w) ! 0) (to_le 2 (unat w) ! 1) = word_of_nat (unat w mod 256 ^ 2)"
    unfolding u16_of_def by (simp only: from_to_le)
  also have "unat w mod 256 ^ 2 = unat w" using unat_less_width [of w] by (intro mod_less) simp
  finally show ?thesis by simp
qed

lemma u32_to_le: "word_of_nat (from_le (to_le 4 (unat w))) = w" for w :: u32
proof -
  have "unat w mod 256 ^ 4 = unat w" using unat_less_width [of w] by (intro mod_less) simp
  then show ?thesis by (simp add: from_to_le)
qed

lemma from_to_u32: "from_le (to_le 4 (unat w)) = unat w" for w :: u32
  using unat_less_width [of w] by (simp add: from_to_le)

lemma flag_to_le: "from_le (to_le 4 (of_bool en)) = of_bool en"
  by (simp add: from_to_le)

lemma entry_of_encode: "entry_of (encode_entry e) = e"
proof (cases e)
  case (InterruptOverride bus irq gsi flags)
  then show ?thesis
    using u16_of_to_le [of flags]
    by (simp add: entry_of_def le_def slice_def u32_to_le nth_append to_le_2)
next
  case (LocalApicNmi acpi flags lint)
  then show ?thesis using u16_of_to_le [of flags] by (simp add: entry_of_def to_le_2)
qed (simp_all add: entry_of_def le_def slice_def u32_to_le flag_to_le)

lemma walk_encode: "madt_walk (concat (map encode_entry es)) = es"
proof (induction es)
  case Nil
  then show ?case by (simp add: madt_walk.simps)
next
  case (Cons e es)
  let ?b = "encode_entry e @ concat (map encode_entry es)"
  have "?b ! 1 = encode_entry e ! 1" using encode_entry_length(1) [of e] by (simp add: nth_append)
  then have n: "unat (?b ! 1) = length (encode_entry e)" by (simp only: encode_entry_length(2))
  have "madt_walk ?b = entry_of (encode_entry e) # madt_walk (concat (map encode_entry es))"
    using encode_entry_length(1) [of e] n by (subst madt_walk.simps) (simp add: Let_def)
  then show ?case using Cons by (simp add: entry_of_encode)
qed

text \<open>A MADT reads back as it was written. Build a table from any local APIC address, any flags and any
  list of entries the way the parser's tests build theirs, and the parser accepts it and its walk
  yields exactly those entries, in order, whatever kinds they are and unknown ones included.\<close>

theorem madt_roundtrip:
  assumes "44 + length (concat (map encode_entry es)) < 2 ^ 32"
    and t: "t = acpi_table (ascii ''APIC'') (to_le 4 (unat addr) @ to_le 4 (unat flags) @ concat (map encode_entry es))"
  shows "\<exists>m. madt_parse t = Done (Some m) \<and> md_local_apic_address m = addr
    \<and> md_has_legacy_pics m = odd (unat (flags :: u32)) \<and> madt_entries (md_body m) 0 = Done es"
proof -
  let ?es = "concat (map encode_entry es)"
  let ?body = "to_le 4 (unat addr) @ to_le 4 (unat flags) @ ?es"
  have lb: "length ?body = 8 + length ?es" by simp
  have ok: "sdt_valid t" "sdt_len t = 44 + length ?es" "slice 0 4 t = ascii ''APIC''" "slice 36 (8 + length ?es) t = ?body"
    unfolding t using acpi_table_ok [of "ascii ''APIC''" ?body] assms(1) lb by simp_all
  have s: "slice (36 + k) n t = slice k n ?body" if "k + n \<le> 8 + length ?es" for k n
    using slice_slice [of k n "8 + length ?es" 36 t] that ok(4) by (simp add: add.commute)
  have f: "le 4 36 t = unat addr" "le 4 40 t = unat flags" "slice 44 (length ?es) t = ?es"
    using s [of 0 4] s [of 4 4] s [of 8 "length ?es"]
    by (simp_all add: le_def slice_def from_to_u32)
  have "madt_parse t = Done (Some \<lparr>md_body = ?es, md_local_apic_address = addr, md_has_legacy_pics = odd (unat flags)\<rparr>)"
    unfolding madt_parse_closed using ok(1-3) f by simp
  moreover have "madt_entries ?es 0 = Done es"
    using madt_entries_done [of ?es] assms(1) by (simp add: walk_encode)
  ultimately show ?thesis by simp
qed

theorem madt_roundtrip_witness:
  "\<exists>m. madt_parse (acpi_table (ascii ''APIC'') (to_le 4 0xFEE00000 @ to_le 4 1 @
      concat (map encode_entry [LocalApic 0 0 True, IoApic 2 0xFEC00000 0, InterruptOverride 0 0 2 0]))) = Done (Some m)
    \<and> madt_entries (md_body m) 0 = Done [LocalApic 0 0 True, IoApic 2 0xFEC00000 0, InterruptOverride 0 0 2 0]"
  using madt_roundtrip [OF _ refl, of "[LocalApic 0 0 True, IoApic 2 0xFEC00000 0, InterruptOverride 0 0 2 0]" "0xFEE00000" 1]
  by auto

text \<open>A one-entry directory, and the same with one address byte changed.\<close>

lemma sample_table: "sdt_parse (acpi_table (ascii ''XSDT'') (to_le 8 0x1000))
    = Done (Some (sdt_of (acpi_table (ascii ''XSDT'') (to_le 8 0x1000))))"
  "unat (sdt_length (sdt_of (acpi_table (ascii ''XSDT'') (to_le 8 0x1000)))) = 44"
proof -
  have "sdt_valid (acpi_table (ascii ''XSDT'') (to_le 8 0x1000))" by (rule acpi_table_ok) simp_all
  moreover have "sdt_len (acpi_table (ascii ''XSDT'') (to_le 8 0x1000)) = 36 + length (to_le 8 0x1000)"
    by (rule acpi_table_ok) simp_all
  ultimately show "sdt_parse (acpi_table (ascii ''XSDT'') (to_le 8 0x1000))
    = Done (Some (sdt_of (acpi_table (ascii ''XSDT'') (to_le 8 0x1000))))"
    "unat (sdt_length (sdt_of (acpi_table (ascii ''XSDT'') (to_le 8 0x1000)))) = 44"
    by (simp_all add: sdt_parse_closed sdt_length_valid(2))
qed

theorem corrupt_table_rejected_witness:
  "sdt_parse ((acpi_table (ascii ''XSDT'') (to_le 8 0x1000))[40 := acpi_table (ascii ''XSDT'') (to_le 8 0x1000) ! 40 + 1])
     = Done None"
  by (rule corrupt_table_rejected [OF sample_table(1)]) (simp_all add: sample_table(2))

section \<open>Discovery\<close>

lemma length_bytes_at [simp]: "length (bytes_at mem phys n) = n"
  by (simp add: bytes_at_def)

lemma bytes_at_take: "k \<le> n \<Longrightarrow> take k (bytes_at mem phys n) = bytes_at mem phys k"
  by (simp add: bytes_at_def take_map)

lemma table_at_cases:
  "table_at mem phys = Done None \<or>
   (\<exists>t. table_at mem phys = Done (Some (phys, t)) \<and> sdt_valid t \<and> sdt_len t = length t \<and> length t \<le> MAX_TABLE_BYTES)"
proof -
  let ?h = "bytes_at mem phys HEADER_BYTES"
  let ?len = "from_le (slice 4 4 ?h)" and ?t = "bytes_at mem phys (from_le (slice 4 4 ?h))"
  have g: "get_range ?h 4 8 = Some (slice 4 4 ?h)" by (simp add: get_range_def word_le_nat_alt HEADER_BYTES_def)
  have l: "sdt_len ?t = ?len" if "HEADER_BYTES \<le> ?len"
  proof -
    have "slice 4 4 ?t = slice 4 4 (take HEADER_BYTES ?t)" by (simp add: slice_take min_def HEADER_BYTES_def)
    then show ?thesis using bytes_at_take [OF that, of mem phys] by (simp add: sdt_len_def le_def)
  qed
  show ?thesis
    unfolding table_at_def g
    by (auto simp: Let_def sdt_parse_closed l)
qed

lemma dir_len_done: "dir_width d = 4 \<or> dir_width d = 8 \<Longrightarrow> dir_len d \<noteq> Panic"
  by (auto simp: dir_len_def)

lemma search_tables_ok:
  assumes "dir_width d = 4 \<or> dir_width d = 8" "length (dir_entries d) < 2 ^ 63" "dir_len d = Done n"
    and "\<And>i. i \<in> set is \<Longrightarrow> i < n"
  shows "search_tables mem sig d is = Done None \<or>
    (\<exists>p t. search_tables mem sig d is = Done (Some (p, t)) \<and> table_at mem p = Done (Some (p, t))
      \<and> sdt_valid t \<and> slice 0 4 t = sig)"
  using assms(4)
proof (induction "is")
  case (Cons i "is")
  have "dir_entry d (word_of_nat i) \<noteq> Panic" using assms(1-3) Cons.prems by (intro dir_entry_done) auto
  then obtain e where e: "dir_entry d (word_of_nat i) = Done e" by (cases "dir_entry d (word_of_nat i)") auto
  have ih: "search_tables mem sig d is = Done None \<or>
    (\<exists>p t. search_tables mem sig d is = Done (Some (p, t)) \<and> table_at mem p = Done (Some (p, t))
      \<and> sdt_valid t \<and> slice 0 4 t = sig)"
    using Cons by simp
  show ?case
  proof (cases e)
    case None
    then show ?thesis using e ih by simp
  next
    case (Some a)
    from table_at_cases [of mem a] show ?thesis
    proof (elim disjE exE conjE)
      assume "table_at mem a = Done None"
      then show ?thesis using e Some ih by simp
    next
      fix t assume t: "table_at mem a = Done (Some (a, t))" "sdt_valid t"
      show ?thesis
      proof (cases "slice 0 4 t = sig")
        case True
        then show ?thesis using e Some t by (simp add: sdt_parse_closed sdt_is_def sdt_of_def)
      next
        case False
        then show ?thesis using e Some t ih by (simp add: sdt_parse_closed sdt_is_def sdt_of_def)
      qed
    qed
  qed
qed simp

lemma find_table_ok:
  "find_table mem rsdp sig = Done None \<or>
    (\<exists>p t. find_table mem rsdp sig = Done (Some (p, t)) \<and> table_at mem p = Done (Some (p, t))
      \<and> sdt_valid t \<and> slice 0 4 t = sig)"
proof (cases "rsdp_parse (bytes_at mem rsdp 36)")
  case Panic
  then show ?thesis using rsdp_parse_done by simp
next
  case r: (Done ro)
  show ?thesis
  proof (cases "case ro of None \<Rightarrow> None | Some x \<Rightarrow> rsdp_directory x")
    case None
    then show ?thesis using r by (auto simp: find_table_def split: option.splits)
  next
    case (Some aw)
    then obtain x a w where x: "ro = Some x" "rsdp_directory x = Some (a, w)" by (cases aw) (auto split: option.splits)
    have w: "w = 4 \<or> w = 8" using rsdp_directory_width x(2) by simp
    have ft: "find_table mem rsdp sig = try_run (table_at mem a) (\<lambda>(_, dir_bytes).
       try_run (directory_parse dir_bytes w) (\<lambda>dir. bind_run (dir_len dir) (\<lambda>n. search_tables mem sig dir [0 ..< n])))"
      using r x by (simp add: find_table_def)
    from table_at_cases [of mem a] show ?thesis
    proof (elim disjE exE conjE)
      assume "table_at mem a = Done None"
      then show ?thesis by (simp add: ft)
    next
      fix t assume t: "table_at mem a = Done (Some (a, t))" "sdt_valid t" "length t \<le> MAX_TABLE_BYTES"
      let ?d = "\<lparr>dir_entries = slice 36 (sdt_len t - 36) t, dir_width = w\<rparr>"
      show ?thesis
      proof (cases "slice 0 4 t = (if w = 8 then ascii ''XSDT'' else ascii ''RSDT'')")
        case True
        obtain n where n: "dir_len ?d = Done n" using dir_len_done [of ?d] w by (cases "dir_len ?d") auto
        have "find_table mem rsdp sig = search_tables mem sig ?d [0 ..< n]"
          using t True n by (simp add: ft directory_parse_closed)
        moreover have "length (dir_entries ?d) < 2 ^ 63"
          using t(3) by (simp add: slice_def MAX_TABLE_BYTES_def)
        ultimately show ?thesis using search_tables_ok [of ?d n "[0 ..< n]" mem sig] w n by simp
      next
        case False
        then show ?thesis using t by (simp add: ft directory_parse_closed)
      qed
    qed
  qed
qed

lemma cpus_loop_ids:
  "cpus_loop es out n = (n + length (List.map_filter startable es),
     take n out @ take (length out - n) (List.map_filter startable es) @ drop (n + length (List.map_filter startable es)) out)"
proof (induction es arbitrary: out n)
  case Nil
  then show ?case by (simp add: map_filter_def)
next
  case (Cons e es)
  show ?case
  proof (cases "startable e")
    case None
    then show ?thesis using Cons by (simp add: map_filter_def)
  next
    case (Some i)
    let ?ids = "List.map_filter startable es"
    have ids: "List.map_filter startable (e # es) = i # ?ids" using Some by (simp add: map_filter_def)
    show ?thesis
    proof (cases "n < length out")
      case True
      have "take (Suc n) (out[n := i]) = take n out @ [i]" using True by (simp add: take_Suc_conv_app_nth)
      then show ?thesis using True Some Cons [of "out[n := i]" "n + 1"] unfolding ids
        by (simp add: Suc_diff_Suc [symmetric])
    next
      case False
      then show ?thesis using Some Cons [of out "n + 1"] unfolding ids by simp
    qed
  qed
qed

text \<open>What an IRQ maps to, given the entries of the MADT: the first override for it, or itself.\<close>

definition gsi_of :: "madt_entry list \<Rightarrow> u8 \<Rightarrow> u32" where
  "gsi_of es irq =
     (case find_map (\<lambda>e. case e of InterruptOverride bus src gsi flags \<Rightarrow>
         if src = irq then Some gsi else None | _ \<Rightarrow> None) es of
       None \<Rightarrow> ucast irq | Some gsi \<Rightarrow> gsi)"

lemma madt_of_table:
  assumes "sdt_valid t" "length t \<le> MAX_TABLE_BYTES" "madt_parse t = Done (Some m)"
  shows "madt_entries (md_body m) 0 = Done (madt_walk (md_body m))"
proof (rule madt_entries_done)
  have "md_body m = slice 44 (sdt_len t - 44) t" using assms(3) by (auto simp: madt_parse_closed split: if_splits)
  then show "length (md_body m) < 2 ^ 63" using assms(2) by (simp add: slice_def MAX_TABLE_BYTES_def)
qed

lemma hpet_done: "hpet_parse b \<noteq> Panic"
  by (simp add: hpet_parse_closed)

text \<open>Discovery is total, and what it keeps is what the tables say. Whatever bytes the firmware left in
  memory and whatever root pointer it advertised, \<open>discover\<close> does not panic; and when it answers with
  facts, these come from a MADT that is still where the facts say, of the right signature and with a
  good checksum: the processor count is the number of startable processors in it, the identities
  kept are the first sixty-four of them in table order, and asking the facts for the interrupt an IRQ
  arrives on later gives the first override for that IRQ, or the IRQ itself.\<close>

theorem discover_sound:
  shows "case discover mem rsdp of Panic \<Rightarrow> False | Done None \<Rightarrow> True
    | Done (Some f) \<Rightarrow> (\<exists>t m. table_at mem (f_madt f) = Done (Some (f_madt f, t)) \<and> checksum_ok t
        \<and> slice 0 4 t = ascii ''APIC'' \<and> madt_parse t = Done (Some m)
        \<and> f_cpus f = length (List.map_filter startable (madt_walk (md_body m)))
        \<and> take (f_cpus f) (f_cpu_ids f) = take MAX_CPU_IDS (List.map_filter startable (madt_walk (md_body m)))
        \<and> facts_gsi_for_irq mem f irq = Done (gsi_of (madt_walk (md_body m)) irq))"
proof -
  consider "rsdp = 0 \<or> find_table mem rsdp (ascii ''APIC'') = Done None"
    | p t where "rsdp \<noteq> 0" "find_table mem rsdp (ascii ''APIC'') = Done (Some (p, t))"
        "table_at mem p = Done (Some (p, t))" "sdt_valid t" "slice 0 4 t = ascii ''APIC''"
    using find_table_ok [of mem rsdp "ascii ''APIC''"] by blast
  then show ?thesis
  proof cases
    case 1
    then show ?thesis by (auto simp: discover_def)
  next
    case (2 p t)
    have tt: "sdt_len t = length t" "length t \<le> MAX_TABLE_BYTES" using table_at_cases [of mem p] 2(3) by auto
    have ck: "checksum_ok t" using 2(4) tt(1) by (simp add: sdt_valid_def)
    obtain mo where mo: "madt_parse t = Done mo" by (simp add: madt_parse_closed)
    show ?thesis
    proof (cases mo)
      case None
      then show ?thesis using 2 mo by (simp add: discover_def)
    next
      case (Some m)
      let ?es = "madt_walk (md_body m)" and ?ids = "List.map_filter startable (madt_walk (md_body m))"
      have en: "madt_entries (md_body m) 0 = Done ?es" using madt_of_table [OF 2(4) tt(2)] mo Some by simp
      obtain cpus ids where cp: "madt_cpus m (replicate MAX_CPU_IDS 0) = Done (cpus, ids)"
        "cpus = length ?ids" "ids = take MAX_CPU_IDS ?ids @ drop (length ?ids) (replicate MAX_CPU_IDS 0)"
        using en by (simp add: madt_cpus_def cpus_loop_ids)
      obtain io where io: "first_io_apic m = Done io" using en by (simp add: first_io_apic_def)
      obtain h where h: "find_table mem rsdp (ascii ''HPET'') = Done h"
        using find_table_ok [of mem rsdp "ascii ''HPET''"] by auto
      obtain hp where hp: "(case h of None \<Rightarrow> Done None | Some (_, b) \<Rightarrow> hpet_parse b) = Done hp"
        by (cases h) (auto simp: hpet_parse_closed split: prod.splits)
      have d: "discover mem rsdp = Done (Some \<lparr>f_local_apic = ucast (md_local_apic_address m),
        f_io_apic = map_option (\<lambda>(address, gsi_base). (ucast address, gsi_base)) io,
        f_has_legacy_pics = md_has_legacy_pics m, f_cpus = cpus, f_cpu_ids = ids,
        f_hpet = map_option hp_address hp, f_madt = p\<rparr>)"
        using 2(1,2) mo Some cp(1) h hp io by (simp add: discover_def)
      have ids: "take cpus ids = take MAX_CPU_IDS ?ids" unfolding cp(2,3) by (simp add: min_def)
      have g: "facts_gsi_for_irq mem f irq = Done (gsi_of ?es irq)" if "f_madt f = p" for f
        using 2(3) mo Some en that by (simp add: facts_gsi_for_irq_def gsi_for_irq_def gsi_of_def)
      show ?thesis using d 2(3,5) ck mo Some cp(2) ids g by simp
    qed
  qed
qed

section \<open>Totality of every parser\<close>

lemma madt_walk_short: "2 * length (madt_walk b) \<le> length b"
proof (induction b rule: madt_walk.induct)
  case (1 b)
  show ?case
  proof (cases "length b < 2 \<or> unat (b ! 1) < 2 \<or> length b < unat (b ! 1)")
    case True
    then show ?thesis by (auto simp: madt_walk.simps [of b] Let_def)
  next
    case False
    then have "2 \<le> unat (b ! 1)" "unat (b ! 1) \<le> length b" "\<not> length b < 2" by auto
    then show ?thesis using 1 [OF _ refl] by (simp add: madt_walk.simps [of b] Let_def)
  qed
qed

lemma dir_iter_done:
  assumes "dir_width d = 4 \<or> dir_width d = 8" "length (dir_entries d) < 2 ^ 63"
  shows "dir_iter d \<noteq> Panic"
proof -
  obtain n where n: "dir_len d = Done n" using dir_len_done [OF assms(1)] by (cases "dir_len d") auto
  have "filter_map_run (\<lambda>i. dir_entry d (word_of_nat i)) [0 ..< n] \<noteq> Panic"
    by (rule filter_map_run_done) (use dir_entry_done [OF assms n] in simp)
  then show ?thesis by (simp add: dir_iter_def n)
qed

text \<open>No input makes a parser panic or spin. On any bytes a slice can hold, the root pointer, directory,
  MADT, MCFG and HPET parsers all answer; every address of a directory they accept can be listed, every
  window of an MCFG too, and the walk over a MADT ends after at most half as many entries as its body
  has bytes.\<close>

theorem acpi_parsers_total:
  assumes "length b < 2 ^ 63" "w = 4 \<or> w = 8"
  shows "rsdp_parse b \<noteq> Panic \<and> sdt_parse b \<noteq> Panic \<and> hpet_parse b \<noteq> Panic
    \<and> (case directory_parse b w of Panic \<Rightarrow> False | Done None \<Rightarrow> True | Done (Some d) \<Rightarrow> dir_iter d \<noteq> Panic)
    \<and> (case mcfg_parse b of Panic \<Rightarrow> False | Done None \<Rightarrow> True | Done (Some body) \<Rightarrow> mcfg_windows body \<noteq> Panic)
    \<and> (case madt_parse b of Panic \<Rightarrow> False | Done None \<Rightarrow> True
       | Done (Some m) \<Rightarrow> \<exists>es. madt_entries (md_body m) 0 = Done es \<and> 2 * length es \<le> length (md_body m))"
proof -
  have s: "length (slice o1 n b) < 2 ^ 63" for o1 n using assms(1) by (simp add: slice_def)
  show ?thesis
  proof (intro conjI)
    show "rsdp_parse b \<noteq> Panic" by (rule rsdp_parse_done)
    show "sdt_parse b \<noteq> Panic" by (simp add: sdt_parse_closed)
    show "hpet_parse b \<noteq> Panic" by (rule hpet_done)
    show "case directory_parse b w of Panic \<Rightarrow> False | Done None \<Rightarrow> True | Done (Some d) \<Rightarrow> dir_iter d \<noteq> Panic"
      using dir_iter_done [of "\<lparr>dir_entries = slice 36 (sdt_len b - 36) b, dir_width = w\<rparr>"] assms(2) s
      by (simp add: directory_parse_closed)
    show "case mcfg_parse b of Panic \<Rightarrow> False | Done None \<Rightarrow> True | Done (Some body) \<Rightarrow> mcfg_windows body \<noteq> Panic"
      using mcfg_windows_done s by (simp add: mcfg_parse_closed)
    show "case madt_parse b of Panic \<Rightarrow> False | Done None \<Rightarrow> True
       | Done (Some m) \<Rightarrow> \<exists>es. madt_entries (md_body m) 0 = Done es \<and> 2 * length es \<le> length (md_body m)"
      using madt_entries_done [OF s] madt_walk_short by (simp add: madt_parse_closed)
  qed
qed

theorem acpi_parsers_total_witness: "rsdp_parse [1, 2, 3] \<noteq> Panic"
  using acpi_parsers_total [of "[1, 2, 3]" 4] by simp

text \<open>Out of bounds, \<open>entry\<close> does overflow: an index whose offset fits but whose end does not.\<close>

lemma entry_overflows: "dir_entry \<lparr>dir_entries = es, dir_width = 8\<rparr> 0x1FFFFFFFFFFFFFFF = Panic"
  by (simp add: dir_entry_def checked_mul_def u64_at_def usize_add_cases)

text \<open>So does the address of a function in a window that firmware put at the top of the address space.\<close>

lemma config_address_overflows:
  "config_address \<lparr>ew_base = 0xFFFFFFFFFFFFF000, ew_segment = 0, ew_bus_start = 0, ew_bus_end = 255\<rparr> 0 0 1 = Panic"
  by (simp add: config_address_def Let_def usize_add_cases word_le_nat_alt word_less_nat_alt)

end
