(* ===== verification/Device.thy ===== *)
theory Device imports Run begin

text \<open>
  Access to devices: the traits \<open>Mmio32\<close> and \<open>Mmio64\<close> of \<open>crates/arch-x86_64/src/mmio.rs\<close> and
  \<open>PortIo\<close> of \<open>port.rs\<close>. A driver is generic in its registers, so its operations take the
  trait's operations as an argument. The machine behind \<open>MappedRegisters\<close> and \<open>Ports\<close> is not under
  src/: its answer to a read is an argument, a function of everything done to it before, and its
  state is that history. The history therefore shows each access, in order.
\<close>

section \<open>The traits\<close>

record 'm mmio32 =
  read32 :: "u64 \<Rightarrow> 'm \<Rightarrow> (u32 \<times> 'm) run"
  write32 :: "u64 \<Rightarrow> u32 \<Rightarrow> 'm \<Rightarrow> 'm run"

record 'm mmio64 =
  read64 :: "u64 \<Rightarrow> 'm \<Rightarrow> (u64 \<times> 'm) run"
  write64 :: "u64 \<Rightarrow> u64 \<Rightarrow> 'm \<Rightarrow> 'm run"

record 'm port_io =
  port_read :: "u16 \<Rightarrow> 'm \<Rightarrow> (u8 \<times> 'm) run"
  port_write :: "u16 \<Rightarrow> u8 \<Rightarrow> 'm \<Rightarrow> 'm run"
  port_wait :: "'m \<Rightarrow> 'm run"

text \<open>The calls a driver makes.\<close>

definition reading :: "('m \<Rightarrow> ('a \<times> 'm) run) \<Rightarrow> ('m, 'a) act" where
  "reading f = (\<lambda>m. Some (f m))"

definition writing :: "('m \<Rightarrow> 'm run) \<Rightarrow> ('m, unit) act" where
  "writing f = (\<lambda>m. Some (bind_run (f m) (\<lambda>n. Done ((), n))))"

definition rd :: "'m mmio32 \<Rightarrow> u64 \<Rightarrow> ('m, u32) act" where
  "rd d offset = reading (read32 d offset)"

definition wr :: "'m mmio32 \<Rightarrow> u64 \<Rightarrow> u32 \<Rightarrow> ('m, unit) act" where
  "wr d offset v = writing (write32 d offset v)"

definition rd64 :: "'m mmio64 \<Rightarrow> u64 \<Rightarrow> ('m, u64) act" where
  "rd64 d offset = reading (read64 d offset)"

definition wr64 :: "'m mmio64 \<Rightarrow> u64 \<Rightarrow> u64 \<Rightarrow> ('m, unit) act" where
  "wr64 d offset v = writing (write64 d offset v)"

definition inb :: "'m port_io \<Rightarrow> u16 \<Rightarrow> ('m, u8) act" where
  "inb p port = reading (port_read p port)"

definition outb :: "'m port_io \<Rightarrow> u16 \<Rightarrow> u8 \<Rightarrow> ('m, unit) act" where
  "outb p port v = writing (port_write p port v)"

definition io_wait :: "'m port_io \<Rightarrow> ('m, unit) act" where
  "io_wait p = writing (port_wait p)"

section \<open>The machine\<close>

datatype event =
    Mmio_Read u64 u32
  | Mmio_Write u64 u32
  | Mmio_Read64 u64 u64
  | Mmio_Write64 u64 u64
  | Port_Read u16 u8
  | Port_Write u16 u8
  | Msr_Read u32 u64
  | Msr_Write u32 u64
  | Interrupts_On
  | Interrupts_Off
  | Invlpg u64
  | Cr3_Write u64
  | Cr4_Read u64
  | Cr4_Write u64
  | Pause
  | Load u64 u64
  | Store u64 u64
  | Copy u64 u64
  | Halt
  | Epilogue bool

type_synonym history = "event list"

record machine =
  answer32 :: "history \<Rightarrow> u64 \<Rightarrow> u32"
  answer64 :: "history \<Rightarrow> u64 \<Rightarrow> u64"
  answer_port :: "history \<Rightarrow> u16 \<Rightarrow> u8"
  answer_msr :: "history \<Rightarrow> u32 \<Rightarrow> u64"
  answer_cr4 :: "history \<Rightarrow> u64"

text \<open>\<open>MappedRegisters\<close>: a volatile access at the offset from the base, which a debug build checks
  to be aligned.\<close>

definition mapped32 :: "machine \<Rightarrow> u64 \<Rightarrow> history mmio32" where
  "mapped32 hw base = \<lparr>
     read32 = (\<lambda>offset h.
       if is_multiple_of offset 4
       then Done (let v = answer32 hw h (base + offset) in (v, h @ [Mmio_Read (base + offset) v]))
       else Panic),
     write32 = (\<lambda>offset v h.
       if is_multiple_of offset 4 then Done (h @ [Mmio_Write (base + offset) v]) else Panic)\<rparr>"

definition mapped64 :: "machine \<Rightarrow> u64 \<Rightarrow> history mmio64" where
  "mapped64 hw base = \<lparr>
     read64 = (\<lambda>offset h.
       if is_multiple_of offset 8
       then Done (let v = answer64 hw h (base + offset) in (v, h @ [Mmio_Read64 (base + offset) v]))
       else Panic),
     write64 = (\<lambda>offset v h.
       if is_multiple_of offset 8 then Done (h @ [Mmio_Write64 (base + offset) v]) else Panic)\<rparr>"

text \<open>\<open>Ports\<close>: \<open>in\<close>, \<open>out\<close>, and \<open>io_wait\<close>'s write to the diagnostic port.\<close>

definition ports :: "machine \<Rightarrow> history port_io" where
  "ports hw = \<lparr>
     port_read = (\<lambda>port h. Done (let v = answer_port hw h port in (v, h @ [Port_Read port v]))),
     port_write = (\<lambda>port v h. Done (h @ [Port_Write port v])),
     port_wait = (\<lambda>h. Done (h @ [Port_Write 0x80 0]))\<rparr>"

text \<open>The processor's own registers.\<close>

definition invlpg :: "u64 \<Rightarrow> (history, unit) act" where
  "invlpg v = (\<lambda>h. Some (Done ((), h @ [Invlpg v])))"

definition write_cr3 :: "u64 \<Rightarrow> (history, unit) act" where
  "write_cr3 root = (\<lambda>h. Some (Done ((), h @ [Cr3_Write root])))"

definition read_cr4 :: "machine \<Rightarrow> (history, u64) act" where
  "read_cr4 hw = (\<lambda>h. Some (Done (answer_cr4 hw h, h @ [Cr4_Read (answer_cr4 hw h)])))"

definition write_cr4 :: "u64 \<Rightarrow> (history, unit) act" where
  "write_cr4 v = (\<lambda>h. Some (Done ((), h @ [Cr4_Write v])))"

definition read_msr :: "machine \<Rightarrow> u32 \<Rightarrow> (history, u64) act" where
  "read_msr hw r = (\<lambda>h. Some (Done (answer_msr hw h r, h @ [Msr_Read r (answer_msr hw h r)])))"

definition write_msr :: "u32 \<Rightarrow> u64 \<Rightarrow> (history, unit) act" where
  "write_msr r v = (\<lambda>h. Some (Done ((), h @ [Msr_Write r v])))"

definition enable_interrupts :: "(history, unit) act" where
  "enable_interrupts = (\<lambda>h. Some (Done ((), h @ [Interrupts_On])))"

definition disable_interrupts :: "(history, unit) act" where
  "disable_interrupts = (\<lambda>h. Some (Done ((), h @ [Interrupts_Off])))"

definition spin_loop :: "(history, unit) act" where
  "spin_loop = (\<lambda>h. Some (Done ((), h @ [Pause])))"

text \<open>Volatile accesses of memory that something else reads or writes: another core, or a task.\<close>

definition read_volatile :: "machine \<Rightarrow> u64 \<Rightarrow> (history, u64) act" where
  "read_volatile hw a = (\<lambda>h. Some (Done (answer64 hw h a, h @ [Load a (answer64 hw h a)])))"

definition write_volatile :: "u64 \<Rightarrow> u64 \<Rightarrow> (history, unit) act" where
  "write_volatile a v = (\<lambda>h. Some (Done ((), h @ [Store a v])))"

end
