(* ===== verification/Apic.thy ===== *)
theory Apic imports Device begin

text \<open>
  The interrupt controllers of \<open>crates/arch-x86_64/src/apic.rs\<close>: the local APIC, which receives
  and sends messages to other cores, and the I/O APIC, which routes each interrupt line to a vector
  on a core. Every operation takes the registers it drives, \<open>d\<close>; the I/O APIC's also take its first
  line, \<open>gsi_base\<close>.
\<close>

section \<open>The local APIC's registers\<close>

definition LAPIC_ID :: u64 where "LAPIC_ID = 0x020"
definition LAPIC_VERSION :: u64 where "LAPIC_VERSION = 0x030"
definition TASK_PRIORITY :: u64 where "TASK_PRIORITY = 0x080"
definition LAPIC_EOI :: u64 where "LAPIC_EOI = 0x0B0"
definition LAPIC_SPURIOUS :: u64 where "LAPIC_SPURIOUS = 0x0F0"
definition ICR_LOW :: u64 where "ICR_LOW = 0x300"
definition ICR_HIGH :: u64 where "ICR_HIGH = 0x310"
definition LVT_TIMER :: u64 where "LVT_TIMER = 0x320"
definition LVT_LINT0 :: u64 where "LVT_LINT0 = 0x350"
definition LVT_LINT1 :: u64 where "LVT_LINT1 = 0x360"
definition LVT_ERROR :: u64 where "LVT_ERROR = 0x370"
definition TIMER_INITIAL_COUNT :: u64 where "TIMER_INITIAL_COUNT = 0x380"
definition TIMER_CURRENT_COUNT :: u64 where "TIMER_CURRENT_COUNT = 0x390"
definition TIMER_DIVIDE :: u64 where "TIMER_DIVIDE = 0x3E0"

named_theorems lapic_regs \<open>the offsets of the local APIC's registers\<close>

declare LAPIC_ID_def [lapic_regs] LAPIC_VERSION_def [lapic_regs] TASK_PRIORITY_def [lapic_regs]
  LAPIC_EOI_def [lapic_regs] LAPIC_SPURIOUS_def [lapic_regs] ICR_LOW_def [lapic_regs]
  ICR_HIGH_def [lapic_regs] LVT_TIMER_def [lapic_regs] LVT_LINT0_def [lapic_regs]
  LVT_LINT1_def [lapic_regs] LVT_ERROR_def [lapic_regs] TIMER_INITIAL_COUNT_def [lapic_regs]
  TIMER_CURRENT_COUNT_def [lapic_regs] TIMER_DIVIDE_def [lapic_regs]

definition TIMER_ONE_SHOT :: u32 where "TIMER_ONE_SHOT = push_bit 17 0"
definition TIMER_PERIODIC :: u32 where "TIMER_PERIODIC = push_bit 17 1"
definition SPURIOUS_ENABLE :: u32 where "SPURIOUS_ENABLE = push_bit 8 1"
definition LVT_MASKED :: u32 where "LVT_MASKED = push_bit 16 1"

definition ICR_DELIVERY_PENDING :: u32 where "ICR_DELIVERY_PENDING = push_bit 12 1"
definition ICR_INIT :: u32 where "ICR_INIT = push_bit 8 5"
definition ICR_STARTUP :: u32 where "ICR_STARTUP = push_bit 8 6"
definition ICR_LEVEL_ASSERT :: u32 where "ICR_LEVEL_ASSERT = push_bit 14 1"
definition ICR_LEVEL_TRIGGER :: u32 where "ICR_LEVEL_TRIGGER = push_bit 15 1"

definition IA32_APIC_BASE :: u32 where "IA32_APIC_BASE = 0x1B"
definition APIC_BASE_ENABLE :: u64 where "APIC_BASE_ENABLE = push_bit 11 1"

definition timer_divide_bits :: "u32 \<Rightarrow> u32 option" where
  "timer_divide_bits divisor =
     (if divisor = 1 then Some 11
      else if divisor = 2 then Some 0
      else if divisor = 4 then Some 1
      else if divisor = 8 then Some 2
      else if divisor = 16 then Some 3
      else if divisor = 32 then Some 8
      else if divisor = 64 then Some 9
      else if divisor = 128 then Some 10
      else None)"

section \<open>The local APIC\<close>

definition lapic_id :: "'m mmio32 \<Rightarrow> ('m, u8) act" where
  "lapic_id d = bind_act (rd d LAPIC_ID) (\<lambda>v. ret (ucast (drop_bit 24 v)))"

definition lapic_version :: "'m mmio32 \<Rightarrow> ('m, u8) act" where
  "lapic_version d = bind_act (rd d LAPIC_VERSION) (\<lambda>v. ret (ucast v))"

definition lvt_entries :: "'m mmio32 \<Rightarrow> ('m, u8) act" where
  "lvt_entries d =
     bind_act (rd d LAPIC_VERSION) (\<lambda>v. ret (saturating_add (ucast (drop_bit 16 v)) 1))"

definition lapic_enable :: "'m mmio32 \<Rightarrow> u8 \<Rightarrow> ('m, unit) act" where
  "lapic_enable d spurious_vector =
     seq_act (wr d TASK_PRIORITY 0)
     (seq_act (each_act (map (\<lambda>lvt. wr d lvt LVT_MASKED) [LVT_TIMER, LVT_LINT0, LVT_LINT1]))
     (seq_act (wr d LVT_ERROR (LVT_MASKED OR ucast spurious_vector))
     (wr d LAPIC_SPURIOUS (SPURIOUS_ENABLE OR ucast spurious_vector))))"

definition lapic_is_enabled :: "'m mmio32 \<Rightarrow> ('m, bool) act" where
  "lapic_is_enabled d =
     bind_act (rd d LAPIC_SPURIOUS) (\<lambda>v. ret (v AND SPURIOUS_ENABLE \<noteq> 0))"

definition lapic_spurious_vector :: "'m mmio32 \<Rightarrow> ('m, u8) act" where
  "lapic_spurious_vector d = bind_act (rd d LAPIC_SPURIOUS) (\<lambda>v. ret (ucast v))"

definition lapic_eoi :: "'m mmio32 \<Rightarrow> ('m, unit) act" where
  "lapic_eoi d = wr d LAPIC_EOI 0"

definition set_timer_divisor :: "'m mmio32 \<Rightarrow> u32 \<Rightarrow> ('m, bool) act" where
  "set_timer_divisor d divisor =
     (case timer_divide_bits divisor of
        None \<Rightarrow> ret False
      | Some bits \<Rightarrow> seq_act (wr d TIMER_DIVIDE bits) (ret True))"

definition start_timer_masked :: "'m mmio32 \<Rightarrow> u32 \<Rightarrow> ('m, unit) act" where
  "start_timer_masked d reload =
     seq_act (wr d LVT_TIMER (LVT_MASKED OR TIMER_ONE_SHOT)) (wr d TIMER_INITIAL_COUNT reload)"

definition start_timer_periodic :: "'m mmio32 \<Rightarrow> u8 \<Rightarrow> u32 \<Rightarrow> ('m, unit) act" where
  "start_timer_periodic d vector reload =
     seq_act (wr d LVT_TIMER (TIMER_PERIODIC OR ucast vector)) (wr d TIMER_INITIAL_COUNT reload)"

definition stop_timer :: "'m mmio32 \<Rightarrow> ('m, unit) act" where
  "stop_timer d = seq_act (wr d TIMER_INITIAL_COUNT 0) (wr d LVT_TIMER LVT_MASKED)"

definition timer_count :: "'m mmio32 \<Rightarrow> ('m, u32) act" where
  "timer_count d = rd d TIMER_CURRENT_COUNT"

text \<open>The caller's clock, \<open>expired\<close>, is a step of its own: it may read a device. The loop has no
  bound besides it.\<close>

partial_function (option) wait_idle ::
  "'m mmio32 \<Rightarrow> ('m, bool) act \<Rightarrow> ('m, unit option) act" where
  "wait_idle d expired m =
     (case rd d ICR_LOW m of
        None \<Rightarrow> None
      | Some Panic \<Rightarrow> Some Panic
      | Some (Done (v, n)) \<Rightarrow>
          if v AND ICR_DELIVERY_PENDING = 0 then Some (Done (Some (), n))
          else (case expired n of
             None \<Rightarrow> None
           | Some Panic \<Rightarrow> Some Panic
           | Some (Done (e, k)) \<Rightarrow>
               if e then Some (Done (None, k)) else wait_idle d expired k))"

text \<open>\<open>x?\<close> in a step that returns an option.\<close>

definition try_act :: "('m, 'a option) act \<Rightarrow> ('a \<Rightarrow> ('m, 'b option) act) \<Rightarrow> ('m, 'b option) act" where
  "try_act f g = bind_act f (\<lambda>r. case r of None \<Rightarrow> ret None | Some a \<Rightarrow> g a)"

definition send_ipi :: "'m mmio32 \<Rightarrow> u8 \<Rightarrow> u32 \<Rightarrow> ('m, bool) act \<Rightarrow> ('m, unit option) act" where
  "send_ipi d dest low expired =
     try_act (wait_idle d expired) (\<lambda>u.
     seq_act (wr d ICR_HIGH (push_bit 24 (ucast dest)))
     (seq_act (wr d ICR_LOW low)
     (wait_idle d expired)))"

definition send_init :: "'m mmio32 \<Rightarrow> u8 \<Rightarrow> ('m, bool) act \<Rightarrow> ('m, unit option) act" where
  "send_init d dest expired = send_ipi d dest (ICR_INIT OR ICR_LEVEL_ASSERT) expired"

definition send_init_deassert :: "'m mmio32 \<Rightarrow> u8 \<Rightarrow> ('m, bool) act \<Rightarrow> ('m, unit option) act" where
  "send_init_deassert d dest expired = send_ipi d dest (ICR_INIT OR ICR_LEVEL_TRIGGER) expired"

definition send_startup :: "'m mmio32 \<Rightarrow> u8 \<Rightarrow> u8 \<Rightarrow> ('m, bool) act \<Rightarrow> ('m, unit option) act" where
  "send_startup d dest page expired =
     send_ipi d dest (ICR_STARTUP OR ICR_LEVEL_ASSERT OR ucast page) expired"

section \<open>The I/O APIC\<close>

definition IOAPIC_SELECT :: u64 where "IOAPIC_SELECT = 0x00"
definition IOAPIC_WINDOW :: u64 where "IOAPIC_WINDOW = 0x10"
definition IOAPIC_REG_ID :: u32 where "IOAPIC_REG_ID = 0x00"
definition IOAPIC_REG_VERSION :: u32 where "IOAPIC_REG_VERSION = 0x01"
definition IOAPIC_REG_REDIRECT :: u32 where "IOAPIC_REG_REDIRECT = 0x10"

record redirection =
  rd_vector :: u8
  rd_destination :: u8
  rd_active_low :: bool
  rd_level_triggered :: bool
  rd_masked :: bool

definition redirection_masked :: redirection where
  "redirection_masked = \<lparr>rd_vector = 0, rd_destination = 0, rd_active_low = False,
     rd_level_triggered = False, rd_masked = True\<rparr>"

definition low_bits :: "redirection \<Rightarrow> u32" where
  "low_bits r =
     (let bits = ucast (rd_vector r);
          bits = (if rd_active_low r then bits OR push_bit 13 1 else bits);
          bits = (if rd_level_triggered r then bits OR push_bit 15 1 else bits)
      in if rd_masked r then bits OR push_bit 16 1 else bits)"

definition high_bits :: "redirection \<Rightarrow> u32" where
  "high_bits r = push_bit 24 (ucast (rd_destination r))"

definition redirection_from_bits :: "u32 \<Rightarrow> u32 \<Rightarrow> redirection" where
  "redirection_from_bits low high = \<lparr>
     rd_vector = ucast low,
     rd_destination = ucast (drop_bit 24 high),
     rd_active_low = (low AND push_bit 13 1 \<noteq> 0),
     rd_level_triggered = (low AND push_bit 15 1 \<noteq> 0),
     rd_masked = (low AND push_bit 16 1 \<noteq> 0)\<rparr>"

definition polarity_and_trigger :: "u16 \<Rightarrow> bool \<times> bool" where
  "polarity_and_trigger flags = (flags AND 3 = 3, drop_bit 2 flags AND 3 = 3)"

definition read_reg :: "'m mmio32 \<Rightarrow> u32 \<Rightarrow> ('m, u32) act" where
  "read_reg d index = seq_act (wr d IOAPIC_SELECT index) (rd d IOAPIC_WINDOW)"

definition write_reg :: "'m mmio32 \<Rightarrow> u32 \<Rightarrow> u32 \<Rightarrow> ('m, unit) act" where
  "write_reg d index v = seq_act (wr d IOAPIC_SELECT index) (wr d IOAPIC_WINDOW v)"

definition ioapic_id :: "'m mmio32 \<Rightarrow> ('m, u8) act" where
  "ioapic_id d = bind_act (read_reg d IOAPIC_REG_ID) (\<lambda>v. ret (ucast (drop_bit 24 v AND 0xF)))"

definition ioapic_version :: "'m mmio32 \<Rightarrow> ('m, u8) act" where
  "ioapic_version d = bind_act (read_reg d IOAPIC_REG_VERSION) (\<lambda>v. ret (ucast v))"

definition entry_count :: "'m mmio32 \<Rightarrow> ('m, u32) act" where
  "entry_count d =
     bind_act (read_reg d IOAPIC_REG_VERSION) (\<lambda>v. ret ((drop_bit 16 v AND 0xFF) + 1))"

definition covers :: "'m mmio32 \<Rightarrow> u32 \<Rightarrow> u32 \<Rightarrow> ('m, bool) act" where
  "covers d gsi_base gsi =
     bind_act (entry_count d) (\<lambda>count.
     if gsi_base \<le> gsi
     then bind_act (of_run (add_run gsi_base count)) (\<lambda>e. ret (gsi < e))
     else ret False)"

definition entry_regs :: "u32 \<Rightarrow> u32 \<Rightarrow> (u32 \<times> u32) run" where
  "entry_regs gsi_base gsi =
     bind_run (sub_run gsi gsi_base) (\<lambda>index.
     bind_run (mul_run index 2) (\<lambda>twice.
     bind_run (add_run IOAPIC_REG_REDIRECT twice) (\<lambda>low.
     bind_run (add_run low 1) (\<lambda>high.
     Done (low, high)))))"

definition set_redirection :: "'m mmio32 \<Rightarrow> u32 \<Rightarrow> u32 \<Rightarrow> redirection \<Rightarrow> ('m, unit) act" where
  "set_redirection d gsi_base gsi entry =
     bind_act (covers d gsi_base gsi) (\<lambda>c.
     seq_act (assert_act c)
     (bind_act (of_run (entry_regs gsi_base gsi)) (\<lambda>(low, high).
      seq_act (write_reg d high (high_bits entry)) (write_reg d low (low_bits entry)))))"

definition redirection_of :: "'m mmio32 \<Rightarrow> u32 \<Rightarrow> u32 \<Rightarrow> ('m, redirection) act" where
  "redirection_of d gsi_base gsi =
     bind_act (covers d gsi_base gsi) (\<lambda>c.
     seq_act (assert_act c)
     (bind_act (of_run (entry_regs gsi_base gsi)) (\<lambda>(low, high).
      bind_act (read_reg d low) (\<lambda>l.
      bind_act (read_reg d high) (\<lambda>h.
      ret (redirection_from_bits l h))))))"

definition set_masked :: "'m mmio32 \<Rightarrow> u32 \<Rightarrow> u32 \<Rightarrow> bool \<Rightarrow> ('m, unit) act" where
  "set_masked d gsi_base gsi b =
     bind_act (redirection_of d gsi_base gsi) (\<lambda>entry.
     bind_act (of_run (entry_regs gsi_base gsi)) (\<lambda>(low, high).
     write_reg d low (low_bits (entry\<lparr>rd_masked := b\<rparr>))))"

definition mask_entry :: "'m mmio32 \<Rightarrow> u32 \<Rightarrow> u32 \<Rightarrow> ('m, unit) act" where
  "mask_entry d gsi_base index =
     bind_act (of_run (add_run gsi_base index)) (\<lambda>gsi.
     bind_act (of_run (entry_regs gsi_base gsi)) (\<lambda>(low, high).
     seq_act (write_reg d high 0) (write_reg d low (low_bits redirection_masked))))"

definition ioapic_mask_all :: "'m mmio32 \<Rightarrow> u32 \<Rightarrow> ('m, unit) act" where
  "ioapic_mask_all d gsi_base =
     bind_act (entry_count d) (\<lambda>count.
     each_act (map (\<lambda>i. mask_entry d gsi_base (word_of_nat i)) [0..<unat count]))"

section \<open>The models of a register window\<close>

text \<open>\<open>Recorder\<close>: plain registers, which keep every write.\<close>

record recorder =
  rec_writes :: "(u64 \<times> u32) list"
  rec_state :: "u64 \<rightharpoonup> u32"

definition recorder_regs :: "recorder mmio32" where
  "recorder_regs = \<lparr>
     read32 = (\<lambda>offset m. Done (case rec_state m offset of None \<Rightarrow> 0 | Some v \<Rightarrow> v, m)),
     write32 = (\<lambda>offset v m. Done (m\<lparr>rec_writes := rec_writes m @ [(offset, v)],
       rec_state := (rec_state m)(offset \<mapsto> v)\<rparr>))\<rparr>"

text \<open>\<open>IndirectRecorder\<close>: a register file behind a select register and a window.\<close>

record indirect =
  ind_selected :: u32
  ind_regs :: "u32 \<rightharpoonup> u32"
  ind_log :: "(u32 \<times> u32 \<times> bool) list"

definition ind_get :: "indirect \<Rightarrow> u32 \<Rightarrow> u32" where
  "ind_get m i = (case ind_regs m i of None \<Rightarrow> 0 | Some v \<Rightarrow> v)"

definition indirect_regs :: "indirect mmio32" where
  "indirect_regs = \<lparr>
     read32 = (\<lambda>offset m.
       if offset = IOAPIC_WINDOW
       then let v = ind_get m (ind_selected m)
            in Done (v, m\<lparr>ind_log := ind_log m @ [(ind_selected m, v, False)]\<rparr>)
       else Panic),
     write32 = (\<lambda>offset v m.
       if offset = IOAPIC_SELECT then Done (m\<lparr>ind_selected := v\<rparr>)
       else if offset = IOAPIC_WINDOW
       then Done (m\<lparr>ind_regs := (ind_regs m)(ind_selected m \<mapsto> v),
                    ind_log := ind_log m @ [(ind_selected m, v, True)]\<rparr>)
       else Panic)\<rparr>"

definition io_apic :: "u32 \<Rightarrow> indirect run" where
  "io_apic entries =
     bind_run (sub_run entries 1) (\<lambda>last.
     Done \<lparr>ind_selected = 0,
           ind_regs = [IOAPIC_REG_VERSION \<mapsto> push_bit 16 last OR 0x11], ind_log = []\<rparr>)"

end
