(* ===== verification/ApicProps.thy ===== *)
theory ApicProps imports Apic begin

text \<open>
  What the interrupt controllers do to their registers. Two interfaces carry the proofs: registers
  that perform every aligned access once and in order (\<open>written_registers\<close>), which is all the local
  APIC's driver needs, and a file of registers behind a select register (\<open>register_file\<close>), which is
  what the I/O APIC's driver needs of the chip. The first holds of \<open>MappedRegisters\<close> over any
  machine and of the tests' \<open>Recorder\<close>, the second of the tests' \<open>IndirectRecorder\<close>.
\<close>

section \<open>Redirection entries\<close>

lemmas redirection_defs = low_bits_def high_bits_def redirection_from_bits_def redirection_masked_def

text \<open>The bits of an entry that are not the chip's own: it reports delivery status and remote
  IRR in bits 12 and 14 of the low half, and the rest is reserved.\<close>

definition entry_mask :: u32 where
  "entry_mask =
     (((mask 8 OR push_bit 24 (mask 8)) OR push_bit 13 1) OR push_bit 15 1) OR push_bit 16 1"

definition entry_bits :: "u32 \<Rightarrow> u32 \<Rightarrow> u32" where
  "entry_bits j v = (if IOAPIC_REG_REDIRECT \<le> j then v AND entry_mask else v)"

lemma and_bit_iff: "(v AND push_bit k 1 \<noteq> 0) = bit v k" for v :: u32
  by (simp only: push_bit_of_1 and_exp_eq_0_iff_not_bit not_not)

lemma bit_or_flag: "k < 32 \<Longrightarrow> bit (v OR push_bit k 1) n \<longleftrightarrow> bit v n \<or> n = k" for v :: u32
  by (simp only: bit_or_iff push_bit_of_1 bit_exp_iff) (auto dest: bit_imp_le_length)

lemma redirection_from_bits_alt: "redirection_from_bits low high = \<lparr>rd_vector = ucast low,
     rd_destination = ucast (drop_bit 24 high), rd_active_low = bit low 13,
     rd_level_triggered = bit low 15, rd_masked = bit low 16\<rparr>"
  unfolding redirection_from_bits_def and_bit_iff by (rule refl)

lemma bit_flags: "bit (v OR push_bit 13 1) n \<longleftrightarrow> bit v n \<or> n = 13"
  "bit (v OR push_bit 15 1) n \<longleftrightarrow> bit v n \<or> n = 15"
  "bit (v OR push_bit 16 1) n \<longleftrightarrow> bit v n \<or> n = 16" for v :: u32
  by (rule bit_or_flag, simp)+

lemma bit_low_bits: "bit (low_bits r) n \<longleftrightarrow> n < 8 \<and> bit (rd_vector r) n \<or>
    n = 13 \<and> rd_active_low r \<or> n = 15 \<and> rd_level_triggered r \<or> n = 16 \<and> rd_masked r"
proof -
  have v: "bit (ucast (rd_vector r) :: u32) n \<longleftrightarrow> n < 8 \<and> bit (rd_vector r) n"
    by (auto simp: bit_simps dest: bit_imp_le_length)
  have "bit (low_bits r) n \<longleftrightarrow> bit (ucast (rd_vector r) :: u32) n \<or>
      n = 13 \<and> rd_active_low r \<or> n = 15 \<and> rd_level_triggered r \<or> n = 16 \<and> rd_masked r"
    unfolding low_bits_def Let_def if_distrib [of "\<lambda>v. bit v n"] bit_flags by auto
  then show ?thesis unfolding v .
qed

lemma bit_high_bits: "bit (high_bits r) n \<longleftrightarrow> 24 \<le> n \<and> n < 32 \<and> bit (rd_destination r) (n - 24)"
  by (auto simp: high_bits_def bit_simps dest: bit_imp_le_length)

lemma entry_mask_bits: "bit entry_mask n \<longleftrightarrow>
    n < 8 \<or> n = 13 \<or> n = 15 \<or> n = 16 \<or> 24 \<le> n \<and> n < 32"
proof -
  have "bit entry_mask n \<longleftrightarrow> bit (mask 8 OR push_bit 24 (mask 8) :: u32) n \<or>
      n = 13 \<or> n = 15 \<or> n = 16"
    unfolding entry_mask_def bit_flags by (simp only: disj_assoc)
  then show ?thesis by (auto simp: bit_or_iff bit_push_bit_iff bit_mask_iff)
qed

lemma u8_eqI: "(\<And>n. n < 8 \<Longrightarrow> bit a n = bit b n) \<Longrightarrow> a = b" for a b :: u8
  by (rule bit_word_eqI) simp

lemma entry_bits_vector:
  "ucast (low AND entry_mask) = (ucast low :: u8)"
  by (rule u8_eqI) (simp add: bit_simps entry_mask_bits)

lemma entry_bits_destination:
  "ucast (drop_bit 24 (high AND entry_mask)) = (ucast (drop_bit 24 high) :: u8)"
proof (rule u8_eqI)
  fix n :: nat
  assume "n < 8"
  moreover have "bit (ucast (drop_bit 24 v) :: u8) n \<longleftrightarrow> n < 8 \<and> bit v (24 + n)" for v :: u32
    by (auto simp: bit_ucast_iff bit_drop_bit_eq dest: bit_imp_le_length)
  ultimately show "bit (ucast (drop_bit 24 (high AND entry_mask)) :: u8) n =
      bit (ucast (drop_bit 24 high) :: u8) n"
    by (simp only: bit_and_iff entry_mask_bits) auto
qed

lemma redirection_from_bits_entry_bits:
  "redirection_from_bits (low AND entry_mask) (high AND entry_mask) = redirection_from_bits low high"
  unfolding redirection_from_bits_alt entry_bits_vector entry_bits_destination
  by (simp add: bit_and_iff entry_mask_bits)

lemma low_bits_vector: "ucast (low_bits r) = rd_vector r"
  by (rule u8_eqI) (simp add: bit_simps bit_low_bits)

lemma high_bits_destination: "ucast (drop_bit 24 (high_bits r)) = rd_destination r"
  by (rule u8_eqI) (simp add: bit_simps bit_high_bits)

lemma redirection_from_bits_round: "redirection_from_bits (low_bits r) (high_bits q) = r\<lparr>rd_destination := rd_destination q\<rparr>"
  by (simp add: redirection_from_bits_alt low_bits_vector high_bits_destination bit_low_bits)

lemma redirection_from_bits_low: "redirection_from_bits (low_bits r) high =
    r\<lparr>rd_destination := rd_destination (redirection_from_bits 0 high)\<rparr>"
  by (simp add: redirection_from_bits_alt low_bits_vector bit_low_bits)

lemma redirection_from_bits_high: "redirection_from_bits low (high_bits r) = (redirection_from_bits low 0)\<lparr>rd_destination := rd_destination r\<rparr>"
  by (simp add: redirection_from_bits_alt high_bits_destination)

text \<open>An entry has one encoding: the decoder is a left inverse, so two entries never share one.\<close>

lemma low_high_inj: "low_bits r = low_bits q \<Longrightarrow> high_bits r = high_bits q \<Longrightarrow> r = q"
proof -
  have round: "redirection_from_bits (low_bits p) (high_bits p) = p" for p
    by (simp add: redirection_from_bits_round)
  assume "low_bits r = low_bits q" "high_bits r = high_bits q"
  then show "r = q" using round by metis
qed

lemma version_not_entry: "\<not> IOAPIC_REG_REDIRECT \<le> IOAPIC_REG_VERSION"
  by (simp add: IOAPIC_REG_REDIRECT_def IOAPIC_REG_VERSION_def word_le_nat_alt)

section \<open>The I/O APIC\<close>

text \<open>The pair of registers of the \<open>k\<close>-th entry.\<close>

definition low_reg :: "nat \<Rightarrow> u32" where "low_reg k = word_of_nat (16 + 2 * k)"
definition high_reg :: "nat \<Rightarrow> u32" where "high_reg k = word_of_nat (17 + 2 * k)"

lemma unat_regs [simp]: "k < 256 \<Longrightarrow> unat (low_reg k) = 16 + 2 * k"
  "k < 256 \<Longrightarrow> unat (high_reg k) = 17 + 2 * k"
  unfolding low_reg_def high_reg_def by (rule unat_word_of_nat_small, simp)+

lemma regs_distinct [simp]:
  "j < 256 \<Longrightarrow> k < 256 \<Longrightarrow> low_reg j = low_reg k \<longleftrightarrow> j = k"
  "j < 256 \<Longrightarrow> k < 256 \<Longrightarrow> high_reg j = high_reg k \<longleftrightarrow> j = k"
  "j < 256 \<Longrightarrow> k < 256 \<Longrightarrow> low_reg j \<noteq> high_reg k"
  "j < 256 \<Longrightarrow> k < 256 \<Longrightarrow> high_reg k \<noteq> low_reg j"
proof -
  assume j: "j < 256" and k: "k < 256"
  show "low_reg j = low_reg k \<longleftrightarrow> j = k" using unat_regs(1) [OF j] unat_regs(1) [OF k] by (metis add_left_cancel mult_cancel1 zero_neq_numeral)
  show "high_reg j = high_reg k \<longleftrightarrow> j = k" using unat_regs(2) [OF j] unat_regs(2) [OF k] by (metis add_left_cancel mult_cancel1 zero_neq_numeral)
  show "low_reg j \<noteq> high_reg k"
  proof
    assume "low_reg j = high_reg k"
    then have "16 + 2 * j = 17 + 2 * k" using unat_regs(1) [OF j] unat_regs(2) [OF k] by simp
    then show False by presburger
  qed
  then show "high_reg k \<noteq> low_reg j" by simp
qed

lemma unat_redirect: "unat IOAPIC_REG_REDIRECT = 16" "unat IOAPIC_REG_VERSION = 1"
  by (simp_all add: IOAPIC_REG_REDIRECT_def IOAPIC_REG_VERSION_def)

lemma regs_entries [simp]: "k < 256 \<Longrightarrow> IOAPIC_REG_REDIRECT \<le> low_reg k"
  "k < 256 \<Longrightarrow> IOAPIC_REG_REDIRECT \<le> high_reg k"
  "k < 256 \<Longrightarrow> low_reg k \<noteq> IOAPIC_REG_VERSION" "k < 256 \<Longrightarrow> high_reg k \<noteq> IOAPIC_REG_VERSION"
proof -
  assume k: "k < 256"
  show "IOAPIC_REG_REDIRECT \<le> low_reg k" "IOAPIC_REG_REDIRECT \<le> high_reg k"
    using k by (simp_all add: word_le_nat_alt unat_redirect)
  show "low_reg k \<noteq> IOAPIC_REG_VERSION" "high_reg k \<noteq> IOAPIC_REG_VERSION"
    using unat_regs(1) [OF k] unat_regs(2) [OF k] unat_redirect(2) by auto
qed

lemma entry_regs_at:
  assumes "unat base \<le> unat gsi" "unat gsi < unat base + 256"
  shows "entry_regs base gsi = Done (low_reg (unat gsi - unat base), high_reg (unat gsi - unat base))"
proof -
  let ?k = "unat gsi - unat base"
  have k: "?k < 256" using assms by linarith
  have i: "unat (gsi - base) = ?k" using assms by (simp add: unat_sub word_le_nat_alt)
  have two: "unat ((gsi - base) * 2) = 2 * ?k"
    using k i by (subst unat_mul_exact) (simp_all add: mult.commute)
  have lo: "unat (IOAPIC_REG_REDIRECT + (gsi - base) * 2) = 16 + 2 * ?k"
    using k two by (subst unat_add_exact) (simp_all add: unat_redirect)
  then have low: "IOAPIC_REG_REDIRECT + (gsi - base) * 2 = low_reg ?k"
    using unat_regs(1) [OF k] by (simp add: word_unat_eq_iff)
  have "unat (low_reg ?k + 1) = 17 + 2 * ?k"
    using k by (subst unat_add_exact) simp_all
  then have high: "low_reg ?k + 1 = high_reg ?k"
    using unat_regs(2) [OF k] by (simp add: word_unat_eq_iff)
  have "sub_run gsi base = Done (gsi - base)" using assms by (simp add: sub_run_def word_le_nat_alt)
  moreover have "mul_run (gsi - base) 2 = Done ((gsi - base) * 2)"
    using k i by (simp add: mul_run_def checked_mul_def)
  moreover have "add_run IOAPIC_REG_REDIRECT ((gsi - base) * 2) = Done (low_reg ?k)"
    using k two low by (simp add: add_run_Done unat_redirect)
  moreover have "add_run (low_reg ?k) 1 = Done (high_reg ?k)"
    using k high by (simp add: add_run_Done)
  ultimately show ?thesis by (simp add: entry_regs_def)
qed

lemma redirection_from_bits_kept: "k < 256 \<Longrightarrow>
    redirection_from_bits (entry_bits (low_reg k) low) (entry_bits (high_reg k) high) = redirection_from_bits low high"
  by (simp add: entry_bits_def redirection_from_bits_entry_bits)

text \<open>What a register file says: how many entries there are, what each one routes, and which
  lines those are. The lines fit in the numbering, as they do unless the MADT's base is nonsense.\<close>

definition entries_of :: "(u32 \<Rightarrow> u32) \<Rightarrow> nat" where
  "entries_of r = unat ((drop_bit 16 (r IOAPIC_REG_VERSION) AND 0xFF) + 1)"

definition line_of :: "(u32 \<Rightarrow> u32) \<Rightarrow> nat \<Rightarrow> redirection" where
  "line_of r k = redirection_from_bits (r (low_reg k)) (r (high_reg k))"

definition covered_in :: "u32 \<Rightarrow> (u32 \<Rightarrow> u32) \<Rightarrow> u32 \<Rightarrow> bool" where
  "covered_in base r gsi \<longleftrightarrow> unat base \<le> unat gsi \<and> unat gsi < unat base + entries_of r \<and>
     unat base + entries_of r < 2 ^ 32"

locale register_file =
  fixes d :: "'m mmio32" and regs :: "'m \<Rightarrow> u32 \<Rightarrow> u32" and sel :: "'m \<Rightarrow> u32"
  assumes select: "\<exists>n. write32 d IOAPIC_SELECT i m = Done n \<and> sel n = i \<and> regs n = regs m"
    and window: "\<exists>v n. read32 d IOAPIC_WINDOW m = Done (v, n) \<and> sel n = sel m \<and> regs n = regs m \<and>
      entry_bits (sel m) v = regs m (sel m)"
    and store: "IOAPIC_REG_REDIRECT \<le> sel m \<Longrightarrow> \<exists>n. write32 d IOAPIC_WINDOW v m = Done n \<and>
      sel n = sel m \<and> regs n = (regs m)(sel m := entry_bits (sel m) v)"
begin

lemma read_reg_file: "\<exists>v n. read_reg d i m = Some (Done (v, n)) \<and> regs n = regs m \<and>
    entry_bits i v = regs m i"
proof -
  obtain n where n: "write32 d IOAPIC_SELECT i m = Done n" "sel n = i" "regs n = regs m"
    using select by blast
  obtain v k where k: "read32 d IOAPIC_WINDOW n = Done (v, k)" "regs k = regs n"
    "entry_bits (sel n) v = regs n (sel n)" using window by blast
  have "read_reg d i m = Some (Done (v, k))"
    using n k by (simp add: read_reg_def wr_def rd_def reading_def writing_def)
  with n k show ?thesis by auto
qed

lemma write_reg_file: "IOAPIC_REG_REDIRECT \<le> i \<Longrightarrow>
    \<exists>n. write_reg d i v m = Some (Done ((), n)) \<and> regs n = (regs m)(i := entry_bits i v)"
proof -
  assume i: "IOAPIC_REG_REDIRECT \<le> i"
  obtain n where n: "write32 d IOAPIC_SELECT i m = Done n" "sel n = i" "regs n = regs m"
    using select by blast
  obtain k where k: "write32 d IOAPIC_WINDOW v n = Done k"
    "regs k = (regs n)(sel n := entry_bits (sel n) v)" using store [of n v] n i by blast
  have "write_reg d i v m = Some (Done ((), k))"
    using n k by (simp add: write_reg_def wr_def rd_def reading_def writing_def)
  with n k show ?thesis by auto
qed

lemma entry_count_file: "\<exists>c n. entry_count d m = Some (Done (c, n)) \<and> regs n = regs m \<and>
    unat c = entries_of (regs m)"
proof -
  obtain v n where v: "read_reg d IOAPIC_REG_VERSION m = Some (Done (v, n))" "regs n = regs m"
    "entry_bits IOAPIC_REG_VERSION v = regs m IOAPIC_REG_VERSION" using read_reg_file by blast
  have "v = regs m IOAPIC_REG_VERSION"
    using v(3) by (simp add: entry_bits_def version_not_entry)
  with v show ?thesis by (simp add: entry_count_def entries_of_def)
qed

lemma entries_bound: "1 \<le> entries_of (regs m)" "entries_of (regs m) \<le> 256"
proof -
  have "unat (drop_bit 16 (regs m IOAPIC_REG_VERSION) AND 0xFF) \<le> 255"
    by (simp add: word_and_le1 flip: word_le_nat_alt [where b = "255 :: u32", simplified])
  then have "entries_of (regs m) = unat (drop_bit 16 (regs m IOAPIC_REG_VERSION) AND 0xFF) + 1"
    unfolding entries_of_def by (subst unat_add_exact) simp_all
  then show "1 \<le> entries_of (regs m)" "entries_of (regs m) \<le> 256"
    using \<open>unat (drop_bit 16 (regs m IOAPIC_REG_VERSION) AND 0xFF) \<le> 255\<close> by simp_all
qed

lemma entries_kept: "regs n IOAPIC_REG_VERSION = regs m IOAPIC_REG_VERSION \<Longrightarrow> entries_of (regs n) = entries_of (regs m)"
  by (simp add: entries_of_def)

lemma covers_file:
  assumes "unat base + entries_of (regs m) < 2 ^ 32"
  shows "\<exists>n. covers d base gsi m = Some (Done (covered_in base (regs m) gsi, n)) \<and> regs n = regs m"
proof -
  obtain c n where c: "entry_count d m = Some (Done (c, n))" "regs n = regs m" "unat c = entries_of (regs m)"
    using entry_count_file by blast
  have "add_run base c = Done (base + c)" using assms c(3) by (simp add: add_run_Done)
  moreover have "gsi < base + c \<longleftrightarrow> unat gsi < unat base + entries_of (regs m)"
    using assms c(3) by (simp add: word_less_nat_alt unat_add_exact)
  ultimately have "covers d base gsi m = Some (Done (covered_in base (regs m) gsi, n))"
    using c assms by (simp add: covers_def covered_in_def word_le_nat_alt)
  with c show ?thesis by blast
qed

lemma entry_regs_covered: "covered_in base (regs m) gsi \<Longrightarrow>
    entry_regs base gsi = Done (low_reg (unat gsi - unat base), high_reg (unat gsi - unat base))"
  "covered_in base (regs m) gsi \<Longrightarrow> unat gsi - unat base < 256"
  using entries_bound(2) [of m] entry_regs_at [of base gsi] by (auto simp: covered_in_def)

lemma set_redirection_file:
  assumes "covered_in base (regs m) gsi"
  defines "k \<equiv> unat gsi - unat base"
  shows "\<exists>n. set_redirection d base gsi e m = Some (Done ((), n)) \<and>
    regs n = (regs m)(high_reg k := entry_bits (high_reg k) (high_bits e),
      low_reg k := entry_bits (low_reg k) (low_bits e))"
proof -
  have k: "k < 256" using entry_regs_covered(2) [OF assms(1)] k_def by simp
  obtain m1 where m1: "covers d base gsi m = Some (Done (True, m1))" "regs m1 = regs m"
    using covers_file [of base m gsi] assms by (auto simp: covered_in_def)
  obtain m2 where m2: "write_reg d (high_reg k) (high_bits e) m1 = Some (Done ((), m2))"
    "regs m2 = (regs m1)(high_reg k := entry_bits (high_reg k) (high_bits e))"
    using write_reg_file k regs_entries(2) by blast
  obtain m3 where m3: "write_reg d (low_reg k) (low_bits e) m2 = Some (Done ((), m3))"
    "regs m3 = (regs m2)(low_reg k := entry_bits (low_reg k) (low_bits e))"
    using write_reg_file k regs_entries(1) by blast
  have "set_redirection d base gsi e m = Some (Done ((), m3))"
    using m1 m2 m3 entry_regs_covered(1) [OF assms(1)] by (simp add: set_redirection_def k_def)
  with m1 m2 m3 show ?thesis by auto
qed

lemma redirection_of_file:
  assumes "covered_in base (regs m) gsi"
  shows "\<exists>n. redirection_of d base gsi m = Some (Done (line_of (regs m) (unat gsi - unat base), n)) \<and>
    regs n = regs m"
proof -
  let ?k = "unat gsi - unat base"
  have k: "?k < 256" using entry_regs_covered(2) [OF assms(1)] .
  obtain m1 where m1: "covers d base gsi m = Some (Done (True, m1))" "regs m1 = regs m"
    using covers_file [of base m gsi] assms by (auto simp: covered_in_def)
  obtain l m2 where m2: "read_reg d (low_reg ?k) m1 = Some (Done (l, m2))" "regs m2 = regs m1"
    "entry_bits (low_reg ?k) l = regs m1 (low_reg ?k)" using read_reg_file by blast
  obtain h m3 where m3: "read_reg d (high_reg ?k) m2 = Some (Done (h, m3))" "regs m3 = regs m2"
    "entry_bits (high_reg ?k) h = regs m2 (high_reg ?k)" using read_reg_file by blast
  have "line_of (regs m) ?k = redirection_from_bits l h"
    unfolding line_of_def using m1(2) m2(2,3) m3(3) redirection_from_bits_kept [OF k, of l h] by simp
  then have "redirection_of d base gsi m = Some (Done (line_of (regs m) ?k, m3))"
    using m1 m2 m3 entry_regs_covered(1) [OF assms(1)] by (simp add: redirection_of_def)
  with m1 m2 m3 show ?thesis by auto
qed

lemma set_masked_file:
  assumes "covered_in base (regs m) gsi"
  defines "k \<equiv> unat gsi - unat base"
  shows "\<exists>n. set_masked d base gsi b m = Some (Done ((), n)) \<and>
    regs n = (regs m)(low_reg k := entry_bits (low_reg k) (low_bits ((line_of (regs m) k)\<lparr>rd_masked := b\<rparr>)))"
proof -
  have k: "k < 256" using entry_regs_covered(2) [OF assms(1)] k_def by simp
  obtain m1 where m1: "redirection_of d base gsi m = Some (Done (line_of (regs m) k, m1))" "regs m1 = regs m"
    using redirection_of_file [OF assms(1)] k_def by auto
  obtain m2 where m2: "write_reg d (low_reg k) (low_bits ((line_of (regs m) k)\<lparr>rd_masked := b\<rparr>)) m1 =
      Some (Done ((), m2))"
    "regs m2 = (regs m1)(low_reg k := entry_bits (low_reg k) (low_bits ((line_of (regs m) k)\<lparr>rd_masked := b\<rparr>)))"
    using write_reg_file k regs_entries(1) by blast
  have "set_masked d base gsi b m = Some (Done ((), m2))"
    using m1 m2 entry_regs_covered(1) [OF assms(1)] by (simp add: set_masked_def k_def)
  with m1 m2 show ?thesis by auto
qed

lemma line_written:
  assumes "j < 256" "k < 256"
    and "regs n = (regs m)(high_reg k := entry_bits (high_reg k) (high_bits e),
      low_reg k := entry_bits (low_reg k) (low_bits q))"
  shows "line_of (regs n) j = (if j = k then q\<lparr>rd_destination := rd_destination e\<rparr> else line_of (regs m) j)"
  using assms by (simp add: line_of_def redirection_from_bits_kept redirection_from_bits_round)

lemma line_low_written:
  assumes "j < 256" "k < 256"
    and "regs n = (regs m)(low_reg k := entry_bits (low_reg k) (low_bits q))"
  shows "line_of (regs n) j = (if j = k then q\<lparr>rd_destination := rd_destination (line_of (regs m) k)\<rparr> else line_of (regs m) j)"
proof (cases "j = k")
  case True
  have "redirection_from_bits (entry_bits (low_reg k) (low_bits q)) h = redirection_from_bits (low_bits q) h" for h
    using assms(2) by (simp add: entry_bits_def redirection_from_bits_alt entry_bits_vector bit_and_iff entry_mask_bits)
  with True assms show ?thesis by (simp add: line_of_def redirection_from_bits_low) (simp add: redirection_from_bits_alt)
next
  case False
  with assms show ?thesis by (simp add: line_of_def)
qed

lemma mask_entry_file:
  assumes "i < entries_of (regs m)" "unat base + entries_of (regs m) < 2 ^ 32"
  shows "\<exists>n. mask_entry d base (word_of_nat i) m = Some (Done ((), n)) \<and>
    regs n = (regs m)(high_reg i := entry_bits (high_reg i) 0,
      low_reg i := entry_bits (low_reg i) (low_bits redirection_masked))"
proof -
  have i: "i < 256" using assms(1) entries_bound(2) [of m] by linarith
  have u: "unat (word_of_nat i :: u32) = i" using i by (simp add: unat_word_of_nat_small)
  have add: "add_run base (word_of_nat i) = Done (base + word_of_nat i)"
    using assms u by (simp add: add_run_Done)
  have g: "unat (base + word_of_nat i) = unat base + i"
    using assms u by (subst unat_add_exact) simp_all
  have er: "entry_regs base (base + word_of_nat i) = Done (low_reg i, high_reg i)"
    using entry_regs_at [of base "base + word_of_nat i"] g i by simp
  obtain m2 where m2: "write_reg d (high_reg i) 0 m = Some (Done ((), m2))"
    "regs m2 = (regs m)(high_reg i := entry_bits (high_reg i) 0)"
    using write_reg_file i regs_entries(2) by blast
  obtain m3 where m3: "write_reg d (low_reg i) (low_bits redirection_masked) m2 = Some (Done ((), m3))"
    "regs m3 = (regs m2)(low_reg i := entry_bits (low_reg i) (low_bits redirection_masked))"
    using write_reg_file i regs_entries(1) by blast
  show ?thesis using add er m2 m3 by (simp add: mask_entry_def)
qed

lemma mask_entries_file:
  assumes "set is \<subseteq> {..<entries_of (regs m)}" "unat base + entries_of (regs m) < 2 ^ 32"
  shows "\<exists>n. each_act (map (\<lambda>i. mask_entry d base (word_of_nat i)) is) m = Some (Done ((), n)) \<and>
    regs n IOAPIC_REG_VERSION = regs m IOAPIC_REG_VERSION \<and>
    (\<forall>j < 256. line_of (regs n) j = (if j \<in> set is then redirection_masked else line_of (regs m) j))"
  using assms
proof (induction "is" arbitrary: m)
  case Nil
  then show ?case by simp
next
  case (Cons i js)
  have i: "i < 256" using Cons.prems(1) entries_bound(2) [of m] by auto
  obtain m1 where m1: "mask_entry d base (word_of_nat i) m = Some (Done ((), m1))"
    "regs m1 = (regs m)(high_reg i := entry_bits (high_reg i) 0,
      low_reg i := entry_bits (low_reg i) (low_bits redirection_masked))"
    using mask_entry_file [of i m base] Cons.prems by auto
  have v: "regs m1 IOAPIC_REG_VERSION = regs m IOAPIC_REG_VERSION"
    using i m1(2) regs_entries(3,4) [OF i] regs_entries(3,4) [OF i, symmetric] by simp
  have "high_bits redirection_masked = 0" by (simp add: high_bits_def redirection_masked_def)
  then have l: "line_of (regs m1) j = (if j = i then redirection_masked else line_of (regs m) j)" if "j < 256" for j
    using line_written [OF that i, of m1 m redirection_masked redirection_masked] m1(2) by simp
  obtain n where n: "each_act (map (\<lambda>i. mask_entry d base (word_of_nat i)) js) m1 = Some (Done ((), n))"
    "regs n IOAPIC_REG_VERSION = regs m1 IOAPIC_REG_VERSION"
    "\<forall>j < 256. line_of (regs n) j = (if j \<in> set js then redirection_masked else line_of (regs m1) j)"
    using Cons.IH [of m1] Cons.prems entries_kept [OF v] by auto
  show ?case using m1(1) n v l by auto
qed

lemma mask_all_file:
  assumes "unat base + entries_of (regs m) < 2 ^ 32"
  shows "\<exists>n. ioapic_mask_all d base m = Some (Done ((), n)) \<and> entries_of (regs n) = entries_of (regs m) \<and>
    (\<forall>j < 256. line_of (regs n) j = (if j < entries_of (regs m) then redirection_masked else line_of (regs m) j))"
proof -
  obtain c n where c: "entry_count d m = Some (Done (c, n))" "regs n = regs m" "unat c = entries_of (regs m)"
    using entry_count_file by blast
  have en: "entries_of (regs n) = entries_of (regs m)" using c(2) by (simp add: entries_of_def)
  obtain k where k: "each_act (map (\<lambda>i. mask_entry d base (word_of_nat i)) [0..<entries_of (regs m)]) n =
      Some (Done ((), k))" "regs k IOAPIC_REG_VERSION = regs n IOAPIC_REG_VERSION"
    "\<forall>j < 256. line_of (regs k) j = (if j \<in> {0..<entries_of (regs m)} then redirection_masked else line_of (regs n) j)"
    using mask_entries_file [of "[0..<entries_of (regs m)]" n base] assms en by (auto simp: atLeast0LessThan)
  have ek: "entries_of (regs k) = entries_of (regs m)" using entries_kept [OF k(2)] en by simp
  have "line_of (regs n) j = line_of (regs m) j" for j using c(2) by (simp add: line_of_def)
  then show ?thesis using c k ek by (intro exI [of _ k]) (simp add: ioapic_mask_all_def)
qed

end

text \<open>The tests' model of the chip is such a register file.\<close>

definition ind_file :: "indirect \<Rightarrow> u32 \<Rightarrow> u32" where
  "ind_file m = (\<lambda>j. entry_bits j (ind_get m j))"

interpretation ind: register_file indirect_regs ind_file ind_selected
  by unfold_locales
    (auto simp: indirect_regs_def ind_file_def ind_get_def IOAPIC_SELECT_def IOAPIC_WINDOW_def
      Let_def fun_eq_iff)

lemma line_of_file: "k < 256 \<Longrightarrow> line_of (ind_file m) k = line_of (ind_get m) k"
  by (simp add: line_of_def ind_file_def redirection_from_bits_kept)

lemma entries_of_file: "entries_of (ind_file m) = entries_of (ind_get m)"
  by (simp add: entries_of_def ind_file_def entry_bits_def version_not_entry)

lemma covered_in_file: "covered_in base (ind_file m) = covered_in base (ind_get m)"
  by (simp add: covered_in_def entries_of_file fun_eq_iff)

text \<open>The registers at some moment of an operation, from the accesses logged so far.\<close>

definition replay :: "(u32 \<times> u32 \<times> bool) list \<Rightarrow> (u32 \<Rightarrow> u32) \<Rightarrow> u32 \<Rightarrow> u32" where
  "replay log r = fold (\<lambda>(i, v, w) r. if w then r(i := v) else r) log r"

lemma replay_simps [simp]: "replay [] r = r"
  "replay ((i, v, w) # log) r = replay log (if w then r(i := v) else r)"
  by (simp_all add: replay_def)

lemma read_reg_ind: "read_reg indirect_regs i m = Some (Done (ind_get m i,
    m\<lparr>ind_selected := i, ind_log := ind_log m @ [(i, ind_get m i, False)]\<rparr>))"
  by (simp add: read_reg_def wr_def rd_def reading_def writing_def indirect_regs_def Let_def
    ind_get_def IOAPIC_SELECT_def IOAPIC_WINDOW_def)

lemma write_reg_ind: "write_reg indirect_regs i v m = Some (Done ((),
    m\<lparr>ind_selected := i, ind_regs := (ind_regs m)(i \<mapsto> v), ind_log := ind_log m @ [(i, v, True)]\<rparr>))"
  by (simp add: write_reg_def wr_def rd_def reading_def writing_def indirect_regs_def Let_def
    IOAPIC_SELECT_def IOAPIC_WINDOW_def)

lemma set_redirection_ind:
  assumes "covered_in base (ind_get m) gsi" "k = unat gsi - unat base"
  shows "set_redirection indirect_regs base gsi e m = Some (Done ((), m\<lparr>ind_selected := low_reg k,
    ind_regs := (ind_regs m)(high_reg k \<mapsto> high_bits e, low_reg k \<mapsto> low_bits e),
    ind_log := ind_log m @ [(IOAPIC_REG_VERSION, ind_get m IOAPIC_REG_VERSION, False),
      (high_reg k, high_bits e, True), (low_reg k, low_bits e, True)]\<rparr>))"
proof -
  have c: "covered_in base (ind_file m) gsi" using assms(1) by (simp add: covered_in_file)
  define m1 where "m1 = m\<lparr>ind_selected := IOAPIC_REG_VERSION,
    ind_log := ind_log m @ [(IOAPIC_REG_VERSION, ind_get m IOAPIC_REG_VERSION, False)]\<rparr>"
  have m1: "covers indirect_regs base gsi m = Some (Done (True, m1))"
  proof -
    obtain n where n: "covers indirect_regs base gsi m = Some (Done (True, n))"
      using ind.covers_file [of base m gsi] c by (auto simp: covered_in_def)
    moreover have "n = m1"
      using n by (auto simp: covers_def entry_count_def bind_act_Done read_reg_ind m1_def
        of_run_def ret_def bind_run_def split: if_splits run.splits)
    ultimately show ?thesis by simp
  qed
  show ?thesis
    using m1 ind.entry_regs_covered(1) [OF c] assms(2)
    by (simp add: set_redirection_def write_reg_ind m1_def)
qed

text \<open>Reprogramming a line never delivers anywhere but where it pointed or where it is to point.
  The operation returns; at every moment of it every other line routes as before, and the line
  itself shows its old entry, then its old entry with the new destination, then the new entry. So a
  line that was masked is masked until it is wholly new, and the new vector is never live with the
  old destination.\<close>

theorem reroute_never_elsewhere:
  assumes "covered_in base (ind_get m) gsi" "k = unat gsi - unat base"
  shows "\<exists>n log. set_redirection indirect_regs base gsi e m = Some (Done ((), n)) \<and>
    ind_log n = ind_log m @ log \<and> ind_get n = replay log (ind_get m) \<and>
    line_of (ind_get n) k = e \<and>
    (\<forall>i j. j < 256 \<longrightarrow> line_of (replay (take i log) (ind_get m)) j \<in>
       (if j = k then {line_of (ind_get m) k,
          (line_of (ind_get m) k)\<lparr>rd_destination := rd_destination e\<rparr>, e}
        else {line_of (ind_get m) j}))"
proof -
  let ?r = "ind_get m"
  let ?log = "[(IOAPIC_REG_VERSION, ?r IOAPIC_REG_VERSION, False),
      (high_reg k, high_bits e, True), (low_reg k, low_bits e, True)]"
  let ?n = "m\<lparr>ind_selected := low_reg k,
    ind_regs := (ind_regs m)(high_reg k \<mapsto> high_bits e, low_reg k \<mapsto> low_bits e),
    ind_log := ind_log m @ ?log\<rparr>"
  have k: "k < 256"
    using ind.entry_regs_covered(2) [of base m gsi] assms by (simp add: covered_in_file)
  have n: "ind_get ?n = replay ?log ?r" by (auto simp: ind_get_def fun_eq_iff)
  have e: "line_of (replay ?log ?r) k = e"
    using k by (simp add: line_of_def redirection_from_bits_round)
  have mid: "line_of (?r(high_reg k := high_bits e)) j =
      (if j = k then (line_of ?r k)\<lparr>rd_destination := rd_destination e\<rparr> else line_of ?r j)"
    if "j < 256" for j
    using k that by (simp add: line_of_def redirection_from_bits_high) (simp add: redirection_from_bits_alt)
  have last: "line_of (replay ?log ?r) j = (if j = k then e else line_of ?r j)" if "j < 256" for j
    using k that e by (cases "j = k") (auto simp: line_of_def)
  have "line_of (replay (take i ?log) ?r) j \<in>
       (if j = k then {line_of ?r k, (line_of ?r k)\<lparr>rd_destination := rd_destination e\<rparr>, e}
        else {line_of ?r j})" if "j < 256" for i j
  proof -
    consider "i = 0" | "i = 1" | "i = 2" | "3 \<le> i" by linarith
    then show ?thesis
    proof cases
      case 3
      then show ?thesis using mid [OF that] by (simp add: numeral_2_eq_2)
    next
      case 4
      then have "take i ?log = ?log" by simp
      then show ?thesis using last [OF that] by simp
    qed simp_all
  qed
  then show ?thesis
    using set_redirection_ind [OF assms] n e by (intro exI [of _ ?n] exI [of _ ?log]) simp
qed

text \<open>A chip of 24 lines numbered from 24, as the tests make one.\<close>

definition second_chip :: indirect where
  "second_chip = \<lparr>ind_selected = 0, ind_regs = [IOAPIC_REG_VERSION \<mapsto> 0x170011], ind_log = []\<rparr>"

lemma second_chip_made: "io_apic 24 = Done second_chip"
  by (simp add: io_apic_def sub_run_def second_chip_def word_le_nat_alt)

lemma second_chip_entries: "entries_of (ind_get second_chip) = 24"
  by (simp add: entries_of_def ind_get_def second_chip_def)

lemma second_chip_covered: "covered_in 24 (ind_get second_chip) 26"
  by (simp add: covered_in_def second_chip_entries)

theorem reroute_never_elsewhere_witness:
  "\<exists>n log. set_redirection indirect_regs 24 26 redirection_masked second_chip = Some (Done ((), n)) \<and>
    ind_log n = log \<and> line_of (ind_get n) 2 = redirection_masked"
  using reroute_never_elsewhere [OF second_chip_covered refl, of redirection_masked]
  by (auto simp: second_chip_def)

text \<open>Masking a line changes nothing else. On every line the controller has, \<open>set_masked\<close> returns
  and leaves the routing of that line and all of every other line as it was, so reading the line
  back shows the entry it had with the mask asked for.\<close>

theorem masking_keeps_route:
  assumes "covered_in base (ind_get m) gsi" "k = unat gsi - unat base"
  shows "\<exists>n p. set_masked indirect_regs base gsi b m = Some (Done ((), n)) \<and>
    redirection_of indirect_regs base gsi n = Some (Done ((line_of (ind_get m) k)\<lparr>rd_masked := b\<rparr>, p)) \<and>
    (\<forall>j < 256. j \<noteq> k \<longrightarrow> line_of (ind_get n) j = line_of (ind_get m) j)"
proof -
  have c: "covered_in base (ind_file m) gsi" using assms(1) by (simp add: covered_in_file)
  have k: "k < 256" using ind.entry_regs_covered(2) [OF c] assms(2) by simp
  let ?q = "(line_of (ind_file m) k)\<lparr>rd_masked := b\<rparr>"
  obtain n where n: "set_masked indirect_regs base gsi b m = Some (Done ((), n))"
    "ind_file n = (ind_file m)(low_reg k := entry_bits (low_reg k) (low_bits ?q))"
    using ind.set_masked_file [OF c, of b] assms(2) by blast
  have ln: "line_of (ind_file n) j = (if j = k then ?q else line_of (ind_file m) j)" if "j < 256" for j
    using ind.line_low_written [OF that k n(2)] by simp
  have "ind_file n IOAPIC_REG_VERSION = ind_file m IOAPIC_REG_VERSION"
    using n(2) regs_entries(3) [OF k] by (metis fun_upd_other)
  from ind.entries_kept [OF this] have cn: "covered_in base (ind_file n) gsi"
    using c by (simp only: covered_in_def)
  obtain p where "redirection_of indirect_regs base gsi n = Some (Done (line_of (ind_file n) k, p))"
    using ind.redirection_of_file [OF cn] assms(2) by blast
  then show ?thesis using n(1) ln k by (intro exI [of _ n] exI [of _ p]) (simp add: line_of_file)
qed

theorem masking_keeps_route_witness:
  "\<exists>n. set_masked indirect_regs 24 26 True second_chip = Some (Done ((), n))"
  using masking_keeps_route [OF second_chip_covered refl, of True] by blast

text \<open>Nothing firmware routed survives. \<open>mask_all\<close> returns with every line the controller has
  masked, on vector 0 of core 0, and with the registers past its last entry as they were.\<close>

theorem firmware_routes_silenced:
  assumes "unat base + entries_of (ind_get m) < 2 ^ 32"
  shows "\<exists>n. ioapic_mask_all indirect_regs base m = Some (Done ((), n)) \<and>
    entries_of (ind_get n) = entries_of (ind_get m) \<and>
    (\<forall>j < 256. line_of (ind_get n) j =
       (if j < entries_of (ind_get m) then redirection_masked else line_of (ind_get m) j))"
proof -
  obtain n where n: "ioapic_mask_all indirect_regs base m = Some (Done ((), n))"
    "entries_of (ind_file n) = entries_of (ind_file m)"
    "\<forall>j < 256. line_of (ind_file n) j =
       (if j < entries_of (ind_file m) then redirection_masked else line_of (ind_file m) j)"
    using ind.mask_all_file [of base m] assms by (auto simp: entries_of_file)
  then show ?thesis by (intro exI [of _ n]) (simp add: entries_of_file line_of_file)
qed

theorem firmware_routes_silenced_witness:
  "\<exists>n. ioapic_mask_all indirect_regs 24 second_chip = Some (Done ((), n)) \<and>
    line_of (ind_get n) 3 = redirection_masked"
proof -
  have b: "unat (24 :: u32) + entries_of (ind_get second_chip) < 2 ^ 32"
    by (simp add: second_chip_entries)
  have "(3::nat) < 256" by simp
  then show ?thesis using firmware_routes_silenced [OF b] by (auto simp: second_chip_entries)
qed

end
