(* ===== verification/LapicProps.thy ===== *)
theory LapicProps imports Apic begin

text \<open>
  What the local APIC's driver does: the exact writes of each operation, over any registers that
  perform an aligned access once and in order (\<open>written_registers\<close>, which \<open>MappedRegisters\<close> over any
  machine and the tests' \<open>Recorder\<close> both are), and how a message to another core is sent: only into
  an idle command register, destination first, and in bounded time when the caller's clock runs.
\<close>

section \<open>Registers that are written in order\<close>

locale written_registers =
  fixes d :: "'m mmio32" and writes :: "'m \<Rightarrow> (u64 \<times> u32) list"
  assumes read_done: "is_multiple_of offset 4 \<Longrightarrow>
      \<exists>v n. read32 d offset m = Done (v, n) \<and> writes n = writes m"
    and write_done: "is_multiple_of offset 4 \<Longrightarrow>
      \<exists>n. write32 d offset v m = Done n \<and> writes n = writes m @ [(offset, v)]"
begin

definition performs :: "('m, unit) act \<Rightarrow> (u64 \<times> u32) list \<Rightarrow> bool" where
  "performs f ws \<longleftrightarrow> (\<forall>m. \<exists>n. f m = Some (Done ((), n)) \<and> writes n = writes m @ ws)"

lemma performs_wr: "is_multiple_of offset 4 \<Longrightarrow> performs (wr d offset v) [(offset, v)]"
  unfolding performs_def wr_def writing_def
proof
  fix m assume "is_multiple_of offset 4"
  then obtain n where "write32 d offset v m = Done n" "writes n = writes m @ [(offset, v)]"
    using write_done by blast
  then show "\<exists>n. Some (bind_run (write32 d offset v m) (\<lambda>n. Done ((), n))) = Some (Done ((), n)) \<and>
      writes n = writes m @ [(offset, v)]" by simp
qed

lemma performs_seq: "performs f ws \<Longrightarrow> performs g vs \<Longrightarrow> performs (seq_act f g) (ws @ vs)"
proof -
  assume f: "performs f ws" and g: "performs g vs"
  have "\<exists>n. seq_act f g m = Some (Done ((), n)) \<and> writes n = writes m @ ws @ vs" for m
  proof -
    obtain k where k: "f m = Some (Done ((), k))" "writes k = writes m @ ws"
      using f unfolding performs_def by blast
    obtain n where "g k = Some (Done ((), n))" "writes n = writes k @ vs"
      using g unfolding performs_def by blast
    with k show ?thesis by simp
  qed
  then show ?thesis by (simp add: performs_def)
qed

lemma performs_ret: "performs (ret ()) []"
  by (simp add: performs_def)

lemma performs_cons: "is_multiple_of offset 4 \<Longrightarrow> performs g vs \<Longrightarrow>
    performs (seq_act (wr d offset v) g) ((offset, v) # vs)"
  using performs_seq [OF performs_wr, of offset g vs v] by simp

lemma aligned_regs:
  "is_multiple_of TASK_PRIORITY 4" "is_multiple_of LAPIC_EOI 4" "is_multiple_of LAPIC_SPURIOUS 4"
  "is_multiple_of ICR_LOW 4" "is_multiple_of ICR_HIGH 4" "is_multiple_of LVT_TIMER 4"
  "is_multiple_of LVT_LINT0 4" "is_multiple_of LVT_LINT1 4" "is_multiple_of LVT_ERROR 4"
  "is_multiple_of TIMER_INITIAL_COUNT 4" "is_multiple_of TIMER_CURRENT_COUNT 4"
  "is_multiple_of TIMER_DIVIDE 4" "is_multiple_of LAPIC_ID 4" "is_multiple_of LAPIC_VERSION 4"
  by (simp_all add: is_multiple_of_dvd lapic_regs)

lemma enable_writes: "performs (lapic_enable d v)
   [(TASK_PRIORITY, 0), (LVT_TIMER, LVT_MASKED), (LVT_LINT0, LVT_MASKED), (LVT_LINT1, LVT_MASKED),
    (LVT_ERROR, LVT_MASKED OR ucast v), (LAPIC_SPURIOUS, SPURIOUS_ENABLE OR ucast v)]"
proof -
  have "performs (each_act (map (\<lambda>lvt. wr d lvt LVT_MASKED) [LVT_TIMER, LVT_LINT0, LVT_LINT1]))
     [(LVT_TIMER, LVT_MASKED), (LVT_LINT0, LVT_MASKED), (LVT_LINT1, LVT_MASKED)]"
    by (auto intro!: performs_cons performs_ret aligned_regs)
  from performs_seq [OF this performs_cons [OF _ performs_wr]] show ?thesis
    unfolding lapic_enable_def by (intro performs_cons) (auto simp: aligned_regs)
qed

lemma eoi_writes: "performs (lapic_eoi d) [(LAPIC_EOI, 0)]"
  by (simp add: lapic_eoi_def performs_wr aligned_regs)

lemma periodic_writes: "performs (start_timer_periodic d v c)
    [(LVT_TIMER, TIMER_PERIODIC OR ucast v), (TIMER_INITIAL_COUNT, c)]"
  unfolding start_timer_periodic_def by (intro performs_cons performs_wr aligned_regs)

lemma masked_writes: "performs (start_timer_masked d c)
    [(LVT_TIMER, LVT_MASKED OR TIMER_ONE_SHOT), (TIMER_INITIAL_COUNT, c)]"
  unfolding start_timer_masked_def by (intro performs_cons performs_wr aligned_regs)

lemma stop_writes: "performs (stop_timer d) [(TIMER_INITIAL_COUNT, 0), (LVT_TIMER, LVT_MASKED)]"
  unfolding stop_timer_def by (intro performs_cons performs_wr aligned_regs)

lemma divisor_writes: "\<exists>n. set_timer_divisor d x m = Some (Done (timer_divide_bits x \<noteq> None, n)) \<and>
    writes n = writes m @ (case timer_divide_bits x of None \<Rightarrow> [] | Some b \<Rightarrow> [(TIMER_DIVIDE, b)])"
proof (cases "timer_divide_bits x")
  case None
  then show ?thesis by (simp add: set_timer_divisor_def)
next
  case (Some b)
  obtain n where "wr d TIMER_DIVIDE b m = Some (Done ((), n))" "writes n = writes m @ [(TIMER_DIVIDE, b)]"
    using performs_wr [OF aligned_regs(12), of b] by (auto simp: performs_def)
  with Some show ?thesis by (simp add: set_timer_divisor_def)
qed

end

interpretation rec: written_registers recorder_regs rec_writes
  by unfold_locales (auto simp: recorder_regs_def)

definition mmio_writes :: "u64 \<Rightarrow> history \<Rightarrow> (u64 \<times> u32) list" where
  "mmio_writes base h = concat (map (\<lambda>e. case e of Mmio_Write a v \<Rightarrow> [(a - base, v)] | _ \<Rightarrow> []) h)"

lemma mmio_writes_append [simp]: "mmio_writes base (h @ t) = mmio_writes base h @ mmio_writes base t"
  by (simp add: mmio_writes_def)

interpretation mapped: written_registers "mapped32 hw base" "mmio_writes base" for hw base
  by unfold_locales (auto simp: mapped32_def mmio_writes_def Let_def)

text \<open>The divisors the chip can produce have distinct encodings, none with the reserved bit.\<close>

lemma timer_divide_bits_inj:
  "timer_divide_bits x = Some b \<Longrightarrow> timer_divide_bits y = Some b \<Longrightarrow> x = y"
  by (auto simp: timer_divide_bits_def split: if_splits)

lemma timer_divide_bits_reserved: "timer_divide_bits x = Some b \<Longrightarrow> b AND 4 = 0"
  by (auto simp: timer_divide_bits_def split: if_splits)

section \<open>Messages to other cores\<close>

fun is_read :: "event \<Rightarrow> bool" where
  "is_read (Mmio_Read a v) = True"
| "is_read (Mmio_Read64 a v) = True"
| "is_read (Port_Read p v) = True"
| "is_read (Msr_Read r v) = True"
| "is_read e = False"

text \<open>A clock that only looks: it may read the hardware and changes nothing.\<close>

definition only_reads :: "(history, 'a) act \<Rightarrow> bool" where
  "only_reads f \<longleftrightarrow> (\<forall>h r g. f h = Some (Done (r, g)) \<longrightarrow> (\<exists>t. g = h @ t \<and> list_all is_read t))"

lemma only_readsD: "only_reads f \<Longrightarrow> f h = Some (Done (r, g)) \<Longrightarrow> \<exists>t. g = h @ t \<and> list_all is_read t"
  by (simp add: only_reads_def)

definition icr_idle :: "u64 \<Rightarrow> event \<Rightarrow> bool" where
  "icr_idle base e \<longleftrightarrow> (\<exists>v. e = Mmio_Read (base + ICR_LOW) v \<and> v AND ICR_DELIVERY_PENDING = 0)"

lemma rd_mapped: "is_multiple_of offset 4 \<Longrightarrow> rd (mapped32 hw base) offset h =
    Some (Done (answer32 hw h (base + offset),
      h @ [Mmio_Read (base + offset) (answer32 hw h (base + offset))]))"
  by (simp add: rd_def reading_def mapped32_def Let_def)

lemma wr_mapped: "is_multiple_of offset 4 \<Longrightarrow> wr (mapped32 hw base) offset v h =
    Some (Done ((), h @ [Mmio_Write (base + offset) v]))"
  by (simp add: wr_def writing_def mapped32_def Let_def)

lemma wait_idle_reads:
  assumes "only_reads expired"
    and "wait_idle (mapped32 hw base) expired h = Some (Done (r, g))"
  shows "\<exists>t. g = h @ t \<and> list_all is_read t \<and>
    (r = Some () \<longrightarrow> t \<noteq> [] \<and> icr_idle base (last t))"
proof -
  let ?P = "\<lambda>d e h w. d = mapped32 hw base \<longrightarrow> e = expired \<longrightarrow> (\<forall>r g. w = Done (r, g) \<longrightarrow>
    (\<exists>t. g = h @ t \<and> list_all is_read t \<and> (r = Some () \<longrightarrow> t \<noteq> [] \<and> icr_idle base (last t))))"
  have "?P (mapped32 hw base) expired h (Done (r, g))"
  proof (rule wait_idle.raw_induct [where P = ?P, OF _ assms(2)], intro impI allI)
    fix wait :: "history mmio32 \<Rightarrow> (history, bool) act \<Rightarrow> (history, unit option) act"
      and d e h w r g
    assume IH: "\<And>d e h w. wait d e h = Some w \<Longrightarrow> ?P d e h w"
      and step: "(case rd d ICR_LOW h of None \<Rightarrow> None | Some Panic \<Rightarrow> Some Panic
        | Some (Done (v, n)) \<Rightarrow>
          if v AND ICR_DELIVERY_PENDING = 0 then Some (Done (Some (), n))
          else (case e n of None \<Rightarrow> None | Some Panic \<Rightarrow> Some Panic
           | Some (Done (x, k)) \<Rightarrow> if x then Some (Done (None, k)) else wait d e k)) = Some w"
      and d: "d = mapped32 hw base" and e: "e = expired" and w: "w = Done (r, g)"
    let ?v = "answer32 hw h (base + ICR_LOW)"
    let ?n = "h @ [Mmio_Read (base + ICR_LOW) ?v]"
    have rdv: "rd d ICR_LOW h = Some (Done (?v, ?n))"
      using d rd_mapped [OF mapped.aligned_regs(4)] by simp
    show "\<exists>t. g = h @ t \<and> list_all is_read t \<and> (r = Some () \<longrightarrow> t \<noteq> [] \<and> icr_idle base (last t))"
    proof (cases "?v AND ICR_DELIVERY_PENDING = 0")
      case True
      then have "r = Some ()" "g = ?n" using step rdv w by auto
      with True show ?thesis by (intro exI [of _ "[Mmio_Read (base + ICR_LOW) ?v]"])
          (simp add: icr_idle_def)
    next
      case False
      then obtain x k where x: "expired ?n = Some (Done (x, k))"
        and rest: "(if x then Some (Done (None, k)) else wait d e k) = Some w"
        using step rdv w e by (auto split: option.splits run.splits)
      obtain t where t: "k = ?n @ t" "list_all is_read t"
        using only_readsD [OF assms(1) x] by blast
      show ?thesis
      proof (cases x)
        case True
        with rest w t show ?thesis by (intro exI [of _ "Mmio_Read (base + ICR_LOW) ?v # t"]) simp
      next
        case False
        with rest have "wait d e k = Some w" by simp
        from IH [OF this] d e w obtain s where s: "g = k @ s" "list_all is_read s"
          "r = Some () \<longrightarrow> s \<noteq> [] \<and> icr_idle base (last s)" by auto
        with t show ?thesis by (intro exI [of _ "Mmio_Read (base + ICR_LOW) ?v # t @ s"]) auto
      qed
    qed
  qed
  then show ?thesis by simp
qed

lemma try_act_Done: "try_act f g m = Some (Done (r, k)) \<longleftrightarrow>
    f m = Some (Done (None, k)) \<and> r = None \<or>
    (\<exists>a n. f m = Some (Done (Some a, n)) \<and> g a n = Some (Done (r, k)))"
  by (auto simp: try_act_def bind_act_Done split: option.splits)

text \<open>A message is only ever sent into an idle command register, destination first. Over any
  machine, whatever \<open>send_ipi\<close> answers: either it wrote nothing, and then it answers \<open>None\<close>; or the
  last thing before its first write is a read of the command register that shows the previous
  message delivered, the destination is written next and the command, which fires it, right after,
  and nothing is written again. It answers \<open>Some ()\<close> only on a read that shows the message gone.\<close>

theorem send_ipi_ordered:
  assumes clock: "only_reads expired"
    and run: "send_ipi (mapped32 hw base) dest low expired h = Some (Done (r, g))"
  shows "(\<exists>t. r = None \<and> g = h @ t \<and> list_all is_read t) \<or>
    (\<exists>a i b. g = h @ a @ [i, Mmio_Write (base + ICR_HIGH) (push_bit 24 (ucast dest)),
         Mmio_Write (base + ICR_LOW) low] @ b \<and>
       list_all is_read a \<and> list_all is_read b \<and> icr_idle base i \<and>
       (r = Some () \<longrightarrow> b \<noteq> [] \<and> icr_idle base (last b)))"
proof -
  from run consider
    (never) "wait_idle (mapped32 hw base) expired h = Some (Done (None, g))" "r = None"
  | (sent) k where "wait_idle (mapped32 hw base) expired h = Some (Done (Some (), k))"
      "wait_idle (mapped32 hw base) expired (k @ [Mmio_Write (base + ICR_HIGH) (push_bit 24 (ucast dest)),
         Mmio_Write (base + ICR_LOW) low]) = Some (Done (r, g))"
    by (auto simp: send_ipi_def try_act_Done seq_act_Done wr_mapped mapped.aligned_regs)
  then show ?thesis
  proof cases
    case never
    with wait_idle_reads [OF clock never(1)] show ?thesis by auto
  next
    case sent
    obtain a where a: "k = h @ a" "list_all is_read a" "a \<noteq> []" "icr_idle base (last a)"
      using wait_idle_reads [OF clock sent(1)] by auto
    obtain b where b: "g = (k @ [Mmio_Write (base + ICR_HIGH) (push_bit 24 (ucast dest)),
         Mmio_Write (base + ICR_LOW) low]) @ b" "list_all is_read b"
      "r = Some () \<longrightarrow> b \<noteq> [] \<and> icr_idle base (last b)"
      using wait_idle_reads [OF clock sent(2)] by auto
    have "a = butlast a @ [last a]" using a(3) by simp
    moreover have "list_all is_read (butlast a)" using a(2) by (auto simp: list_all_iff dest: in_set_butlastD)
    ultimately show ?thesis
      using a b by (intro disjI2 exI [of _ "butlast a"] exI [of _ "last a"] exI [of _ b]) auto
  qed
qed

section \<open>The wait ends\<close>

text \<open>A clock that runs: polled anywhere, it answers after at most one read, and from \<open>K\<close> accesses
  after \<open>h\<close> on, for at least as long as one message takes, its answer is that the time is up.\<close>

definition clock_runs :: "(history, bool) act \<Rightarrow> history \<Rightarrow> nat \<Rightarrow> bool" where
  "clock_runs expired h K \<longleftrightarrow>
     (\<forall>g. \<exists>e t. expired g = Some (Done (e, g @ t)) \<and> length t \<le> 1 \<and> list_all is_read t) \<and>
     (\<forall>t g e. K \<le> length t \<and> length t \<le> K + 10 \<and> expired (h @ t) = Some (Done (e, g)) \<longrightarrow> e)"

lemma clock_runs_only_reads: "clock_runs expired h K \<Longrightarrow> only_reads expired"
  unfolding clock_runs_def only_reads_def by (metis Pair_inject option.inject run.inject)

lemma wait_idle_returns:
  assumes clock: "clock_runs expired h K" and len: "length t \<le> K + 6"
  shows "\<exists>r u. wait_idle (mapped32 hw base) expired (h @ t) = Some (Done (r, h @ t @ u)) \<and>
    length t + length u \<le> max (length t) K + 3"
  using len
proof (induction "K - length t" arbitrary: t rule: less_induct)
  case less
  let ?d = "mapped32 hw base"
  let ?v = "answer32 hw (h @ t) (base + ICR_LOW)"
  let ?e = "Mmio_Read (base + ICR_LOW) ?v"
  have rdv: "rd ?d ICR_LOW (h @ t) = Some (Done (?v, (h @ t) @ [?e]))"
    by (simp only: rd_mapped [OF mapped.aligned_regs(4)])
  show ?case
  proof (cases "?v AND ICR_DELIVERY_PENDING = 0")
    case True
    then have "wait_idle ?d expired (h @ t) = Some (Done (Some (), h @ t @ [?e]))"
      by (subst wait_idle.simps) (simp add: rdv)
    then show ?thesis by (intro exI [of _ "Some ()"] exI [of _ "[?e]"]) simp
  next
    case False
    obtain e u where u: "expired (h @ t @ [?e]) = Some (Done (e, (h @ t @ [?e]) @ u))" "length u \<le> 1"
      using clock unfolding clock_runs_def by blast
    have step: "wait_idle ?d expired (h @ t) =
        (if e then Some (Done (None, h @ t @ ?e # u)) else wait_idle ?d expired (h @ t @ ?e # u))"
      using False u(1) by (subst wait_idle.simps) (simp add: rdv)
    show ?thesis
    proof (cases e)
      case True
      then show ?thesis using step u(2) by (intro exI [of _ None] exI [of _ "?e # u"]) simp
    next
      case notyet: False
      have "length t + 1 < K"
      proof (rule ccontr)
        assume "\<not> length t + 1 < K"
        then have "K \<le> length (t @ [?e]) \<and> length (t @ [?e]) \<le> K + 10" using less.prems by simp
        with clock u(1) have e unfolding clock_runs_def by (metis append.assoc)
        with notyet show False by simp
      qed
      then have "K - length (t @ ?e # u) < K - length t" "length (t @ ?e # u) \<le> K + 6"
        using u(2) by simp_all
      from less.hyps [OF this] obtain r s where
        "wait_idle ?d expired (h @ t @ ?e # u) = Some (Done (r, h @ (t @ ?e # u) @ s))"
        "length (t @ ?e # u) + length s \<le> max (length (t @ ?e # u)) K + 3" by auto
      with step notyet u(2) \<open>length t + 1 < K\<close> show ?thesis
        by (intro exI [of _ r] exI [of _ "?e # u @ s"]) simp
    qed
  qed
qed

text \<open>Sending a message ends. Whatever the chip answers, wedged or not, and whatever the message,
  \<open>send_ipi\<close> returns without panicking once the caller's clock runs, after at most eleven accesses
  more than the clock needs.\<close>

theorem send_ipi_returns:
  assumes "clock_runs expired h K"
  shows "\<exists>r t. send_ipi (mapped32 hw base) dest low expired h = Some (Done (r, h @ t)) \<and>
    length t \<le> K + 11"
proof -
  let ?d = "mapped32 hw base"
  let ?w = "[Mmio_Write (base + ICR_HIGH) (push_bit 24 (ucast dest)), Mmio_Write (base + ICR_LOW) low]"
  obtain r u where u: "wait_idle ?d expired h = Some (Done (r, h @ u))" "length u \<le> K + 3"
    using wait_idle_returns [OF assms, of "[]" hw base] by auto
  show ?thesis
  proof (cases r)
    case None
    with u show ?thesis by (intro exI [of _ None] exI [of _ u]) (simp add: send_ipi_def try_act_def)
  next
    case (Some x)
    obtain q s where s: "wait_idle ?d expired (h @ u @ ?w) = Some (Done (q, h @ (u @ ?w) @ s))"
      "length (u @ ?w) + length s \<le> max (length (u @ ?w)) K + 3"
      using wait_idle_returns [OF assms, of "u @ ?w" hw base] u(2) by auto
    have "send_ipi ?d dest low expired h = wait_idle ?d expired (h @ u @ ?w)"
      using u(1) Some by (simp add: send_ipi_def try_act_def wr_mapped mapped.aligned_regs)
    with s u(2) show ?thesis by (intro exI [of _ q] exI [of _ "u @ ?w @ s"]) simp
  qed
qed

text \<open>A wedged chip, and a clock that is up after five accesses.\<close>

definition wedged :: machine where
  "wedged = \<lparr>answer32 = (\<lambda>h a. ICR_DELIVERY_PENDING), answer64 = (\<lambda>h a. 0),
     answer_port = (\<lambda>h p. 0), answer_msr = (\<lambda>h r. 0), answer_cr4 = (\<lambda>h. 0)\<rparr>"

definition five_accesses :: "(history, bool) act" where
  "five_accesses = (\<lambda>h. Some (Done (5 \<le> length h, h)))"

lemma five_accesses_run: "clock_runs five_accesses [] 5"
  by (simp add: clock_runs_def five_accesses_def)

theorem send_ipi_returns_witness:
  "\<exists>r t. send_ipi (mapped32 wedged 0) 1 0 five_accesses [] = Some (Done (r, t)) \<and> length t \<le> 16"
  using send_ipi_returns [OF five_accesses_run, of wedged 0 1 0] by auto

text \<open>A chip that is always idle.\<close>

definition idle_machine :: machine where
  "idle_machine = wedged\<lparr>answer32 := (\<lambda>h a. 0)\<rparr>"

lemma idle_sends: "send_ipi (mapped32 idle_machine 0) 3 8 five_accesses [] =
    Some (Done (Some (), [Mmio_Read ICR_LOW 0, Mmio_Write ICR_HIGH 0x3000000, Mmio_Write ICR_LOW 8,
      Mmio_Read ICR_LOW 0]))"
proof -
  have idle: "wait_idle (mapped32 idle_machine 0) five_accesses h =
      Some (Done (Some (), h @ [Mmio_Read ICR_LOW 0]))" for h
    by (subst wait_idle.simps)
      (simp add: rd_mapped [OF mapped.aligned_regs(4)] idle_machine_def)
  show ?thesis
    by (simp add: send_ipi_def try_act_def idle wr_mapped mapped.aligned_regs)
qed

theorem send_ipi_ordered_witness:
  "\<exists>a i b. [Mmio_Read ICR_LOW 0, Mmio_Write ICR_HIGH 0x3000000, Mmio_Write ICR_LOW 8,
      Mmio_Read ICR_LOW 0] = a @ [i, Mmio_Write ICR_HIGH 0x3000000, Mmio_Write ICR_LOW 8] @ b \<and>
    icr_idle 0 i \<and> icr_idle 0 (last b)"
  using send_ipi_ordered [OF clock_runs_only_reads [OF five_accesses_run] idle_sends]
  by (auto simp: ucast_eq)

end
