(* ===== verification/Pic.thy ===== *)
theory Pic imports Device begin

text \<open>
  The cascaded pair of 8259s of \<open>crates/arch-x86_64/src/pic.rs\<close>, generic in the port space \<open>p\<close>. The
  driver's own state is the vector of the first line, \<open>base\<close>, which \<open>pic_remap\<close> answers. The tests'
  \<open>Recorder\<close> is the model of the pair's registers, and \<open>mask_registers\<close> what the lemmas need of it.
\<close>

section \<open>The driver\<close>

definition MASTER_COMMAND :: u16 where "MASTER_COMMAND = 0x20"
definition MASTER_DATA :: u16 where "MASTER_DATA = 0x21"
definition SLAVE_COMMAND :: u16 where "SLAVE_COMMAND = 0xA0"
definition SLAVE_DATA :: u16 where "SLAVE_DATA = 0xA1"

definition CASCADE_IRQ :: u8 where "CASCADE_IRQ = 2"
definition LINES :: u8 where "LINES = 16"
definition SPURIOUS_MASTER :: u8 where "SPURIOUS_MASTER = 7"
definition SPURIOUS_SLAVE :: u8 where "SPURIOUS_SLAVE = 15"

definition ICW1_INIT :: u8 where "ICW1_INIT = 0x11"
definition ICW3_MASTER :: u8 where "ICW3_MASTER = push_bit (unat CASCADE_IRQ) 1"
definition ICW3_SLAVE :: u8 where "ICW3_SLAVE = CASCADE_IRQ"
definition ICW4_8086 :: u8 where "ICW4_8086 = 0x01"
definition OCW2_EOI :: u8 where "OCW2_EOI = 0x20"
definition OCW3_READ_ISR :: u8 where "OCW3_READ_ISR = 0x0B"

named_theorems pic_consts \<open>the constants of the 8259 driver\<close>

declare MASTER_COMMAND_def [pic_consts] MASTER_DATA_def [pic_consts] SLAVE_COMMAND_def [pic_consts]
  SLAVE_DATA_def [pic_consts] CASCADE_IRQ_def [pic_consts] LINES_def [pic_consts]
  SPURIOUS_MASTER_def [pic_consts] SPURIOUS_SLAVE_def [pic_consts] ICW1_INIT_def [pic_consts]
  ICW3_MASTER_def [pic_consts] ICW3_SLAVE_def [pic_consts] ICW4_8086_def [pic_consts]
  OCW2_EOI_def [pic_consts] OCW3_READ_ISR_def [pic_consts]

definition vector_for :: "u8 \<Rightarrow> u8 \<Rightarrow> u8 run" where
  "vector_for base irq = add_run base irq"

definition irq_for :: "u8 \<Rightarrow> u8 \<Rightarrow> u8 option run" where
  "irq_for base vector =
     (if base \<le> vector
      then bind_run (add_run base LINES) (\<lambda>e.
        if vector < e then Done (Some (vector - base)) else Done None)
      else Done None)"

definition set_masks :: "'m port_io \<Rightarrow> u16 \<Rightarrow> ('m, unit) act" where
  "set_masks p ms = seq_act (outb p MASTER_DATA (ucast ms)) (outb p SLAVE_DATA (ucast (drop_bit 8 ms)))"

definition pic_remap :: "'m port_io \<Rightarrow> u8 \<Rightarrow> ('m, u8) act" where
  "pic_remap p base =
     seq_act (assert_act (32 \<le> base))
     (seq_act (assert_act (base \<le> 255 - LINES))
     (bind_act (of_run (add_run base 8)) (\<lambda>slave.
      seq_act (each_act (concat (map (\<lambda>(port, word). [outb p port word, io_wait p])
        [(MASTER_COMMAND, ICW1_INIT), (SLAVE_COMMAND, ICW1_INIT),
         (MASTER_DATA, base), (SLAVE_DATA, slave),
         (MASTER_DATA, ICW3_MASTER), (SLAVE_DATA, ICW3_SLAVE),
         (MASTER_DATA, ICW4_8086), (SLAVE_DATA, ICW4_8086)])))
      (seq_act (set_masks p (- 1)) (ret base)))))"

definition masks :: "'m port_io \<Rightarrow> ('m, u16) act" where
  "masks p =
     bind_act (inb p MASTER_DATA) (\<lambda>low.
     bind_act (inb p SLAVE_DATA) (\<lambda>high.
     ret (ucast low OR push_bit 8 (ucast high))))"

text \<open>\<open>1u16 << irq\<close> panics when the shift is the width or more.\<close>

definition line_bit :: "u8 \<Rightarrow> u16 run" where
  "line_bit irq = (if unat irq < 16 then Done (push_bit (unat irq) 1) else Panic)"

definition pic_unmask :: "'m port_io \<Rightarrow> u8 \<Rightarrow> ('m, unit) act" where
  "pic_unmask p irq =
     bind_act (masks p) (\<lambda>ms.
     bind_act (of_run (line_bit irq)) (\<lambda>b.
     let ms = ms AND NOT b;
         ms = (if 8 \<le> irq then ms AND NOT (push_bit (unat CASCADE_IRQ) 1) else ms)
     in set_masks p ms))"

definition pic_mask :: "'m port_io \<Rightarrow> u8 \<Rightarrow> ('m, unit) act" where
  "pic_mask p irq =
     bind_act (masks p) (\<lambda>ms.
     bind_act (of_run (line_bit irq)) (\<lambda>b.
     set_masks p (ms OR b)))"

definition pic_mask_all :: "'m port_io \<Rightarrow> ('m, unit) act" where
  "pic_mask_all p = set_masks p (- 1)"

definition pic_eoi :: "'m port_io \<Rightarrow> u8 \<Rightarrow> ('m, unit) act" where
  "pic_eoi p irq =
     seq_act (when_act (8 \<le> irq) (outb p SLAVE_COMMAND OCW2_EOI)) (outb p MASTER_COMMAND OCW2_EOI)"

definition is_spurious :: "'m port_io \<Rightarrow> u8 \<Rightarrow> ('m, bool) act" where
  "is_spurious p irq =
     (let ask = (\<lambda>command. seq_act (outb p command OCW3_READ_ISR)
        (bind_act (inb p command) (\<lambda>v. ret (v AND push_bit 7 1 = 0))))
      in if irq = SPURIOUS_MASTER then ask MASTER_COMMAND
         else if irq = SPURIOUS_SLAVE then ask SLAVE_COMMAND
         else ret False)"

definition end_of_spurious :: "'m port_io \<Rightarrow> u8 \<Rightarrow> ('m, unit) act" where
  "end_of_spurious p irq = when_act (irq = SPURIOUS_SLAVE) (outb p MASTER_COMMAND OCW2_EOI)"

section \<open>The tests' model of the pair\<close>

record pic_recorder =
  pr_writes :: "(u16 \<times> u8) list"
  pr_data :: "u16 \<rightharpoonup> u8"
  pr_status :: "u16 \<rightharpoonup> u8"
  pr_waits :: nat

definition or_zero :: "u8 option \<Rightarrow> u8" where
  "or_zero v = (case v of None \<Rightarrow> 0 | Some x \<Rightarrow> x)"

definition recorder_ports :: "pic_recorder port_io" where
  "recorder_ports = \<lparr>
     port_read = (\<lambda>port m. Done (
       if port = MASTER_DATA \<or> port = SLAVE_DATA then or_zero (pr_data m port)
       else or_zero (pr_status m port), m)),
     port_write = (\<lambda>port v m. Done (
       let m = m\<lparr>pr_writes := pr_writes m @ [(port, v)]\<rparr>
       in if port = MASTER_DATA \<or> port = SLAVE_DATA then m\<lparr>pr_data := (pr_data m)(port \<mapsto> v)\<rparr> else m)),
     port_wait = (\<lambda>m. Done (m\<lparr>pr_waits := pr_waits m + 1\<rparr>))\<rparr>"

section \<open>Lines\<close>

text \<open>The lines that may be delivered: those whose mask bit is clear.\<close>

definition open_lines :: "u16 \<Rightarrow> nat set" where
  "open_lines ms = {i. i < 16 \<and> \<not> bit ms i}"

lemma u16_eqI: "(\<And>n. n < 16 \<Longrightarrow> bit a n = bit b n) \<Longrightarrow> a = b" for a b :: u16
  by (rule bit_word_eqI) simp

lemma open_lines_inj: "open_lines a = open_lines b \<Longrightarrow> a = b"
  by (rule u16_eqI) (auto simp: open_lines_def set_eq_iff)

lemma masks_halves: "ucast (ucast ms :: u8) OR push_bit 8 (ucast (ucast (drop_bit 8 ms) :: u8)) = ms"
  for ms :: u16
  by (rule u16_eqI) (auto simp: bit_simps)

lemma open_lines_clear: "i < 16 \<Longrightarrow> open_lines (ms AND NOT (push_bit i 1)) = insert i (open_lines ms)"
  by (auto simp: open_lines_def bit_and_iff bit_not_iff bit_push_bit_iff bit_exp_iff)

lemma open_lines_set: "i < 16 \<Longrightarrow> open_lines (ms OR push_bit i 1) = open_lines ms - {i}"
  by (auto simp: open_lines_def bit_or_iff bit_push_bit_iff bit_exp_iff)

lemma open_lines_none: "open_lines (- 1) = {}"
  by (simp add: open_lines_def)

locale mask_registers =
  fixes p :: "'m port_io" and imr :: "'m \<Rightarrow> u8 \<times> u8"
  assumes read_master: "\<exists>n. port_read p MASTER_DATA m = Done (fst (imr m), n) \<and> imr n = imr m"
    and read_slave: "\<exists>n. port_read p SLAVE_DATA m = Done (snd (imr m), n) \<and> imr n = imr m"
    and write_master: "\<exists>n. port_write p MASTER_DATA v m = Done n \<and> imr n = (v, snd (imr m))"
    and write_slave: "\<exists>n. port_write p SLAVE_DATA v m = Done n \<and> imr n = (fst (imr m), v)"
begin

definition lines :: "'m \<Rightarrow> nat set" where
  "lines m = open_lines (ucast (fst (imr m)) OR push_bit 8 (ucast (snd (imr m))))"

lemma set_masks_lines: "\<exists>n. set_masks p ms m = Some (Done ((), n)) \<and> lines n = open_lines ms"
proof -
  obtain k where k: "port_write p MASTER_DATA (ucast ms) m = Done k" "imr k = (ucast ms, snd (imr m))"
    using write_master by blast
  obtain n where n: "port_write p SLAVE_DATA (ucast (drop_bit 8 ms)) k = Done n"
    "imr n = (fst (imr k), ucast (drop_bit 8 ms))" using write_slave by blast
  have "set_masks p ms m = Some (Done ((), n))"
    using k n by (simp add: set_masks_def outb_def writing_def)
  moreover have "lines n = open_lines ms"
    using k(2) n(2) by (simp add: lines_def masks_halves)
  ultimately show ?thesis by blast
qed

lemma masks_lines: "\<exists>ms n. masks p m = Some (Done (ms, n)) \<and> open_lines ms = lines m \<and> lines n = lines m"
proof -
  obtain k where k: "port_read p MASTER_DATA m = Done (fst (imr m), k)" "imr k = imr m"
    using read_master by blast
  obtain n where n: "port_read p SLAVE_DATA k = Done (snd (imr k), n)" "imr n = imr k"
    using read_slave by blast
  show ?thesis using k n by (simp add: masks_def inb_def reading_def lines_def)
qed

lemma unmask_lines:
  assumes "irq < LINES"
  shows "\<exists>n. pic_unmask p irq m = Some (Done ((), n)) \<and>
    lines n = lines m \<union> {unat irq} \<union> (if 8 \<le> irq then {2} else {})"
proof -
  have i: "unat irq < 16" using assms by (simp add: LINES_def word_less_nat_alt)
  obtain ms k where k: "masks p m = Some (Done (ms, k))" "open_lines ms = lines m"
    using masks_lines by blast
  let ?ms = "if 8 \<le> irq then (ms AND NOT (push_bit (unat irq) 1)) AND NOT (push_bit (unat CASCADE_IRQ) 1)
    else ms AND NOT (push_bit (unat irq) 1)"
  obtain n where n: "set_masks p ?ms k = Some (Done ((), n))" "lines n = open_lines ?ms"
    using set_masks_lines by blast
  have "pic_unmask p irq m = Some (Done ((), n))"
    using k(1) n(1) i by (simp add: pic_unmask_def line_bit_def Let_def cong: if_cong)
  moreover have c: "unat CASCADE_IRQ = 2" "(2::nat) < 16" by (simp_all add: CASCADE_IRQ_def)
  have "open_lines ?ms = lines m \<union> {unat irq} \<union> (if 8 \<le> irq then {2} else {})"
    unfolding c(1) if_distrib [of open_lines] open_lines_clear [OF i] open_lines_clear [OF c(2)] k(2)
    by auto
  ultimately show ?thesis using n(2) by auto
qed

lemma mask_lines:
  assumes "irq < LINES"
  shows "\<exists>n. pic_mask p irq m = Some (Done ((), n)) \<and> lines n = lines m - {unat irq}"
proof -
  have i: "unat irq < 16" using assms by (simp add: LINES_def word_less_nat_alt)
  obtain ms k where k: "masks p m = Some (Done (ms, k))" "open_lines ms = lines m"
    using masks_lines by blast
  obtain n where n: "set_masks p (ms OR push_bit (unat irq) 1) k = Some (Done ((), n))"
    "lines n = open_lines (ms OR push_bit (unat irq) 1)"
    using set_masks_lines by blast
  then show ?thesis using k i open_lines_set [OF i] by (simp add: pic_mask_def line_bit_def)
qed

end

definition pr_imr :: "pic_recorder \<Rightarrow> u8 \<times> u8" where
  "pr_imr m = (or_zero (pr_data m MASTER_DATA), or_zero (pr_data m SLAVE_DATA))"

lemma data_ports_distinct: "MASTER_DATA \<noteq> SLAVE_DATA" "SLAVE_DATA \<noteq> MASTER_DATA"
  by (simp_all add: pic_consts)

interpretation pair: mask_registers recorder_ports pr_imr
  by unfold_locales (auto simp: recorder_ports_def pr_imr_def or_zero_def Let_def data_ports_distinct)

lemma u8_all_ones: "(\<And>n. n < 8 \<Longrightarrow> bit a n) \<Longrightarrow> a = 0xFF" for a :: u8
proof -
  assume "\<And>n. n < 8 \<Longrightarrow> bit a n"
  then have "a = mask 8" by (intro bit_word_eqI) (simp add: bit_simps)
  also have "mask 8 = (0xFF :: u8)" by (simp add: mask_eq_exp_minus_1)
  finally show ?thesis .
qed

lemma pair_remap:
  assumes "32 \<le> base" "base \<le> 255 - LINES"
  shows "\<exists>n. pic_remap recorder_ports base m = Some (Done (base, n)) \<and> pair.lines n = {} \<and>
    pr_writes n = pr_writes m @
      [(MASTER_COMMAND, ICW1_INIT), (SLAVE_COMMAND, ICW1_INIT), (MASTER_DATA, base),
       (SLAVE_DATA, base + 8), (MASTER_DATA, ICW3_MASTER), (SLAVE_DATA, ICW3_SLAVE),
       (MASTER_DATA, ICW4_8086), (SLAVE_DATA, ICW4_8086), (MASTER_DATA, 0xFF), (SLAVE_DATA, 0xFF)] \<and>
    pr_waits n = pr_waits m + 8"
proof -
  have b: "add_run base 8 = Done (base + 8)"
    using assms(2) by (simp add: add_run_Done LINES_def word_le_nat_alt)
  have step: "seq_act (outb recorder_ports port v) f k =
      f (k\<lparr>pr_writes := pr_writes k @ [(port, v)], pr_data :=
        (if port = MASTER_DATA \<or> port = SLAVE_DATA then (pr_data k)(port \<mapsto> v) else pr_data k)\<rparr>)"
    for port v f and k :: pic_recorder
    by (simp add: outb_def writing_def recorder_ports_def)
  have wait: "seq_act (io_wait recorder_ports) f k = f (k\<lparr>pr_waits := pr_waits k + 1\<rparr>)"
    for f and k :: pic_recorder
    by (simp add: io_wait_def writing_def recorder_ports_def)
  obtain k where k: "each_act (concat (map (\<lambda>(port, word). [outb recorder_ports port word, io_wait recorder_ports])
        [(MASTER_COMMAND, ICW1_INIT), (SLAVE_COMMAND, ICW1_INIT),
         (MASTER_DATA, base), (SLAVE_DATA, base + 8),
         (MASTER_DATA, ICW3_MASTER), (SLAVE_DATA, ICW3_SLAVE),
         (MASTER_DATA, ICW4_8086), (SLAVE_DATA, ICW4_8086)])) m = Some (Done ((), k))"
    "pr_writes k = pr_writes m @
      [(MASTER_COMMAND, ICW1_INIT), (SLAVE_COMMAND, ICW1_INIT), (MASTER_DATA, base),
       (SLAVE_DATA, base + 8), (MASTER_DATA, ICW3_MASTER), (SLAVE_DATA, ICW3_SLAVE),
       (MASTER_DATA, ICW4_8086), (SLAVE_DATA, ICW4_8086)]"
    "pr_waits k = pr_waits m + 8"
    by (simp add: step wait)
  obtain n where n: "set_masks recorder_ports (- 1) k = Some (Done ((), n))" "pair.lines n = open_lines (- 1)"
    using pair.set_masks_lines by blast
  have ff: "ucast (- 1 :: u16) = (0xFF :: u8)" "ucast (drop_bit 8 (- 1 :: u16)) = (0xFF :: u8)"
    by (rule u8_all_ones, auto simp: bit_simps)+
  have last: "outb recorder_ports SLAVE_DATA v x =
      Some (Done ((), x\<lparr>pr_writes := pr_writes x @ [(SLAVE_DATA, v)], pr_data := (pr_data x)(SLAVE_DATA \<mapsto> v)\<rparr>))"
    for v and x :: pic_recorder
    by (simp add: outb_def writing_def recorder_ports_def)
  have "pr_writes n = pr_writes k @ [(MASTER_DATA, 0xFF), (SLAVE_DATA, 0xFF)]" "pr_waits n = pr_waits k"
    using n(1) unfolding set_masks_def ff by (auto simp: step last)
  moreover have "pic_remap recorder_ports base m = Some (Done (base, n))"
    using assms b k(1) n(1) by (simp add: pic_remap_def)
  ultimately show ?thesis using k n(2) open_lines_none by auto
qed

lemma remap_panics: "base < 32 \<or> 255 - LINES < base \<Longrightarrow> pic_remap p base m = Some Panic"
  unfolding pic_remap_def seq_assert by (simp only: not_le [symmetric] if_False if_cancel split: if_split) blast

section \<open>Sequences of operations\<close>

datatype pic_op = Unmask u8 | Mask u8 | Mask_All

fun pic_step :: "'m port_io \<Rightarrow> pic_op \<Rightarrow> ('m, unit) act" where
  "pic_step p (Unmask irq) = pic_unmask p irq"
| "pic_step p (Mask irq) = pic_mask p irq"
| "pic_step p Mask_All = pic_mask_all p"

text \<open>What a caller relies on: a set of lines that may be delivered.\<close>

fun line_step :: "pic_op \<Rightarrow> nat set \<Rightarrow> nat set" where
  "line_step (Unmask irq) ls = ls \<union> {unat irq} \<union> (if 8 \<le> irq then {2} else {})"
| "line_step (Mask irq) ls = ls - {unat irq}"
| "line_step Mask_All ls = {}"

fun op_line :: "pic_op \<Rightarrow> u8" where
  "op_line (Unmask irq) = irq"
| "op_line (Mask irq) = irq"
| "op_line Mask_All = 0"

lemma pic_step_lines: "op_line c < LINES \<Longrightarrow>
    \<exists>n. pic_step recorder_ports c m = Some (Done ((), n)) \<and> pair.lines n = line_step c (pair.lines m)"
proof (cases c)
  case Mask_All
  then show ?thesis
    using pair.set_masks_lines [of "- 1" m] open_lines_none by (simp add: pic_mask_all_def)
next
  case (Unmask irq)
  assume "op_line c < LINES"
  then show ?thesis using pair.unmask_lines [of irq m] Unmask by (simp only: pic_step.simps line_step.simps op_line.simps)
next
  case (Mask irq)
  assume "op_line c < LINES"
  then show ?thesis using pair.mask_lines [of irq m] Mask by simp
qed

lemma pic_steps_lines:
  assumes "\<forall>c \<in> set cs. op_line c < LINES"
  shows "\<exists>n. each_act (map (pic_step recorder_ports) cs) m = Some (Done ((), n)) \<and>
    pair.lines n = fold line_step cs (pair.lines m)"
  using assms
proof (induction cs arbitrary: m)
  case (Cons c cs)
  obtain k where k: "pic_step recorder_ports c m = Some (Done ((), k))"
    "pair.lines k = line_step c (pair.lines m)" using pic_step_lines [of c m] Cons.prems by auto
  obtain n where "each_act (map (pic_step recorder_ports) cs) k = Some (Done ((), n))"
    "pair.lines n = fold line_step cs (pair.lines k)" using Cons.IH [of k] Cons.prems by auto
  with k show ?case by simp
qed simp

lemma cascade_stays_open:
  assumes "\<forall>c \<in> set cs. c \<noteq> Mask CASCADE_IRQ" "(\<exists>i \<in> ls. 8 \<le> i) \<longrightarrow> 2 \<in> ls"
  shows "(\<exists>i \<in> fold line_step cs ls. 8 \<le> i) \<longrightarrow> 2 \<in> fold line_step cs ls"
  using assms
proof (induction cs arbitrary: ls)
  case (Cons c cs)
  have "(\<exists>i \<in> line_step c ls. 8 \<le> i) \<longrightarrow> 2 \<in> line_step c ls"
  proof (cases c)
    case (Unmask irq)
    have "8 \<le> irq" if "8 \<le> unat irq" using that by (simp add: word_le_nat_alt)
    with Unmask Cons.prems show ?thesis by auto
  next
    case (Mask irq)
    have "unat irq \<noteq> 2"
    proof
      assume "unat irq = 2"
      then have "irq = CASCADE_IRQ" by (simp add: word_unat_eq_iff CASCADE_IRQ_def)
      with Mask Cons.prems(1) show False by simp
    qed
    with Mask Cons.prems show ?thesis by auto
  qed simp
  with Cons.IH [of "line_step c ls"] Cons.prems(1) show ?case by simp
qed simp



text \<open>Vectors and lines are the same fact: the vector of a line gives that line back, and no other
  vector gives one.\<close>

lemma vectors_roundtrip:
  assumes "base \<le> 255 - LINES"
  shows "irq < LINES \<Longrightarrow> \<exists>v. vector_for base irq = Done v \<and> irq_for base v = Done (Some irq)"
    and "\<exists>r. irq_for base v = Done r \<and> (\<forall>irq. r = Some irq \<longrightarrow> irq < LINES \<and> vector_for base irq = Done v)"
proof -
  have b: "unat base \<le> 239" using assms by (simp add: LINES_def word_le_nat_alt)
  have e: "unat (base + LINES) = unat base + 16"
    using b by (subst unat_add_exact) (simp_all add: LINES_def)
  have add: "add_run base LINES = Done (base + LINES)" using b by (simp add: add_run_Done LINES_def)
  have L: "unat LINES = 16" by (simp add: LINES_def)
  {
    assume "irq < LINES"
    then have i: "unat irq < 16" using L by (simp add: word_less_nat_alt)
    have s: "unat (base + irq) = unat base + unat irq"
      using b i by (subst unat_add_exact) simp_all
    have "vector_for base irq = Done (base + irq)"
      using b i by (simp add: vector_for_def add_run_Done)
    moreover have "irq_for base (base + irq) = Done (Some irq)"
      using s e i add by (simp add: irq_for_def word_le_nat_alt word_less_nat_alt)
    ultimately show "\<exists>v. vector_for base irq = Done v \<and> irq_for base v = Done (Some irq)" by blast
  }
  show "\<exists>r. irq_for base v = Done r \<and> (\<forall>irq. r = Some irq \<longrightarrow> irq < LINES \<and> vector_for base irq = Done v)"
  proof (cases "base \<le> v \<and> v < base + LINES")
    case True
    then have r: "irq_for base v = Done (Some (v - base))" using add by (simp add: irq_for_def)
    have d: "unat (v - base) = unat v - unat base" using True by (simp add: unat_sub)
    have "unat base \<le> unat v" "unat v < unat base + 16"
      using True e by (simp_all add: word_le_nat_alt word_less_nat_alt)
    then have "unat v - unat base < 16" by linarith
    moreover have "unat v < 256" using unat_less_width [of v] by simp
    ultimately show ?thesis using d r True
      by (simp add: vector_for_def add_run_Done word_less_nat_alt L word_le_nat_alt)
  next
    case False
    then show ?thesis using add by (auto simp: irq_for_def)
  qed
qed

end
