(* ===== verification/Timers.thy ===== *)
theory Timers imports Device begin

text \<open>
  The two clocks of the boot: the 8254 of \<open>crates/arch-x86_64/src/pit.rs\<close>, a rate generator with a
  sixteen-bit divisor, and the HPET of \<open>hpet.rs\<close>, a counter that states its own period. Arithmetic
  in \<open>u128\<close> is arithmetic on naturals, since no product here reaches \<open>2 ^ 128\<close>; a cast to \<open>u64\<close>
  truncates.
\<close>

section \<open>The interval timer\<close>

definition CHANNEL0_DATA :: u16 where "CHANNEL0_DATA = 0x40"
definition PIT_COMMAND :: u16 where "PIT_COMMAND = 0x43"
definition BASE_HZ :: u32 where "BASE_HZ = 1193182"
definition CMD_CHANNEL0_RATE_LOHI :: u8 where "CMD_CHANNEL0_RATE_LOHI = 0x34"
definition MAX_DIVISOR :: u32 where "MAX_DIVISOR = 65536"

definition divisor_for :: "u32 \<Rightarrow> u32" where
  "divisor_for hz =
     (if hz = 0 then MAX_DIVISOR
      else let divisor = BASE_HZ div hz in
        if divisor = 0 then 1
        else if MAX_DIVISOR < divisor then MAX_DIVISOR
        else divisor)"

definition hz_for :: "u32 \<Rightarrow> u32" where
  "hz_for divisor = (if divisor = 0 then BASE_HZ div MAX_DIVISOR else BASE_HZ div divisor)"

definition pit_start :: "'m port_io \<Rightarrow> u32 \<Rightarrow> ('m, u32) act" where
  "pit_start p hz =
     (let divisor = divisor_for hz;
          v = (ucast (divisor mod MAX_DIVISOR) :: u16)
      in seq_act (outb p PIT_COMMAND CMD_CHANNEL0_RATE_LOHI)
        (seq_act (outb p CHANNEL0_DATA (ucast v))
        (seq_act (outb p CHANNEL0_DATA (ucast (drop_bit 8 v)))
        (ret (hz_for divisor)))))"

definition pit_stop :: "'m port_io \<Rightarrow> ('m, unit) act" where
  "pit_stop p =
     seq_act (outb p PIT_COMMAND 0x30)
     (seq_act (outb p CHANNEL0_DATA 0) (outb p CHANNEL0_DATA 0))"

lemma unat_pit: "unat BASE_HZ = 1193182" "unat MAX_DIVISOR = 65536"
  by (simp_all add: BASE_HZ_def MAX_DIVISOR_def)

lemma divisor_for_exact:
  "unat (divisor_for hz) =
     (if unat hz = 0 then 65536 else max 1 (min 65536 (1193182 div unat hz)))"
proof (cases "hz = 0")
  case True
  then show ?thesis by (simp add: divisor_for_def unat_pit)
next
  case False
  then have z: "unat hz \<noteq> 0" by (simp add: unat_eq_0)
  have d: "unat (BASE_HZ div hz) = 1193182 div unat hz"
    by (simp add: unat_div_distrib unat_pit)
  have d0: "BASE_HZ div hz = 0 \<longleftrightarrow> 1193182 div unat hz = 0"
    using d by (metis unat_0 unat_eq_zero)
  have dl: "MAX_DIVISOR < BASE_HZ div hz \<longleftrightarrow> 65536 < 1193182 div unat hz"
    using d by (simp add: word_less_nat_alt unat_pit)
  show ?thesis
    unfolding divisor_for_def Let_def
    using False z by (auto simp: d0 dl d unat_pit simp del: div_eq_0_iff)
qed

text \<open>The counter the chip is left with: the two halves of the divisor, low first, where zero is the
  whole range.\<close>

definition pit_count :: "u8 \<Rightarrow> u8 \<Rightarrow> nat" where
  "pit_count lo hi = (let n = unat lo + 256 * unat hi in if n = 0 then 65536 else n)"

definition pit_reload :: "history \<Rightarrow> nat option" where
  "pit_reload h = (case rev h of
     Port_Write q hi # Port_Write r lo # Port_Write c m # rest \<Rightarrow>
       if q = CHANNEL0_DATA \<and> r = CHANNEL0_DATA \<and> c = PIT_COMMAND
       then Some (pit_count lo hi) else None
   | _ \<Rightarrow> None)"

lemma outb_ports: "outb (ports hw) port v h = Some (Done ((), h @ [Port_Write port v]))"
  by (simp add: outb_def writing_def ports_def)

lemma unat_halves: "unat (ucast v :: u8) + 256 * unat (ucast (drop_bit 8 v) :: u8) = unat v" for v :: u16
proof -
  have v: "unat v < 65536" using unat_less_width [of v] by simp
  have "unat (ucast v :: u8) = unat v mod 256" by (simp add: unsigned_ucast_eq take_bit_eq_mod)
  moreover have "unat (ucast (drop_bit 8 v) :: u8) = unat v div 256"
    using v by (simp add: unsigned_ucast_eq take_bit_eq_mod unat_drop_bit_eq drop_bit_eq_div unat_div_distrib)
  ultimately show ?thesis by simp
qed

lemma pit_count_halves:
  "pit_count (ucast v) (ucast (drop_bit 8 v)) = (if unat v = 0 then 65536 else unat v)" for v :: u16
  unfolding pit_count_def unat_halves Let_def by (rule refl)

lemma reload_mod: "1 \<le> n \<Longrightarrow> n \<le> 65536 \<Longrightarrow> (if n mod 65536 = 0 then 65536 else n mod 65536) = (n::nat)"
  by (cases "n = 65536") auto

lemma pit_reload_start:
  "pit_reload (h @ [Port_Write PIT_COMMAND m, Port_Write CHANNEL0_DATA lo, Port_Write CHANNEL0_DATA hi]) =
    Some (pit_count lo hi)"
  by (simp add: pit_reload_def)

text \<open>The interval timer runs at the rate it reports. For any rate asked for, the counter left in
  the chip, with zero standing for the whole range, is the crystal over the rate, between 1 and
  65536 even for a rate of zero or above the crystal, and \<open>start\<close> answers the crystal over that
  counter: at least the rate asked for, whenever the chip is not too fast or too slow for it.\<close>

theorem pit_runs_as_reported:
  "\<exists>r g. pit_start (ports hw) hz h = Some (Done (r, g)) \<and>
    pit_reload g = Some (if unat hz = 0 then 65536 else max 1 (min 65536 (1193182 div unat hz))) \<and>
    (\<exists>n. pit_reload g = Some n \<and> unat r = 1193182 div n \<and>
      (18 < unat hz \<and> unat hz \<le> 1193182 \<longrightarrow> unat hz \<le> unat r))"
proof -
  let ?d = "divisor_for hz"
  let ?n = "if unat hz = 0 then 65536 else max 1 (min 65536 (1193182 div unat hz))"
  let ?v = "ucast (?d mod MAX_DIVISOR) :: u16"
  let ?g = "h @ [Port_Write PIT_COMMAND CMD_CHANNEL0_RATE_LOHI, Port_Write CHANNEL0_DATA (ucast ?v),
    Port_Write CHANNEL0_DATA (ucast (drop_bit 8 ?v))]"
  have run: "pit_start (ports hw) hz h = Some (Done (hz_for ?d, ?g))"
    by (simp add: pit_start_def Let_def outb_ports)
  have d: "unat ?d = ?n" by (rule divisor_for_exact)
  have n: "1 \<le> ?n" "?n \<le> 65536" by auto
  have v: "unat ?v = unat ?d mod 65536"
    by (simp add: unsigned_ucast_eq take_bit_eq_mod unat_mod_distrib unat_pit)
  have "pit_reload ?g = Some (if unat ?v = 0 then 65536 else unat ?v)"
    unfolding pit_reload_start pit_count_halves by (rule refl)
  also have "(if unat ?v = 0 then 65536 else unat ?v) = ?n"
    unfolding v d by (rule reload_mod [OF n])
  finally have g: "pit_reload ?g = Some ?n" .
  have "1 \<le> unat ?d" unfolding d by (rule n(1))
  then have "?d \<noteq> 0" by auto
  then have r: "unat (hz_for ?d) = 1193182 div ?n"
    using d by (simp add: hz_for_def unat_div_distrib unat_pit)
  have "unat hz \<le> 1193182 div ?n" if "18 < unat hz" "unat hz \<le> 1193182"
  proof -
    let ?q = "1193182 div unat hz"
    have "?q \<le> 1193182 div 19" using that(1) by (intro div_le_mono2) auto
    then have "?q \<le> 65536" by simp
    moreover have "1 \<le> ?q" using that by (simp add: Suc_le_eq div_greater_zero_iff)
    ultimately have "?n = ?q" using that(1) by auto
    moreover have "unat hz * ?q \<le> 1193182" by simp
    ultimately show ?thesis using \<open>1 \<le> ?q\<close> by (simp add: less_eq_div_iff_mult_less_eq)
  qed
  with run g r show ?thesis by auto
qed

section \<open>The HPET\<close>

definition REG_CAPABILITIES :: u64 where "REG_CAPABILITIES = 0x000"
definition REG_CONFIG :: u64 where "REG_CONFIG = 0x010"
definition REG_COUNTER :: u64 where "REG_COUNTER = 0x0F0"
definition CONFIG_ENABLE :: u64 where "CONFIG_ENABLE = push_bit 0 1"
definition CONFIG_LEGACY_ROUTING :: u64 where "CONFIG_LEGACY_ROUTING = push_bit 1 1"
definition FEMTOSECONDS_PER_SECOND :: nat where "FEMTOSECONDS_PER_SECOND = 1000000000000000"
definition MAX_PERIOD_FS :: u32 where "MAX_PERIOD_FS = 100000000"

record capabilities =
  cap_period_fs :: u32
  cap_timers :: u8
  cap_counter_64bit :: bool
  cap_vendor :: u16
  cap_revision :: u8

definition caps_from_bits :: "u64 \<Rightarrow> capabilities option" where
  "caps_from_bits bits =
     (let period_fs = ucast (drop_bit 32 bits) in
      if period_fs = 0 \<or> MAX_PERIOD_FS < period_fs then None
      else Some \<lparr>
        cap_period_fs = period_fs,
        cap_timers = ucast (drop_bit 8 bits AND 0x1F) + 1,
        cap_counter_64bit = (bits AND push_bit 13 1 \<noteq> 0),
        cap_vendor = ucast (drop_bit 16 bits),
        cap_revision = ucast bits\<rparr>)"

definition frequency_hz :: "capabilities \<Rightarrow> u64" where
  "frequency_hz c = word_of_nat (FEMTOSECONDS_PER_SECOND div unat (cap_period_fs c))"

definition ticks_to_ns :: "capabilities \<Rightarrow> u64 \<Rightarrow> u64" where
  "ticks_to_ns c ticks = word_of_nat (unat ticks * unat (cap_period_fs c) div 1000000)"

definition ns_to_ticks :: "capabilities \<Rightarrow> u64 \<Rightarrow> u64" where
  "ns_to_ticks c ns = word_of_nat (unat ns * 1000000 div unat (cap_period_fs c))"

definition hpet_new :: "'m mmio64 \<Rightarrow> ('m, capabilities option) act" where
  "hpet_new d = bind_act (rd64 d REG_CAPABILITIES) (\<lambda>bits. ret (caps_from_bits bits))"

definition hpet_start :: "'m mmio64 \<Rightarrow> ('m, unit) act" where
  "hpet_start d =
     bind_act (rd64 d REG_CONFIG) (\<lambda>config.
     wr64 d REG_CONFIG ((config AND NOT CONFIG_LEGACY_ROUTING) OR CONFIG_ENABLE))"

definition hpet_stop :: "'m mmio64 \<Rightarrow> ('m, unit) act" where
  "hpet_stop d =
     bind_act (rd64 d REG_CONFIG) (\<lambda>config. wr64 d REG_CONFIG (config AND NOT CONFIG_ENABLE))"

definition hpet_is_running :: "'m mmio64 \<Rightarrow> ('m, bool) act" where
  "hpet_is_running d = bind_act (rd64 d REG_CONFIG) (\<lambda>v. ret (v AND CONFIG_ENABLE \<noteq> 0))"

definition hpet_now :: "'m mmio64 \<Rightarrow> ('m, u64) act" where
  "hpet_now d = rd64 d REG_COUNTER"

definition elapsed :: "capabilities \<Rightarrow> u64 \<Rightarrow> u64 \<Rightarrow> u64" where
  "elapsed c from_t to_t =
     (if cap_counter_64bit c then to_t - from_t
      else ucast (ucast to_t - ucast from_t :: u32))"

definition elapsed_ns :: "capabilities \<Rightarrow> u64 \<Rightarrow> u64 \<Rightarrow> u64" where
  "elapsed_ns c from_t to_t = ticks_to_ns c (elapsed c from_t to_t)"

partial_function (option) spin_until ::
  "'m mmio64 \<Rightarrow> capabilities \<Rightarrow> u64 \<Rightarrow> u64 \<Rightarrow> ('m, unit) act" where
  "spin_until d c start target m =
     (case hpet_now d m of
        None \<Rightarrow> None
      | Some Panic \<Rightarrow> Some Panic
      | Some (Done (now, n)) \<Rightarrow>
          if target \<le> elapsed c start now then Some (Done ((), n))
          else spin_until d c start target n)"

definition spin_ns :: "'m mmio64 \<Rightarrow> capabilities \<Rightarrow> u64 \<Rightarrow> ('m, unit) act" where
  "spin_ns d c ns =
     bind_act (hpet_now d) (\<lambda>start. spin_until d c start (ns_to_ticks c ns))"

subsection \<open>Differences\<close>

definition counter_width :: "capabilities \<Rightarrow> nat" where
  "counter_width c = (if cap_counter_64bit c then 64 else 32)"

definition counter_shows :: "capabilities \<Rightarrow> nat \<Rightarrow> u64" where
  "counter_shows c n = word_of_nat (n mod 2 ^ counter_width c)"

lemma unat_word_of_nat_mod: "unat (word_of_nat n :: 'a::len word) = n mod 2 ^ LENGTH('a)"
  by (simp add: unsigned_of_nat take_bit_eq_mod)

lemma sub_mod_exact:
  assumes "(a::nat) \<le> b" "b - a < W"
  shows "(b mod W + (W - a mod W)) mod W = b - a"
proof -
  have W: "0 < W" using assms(2) by linarith
  have m: "a mod W < W" using W by simp
  have "(b mod W + (W - a mod W)) mod W = (b + (W - a mod W)) mod W" by (simp add: mod_add_left_eq)
  also have "b + (W - a mod W) = (b - a) + W + W * (a div W)"
    using assms(1) m mult_div_mod_eq [of W a] by linarith
  also have "\<dots> mod W = (b - a) mod W" by simp
  finally show ?thesis using assms(2) by simp
qed

lemma unat_sub_mod: "unat (x - y) = (unat x + (2 ^ LENGTH('a) - unat y)) mod 2 ^ LENGTH('a)"
  for x y :: "'a::len word"
proof -
  have y: "unat y \<le> 2 ^ LENGTH('a)" using unat_less_width [of y] by (rule less_imp_le)
  show ?thesis
  proof (cases "unat y \<le> unat x")
    case True
    then have "unat (x - y) = unat x - unat y" by (simp add: unat_sub word_le_nat_alt)
    moreover have "unat x + (2 ^ LENGTH('a) - unat y) = 2 ^ LENGTH('a) + (unat x - unat y)"
      using True y by linarith
    moreover have "unat x - unat y < 2 ^ LENGTH('a)"
      using unat_less_width [of x] by linarith
    ultimately show ?thesis by simp
  next
    case False
    then have "unat (x - y) = 2 ^ LENGTH('a) + unat x - unat y"
      by (simp add: unat_sub_if')
    moreover have "2 ^ LENGTH('a) + unat x - unat y < 2 ^ LENGTH('a)" using False y by linarith
    ultimately show ?thesis using y by simp
  qed
qed

text \<open>The time between two readings of the counter is right however often it wrapped in uptime.
  If the hardware's true counts at the readings are \<open>a\<close> and \<open>b\<close>, and less than one whole range of the
  counter lies between them, \<open>elapsed\<close> of what a 64-bit or a 32-bit counter shows is their difference
  and \<open>elapsed_ns\<close> is the whole nanoseconds in it.\<close>

theorem elapsed_exact:
  assumes "a \<le> b" "b - a < 2 ^ counter_width c"
  shows "unat (elapsed c (counter_shows c a) (counter_shows c b)) = b - a \<and>
    unat (elapsed_ns c (counter_shows c a) (counter_shows c b)) = (b - a) * unat (cap_period_fs c) div 1000000 mod 2 ^ 64"
proof -
  have e: "unat (elapsed c (counter_shows c a) (counter_shows c b)) = b - a"
  proof (cases "cap_counter_64bit c")
    case True
    then have "unat (elapsed c (counter_shows c a) (counter_shows c b)) = (b mod 2 ^ 64 + (2 ^ 64 - a mod 2 ^ 64)) mod 2 ^ 64"
      by (simp add: elapsed_def counter_shows_def counter_width_def unat_sub_mod unat_word_of_nat_mod)
    then show ?thesis using assms(1,2) True sub_mod_exact [of a b "2 ^ 64"]
      by (simp only: counter_width_def if_True)
  next
    case False
    have u: "unat (ucast (counter_shows c n) :: u32) = n mod 2 ^ 32" for n
      using False by (simp add: counter_shows_def counter_width_def unsigned_ucast_eq take_bit_eq_mod
        unat_word_of_nat_mod mod_mod_cancel)
    have "unat (elapsed c (counter_shows c a) (counter_shows c b)) = unat (ucast (counter_shows c b) - ucast (counter_shows c a) :: u32)"
      using False unat_less_width [of "ucast (counter_shows c b) - ucast (counter_shows c a) :: u32"]
      by (simp add: elapsed_def unsigned_ucast_eq take_bit_nat_eq_self)
    also have "\<dots> = (b mod 2 ^ 32 + (2 ^ 32 - a mod 2 ^ 32)) mod 2 ^ 32"
      by (simp only: unat_sub_mod u len_of_numeral_defs) simp
    finally show ?thesis using assms(1,2) False sub_mod_exact [of a b "2 ^ 32"]
      by (simp only: counter_width_def if_False)
  qed
  then show ?thesis by (simp add: elapsed_ns_def ticks_to_ns_def unat_word_of_nat_mod)
qed

text \<open>A counter of 32 bits at 100 MHz, read either side of its first wrap.\<close>

definition narrow_caps :: capabilities where
  "narrow_caps = \<lparr>cap_period_fs = 10000000, cap_timers = 3, cap_counter_64bit = False,
     cap_vendor = 0, cap_revision = 1\<rparr>"

theorem elapsed_exact_witness:
  "unat (elapsed narrow_caps (counter_shows narrow_caps 0xFFFFFF00)
     (counter_shows narrow_caps 0x100000100)) = 0x200"
proof -
  have "(0xFFFFFF00 :: nat) \<le> 0x100000100" by simp
  moreover have "(0x100000100 :: nat) - 0xFFFFFF00 < 2 ^ counter_width narrow_caps"
    by (simp add: counter_width_def narrow_caps_def)
  ultimately show ?thesis
    using elapsed_exact [of "0xFFFFFF00" "0x100000100" narrow_caps] by simp
qed

subsection \<open>Waiting\<close>

lemma caps_period: "caps_from_bits bits = Some c \<Longrightarrow> 0 < unat (cap_period_fs c) \<and> unat (cap_period_fs c) \<le> 100000000"
  by (auto simp: caps_from_bits_def Let_def MAX_PERIOD_FS_def word_le_nat_alt unat_gt_0 not_less
    split: if_splits)

lemma rd64_mapped: "is_multiple_of offset 8 \<Longrightarrow> rd64 (mapped64 hw base) offset h =
    Some (Done (answer64 hw h (base + offset),
      h @ [Mmio_Read64 (base + offset) (answer64 hw h (base + offset))]))"
  by (simp add: rd64_def reading_def mapped64_def Let_def)

lemma hpet_now_mapped: "hpet_now (mapped64 hw base) h =
    Some (Done (answer64 hw h (base + REG_COUNTER),
      h @ [Mmio_Read64 (base + REG_COUNTER) (answer64 hw h (base + REG_COUNTER))]))"
  by (simp add: hpet_now_def rd64_mapped is_multiple_of_dvd REG_COUNTER_def)

lemma spin_until_waits:
  assumes "spin_until (mapped64 hw base) c start target h = Some (Done ((), g))"
  shows "\<exists>t v. g = h @ t @ [Mmio_Read64 (base + REG_COUNTER) v] \<and> target \<le> elapsed c start v"
proof -
  let ?P = "\<lambda>d x s t h w. d = mapped64 hw base \<longrightarrow> x = c \<longrightarrow> s = start \<longrightarrow> t = target \<longrightarrow>
    (\<forall>g. w = Done ((), g) \<longrightarrow>
      (\<exists>t v. g = h @ t @ [Mmio_Read64 (base + REG_COUNTER) v] \<and> target \<le> elapsed c start v))"
  have "?P (mapped64 hw base) c start target h (Done ((), g))"
  proof (rule spin_until.raw_induct [where P = ?P, OF _ assms], intro impI allI)
    fix spin :: "history mmio64 \<Rightarrow> capabilities \<Rightarrow> u64 \<Rightarrow> u64 \<Rightarrow> (history, unit) act"
      and d x s t h w g
    assume IH: "\<And>d x s t h w. spin d x s t h = Some w \<Longrightarrow> ?P d x s t h w"
      and step: "(case hpet_now d h of None \<Rightarrow> None | Some Panic \<Rightarrow> Some Panic
        | Some (Done (now, n)) \<Rightarrow>
          if t \<le> elapsed x s now then Some (Done ((), n)) else spin d x s t n) = Some w"
      and eqs: "d = mapped64 hw base" "x = c" "s = start" "t = target" and w: "w = Done ((), g)"
    let ?v = "answer64 hw h (base + REG_COUNTER)"
    let ?n = "h @ [Mmio_Read64 (base + REG_COUNTER) ?v]"
    have now: "hpet_now d h = Some (Done (?v, ?n))" using eqs(1) hpet_now_mapped by simp
    show "\<exists>t v. g = h @ t @ [Mmio_Read64 (base + REG_COUNTER) v] \<and> target \<le> elapsed c start v"
    proof (cases "target \<le> elapsed c start ?v")
      case True
      with step now eqs w have "g = ?n" by simp
      with True show ?thesis by (intro exI [of _ "[]"] exI [of _ ?v]) simp
    next
      case False
      with step now eqs have "spin d x s t ?n = Some w" by simp
      from IH [OF this] eqs w obtain u v where
        "g = ?n @ u @ [Mmio_Read64 (base + REG_COUNTER) v]" "target \<le> elapsed c start v" by blast
      then show ?thesis
        by (intro exI [of _ "Mmio_Read64 (base + REG_COUNTER) ?v # u"] exI [of _ v]) simp
    qed
  qed
  then show ?thesis by simp
qed

text \<open>C39: a wait is never short by more than a tick. If \<open>spin_ns\<close> returns, on an HPET whose
  capabilities decoded and for a time its tick count can express, then between the first reading of
  the counter and the last the counter advanced so far that one tick more would exceed the time asked
  for; and a wait for a whole number of ticks is never short at all.\<close>

theorem spin_waits_long_enough:
  assumes "caps_from_bits bits = Some c" "unat ns * 1000000 div unat (cap_period_fs c) < 2 ^ 64"
    and "spin_ns (mapped64 hw base) c ns h = Some (Done ((), g))"
  shows "\<exists>s e t. g = h @ [Mmio_Read64 (base + REG_COUNTER) s] @ t @ [Mmio_Read64 (base + REG_COUNTER) e] \<and>
    unat ns * 1000000 < (unat (elapsed c s e) + 1) * unat (cap_period_fs c) \<and>
    (unat (cap_period_fs c) dvd unat ns * 1000000 \<longrightarrow>
      unat ns * 1000000 \<le> unat (elapsed c s e) * unat (cap_period_fs c))"
proof -
  let ?p = "unat (cap_period_fs c)"
  let ?s = "answer64 hw h (base + REG_COUNTER)"
  have p: "0 < ?p" using caps_period [OF assms(1)] by simp
  have "spin_until (mapped64 hw base) c ?s (ns_to_ticks c ns)
      (h @ [Mmio_Read64 (base + REG_COUNTER) ?s]) = Some (Done ((), g))"
    using assms(3) by (simp add: spin_ns_def hpet_now_mapped)
  from spin_until_waits [OF this] obtain t e where t:
    "g = (h @ [Mmio_Read64 (base + REG_COUNTER) ?s]) @ t @ [Mmio_Read64 (base + REG_COUNTER) e]"
    "ns_to_ticks c ns \<le> elapsed c ?s e" by blast
  have "unat (ns_to_ticks c ns) = unat ns * 1000000 div ?p"
    using assms(2) by (simp add: ns_to_ticks_def unat_word_of_nat_small)
  then have q: "unat ns * 1000000 div ?p \<le> unat (elapsed c ?s e)"
    using t(2) by (simp add: word_le_nat_alt)
  have "unat ns * 1000000 < (unat ns * 1000000 div ?p + 1) * ?p"
    using dividend_less_times_div [OF p, of "unat ns * 1000000"] by (simp add: algebra_simps)
  also have "\<dots> \<le> (unat (elapsed c ?s e) + 1) * ?p" using q by (intro mult_le_mono1) simp
  finally have lt: "unat ns * 1000000 < (unat (elapsed c ?s e) + 1) * ?p" .
  have "unat ns * 1000000 \<le> unat (elapsed c ?s e) * ?p" if "?p dvd unat ns * 1000000"
    using mult_le_mono1 [OF q, of ?p] that by simp
  with t(1) lt show ?thesis by auto
qed

lemma narrow_elapsed: "\<not> cap_counter_64bit c \<Longrightarrow> unat (elapsed c s e) < 2 ^ 32"
  using unat_less_width [of "ucast e - ucast s :: u32"]
  by (simp add: elapsed_def unsigned_ucast_eq take_bit_nat_eq_self)

text \<open>On a 32-bit counter a wait of a whole range or more never ends. If the ticks asked for do not
  fit in 32 bits, no reading ever reaches them, whatever the hardware shows, and \<open>spin_ns\<close> never
  returns: the wrap is tolerated in a difference, not in the target.\<close>

theorem spin_past_wrap_never_ends:
  assumes "\<not> cap_counter_64bit c"
    and "2 ^ 32 \<le> unat ns * 1000000 div unat (cap_period_fs c)"
    and "unat ns * 1000000 div unat (cap_period_fs c) < 2 ^ 64"
  shows "spin_ns (mapped64 hw base) c ns h = None"
proof -
  let ?t = "ns_to_ticks c ns"
  let ?s = "answer64 hw h (base + REG_COUNTER)"
  have t: "2 ^ 32 \<le> unat ?t" using assms(2,3) by (simp add: ns_to_ticks_def unat_word_of_nat_small)
  note el = narrow_elapsed [OF assms(1)]
  have short: "\<not> ?t \<le> elapsed c ?s e" for e
    using el [of ?s e] t by (simp only: word_le_nat_alt)
  have "spin_until (mapped64 hw base) c ?s ?t k = None" for k
  proof (cases "spin_until (mapped64 hw base) c ?s ?t k")
    case (Some w)
    let ?P = "\<lambda>d x s t h w. d = mapped64 hw base \<longrightarrow> x = c \<longrightarrow> s = ?s \<longrightarrow> t = ?t \<longrightarrow> False"
    have "?P (mapped64 hw base) c ?s ?t k w"
      by (rule spin_until.raw_induct [where P = ?P, OF _ Some])
        (auto simp: hpet_now_mapped short, blast)
    then show ?thesis by simp
  qed simp
  then show ?thesis by (simp add: spin_ns_def hpet_now_mapped)
qed

theorem spin_past_wrap_never_ends_witness:
  "spin_ns (mapped64 \<lparr>answer32 = (\<lambda>h a. 0), answer64 = (\<lambda>h a. word_of_nat (length h)),
     answer_port = (\<lambda>h p. 0), answer_msr = (\<lambda>h r. 0), answer_cr4 = (\<lambda>h. 0)\<rparr> 0) narrow_caps 60000000000 [] = None"
  by (rule spin_past_wrap_never_ends) (simp_all add: narrow_caps_def)

text \<open>A counter that reads a hundred more each time, and the capabilities of a 100 MHz block.\<close>

definition counting :: machine where
  "counting = \<lparr>answer32 = (\<lambda>h a. 0), answer64 = (\<lambda>h a. word_of_nat (100 * length h)),
     answer_port = (\<lambda>h p. 0), answer_msr = (\<lambda>h r. 0), answer_cr4 = (\<lambda>h. 0)\<rparr>"

definition wide_caps :: capabilities where
  "wide_caps = \<lparr>cap_period_fs = 10000000, cap_timers = 3, cap_counter_64bit = True,
     cap_vendor = 0, cap_revision = 1\<rparr>"

lemma wide_caps_decoded: "caps_from_bits 0x0098968000002201 = Some wide_caps"
  by code_simp

lemma counting_spins: "spin_ns (mapped64 counting 0) wide_caps 1000 [] =
    Some (Done ((), [Mmio_Read64 REG_COUNTER 0, Mmio_Read64 REG_COUNTER 100]))"
proof -
  have "ns_to_ticks wide_caps 1000 = 100" by (simp add: ns_to_ticks_def wide_caps_def)
  then show ?thesis
    by (simp add: spin_ns_def hpet_now_mapped)
      (subst spin_until.simps, simp add: hpet_now_mapped counting_def elapsed_def wide_caps_def)
qed

theorem spin_waits_long_enough_witness:
  "\<exists>s e t. [Mmio_Read64 REG_COUNTER 0, Mmio_Read64 REG_COUNTER 100] =
      [Mmio_Read64 REG_COUNTER s] @ t @ [Mmio_Read64 REG_COUNTER e] \<and>
    1000000000 \<le> unat (elapsed wide_caps s e) * 10000000"
proof -
  have "unat (1000 :: u64) * 1000000 div unat (cap_period_fs wide_caps) < 2 ^ 64"
    by (simp add: wide_caps_def)
  from spin_waits_long_enough [OF wide_caps_decoded this counting_spins]
  show ?thesis by (simp add: wide_caps_def)
qed

end
