(* ===== verification/Vm.thy ===== *)
theory Vm imports PageTree BootInfo Device begin

text \<open>
  The kernel's own tree, \<open>crates/kernel/src/vm.rs\<close>: building it from the linear map and the sections of
  the image, walking it before it is loaded, the window devices are mapped in, and the one identity
  mapping a waking core needs. The linker's symbols, the address of the code that does the switch and
  of its stack are arguments. \<open>vm_phys\<close> is the memory the tables live in and the frames the allocator
  will hand out; the processor's registers are on the history.
\<close>

section \<open>State\<close>

record vm =
  vm_phys :: phys
  vm_device_next :: u64
  vm_log :: history

definition vm_cpu :: "(history, 'a) act \<Rightarrow> (vm, 'a) act" where
  "vm_cpu f = on_part vm_log (\<lambda>h s. s\<lparr>vm_log := h\<rparr>) f"

text \<open>A call of the mapper, whose failure is the caller's.\<close>

datatype vm_error =
    MapFailed map_error
  | DeviceWindowFull
  | SwitchCodeUnmapped
  | TextNoExecute
  | TextWritable
  | StackNotWritable
  | LinearMapMissing
  | FramebufferUnmapped
  | RodataUnmapped
  | RodataWritableOrExecutable
  | DataUnmapped
  | DataExecutable
  | ZeroMapped
  | GuardMapped

definition vm_map :: "(phys \<Rightarrow> (map_error + 'a) \<times> phys) \<Rightarrow> (vm, vm_error + 'a) act" where
  "vm_map f = (\<lambda>s. case f (vm_phys s) of
     (Inl e, p) \<Rightarrow> Some (Done (Inl (MapFailed e), s\<lparr>vm_phys := p\<rparr>))
   | (Inr a, p) \<Rightarrow> Some (Done (Inr a, s\<lparr>vm_phys := p\<rparr>)))"

definition next_multiple :: "u64 \<Rightarrow> u64 \<Rightarrow> u64 run" where
  "next_multiple a b = (case checked_next_multiple_of a b of None \<Rightarrow> Panic | Some c \<Rightarrow> Done c)"

definition each_page :: "(u64 \<Rightarrow> (vm, unit) act) \<Rightarrow> u64 \<Rightarrow> u64 \<Rightarrow> (vm, unit) act" where
  "each_page f base span =
     each_act (map (\<lambda>i. f (base + word_of_nat (4096 * i))) [0..<unat span div 4096])"

record kernel_tables =
  tb_root :: u64
  tb_linear_bytes :: u64
  tb_gib_pages :: bool
  tb_smep :: bool
  tb_smap :: bool

section \<open>Device and identity mappings\<close>

definition DEVICE_BASE :: u64 where "DEVICE_BASE = 0xFFFF900000000000"
definition DEVICE_WINDOW :: u64 where "DEVICE_WINDOW = 0x40000000"
definition MIN_LINEAR :: u64 where "MIN_LINEAR = 4 * SIZE_1G"

definition map_identity :: "kernel_tables \<Rightarrow> u64 \<Rightarrow> u64 \<Rightarrow> rights \<Rightarrow> (vm, vm_error + unit) act" where
  "map_identity tb phys len r =
     bind_act (of_run (next_multiple len PAGE_SIZE)) (\<lambda>span.
     try_sum (vm_map (map_normal (tb_gib_pages tb) (tb_root tb) phys phys span r)) (\<lambda>u.
     seq_act (each_page (\<lambda>v. vm_cpu (invlpg v)) phys span) (ret (Inr ()))))"

definition unmap_page :: "kernel_tables \<Rightarrow> u64 \<Rightarrow> (vm, unit) act" where
  "unmap_page tb v =
     seq_act (\<lambda>s. Some (Done ((), s\<lparr>vm_phys := snd (unmap (tb_root tb) v (vm_phys s))\<rparr>)))
     (vm_cpu (invlpg v))"

definition unmap_identity :: "kernel_tables \<Rightarrow> u64 \<Rightarrow> u64 \<Rightarrow> (vm, unit) act" where
  "unmap_identity tb phys len =
     bind_act (of_run (next_multiple len PAGE_SIZE)) (\<lambda>span. each_page (unmap_page tb) phys span)"

definition vm_map_device :: "kernel_tables \<Rightarrow> u64 \<Rightarrow> u64 \<Rightarrow> (vm, vm_error + u64) act" where
  "vm_map_device tb phys len =
     (let offset = phys AND (PAGE_SIZE - 1); base = phys - offset in
      bind_act (of_run (add_run len offset)) (\<lambda>sum.
      bind_act (of_run (next_multiple sum PAGE_SIZE)) (\<lambda>span.
      bind_act (\<lambda>s. Some (Done (vm_device_next s, s\<lparr>vm_device_next := vm_device_next s + span\<rparr>))) (\<lambda>at.
      bind_act (of_run (add_run at span)) (\<lambda>e.
      if DEVICE_WINDOW < e then ret (Inl DeviceWindowFull)
      else bind_act (of_run (add_run DEVICE_BASE at)) (\<lambda>virt.
        try_sum (vm_map (map_device (tb_gib_pages tb) (tb_root tb) virt base span RW)) (\<lambda>u.
        seq_act (each_page (\<lambda>v. vm_cpu (invlpg v)) virt span)
        (bind_act (of_run (add_run virt offset)) (\<lambda>r. ret (Inr r))))))))))"

section \<open>Building the kernel's tree\<close>

record kernel_image =
  text_start :: u64
  text_end :: u64
  rodata_start :: u64
  rodata_end :: u64
  data_start :: u64
  bss_end :: u64
  stack_guard :: u64
  stack_bottom :: u64
  stack_top :: u64
  switch_code :: u64
  switch_stack :: u64

record features =
  has_smep :: bool
  has_smap :: bool
  has_gib_pages :: bool

definition place_section :: "kernel_image \<Rightarrow> bool \<Rightarrow> u64 \<Rightarrow> u64 \<Rightarrow> u64 \<Rightarrow> u64 \<Rightarrow> rights \<Rightarrow> (vm, vm_error + unit) act" where
  "place_section im gib root kernel_phys from_v to_v r =
     (if to_v \<le> from_v then ret (Inr ())
      else bind_act (of_run (sub_run from_v (text_start im))) (\<lambda>off.
        bind_act (of_run (add_run kernel_phys off)) (\<lambda>phys.
        bind_act (of_run (sub_run to_v from_v)) (\<lambda>len.
        vm_map (map_normal gib root from_v phys len r)))))"

text \<open>The framebuffer, when the linear map does not reach its end.\<close>

definition place_framebuffer :: "bool \<Rightarrow> u64 \<Rightarrow> u64 \<Rightarrow> framebuffer option \<Rightarrow> (vm, vm_error + unit) act" where
  "place_framebuffer gib root linear_bytes fb =
     (case fb of
        None \<Rightarrow> ret (Inr ())
      | Some f \<Rightarrow>
          let e = saturating_add (fb_phys f) (framebuffer_bytes f) in
          if linear_bytes < e then
            let base = fb_phys f AND NOT (PAGE_SIZE - 1) in
            bind_act (of_run (sub_run e base)) (\<lambda>raw.
            bind_act (of_run (next_multiple raw PAGE_SIZE)) (\<lambda>len.
            bind_act (of_run (add_run PHYS_MAP_BASE base)) (\<lambda>virt.
            vm_map (map_normal gib root virt base len RW))))
          else ret (Inr ()))"

definition writable_at :: "u64 \<Rightarrow> u64 \<Rightarrow> phys \<Rightarrow> bool" where
  "writable_at root v p = (case translate root v p of None \<Rightarrow> False | Some t \<Rightarrow> r_write (t_rights t))"

definition verify :: "kernel_image \<Rightarrow> u64 \<Rightarrow> framebuffer option \<Rightarrow> (vm, vm_error + unit) act" where
  "verify im root fb = (\<lambda>s.
     let look = (\<lambda>v. translate root v (vm_phys s)); say = (\<lambda>r. Some (Done (r, s))) in
     case look (switch_code im) of
       None \<Rightarrow> say (Inl SwitchCodeUnmapped)
     | Some text \<Rightarrow>
       if \<not> r_exec (t_rights text) then say (Inl TextNoExecute)
       else if r_write (t_rights text) then say (Inl TextWritable)
       else if \<not> writable_at root (switch_stack im) (vm_phys s) then say (Inl StackNotWritable)
       else if \<not> writable_at root PHYS_MAP_BASE (vm_phys s) then say (Inl LinearMapMissing)
       else bind_act (case fb of
           None \<Rightarrow> ret (Inr ())
         | Some f \<Rightarrow>
             bind_act (of_run (add_run (fb_phys f) (framebuffer_bytes f))) (\<lambda>e.
             bind_act (of_run (sub_run e 1)) (\<lambda>l.
             ret (if writable_at root (phys_to_virt l) (vm_phys s) then Inr () else Inl FramebufferUnmapped))))
         (\<lambda>r. case r of
           Inl e \<Rightarrow> ret (Inl e)
         | Inr u \<Rightarrow>
           if rodata_start im < rodata_end im \<and> look (rodata_start im) = None then ret (Inl RodataUnmapped)
           else if rodata_start im < rodata_end im \<and>
             (r_write (t_rights (the (look (rodata_start im)))) \<or>
              r_exec (t_rights (the (look (rodata_start im)))))
           then ret (Inl RodataWritableOrExecutable)
           else (case look (data_start im) of
               None \<Rightarrow> ret (Inl DataUnmapped)
             | Some data \<Rightarrow>
                 if r_exec (t_rights data) then ret (Inl DataExecutable)
                 else if look 0 \<noteq> None then ret (Inl ZeroMapped)
                 else if look (stack_guard im) \<noteq> None then ret (Inl GuardMapped)
                 else ret (Inr ()))) s)"

definition CR4_SMEP :: u64 where "CR4_SMEP = push_bit 20 1"
definition CR4_SMAP :: u64 where "CR4_SMAP = push_bit 21 1"

text \<open>The sections, in the order \<open>init\<close> places them, then the framebuffer.\<close>

definition place_image :: "kernel_image \<Rightarrow> bool \<Rightarrow> u64 \<Rightarrow> u64 \<Rightarrow> (vm, vm_error + unit) act" where
  "place_image im gib root kernel_phys =
     try_sum (place_section im gib root kernel_phys (text_start im) (text_end im) RX) (\<lambda>u.
     try_sum (place_section im gib root kernel_phys (rodata_start im) (rodata_end im) RO) (\<lambda>u.
     try_sum (place_section im gib root kernel_phys (data_start im) (bss_end im) RW) (\<lambda>u.
     place_section im gib root kernel_phys (stack_bottom im) (stack_top im) RW)))"

text \<open>The switch: from here the loader's tables are gone.\<close>

definition load_tree :: "machine \<Rightarrow> features \<Rightarrow> u64 \<Rightarrow> u64 \<Rightarrow> (vm, kernel_tables) act" where
  "load_tree hw ft root linear_bytes =
     seq_act (vm_cpu (write_cr3 root))
     (bind_act (vm_cpu (read_cr4 hw)) (\<lambda>cr4.
      let cr4 = (if has_smep ft then cr4 OR CR4_SMEP else cr4);
          cr4 = (if has_smap ft then cr4 OR CR4_SMAP else cr4)
      in seq_act (vm_cpu (write_cr4 cr4))
        (bind_act (vm_cpu (read_cr4 hw)) (\<lambda>cr4.
         ret \<lparr>tb_root = root, tb_linear_bytes = linear_bytes, tb_gib_pages = has_gib_pages ft,
           tb_smep = (cr4 AND CR4_SMEP \<noteq> 0), tb_smap = (cr4 AND CR4_SMAP \<noteq> 0)\<rparr>))))"

definition vm_init ::
  "machine \<Rightarrow> kernel_image \<Rightarrow> features \<Rightarrow> u64 \<Rightarrow> u64 \<Rightarrow> framebuffer option \<Rightarrow> (vm, vm_error + kernel_tables) act" where
  "vm_init hw im ft kernel_phys highest_ram fb =
     (let gib = has_gib_pages ft in
      try_sum (vm_map mapper_new) (\<lambda>root.
      bind_act (of_run (next_multiple (max highest_ram MIN_LINEAR) SIZE_1G)) (\<lambda>linear_bytes.
      try_sum (vm_map (map_normal gib root PHYS_MAP_BASE 0 linear_bytes RW)) (\<lambda>u.
      try_sum (place_image im gib root kernel_phys) (\<lambda>u.
      try_sum (place_framebuffer gib root linear_bytes fb) (\<lambda>u.
      try_sum (verify im root fb) (\<lambda>u.
      bind_act (load_tree hw ft root linear_bytes) (\<lambda>tb. ret (Inr tb)))))))))"

end
