(* ===== verification/VmProps.thy ===== *)
theory VmProps imports Vm begin

text \<open>
  The kernel's tree is exactly its layout: the regions mapped, last first, and nothing else. A map of
  a region adds it to what the tree shows (\<open>shows_layout\<close>), so the tree \<open>vm_init\<close> loads shows the linear
  map, the sections and the framebuffer. Then the switch to it, the device window and the identity
  mapping.
\<close>

section \<open>Layouts\<close>

type_synonym region = "u64 \<times> u64 \<times> u64 \<times> rights"

fun in_region :: "u64 \<Rightarrow> region \<Rightarrow> bool" where
  "in_region v (virt, phys, sz, r) \<longleftrightarrow> low virt \<le> low v \<and> low v < low virt + unat sz"

definition shown :: "region list \<Rightarrow> u64 \<Rightarrow> translation option \<Rightarrow> bool" where
  "shown rs v x \<longleftrightarrow> (case find (in_region v) rs of
     None \<Rightarrow> x = None
   | Some (virt, phys, sz, r) \<Rightarrow> mapped_as virt phys r NormalMemory v x)"

definition shows_layout :: "u64 \<Rightarrow> phys \<Rightarrow> region list \<Rightarrow> bool" where
  "shows_layout root m rs \<longleftrightarrow> space_ok m root \<and> (\<forall>v. shown rs v (translate root v m))"

fun region_ok :: "region \<Rightarrow> bool" where
  "region_ok (virt, phys, sz, r) \<longleftrightarrow> low virt + unat sz \<le> 2 ^ 48 \<and> unat phys + unat sz \<le> 2 ^ 52"

lemma map_region:
  assumes "shows_layout root m rs" "region_ok (virt, phys, sz, r)"
    and "map_normal gib root virt phys sz r m = (Inr (), m')"
  shows "shows_layout root m' ((virt, phys, sz, r) # rs)"
proof -
  have m: "map_as gib root virt phys sz r NormalMemory m = (Inr (), m')"
    using assms(3) by (simp add: map_normal_def)
  have b: "space_ok m root" "low virt + unat sz \<le> 2 ^ 48" "unat phys + unat sz \<le> 2 ^ 52"
    using assms by (simp_all add: shows_layout_def)
  note e = map_as_effect [OF b m]
  have "space_ok m' root" using e by blast
  moreover have "shown ((virt, phys, sz, r) # rs) v (translate root v m')" for v
  proof (cases "in_region v (virt, phys, sz, r)")
    case True
    then show ?thesis using e [of v] by (simp add: shown_def)
  next
    case False
    then have "translate root v m' = translate root v m" using e [of v] by simp
    with assms(1) have "shown rs v (translate root v m')" by (simp add: shows_layout_def)
    with False show ?thesis by (simp only: shown_def find.simps if_False)
  qed
  ultimately show ?thesis by (simp add: shows_layout_def)
qed

lemma shown_rights: "shown rs v (Some t) \<Longrightarrow> \<exists>reg \<in> set rs. in_region v reg \<and> t_rights t = snd (snd (snd reg))"
proof -
  assume s: "shown rs v (Some t)"
  show ?thesis
  proof (cases "find (in_region v) rs")
    case None
    with s show ?thesis by (simp add: shown_def)
  next
    case (Some reg)
    obtain virt phys sz r where reg: "reg = (virt, phys, sz, r)" by (cases reg) auto
    have "reg \<in> set rs" "in_region v reg" using Some by (auto simp: find_Some_iff)
    with s Some reg show ?thesis by (intro bexI [of _ reg]) (auto simp: shown_def mapped_as_def)
  qed
qed

section \<open>The kernel's layout\<close>

definition section_region :: "kernel_image \<Rightarrow> u64 \<Rightarrow> u64 \<Rightarrow> u64 \<Rightarrow> rights \<Rightarrow> region list" where
  "section_region im kernel_phys from_v to_v r =
     (if to_v \<le> from_v then [] else [(from_v, kernel_phys + (from_v - text_start im), to_v - from_v, r)])"

definition section_layout :: "kernel_image \<Rightarrow> u64 \<Rightarrow> region list" where
  "section_layout im kernel_phys =
     section_region im kernel_phys (stack_bottom im) (stack_top im) RW @
     section_region im kernel_phys (data_start im) (bss_end im) RW @
     section_region im kernel_phys (rodata_start im) (rodata_end im) RO @
     section_region im kernel_phys (text_start im) (text_end im) RX"

definition framebuffer_layout :: "u64 \<Rightarrow> framebuffer option \<Rightarrow> region list" where
  "framebuffer_layout linear_bytes fb = (case fb of None \<Rightarrow> []
     | Some f \<Rightarrow>
         let e = saturating_add (fb_phys f) (framebuffer_bytes f);
             base = fb_phys f AND NOT (PAGE_SIZE - 1) in
         if linear_bytes < e
         then [(PHYS_MAP_BASE + base, base, the (checked_next_multiple_of (e - base) PAGE_SIZE), RW)]
         else [])"

definition kernel_layout :: "kernel_image \<Rightarrow> u64 \<Rightarrow> u64 \<Rightarrow> framebuffer option \<Rightarrow> region list" where
  "kernel_layout im kernel_phys linear_bytes fb =
     framebuffer_layout linear_bytes fb @ section_layout im kernel_phys @
     [(PHYS_MAP_BASE, 0, linear_bytes, RW)]"

text \<open>The image is linked in the upper half, each section after its start, and lies with the RAM and
  the framebuffer in the memory a processor can address.\<close>

definition machine_fits :: "kernel_image \<Rightarrow> u64 \<Rightarrow> u64 \<Rightarrow> framebuffer option \<Rightarrow> bool" where
  "machine_fits im kernel_phys highest_ram fb \<longleftrightarrow>
     (\<forall>v \<in> {text_start im, rodata_start im, data_start im, stack_bottom im}. KERNEL_VMA \<le> v) \<and>
     unat kernel_phys + 2 ^ 31 \<le> 2 ^ 52 \<and> unat highest_ram \<le> 2 ^ 46 \<and>
     (\<forall>f. fb = Some f \<longrightarrow> unat (fb_phys f) + unat (framebuffer_bytes f) \<le> 2 ^ 45)"

lemma low_upper: "2 ^ 64 - 2 ^ 48 \<le> unat v \<Longrightarrow> low v = unat v - (2 ^ 64 - 2 ^ 48)"
proof -
  assume "2 ^ 64 - 2 ^ 48 \<le> unat v"
  moreover have "unat v < 2 ^ 64" using unat_less_width [of v] by simp
  ultimately have "unat v = (unat v - (2 ^ 64 - 2 ^ 48)) + (2 ^ 16 - 1) * 2 ^ 48"
    "unat v - (2 ^ 64 - 2 ^ 48) < 2 ^ 48" by simp_all
  then show ?thesis unfolding low_def by (metis mod_less mod_mult_self1)
qed

lemma unat_bases: "unat PHYS_MAP_BASE = 0xFFFF800000000000" "unat KERNEL_VMA = 0xFFFFFFFF80000000"
  by (simp_all add: PHYS_MAP_BASE_def KERNEL_VMA_def)

lemma unat_add_le: "unat (a + b) \<le> unat a + unat b" for a b :: "'a::len word"
  by (simp add: unat_word_ariths)

lemma section_region_ok:
  assumes "KERNEL_VMA \<le> text_start im" "KERNEL_VMA \<le> from_v" "unat kernel_phys + 2 ^ 31 \<le> 2 ^ 52"
    "from_v < to_v" "text_start im \<le> from_v"
  shows "region_ok (from_v, kernel_phys + (from_v - text_start im), to_v - from_v, r)"
proof -
  have f: "0xFFFFFFFF80000000 \<le> unat from_v" "0xFFFFFFFF80000000 \<le> unat (text_start im)"
    using assms(1,2) by (simp_all add: word_le_nat_alt unat_bases)
  have t: "unat to_v < 2 ^ 64" using unat_less_width [of to_v] by simp
  have d: "unat (to_v - from_v) = unat to_v - unat from_v"
    using assms(4) by (simp add: unat_sub word_le_nat_alt word_less_nat_alt)
  have o: "unat (from_v - text_start im) = unat from_v - unat (text_start im)"
    using assms(5) by (simp add: unat_sub)
  have "low from_v = unat from_v - (2 ^ 64 - 2 ^ 48)" using f(1) by (intro low_upper) simp
  then have l: "low from_v + unat (to_v - from_v) \<le> 2 ^ 48" using f(1) d t assms(4)
    by (simp add: word_less_nat_alt)
  have "unat (kernel_phys + (from_v - text_start im)) \<le> unat kernel_phys + (unat from_v - unat (text_start im))"
    using unat_add_le [of kernel_phys "from_v - text_start im"] o by simp
  with l f d t assms(3,4) show ?thesis
    by (simp add: word_less_nat_alt)
qed

lemma vm_map_Inr: "vm_map f s = Some (Done (Inr a, t)) \<longleftrightarrow>
    (\<exists>p. f (vm_phys s) = (Inr a, p) \<and> t = s\<lparr>vm_phys := p\<rparr>)"
  by (auto simp: vm_map_def split: prod.splits sum.splits)

lemma vm_map_log: "vm_map f s = Some (Done (r, t)) \<Longrightarrow> vm_log t = vm_log s"
  by (auto simp: vm_map_def split: prod.splits sum.splits)

lemma sub_run_Done: "sub_run a b = Done c \<longleftrightarrow> b \<le> a \<and> c = a - b"
  by (auto simp: sub_run_def)

lemma place_layout:
  assumes "place_section im gib root kernel_phys from_v to_v r s = Some (Done (Inr (), t))"
    and "shows_layout root (vm_phys s) rs"
    and "KERNEL_VMA \<le> text_start im" "KERNEL_VMA \<le> from_v" "unat kernel_phys + 2 ^ 31 \<le> 2 ^ 52"
  shows "shows_layout root (vm_phys t) (section_region im kernel_phys from_v to_v r @ rs)"
proof (cases "to_v \<le> from_v")
  case True
  with assms(1,2) show ?thesis by (simp add: place_section_def section_region_def)
next
  case False
  with assms(1) have b: "text_start im \<le> from_v" and
    m: "vm_map (map_normal gib root from_v (kernel_phys + (from_v - text_start im)) (to_v - from_v) r) s =
      Some (Done (Inr (), t))"
    by (auto simp: place_section_def bind_act_Done of_run_Done add_run_Done sub_run_Done)
  from m obtain p where p: "map_normal gib root from_v (kernel_phys + (from_v - text_start im))
      (to_v - from_v) r (vm_phys s) = (Inr (), p)" "t = s\<lparr>vm_phys := p\<rparr>"
    by (auto simp: vm_map_Inr)
  have "region_ok (from_v, kernel_phys + (from_v - text_start im), to_v - from_v, r)"
    by (rule section_region_ok [OF assms(3-5) _ b]) (use False in simp)
  from map_region [OF assms(2) this p(1)] show ?thesis
    using False p(2) by (simp add: section_region_def)
qed

lemma place_image_layout:
  assumes "place_image im gib root kernel_phys s = Some (Done (Inr (), t))"
    and "shows_layout root (vm_phys s) rs" "machine_fits im kernel_phys highest_ram fb"
  shows "shows_layout root (vm_phys t) (section_layout im kernel_phys @ rs)"
proof -
  have k: "KERNEL_VMA \<le> text_start im" "KERNEL_VMA \<le> rodata_start im" "KERNEL_VMA \<le> data_start im"
    "KERNEL_VMA \<le> stack_bottom im" "unat kernel_phys + 2 ^ 31 \<le> 2 ^ 52"
    using assms(3) by (simp_all add: machine_fits_def)
  obtain s1 s2 s3 where
    1: "place_section im gib root kernel_phys (text_start im) (text_end im) RX s = Some (Done (Inr (), s1))" and
    2: "place_section im gib root kernel_phys (rodata_start im) (rodata_end im) RO s1 = Some (Done (Inr (), s2))" and
    3: "place_section im gib root kernel_phys (data_start im) (bss_end im) RW s2 = Some (Done (Inr (), s3))" and
    4: "place_section im gib root kernel_phys (stack_bottom im) (stack_top im) RW s3 = Some (Done (Inr (), t))"
    using assms(1) by (auto simp: place_image_def try_sum_Inr)
  note place_layout [OF 1 assms(2) k(1) k(1) k(5)]
  note place_layout [OF 2 this k(1) k(2) k(5)]
  note place_layout [OF 3 this k(1) k(3) k(5)]
  note place_layout [OF 4 this k(1) k(4) k(5)]
  then show ?thesis by (simp add: section_layout_def)
qed

lemma place_framebuffer_layout:
  assumes "place_framebuffer gib root linear_bytes fb s = Some (Done (Inr (), t))"
    and "shows_layout root (vm_phys s) rs" "machine_fits im kernel_phys highest_ram fb"
  shows "shows_layout root (vm_phys t) (framebuffer_layout linear_bytes fb @ rs)"
proof (cases fb)
  case None
  with assms(1,2) show ?thesis by (simp add: place_framebuffer_def framebuffer_layout_def)
next
  case (Some f)
  define e where "e = saturating_add (fb_phys f) (framebuffer_bytes f)"
  define base where "base = fb_phys f AND NOT (PAGE_SIZE - 1)"
  show ?thesis
  proof (cases "linear_bytes < e")
    case False
    with assms(1,2) Some show ?thesis
      by (simp add: place_framebuffer_def framebuffer_layout_def Let_def e_def)
  next
    case True
    with assms(1) Some obtain len p where
      len: "checked_next_multiple_of (e - base) PAGE_SIZE = Some len" and be: "base \<le> e" and
      virt: "unat PHYS_MAP_BASE + unat base < 2 ^ 64" and
      p: "map_normal gib root (PHYS_MAP_BASE + base) base len RW (vm_phys s) = (Inr (), p)"
        "t = s\<lparr>vm_phys := p\<rparr>"
      by (auto simp: place_framebuffer_def Let_def bind_act_Done of_run_Done add_run_Done sub_run_Done
        vm_map_Inr next_multiple_def e_def [symmetric] base_def [symmetric] split: option.splits)
    have fe: "unat (fb_phys f) + unat (framebuffer_bytes f) \<le> 2 ^ 45"
      using assms(3) Some by (simp add: machine_fits_def)
    have ue: "unat e \<le> 2 ^ 45" using fe by (simp add: e_def unat_saturating_add)
    have ub: "unat base \<le> 2 ^ 45"
      using be ue by (simp add: word_le_nat_alt)
    have "unat len < unat (e - base) + unat PAGE_SIZE"
      using checked_next_multiple_of_Some(3) [OF len] .
    then have ul: "unat len \<le> 2 ^ 45 + 4096"
      using be ue by (simp add: unat_sub PAGE_SIZE_def)
    have v: "unat (PHYS_MAP_BASE + base) = unat PHYS_MAP_BASE + unat base"
      using virt by (simp add: unat_add_exact)
    then have "low (PHYS_MAP_BASE + base) = 2 ^ 47 + unat base"
      using unat_bases(1) ub by (subst low_upper) simp_all
    then have "region_ok (PHYS_MAP_BASE + base, base, len, RW)"
      using ub ul by simp
    from map_region [OF assms(2) this p(1)] show ?thesis
      using True Some p(2) len by (simp add: framebuffer_layout_def Let_def e_def base_def)
  qed
qed

lemma verify_reads: "verify im root fb s = Some (Done (r, t)) \<Longrightarrow> t = s"
proof -
  assume v: "verify im root fb s = Some (Done (r, t))"
  from v show ?thesis
    unfolding verify_def Let_def
    by (auto simp: bind_act_Done of_run_Done split: option.splits if_splits sum.splits)
qed

text \<open>What a tree that verified is known to have.\<close>

definition switch_safe :: "kernel_image \<Rightarrow> u64 \<Rightarrow> phys \<Rightarrow> bool" where
  "switch_safe im root p \<longleftrightarrow>
     (\<exists>t. translate root (switch_code im) p = Some t \<and> r_exec (t_rights t) \<and> \<not> r_write (t_rights t)) \<and>
     writable_at root (switch_stack im) p \<and> writable_at root PHYS_MAP_BASE p \<and>
     translate root 0 p = None \<and> translate root (stack_guard im) p = None"

lemma verify_safe: "verify im root fb s = Some (Done (Inr (), t)) \<Longrightarrow> switch_safe im root (vm_phys s)"
  unfolding verify_def Let_def switch_safe_def
  by (auto simp: bind_act_Done split: option.splits if_splits sum.splits)

section \<open>The tree the kernel loads\<close>

lemma place_log: "place_section im gib root kernel_phys a b r s = Some (Done (q, t)) \<Longrightarrow> vm_log t = vm_log s"
  by (auto simp: place_section_def bind_act_Done of_run_Done dest: vm_map_log split: if_splits)

lemma place_image_log: "place_image im gib root kernel_phys s = Some (Done (q, t)) \<Longrightarrow> vm_log t = vm_log s"
  by (auto simp: place_image_def try_sum_Done dest!: place_log)

lemma place_framebuffer_log: "place_framebuffer gib root lb fb s = Some (Done (q, t)) \<Longrightarrow> vm_log t = vm_log s"
  by (auto simp: place_framebuffer_def Let_def bind_act_Done of_run_Done dest: vm_map_log
      split: if_splits option.splits)

lemma vm_cpu_simps [simp]: "f (vm_log k) = Some (Done (x, h)) \<Longrightarrow>
    vm_cpu f k = Some (Done (x, k\<lparr>vm_log := h\<rparr>))"
  by (simp add: vm_cpu_def)

text \<open>The protections asked for.\<close>

definition protections :: "features \<Rightarrow> u64 \<Rightarrow> u64" where
  "protections ft cr4 =
     (let cr4 = (if has_smep ft then cr4 OR CR4_SMEP else cr4)
      in if has_smap ft then cr4 OR CR4_SMAP else cr4)"

lemma load_tree_log: "\<exists>a c. load_tree hw ft root lb s = Some (Done (
    \<lparr>tb_root = root, tb_linear_bytes = lb, tb_gib_pages = has_gib_pages ft,
     tb_smep = (c AND CR4_SMEP \<noteq> 0), tb_smap = (c AND CR4_SMAP \<noteq> 0)\<rparr>,
    s\<lparr>vm_log := vm_log s @ [Cr3_Write root, Cr4_Read a, Cr4_Write (protections ft a), Cr4_Read c]\<rparr>))"
proof -
  let ?a = "answer_cr4 hw (vm_log s @ [Cr3_Write root])"
  let ?c = "answer_cr4 hw (vm_log s @ [Cr3_Write root, Cr4_Read ?a, Cr4_Write (protections ft ?a)])"
  have cr3: "vm_cpu (write_cr3 root) k = Some (Done ((), k\<lparr>vm_log := vm_log k @ [Cr3_Write root]\<rparr>))" for k
    by (simp add: write_cr3_def vm_cpu_def)
  have rd: "vm_cpu (read_cr4 hw) k = Some (Done (answer_cr4 hw (vm_log k),
      k\<lparr>vm_log := vm_log k @ [Cr4_Read (answer_cr4 hw (vm_log k))]\<rparr>))" for k
    by (simp add: read_cr4_def vm_cpu_def)
  have wr: "vm_cpu (write_cr4 v) k = Some (Done ((), k\<lparr>vm_log := vm_log k @ [Cr4_Write v]\<rparr>))" for v k
    by (simp add: write_cr4_def vm_cpu_def)
  show ?thesis
    unfolding load_tree_def Let_def protections_def
    by (intro exI [of _ ?a] exI [of _ ?c]) (simp add: cr3 rd wr protections_def)
qed

text \<open>The steps of a successful \<open>init\<close>.\<close>

lemma vm_init_steps:
  assumes "vm_init hw im ft kernel_phys highest_ram fb s = Some (Done (Inr tb, t))"
  obtains s1 s2 s3 s4 where
    "vm_map mapper_new s = Some (Done (Inr (tb_root tb), s1))"
    "checked_next_multiple_of (max highest_ram MIN_LINEAR) SIZE_1G = Some (tb_linear_bytes tb)"
    "vm_map (map_normal (has_gib_pages ft) (tb_root tb) PHYS_MAP_BASE 0 (tb_linear_bytes tb) RW) s1 =
      Some (Done (Inr (), s2))"
    "place_image im (has_gib_pages ft) (tb_root tb) kernel_phys s2 = Some (Done (Inr (), s3))"
    "place_framebuffer (has_gib_pages ft) (tb_root tb) (tb_linear_bytes tb) fb s3 = Some (Done (Inr (), s4))"
    "verify im (tb_root tb) fb s4 = Some (Done (Inr (), s4))"
    "load_tree hw ft (tb_root tb) (tb_linear_bytes tb) s4 = Some (Done (tb, t))"
proof -
  from assms obtain root s1 lb s2 s3 s4 s5 where st:
    "vm_map mapper_new s = Some (Done (Inr root, s1))"
    "next_multiple (max highest_ram MIN_LINEAR) SIZE_1G = Done lb"
    "vm_map (map_normal (has_gib_pages ft) root PHYS_MAP_BASE 0 lb RW) s1 = Some (Done (Inr (), s2))"
    "place_image im (has_gib_pages ft) root kernel_phys s2 = Some (Done (Inr (), s3))"
    "place_framebuffer (has_gib_pages ft) root lb fb s3 = Some (Done (Inr (), s4))"
    "verify im root fb s4 = Some (Done (Inr (), s5))"
    "load_tree hw ft root lb s5 = Some (Done (tb, t))"
    unfolding vm_init_def Let_def
    by (auto simp: try_sum_Inr bind_act_Done of_run_Done)
  from load_tree_log [of hw ft root lb s5] st(7)
  have tb: "tb_root tb = root" "tb_linear_bytes tb = lb" by auto
  have "checked_next_multiple_of (max highest_ram MIN_LINEAR) SIZE_1G = Some lb"
    using st(2) by (simp add: next_multiple_def split: option.splits)
  then show thesis using that [of s1 s2 s3 s4] st tb verify_reads [OF st(6)] by simp
qed

text \<open>C29: the kernel's tree is its layout and nothing else. If \<open>vm::init\<close> returns tables, every
  address translates exactly as the layout says, the last region mapped first: the framebuffer beyond
  the linear map, the stack, data and \<open>.bss\<close> read-write, rodata read-only, text read-execute, the
  linear map read-write, and every other address to nothing. So no page is both writable and
  executable, only text is executable, no page is the user's, and address zero and the stack's guard
  page are absent.\<close>

theorem kernel_tree_is_layout:
  assumes "distinct (pool (vm_phys s))" "list_all frame_ok (pool (vm_phys s))"
    and "machine_fits im kernel_phys highest_ram fb"
    and "vm_init hw im ft kernel_phys highest_ram fb s = Some (Done (Inr tb, t))"
  shows "(\<forall>v. shown (kernel_layout im kernel_phys (tb_linear_bytes tb) fb) v
        (translate (tb_root tb) v (vm_phys t))) \<and>
    (\<forall>v x. translate (tb_root tb) v (vm_phys t) = Some x \<longrightarrow>
       \<not> is_wx (t_rights x) \<and> \<not> r_user (t_rights x) \<and>
       (r_exec (t_rights x) \<longrightarrow> low (text_start im) \<le> low v \<and>
          low v < low (text_start im) + unat (text_end im - text_start im))) \<and>
    translate (tb_root tb) 0 (vm_phys t) = None \<and>
    translate (tb_root tb) (stack_guard im) (vm_phys t) = None"
proof -
  let ?root = "tb_root tb"
  let ?lb = "tb_linear_bytes tb"
  obtain s1 s2 s3 s4 where
    new: "vm_map mapper_new s = Some (Done (Inr ?root, s1))" and
    lb: "checked_next_multiple_of (max highest_ram MIN_LINEAR) SIZE_1G = Some ?lb" and
    linear: "vm_map (map_normal (has_gib_pages ft) ?root PHYS_MAP_BASE 0 ?lb RW) s1 =
      Some (Done (Inr (), s2))" and
    image: "place_image im (has_gib_pages ft) ?root kernel_phys s2 = Some (Done (Inr (), s3))" and
    frame: "place_framebuffer (has_gib_pages ft) ?root ?lb fb s3 = Some (Done (Inr (), s4))" and
    ver: "verify im ?root fb s4 = Some (Done (Inr (), s4))" and
    load: "load_tree hw ft ?root ?lb s4 = Some (Done (tb, t))"
    by (rule vm_init_steps [OF assms(4)])
  from new obtain p1 where p1: "mapper_new (vm_phys s) = (Inr ?root, p1)" "s1 = s\<lparr>vm_phys := p1\<rparr>"
    by (auto simp: vm_map_Inr)
  from mapper_new_empty [OF assms(1,2) p1(1)] have l0: "shows_layout ?root (vm_phys s1) []"
    using p1(2) by (simp add: shows_layout_def shown_def)
  from linear obtain p2 where p2: "map_normal (has_gib_pages ft) ?root PHYS_MAP_BASE 0 ?lb RW (vm_phys s1) =
      (Inr (), p2)" "s2 = s1\<lparr>vm_phys := p2\<rparr>" by (auto simp: vm_map_Inr)
  have "unat (max highest_ram MIN_LINEAR) \<le> 2 ^ 46"
    using assms(3) by (simp add: machine_fits_def max_def MIN_LINEAR_def SIZE_1G_def)
  then have "unat ?lb \<le> 2 ^ 46 + 2 ^ 30"
    using checked_next_multiple_of_Some(3) [OF lb] by (simp add: SIZE_1G_def)
  moreover have "low PHYS_MAP_BASE = 2 ^ 47" by (subst low_upper) (simp_all add: unat_bases)
  ultimately have "region_ok (PHYS_MAP_BASE, 0, ?lb, RW)" by simp
  from map_region [OF l0 this p2(1)] have l2: "shows_layout ?root (vm_phys s2) [(PHYS_MAP_BASE, 0, ?lb, RW)]"
    using p2(2) by simp
  note l3 = place_image_layout [OF image l2 assms(3)]
  note l4 = place_framebuffer_layout [OF frame l3 assms(3)]
  have t: "vm_phys t = vm_phys s4" using load_tree_log [of hw ft ?root ?lb s4] load by auto
  then have sh: "shown (kernel_layout im kernel_phys ?lb fb) v (translate ?root v (vm_phys t))" for v
    using l4 by (simp add: kernel_layout_def shows_layout_def)
  have rights: "\<not> is_wx (t_rights x) \<and> \<not> r_user (t_rights x) \<and>
       (r_exec (t_rights x) \<longrightarrow> low (text_start im) \<le> low v \<and>
          low v < low (text_start im) + unat (text_end im - text_start im))"
    if x: "translate ?root v (vm_phys t) = Some x" for v x
  proof -
    obtain reg where "reg \<in> set (kernel_layout im kernel_phys ?lb fb)" "in_region v reg"
      "t_rights x = snd (snd (snd reg))"
      using sh [of v] x shown_rights by metis
    then show ?thesis
      by (auto simp: kernel_layout_def section_layout_def section_region_def framebuffer_layout_def Let_def
        RW_def RX_def RO_def is_wx_def split: option.splits if_splits)
  qed
  show ?thesis using sh rights verify_safe [OF ver] t by (auto simp: switch_safe_def)
qed

lemma try_sum_log:
  assumes "try_sum f g s = Some (Done (Inl e, t))"
    and "\<And>r k. f s = Some (Done (r, k)) \<Longrightarrow> vm_log k = vm_log s"
    and "\<And>a k. g a k = Some (Done (Inl e, t)) \<Longrightarrow> vm_log t = vm_log k"
  shows "vm_log t = vm_log s"
  using assms(1) unfolding try_sum_Done by (metis assms(2,3))

lemma bind_run_log:
  assumes "bind_act (of_run x) g s = Some (Done (Inl e, t))"
    and "\<And>a. g a s = Some (Done (Inl e, t)) \<Longrightarrow> vm_log t = vm_log s"
  shows "vm_log t = vm_log s"
  using assms(1) unfolding bind_act_Done of_run_Done by (metis assms(2))

text \<open>C30: the switch is never a leap. Whenever \<open>vm::init\<close> returns, an error has not touched \<open>CR3\<close> or
  \<open>CR4\<close>; and on success \<open>CR3\<close> was written once, with a tree that maps the code doing the switch
  executable and not writable, its stack and the linear map writable, and neither address zero nor the
  guard page; \<open>CR4\<close> then keeps every bit it had, and what is reported of SMEP and SMAP is what \<open>CR4\<close>
  read back, not what was asked.\<close>

theorem switch_is_verified:
  assumes "vm_init hw im ft kernel_phys highest_ram fb s = Some (Done (r, t))"
  shows "case r of
      Inl e \<Rightarrow> vm_log t = vm_log s
    | Inr tb \<Rightarrow> switch_safe im (tb_root tb) (vm_phys t) \<and>
        (\<exists>a c. vm_log t = vm_log s @ [Cr3_Write (tb_root tb), Cr4_Read a,
            Cr4_Write (protections ft a), Cr4_Read c] \<and>
          (\<forall>n. bit a n \<longrightarrow> bit (protections ft a) n) \<and>
          tb_smep tb = (c AND CR4_SMEP \<noteq> 0) \<and> tb_smap tb = (c AND CR4_SMAP \<noteq> 0))"
proof (cases r)
  case (Inl e)
  have "vm_log t = vm_log s"
    using assms unfolding Inl vm_init_def Let_def
    apply -
    apply (erule try_sum_log, erule vm_map_log)
    apply (erule bind_run_log)
    apply (erule try_sum_log, erule vm_map_log)
    apply (erule try_sum_log, erule place_image_log)
    apply (erule try_sum_log, erule place_framebuffer_log)
    apply (erule try_sum_log, drule verify_reads, simp)
    apply (simp add: bind_act_Done)
    done
  with Inl show ?thesis by simp
next
  case (Inr tb)
  let ?root = "tb_root tb"
  obtain s1 s2 s3 s4 where
    logs: "vm_map mapper_new s = Some (Done (Inr ?root, s1))"
    "checked_next_multiple_of (max highest_ram MIN_LINEAR) SIZE_1G = Some (tb_linear_bytes tb)"
    "vm_map (map_normal (has_gib_pages ft) ?root PHYS_MAP_BASE 0 (tb_linear_bytes tb) RW) s1 =
      Some (Done (Inr (), s2))"
    "place_image im (has_gib_pages ft) ?root kernel_phys s2 = Some (Done (Inr (), s3))"
    "place_framebuffer (has_gib_pages ft) ?root (tb_linear_bytes tb) fb s3 = Some (Done (Inr (), s4))" and
    ver: "verify im ?root fb s4 = Some (Done (Inr (), s4))" and
    load: "load_tree hw ft ?root (tb_linear_bytes tb) s4 = Some (Done (tb, t))"
    by (rule vm_init_steps [OF assms [unfolded Inr]])
  have log: "vm_log s4 = vm_log s"
    using vm_map_log [OF logs(1)] vm_map_log [OF logs(3)] place_image_log [OF logs(4)]
      place_framebuffer_log [OF logs(5)] by simp
  obtain a c where ac: "load_tree hw ft ?root (tb_linear_bytes tb) s4 = Some (Done (
      \<lparr>tb_root = ?root, tb_linear_bytes = tb_linear_bytes tb, tb_gib_pages = has_gib_pages ft,
       tb_smep = (c AND CR4_SMEP \<noteq> 0), tb_smap = (c AND CR4_SMAP \<noteq> 0)\<rparr>,
      s4\<lparr>vm_log := vm_log s4 @ [Cr3_Write ?root, Cr4_Read a, Cr4_Write (protections ft a), Cr4_Read c]\<rparr>))"
    using load_tree_log by blast
  with load have tb: "tb = \<lparr>tb_root = ?root, tb_linear_bytes = tb_linear_bytes tb,
       tb_gib_pages = has_gib_pages ft,
       tb_smep = (c AND CR4_SMEP \<noteq> 0), tb_smap = (c AND CR4_SMAP \<noteq> 0)\<rparr>"
    and t: "t = s4\<lparr>vm_log := vm_log s4 @ [Cr3_Write ?root, Cr4_Read a, Cr4_Write (protections ft a),
       Cr4_Read c]\<rparr>" by simp_all
  have read_back: "tb_smep tb = (c AND CR4_SMEP \<noteq> 0)" "tb_smap tb = (c AND CR4_SMAP \<noteq> 0)"
    using arg_cong [OF tb, of tb_smep] arg_cong [OF tb, of tb_smap] by simp_all
  have "bit (protections ft a) n" if "bit a n" for n
    using that by (simp add: protections_def Let_def bit_or_iff)
  with t read_back log verify_safe [OF ver] Inr show ?thesis by auto
qed

subsection \<open>A small machine\<close>

text \<open>An image of a page of text, of rodata, of data, a guard page and a page of stack, on a machine
  with six free frames and gigabyte pages.\<close>

definition small_image :: kernel_image where
  "small_image = \<lparr>text_start = KERNEL_VMA, text_end = KERNEL_VMA + 0x1000,
     rodata_start = KERNEL_VMA + 0x1000, rodata_end = KERNEL_VMA + 0x2000,
     data_start = KERNEL_VMA + 0x2000, bss_end = KERNEL_VMA + 0x3000,
     stack_guard = KERNEL_VMA + 0x3000, stack_bottom = KERNEL_VMA + 0x4000,
     stack_top = KERNEL_VMA + 0x5000, switch_code = KERNEL_VMA + 0x10, switch_stack = KERNEL_VMA + 0x4FF0\<rparr>"

definition boot_vm :: vm where
  "boot_vm = \<lparr>vm_phys = \<lparr>entries = (\<lambda>_ _. 0),
       pool = [0x1000, 0x2000, 0x3000, 0x4000, 0x5000, 0x6000]\<rparr>,
     vm_device_next = 0, vm_log = []\<rparr>"

definition plain_machine :: machine where
  "plain_machine = \<lparr>answer32 = (\<lambda>h a. 0), answer64 = (\<lambda>h a. 0), answer_port = (\<lambda>h p. 0),
     answer_msr = (\<lambda>h r. 0), answer_cr4 = (\<lambda>h. 0)\<rparr>"

definition plain_features :: features where
  "plain_features = \<lparr>has_smep = True, has_smap = True, has_gib_pages = True\<rparr>"

lemmas mapping_defs = map_loop.simps leaf_level_def fits_def is_multiple_of_def PHYS_MAP_BASE_def
  SIZE_1G_def SIZE_2M_def map_leaf_def descend.simps next_table_def read_entry_def write_entry_def
  alloc_table_def index_def PTE_PRESENT_def PTE_HUGE_def intermediate_bits_def RW_def RX_def RO_def
  PTE_USER_def PTE_WRITE_def PTE_ADDR_MASK_def level_size_def PAGE_SIZE_def PTE_NX_def leaf_bits_def
  memory_type_bits_def map_as_def map_normal_def KERNEL_VMA_def

text \<open>The tables after the linear map, and after the image.\<close>

definition linear_memory :: phys where
  "linear_memory = \<lparr>entries = (\<lambda>_ _. 0)
           (4096 := (\<lambda>_. 0)(256 := 8195),
              8192 :=
                (\<lambda>_. 0)
                (0 := 9223372036854775939, 1 := 9223372037928517763,
                   2 := 9223372039002259587, 3 := 9223372040076001411)),
           pool = [12288, 16384, 20480, 24576]\<rparr>"

definition kernel_memory :: phys where
  "kernel_memory = \<lparr>entries =
           (\<lambda>_ _. 0)
           (8192 :=
              (\<lambda>_. 0)
              (0 := 9223372036854775939, 1 := 9223372037928517763,
                 2 := 9223372039002259587, 3 := 9223372040076001411),
              4096 := (\<lambda>_. 0)(256 := 8195, 511 := 12291),
              12288 := (\<lambda>_. 0)(510 := 16387), 16384 := (\<lambda>_. 0)(0 := 20483),
              20480 :=
                (\<lambda>_. 0)
                (0 := 2097153, 1 := 9223372036856877057,
                   2 := 9223372036856881155, 4 := 9223372036856889347)),
           pool = [24576]\<rparr>"

lemma small_looks: "map_option t_rights (translate 0x1000 (KERNEL_VMA + 0x10) kernel_memory) = Some RX"
  "map_option t_rights (translate 0x1000 (KERNEL_VMA + 0x4FF0) kernel_memory) = Some RW"
  "map_option t_rights (translate 0x1000 PHYS_MAP_BASE kernel_memory) = Some RW"
  "map_option t_rights (translate 0x1000 (KERNEL_VMA + 0x1000) kernel_memory) = Some RO"
  "map_option t_rights (translate 0x1000 (KERNEL_VMA + 0x2000) kernel_memory) = Some RW"
  "translate 0x1000 0 kernel_memory = None"
  "translate 0x1000 (KERNEL_VMA + 0x3000) kernel_memory = None"
  by (simp_all add: kernel_memory_def translate_def translate_from.simps intersect_def from_bits_def 
   Let_def read_entry_def mapping_defs)

lemma linear_steps:
  "vm_map mapper_new boot_vm = Some (Done (Inr 0x1000, boot_vm\<lparr>vm_phys := \<lparr>entries = (\<lambda>_ _. 0),
       pool = [0x2000, 0x3000, 0x4000, 0x5000, 0x6000]\<rparr>\<rparr>))"
  "vm_map (map_normal True 0x1000 PHYS_MAP_BASE 0 0x100000000 RW) (boot_vm\<lparr>vm_phys := \<lparr>entries = (\<lambda>_ _. 0),
       pool = [0x2000, 0x3000, 0x4000, 0x5000, 0x6000]\<rparr>\<rparr>) =
    Some (Done (Inr (), boot_vm\<lparr>vm_phys := linear_memory\<rparr>))"
proof -
  show "vm_map mapper_new boot_vm = Some (Done (Inr 0x1000, boot_vm\<lparr>vm_phys := \<lparr>entries = (\<lambda>_ _. 0),
       pool = [0x2000, 0x3000, 0x4000, 0x5000, 0x6000]\<rparr>\<rparr>))"
    by (simp add: vm_map_def mapper_new_def boot_vm_def mapping_defs Let_def fun_eq_iff)
  show "vm_map (map_normal True 0x1000 PHYS_MAP_BASE 0 0x100000000 RW) (boot_vm\<lparr>vm_phys := \<lparr>entries = (\<lambda>_ _. 0),
       pool = [0x2000, 0x3000, 0x4000, 0x5000, 0x6000]\<rparr>\<rparr>) =
    Some (Done (Inr (), boot_vm\<lparr>vm_phys := linear_memory\<rparr>))"
    by (simp add: vm_map_def mapper_new_def boot_vm_def linear_memory_def mapping_defs Let_def)
qed

lemma image_steps: "place_image small_image True 0x1000 0x200000 (boot_vm\<lparr>vm_phys := linear_memory\<rparr>) =
    Some (Done (Inr (), boot_vm\<lparr>vm_phys := kernel_memory\<rparr>))"
  by (simp add: boot_vm_def vm_map_def linear_memory_def kernel_memory_def mapping_defs Let_def
    place_image_def place_section_def add_run_def checked_add_def sub_run_def small_image_def)

lemma small_verifies: "verify small_image 0x1000 None (boot_vm\<lparr>vm_phys := kernel_memory\<rparr>) =
    Some (Done (Inr (), boot_vm\<lparr>vm_phys := kernel_memory\<rparr>))"
proof -
  have some: "map_option t_rights x = Some r \<Longrightarrow> \<exists>t. x = Some t \<and> t_rights t = r" for x r
    by (cases x) auto
  have n: "rodata_start small_image < rodata_end small_image"
    by (simp add: small_image_def KERNEL_VMA_def)
  have f: "switch_code small_image = KERNEL_VMA + 0x10" "switch_stack small_image = KERNEL_VMA + 0x4FF0"
    "rodata_start small_image = KERNEL_VMA + 0x1000" "data_start small_image = KERNEL_VMA + 0x2000"
    "stack_guard small_image = KERNEL_VMA + 0x3000" by (simp_all add: small_image_def)
  obtain a b c d e where
    "translate 0x1000 (KERNEL_VMA + 0x10) kernel_memory = Some a \<and> t_rights a = RX"
    "translate 0x1000 (KERNEL_VMA + 0x4FF0) kernel_memory = Some b \<and> t_rights b = RW"
    "translate 0x1000 PHYS_MAP_BASE kernel_memory = Some c \<and> t_rights c = RW"
    "translate 0x1000 (KERNEL_VMA + 0x1000) kernel_memory = Some d \<and> t_rights d = RO"
    "translate 0x1000 (KERNEL_VMA + 0x2000) kernel_memory = Some e \<and> t_rights e = RW"
    using small_looks(1-5) [THEN some] by blast
  then show ?thesis
    unfolding verify_def Let_def f(1,2,4,5)
    using n small_looks(6,7) by (simp add: f(3) writable_at_def RX_def RW_def RO_def)
qed

lemma small_boots: "\<exists>tb t. vm_init plain_machine small_image plain_features 0x200000 0 None boot_vm =
    Some (Done (Inr tb, t)) \<and> tb_root tb = 0x1000"
proof -
  have l: "next_multiple MIN_LINEAR SIZE_1G = Done 0x100000000"
    by (simp add: next_multiple_def checked_next_multiple_of_def MIN_LINEAR_def SIZE_1G_def)
  have g: "has_gib_pages plain_features = True" by (simp add: plain_features_def)
  have fb: "place_framebuffer True 0x1000 0x100000000 None (boot_vm\<lparr>vm_phys := kernel_memory\<rparr>) =
      Some (Done (Inr (), boot_vm\<lparr>vm_phys := kernel_memory\<rparr>))" by (simp add: place_framebuffer_def)
  obtain a c where "load_tree plain_machine plain_features 0x1000 0x100000000
      (boot_vm\<lparr>vm_phys := kernel_memory\<rparr>) = Some (Done (
    \<lparr>tb_root = 0x1000, tb_linear_bytes = 0x100000000, tb_gib_pages = has_gib_pages plain_features,
     tb_smep = (c AND CR4_SMEP \<noteq> 0), tb_smap = (c AND CR4_SMAP \<noteq> 0)\<rparr>,
    (boot_vm\<lparr>vm_phys := kernel_memory\<rparr>)\<lparr>vm_log := vm_log (boot_vm\<lparr>vm_phys := kernel_memory\<rparr>) @
      [Cr3_Write 0x1000, Cr4_Read a, Cr4_Write (protections plain_features a), Cr4_Read c]\<rparr>))"
    using load_tree_log by blast
  then show ?thesis
    unfolding vm_init_def Let_def g
    by (simp add: linear_steps l image_steps fb small_verifies)
qed

lemma small_fits: "distinct (pool (vm_phys boot_vm))" "list_all frame_ok (pool (vm_phys boot_vm))"
  "machine_fits small_image 0x200000 0 None"
  by (simp_all add: boot_vm_def frame_ok_def PTE_ADDR_MASK_def machine_fits_def small_image_def KERNEL_VMA_def)

theorem kernel_tree_is_layout_witness:
  "\<exists>tb t. vm_init plain_machine small_image plain_features 0x200000 0 None boot_vm = Some (Done (Inr tb, t)) \<and>
    translate (tb_root tb) 0 (vm_phys t) = None \<and>
    translate (tb_root tb) (KERNEL_VMA + 0x3000) (vm_phys t) = None"
proof -
  obtain tb t where run: "vm_init plain_machine small_image plain_features 0x200000 0 None boot_vm = Some (Done (Inr tb, t))"
    using small_boots by blast
  have g: "stack_guard small_image = KERNEL_VMA + 0x3000" by (simp add: small_image_def)
  from kernel_tree_is_layout [OF small_fits run] show ?thesis unfolding g using run by blast
qed

theorem switch_is_verified_witness:
  "\<exists>tb t. vm_init plain_machine small_image plain_features 0x200000 0 None boot_vm = Some (Done (Inr tb, t)) \<and>
    switch_safe small_image (tb_root tb) (vm_phys t)"
proof -
  obtain tb t where run: "vm_init plain_machine small_image plain_features 0x200000 0 None boot_vm = Some (Done (Inr tb, t))"
    using small_boots by blast
  from switch_is_verified [OF this] show ?thesis using run by auto
qed

section \<open>The device window\<close>

lemma each_act_log:
  assumes "\<And>i k. i \<in> set is \<Longrightarrow> f i k = Some (Done ((), k\<lparr>vm_log := vm_log k @ [g i]\<rparr>))"
  shows "each_act (map f is) s = Some (Done ((), s\<lparr>vm_log := vm_log s @ map g is\<rparr>))"
  using assms by (induction "is" arbitrary: s) (simp_all add: seq_act_simps(3))

lemma invlpg_pages: "each_page (\<lambda>v. vm_cpu (invlpg v)) base span s =
    Some (Done ((), s\<lparr>vm_log := vm_log s @
      map (\<lambda>i. Invlpg (base + word_of_nat (4096 * i))) [0..<unat span div 4096]\<rparr>))"
  unfolding each_page_def by (rule each_act_log) (simp add: invlpg_def vm_cpu_def)

lemma unat_page_offset: "unat (a AND (PAGE_SIZE - 1)) = unat a mod 4096"
proof -
  have "PAGE_SIZE - 1 = mask 12" by (simp add: PAGE_SIZE_def mask_eq_exp_minus_1)
  then have "a AND (PAGE_SIZE - 1) = take_bit 12 a" by (simp add: take_bit_eq_mask)
  then show ?thesis by (simp add: unat_take_bit)
qed

lemma device_window_effect:
  assumes "space_ok (vm_phys s) (tb_root tb)" "unat phys + unat len + 2 ^ 13 \<le> 2 ^ 52"
    and "unat (vm_device_next s) \<le> 2 ^ 30 + 2 ^ 53"
    and "vm_map_device tb phys len s = Some (Done (r, t))"
  shows "\<exists>span. unat span = (unat len + unat phys mod 4096 + 4095) div 4096 * 4096 \<and>
    vm_device_next t = vm_device_next s + span \<and> space_ok (vm_phys t) (tb_root tb) \<and>
    (\<forall>v. \<not> (2 ^ 47 + 2 ^ 44 + unat (vm_device_next s) \<le> low v \<and>
          low v < 2 ^ 47 + 2 ^ 44 + unat (vm_device_next s) + unat span) \<longrightarrow>
        translate (tb_root tb) v (vm_phys t) = translate (tb_root tb) v (vm_phys s)) \<and>
    (case r of
       Inl e \<Rightarrow> vm_log t = vm_log s \<and> (e = DeviceWindowFull \<longrightarrow> vm_phys t = vm_phys s)
     | Inr a \<Rightarrow> unat (vm_device_next t) \<le> 2 ^ 30 \<and>
         unat a = 0xFFFF900000000000 + unat (vm_device_next s) + unat phys mod 4096 \<and>
         (\<forall>k < unat len. \<exists>x. translate (tb_root tb) (a + word_of_nat k) (vm_phys t) = Some x \<and>
            t_phys x = phys + word_of_nat k \<and> t_rights x = RW \<and> t_memory_type x = DeviceMemory) \<and>
         vm_log t = vm_log s @ map (\<lambda>i. Invlpg (DEVICE_BASE + vm_device_next s + word_of_nat (4096 * i)))
           [0..<unat span div 4096])"
proof -
  let ?root = "tb_root tb"
  let ?next = "vm_device_next s"
  define offset where "offset = phys AND (PAGE_SIZE - 1)"
  define base where "base = phys - offset"
  have uo: "unat offset = unat phys mod 4096" by (simp add: offset_def unat_page_offset)
  have ub: "unat base = unat phys - unat phys mod 4096"
    using uo by (simp add: base_def unat_sub word_le_nat_alt)
  obtain span where span: "checked_next_multiple_of (len + offset) PAGE_SIZE = Some span" and
    run: "bind_act (\<lambda>s. Some (Done (vm_device_next s, s\<lparr>vm_device_next := vm_device_next s + span\<rparr>))) (\<lambda>at.
      bind_act (of_run (add_run at span)) (\<lambda>e.
      if DEVICE_WINDOW < e then ret (Inl DeviceWindowFull)
      else bind_act (of_run (add_run DEVICE_BASE at)) (\<lambda>virt.
        try_sum (vm_map (map_device (tb_gib_pages tb) ?root virt base span RW)) (\<lambda>u.
        seq_act (each_page (\<lambda>v. vm_cpu (invlpg v)) virt span)
        (bind_act (of_run (add_run virt offset)) (\<lambda>r. ret (Inr r))))))) s = Some (Done (r, t))"
    using assms(4) unfolding vm_map_device_def Let_def offset_def [symmetric] base_def [symmetric]
    by (auto simp: bind_act_Done of_run_Done add_run_Done next_multiple_def split: option.splits)
  have sum: "unat (len + offset) = unat len + unat phys mod 4096"
    using assms(2) uo by (subst unat_add_exact) (auto intro: order_le_less_trans)
  have PS: "unat PAGE_SIZE = 4096" by (simp add: PAGE_SIZE_def)
  note sp = checked_next_multiple_of_Some [OF span, unfolded PS sum]
  have us: "unat span = (unat len + unat phys mod 4096 + 4095) div 4096 * 4096"
  proof -
    obtain q where q: "unat span = 4096 * q" using sp(1) by (rule dvdE)
    then have "(unat len + unat phys mod 4096 + 4095) div 4096 = q"
      using sp(2,3) by (intro div_nat_eqI) (simp_all add: mult.commute)
    with q show ?thesis by simp
  qed
  let ?s = "s\<lparr>vm_device_next := ?next + span\<rparr>"
  have un: "unat ?next + unat span < 2 ^ 64"
    using sp(3) assms(2,3) by (auto intro: order_le_less_trans)
  then have add: "add_run ?next span = Done (?next + span)" by (simp add: add_run_Done)
  have ns: "unat (?next + span) = unat ?next + unat span" using un by (simp add: unat_add_exact)
  show ?thesis
  proof (cases "DEVICE_WINDOW < ?next + span")
    case True
    then have "r = Inl DeviceWindowFull" "t = ?s" using run add by auto
    with us assms(1) show ?thesis by (intro exI [of _ span]) simp
  next
    case False
    then have fit: "unat ?next + unat span \<le> 2 ^ 30"
      using ns by (simp add: word_less_nat_alt DEVICE_WINDOW_def)
    define virt where "virt = DEVICE_BASE + ?next"
    have uD: "unat DEVICE_BASE = 0xFFFF900000000000" by (simp add: DEVICE_BASE_def)
    have uv: "unat virt = 0xFFFF900000000000 + unat ?next"
      using fit uD by (simp add: virt_def unat_add_exact)
    have lv: "low virt = 2 ^ 47 + 2 ^ 44 + unat ?next"
      using uv by (subst low_upper) simp_all
    have addv: "add_run DEVICE_BASE ?next = Done virt"
      using fit uD by (simp add: add_run_Done virt_def)
    obtain res p where map: "map_device (tb_gib_pages tb) ?root virt base span RW (vm_phys s) = (res, p)"
      by (cases "map_device (tb_gib_pages tb) ?root virt base span RW (vm_phys s)")
    then have "map_as (tb_gib_pages tb) ?root virt base span RW DeviceMemory (vm_phys s) = (res, p)"
      by (simp add: map_device_def)
    moreover have "low virt + unat span \<le> 2 ^ 48" using lv fit by simp
    moreover have "unat base + unat span \<le> 2 ^ 52" using ub sp(3) assms(2) by simp
    ultimately have eff: "space_ok p ?root
      \<and> (\<not> (low virt \<le> low v \<and> low v < low virt + unat span) \<longrightarrow> translate ?root v p = translate ?root v (vm_phys s))
      \<and> (low virt \<le> low v \<and> low v < low virt + unat span \<longrightarrow>
        mapped_as virt base RW DeviceMemory v (translate ?root v p)
        \<or> res \<noteq> Inr () \<and> translate ?root v p = translate ?root v (vm_phys s))" for v
      using map_as_effect [OF assms(1)] by blast
    then have keep: "\<not> (low virt \<le> low v \<and> low v < low virt + unat span) \<Longrightarrow>
      translate ?root v p = translate ?root v (vm_phys s)" for v by blast
    have okp: "space_ok p ?root" using eff by blast
    show ?thesis
    proof (cases res)
      case (Inl e)
      then have "r = Inl (MapFailed e)" "t = ?s\<lparr>vm_phys := p\<rparr>"
        using run add False addv map by (auto simp: vm_map_def)
      with us okp keep lv show ?thesis by (intro exI [of _ span]) simp
    next
      case (Inr u)
      have le: "unat virt + unat offset < 2 ^ 64" using uv uo fit by simp
      have rt: "r = Inr (virt + offset)" "t = ?s\<lparr>vm_phys := p, vm_log := vm_log s @
          map (\<lambda>i. Invlpg (virt + word_of_nat (4096 * i))) [0..<unat span div 4096]\<rparr>"
        using run add False addv map Inr le
        by (auto simp: vm_map_def invlpg_pages bind_act_Done of_run_Done add_run_Done)
      have ua: "unat (virt + offset) = 0xFFFF900000000000 + unat ?next + unat phys mod 4096"
        using le uv uo by (simp add: unat_add_exact)
      have reg: "\<exists>x. translate ?root (virt + offset + word_of_nat k) p = Some x \<and>
            t_phys x = phys + word_of_nat k \<and> t_rights x = RW \<and> t_memory_type x = DeviceMemory"
        if k: "k < unat len" for k
      proof -
        let ?j = "unat phys mod 4096 + k"
        let ?v = "virt + word_of_nat ?j"
        have o: "offset = word_of_nat (unat phys mod 4096)" unfolding uo [symmetric] by simp
        have v: "virt + offset + word_of_nat k = ?v" by (simp add: o)
        have j: "?j < unat span" using k sp(2) by simp
        have "low virt + ?j < 2 ^ 48" using j lv fit by simp
        then have lo: "low ?v = low virt + ?j" by (rule low_offset)
        then have "mapped_as virt base RW DeviceMemory ?v (translate ?root ?v p)"
          using eff [of ?v] j Inr by auto
        then obtain x where x: "translate ?root ?v p = Some x" "t_phys x = base + word_of_nat ?j"
          "t_rights x = RW" "t_memory_type x = DeviceMemory"
          using lo by (auto simp: mapped_as_def split: option.splits)
        have "base + offset = phys" by (simp add: base_def)
        then have "base + word_of_nat ?j = phys + word_of_nat k" by (simp add: o add.assoc [symmetric])
        with x(2) have "t_phys x = phys + word_of_nat k" by (simp only:)
        with x(1,3,4) show ?thesis unfolding v by blast
      qed
      show ?thesis
        unfolding rt sum.case
        using us okp keep lv ns fit ua reg by (intro exI [of _ span]) (simp add: virt_def)
    qed
  qed
qed

text \<open>A device is reached where \<open>map_device\<close> says, uncached, and the window is never shared. On
  success, the address returned and every one of the \<open>len\<close> after it translates to the register asked
  for, read-write, supervisor-only and uncacheable; the addresses used are the next of the window, the
  count of them moves past, and each page is flushed from the TLB. Whatever the outcome every address
  outside those translates as before; and a request that does not fit changes no table, though it too
  uses up the window.\<close>

theorem device_mapped_uncached:
  assumes "space_ok (vm_phys s) (tb_root tb)" "unat phys + unat len + 2 ^ 13 \<le> 2 ^ 52"
    and "unat (vm_device_next s) \<le> 2 ^ 30 + 2 ^ 53"
    and "vm_map_device tb phys len s = Some (Done (r, t))"
  shows "\<exists>span. unat span = (unat len + unat phys mod 4096 + 4095) div 4096 * 4096 \<and>
    vm_device_next t = vm_device_next s + span \<and> space_ok (vm_phys t) (tb_root tb) \<and>
    (\<forall>v. \<not> (2 ^ 47 + 2 ^ 44 + unat (vm_device_next s) \<le> low v \<and>
          low v < 2 ^ 47 + 2 ^ 44 + unat (vm_device_next s) + unat span) \<longrightarrow>
        translate (tb_root tb) v (vm_phys t) = translate (tb_root tb) v (vm_phys s)) \<and>
    (case r of
       Inl e \<Rightarrow> vm_log t = vm_log s \<and> (e = DeviceWindowFull \<longrightarrow> vm_phys t = vm_phys s)
     | Inr a \<Rightarrow> unat (vm_device_next t) \<le> 2 ^ 30 \<and>
         unat a = 0xFFFF900000000000 + unat (vm_device_next s) + unat phys mod 4096 \<and>
         (\<forall>k < unat len. \<exists>x. translate (tb_root tb) (a + word_of_nat k) (vm_phys t) = Some x \<and>
            t_phys x = phys + word_of_nat k \<and> t_rights x = RW \<and> t_memory_type x = DeviceMemory) \<and>
         vm_log t = vm_log s @ map (\<lambda>i. Invlpg (DEVICE_BASE + vm_device_next s + word_of_nat (4096 * i)))
           [0..<unat span div 4096])"
  by (rule device_window_effect [OF assms])

lemma window_maps: "fst (map_device False 0x1000 0xFFFF900000000000 0xFEE00000 0x1000 RW sample_tree) = Inr ()"
  by code_simp

definition sample_vm :: vm where
  "sample_vm = \<lparr>vm_phys = sample_tree, vm_device_next = 0, vm_log = []\<rparr>"

definition sample_tables :: kernel_tables where
  "sample_tables = \<lparr>tb_root = 0x1000, tb_linear_bytes = 0, tb_gib_pages = False, tb_smep = False,
     tb_smap = False\<rparr>"

lemma local_apic_mapped: "\<exists>t. vm_map_device sample_tables 0xFEE00000 0x1000 sample_vm =
    Some (Done (Inr 0xFFFF900000000000, t))"
proof -
  let ?x = "map_device False 0x1000 0xFFFF900000000000 0xFEE00000 0x1000 RW sample_tree"
  have x: "?x = (Inr (), snd ?x)" using window_maps by (simp add: prod_eq_iff)
  have next_m: "next_multiple 0x1000 PAGE_SIZE = Done 0x1000"
    by (simp add: next_multiple_def checked_next_multiple_of_def PAGE_SIZE_def)
  have offset: "(0xFEE00000 :: u64) AND (PAGE_SIZE - 1) = 0" by (simp add: PAGE_SIZE_def)
  have adds: "add_run (0x1000 :: u64) 0 = Done 0x1000" "add_run (0 :: u64) 0x1000 = Done 0x1000"
    "add_run DEVICE_BASE 0 = Done 0xFFFF900000000000"
    "add_run (0xFFFF900000000000 :: u64) 0 = Done 0xFFFF900000000000"
    by (simp_all add: add_run_Done DEVICE_BASE_def)
  have w: "\<not> DEVICE_WINDOW < 0x1000" by (simp add: DEVICE_WINDOW_def)
  have m: "vm_map (map_device False 0x1000 0xFFFF900000000000 0xFEE00000 0x1000 RW)
      (sample_vm\<lparr>vm_device_next := 0x1000\<rparr>) =
    Some (Done (Inr (), sample_vm\<lparr>vm_device_next := 0x1000, vm_phys := snd ?x\<rparr>))"
    by (subst vm_map_def) (simp add: sample_vm_def, subst x, simp add: sample_vm_def)
  have z: "vm_device_next sample_vm = 0" by (simp add: sample_vm_def)
  show ?thesis
    unfolding vm_map_device_def Let_def offset
    by (simp add: adds next_m w m z sample_tables_def invlpg_pages)
qed

theorem device_mapped_uncached_witness:
  "\<exists>t x. vm_map_device sample_tables 0xFEE00000 0x1000 sample_vm = Some (Done (Inr 0xFFFF900000000000, t)) \<and>
    translate 0x1000 0xFFFF900000000020 (vm_phys t) = Some x \<and> t_phys x = 0xFEE00020 \<and>
    t_memory_type x = DeviceMemory"
proof -
  obtain t where t: "vm_map_device sample_tables 0xFEE00000 0x1000 sample_vm =
    Some (Done (Inr 0xFFFF900000000000, t))" using local_apic_mapped by blast
  have a: "space_ok (vm_phys sample_vm) (tb_root sample_tables)"
    using sample_tree_ok by (simp add: sample_vm_def sample_tables_def)
  have b: "unat (0xFEE00000 :: u64) + unat (0x1000 :: u64) + 2 ^ 13 \<le> 2 ^ 52"
    "unat (vm_device_next sample_vm) \<le> 2 ^ 30 + 2 ^ 53" by (simp_all add: sample_vm_def)
  have k: "0x20 < unat (0x1000 :: u64)" by simp
  from device_mapped_uncached [OF a b t, unfolded sum.case]
  have "\<forall>k < unat (0x1000 :: u64). \<exists>x. translate (tb_root sample_tables)
      (0xFFFF900000000000 + word_of_nat k) (vm_phys t) = Some x \<and>
      t_phys x = 0xFEE00000 + word_of_nat k \<and> t_rights x = RW \<and> t_memory_type x = DeviceMemory"
    by blast
  from this [rule_format, OF k] t show ?thesis by (auto simp: sample_tables_def)
qed

section \<open>The identity mapping\<close>

lemma lookup_same_page:
  assumes "lookup m v w t = Some (l, e)" "same_page v v' l w"
  shows "lookup m v' w t = Some (l, e)"
  using assms
proof (induction w arbitrary: t)
  case 0
  then show ?case by (auto simp: Let_def same_page_def split: if_splits)
next
  case (Suc w)
  have lw: "l \<le> Suc w" using lookup_level [OF Suc.prems(1)] .
  then have i: "index v' (Suc w) = index v (Suc w)" using Suc.prems(2) by (simp add: same_page_def)
  let ?e = "entries m t (index v (Suc w))"
  have b0: "bit ?e 0" using Suc.prems(1) by (simp add: Let_def split: if_splits)
  show ?case
  proof (cases "bit ?e 7")
    case True
    with Suc.prems(1) b0 i show ?thesis by (auto simp: Let_def)
  next
    case False
    with Suc.prems(1) b0 have r: "lookup m v w (?e AND PTE_ADDR_MASK) = Some (l, e)"
      by (simp add: Let_def)
    have "same_page v v' l w" using Suc.prems(2) by (simp add: same_page_def)
    from Suc.IH [OF r this] b0 False i show ?thesis by (simp add: Let_def)
  qed
qed

lemma level_size_inj: "level_size l = level_size k \<Longrightarrow> l \<le> 2 \<Longrightarrow> k \<le> 2 \<Longrightarrow> l = k"
  by (auto simp: level_size_def PAGE_SIZE_def SIZE_2M_def SIZE_1G_def split: if_splits)

lemma half_neighbour:
  "(even n \<Longrightarrow> k = n + 1) \<Longrightarrow> (odd n \<Longrightarrow> k + 1 = n) \<Longrightarrow> k div 2 = n div 2 \<and> k \<noteq> (n::nat)"
  by (cases "even n") auto

lemma sub_below_mod: "k \<le> a mod W \<Longrightarrow> (a - k) mod W = a mod W - (k::nat)"
proof (cases "W = 0")
  case False
  assume k: "k \<le> a mod W"
  have "a - k = (a mod W - k) + W * (a div W)" using k mult_div_mod_eq [of W a] by linarith
  then have "(a - k) mod W = (a mod W - k) mod W" by simp
  moreover have "a mod W - k < W" using False by (simp add: less_imp_diff_less)
  ultimately show ?thesis by simp
qed simp

text \<open>A page that was absent and whose neighbours did not change is mapped by a leaf of its own.\<close>

lemma single_page_leaf:
  assumes ok: "space_ok m root" "space_ok m' root"
    and absent: "translate root p m = None"
    and same: "\<And>v. low v div 4096 \<noteq> low p div 4096 \<Longrightarrow> translate root v m' = translate root v m"
    and t: "translate root p m' = Some t"
  shows "t_page_size t = PAGE_SIZE"
proof -
  have ok3: "tree_ok m 3 root" "tree_ok m' 3 root" using ok by (simp_all add: space_ok_def)
  obtain l e where le: "lookup m' p 3 root = Some (l, e)" "t = leaf_translation p (l, e)"
    using t ok3(2) by (auto simp: translate_lookup)
  have l: "l \<le> 2" using ok(2) le(1) by (auto simp: space_ok_def)
  have "l = 0"
  proof (rule ccontr)
    assume "l \<noteq> 0"
    define q where "q = (if even (low p div 4096) then p + 4096 else p - 4096)"
    have ql: "low q div 4096 \<noteq> low p div 4096 \<and> page_no l q = page_no l p"
    proof -
      have big: "low x div 2 ^ (12 + 9 * l) = low x div 4096 div 2 div 2 ^ (9 * l - 1)" for x
      proof -
        have "(2::nat) ^ (12 + 9 * l) = 4096 * 2 * 2 ^ (9 * l - 1)"
          using \<open>l \<noteq> 0\<close> by (simp add: power_add power_eq_if [of 2 "9 * l"])
        then show ?thesis by (simp only: div_mult2_eq)
      qed
      have up: "low q div 4096 = low p div 4096 + 1" if "even (low p div 4096)"
      proof -
        have "low p < 2 ^ 48" by (simp add: low_def)
        then have "low p div 4096 < 2 ^ 36" by (simp add: less_mult_imp_div_less)
        then have "low p div 4096 + 1 < 2 ^ 36" using that by (auto simp: less_eq_Suc_le dest!: le_neq_implies_less)
        moreover have "low p < (low p div 4096 + 1) * 4096" using dividend_less_div_times [of 4096 "low p"] by simp
        ultimately have "low p + 4096 < 2 ^ 48" by simp
        then have "low (p + word_of_nat 4096) = low p + 4096" by (rule low_offset)
        then show ?thesis using that by (simp add: q_def)
      qed
      have down: "low q div 4096 + 1 = low p div 4096" if "odd (low p div 4096)"
      proof -
        have ge: "4096 \<le> low p" using that by (metis div_less even_zero not_le_imp_less)
        have lq: "q + word_of_nat 4096 = p" using that by (simp add: q_def)
        have "4096 \<le> unat p" using ge mod_less_eq_dividend [of "unat p" "2 ^ 48"] by (simp add: low_def)
        then have "unat q = unat p - 4096" using that by (simp add: q_def unat_sub word_le_nat_alt)
        then have "low q = low p - 4096"
          using ge by (simp add: low_def sub_below_mod)
        then show ?thesis using ge by simp
      qed
      have half: "low q div 4096 div 2 = low p div 4096 div 2 \<and> low q div 4096 \<noteq> low p div 4096"
        by (rule half_neighbour) (use up down in simp_all)
      then show ?thesis unfolding page_no_def big by simp
    qed
    then have "same_page p q l 3" by (simp add: same_page_no)
    from lookup_same_page [OF le(1) this] have q': "lookup m' q 3 root = Some (l, e)" .
    then have "translate root q m = Some (leaf_translation q (l, e))"
      using same [of q] ql ok3(2) by (simp add: translate_lookup)
    then obtain k d where kd: "lookup m q 3 root = Some (k, d)"
      "leaf_translation q (k, d) = leaf_translation q (l, e)"
      using ok3(1) by (auto simp: translate_lookup)
    have "k \<le> 2" using ok(1) kd(1) by (auto simp: space_ok_def)
    moreover have "level_size k = level_size l"
      using kd(2) by (simp add: leaf_translation_def)
    ultimately have "k = l" using l level_size_inj by blast
    then have "same_page q p k 3" using ql by (simp add: same_page_no)
    from lookup_same_page [OF kd(1) this] absent ok3(1) show False by (simp add: translate_lookup)
  qed
  then show ?thesis using le(2) by (simp add: leaf_translation_def level_size_def)
qed

lemma page_span: "next_multiple PAGE_SIZE PAGE_SIZE = Done PAGE_SIZE"
  by (simp add: next_multiple_def checked_next_multiple_of_def PAGE_SIZE_def)

lemma each_page_one: "each_page f p PAGE_SIZE s = seq_act (f p) (ret ()) s"
  by (simp add: each_page_def PAGE_SIZE_def)

lemma page_interval:
  assumes "4096 dvd unat p" "unat p + 4096 \<le> 2 ^ 47"
  shows "low v div 4096 = low p div 4096 \<longleftrightarrow> low p \<le> low v \<and> low v < low p + 4096"
proof -
  have "low p = unat p" using assms(2) by (simp add: low_def)
  then show ?thesis using page_no_aligned [of 0 p v] assms(1) by (simp add: page_no_def)
qed

lemma map_identity_effect:
  assumes "space_ok (vm_phys s) (tb_root tb)" "4096 dvd unat p" "unat p + 4096 \<le> 2 ^ 47"
    and "map_identity tb p PAGE_SIZE r s = Some (Done (q, t))"
  shows "space_ok (vm_phys t) (tb_root tb) \<and> vm_device_next t = vm_device_next s \<and>
    (q = Inr () \<longrightarrow> vm_log t = vm_log s @ [Invlpg p]) \<and>
    (low v div 4096 \<noteq> low p div 4096 \<longrightarrow> translate (tb_root tb) v (vm_phys t) = translate (tb_root tb) v (vm_phys s)) \<and>
    (low v div 4096 = low p div 4096 \<longrightarrow>
      mapped_as p p r NormalMemory v (translate (tb_root tb) v (vm_phys t)) \<or>
      q \<noteq> Inr () \<and> translate (tb_root tb) v (vm_phys t) = translate (tb_root tb) v (vm_phys s))"
proof -
  have lp: "low p = unat p" using assms(3) by (simp add: low_def)
  obtain a m where m: "map_normal (tb_gib_pages tb) (tb_root tb) p p PAGE_SIZE r (vm_phys s) = (a, m)"
    by (cases "map_normal (tb_gib_pages tb) (tb_root tb) p p PAGE_SIZE r (vm_phys s)")
  have t: "vm_phys t = m \<and> vm_device_next t = vm_device_next s \<and> (q = Inr () \<longleftrightarrow> a = Inr ()) \<and>
      (q = Inr () \<longrightarrow> vm_log t = vm_log s @ [Invlpg p])"
    using assms(4) m
    by (cases a) (auto simp: map_identity_def page_span vm_map_def each_page_one invlpg_def vm_cpu_def
      on_part_def bind_act_def seq_act_def)
  have m': "map_as (tb_gib_pages tb) (tb_root tb) p p PAGE_SIZE r NormalMemory (vm_phys s) = (a, m)"
    using m by (simp add: map_normal_def)
  have b: "low p + unat PAGE_SIZE \<le> 2 ^ 48" "unat p + unat PAGE_SIZE \<le> 2 ^ 52"
    using assms(3) lp by (simp_all add: PAGE_SIZE_def)
  have ps: "unat PAGE_SIZE = 4096" by (simp add: PAGE_SIZE_def)
  from map_as_effect [OF assms(1) b m', of v] t show ?thesis
    unfolding page_interval [OF assms(2,3)] ps by auto
qed

lemma unmap_identity_effect:
  assumes "space_ok (vm_phys s) (tb_root tb)" "translate (tb_root tb) p (vm_phys s) = Some x"
    and "t_page_size x = PAGE_SIZE"
  obtains t where "unmap_identity tb p PAGE_SIZE s = Some (Done ((), t))"
    "space_ok (vm_phys t) (tb_root tb)" "vm_log t = vm_log s @ [Invlpg p]"
    "\<And>v. translate (tb_root tb) v (vm_phys t) =
      (if low v div 4096 = low p div 4096 then None else translate (tb_root tb) v (vm_phys s))"
proof -
  obtain w where w: "unmap (tb_root tb) p (vm_phys s) = (Some x, w)"
    using unmap_effect [OF assms(1)] assms(2) by (metis surj_pair)
  note u = unmap_effect [OF assms(1) w]
  have ps: "unat PAGE_SIZE = 4096" by (simp add: PAGE_SIZE_def)
  let ?t = "s\<lparr>vm_phys := w, vm_log := vm_log s @ [Invlpg p]\<rparr>"
  have "unmap_identity tb p PAGE_SIZE s = Some (Done ((), ?t))" using w
    by (simp add: unmap_identity_def page_span each_page_one unmap_page_def invlpg_def vm_cpu_def
      on_part_def bind_act_def seq_act_def)
  moreover have "space_ok (vm_phys ?t) (tb_root tb)" "vm_log ?t = vm_log s @ [Invlpg p]" using u by simp_all
  moreover have "translate (tb_root tb) v (vm_phys ?t) =
      (if low v div 4096 = low p div 4096 then None else translate (tb_root tb) v (vm_phys s))" for v
    using u [of v] assms(3) ps by simp
  ultimately show ?thesis by (rule that)
qed

text \<open>a core's identity page comes and goes without a trace. Mapping an absent page at its own
  physical address, if it succeeds, gives that page the rights asked for and leaves every other address
  as it was; taking it out again always returns, and then every address, that page included,
  translates as before, with the page flushed from the TLB both times.\<close>

theorem identity_roundtrip:
  assumes "space_ok (vm_phys s) (tb_root tb)" "4096 dvd unat p" "unat p + 4096 \<le> 2 ^ 47"
    and "\<forall>v. low v div 4096 = low p div 4096 \<longrightarrow> translate (tb_root tb) v (vm_phys s) = None"
    and "map_identity tb p PAGE_SIZE r s = Some (Done (Inr (), t))"
  shows "(\<forall>v. if low v div 4096 = low p div 4096
        then mapped_as p p r NormalMemory v (translate (tb_root tb) v (vm_phys t))
        else translate (tb_root tb) v (vm_phys t) = translate (tb_root tb) v (vm_phys s)) \<and>
    (\<exists>w. unmap_identity tb p PAGE_SIZE t = Some (Done ((), w)) \<and>
      (\<forall>v. translate (tb_root tb) v (vm_phys w) = translate (tb_root tb) v (vm_phys s)) \<and>
      space_ok (vm_phys w) (tb_root tb) \<and> vm_log w = vm_log s @ [Invlpg p, Invlpg p])"
proof -
  let ?root = "tb_root tb"
  note e = map_identity_effect [OF assms(1,2,3,5)]
  have okt: "space_ok (vm_phys t) ?root" using e by blast
  have inside: "mapped_as p p r NormalMemory v (translate ?root v (vm_phys t))"
    if "low v div 4096 = low p div 4096" for v using e [of v] that by simp
  have outside: "translate ?root v (vm_phys t) = translate ?root v (vm_phys s)"
    if "low v div 4096 \<noteq> low p div 4096" for v using e [of v] that by simp
  obtain x where x: "translate ?root p (vm_phys t) = Some x"
    using inside [of p] by (auto simp: mapped_as_def split: option.splits)
  have "translate ?root p (vm_phys s) = None" using assms(4) by simp
  from unmap_identity_effect [OF okt x single_page_leaf [OF assms(1) okt this outside x]] obtain w where
    w: "unmap_identity tb p PAGE_SIZE t = Some (Done ((), w))" "space_ok (vm_phys w) ?root"
      "vm_log w = vm_log t @ [Invlpg p]"
      "\<And>v. translate ?root v (vm_phys w) =
        (if low v div 4096 = low p div 4096 then None else translate ?root v (vm_phys t))" by blast
  have "translate ?root v (vm_phys w) = translate ?root v (vm_phys s)" for v
    using w(4) [of v] outside [of v] assms(4) by auto
  then show ?thesis using w inside outside e by auto
qed

lemma trampoline_maps: "fst (map_normal False 0x1000 0x8000 0x8000 0x1000 RX sample_tree) = Inr ()"
  by code_simp

lemma sample_absent: "translate 0x1000 v sample_tree = None"
proof -
  have "entries sample_tree 0x1000 = (\<lambda>_. 0)" by (simp add: sample_tree_def)
  then show ?thesis
    using sample_tree_ok by (simp add: translate_lookup space_ok_def empty_table)
qed

theorem identity_roundtrip_witness:
  "\<exists>t w. map_identity sample_tables 0x8000 PAGE_SIZE RX sample_vm = Some (Done (Inr (), t)) \<and>
    unmap_identity sample_tables 0x8000 PAGE_SIZE t = Some (Done ((), w)) \<and>
    translate 0x1000 0x8000 (vm_phys t) \<noteq> None \<and> translate 0x1000 0x8000 (vm_phys w) = None"
proof -
  let ?x = "map_normal False 0x1000 0x8000 0x8000 0x1000 RX sample_tree"
  have x: "?x = (Inr (), snd ?x)" using trampoline_maps by (simp add: prod_eq_iff)
  have ps: "PAGE_SIZE = 0x1000" by (simp add: PAGE_SIZE_def)
  have "vm_map (map_normal False 0x1000 0x8000 0x8000 PAGE_SIZE RX) sample_vm =
    Some (Done (Inr (), sample_vm\<lparr>vm_phys := snd ?x\<rparr>))"
    by (subst vm_map_def) (simp add: sample_vm_def ps, subst x, simp add: sample_vm_def)
  then obtain t where t: "map_identity sample_tables 0x8000 PAGE_SIZE RX sample_vm = Some (Done (Inr (), t))"
    by (simp add: map_identity_def page_span sample_tables_def each_page_one invlpg_def vm_cpu_def
      on_part_def bind_act_def seq_act_def)
  have a: "space_ok (vm_phys sample_vm) (tb_root sample_tables)"
    using sample_tree_ok by (simp add: sample_vm_def sample_tables_def)
  have b: "4096 dvd unat (0x8000 :: u64)" "unat (0x8000 :: u64) + 4096 \<le> 2 ^ 47" by simp_all
  have c: "\<forall>v. low v div 4096 = low 0x8000 div 4096 \<longrightarrow>
      translate (tb_root sample_tables) v (vm_phys sample_vm) = None"
    by (simp add: sample_vm_def sample_tables_def sample_absent)
  have n: "translate 0x1000 v (vm_phys sample_vm) = None" for v
    by (simp add: sample_vm_def sample_absent)
  have r: "tb_root sample_tables = 0x1000" by (simp add: sample_tables_def)
  note both = identity_roundtrip [OF a b c t, unfolded r]
  obtain w where w: "unmap_identity sample_tables 0x8000 PAGE_SIZE t = Some (Done ((), w))"
    "translate 0x1000 0x8000 (vm_phys w) = None"
    using both n by auto
  have "mapped_as 0x8000 0x8000 RX NormalMemory 0x8000 (translate 0x1000 0x8000 (vm_phys t))"
    using both by (metis (full_types))
  with w t show ?thesis by (auto simp: mapped_as_def split: option.splits)
qed

end
