(* ===== verification/Trap.thy ===== *)
theory Trap imports Device begin

text \<open>
  What an interrupt or an exception leaves behind, \<open>crates/arch-x86_64/src/trap.rs\<close>: the frame the
  stubs build, which vectors carry an error code, their names, and the reading of a page fault's
  error code. The stubs themselves are assembly.
\<close>

record trap_frame =
  tf_rax :: u64
  tf_rbx :: u64
  tf_rcx :: u64
  tf_rdx :: u64
  tf_rsi :: u64
  tf_rdi :: u64
  tf_rbp :: u64
  tf_r8 :: u64
  tf_r9 :: u64
  tf_r10 :: u64
  tf_r11 :: u64
  tf_r12 :: u64
  tf_r13 :: u64
  tf_r14 :: u64
  tf_r15 :: u64
  tf_vector :: u64
  tf_error_code :: u64
  tf_rip :: u64
  tf_cs :: u64
  tf_rflags :: u64
  tf_rsp :: u64
  tf_ss :: u64

definition from_user :: "trap_frame \<Rightarrow> bool" where
  "from_user f = (tf_cs f AND 3 \<noteq> 0)"

definition HAS_ERROR_CODE :: "u8 list" where
  "HAS_ERROR_CODE = [8, 10, 11, 12, 13, 14, 17, 21, 29, 30]"

fun holds_vector :: "u8 list \<Rightarrow> u8 \<Rightarrow> bool" where
  "holds_vector [] v = False"
| "holds_vector (x # xs) v = (if x = v then True else holds_vector xs v)"

definition pushes_error_code :: "u8 \<Rightarrow> bool" where
  "pushes_error_code v = holds_vector HAS_ERROR_CODE v"

definition vector_name :: "u64 \<Rightarrow> string" where
  "vector_name v =
     (if v = 0 then ''#DE divide error''
      else if v = 1 then ''#DB debug''
      else if v = 2 then ''NMI''
      else if v = 3 then ''#BP breakpoint''
      else if v = 4 then ''#OF overflow''
      else if v = 5 then ''#BR bound range exceeded''
      else if v = 6 then ''#UD invalid opcode''
      else if v = 7 then ''#NM device not available''
      else if v = 8 then ''#DF double fault''
      else if v = 10 then ''#TS invalid TSS''
      else if v = 11 then ''#NP segment not present''
      else if v = 12 then ''#SS stack-segment fault''
      else if v = 13 then ''#GP general protection fault''
      else if v = 14 then ''#PF page fault''
      else if v = 16 then ''#MF x87 floating-point error''
      else if v = 17 then ''#AC alignment check''
      else if v = 18 then ''#MC machine check''
      else if v = 19 then ''#XM SIMD floating-point error''
      else if v = 20 then ''#VE virtualisation exception''
      else if v = 21 then ''#CP control protection''
      else if v = 28 then ''#HV hypervisor injection''
      else if v = 29 then ''#VC VMM communication''
      else if v = 30 then ''#SX security exception''
      else if v = 9 \<or> v = 15 \<or> 22 \<le> v \<and> v \<le> 27 \<or> v = 31 then ''reserved''
      else ''external interrupt'')"

record page_fault_cause =
  pf_protection_violation :: bool
  pf_write :: bool
  pf_user :: bool
  pf_reserved_bit :: bool
  pf_instruction_fetch :: bool

definition from_error_code :: "u64 \<Rightarrow> page_fault_cause" where
  "from_error_code code = \<lparr>
     pf_protection_violation = (code AND push_bit 0 1 \<noteq> 0),
     pf_write = (code AND push_bit 1 1 \<noteq> 0),
     pf_user = (code AND push_bit 2 1 \<noteq> 0),
     pf_reserved_bit = (code AND push_bit 3 1 \<noteq> 0),
     pf_instruction_fetch = (code AND push_bit 4 1 \<noteq> 0)\<rparr>"

definition cause_as_str :: "page_fault_cause \<Rightarrow> string" where
  "cause_as_str c =
     (if pf_reserved_bit c then ''reserved bit set in a page-table entry''
      else if pf_protection_violation c then
        if pf_instruction_fetch c then ''instruction fetch from a no-execute page''
        else if pf_write c then ''write to a read-only page''
        else if pf_user c then ''user read of a supervisor page''
        else ''supervisor read of a page it may not read''
      else if pf_instruction_fetch c then ''instruction fetch from an unmapped page''
      else if pf_write c then ''write to an unmapped page''
      else ''read from an unmapped page'')"

end
