(* ===== verification/Irq.thy ===== *)
theory Irq imports Apic Pic Timers Vm Acpi Trap begin

text \<open>
  Device interrupts, \<open>crates/kernel/src/irq.rs\<close>: which controller delivers, what is acknowledged, the
  counts, the bring-up of the controllers and the clocks, and the self-tests that take real
  interrupts. The statics are one record; a driver behind a mapping is the address of its registers.
  What the boot prints is left out, but not the registers it reads to print them. The frames that
  arrive while interrupts are on are an argument, like the hardware's other answers a function of the
  history. One core runs this, so its spin locks are never contended.
\<close>

section \<open>State\<close>

record irqs =
  irq_vm :: vm
  pic_base :: u8
  lapic_at :: "u64 option"
  ioapic_at :: "(u64 \<times> u32) option"
  hpet_at :: "(u64 \<times> capabilities) option"
  using_apic :: bool
  timer_vector :: u8
  n_ticks :: u64
  n_ring3 :: u64
  n_unexpected :: u64
  n_spurious :: u64
  n_apic_spurious :: u64
  timer_reload :: u32
  clock_page :: u64
  resched_asked :: bool

definition PIC_BASE :: u8 where "PIC_BASE = 32"
definition IRQ_TIMER :: u8 where "IRQ_TIMER = 0"
definition SELFTEST_HZ :: u32 where "SELFTEST_HZ = 1000"
definition SELFTEST_TICKS :: u64 where "SELFTEST_TICKS = 8"
definition SELFTEST_PATIENCE :: nat where "SELFTEST_PATIENCE = 20000000"
definition APIC_TIMER_VECTOR :: u8 where "APIC_TIMER_VECTOR = 48"
definition LAPIC_TIMER_VECTOR :: u8 where "LAPIC_TIMER_VECTOR = 49"
definition TIMER_HZ :: u32 where "TIMER_HZ = 100"
definition TIMER_DIVISOR :: u32 where "TIMER_DIVISOR = 16"
definition CALIBRATION_NS :: u64 where "CALIBRATION_NS = 20000000"
definition APIC_SPURIOUS_VECTOR :: u8 where "APIC_SPURIOUS_VECTOR = 255"

abbreviation log_of :: "irqs \<Rightarrow> history" where "log_of w \<equiv> vm_log (irq_vm w)"

definition with_log :: "history \<Rightarrow> irqs \<Rightarrow> irqs" where
  "with_log h w = w\<lparr>irq_vm := (irq_vm w)\<lparr>vm_log := h\<rparr>\<rparr>"

text \<open>A step of the hardware, of the kernel's tables, and of the statics.\<close>

definition on_hw :: "(history, 'a) act \<Rightarrow> (irqs, 'a) act" where
  "on_hw f = on_part log_of with_log f"

definition on_vm :: "(vm, 'a) act \<Rightarrow> (irqs, 'a) act" where
  "on_vm f = on_part irq_vm (\<lambda>v w. w\<lparr>irq_vm := v\<rparr>) f"

definition set_irqs :: "(irqs \<Rightarrow> irqs) \<Rightarrow> (irqs, unit) act" where
  "set_irqs g = (\<lambda>w. Some (Done ((), g w)))"

definition look_irqs :: "(irqs \<Rightarrow> 'a) \<Rightarrow> (irqs, 'a) act" where
  "look_irqs g = (\<lambda>w. Some (Done (g w, w)))"

section \<open>Delivery\<close>

definition is_device_vector :: "u64 \<Rightarrow> bool" where
  "is_device_vector v = (ucast PIC_BASE \<le> v \<and> v < 256)"

definition publish_ticks :: "u64 \<Rightarrow> (irqs, unit) act" where
  "publish_ticks ticks =
     bind_act (look_irqs clock_page) (\<lambda>at.
     when_act (at \<noteq> 0) (on_hw (write_volatile at ticks)))"

definition ask_resched :: "(irqs, unit) act" where
  "ask_resched = set_irqs (\<lambda>w. w\<lparr>resched_asked := True\<rparr>)"

text \<open>The epilogue consumes the request; what it does with one is \<open>Sched.on_irq_epilogue\<close>.\<close>

definition irq_epilogue :: "(irqs, unit) act" where
  "irq_epilogue =
     bind_act (look_irqs resched_asked) (\<lambda>asked.
     seq_act (set_irqs (\<lambda>w. w\<lparr>resched_asked := False\<rparr>))
     (set_irqs (\<lambda>w. with_log (log_of w @ [Epilogue asked]) w)))"

definition count_unexpected :: "(irqs, unit) act" where
  "count_unexpected = set_irqs (\<lambda>w. w\<lparr>n_unexpected := n_unexpected w + 1\<rparr>)"

definition dispatch_pic :: "machine \<Rightarrow> trap_frame \<Rightarrow> (irqs, unit) act" where
  "dispatch_pic hw f =
     bind_act (of_run (sub_run (tf_vector f) (ucast PIC_BASE))) (\<lambda>line.
     if 255 < line \<or> \<not> ucast line < LINES then count_unexpected
     else let irq = ucast line in
       bind_act (on_hw (is_spurious (ports hw) irq)) (\<lambda>spurious.
       if spurious
       then seq_act (set_irqs (\<lambda>w. w\<lparr>n_spurious := n_spurious w + 1\<rparr>))
         (on_hw (end_of_spurious (ports hw) irq))
       else seq_act (if irq = IRQ_TIMER then set_irqs (\<lambda>w. w\<lparr>n_ticks := n_ticks w + 1\<rparr>)
           else count_unexpected)
         (on_hw (pic_eoi (ports hw) irq))))"

definition timer_tick :: "trap_frame \<Rightarrow> (irqs, unit) act" where
  "timer_tick f =
     bind_act (look_irqs n_ticks) (\<lambda>before.
     seq_act (set_irqs (\<lambda>w. w\<lparr>n_ticks := n_ticks w + 1\<rparr>))
     (bind_act (of_run (add_run before 1)) (\<lambda>ticks.
     seq_act (when_act (from_user f) (set_irqs (\<lambda>w. w\<lparr>n_ring3 := n_ring3 w + 1\<rparr>)))
     (seq_act (publish_ticks ticks) ask_resched))))"

definition with_lapic :: "machine \<Rightarrow> (history mmio32 \<Rightarrow> (history, unit) act) \<Rightarrow> (irqs, unit) act" where
  "with_lapic hw f =
     bind_act (look_irqs lapic_at) (\<lambda>slot.
     case slot of None \<Rightarrow> ret () | Some base \<Rightarrow> on_hw (f (mapped32 hw base)))"

definition dispatch_apic :: "machine \<Rightarrow> trap_frame \<Rightarrow> (irqs, unit) act" where
  "dispatch_apic hw f =
     (let vector = ucast (tf_vector f) in
      if vector = APIC_SPURIOUS_VECTOR
      then set_irqs (\<lambda>w. w\<lparr>n_apic_spurious := n_apic_spurious w + 1\<rparr>)
      else bind_act (look_irqs timer_vector) (\<lambda>timer.
        seq_act (if vector = timer then timer_tick f else count_unexpected)
        (with_lapic hw lapic_eoi)))"

definition dispatch :: "machine \<Rightarrow> trap_frame \<Rightarrow> (irqs, unit) act" where
  "dispatch hw f =
     bind_act (look_irqs using_apic) (\<lambda>apic.
     seq_act (if apic then dispatch_apic hw f else dispatch_pic hw f) irq_epilogue)"

section \<open>Bring-up\<close>

datatype irq_error =
    VmFailed vm_error
  | LapicNotEnabled
  | NoIoApic
  | NoHpet
  | HpetUndecoded
  | HpetNotRunning
  | HpetNotAdvancing
  | LapicNotUp
  | DivisorRefused
  | TimerDidNotCount
  | NoTimePassed
  | TimerMeasuredStopped
  | NotCalibrated

text \<open>The masks it reports, which should all be set.\<close>

definition irq_init :: "machine \<Rightarrow> (irqs, u16) act" where
  "irq_init hw =
     bind_act (on_hw (pic_remap (ports hw) PIC_BASE)) (\<lambda>base.
     seq_act (set_irqs (\<lambda>w. w\<lparr>pic_base := base\<rparr>))
     (bind_act (on_hw (masks (ports hw))) (\<lambda>ms.
     bind_act (of_run (add_run (ucast base :: u16) (ucast LINES))) (\<lambda>upper. ret ms))))"

definition map_registers :: "kernel_tables \<Rightarrow> u64 \<Rightarrow> u64 \<Rightarrow> (irqs, irq_error + u64) act" where
  "map_registers tb phys len =
     bind_act (on_vm (vm_map_device tb phys len)) (\<lambda>r. ret (map_sum VmFailed id r))"

definition init_lapic :: "machine \<Rightarrow> u64 \<Rightarrow> (irqs, bool) act" where
  "init_lapic hw virt =
     (let d = mapped32 hw virt in
      bind_act (on_hw (read_msr hw IA32_APIC_BASE)) (\<lambda>base.
      seq_act (on_hw (write_msr IA32_APIC_BASE (base OR APIC_BASE_ENABLE)))
      (seq_act (on_hw (lapic_enable d APIC_SPURIOUS_VECTOR))
      (bind_act (on_hw (lapic_id d)) (\<lambda>i.
       bind_act (on_hw (lapic_version d)) (\<lambda>version.
       bind_act (on_hw (lapic_is_enabled d)) (\<lambda>enabled.
       bind_act (on_hw (lvt_entries d)) (\<lambda>n.
       bind_act (on_hw (lapic_spurious_vector d)) (\<lambda>s.
       seq_act (set_irqs (\<lambda>w. w\<lparr>lapic_at := Some virt\<rparr>)) (ret enabled))))))))))"

definition init_ioapic :: "machine \<Rightarrow> u64 \<Rightarrow> u32 \<Rightarrow> (irqs, unit) act" where
  "init_ioapic hw virt gsi_base =
     (let d = mapped32 hw virt in
      seq_act (on_hw (ioapic_mask_all d gsi_base))
      (bind_act (on_hw (ioapic_id d)) (\<lambda>i.
       bind_act (on_hw (ioapic_version d)) (\<lambda>version.
       bind_act (on_hw (entry_count d)) (\<lambda>count.
       bind_act (on_hw (entry_count d)) (\<lambda>again.
       bind_act (of_run (add_run gsi_base again)) (\<lambda>upper.
       set_irqs (\<lambda>w. w\<lparr>ioapic_at := Some (virt, gsi_base)\<rparr>))))))))"

definition init_apic :: "machine \<Rightarrow> kernel_tables \<Rightarrow> facts \<Rightarrow> (irqs, irq_error + unit) act" where
  "init_apic hw tb fs =
     seq_act (on_hw (pic_mask_all (ports hw)))
     (try_sum (map_registers tb (f_local_apic fs) 0x1000) (\<lambda>lapic_virt.
      bind_act (init_lapic hw lapic_virt) (\<lambda>enabled.
      if \<not> enabled then ret (Inl LapicNotEnabled)
      else case f_io_apic fs of
        None \<Rightarrow> ret (Inl NoIoApic)
      | Some (io_phys, gsi_base) \<Rightarrow>
          try_sum (map_registers tb io_phys 0x20) (\<lambda>io_virt.
          seq_act (init_ioapic hw io_virt gsi_base)
          (seq_act (set_irqs (\<lambda>w. w\<lparr>using_apic := True\<rparr>)) (ret (Inr ())))))))"

section \<open>Time\<close>

definition saturating_sub :: "u64 \<Rightarrow> u64 \<Rightarrow> u64" where
  "saturating_sub a b = (if b \<le> a then a - b else 0)"

definition now_ns :: "machine \<Rightarrow> (irqs, u64 option) act" where
  "now_ns hw =
     bind_act (look_irqs hpet_at) (\<lambda>slot.
     case slot of
       None \<Rightarrow> ret None
     | Some (base, caps) \<Rightarrow>
         bind_act (on_hw (hpet_now (mapped64 hw base))) (\<lambda>now.
         ret (Some (elapsed_ns caps 0 now))))"

text \<open>The predicate \<open>deadline_micros\<close> returns: when it started, and how long it waits.\<close>

record deadline =
  dl_start :: "u64 option"
  dl_span :: u64

definition deadline_micros :: "machine \<Rightarrow> u64 \<Rightarrow> (irqs, deadline) act" where
  "deadline_micros hw micros =
     bind_act (now_ns hw) (\<lambda>start.
     ret \<lparr>dl_start = start, dl_span = saturating_mul micros 1000\<rparr>)"

definition deadline_passed :: "machine \<Rightarrow> deadline \<Rightarrow> (irqs, bool) act" where
  "deadline_passed hw dl =
     bind_act (now_ns hw) (\<lambda>now.
     ret (case (dl_start dl, now) of
       (Some a, Some b) \<Rightarrow> dl_span dl \<le> saturating_sub b a
     | _ \<Rightarrow> False))"

definition stall_micros :: "machine \<Rightarrow> u64 \<Rightarrow> (irqs, unit) act" where
  "stall_micros hw micros =
     bind_act (look_irqs hpet_at) (\<lambda>slot.
     case slot of
       None \<Rightarrow> ret ()
     | Some (base, caps) \<Rightarrow> on_hw (spin_ns (mapped64 hw base) caps (saturating_mul micros 1000)))"

text \<open>A driver's registers, reached from the kernel's state: what its operations take when their clock
  is a deadline.\<close>

definition over_irqs :: "history mmio32 \<Rightarrow> irqs mmio32" where
  "over_irqs d = \<lparr>
     read32 = (\<lambda>offset w. bind_run (read32 d offset (log_of w)) (\<lambda>(v, h). Done (v, with_log h w))),
     write32 = (\<lambda>offset v w. bind_run (write32 d offset v (log_of w)) (\<lambda>h. Done (with_log h w)))\<rparr>"

text \<open>How far the local APIC's timer counts in a second, and the reading it comes from.\<close>

definition calibrate :: "machine \<Rightarrow> u64 \<Rightarrow> capabilities \<Rightarrow> u64 \<Rightarrow> (irqs, irq_error + u64) act" where
  "calibrate hw hpet_virt caps lapic_virt =
     (let d = mapped32 hw lapic_virt; h = mapped64 hw hpet_virt in
      bind_act (on_hw (set_timer_divisor d TIMER_DIVISOR)) (\<lambda>divides.
      if \<not> divides then ret (Inl DivisorRefused)
      else seq_act (on_hw (start_timer_masked d (- 1)))
        (bind_act (on_hw (hpet_now h)) (\<lambda>hpet_start.
         seq_act (on_hw (spin_ns h caps CALIBRATION_NS))
         (bind_act (on_hw (timer_count d)) (\<lambda>apic_left.
          bind_act (on_hw (hpet_now h)) (\<lambda>hpet_end.
          seq_act (on_hw (stop_timer d))
          (let apic_elapsed = ucast (- 1 - apic_left) :: u64;
               hpet_elapsed_ns = elapsed_ns caps hpet_start hpet_end
           in if apic_elapsed = 0 then ret (Inl TimerDidNotCount)
              else if hpet_elapsed_ns = 0 then ret (Inl NoTimePassed)
              else ret (Inr (word_of_nat
                (unat apic_elapsed * 1000000000 div unat hpet_elapsed_ns)))))))))))"

definition start_hpet :: "machine \<Rightarrow> u64 \<Rightarrow> (irqs, irq_error + capabilities) act" where
  "start_hpet hw virt =
     (let h = mapped64 hw virt in
      bind_act (on_hw (hpet_new h)) (\<lambda>decoded.
      case decoded of
        None \<Rightarrow> ret (Inl HpetUndecoded)
      | Some caps \<Rightarrow>
          seq_act (on_hw (hpet_start h))
          (bind_act (on_hw (hpet_is_running h)) (\<lambda>running.
           if \<not> running then ret (Inl HpetNotRunning)
           else bind_act (on_hw (hpet_now h)) (\<lambda>first.
             seq_act (on_hw (spin_ns h caps 1000))
             (bind_act (on_hw (hpet_now h)) (\<lambda>second.
              if elapsed caps first second = 0 then ret (Inl HpetNotAdvancing)
              else ret (Inr caps))))))))"

definition init_timer :: "machine \<Rightarrow> kernel_tables \<Rightarrow> facts \<Rightarrow> (irqs, irq_error + u64) act" where
  "init_timer hw tb fs =
     (case f_hpet fs of
        None \<Rightarrow> ret (Inl NoHpet)
      | Some hpet_phys \<Rightarrow>
          try_sum (map_registers tb hpet_phys 0x400) (\<lambda>hpet_virt.
          try_sum (start_hpet hw hpet_virt) (\<lambda>caps.
          bind_act (look_irqs lapic_at) (\<lambda>slot.
          case slot of
            None \<Rightarrow> ret (Inl LapicNotUp)
          | Some lapic_virt \<Rightarrow>
              try_sum (calibrate hw hpet_virt caps lapic_virt) (\<lambda>ticks_per_second.
              if ticks_per_second = 0 then ret (Inl TimerMeasuredStopped)
              else seq_act (set_irqs (\<lambda>w. w\<lparr>hpet_at := Some (hpet_virt, caps)\<rparr>))
                (ret (Inr ticks_per_second)))))))"

definition start_ticking :: "machine \<Rightarrow> (irqs, irq_error + u32) act" where
  "start_ticking hw =
     bind_act (look_irqs timer_reload) (\<lambda>reload.
     if reload = 0 then ret (Inl NotCalibrated)
     else seq_act (set_irqs (\<lambda>w. w\<lparr>timer_vector := LAPIC_TIMER_VECTOR\<rparr>))
       (bind_act (look_irqs lapic_at) (\<lambda>slot.
        case slot of
          None \<Rightarrow> ret (Inl LapicNotUp)
        | Some base \<Rightarrow>
            seq_act (on_hw (start_timer_periodic (mapped32 hw base) LAPIC_TIMER_VECTOR reload))
            (seq_act (on_hw enable_interrupts) (ret (Inr TIMER_HZ))))))"

definition stop_ticking :: "machine \<Rightarrow> (irqs, unit) act" where
  "stop_ticking hw = seq_act (on_hw disable_interrupts) (with_lapic hw stop_timer)"

section \<open>The self-tests\<close>

text \<open>The device interrupts that arrive, one after another, before the next instruction runs.\<close>

type_synonym arrivals = "history \<Rightarrow> trap_frame list"

definition deliver_irqs :: "machine \<Rightarrow> arrivals \<Rightarrow> (irqs, unit) act" where
  "deliver_irqs hw arrive =
     bind_act (look_irqs (\<lambda>w. arrive (log_of w))) (\<lambda>fs. each_act (map (dispatch hw) fs))"

text \<open>\<open>n\<close> is the spins left.\<close>

fun await_ticks :: "machine \<Rightarrow> arrivals \<Rightarrow> u64 \<Rightarrow> nat \<Rightarrow> (irqs, unit) act" where
  "await_ticks hw arrive wanted 0 = deliver_irqs hw arrive"
| "await_ticks hw arrive wanted (Suc n) =
     seq_act (deliver_irqs hw arrive)
     (bind_act (look_irqs n_ticks) (\<lambda>ticks.
      when_act (ticks < wanted) (seq_act (on_hw spin_loop) (await_ticks hw arrive wanted n))))"

definition selftest :: "machine \<Rightarrow> arrivals \<Rightarrow> (irqs, bool) act" where
  "selftest hw arrive =
     bind_act (look_irqs pic_base) (\<lambda>base.
     bind_act (of_run (vector_for base IRQ_TIMER)) (\<lambda>expected.
     bind_act (on_hw (pit_start (ports hw) SELFTEST_HZ)) (\<lambda>hz.
     seq_act (set_irqs (\<lambda>w. w\<lparr>n_ticks := 0\<rparr>))
     (seq_act (on_hw (pic_unmask (ports hw) IRQ_TIMER))
     (seq_act (on_hw enable_interrupts)
     (seq_act (await_ticks hw arrive SELFTEST_TICKS SELFTEST_PATIENCE)
     (seq_act (on_hw disable_interrupts)
     (seq_act (on_hw (pic_mask (ports hw) IRQ_TIMER))
     (seq_act (on_hw (pit_stop (ports hw)))
     (bind_act (look_irqs n_ticks) (\<lambda>ticks. ret (SELFTEST_TICKS \<le> ticks))))))))))))"

text \<open>Routing the timer: refused when the line is not the controller's, or when the entry does not read
  back as it was written.\<close>

definition route_timer :: "machine \<Rightarrow> u32 \<Rightarrow> redirection \<Rightarrow> (irqs, bool) act" where
  "route_timer hw gsi entry =
     bind_act (look_irqs ioapic_at) (\<lambda>slot.
     case slot of
       None \<Rightarrow> ret False
     | Some (base, gsi_base) \<Rightarrow>
         let d = mapped32 hw base in
         bind_act (on_hw (covers d gsi_base gsi)) (\<lambda>c.
         if \<not> c then ret False
         else seq_act (on_hw (set_redirection d gsi_base gsi entry))
           (bind_act (on_hw (redirection_of d gsi_base gsi)) (\<lambda>back. ret (back = entry)))))"

definition mask_line :: "machine \<Rightarrow> u32 \<Rightarrow> (irqs, unit) act" where
  "mask_line hw gsi =
     bind_act (look_irqs ioapic_at) (\<lambda>slot.
     case slot of
       None \<Rightarrow> ret ()
     | Some (base, gsi_base) \<Rightarrow> on_hw (set_masked (mapped32 hw base) gsi_base gsi True))"

definition timer_entry :: "u8 \<Rightarrow> u16 option \<Rightarrow> redirection" where
  "timer_entry destination flags =
     (let pt = polarity_and_trigger (case flags of None \<Rightarrow> 0 | Some fl \<Rightarrow> fl) in
      \<lparr>rd_vector = APIC_TIMER_VECTOR, rd_destination = destination, rd_active_low = fst pt,
       rd_level_triggered = snd pt, rd_masked = False\<rparr>)"

definition own_id :: "machine \<Rightarrow> (irqs, u8) act" where
  "own_id hw =
     bind_act (look_irqs lapic_at) (\<lambda>slot.
     case slot of None \<Rightarrow> ret 0 | Some base \<Rightarrow> on_hw (lapic_id (mapped32 hw base)))"

definition selftest_apic ::
  "machine \<Rightarrow> arrivals \<Rightarrow> (u64 \<Rightarrow> u8) \<Rightarrow> facts \<Rightarrow> (irqs, bool) act" where
  "selftest_apic hw arrive mem fs =
     bind_act (of_run (facts_gsi_for_irq mem fs IRQ_TIMER)) (\<lambda>gsi.
     bind_act (of_run (override_flags mem fs IRQ_TIMER)) (\<lambda>flags.
     bind_act (own_id hw) (\<lambda>destination.
     bind_act (route_timer hw gsi (timer_entry destination flags)) (\<lambda>routed.
     if \<not> routed then ret False
     else seq_act (set_irqs (\<lambda>w. w\<lparr>timer_vector := APIC_TIMER_VECTOR\<rparr>))
       (seq_act (set_irqs (\<lambda>w. w\<lparr>n_ticks := 0\<rparr>))
       (bind_act (on_hw (pit_start (ports hw) SELFTEST_HZ)) (\<lambda>hz.
        seq_act (on_hw enable_interrupts)
        (seq_act (await_ticks hw arrive SELFTEST_TICKS SELFTEST_PATIENCE)
        (seq_act (on_hw disable_interrupts)
        (seq_act (mask_line hw gsi)
        (seq_act (on_hw (pit_stop (ports hw)))
        (bind_act (look_irqs n_ticks) (\<lambda>ticks. ret (SELFTEST_TICKS \<le> ticks))))))))))))))"

definition WANTED :: u64 where "WANTED = 100"
definition TOLERANCE_PERCENT :: u64 where "TOLERANCE_PERCENT = 2"
definition SLOW_TOLERANCE_PERCENT :: u64 where "SLOW_TOLERANCE_PERCENT = 25"

definition hpet_reading :: "machine \<Rightarrow> (irqs, (capabilities \<times> u64) option) act" where
  "hpet_reading hw =
     bind_act (look_irqs hpet_at) (\<lambda>slot.
     case slot of
       None \<Rightarrow> ret None
     | Some (base, caps) \<Rightarrow>
         bind_act (on_hw (hpet_now (mapped64 hw base))) (\<lambda>now. ret (Some (caps, now))))"

text \<open>Ends when the ticks are in or two seconds have passed on the HPET; if that clock stops, never.\<close>

partial_function (option) await_period ::
  "machine \<Rightarrow> arrivals \<Rightarrow> u64 \<Rightarrow> u64 \<Rightarrow> (irqs, unit) act" where
  "await_period hw arrive start deadline_ns w =
     (case deliver_irqs hw arrive w of
        None \<Rightarrow> None
      | Some Panic \<Rightarrow> Some Panic
      | Some (Done (u, w)) \<Rightarrow>
          if WANTED \<le> n_ticks w then Some (Done ((), w))
          else (case hpet_reading hw w of
             None \<Rightarrow> None
           | Some Panic \<Rightarrow> Some Panic
           | Some (Done (None, w)) \<Rightarrow> Some (Done ((), w))
           | Some (Done (Some (caps, now), w)) \<Rightarrow>
               if deadline_ns < elapsed_ns caps start now then Some (Done ((), w))
               else await_period hw arrive start deadline_ns (with_log (log_of w @ [Pause]) w)))"

text \<open>The verdict on \<open>elapsed_ns\<close>: early by more than two per cent, or late by more than twenty-five.\<close>

definition expected_ns :: u64 where
  "expected_ns = WANTED * 1000000000 div ucast TIMER_HZ"

definition abs_diff :: "u64 \<Rightarrow> u64 \<Rightarrow> u64" where
  "abs_diff a b = (if a < b then b - a else a - b)"

definition rate_within :: "u64 \<Rightarrow> bool run" where
  "rate_within took =
     bind_run (mul_run (abs_diff took expected_ns) 1000) (\<lambda>scaled.
     let error_permille = scaled div expected_ns;
         too_fast = took < expected_ns \<and> TOLERANCE_PERCENT * 10 < error_permille;
         too_slow = expected_ns < took \<and> SLOW_TOLERANCE_PERCENT * 10 < error_permille
     in Done (\<not> too_fast \<and> \<not> too_slow))"

definition selftest_timer :: "machine \<Rightarrow> arrivals \<Rightarrow> u64 \<Rightarrow> (irqs, bool) act" where
  "selftest_timer hw arrive ticks_per_second =
     (let reload64 = ticks_per_second div ucast TIMER_HZ in
      if 2 ^ 32 \<le> unat reload64 then ret False
      else let reload = ucast reload64 in
      if reload = 0 then ret False
      else seq_act (set_irqs (\<lambda>w. w\<lparr>timer_vector := LAPIC_TIMER_VECTOR\<rparr>))
        (seq_act (set_irqs (\<lambda>w. w\<lparr>n_ticks := 0\<rparr>))
        (seq_act (set_irqs (\<lambda>w. w\<lparr>timer_reload := reload\<rparr>))
        (bind_act (hpet_reading hw) (\<lambda>first.
         case first of
           None \<Rightarrow> ret False
         | Some (caps, start) \<Rightarrow>
             bind_act (look_irqs lapic_at) (\<lambda>slot.
             case slot of
               None \<Rightarrow> ret False
             | Some base \<Rightarrow>
                 seq_act (on_hw (start_timer_periodic (mapped32 hw base) LAPIC_TIMER_VECTOR reload))
                 (seq_act (on_hw enable_interrupts)
                 (seq_act (await_period hw arrive start (2 * expected_ns))
                 (seq_act (on_hw disable_interrupts)
                 (bind_act (hpet_reading hw) (\<lambda>last.
                  seq_act (with_lapic hw stop_timer)
                  (bind_act (look_irqs n_ticks) (\<lambda>ticks.
                   let took = (case last of None \<Rightarrow> 0 | Some (c, e) \<Rightarrow> elapsed_ns c start e) in
                   if ticks < WANTED then ret False
                   else of_run (rate_within took))))))))))))))"

end
