(* ===== verification/IrqProps.thy ===== *)
theory IrqProps imports Irq LapicProps VmProps begin

text \<open>
  What interrupt handling promises: each interrupt is acknowledged once, on the controller that
  delivered it, before anything may switch tasks; every frame is counted; a self-test that passes saw
  its ticks acknowledged; the controllers are handed over in order or not at all; and how far the
  deadlines of the boot can be trusted.
\<close>

section \<open>Steps of the parts\<close>

lemma with_log_simps [simp]:
  "log_of (with_log h w) = h" "with_log h (with_log g w) = with_log h w" "with_log (log_of w) w = w"
  "pic_base (with_log h w) = pic_base w" "lapic_at (with_log h w) = lapic_at w"
  "ioapic_at (with_log h w) = ioapic_at w" "hpet_at (with_log h w) = hpet_at w"
  "using_apic (with_log h w) = using_apic w" "timer_vector (with_log h w) = timer_vector w"
  "n_ticks (with_log h w) = n_ticks w" "n_ring3 (with_log h w) = n_ring3 w"
  "n_unexpected (with_log h w) = n_unexpected w" "n_spurious (with_log h w) = n_spurious w"
  "n_apic_spurious (with_log h w) = n_apic_spurious w" "timer_reload (with_log h w) = timer_reload w"
  "clock_page (with_log h w) = clock_page w" "resched_asked (with_log h w) = resched_asked w"
  "vm_phys (irq_vm (with_log h w)) = vm_phys (irq_vm w)"
  by (simp_all add: with_log_def)

lemma with_log_update [simp]:
  "with_log h (w\<lparr>n_ticks := x\<rparr>) = (with_log h w)\<lparr>n_ticks := x\<rparr>"
  "with_log h (w\<lparr>n_ring3 := x\<rparr>) = (with_log h w)\<lparr>n_ring3 := x\<rparr>"
  "with_log h (w\<lparr>n_unexpected := x\<rparr>) = (with_log h w)\<lparr>n_unexpected := x\<rparr>"
  "with_log h (w\<lparr>n_spurious := x\<rparr>) = (with_log h w)\<lparr>n_spurious := x\<rparr>"
  "with_log h (w\<lparr>n_apic_spurious := x\<rparr>) = (with_log h w)\<lparr>n_apic_spurious := x\<rparr>"
  "with_log h (w\<lparr>resched_asked := b\<rparr>) = (with_log h w)\<lparr>resched_asked := b\<rparr>"
  "with_log h (w\<lparr>pic_base := c\<rparr>) = (with_log h w)\<lparr>pic_base := c\<rparr>"
  "with_log h (w\<lparr>timer_vector := c\<rparr>) = (with_log h w)\<lparr>timer_vector := c\<rparr>"
  by (simp_all add: with_log_def)

lemma on_hw_simps [simp]:
  "f (log_of w) = None \<Longrightarrow> on_hw f w = None"
  "f (log_of w) = Some Panic \<Longrightarrow> on_hw f w = Some Panic"
  "f (log_of w) = Some (Done (a, h)) \<Longrightarrow> on_hw f w = Some (Done (a, with_log h w))"
  by (simp_all add: on_hw_def)

lemma set_irqs_apply [simp]: "set_irqs g w = Some (Done ((), g w))"
  by (simp add: set_irqs_def)

lemma look_irqs_bind [simp]: "bind_act (look_irqs g) f w = f (g w) w"
  by (simp add: look_irqs_def bind_act_def)

lemma on_hw_Done: "on_hw f w = Some (Done (a, w')) \<longleftrightarrow>
    (\<exists>h. f (log_of w) = Some (Done (a, h)) \<and> w' = with_log h w)"
  by (auto simp: on_hw_def on_part_def split: option.splits run.splits)

lemma inb_ports: "inb (ports hw) port h =
    Some (Done (answer_port hw h port, h @ [Port_Read port (answer_port hw h port)]))"
  by (simp add: inb_def reading_def ports_def Let_def)

lemma eoi_mapped: "lapic_eoi (mapped32 hw base) h = Some (Done ((), h @ [Mmio_Write (base + LAPIC_EOI) 0]))"
  by (simp add: lapic_eoi_def wr_mapped mapped.aligned_regs)

lemma pic_eoi_ports: "pic_eoi (ports hw) irq h = Some (Done ((), h @
    (if 8 \<le> irq then [Port_Write SLAVE_COMMAND OCW2_EOI] else []) @ [Port_Write MASTER_COMMAND OCW2_EOI]))"
  by (simp add: pic_eoi_def outb_ports)

section \<open>Acknowledgement\<close>

text \<open>What the chips say of their lines 7 and 15: nothing is in service.\<close>

definition not_in_service :: "machine \<Rightarrow> history \<Rightarrow> u16 \<Rightarrow> bool" where
  "not_in_service hw h command =
     (answer_port hw (h @ [Port_Write command OCW3_READ_ISR]) command AND push_bit 7 1 = 0)"

definition is_ack :: "u64 option \<Rightarrow> event \<Rightarrow> bool" where
  "is_ack lapic e = (e = Port_Write MASTER_COMMAND OCW2_EOI \<or> e = Port_Write SLAVE_COMMAND OCW2_EOI \<or>
     (\<exists>base v. lapic = Some base \<and> e = Mmio_Write (base + LAPIC_EOI) v))"

text \<open>The acknowledgements an interrupt is due.\<close>

definition due :: "machine \<Rightarrow> irqs \<Rightarrow> u64 \<Rightarrow> event list" where
  "due hw w v =
     (let master = Port_Write MASTER_COMMAND OCW2_EOI; slave = Port_Write SLAVE_COMMAND OCW2_EOI in
      if using_apic w then
        if v = 255 then []
        else case lapic_at w of None \<Rightarrow> [] | Some base \<Rightarrow> [Mmio_Write (base + LAPIC_EOI) 0]
      else if v < 40 then
        if v = 39 \<and> not_in_service hw (log_of w) MASTER_COMMAND then [] else [master]
      else if v < 48 then
        if v = 47 \<and> not_in_service hw (log_of w) SLAVE_COMMAND then [master] else [slave, master]
      else [])"

lemma is_spurious_ports: "is_spurious (ports hw) irq h =
   (if irq = SPURIOUS_MASTER then Some (Done (not_in_service hw h MASTER_COMMAND,
        h @ [Port_Write MASTER_COMMAND OCW3_READ_ISR, Port_Read MASTER_COMMAND
          (answer_port hw (h @ [Port_Write MASTER_COMMAND OCW3_READ_ISR]) MASTER_COMMAND)]))
    else if irq = SPURIOUS_SLAVE then Some (Done (not_in_service hw h SLAVE_COMMAND,
        h @ [Port_Write SLAVE_COMMAND OCW3_READ_ISR, Port_Read SLAVE_COMMAND
          (answer_port hw (h @ [Port_Write SLAVE_COMMAND OCW3_READ_ISR]) SLAVE_COMMAND)]))
    else Some (Done (False, h)))"
  by (simp add: is_spurious_def Let_def outb_ports inb_ports not_in_service_def)

lemma epilogue_apply: "irq_epilogue w =
    Some (Done ((), with_log (log_of w @ [Epilogue (resched_asked w)]) (w\<lparr>resched_asked := False\<rparr>)))"
  by (simp add: irq_epilogue_def)

text \<open>What an interrupt leaves alone, and the one count it moves.\<close>

definition statics :: "irqs \<Rightarrow> (u8 \<times> u64 option \<times> (u64 \<times> u32) option \<times> (u64 \<times> capabilities) option) \<times>
    bool \<times> u8 \<times> u32 \<times> u64 \<times> phys \<times> u64" where
  "statics w = ((pic_base w, lapic_at w, ioapic_at w, hpet_at w), using_apic w, timer_vector w,
     timer_reload w, clock_page w, vm_phys (irq_vm w), vm_device_next (irq_vm w))"

definition counts :: "irqs \<Rightarrow> u64 \<times> u64 \<times> u64 \<times> u64" where
  "counts w = (n_ticks w, n_unexpected w, n_spurious w, n_apic_spurious w)"

definition counted :: "irqs \<Rightarrow> irqs \<Rightarrow> bool" where
  "counted w w' = (case counts w of (t, u, s, a) \<Rightarrow>
     counts w' \<in> {(t + 1, u, s, a), (t, u + 1, s, a), (t, u, s + 1, a), (t, u, s, a + 1)})"

lemma statics_simps [simp]:
  "statics (with_log h w) = statics w" "statics (w\<lparr>n_ticks := x\<rparr>) = statics w"
  "statics (w\<lparr>n_ring3 := x\<rparr>) = statics w" "statics (w\<lparr>n_unexpected := x\<rparr>) = statics w"
  "statics (w\<lparr>n_spurious := x\<rparr>) = statics w" "statics (w\<lparr>n_apic_spurious := x\<rparr>) = statics w"
  "statics (w\<lparr>resched_asked := b\<rparr>) = statics w"
  by (simp_all add: statics_def with_log_def)

lemma statics_same: "statics w' = statics w \<Longrightarrow> using_apic w' = using_apic w \<and> lapic_at w' = lapic_at w \<and>
    timer_vector w' = timer_vector w \<and> pic_base w' = pic_base w \<and> clock_page w' = clock_page w"
  by (simp add: statics_def)

lemma device_line:
  assumes "is_device_vector v"
  shows "sub_run v (ucast PIC_BASE) = Done (v - 32)" "\<not> 255 < v - 32"
    "unat (ucast (v - 32) :: u8) = unat v - 32"
proof -
  have v: "32 \<le> unat v" "unat v < 256"
    using assms by (simp_all add: is_device_vector_def PIC_BASE_def word_le_nat_alt word_less_nat_alt)
  then have d: "unat (v - 32) = unat v - 32" by (simp add: unat_sub word_le_nat_alt)
  show "sub_run v (ucast PIC_BASE) = Done (v - 32)"
    using v by (simp add: sub_run_def PIC_BASE_def word_le_nat_alt)
  show "\<not> 255 < v - 32" using v d by (simp add: word_less_nat_alt)
  show "unat (ucast (v - 32) :: u8) = unat v - 32"
    using v d by (simp add: unsigned_ucast_eq take_bit_nat_eq_self)
qed

lemma line_names:
  fixes irq :: u8 and v :: u64
  assumes "unat irq = unat v - 32" "32 \<le> unat v"
  shows "irq < LINES \<longleftrightarrow> v < 48" "8 \<le> irq \<longleftrightarrow> \<not> v < 40" "irq = SPURIOUS_MASTER \<longleftrightarrow> v = 39"
    "irq = SPURIOUS_SLAVE \<longleftrightarrow> v = 47" "irq = IRQ_TIMER \<longleftrightarrow> v = 32"
  using assms by (auto simp: LINES_def SPURIOUS_MASTER_def SPURIOUS_SLAVE_def IRQ_TIMER_def
    word_less_nat_alt word_le_nat_alt word_unat_eq_iff)

text \<open>The line that is in service, on the chips' own account.\<close>

definition pic_line :: "machine \<Rightarrow> u8 \<Rightarrow> (irqs, unit) act" where
  "pic_line hw irq =
     bind_act (on_hw (is_spurious (ports hw) irq)) (\<lambda>spurious.
       if spurious
       then seq_act (set_irqs (\<lambda>w. w\<lparr>n_spurious := n_spurious w + 1\<rparr>))
         (on_hw (end_of_spurious (ports hw) irq))
       else seq_act (if irq = IRQ_TIMER then set_irqs (\<lambda>w. w\<lparr>n_ticks := n_ticks w + 1\<rparr>)
           else count_unexpected)
         (on_hw (pic_eoi (ports hw) irq)))"

definition line_due :: "machine \<Rightarrow> history \<Rightarrow> u8 \<Rightarrow> event list" where
  "line_due hw h irq =
     (if irq = SPURIOUS_MASTER \<and> not_in_service hw h MASTER_COMMAND then []
      else if irq = SPURIOUS_SLAVE \<and> not_in_service hw h SLAVE_COMMAND
      then [Port_Write MASTER_COMMAND OCW2_EOI]
      else (if 8 \<le> irq then [Port_Write SLAVE_COMMAND OCW2_EOI] else []) @
        [Port_Write MASTER_COMMAND OCW2_EOI])"

definition line_asks :: "machine \<Rightarrow> history \<Rightarrow> u8 \<Rightarrow> event list" where
  "line_asks hw h irq =
     (let ask = (\<lambda>c. [Port_Write c OCW3_READ_ISR, Port_Read c (answer_port hw (h @ [Port_Write c OCW3_READ_ISR]) c)])
      in if irq = SPURIOUS_MASTER then ask MASTER_COMMAND
         else if irq = SPURIOUS_SLAVE then ask SLAVE_COMMAND else [])"

definition line_count :: "machine \<Rightarrow> u8 \<Rightarrow> irqs \<Rightarrow> irqs" where
  "line_count hw irq w =
     (if irq = SPURIOUS_MASTER \<and> not_in_service hw (log_of w) MASTER_COMMAND \<or>
         irq = SPURIOUS_SLAVE \<and> not_in_service hw (log_of w) SLAVE_COMMAND
      then w\<lparr>n_spurious := n_spurious w + 1\<rparr>
      else if irq = IRQ_TIMER then w\<lparr>n_ticks := n_ticks w + 1\<rparr>
      else w\<lparr>n_unexpected := n_unexpected w + 1\<rparr>)"

lemma spurious_lines: "SPURIOUS_MASTER \<noteq> SPURIOUS_SLAVE" "SPURIOUS_SLAVE \<noteq> SPURIOUS_MASTER"
  by (simp_all add: pic_consts)

lemma is_spurious_asks: "is_spurious (ports hw) irq h = Some (Done
    (irq = SPURIOUS_MASTER \<and> not_in_service hw h MASTER_COMMAND \<or>
     irq = SPURIOUS_SLAVE \<and> not_in_service hw h SLAVE_COMMAND, h @ line_asks hw h irq))"
  by (simp add: is_spurious_ports line_asks_def spurious_lines)

lemma pic_line_apply: "pic_line hw irq w = Some (Done ((),
    with_log (log_of w @ line_asks hw (log_of w) irq @ line_due hw (log_of w) irq) (line_count hw irq w)))"
proof -
  define sp where "sp \<longleftrightarrow> irq = SPURIOUS_MASTER \<and> not_in_service hw (log_of w) MASTER_COMMAND \<or>
     irq = SPURIOUS_SLAVE \<and> not_in_service hw (log_of w) SLAVE_COMMAND"
  have ask: "on_hw (is_spurious (ports hw) irq) w =
      Some (Done (sp, with_log (log_of w @ line_asks hw (log_of w) irq) w))"
    by (simp add: is_spurious_asks sp_def)
  have lc: "line_count hw irq w = (if sp then w\<lparr>n_spurious := n_spurious w + 1\<rparr>
      else if irq = IRQ_TIMER then w\<lparr>n_ticks := n_ticks w + 1\<rparr>
      else w\<lparr>n_unexpected := n_unexpected w + 1\<rparr>)"
    by (simp add: line_count_def sp_def)
  have ld: "line_due hw (log_of w) irq =
      (if sp then if irq = SPURIOUS_SLAVE then [Port_Write MASTER_COMMAND OCW2_EOI] else []
       else (if 8 \<le> irq then [Port_Write SLAVE_COMMAND OCW2_EOI] else []) @ [Port_Write MASTER_COMMAND OCW2_EOI])"
    by (auto simp: line_due_def sp_def spurious_lines)
  show ?thesis
    by (cases sp) (simp_all add: pic_line_def ask lc ld end_of_spurious_def outb_ports pic_eoi_ports
      count_unexpected_def)
qed

lemma line_acks: "filter (is_ack lapic) (line_asks hw h irq) = []"
    "filter (is_ack lapic) (line_due hw h irq) = line_due hw h irq"
  by (simp_all add: line_asks_def line_due_def is_ack_def OCW3_READ_ISR_def OCW2_EOI_def Let_def)

lemma line_count_only: "statics (line_count hw irq w) = statics w" "counted w (line_count hw irq w)"
    "resched_asked (line_count hw irq w) = resched_asked w" "n_ring3 (line_count hw irq w) = n_ring3 w"
    "n_apic_spurious (line_count hw irq w) = n_apic_spurious w"
  by (simp_all add: line_count_def counted_def counts_def)

lemma counted_log [simp]: "counted w (with_log h w') = counted w w'"
  by (simp add: counted_def counts_def)

lemma line_no_pause: "Pause \<notin> set (line_asks hw h irq)" "Pause \<notin> set (line_due hw h irq)"
  by (simp_all add: line_asks_def line_due_def Let_def)

lemma line_count_ticks: "n_ticks (line_count hw irq w) = n_ticks w \<or>
    irq = IRQ_TIMER \<and> n_ticks (line_count hw irq w) = n_ticks w + 1"
  by (simp add: line_count_def)

lemma pic_line_run: "\<exists>w' evs. pic_line hw irq w = Some (Done ((), w')) \<and> log_of w' = log_of w @ evs \<and>
    filter (is_ack lapic) evs = line_due hw (log_of w) irq \<and> statics w' = statics w \<and> counted w w' \<and>
    resched_asked w' = resched_asked w \<and> n_ring3 w' = n_ring3 w \<and> n_apic_spurious w' = n_apic_spurious w \<and>
    Pause \<notin> set evs \<and> (n_ticks w' = n_ticks w \<or> irq = IRQ_TIMER \<and> n_ticks w' = n_ticks w + 1)"
  unfolding pic_line_apply using line_count_ticks by (simp add: line_acks line_count_only line_no_pause)

lemma dispatch_pic_run:
  assumes "is_device_vector (tf_vector f)" "\<not> using_apic w"
  shows "\<exists>w' evs. dispatch_pic hw f w = Some (Done ((), w')) \<and> log_of w' = log_of w @ evs \<and>
    filter (is_ack lapic) evs = due hw w (tf_vector f) \<and> statics w' = statics w \<and> counted w w' \<and>
    resched_asked w' = resched_asked w \<and> n_ring3 w' = n_ring3 w \<and> n_apic_spurious w' = n_apic_spurious w \<and>
    Pause \<notin> set evs \<and> (n_ticks w' = n_ticks w \<or> tf_vector f = 32 \<and> n_ticks w' = n_ticks w + 1)"
proof -
  let ?v = "tf_vector f"
  let ?irq = "ucast (?v - 32) :: u8"
  note d = device_line [OF assms(1)]
  have v: "32 \<le> unat ?v"
    using assms(1) by (simp add: is_device_vector_def PIC_BASE_def word_le_nat_alt)
  note n = line_names [OF d(3) v]
  have run: "dispatch_pic hw f w = (if ?v < 48 then pic_line hw ?irq w else count_unexpected w)"
    unfolding dispatch_pic_def d(1) using d(2) n(1) by (simp add: Let_def pic_line_def bind_act_simps(3))
  show ?thesis
  proof (cases "?v < 48")
    case True
    then have "due hw w ?v = line_due hw (log_of w) ?irq"
      unfolding due_def line_due_def Let_def n(2,3,4) using assms(2) by auto
    then show ?thesis
      unfolding run using True pic_line_run [of hw ?irq w lapic, unfolded n(5)] by simp
  next
    case False
    then have v40: "\<not> ?v < 40" by (simp add: word_less_nat_alt)
    show ?thesis
      unfolding run using assms(2) False
      by (auto simp: due_def Let_def v40 count_unexpected_def counted_def counts_def intro: exI [of _ "[]"])
  qed
qed

text \<open>A tick, and what it leaves: the count, published, and the request for a reschedule.\<close>

definition ticked :: "irqs \<Rightarrow> trap_frame \<Rightarrow> irqs" where
  "ticked w f = with_log (log_of w @ (if clock_page w = 0 then [] else [Store (clock_page w) (n_ticks w + 1)]))
     (w\<lparr>n_ticks := n_ticks w + 1, n_ring3 := n_ring3 w + (if from_user f then 1 else 0),
        resched_asked := True\<rparr>)"

lemma add_one_run: "x \<noteq> - 1 \<Longrightarrow> add_run x 1 = Done (x + 1)" for x :: u64
proof -
  assume x: "x \<noteq> - 1"
  have m: "unat (- 1 :: u64) = 2 ^ 64 - 1" by (simp add: unat_minus_one_width)
  have "unat x < 2 ^ 64" using unat_less_width [of x] by simp
  moreover have "unat x \<noteq> 2 ^ 64 - 1" using x m by (metis word_unat_eq_iff)
  ultimately have "unat x + 1 < 2 ^ 64" by linarith
  then show ?thesis by (simp add: add_run_Done)
qed

lemma timer_tick_apply: "n_ticks w \<noteq> - 1 \<Longrightarrow> timer_tick f w = Some (Done ((), ticked w f))"
  by (cases "from_user f"; cases "clock_page w = 0")
    (simp_all add: timer_tick_def add_one_run publish_ticks_def ask_resched_def write_volatile_def ticked_def)

definition lapic_due :: "u64 option \<Rightarrow> event list" where
  "lapic_due lapic = (case lapic of None \<Rightarrow> [] | Some base \<Rightarrow> [Mmio_Write (base + LAPIC_EOI) 0])"

lemma with_lapic_eoi: "with_lapic hw lapic_eoi w =
    Some (Done ((), with_log (log_of w @ lapic_due (lapic_at w)) w))"
  by (cases "lapic_at w") (simp_all add: with_lapic_def eoi_mapped lapic_due_def)

lemma apic_vector:
  assumes "is_device_vector v"
  shows "ucast v = (c :: u8) \<longleftrightarrow> v = ucast c"
proof -
  have "unat v < 256" using assms by (simp add: is_device_vector_def word_less_nat_alt)
  moreover have "unat c < 256" using unat_less_width [of c] by simp
  ultimately show ?thesis
    by (simp add: word_unat_eq_iff unsigned_ucast_eq take_bit_nat_eq_self)
qed

lemma ticked_simps [simp]: "statics (ticked w f) = statics w" "lapic_at (ticked w f) = lapic_at w"
    "resched_asked (ticked w f)" "n_ticks (ticked w f) = n_ticks w + 1" "counted w (ticked w f)"
    "n_ring3 (ticked w f) = n_ring3 w + (if from_user f then 1 else 0)"
    "n_apic_spurious (ticked w f) = n_apic_spurious w"
    "log_of (ticked w f) = log_of w @ (if clock_page w = 0 then [] else [Store (clock_page w) (n_ticks w + 1)])"
  by (simp_all add: ticked_def counted_def counts_def statics_def with_log_def)

definition is_tick :: "irqs \<Rightarrow> trap_frame \<Rightarrow> bool" where
  "is_tick w f = (using_apic w \<and> tf_vector f \<noteq> 255 \<and> tf_vector f = ucast (timer_vector w))"

lemma dispatch_apic_run:
  assumes "is_device_vector (tf_vector f)" "using_apic w" "n_ticks w \<noteq> - 1"
  shows "\<exists>w' evs. dispatch_apic hw f w = Some (Done ((), w')) \<and> log_of w' = log_of w @ evs \<and>
    filter (is_ack (lapic_at w)) evs = due hw w (tf_vector f) \<and> statics w' = statics w \<and> counted w w' \<and>
    resched_asked w' = (resched_asked w \<or> is_tick w f) \<and>
    n_ring3 w' = n_ring3 w + (if is_tick w f \<and> from_user f then 1 else 0) \<and>
    n_apic_spurious w' = n_apic_spurious w + (if tf_vector f = 255 then 1 else 0) \<and>
    (is_tick w f \<longrightarrow> n_ticks w' = n_ticks w + 1) \<and> Pause \<notin> set evs"
proof -
  note v = apic_vector [OF assms(1)]
  have s: "ucast (tf_vector f) = APIC_SPURIOUS_VECTOR \<longleftrightarrow> tf_vector f = 255"
    unfolding v by (simp add: APIC_SPURIOUS_VECTOR_def)
  have a: "filter (is_ack (lapic_at w)) (lapic_due (lapic_at w)) = lapic_due (lapic_at w)"
    by (cases "lapic_at w") (simp_all add: lapic_due_def is_ack_def)
  consider "tf_vector f = 255" | "tf_vector f \<noteq> 255" "tf_vector f = ucast (timer_vector w)"
    | "tf_vector f \<noteq> 255" "tf_vector f \<noteq> ucast (timer_vector w)" by blast
  then show ?thesis
  proof cases
    case 1
    then have r: "dispatch_apic hw f w = Some (Done ((), w\<lparr>n_apic_spurious := n_apic_spurious w + 1\<rparr>))"
      unfolding dispatch_apic_def Let_def s by simp
    show ?thesis
      using assms(2) 1 by (intro exI [of _ "w\<lparr>n_apic_spurious := n_apic_spurious w + 1\<rparr>"] exI [of _ "[]"])
        (simp add: r due_def is_tick_def counted_def counts_def)
  next
    case 2
    have t: "ucast (tf_vector f) = timer_vector w" unfolding v by (rule 2(2))
    have r: "dispatch_apic hw f w = Some (Done ((),
        with_log (log_of (ticked w f) @ lapic_due (lapic_at w)) (ticked w f)))"
      unfolding dispatch_apic_def Let_def s using assms(3) 2(1)
      by (simp add: t timer_tick_apply with_lapic_eoi)
    show ?thesis
      using assms(2) 2 unfolding r
      by (simp add: a is_tick_def due_def) (simp add: is_ack_def lapic_due_def split: option.split)
  next
    case 3
    then have r: "dispatch_apic hw f w = Some (Done ((),
        with_log (log_of w @ lapic_due (lapic_at w)) (w\<lparr>n_unexpected := n_unexpected w + 1\<rparr>)))"
      unfolding dispatch_apic_def Let_def s
      by (simp add: v count_unexpected_def with_lapic_eoi)
    show ?thesis
      using assms(2) 3 unfolding r
      by (simp add: a is_tick_def due_def counted_def counts_def) (simp add: lapic_due_def)
  qed
qed

lemma dispatch_run:
  assumes "is_device_vector (tf_vector f)" "using_apic w \<longrightarrow> n_ticks w \<noteq> - 1"
  shows "\<exists>w' evs. dispatch hw f w = Some (Done ((), w')) \<and>
    log_of w' = log_of w @ evs @ [Epilogue (resched_asked w \<or> is_tick w f)] \<and>
    filter (is_ack (lapic_at w)) evs = due hw w (tf_vector f) \<and> statics w' = statics w \<and> counted w w' \<and>
    \<not> resched_asked w' \<and> n_ring3 w' = n_ring3 w + (if is_tick w f \<and> from_user f then 1 else 0) \<and>
    n_apic_spurious w' = n_apic_spurious w + (if using_apic w \<and> tf_vector f = 255 then 1 else 0) \<and>
    (is_tick w f \<longrightarrow> n_ticks w' = n_ticks w + 1) \<and> Pause \<notin> set evs \<and>
    (\<not> using_apic w \<longrightarrow> n_ticks w' = n_ticks w \<or> tf_vector f = 32 \<and> n_ticks w' = n_ticks w + 1)"
proof (cases "using_apic w")
  case True
  with dispatch_apic_run [OF assms(1) True, of hw] assms(2) obtain w' evs where
    r: "dispatch_apic hw f w = Some (Done ((), w'))" "log_of w' = log_of w @ evs"
      "filter (is_ack (lapic_at w)) evs = due hw w (tf_vector f)" "statics w' = statics w" "counted w w'"
      "resched_asked w' = (resched_asked w \<or> is_tick w f)"
      "n_ring3 w' = n_ring3 w + (if is_tick w f \<and> from_user f then 1 else 0)"
      "n_apic_spurious w' = n_apic_spurious w + (if tf_vector f = 255 then 1 else 0)"
      "is_tick w f \<longrightarrow> n_ticks w' = n_ticks w + 1" "Pause \<notin> set evs" by blast
  show ?thesis
    using True r by (simp add: dispatch_def epilogue_apply counted_def counts_def)
next
  case False
  then have "\<not> is_tick w f" by (simp add: is_tick_def)
  moreover obtain w' evs where
    r: "dispatch_pic hw f w = Some (Done ((), w'))" "log_of w' = log_of w @ evs"
      "filter (is_ack (lapic_at w)) evs = due hw w (tf_vector f)" "statics w' = statics w" "counted w w'"
      "resched_asked w' = resched_asked w" "n_ring3 w' = n_ring3 w" "n_apic_spurious w' = n_apic_spurious w"
      "Pause \<notin> set evs" "n_ticks w' = n_ticks w \<or> tf_vector f = 32 \<and> n_ticks w' = n_ticks w + 1"
    using dispatch_pic_run [OF assms(1) False, of hw "lapic_at w"] by blast
  ultimately show ?thesis
    using False by (simp add: dispatch_def epilogue_apply counted_def counts_def)
qed

text \<open>C34: every device interrupt is acknowledged exactly once, on the controller that delivered it, and
  before anything may switch tasks. \<open>dispatch\<close> returns, the acknowledgements it writes are those the
  interrupt is due (one at the local APIC, none for its spurious vector; on the 8259s one at each
  chip the line passes, none for a line 7 that is not in service, the master's alone for such a line
  15), the epilogue is the last thing it does, and it is asked to reschedule exactly when a request
  was pending or the local APIC's timer ticked. The controllers, the timer and the tables are left
  as they were.\<close>

theorem interrupt_acknowledged_once:
  assumes "is_device_vector (tf_vector f)" "n_ticks w \<noteq> - 1"
  shows "\<exists>w' evs. dispatch hw f w = Some (Done ((), w')) \<and>
    log_of w' = log_of w @ evs @ [Epilogue (resched_asked w \<or> is_tick w f)] \<and>
    filter (is_ack (lapic_at w)) evs = due hw w (tf_vector f) \<and> statics w' = statics w"
  using dispatch_run [OF assms(1), of w hw] assms(2) by blast

text \<open>A machine whose registers all read zero, and the state after the 8259s are remapped.\<close>

definition still_machine :: machine where
  "still_machine = \<lparr>answer32 = (\<lambda>h a. 0), answer64 = (\<lambda>h a. 0), answer_port = (\<lambda>h p. 0),
     answer_msr = (\<lambda>h r. 0), answer_cr4 = (\<lambda>h. 0)\<rparr>"

definition quiet :: irqs where
  "quiet = \<lparr>irq_vm = \<lparr>vm_phys = \<lparr>entries = (\<lambda>_ _. 0), pool = []\<rparr>, vm_device_next = 0, vm_log = []\<rparr>,
     pic_base = 32, lapic_at = None, ioapic_at = None, hpet_at = None, using_apic = False,
     timer_vector = 32, n_ticks = 0, n_ring3 = 0, n_unexpected = 0, n_spurious = 0, n_apic_spurious = 0,
     timer_reload = 0, clock_page = 0, resched_asked = False\<rparr>"

definition frame_of :: "u64 \<Rightarrow> u64 \<Rightarrow> trap_frame" where
  "frame_of v cs = \<lparr>tf_rax = 0, tf_rbx = 0, tf_rcx = 0, tf_rdx = 0, tf_rsi = 0, tf_rdi = 0, tf_rbp = 0,
     tf_r8 = 0, tf_r9 = 0, tf_r10 = 0, tf_r11 = 0, tf_r12 = 0, tf_r13 = 0, tf_r14 = 0, tf_r15 = 0,
     tf_vector = v, tf_error_code = 0, tf_rip = 0, tf_cs = cs, tf_rflags = 0, tf_rsp = 0, tf_ss = 0\<rparr>"

lemma frame_of_simps [simp]: "tf_vector (frame_of v cs) = v" "tf_cs (frame_of v cs) = cs"
    "from_user (frame_of v cs) = (cs AND 3 \<noteq> 0)"
  by (simp_all add: frame_of_def from_user_def)

lemma quiet_simps [simp]: "log_of quiet = []" "pic_base quiet = 32" "lapic_at quiet = None"
    "ioapic_at quiet = None" "hpet_at quiet = None" "\<not> using_apic quiet" "timer_vector quiet = 32"
    "counts quiet = (0, 0, 0, 0)" "n_ticks quiet = 0" "n_ring3 quiet = 0" "timer_reload quiet = 0" "\<not> resched_asked quiet"
  by (simp_all add: quiet_def counts_def)

text \<open>A spurious line 15: the slave has nothing in service, so only the master is told.\<close>

theorem interrupt_acknowledged_once_witness:
  "\<exists>w' evs. dispatch still_machine (frame_of 47 8) quiet = Some (Done ((), w')) \<and>
    log_of w' = evs @ [Epilogue False] \<and> filter (is_ack None) evs = [Port_Write MASTER_COMMAND OCW2_EOI]"
proof -
  have d: "is_device_vector (tf_vector (frame_of 47 8))" "n_ticks quiet \<noteq> - 1"
    by (simp_all add: is_device_vector_def PIC_BASE_def)
  have "due still_machine quiet 47 = [Port_Write MASTER_COMMAND OCW2_EOI]"
    by (simp add: due_def not_in_service_def still_machine_def)
  with interrupt_acknowledged_once [OF d, of still_machine] show ?thesis
    by (auto simp: is_tick_def)
qed

section \<open>Accounts\<close>

definition total :: "irqs \<Rightarrow> nat" where
  "total w = unat (n_ticks w) + unat (n_unexpected w) + unat (n_spurious w) + unat (n_apic_spurious w)"

lemma unat_next: "unat x < 2 ^ 64 - 1 \<Longrightarrow> unat (x + 1) = unat x + 1" for x :: u64
  by (subst unat_add_exact) auto

lemma counted_total:
  assumes "counted w w'" "total w < 2 ^ 64 - 1"
  shows "total w' = total w + 1" "unat (n_ticks w) \<le> unat (n_ticks w')"
proof -
  have b: "unat (n_ticks w) < 2 ^ 64 - 1" "unat (n_unexpected w) < 2 ^ 64 - 1"
    "unat (n_spurious w) < 2 ^ 64 - 1" "unat (n_apic_spurious w) < 2 ^ 64 - 1"
    using assms(2) unfolding total_def by linarith+
  show "total w' = total w + 1" "unat (n_ticks w) \<le> unat (n_ticks w')"
    using assms(1) b [THEN unat_next] by (auto simp: counted_def counts_def total_def)
qed

lemma total_ticks: "total w < n \<Longrightarrow> unat (n_ticks w) < n" "total w < n \<Longrightarrow> unat (n_apic_spurious w) < n"
  by (simp_all add: total_def)

lemma due_count: "using_apic w \<Longrightarrow> lapic_at w = Some base \<Longrightarrow>
    length (due hw w v) = (if v = 255 then 0 else 1)"
  by (simp add: due_def)

lemma accounted:
  assumes "\<forall>f\<in>set fs. is_device_vector (tf_vector f)" "total w + length fs < 2 ^ 64"
    and "unat (n_ring3 w) \<le> unat (n_ticks w)"
  shows "\<exists>w' evs. each_act (map (dispatch hw) fs) w = Some (Done ((), w')) \<and> log_of w' = log_of w @ evs \<and>
    total w' = total w + length fs \<and> statics w' = statics w \<and>
    unat (n_ring3 w') \<le> unat (n_ticks w') \<and> unat (n_apic_spurious w) \<le> unat (n_apic_spurious w') \<and>
    (using_apic w \<and> lapic_at w \<noteq> None \<longrightarrow>
      length (filter (is_ack (lapic_at w)) evs) + (unat (n_apic_spurious w') - unat (n_apic_spurious w)) = length fs)"
  using assms
proof (induction fs arbitrary: w)
  case Nil
  then show ?case by simp
next
  case (Cons f fs)
  have m: "unat (- 1 :: u64) = 2 ^ 64 - 1" by (simp add: unat_minus_one_width)
  have t: "total w < 2 ^ 64 - 1" using Cons.prems(2) by simp
  have nt: "n_ticks w \<noteq> - 1"
  proof
    assume "n_ticks w = - 1"
    with m total_ticks(1) [OF t] show False by simp
  qed
  obtain v evs where v: "dispatch hw f w = Some (Done ((), v))"
    "log_of v = log_of w @ evs @ [Epilogue (resched_asked w \<or> is_tick w f)]"
    "filter (is_ack (lapic_at w)) evs = due hw w (tf_vector f)" "statics v = statics w" "counted w v"
    "n_ring3 v = n_ring3 w + (if is_tick w f \<and> from_user f then 1 else 0)"
    "n_apic_spurious v = n_apic_spurious w + (if using_apic w \<and> tf_vector f = 255 then 1 else 0)"
    "is_tick w f \<longrightarrow> n_ticks v = n_ticks w + 1"
    using dispatch_run [of f w hw] Cons.prems(1) nt by auto
  note c = counted_total [OF v(5) t]
  have r3: "unat (n_ring3 v) \<le> unat (n_ticks v)"
  proof (cases "is_tick w f \<and> from_user f")
    case True
    have "unat (n_ticks w) < 2 ^ 64 - 1" by (rule total_ticks(1) [OF t])
    moreover have "unat (n_ring3 w) < 2 ^ 64 - 1" using calculation Cons.prems(3) by linarith
    ultimately show ?thesis using True v(6,8) Cons.prems(3) by (simp add: unat_next)
  next
    case False
    then have "n_ring3 v = n_ring3 w" using v(6) by auto
    then show ?thesis using c(2) Cons.prems(3) by simp
  qed
  have "\<forall>f\<in>set fs. is_device_vector (tf_vector f)" "total v + length fs < 2 ^ 64"
    using Cons.prems(1,2) c(1) by simp_all
  from Cons.IH [OF this r3] obtain w' more where w': "each_act (map (dispatch hw) fs) v = Some (Done ((), w'))"
    "log_of w' = log_of v @ more" "total w' = total v + length fs" "statics w' = statics v"
    "unat (n_ring3 w') \<le> unat (n_ticks w')" "unat (n_apic_spurious v) \<le> unat (n_apic_spurious w')"
    "using_apic v \<and> lapic_at v \<noteq> None \<longrightarrow>
      length (filter (is_ack (lapic_at v)) more) + (unat (n_apic_spurious w') - unat (n_apic_spurious v)) = length fs"
    by blast
  have sp: "unat (n_apic_spurious v) = unat (n_apic_spurious w) + (if using_apic w \<and> tf_vector f = 255 then 1 else 0)"
    using v(7) total_ticks(2) [OF t] by (simp add: unat_next)
  have same: "using_apic v = using_apic w" "lapic_at v = lapic_at w"
    using statics_same [OF v(4)] by simp_all
  let ?evs = "evs @ [Epilogue (resched_asked w \<or> is_tick w f)] @ more"
  have "length (filter (is_ack (lapic_at w)) ?evs) + (unat (n_apic_spurious w') - unat (n_apic_spurious w)) =
      length (f # fs)" if apic: "using_apic w \<and> lapic_at w \<noteq> None"
  proof -
    obtain base where b: "lapic_at w = Some base" using apic by auto
    have "length (filter (is_ack (lapic_at w)) ?evs) =
        (if tf_vector f = 255 then 0 else 1) + length (filter (is_ack (lapic_at w)) more)"
      using v(3) due_count [OF _ b, of hw] apic by (simp add: is_ack_def)
    with w'(6,7) same apic sp show ?thesis by (auto split: if_splits)
  qed
  moreover have "log_of w' = log_of w @ ?evs" using v(2) w'(2) by simp
  moreover have "unat (n_apic_spurious w) \<le> unat (n_apic_spurious w')" using sp w'(6) by simp
  ultimately show ?case
    using v(1,4) w' c(1) by (auto simp: exI)
qed

text \<open>No interrupt goes uncounted. Any sequence of device interrupts, whatever their vectors, is
  handled to the end, and the four counts together grow by exactly their number; no more ticks are
  ever counted in ring 3 than there were ticks; and once the APIC delivers, the local APIC has
  received as many acknowledgements as there were interrupts that were not its spurious one.\<close>

theorem interrupts_accounted:
  assumes "\<forall>f\<in>set fs. is_device_vector (tf_vector f)" "total w + length fs < 2 ^ 64"
    and "unat (n_ring3 w) \<le> unat (n_ticks w)"
  shows "\<exists>w' evs. each_act (map (dispatch hw) fs) w = Some (Done ((), w')) \<and> log_of w' = log_of w @ evs \<and>
    total w' = total w + length fs \<and> unat (n_ring3 w') \<le> unat (n_ticks w') \<and>
    (using_apic w \<and> lapic_at w \<noteq> None \<longrightarrow>
      length (filter (is_ack (lapic_at w)) evs) + (unat (n_apic_spurious w') - unat (n_apic_spurious w)) = length fs)"
  using accounted [OF assms, of hw] by blast

theorem interrupts_accounted_witness:
  "\<exists>w'. each_act (map (dispatch still_machine) [frame_of 32 8, frame_of 39 8, frame_of 100 0x23]) quiet =
      Some (Done ((), w')) \<and> total w' = 3"
proof -
  have t: "total quiet = 0" by (simp add: total_def quiet_def)
  have "\<forall>f\<in>set [frame_of 32 8, frame_of 39 8, frame_of 100 0x23]. is_device_vector (tf_vector f)"
    "total quiet + length [frame_of 32 8, frame_of 39 8, frame_of 100 0x23] < 2 ^ 64"
    "unat (n_ring3 quiet) \<le> unat (n_ticks quiet)"
    by (simp_all add: t is_device_vector_def PIC_BASE_def)
  from interrupts_accounted [OF this, of still_machine] show ?thesis
    unfolding t by auto
qed

section \<open>The first self-test\<close>

definition master_eois :: "history \<Rightarrow> nat" where
  "master_eois h = length (filter (\<lambda>e. e = Port_Write MASTER_COMMAND OCW2_EOI) h)"

definition pauses :: "history \<Rightarrow> nat" where
  "pauses h = length (filter (\<lambda>e. e = Pause) h)"

lemma tallies [simp]: "master_eois (h @ t) = master_eois h + master_eois t" "master_eois [] = 0"
    "pauses (h @ t) = pauses h + pauses t" "pauses [] = 0" "pauses [Pause] = 1" "pauses [Epilogue b] = 0"
    "master_eois [Pause] = 0" "master_eois [Epilogue b] = 0"
  by (simp_all add: master_eois_def pauses_def)

lemma no_pauses: "Pause \<notin> set h \<Longrightarrow> pauses h = 0"
  by (induction h) (auto simp: pauses_def)

lemma master_eois_acks: "master_eois (filter (is_ack lapic) h) = master_eois h"
  by (induction h) (auto simp: master_eois_def is_ack_def)

text \<open>While the 8259s deliver_irqs, every tick counted is an acknowledgement the master got.\<close>

definition acked_from :: "irqs \<Rightarrow> irqs \<Rightarrow> nat \<Rightarrow> bool" where
  "acked_from w w' n \<longleftrightarrow> (\<exists>evs. log_of w' = log_of w @ evs \<and> statics w' = statics w \<and> pauses evs \<le> n \<and>
     unat (n_ticks w') \<le> unat (n_ticks w) + master_eois evs)"

lemma acked_refl: "acked_from w w n"
  by (simp add: acked_from_def)

lemma acked_trans: "acked_from w v n \<Longrightarrow> acked_from v w' k \<Longrightarrow> acked_from w w' (n + k)"
  unfolding acked_from_def by (elim exE conjE) (rule exI, auto)

lemma tick_le: "unat (x + 1) \<le> unat x + 1" for x :: u64
  using mod_less_eq_dividend [of "unat x + 1" "2 ^ 64"] by (simp add: unat_word_ariths)

lemma dispatch_acked:
  assumes "is_device_vector (tf_vector f)" "\<not> using_apic w"
  shows "\<exists>v. dispatch hw f w = Some (Done ((), v)) \<and> acked_from w v 0"
proof -
  obtain v evs where v: "dispatch hw f w = Some (Done ((), v))"
    "log_of v = log_of w @ evs @ [Epilogue (resched_asked w \<or> is_tick w f)]"
    "filter (is_ack (lapic_at w)) evs = due hw w (tf_vector f)" "statics v = statics w" "Pause \<notin> set evs"
    "n_ticks v = n_ticks w \<or> tf_vector f = 32 \<and> n_ticks v = n_ticks w + 1"
    using dispatch_run [of f w hw] assms by blast
  have "unat (n_ticks v) \<le> unat (n_ticks w) + master_eois evs"
    using v(6)
  proof
    assume "tf_vector f = 32 \<and> n_ticks v = n_ticks w + 1"
    moreover from this have "due hw w (tf_vector f) = [Port_Write MASTER_COMMAND OCW2_EOI]"
      using assms(2) by (simp add: due_def)
    then have "master_eois evs = 1"
      using master_eois_acks [of "lapic_at w" evs] unfolding v(3) by (simp add: master_eois_def)
    ultimately show ?thesis using tick_le [of "n_ticks w"] by simp
  qed simp
  with v show ?thesis by (simp add: acked_from_def no_pauses)
qed

lemma deliver_acked:
  assumes "\<forall>f\<in>set fs. is_device_vector (tf_vector f)" "\<not> using_apic w"
  shows "\<exists>v. each_act (map (dispatch hw) fs) w = Some (Done ((), v)) \<and> acked_from w v 0"
  using assms
proof (induction fs arbitrary: w)
  case (Cons f fs)
  obtain u where u: "dispatch hw f w = Some (Done ((), u))" "acked_from w u 0"
    using dispatch_acked [of f w hw] Cons.prems by auto
  then have "\<not> using_apic u"
    using Cons.prems(2) statics_same [of u w] by (auto simp: acked_from_def)
  with Cons.IH [of u] Cons.prems(1) obtain v where
    "each_act (map (dispatch hw) fs) u = Some (Done ((), v))" "acked_from u v 0" by auto
  with u acked_trans [of w u 0 v 0] show ?case by auto
qed (simp add: acked_refl)

lemma await_acked:
  assumes "\<forall>h. \<forall>f\<in>set (arrive h). is_device_vector (tf_vector f)" "\<not> using_apic w"
  shows "\<exists>v. await_ticks hw arrive wanted n w = Some (Done ((), v)) \<and> acked_from w v n"
  using assms(2)
proof (induction n arbitrary: w)
  case 0
  then show ?case
    using deliver_acked [of "arrive (log_of w)" w hw] assms(1) by (simp add: deliver_irqs_def)
next
  case (Suc n)
  obtain u where u: "deliver_irqs hw arrive w = Some (Done ((), u))" "acked_from w u 0"
    using deliver_acked [of "arrive (log_of w)" w hw] assms(1) Suc.prems by (auto simp: deliver_irqs_def)
  then have a: "\<not> using_apic u"
    using Suc.prems statics_same [of u w] by (auto simp: acked_from_def)
  show ?case
  proof (cases "n_ticks u < wanted")
    case True
    let ?k = "with_log (log_of u @ [Pause]) u"
    from Suc.IH [of ?k] a obtain v where
      v: "await_ticks hw arrive wanted n ?k = Some (Done ((), v))" "acked_from ?k v n" by auto
    have "acked_from u ?k 1" by (simp add: acked_from_def)
    with u v acked_trans [of u ?k 1 v n] acked_trans [of w u 0 v "1 + n"] have "acked_from w v (Suc n)" by simp
    with u(1) v(1) True show ?thesis by (simp add: spin_loop_def)
  next
    case False
    moreover have "acked_from w u (Suc n)" using u(2) by (auto simp: acked_from_def)
    ultimately show ?thesis using u(1) by simp
  qed
qed

lemma masks_ports: "\<exists>lo hi. masks (ports hw) h = Some (Done (ucast lo OR push_bit 8 (ucast hi),
    h @ [Port_Read MASTER_DATA lo, Port_Read SLAVE_DATA hi]))"
  by (simp add: masks_def inb_ports)

lemma set_halves: "set_masks p (ucast lo OR push_bit 8 (ucast hi)) =
    seq_act (outb p MASTER_DATA lo) (outb p SLAVE_DATA hi)" for lo hi :: u8
proof -
  have "ucast (ucast lo OR push_bit 8 (ucast hi) :: u16) = lo"
    by (rule bit_word_eqI) (auto simp: bit_simps)
  moreover have "ucast (drop_bit 8 (ucast lo OR push_bit 8 (ucast hi) :: u16)) = hi"
    by (rule bit_word_eqI) (auto simp: bit_simps dest: bit_imp_le_length)
  ultimately show ?thesis by (simp only: set_masks_def)
qed

lemma with_line_zero: "(ucast lo OR push_bit 8 (ucast hi)) OR 1 = ucast (lo OR 1) OR push_bit 8 (ucast hi :: u16)"
    "(ucast lo OR push_bit 8 (ucast hi)) AND NOT 1 = ucast (lo AND NOT 1) OR push_bit 8 (ucast hi :: u16)"
  for lo hi :: u8
  by (rule u16_eqI, auto simp: bit_simps dest: bit_imp_le_length)+

lemma mask_line_zero: "\<exists>lo hi. pic_mask (ports hw) IRQ_TIMER h = Some (Done ((), h @
    [Port_Read MASTER_DATA lo, Port_Read SLAVE_DATA hi, Port_Write MASTER_DATA (lo OR 1), Port_Write SLAVE_DATA hi]))"
proof -
  obtain lo hi where "masks (ports hw) h = Some (Done (ucast lo OR push_bit 8 (ucast hi),
    h @ [Port_Read MASTER_DATA lo, Port_Read SLAVE_DATA hi]))" using masks_ports by blast
  then show ?thesis
    by (simp add: pic_mask_def line_bit_def IRQ_TIMER_def set_halves outb_ports with_line_zero)
qed

lemma unmask_line_zero: "\<exists>lo hi. pic_unmask (ports hw) IRQ_TIMER h = Some (Done ((), h @
    [Port_Read MASTER_DATA lo, Port_Read SLAVE_DATA hi, Port_Write MASTER_DATA (lo AND NOT 1), Port_Write SLAVE_DATA hi]))"
proof -
  obtain lo hi where "masks (ports hw) h = Some (Done (ucast lo OR push_bit 8 (ucast hi),
    h @ [Port_Read MASTER_DATA lo, Port_Read SLAVE_DATA hi]))" using masks_ports by blast
  then show ?thesis
    by (simp add: pic_unmask_def line_bit_def IRQ_TIMER_def set_halves outb_ports Let_def
      with_line_zero [simplified])
qed

text \<open>The accesses that close the test: line 0 masked again, and the interval timer stopped.\<close>

definition test_over :: "history \<Rightarrow> bool" where
  "test_over h = (\<exists>lo hi. h = [Port_Read MASTER_DATA lo, Port_Read SLAVE_DATA hi,
     Port_Write MASTER_DATA (lo OR 1), Port_Write SLAVE_DATA hi,
     Port_Write PIT_COMMAND 0x30, Port_Write CHANNEL0_DATA 0, Port_Write CHANNEL0_DATA 0])"

text \<open>C37: the first interrupts this kernel takes are taken safely and judged honestly. Whatever arrives
  on whatever line while they are on, and however often, the self-test ends, within its patience;
  interrupts are off again when it does, line 0 masked as it was and the timer stopped; and it passes
  only if the master was told the end of at least eight interrupts while they were on: a tick that is
  not acknowledged is not one that was counted.\<close>

theorem selftest_sound:
  assumes "\<forall>h. \<forall>f\<in>set (arrive h). is_device_vector (tf_vector f)" "\<not> using_apic w"
  shows "\<exists>b w' before during after. selftest hw arrive w = Some (Done (b, w')) \<and>
    log_of w' = log_of w @ before @ [Interrupts_On] @ during @ [Interrupts_Off] @ after \<and>
    statics w' = statics w \<and> pauses during \<le> 20000000 \<and> (b \<longrightarrow> 8 \<le> master_eois during) \<and> test_over after"
proof -
  obtain hz g where pit: "pit_start (ports hw) SELFTEST_HZ (log_of w) = Some (Done (hz, log_of w @ g))"
    by (simp add: pit_start_def Let_def outb_ports)
  obtain lo hi where un: "pic_unmask (ports hw) IRQ_TIMER (log_of w @ g) = Some (Done ((), (log_of w @ g) @
    [Port_Read MASTER_DATA lo, Port_Read SLAVE_DATA hi, Port_Write MASTER_DATA (lo AND NOT 1), Port_Write SLAVE_DATA hi]))"
    using unmask_line_zero by blast
  let ?before = "g @ [Port_Read MASTER_DATA lo, Port_Read SLAVE_DATA hi, Port_Write MASTER_DATA (lo AND NOT 1),
    Port_Write SLAVE_DATA hi]"
  let ?start = "with_log (log_of w @ ?before @ [Interrupts_On]) (w\<lparr>n_ticks := 0\<rparr>)"
  obtain v where v: "await_ticks hw arrive SELFTEST_TICKS SELFTEST_PATIENCE ?start = Some (Done ((), v))"
    "acked_from ?start v SELFTEST_PATIENCE"
    using await_acked [of arrive ?start hw SELFTEST_TICKS SELFTEST_PATIENCE] assms by auto
  then obtain during where d: "log_of v = log_of w @ ?before @ [Interrupts_On] @ during" "statics v = statics w"
    "pauses during \<le> SELFTEST_PATIENCE" "unat (n_ticks v) \<le> master_eois during"
    by (auto simp: acked_from_def)
  obtain lo2 hi2 where mk: "pic_mask (ports hw) IRQ_TIMER (log_of v @ [Interrupts_Off]) = Some (Done ((),
    (log_of v @ [Interrupts_Off]) @ [Port_Read MASTER_DATA lo2, Port_Read SLAVE_DATA hi2,
      Port_Write MASTER_DATA (lo2 OR 1), Port_Write SLAVE_DATA hi2]))"
    using mask_line_zero by blast
  define after where "after = [Port_Read MASTER_DATA lo2, Port_Read SLAVE_DATA hi2,
    Port_Write MASTER_DATA (lo2 OR 1), Port_Write SLAVE_DATA hi2,
    Port_Write PIT_COMMAND 0x30, Port_Write CHANNEL0_DATA 0, Port_Write CHANNEL0_DATA 0]"
  have b: "add_run (pic_base w) IRQ_TIMER = Done (pic_base w)"
    using unat_less_width [of "pic_base w"] by (simp add: add_run_Done IRQ_TIMER_def)
  have run: "selftest hw arrive w = Some (Done (SELFTEST_TICKS \<le> n_ticks v,
      with_log (log_of v @ [Interrupts_Off] @ after) v))"
    using pit un v(1) mk
    by (simp add: selftest_def vector_for_def b enable_interrupts_def disable_interrupts_def pit_stop_def
      outb_ports after_def)
  show ?thesis
  proof (intro exI conjI impI)
    show "selftest hw arrive w = Some (Done (SELFTEST_TICKS \<le> n_ticks v,
      with_log (log_of v @ [Interrupts_Off] @ after) v))" by (rule run)
    show "log_of (with_log (log_of v @ [Interrupts_Off] @ after) v) =
        log_of w @ ?before @ [Interrupts_On] @ during @ [Interrupts_Off] @ after" by (simp add: d(1))
    show "statics (with_log (log_of v @ [Interrupts_Off] @ after) v) = statics w" by (simp add: d(2))
    show "pauses during \<le> 20000000" using d(3) by (simp add: SELFTEST_PATIENCE_def)
    show "8 \<le> master_eois during" if "SELFTEST_TICKS \<le> n_ticks v"
      using that d(4) by (simp add: SELFTEST_TICKS_def word_le_nat_alt)
    show "test_over after" unfolding test_over_def after_def by blast
  qed
qed

text \<open>A timer that ticks at every look, and a stray line 7 beside it.\<close>

theorem selftest_sound_witness:
  "\<exists>b w'. selftest still_machine (\<lambda>h. [frame_of 32 8, frame_of 39 8]) quiet = Some (Done (b, w')) \<and>
    statics w' = statics quiet"
proof -
  have "\<forall>h. \<forall>f\<in>set ((\<lambda>h::history. [frame_of 32 8, frame_of 39 8]) h). is_device_vector (tf_vector f)"
    by (simp add: is_device_vector_def PIC_BASE_def)
  from selftest_sound [OF this, of quiet still_machine] show ?thesis by auto
qed

section \<open>The verdict on the timer\<close>

lemma expected_ns_second: "expected_ns = 1000000000"
  by (simp add: expected_ns_def WANTED_def TIMER_HZ_def)

lemma unat_abs_diff: "unat (abs_diff a b) = (if unat a < unat b then unat b - unat a else unat a - unat b)"
  by (simp add: abs_diff_def word_less_nat_alt unat_sub word_le_nat_alt)

text \<open>the tolerance the timer is held to, to the nanosecond. A hundred ticks pass when they took more
  than 979 and less than 1251 milliseconds: the error is truncated to whole thousandths before it is
  compared, so the bounds let through just under 2.1 per cent early and 25.1 late. Any interval of
  18446745073709552 nanoseconds or more, 213 days, panics in the multiplication.\<close>

theorem timer_tolerance:
  "rate_within took =
    (if 18446745073709552 \<le> unat took then Panic
     else Done (979000000 < unat took \<and> unat took < 1251000000))"
proof -
  let ?n = "unat took"
  let ?e = "unat (abs_diff took expected_ns)"
  have e: "?e = (if ?n < 1000000000 then 1000000000 - ?n else ?n - 1000000000)"
    by (simp add: unat_abs_diff expected_ns_second)
  have over: "?e * 1000 < 2 ^ 64 \<longleftrightarrow> ?n < 18446745073709552" unfolding e by auto
  have lt: "took < expected_ns \<longleftrightarrow> ?n < 1000000000" "expected_ns < took \<longleftrightarrow> 1000000000 < ?n"
    by (simp_all add: expected_ns_second word_less_nat_alt)
  show ?thesis
  proof (cases "?n < 18446745073709552")
    case True
    let ?s = "abs_diff took expected_ns * 1000"
    have s: "unat ?s = ?e * 1000"
      using over True by (simp add: unat_mult_lem [THEN iffD1])
    have m: "mul_run (abs_diff took expected_ns) 1000 = Done ?s"
      using over True by (simp add: mul_run_def checked_mul_def)
    have q: "unat (?s div expected_ns) = ?e div 1000000"
    proof -
      have "unat (?s div expected_ns) = unat ?s div 1000000000"
        by (subst unat_div_distrib) (simp add: expected_ns_second)
      also have "\<dots> = ?e * 1000 div (1000 * 1000000)" unfolding s by simp
      also have "\<dots> = ?e div 1000000" by (simp only: div_mult2_eq)
      finally show ?thesis .
    qed
    have f: "TOLERANCE_PERCENT * 10 < ?s div expected_ns \<longleftrightarrow> 21000000 \<le> ?e"
      "SLOW_TOLERANCE_PERCENT * 10 < ?s div expected_ns \<longleftrightarrow> 251000000 \<le> ?e"
      by (simp_all add: word_less_nat_alt q TOLERANCE_PERCENT_def SLOW_TOLERANCE_PERCENT_def) linarith+
    show ?thesis
      unfolding rate_within_def m bind_run_simps Let_def f lt using True e by auto
  next
    case False
    then show ?thesis using over by (simp add: rate_within_def mul_run_def checked_mul_def)
  qed
qed

section \<open>Deadlines\<close>

text \<open>The most nanoseconds a 32-bit counter can show.\<close>

definition narrow_limit :: "capabilities \<Rightarrow> nat" where
  "narrow_limit c = (2 ^ 32 - 1) * unat (cap_period_fs c) div 1000000"

lemma now_ns_apply: "now_ns hw w = (case hpet_at w of
     None \<Rightarrow> Some (Done (None, w))
   | Some (base, c) \<Rightarrow> let v = answer64 hw (log_of w) (base + REG_COUNTER) in
       Some (Done (Some (elapsed_ns c 0 v), with_log (log_of w @ [Mmio_Read64 (base + REG_COUNTER) v]) w)))"
  by (auto simp: now_ns_def hpet_now_mapped Let_def split: option.split)

lemma narrow_now:
  assumes "\<not> cap_counter_64bit c"
  shows "unat (elapsed_ns c 0 v) \<le> narrow_limit c"
proof -
  let ?e = "elapsed c 0 v"
  have e: "unat ?e \<le> 2 ^ 32 - 1"
    using narrow_elapsed [OF assms, of 0 v] by linarith
  have p: "unat (cap_period_fs c) < 2 ^ 32" using unat_less_width [of "cap_period_fs c"] by simp
  have le: "unat ?e * unat (cap_period_fs c) div 1000000 \<le> narrow_limit c"
    unfolding narrow_limit_def using e by (intro div_le_mono mult_le_mono1)
  have "narrow_limit c \<le> (2 ^ 32 - 1) * (2 ^ 32 - 1) div 1000000"
    unfolding narrow_limit_def using p by (intro div_le_mono mult_le_mono2) linarith
  then have "narrow_limit c < 2 ^ 64" by simp
  with le show ?thesis by (simp add: elapsed_ns_def ticks_to_ns_def unat_word_of_nat_small)
qed

text \<open>When a deadline asked for in state \<open>w\<close> can never fire.\<close>

definition never_due :: "machine \<Rightarrow> u64 \<Rightarrow> irqs \<Rightarrow> bool" where
  "never_due hw micros w = (case hpet_at w of
     None \<Rightarrow> True
   | Some (base, c) \<Rightarrow> \<not> cap_counter_64bit c \<and>
       narrow_limit c < unat (elapsed_ns c 0 (answer64 hw (log_of w) (base + REG_COUNTER))) + unat (saturating_mul micros 1000))"

lemma never_passes:
  assumes "never_due hw micros w" "deadline_micros hw micros w = Some (Done (dl, v))" "hpet_at k = hpet_at w"
  shows "hpet_at v = hpet_at w" "\<exists>j. deadline_passed hw dl k = Some (Done (False, j)) \<and> hpet_at j = hpet_at w"
proof -
  show "hpet_at v = hpet_at w"
    using assms(2) by (auto simp: deadline_micros_def bind_act_Done now_ns_apply Let_def split: option.splits)
  show "\<exists>j. deadline_passed hw dl k = Some (Done (False, j)) \<and> hpet_at j = hpet_at w"
  proof (cases "hpet_at w")
    case None
    with assms(2,3) show ?thesis
      by (auto simp: deadline_micros_def deadline_passed_def bind_act_Done now_ns_apply)
  next
    case (Some bc)
    obtain base c where bc: "bc = (base, c)" by (cases bc)
    let ?a = "elapsed_ns c 0 (answer64 hw (log_of w) (base + REG_COUNTER))"
    let ?b = "elapsed_ns c 0 (answer64 hw (log_of k) (base + REG_COUNTER))"
    have dl: "dl = \<lparr>dl_start = Some ?a, dl_span = saturating_mul micros 1000\<rparr>"
      using assms(2) Some bc by (auto simp: deadline_micros_def bind_act_Done now_ns_apply Let_def)
    have c: "\<not> cap_counter_64bit c" "narrow_limit c < unat ?a + unat (saturating_mul micros 1000)"
      using assms(1) Some bc by (simp_all add: never_due_def)
    have "\<not> saturating_mul micros 1000 \<le> saturating_sub ?b ?a"
    proof (cases "?a \<le> ?b")
      case True
      then have "unat (?b - ?a) = unat ?b - unat ?a" by (simp add: unat_sub)
      then show ?thesis
        using True c(2) narrow_now [OF c(1), of "answer64 hw (log_of k) (base + REG_COUNTER)"]
        by (simp add: saturating_sub_def word_le_nat_alt)
    next
      case False
      then have "unat ?a \<le> narrow_limit c" by (intro narrow_now [OF c(1)])
      with False c(2) show ?thesis by (simp add: saturating_sub_def word_le_nat_alt)
    qed
    with Some bc assms(3) dl show ?thesis
      by (simp add: deadline_passed_def now_ns_apply Let_def bind_act_def)
  qed
qed

lemma rd_over: "is_multiple_of offset 4 \<Longrightarrow> rd (over_irqs (mapped32 hw base)) offset w =
    Some (Done (answer32 hw (log_of w) (base + offset),
      with_log (log_of w @ [Mmio_Read (base + offset) (answer32 hw (log_of w) (base + offset))]) w))"
  by (simp add: rd_def reading_def over_irqs_def mapped32_def Let_def)

lemma wedged_never_idle:
  assumes "never_due hw micros w" "deadline_micros hw micros w = Some (Done (dl, v))" "hpet_at k = hpet_at w"
    and "\<And>h. answer32 hw h (base + ICR_LOW) AND ICR_DELIVERY_PENDING \<noteq> 0"
  shows "wait_idle (over_irqs (mapped32 hw base)) (deadline_passed hw dl) k = None"
proof (cases "wait_idle (over_irqs (mapped32 hw base)) (deadline_passed hw dl) k")
  case (Some r)
  let ?d = "over_irqs (mapped32 hw base)"
  let ?P = "\<lambda>d e m r. d = ?d \<longrightarrow> e = deadline_passed hw dl \<longrightarrow> hpet_at m = hpet_at w \<longrightarrow> False"
  have "?P ?d (deadline_passed hw dl) k r"
  proof (rule wait_idle.raw_induct [where P = ?P, OF _ Some], intro impI)
    fix f d e m r
    assume IH: "\<And>d e m r. f d e m = Some r \<Longrightarrow> ?P d e m r"
      and run: "(case rd d ICR_LOW m of None \<Rightarrow> None | Some Panic \<Rightarrow> Some Panic
        | Some (Done (v, n)) \<Rightarrow> if v AND ICR_DELIVERY_PENDING = 0 then Some (Done (Some (), n))
          else (case e n of None \<Rightarrow> None | Some Panic \<Rightarrow> Some Panic
            | Some (Done (b, k)) \<Rightarrow> if b then Some (Done (None, k)) else f d e k)) = Some r"
      and d: "d = ?d" and e: "e = deadline_passed hw dl" and m: "hpet_at m = hpet_at w"
    let ?n = "with_log (log_of m @ [Mmio_Read (base + ICR_LOW) (answer32 hw (log_of m) (base + ICR_LOW))]) m"
    have "hpet_at ?n = hpet_at w" using m by simp
    from never_passes(2) [OF assms(1,2) this] obtain j where
      j: "deadline_passed hw dl ?n = Some (Done (False, j))" "hpet_at j = hpet_at w" by blast
    have "f d e j = Some r"
      using run assms(4) j(1) unfolding d e by (simp add: rd_over mapped.aligned_regs)
    from IH [OF this] d e j(2) show False by blast
  qed
  with assms(3) show ?thesis by simp
qed simp

text \<open>A deadline is not a bound on every machine. With no HPET, or with a 32-bit one that would wrap
  before the deadline, the predicate \<open>deadline_micros\<close> returns never becomes true, however long it is
  asked; so a message to another core over a local APIC that stays busy is waited for without end,
  which is what the deadline was there to prevent.\<close>

theorem deadline_never_fires:
  assumes "never_due hw micros w" "deadline_micros hw micros w = Some (Done (dl, v))"
    and "\<And>h. answer32 hw h (base + ICR_LOW) AND ICR_DELIVERY_PENDING \<noteq> 0"
  shows "send_init (over_irqs (mapped32 hw base)) dest (deadline_passed hw dl) v = None"
  using wedged_never_idle [OF assms(1,2) never_passes(1) [OF assms(1,2) refl] assms(3)]
  by (simp add: send_init_def send_ipi_def try_act_def)

text \<open>Ten milliseconds asked for within ten milliseconds of the wrap of a 32-bit counter at 100 MHz.\<close>

definition busy_machine :: machine where
  "busy_machine = still_machine\<lparr>answer32 := (\<lambda>h a. - 1), answer64 := (\<lambda>h a. 0xFFFFFF00)\<rparr>"

definition timed :: irqs where
  "timed = quiet\<lparr>hpet_at := Some (0, narrow_caps)\<rparr>"

theorem deadline_never_fires_witness:
  "\<exists>dl v. deadline_micros busy_machine 10000 timed = Some (Done (dl, v)) \<and>
    send_init (over_irqs (mapped32 busy_machine 0)) 3 (deadline_passed busy_machine dl) v = None"
proof -
  have b: "answer32 busy_machine h (0 + ICR_LOW) AND ICR_DELIVERY_PENDING \<noteq> 0" for h
    by (simp add: busy_machine_def ICR_DELIVERY_PENDING_def)
  have t: "hpet_at timed = Some (0, narrow_caps)" "log_of timed = []"
    by (simp_all add: timed_def)
  have n: "elapsed_ns narrow_caps 0 0xFFFFFF00 = 42949670400"
    by (simp add: elapsed_ns_def elapsed_def ticks_to_ns_def narrow_caps_def)
  have d: "never_due busy_machine 10000 timed"
    by (simp add: never_due_def t busy_machine_def n narrow_limit_def saturating_mul_def)
      (simp add: narrow_caps_def)
  obtain dl v where "deadline_micros busy_machine 10000 timed = Some (Done (dl, v))"
    by (simp add: deadline_micros_def now_ns_apply t Let_def bind_act_def)
  from deadline_never_fires [OF d this b, of 3] this show ?thesis by blast
qed

section \<open>The hand-over to the APICs\<close>

text \<open>What is done to the controllers: the writes among the events.\<close>

fun is_write :: "event \<Rightarrow> bool" where
  "is_write (Mmio_Write a v) = True"
| "is_write (Mmio_Write64 a v) = True"
| "is_write (Port_Write p v) = True"
| "is_write (Msr_Write r v) = True"
| "is_write e = False"

definition written :: "history \<Rightarrow> history" where
  "written h = filter is_write h"

lemma written_simps [simp]: "written [] = []" "written (h @ t) = written h @ written t"
    "written (e # h) = (if is_write e then e # written h else written h)"
  by (simp_all add: written_def)

lemma vm_map_device_written:
  assumes "vm_map_device tb p len s = Some (Done (r, t))"
  shows "\<exists>evs. vm_log t = vm_log s @ evs \<and> written evs = []"
proof -
  have "written (map (\<lambda>i. Invlpg (f i)) is) = []" for f :: "nat \<Rightarrow> u64" and "is"
    by (induction "is") simp_all
  then show ?thesis
    using assms
    by (auto simp: vm_map_device_def Let_def bind_act_Done of_run_Done try_sum_Done seq_act_Done invlpg_pages
      dest!: vm_map_log split: if_splits)
qed

lemma map_registers_written:
  assumes "map_registers tb p len w = Some (Done (r, w'))"
  shows "\<exists>evs. log_of w' = log_of w @ evs \<and> written evs = [] \<and> w' = w\<lparr>irq_vm := irq_vm w'\<rparr>"
proof -
  obtain q v where v: "vm_map_device tb p len (irq_vm w) = Some (Done (q, v))" "w' = w\<lparr>irq_vm := v\<rparr>"
    using assms by (auto simp: map_registers_def bind_act_Done on_vm_def on_part_def split: option.splits run.splits)
  with vm_map_device_written [OF v(1)] show ?thesis by auto
qed

definition lapic_enabling :: "u64 \<Rightarrow> history" where
  "lapic_enabling base = map (\<lambda>(r, v). Mmio_Write (base + r) v)
     [(TASK_PRIORITY, 0), (LVT_TIMER, LVT_MASKED), (LVT_LINT0, LVT_MASKED), (LVT_LINT1, LVT_MASKED),
      (LVT_ERROR, LVT_MASKED OR 255), (LAPIC_SPURIOUS, SPURIOUS_ENABLE OR 255)]"

lemma lapic_enable_mapped: "lapic_enable (mapped32 hw base) APIC_SPURIOUS_VECTOR h =
    Some (Done ((), h @ lapic_enabling base))"
  by (simp add: lapic_enable_def wr_mapped mapped.aligned_regs lapic_enabling_def
    APIC_SPURIOUS_VECTOR_def)

lemma init_lapic_written: "\<exists>w' b e. init_lapic hw virt w = Some (Done (e, w')) \<and>
    (\<exists>evs. log_of w' = log_of w @ evs \<and>
      written evs = Msr_Write IA32_APIC_BASE (b OR APIC_BASE_ENABLE) # lapic_enabling virt) \<and>
    lapic_at w' = Some virt \<and> using_apic w' = using_apic w \<and> ioapic_at w' = ioapic_at w"
  by (simp add: init_lapic_def Let_def read_msr_def write_msr_def lapic_enable_mapped lapic_id_def
    lapic_version_def lapic_is_enabled_def lvt_entries_def lapic_spurious_vector_def rd_mapped mapped.aligned_regs
    lapic_enabling_def) (rule exI, rule refl)

lemma io_regs: "is_multiple_of IOAPIC_SELECT 4" "is_multiple_of IOAPIC_WINDOW 4"
  by (simp_all add: is_multiple_of_dvd IOAPIC_SELECT_def IOAPIC_WINDOW_def)

definition masking :: "u64 \<Rightarrow> nat \<Rightarrow> history" where
  "masking base i = [Mmio_Write (base + IOAPIC_SELECT) (IOAPIC_REG_REDIRECT + word_of_nat i * 2 + 1),
     Mmio_Write (base + IOAPIC_WINDOW) 0,
     Mmio_Write (base + IOAPIC_SELECT) (IOAPIC_REG_REDIRECT + word_of_nat i * 2),
     Mmio_Write (base + IOAPIC_WINDOW) (low_bits redirection_masked)]"

lemma mask_entry_mapped:
  assumes "mask_entry (mapped32 hw base) g (word_of_nat i) h = Some (Done (u, k))"
  shows "k = h @ masking base i"
  using assms
  by (auto simp: mask_entry_def bind_act_Done of_run_Done entry_regs_def add_run_Done bind_run_def sub_run_def
    mul_run_def checked_mul_def write_reg_def seq_act_Done wr_mapped io_regs masking_def
    split: run.splits if_splits option.splits)

lemma mask_entries_mapped:
  assumes "each_act (map (\<lambda>i. mask_entry (mapped32 hw base) g (word_of_nat i)) is) h = Some (Done (u, k))"
  shows "k = h @ concat (map (masking base) is)"
  using assms
proof (induction "is" arbitrary: h)
  case (Cons i "is")
  then obtain n where n: "mask_entry (mapped32 hw base) g (word_of_nat i) h = Some (Done ((), n))"
    "each_act (map (\<lambda>i. mask_entry (mapped32 hw base) g (word_of_nat i)) is) n = Some (Done (u, k))"
    by (auto simp: seq_act_Done)
  from Cons.IH [OF n(2)] mask_entry_mapped [OF n(1)] show ?case by simp
qed simp

lemma masking_written: "written (concat (map (masking base) is)) = concat (map (masking base) is)"
  by (induction "is") (simp_all add: masking_def)

text \<open>The entries a version register tells of.\<close>

definition ioapic_entries :: "u32 \<Rightarrow> nat" where
  "ioapic_entries v = unat ((drop_bit 16 v AND 0xFF) + 1)"

lemma mask_all_mapped:
  assumes "ioapic_mask_all (mapped32 hw base) g h = Some (Done (u, k))"
  shows "\<exists>v. k = h @ [Mmio_Write (base + IOAPIC_SELECT) IOAPIC_REG_VERSION, Mmio_Read (base + IOAPIC_WINDOW) v] @
    concat (map (masking base) [0..<ioapic_entries v])"
  using assms
  by (auto simp: ioapic_mask_all_def bind_act_Done entry_count_def read_reg_def seq_act_Done wr_mapped
    rd_mapped io_regs ioapic_entries_def dest!: mask_entries_mapped)

text \<open>Reading a register writes only the select register.\<close>

definition selecting :: "u64 \<Rightarrow> history \<Rightarrow> bool" where
  "selecting base h \<longleftrightarrow> set (written h) \<subseteq> range (Mmio_Write (base + IOAPIC_SELECT))"

lemma ioapic_reads_select:
  "ioapic_id (mapped32 hw base) h = Some (Done (a, k)) \<Longrightarrow> \<exists>t. k = h @ t \<and> selecting base t"
  "ioapic_version (mapped32 hw base) h = Some (Done (b, k)) \<Longrightarrow> \<exists>t. k = h @ t \<and> selecting base t"
  "entry_count (mapped32 hw base) h = Some (Done (c, k)) \<Longrightarrow> \<exists>t. k = h @ t \<and> selecting base t"
  by (auto simp: ioapic_id_def ioapic_version_def entry_count_def bind_act_Done read_reg_def seq_act_Done
    wr_mapped rd_mapped io_regs selecting_def)

lemma init_ioapic_written:
  assumes "init_ioapic hw base g w = Some (Done (u, w'))"
  shows "\<exists>evs v rest. log_of w' = log_of w @ evs \<and> Mmio_Read (base + IOAPIC_WINDOW) v \<in> set evs \<and>
    written evs = Mmio_Write (base + IOAPIC_SELECT) IOAPIC_REG_VERSION #
      concat (map (masking base) [0..<ioapic_entries v]) @ rest \<and>
    set rest \<subseteq> range (Mmio_Write (base + IOAPIC_SELECT)) \<and>
    ioapic_at w' = Some (base, g) \<and> using_apic w' = using_apic w \<and> lapic_at w' = lapic_at w"
proof -
  let ?d = "mapped32 hw base"
  obtain h1 a h2 b h3 c h4 e h5 where
    r: "ioapic_mask_all ?d g (log_of w) = Some (Done ((), h1))" "ioapic_id ?d h1 = Some (Done (a, h2))"
      "ioapic_version ?d h2 = Some (Done (b, h3))" "entry_count ?d h3 = Some (Done (c, h4))"
      "entry_count ?d h4 = Some (Done (e, h5))" "w' = (with_log h5 w)\<lparr>ioapic_at := Some (base, g)\<rparr>"
    using assms by (auto simp: init_ioapic_def Let_def bind_act_Done seq_act_Done of_run_Done on_hw_Done)
  obtain v where v: "h1 = log_of w @ [Mmio_Write (base + IOAPIC_SELECT) IOAPIC_REG_VERSION,
      Mmio_Read (base + IOAPIC_WINDOW) v] @ concat (map (masking base) [0..<ioapic_entries v])"
    using mask_all_mapped [OF r(1)] by blast
  obtain t where t: "h5 = h1 @ t" "selecting base t"
  proof -
    obtain t1 t2 t3 t4 where "h2 = h1 @ t1" "h3 = h2 @ t2" "h4 = h3 @ t3" "h5 = h4 @ t4"
      "selecting base t1" "selecting base t2" "selecting base t3" "selecting base t4"
      using ioapic_reads_select(1) [OF r(2)] ioapic_reads_select(2) [OF r(3)]
        ioapic_reads_select(3) [OF r(4)] ioapic_reads_select(3) [OF r(5)] by blast
    then show ?thesis by (intro that [of "t1 @ t2 @ t3 @ t4"]) (auto simp: selecting_def)
  qed
  show ?thesis
  proof (intro exI conjI)
    let ?evs = "[Mmio_Write (base + IOAPIC_SELECT) IOAPIC_REG_VERSION, Mmio_Read (base + IOAPIC_WINDOW) v] @
      concat (map (masking base) [0..<ioapic_entries v]) @ t"
    show "log_of w' = log_of w @ ?evs" using r(6) t(1) v by simp
    show "Mmio_Read (base + IOAPIC_WINDOW) v \<in> set ?evs" by simp
    show "written ?evs = Mmio_Write (base + IOAPIC_SELECT) IOAPIC_REG_VERSION #
      concat (map (masking base) [0..<ioapic_entries v]) @ written t" by (simp add: masking_written)
    show "set (written t) \<subseteq> range (Mmio_Write (base + IOAPIC_SELECT))" using t(2) by (simp add: selecting_def)
  qed (use r(6) in simp_all)
qed

lemma set_masks_all: "set_masks p (- 1) = seq_act (outb p MASTER_DATA 0xFF) (outb p SLAVE_DATA 0xFF)"
proof -
  have "ucast (- 1 :: u16) = (0xFF :: u8)" "ucast (drop_bit 8 (- 1 :: u16)) = (0xFF :: u8)" by code_simp+
  then show ?thesis by (simp only: set_masks_def)
qed

text \<open>The hand-over to the APICs happens in order and entirely, or delivery stays where it was.
  Whatever else happens the 8259s are masked first. A success means: the local APIC is enabled,
  in its base register and then its own registers with every local source masked before the enable;
  after that every entry the I/O APIC says it has is masked, its high half first; nothing but the
  register select is written since; both drivers are in place, and only now does the APIC path
  deliver_irqs. Any failure leaves the 8259 path in charge and no I/O APIC in place.\<close>

theorem apic_handed_over:
  assumes "init_apic hw tb fs w = Some (Done (r, w'))" "\<not> using_apic w"
  shows "case r of
      Inl e \<Rightarrow> \<not> using_apic w' \<and> ioapic_at w' = ioapic_at w \<and> (\<exists>evs rest. log_of w' = log_of w @ evs \<and>
        written evs = Port_Write MASTER_DATA 0xFF # Port_Write SLAVE_DATA 0xFF # rest)
    | Inr u \<Rightarrow> using_apic w' \<and> (\<exists>lapic io g b v evs rest. lapic_at w' = Some lapic \<and> ioapic_at w' = Some (io, g) \<and>
        log_of w' = log_of w @ evs \<and> Mmio_Read (io + IOAPIC_WINDOW) v \<in> set evs \<and>
        written evs = [Port_Write MASTER_DATA 0xFF, Port_Write SLAVE_DATA 0xFF] @
          [Msr_Write IA32_APIC_BASE (b OR APIC_BASE_ENABLE)] @ lapic_enabling lapic @
          [Mmio_Write (io + IOAPIC_SELECT) IOAPIC_REG_VERSION] @
          concat (map (masking io) [0..<ioapic_entries v]) @ rest \<and>
        set rest \<subseteq> range (Mmio_Write (io + IOAPIC_SELECT)))"
proof -
  let ?k = "with_log (log_of w @ [Port_Write MASTER_DATA 0xFF, Port_Write SLAVE_DATA 0xFF]) w"
  have pic: "on_hw (pic_mask_all (ports hw)) w = Some (Done ((), ?k))"
    by (simp add: pic_mask_all_def set_masks_all outb_ports)
  obtain q w1 where q: "map_registers tb (f_local_apic fs) 0x1000 ?k = Some (Done (q, w1))"
    using assms(1) by (auto simp: init_apic_def seq_act_Done pic try_sum_Done)
  obtain e1 where e1: "log_of w1 = log_of ?k @ e1" "written e1 = []" "w1 = ?k\<lparr>irq_vm := irq_vm w1\<rparr>"
    using map_registers_written [OF q] by blast
  have k1: "using_apic w1 = using_apic w" "ioapic_at w1 = ioapic_at w"
    by (subst e1(3), simp)+
  let ?pic = "[Port_Write MASTER_DATA 0xFF, Port_Write SLAVE_DATA 0xFF]"
  have l1: "log_of w1 = log_of w @ ?pic @ e1" using e1(1) by simp
  show ?thesis
  proof (cases q)
    case (Inl e)
    then have "r = Inl e" "w' = w1"
      using assms(1) q by (auto simp: init_apic_def seq_act_Done pic try_sum_Done)
    then show ?thesis using k1 assms(2) l1 e1(2) by (auto intro!: exI [of _ "?pic @ e1"])
  next
    case (Inr virt)
    obtain w2 b e e2 where l: "init_lapic hw virt w1 = Some (Done (e, w2))" "log_of w2 = log_of w1 @ e2"
      "written e2 = Msr_Write IA32_APIC_BASE (b OR APIC_BASE_ENABLE) # lapic_enabling virt"
      "lapic_at w2 = Some virt" "using_apic w2 = using_apic w1" "ioapic_at w2 = ioapic_at w1"
      using init_lapic_written [of hw virt w1] by blast
    have l2: "log_of w2 = log_of w @ ?pic @ e1 @ e2" using l1 l(2) by simp
    have run: "(if \<not> e then ret (Inl LapicNotEnabled)
      else case f_io_apic fs of None \<Rightarrow> ret (Inl NoIoApic)
      | Some (io_phys, gsi_base) \<Rightarrow>
          try_sum (map_registers tb io_phys 0x20) (\<lambda>io_virt.
          seq_act (init_ioapic hw io_virt gsi_base)
          (seq_act (set_irqs (\<lambda>w. w\<lparr>using_apic := True\<rparr>)) (ret (Inr ()))))) w2 = Some (Done (r, w'))"
      using assms(1) q Inr l(1) by (simp add: init_apic_def pic)
    have failed: "case r of Inl e \<Rightarrow> \<not> using_apic w' \<and> ioapic_at w' = ioapic_at w \<and> (\<exists>evs rest.
        log_of w' = log_of w @ evs \<and> written evs = Port_Write MASTER_DATA 0xFF # Port_Write SLAVE_DATA 0xFF # rest)
      | Inr u \<Rightarrow> False"
      if "r = Inl x" "using_apic w' = using_apic w2" "ioapic_at w' = ioapic_at w2" "log_of w' = log_of w2 @ t" for x t
      using that l(5,6) k1 assms(2) l2 e1(2) by (auto intro!: exI [of _ "?pic @ e1 @ e2 @ t"])
    show ?thesis
    proof (cases "e \<and> f_io_apic fs \<noteq> None")
      case False
      then have "(\<exists>x. r = Inl x) \<and> w' = w2" using run by (cases "f_io_apic fs") (auto split: if_splits)
      then show ?thesis using failed [of _ "[]"] by auto
    next
      case True
      then obtain p g where pg: "f_io_apic fs = Some (p, g)" by auto
      obtain q3 w3 where q3: "map_registers tb p 0x20 w2 = Some (Done (q3, w3))"
        using run True pg by (auto simp: try_sum_Done)
      obtain e3 where e3: "log_of w3 = log_of w2 @ e3" "written e3 = []" "w3 = w2\<lparr>irq_vm := irq_vm w3\<rparr>"
        using map_registers_written [OF q3] by blast
      have k3: "using_apic w3 = using_apic w2" "ioapic_at w3 = ioapic_at w2" "lapic_at w3 = lapic_at w2"
        by (subst e3(3), simp)+
      show ?thesis
      proof (cases q3)
        case (Inl x)
        then have "r = Inl x \<and> w' = w3" using run True pg q3 by (simp add: bind_act_simps)
        then show ?thesis using failed [of x e3] k3 e3(1) by auto
      next
        case (Inr io)
        then obtain w4 where w4: "init_ioapic hw io g w3 = Some (Done ((), w4))" "r = Inr ()"
          "w' = w4\<lparr>using_apic := True\<rparr>"
          using run True pg q3 by (auto simp: seq_act_Done)
        from init_ioapic_written [OF w4(1)] obtain e4 v rest where i: "log_of w4 = log_of w3 @ e4"
          "Mmio_Read (io + IOAPIC_WINDOW) v \<in> set e4"
          "written e4 = Mmio_Write (io + IOAPIC_SELECT) IOAPIC_REG_VERSION #
            concat (map (masking io) [0..<ioapic_entries v]) @ rest"
          "set rest \<subseteq> range (Mmio_Write (io + IOAPIC_SELECT))"
          "ioapic_at w4 = Some (io, g)" "lapic_at w4 = lapic_at w3" by blast
        have "log_of w' = log_of w @ (?pic @ e1 @ e2 @ e3 @ e4)" using w4(3) i(1) e3(1) l2 by simp
        moreover have "written (?pic @ e1 @ e2 @ e3 @ e4) = ?pic @
          [Msr_Write IA32_APIC_BASE (b OR APIC_BASE_ENABLE)] @ lapic_enabling virt @
          [Mmio_Write (io + IOAPIC_SELECT) IOAPIC_REG_VERSION] @
          concat (map (masking io) [0..<ioapic_entries v]) @ rest"
          using e1(2) l(3) e3(2) i(3) by simp
        moreover have "Mmio_Read (io + IOAPIC_WINDOW) v \<in> set (?pic @ e1 @ e2 @ e3 @ e4)" using i(2) by simp
        moreover have "lapic_at w' = Some virt" "ioapic_at w' = Some (io, g)" "using_apic w'"
          using w4(3) i(5,6) k3(3) l(4) by simp_all
        ultimately show ?thesis unfolding w4(2) sum.case using i(4) by blast
      qed
    qed
  qed
qed

text \<open>A machine that comes up: the local APIC reads back enabled, the I/O APIC has two entries.\<close>

lemma window_opens:
  assumes "phys AND (PAGE_SIZE - 1) = 0" "next_multiple len PAGE_SIZE = Done span"
    and "unat (vm_device_next s) + unat span \<le> unat DEVICE_WINDOW"
    and "fst (map_device (tb_gib_pages tb) (tb_root tb) (DEVICE_BASE + vm_device_next s) phys span RW (vm_phys s)) = Inr ()"
  shows "\<exists>t. vm_map_device tb phys len s = Some (Done (Inr (DEVICE_BASE + vm_device_next s), t)) \<and>
    vm_device_next t = vm_device_next s + span \<and>
    vm_phys t = snd (map_device (tb_gib_pages tb) (tb_root tb) (DEVICE_BASE + vm_device_next s) phys span RW (vm_phys s))"
proof -
  let ?n = "vm_device_next s"
  let ?x = "map_device (tb_gib_pages tb) (tb_root tb) (DEVICE_BASE + ?n) phys span RW (vm_phys s)"
  have x: "?x = (Inr (), snd ?x)" using assms(4) by (simp add: prod_eq_iff)
  have w: "unat ?n + unat span \<le> 0x40000000" using assms(3) by (simp add: DEVICE_WINDOW_def)
  then have sum: "add_run ?n span = Done (?n + span)" "unat (?n + span) = unat ?n + unat span"
    by (simp_all add: add_run_Done unat_add_exact)
  have fits: "\<not> DEVICE_WINDOW < ?n + span" using assms(3) sum(2) by (simp add: word_less_nat_alt)
  have at: "add_run DEVICE_BASE ?n = Done (DEVICE_BASE + ?n)"
    using w by (simp add: add_run_Done DEVICE_BASE_def)
  have zero: "add_run x 0 = Done x" for x :: u64
    using unat_less_width [of x] by (simp add: add_run_Done)
  have m: "vm_map (map_device (tb_gib_pages tb) (tb_root tb) (DEVICE_BASE + ?n) phys span RW)
      (s\<lparr>vm_device_next := ?n + span\<rparr>) =
    Some (Done (Inr (), s\<lparr>vm_device_next := ?n + span, vm_phys := snd ?x\<rparr>))"
    by (subst vm_map_def) (simp, subst x, simp)
  show ?thesis
    unfolding vm_map_device_def Let_def assms(1)
    by (simp add: zero assms(2) sum(1) fits at m invlpg_pages)
qed

lemma map_registers_opens:
  assumes "vm_map_device tb phys len (irq_vm w) = Some (Done (Inr a, t))"
  shows "map_registers tb phys len w = Some (Done (Inr a, w\<lparr>irq_vm := t\<rparr>))"
  using assms by (simp add: map_registers_def on_vm_def bind_act_def)

definition apic_machine :: machine where
  "apic_machine = still_machine\<lparr>answer32 := (\<lambda>h a. if a = 0xFFFF9000000000F0 then 0x1FF else 0x00010011)\<rparr>"

definition apic_facts :: facts where
  "apic_facts = \<lparr>f_local_apic = 0xFEE00000, f_io_apic = Some (0xFEC00000, 0), f_has_legacy_pics = True,
     f_cpus = 1, f_cpu_ids = [0], f_hpet = None, f_madt = 0\<rparr>"

definition booting :: irqs where
  "booting = quiet\<lparr>irq_vm := sample_vm\<rparr>"

lemma both_windows:
  "fst (map_device False 0x1000 0xFFFF900000000000 0xFEE00000 0x1000 RW sample_tree) = Inr ()"
  "fst (map_device False 0x1000 0xFFFF900000001000 0xFEC00000 0x1000 RW
    (snd (map_device False 0x1000 0xFFFF900000000000 0xFEE00000 0x1000 RW sample_tree))) = Inr ()"
  by code_simp+

lemma init_lapic_enabled:
  assumes "\<And>h. answer32 hw h (virt + LAPIC_SPURIOUS) AND SPURIOUS_ENABLE \<noteq> 0"
  shows "\<exists>w'. init_lapic hw virt w = Some (Done (True, w')) \<and> vm_phys (irq_vm w') = vm_phys (irq_vm w) \<and>
    vm_device_next (irq_vm w') = vm_device_next (irq_vm w)"
  using assms
  by (simp add: init_lapic_def Let_def read_msr_def write_msr_def lapic_enable_mapped lapic_id_def
    lapic_version_def lapic_is_enabled_def lvt_entries_def lapic_spurious_vector_def rd_mapped mapped.aligned_regs
    with_log_def)

lemma init_ioapic_two_entries:
  assumes "\<And>h. answer32 hw h (virt + IOAPIC_WINDOW) = 0x00010011"
  shows "\<exists>w'. init_ioapic hw virt 0 w = Some (Done ((), w'))"
proof -
  let ?d = "mapped32 hw virt"
  have reg: "read_reg ?d i h = Some (Done (0x00010011, h @ [Mmio_Write (virt + IOAPIC_SELECT) i,
      Mmio_Read (virt + IOAPIC_WINDOW) 0x00010011]))" for i h
    by (simp add: read_reg_def rd_mapped wr_mapped io_regs assms)
  have c: "(drop_bit 16 (0x00010011 :: u32) AND 0xFF) + 1 = 2" by code_simp
  have count: "entry_count ?d h = Some (Done (2, h @ [Mmio_Write (virt + IOAPIC_SELECT) IOAPIC_REG_VERSION,
      Mmio_Read (virt + IOAPIC_WINDOW) 0x00010011]))" for h
    unfolding entry_count_def by (simp only: bind_act_simps(3) [of "read_reg ?d IOAPIC_REG_VERSION", OF reg] c ret_apply)
  have ids: "\<exists>a. ioapic_id ?d h = Some (Done (a, h @ [Mmio_Write (virt + IOAPIC_SELECT) IOAPIC_REG_ID,
      Mmio_Read (virt + IOAPIC_WINDOW) 0x00010011]))"
    "\<exists>a. ioapic_version ?d h = Some (Done (a, h @ [Mmio_Write (virt + IOAPIC_SELECT) IOAPIC_REG_VERSION,
      Mmio_Read (virt + IOAPIC_WINDOW) 0x00010011]))" for h
    by (simp_all add: ioapic_id_def ioapic_version_def reg)
  have e: "entry_regs 0 0 = Done (0x10, 0x11)" "entry_regs 0 1 = Done (0x12, 0x13)"
    by (simp_all add: entry_regs_def sub_run_def mul_run_def checked_mul_def add_run_def checked_add_def
      IOAPIC_REG_REDIRECT_def)
  have a: "add_run (0 :: u32) x = Done x" for x
    using unat_less_width [of x] by (simp add: add_run_Done)
  have m: "\<exists>k. mask_entry ?d 0 0 h = Some (Done ((), k))" "\<exists>k. mask_entry ?d 0 1 h = Some (Done ((), k))" for h
    by (simp_all add: mask_entry_def a e write_reg_def wr_mapped io_regs)
  have up: "[0..<unat (2 :: u32)] = [0, 1]" by (simp add: upt_rec)
  have "\<exists>k. ioapic_mask_all ?d 0 h = Some (Done ((), k))" for h
  proof -
    let ?h = "h @ [Mmio_Write (virt + IOAPIC_SELECT) IOAPIC_REG_VERSION, Mmio_Read (virt + IOAPIC_WINDOW) 0x00010011]"
    obtain j where j: "mask_entry ?d 0 0 ?h = Some (Done ((), j))" using m(1) by blast
    obtain k where "mask_entry ?d 0 1 j = Some (Done ((), k))" using m(2) by blast
    with j up show ?thesis by (simp add: ioapic_mask_all_def count)
  qed
  then obtain k where k: "ioapic_mask_all ?d 0 (log_of w) = Some (Done ((), k))" by blast
  obtain i where i: "ioapic_id ?d k = Some (Done (i, k @ [Mmio_Write (virt + IOAPIC_SELECT) IOAPIC_REG_ID,
      Mmio_Read (virt + IOAPIC_WINDOW) 0x00010011]))" using ids(1) by blast
  let ?k = "k @ [Mmio_Write (virt + IOAPIC_SELECT) IOAPIC_REG_ID, Mmio_Read (virt + IOAPIC_WINDOW) 0x00010011]"
  obtain v where v: "ioapic_version ?d ?k = Some (Done (v, ?k @ [Mmio_Write (virt + IOAPIC_SELECT) IOAPIC_REG_VERSION,
      Mmio_Read (virt + IOAPIC_WINDOW) 0x00010011]))" using ids(2) by blast
  from k i v show ?thesis by (simp add: init_ioapic_def Let_def count a)
qed

theorem apic_handed_over_witness:
  "\<exists>w' lapic io g. init_apic apic_machine sample_tables apic_facts booting = Some (Done (Inr (), w')) \<and>
    using_apic w' \<and> lapic_at w' = Some lapic \<and> ioapic_at w' = Some (io, g)"
proof -
  let ?k = "with_log [Port_Write MASTER_DATA 0xFF, Port_Write SLAVE_DATA 0xFF] booting"
  have pages: "(0xFEE00000 :: u64) AND (PAGE_SIZE - 1) = 0" "(0xFEC00000 :: u64) AND (PAGE_SIZE - 1) = 0"
    "next_multiple 0x1000 PAGE_SIZE = Done 0x1000" "next_multiple 0x20 PAGE_SIZE = Done 0x1000"
    by (simp_all add: PAGE_SIZE_def next_multiple_def checked_next_multiple_of_def checked_add_def)
  have tb: "tb_gib_pages sample_tables = False" "tb_root sample_tables = 0x1000"
    by (simp_all add: sample_tables_def)
  have k: "vm_device_next (irq_vm ?k) = 0" "vm_phys (irq_vm booting) = sample_tree"
    by (simp_all add: booting_def with_log_def sample_vm_def)
  obtain t where t: "vm_map_device sample_tables 0xFEE00000 0x1000 (irq_vm ?k) =
      Some (Done (Inr 0xFFFF900000000000, t))" "vm_device_next t = 0x1000"
      "vm_phys t = snd (map_device False 0x1000 0xFFFF900000000000 0xFEE00000 0x1000 RW sample_tree)"
    using window_opens [OF pages(1,3), of "irq_vm ?k" sample_tables] both_windows(1)
    by (auto simp: k tb DEVICE_BASE_def DEVICE_WINDOW_def)
  obtain w2 where l: "init_lapic apic_machine 0xFFFF900000000000 (?k\<lparr>irq_vm := t\<rparr>) = Some (Done (True, w2))"
    "vm_phys (irq_vm w2) = vm_phys t" "vm_device_next (irq_vm w2) = vm_device_next t"
    using init_lapic_enabled [of apic_machine "0xFFFF900000000000" "?k\<lparr>irq_vm := t\<rparr>"]
    by (auto simp: apic_machine_def SPURIOUS_ENABLE_def LAPIC_SPURIOUS_def)
  obtain t2 where t2: "vm_map_device sample_tables 0xFEC00000 0x20 (irq_vm w2) =
      Some (Done (Inr 0xFFFF900000001000, t2))"
    using window_opens [OF pages(2,4), of "irq_vm w2" sample_tables] both_windows(2)
    by (auto simp: l(2,3) t(2,3) tb DEVICE_BASE_def DEVICE_WINDOW_def)
  obtain w3 where io: "init_ioapic apic_machine 0xFFFF900000001000 0 (w2\<lparr>irq_vm := t2\<rparr>) = Some (Done ((), w3))"
    using init_ioapic_two_entries [of apic_machine "0xFFFF900000001000"]
    by (auto simp: apic_machine_def IOAPIC_WINDOW_def)
  have f: "f_local_apic apic_facts = 0xFEE00000" "f_io_apic apic_facts = Some (0xFEC00000, 0)"
    by (simp_all add: apic_facts_def)
  have "on_hw (pic_mask_all (ports apic_machine)) booting = Some (Done ((),
      with_log (log_of booting @ [Port_Write MASTER_DATA 0xFF, Port_Write SLAVE_DATA 0xFF]) booting))"
    by (simp add: pic_mask_all_def set_masks_all outb_ports)
  moreover have "log_of booting = []" by (simp add: booting_def sample_vm_def)
  ultimately have run: "init_apic apic_machine sample_tables apic_facts booting =
      Some (Done (Inr (), w3\<lparr>using_apic := True\<rparr>))"
    by (simp add: init_apic_def f map_registers_opens [OF t(1)] l(1) map_registers_opens [OF t2] io)
  have "\<not> using_apic booting" by (simp add: booting_def)
  from apic_handed_over [OF run this] run show ?thesis unfolding sum.case by blast
qed

end
