(* ===== verification/Smp.thy ===== *)
theory Smp imports Irq begin

text \<open>
  Waking the other cores, \<open>crates/kernel/src/smp.rs\<close>, as the boot processor does it: staging the
  sixteen-bit code, the messages and their delays, the wait for an acknowledgement, and taking the
  identity mapping out again. What the linker, the frame pool of \<open>staros_mm\<close> and the other cores
  contribute is the argument \<open>env\<close>; what a woken core writes is, like a device's answer, read from the
  machine. \<open>Wakeup\<close> has the cores' side.
\<close>

record smp_env =
  env_entry :: u64
  env_blob_len :: u64
  env_stack :: "history \<Rightarrow> u64 option"
  env_online :: "history \<Rightarrow> u32"

definition TRAMPOLINE_PHYS :: u64 where "TRAMPOLINE_PHYS = 0x8000"
definition AP_STACK_PAGES :: u64 where "AP_STACK_PAGES = 4"
definition IPI_TIMEOUT_MICROS :: u64 where "IPI_TIMEOUT_MICROS = 10000"

definition PARAM_CR3 :: u64 where "PARAM_CR3 = 0xF00"
definition PARAM_STACK_TOP :: u64 where "PARAM_STACK_TOP = 0xF08"
definition PARAM_ENTRY :: u64 where "PARAM_ENTRY = 0xF10"
definition PARAM_CPU_ID :: u64 where "PARAM_CPU_ID = 0xF18"
definition PARAM_ACK :: u64 where "PARAM_ACK = 0xF20"
definition PARAM_BASE :: u64 where "PARAM_BASE = PARAM_CR3"

named_theorems smp_consts \<open>the trampoline page\<close>

declare TRAMPOLINE_PHYS_def [smp_consts] AP_STACK_PAGES_def [smp_consts] PARAM_CR3_def [smp_consts]
  PARAM_STACK_TOP_def [smp_consts] PARAM_ENTRY_def [smp_consts] PARAM_CPU_ID_def [smp_consts]
  PARAM_ACK_def [smp_consts] PARAM_BASE_def [smp_consts]

definition put_param :: "u64 \<Rightarrow> u64 \<Rightarrow> (irqs, unit) act" where
  "put_param off v = on_hw (write_volatile (phys_to_virt TRAMPOLINE_PHYS + off) v)"

definition copy_to :: "u64 \<Rightarrow> u64 \<Rightarrow> (history, unit) act" where
  "copy_to dst len = (\<lambda>h. Some (Done ((), h @ [Copy dst len])))"

definition RWX :: rights where "RWX = \<lparr>r_write = True, r_exec = True, r_user = False\<rparr>"

text \<open>\<open>None\<close>: the code outgrew its page.\<close>

definition stage_trampoline :: "smp_env \<Rightarrow> kernel_tables \<Rightarrow> (irqs, vm_error option + unit) act" where
  "stage_trampoline env tb =
     (if PAGE_SIZE - PARAM_BASE < env_blob_len env then ret (Inl None)
      else seq_act (on_hw (copy_to (phys_to_virt TRAMPOLINE_PHYS) (env_blob_len env)))
        (seq_act (put_param PARAM_CR3 (tb_root tb))
        (seq_act (put_param PARAM_ENTRY (env_entry env))
        (seq_act (put_param PARAM_ACK 0)
        (bind_act (on_vm (map_identity tb TRAMPOLINE_PHYS PAGE_SIZE RWX)) (\<lambda>r.
         ret (map_sum Some id r)))))))"

definition alloc_ap_stack :: "smp_env \<Rightarrow> (irqs, u64 option) act" where
  "alloc_ap_stack env =
     bind_act (look_irqs (\<lambda>w. env_stack env (log_of w))) (\<lambda>base.
     case base of
       None \<Rightarrow> ret None
     | Some b \<Rightarrow> bind_act (of_run (add_run (phys_to_virt b) (AP_STACK_PAGES * PAGE_SIZE))) (\<lambda>t. ret (Some t)))"

definition prepare_slot :: "smp_env \<Rightarrow> u32 \<Rightarrow> (irqs, unit) act" where
  "prepare_slot env cpu_id =
     bind_act (alloc_ap_stack env) (\<lambda>stack.
     seq_act (put_param PARAM_STACK_TOP (case stack of None \<Rightarrow> 0 | Some t \<Rightarrow> t))
     (seq_act (put_param PARAM_CPU_ID (ucast cpu_id))
     (put_param PARAM_ACK 0)))"

text \<open>Each message has its own deadline.\<close>

definition in_time :: "machine \<Rightarrow> ((irqs, bool) act \<Rightarrow> (irqs, unit option) act) \<Rightarrow> (irqs, unit option) act" where
  "in_time hw send =
     bind_act (deadline_micros hw IPI_TIMEOUT_MICROS) (\<lambda>dl. send (deadline_passed hw dl))"

definition TRAMPOLINE_PAGE :: u8 where "TRAMPOLINE_PAGE = 8"

definition ipi_sequence :: "machine \<Rightarrow> u64 \<Rightarrow> u8 \<Rightarrow> (irqs, unit option) act" where
  "ipi_sequence hw virt target =
     (let d = over_irqs (mapped32 hw virt) in
      try_act (in_time hw (send_init d target)) (\<lambda>u.
      try_act (in_time hw (send_init_deassert d target)) (\<lambda>u.
      try_act (seq_act (stall_micros hw 10000) (in_time hw (send_startup d target TRAMPOLINE_PAGE))) (\<lambda>u.
      seq_act (stall_micros hw 200) (in_time hw (send_startup d target TRAMPOLINE_PAGE))))))"

fun wait_for_ack :: "machine \<Rightarrow> nat \<Rightarrow> (irqs, bool) act" where
  "wait_for_ack hw 0 = ret False"
| "wait_for_ack hw (Suc n) =
     bind_act (on_hw (read_volatile hw (phys_to_virt TRAMPOLINE_PHYS + PARAM_ACK))) (\<lambda>acked.
     if acked \<noteq> 0 then ret True
     else seq_act (stall_micros hw 1000) (wait_for_ack hw n))"

definition wake_core :: "machine \<Rightarrow> smp_env \<Rightarrow> u64 \<Rightarrow> u8 \<Rightarrow> u32 \<Rightarrow> (irqs, bool) act" where
  "wake_core hw env virt self_id i =
     (if 255 < i then ret False
      else let target = ucast i in
        if target = self_id then ret False
        else seq_act (prepare_slot env i)
          (bind_act (ipi_sequence hw virt target) (\<lambda>sent.
           case sent of None \<Rightarrow> ret False | Some u \<Rightarrow> wait_for_ack hw 200)))"

fun wake_all :: "machine \<Rightarrow> smp_env \<Rightarrow> u64 \<Rightarrow> u8 \<Rightarrow> u32 list \<Rightarrow> (irqs, nat) act" where
  "wake_all hw env virt self_id [] = ret 0"
| "wake_all hw env virt self_id (i # is) =
     bind_act (wake_core hw env virt self_id i) (\<lambda>woke.
     bind_act (wake_all hw env virt self_id is) (\<lambda>n.
     ret ((if woke then 1 else 0) + n)))"

definition start_cores :: "machine \<Rightarrow> smp_env \<Rightarrow> kernel_tables \<Rightarrow> facts \<Rightarrow> u64 \<Rightarrow> (irqs, u32) act" where
  "start_cores hw env tb fs lapic_phys =
     (if f_cpus fs \<le> 1 then ret 1
      else bind_act (stage_trampoline env tb) (\<lambda>staged.
        case staged of
          Inl e \<Rightarrow> ret 1
        | Inr u \<Rightarrow>
            bind_act (map_registers tb lapic_phys 0x1000) (\<lambda>mapped.
            case mapped of
              Inl e \<Rightarrow> ret 1
            | Inr virt \<Rightarrow>
                bind_act (on_hw (lapic_id (mapped32 hw virt))) (\<lambda>self_id.
                bind_act (wake_all hw env virt self_id (take (f_cpus fs) (f_cpu_ids fs))) (\<lambda>woken.
                seq_act (on_vm (unmap_identity tb TRAMPOLINE_PHYS PAGE_SIZE))
                (look_irqs (\<lambda>w. env_online env (log_of w))))))))"

end
