(* ===== verification/SmpProps.thy ===== *)
theory SmpProps imports Smp IrqProps begin

text \<open>
  What waking the cores promises on the boot processor's side: which messages go out, to whom and in
  what order, and what becomes of the page a waking core runs on.
\<close>

section \<open>What a step writes to the devices\<close>

definition doing :: "irqs \<Rightarrow> history \<Rightarrow> irqs \<Rightarrow> bool" where
  "doing w ws w' \<longleftrightarrow> (\<exists>t. w' = with_log (log_of w @ t) w \<and> written t = ws)"

lemma doing_refl [intro]: "doing w [] w"
  unfolding doing_def by (rule exI [of _ "[]"]) simp

lemma doing_trans: "doing w as v \<Longrightarrow> doing v bs w' \<Longrightarrow> doing w (as @ bs) w'"
  unfolding doing_def by (elim exE conjE, rule_tac x = "t @ ta" in exI) simp

lemma doing_quiet: "doing w as v \<Longrightarrow> doing v [] w' \<Longrightarrow> doing w as w'"
    "doing w [] v \<Longrightarrow> doing v as w' \<Longrightarrow> doing w as w'"
  using doing_trans by fastforce+

lemma doing_log: "written t = ws \<Longrightarrow> doing w ws (with_log (log_of w @ t) w)"
  unfolding doing_def by blast

lemma doing_same: "doing w ws w' \<Longrightarrow> hpet_at w' = hpet_at w \<and> vm_phys (irq_vm w') = vm_phys (irq_vm w)"
  by (auto simp: doing_def)

lemma doing_hw: "(\<And>h a k. f h = Some (Done (a, k)) \<Longrightarrow> \<exists>t. k = h @ t \<and> written t = ws) \<Longrightarrow>
    on_hw f w = Some (Done (a, w')) \<Longrightarrow> doing w ws w'"
  by (force simp: on_hw_Done doing_def)

lemma spin_until_quiet:
  assumes "spin_until (mapped64 hw base) c start target h = Some (Done (u, g))"
  shows "\<exists>t. g = h @ t \<and> written t = []"
proof -
  let ?P = "\<lambda>d c s t h r. d = mapped64 hw base \<longrightarrow> (\<forall>u g. r = Done (u, g) \<longrightarrow> (\<exists>t. g = h @ t \<and> written t = []))"
  have "?P (mapped64 hw base) c start target h (Done (u, g))"
  proof (rule spin_until.raw_induct [where P = ?P, OF _ assms], intro impI allI)
    fix spin d c s tg h r and u :: unit and g
    assume IH: "\<And>d c s t h r. spin d c s t h = Some r \<Longrightarrow> ?P d c s t h r"
      and step: "(case hpet_now d h of None \<Rightarrow> None | Some Panic \<Rightarrow> Some Panic
        | Some (Done (now, n)) \<Rightarrow> if tg \<le> elapsed c s now then Some (Done ((), n)) else spin d c s tg n) = Some r"
      and d: "d = mapped64 hw base" and r: "r = Done (u, g)"
    let ?e = "Mmio_Read64 (base + REG_COUNTER) (answer64 hw h (base + REG_COUNTER))"
    show "\<exists>t. g = h @ t \<and> written t = []"
    proof (cases "tg \<le> elapsed c s (answer64 hw h (base + REG_COUNTER))")
      case True
      then have "g = h @ [?e]" using step d r by (simp add: hpet_now_mapped)
      then show ?thesis by simp
    next
      case False
      then have "spin d c s tg (h @ [?e]) = Some r" using step d by (simp add: hpet_now_mapped)
      from IH [OF this] d r obtain t where "g = (h @ [?e]) @ t" "written t = []" by blast
      then show ?thesis by (intro exI [of _ "?e # t"]) simp
    qed
  qed
  then show ?thesis by blast
qed

lemma spin_quiet: "spin_ns (mapped64 hw base) c ns h = Some (Done (u, g)) \<Longrightarrow> \<exists>t. g = h @ t \<and> written t = []"
  by (auto simp: spin_ns_def bind_act_Done hpet_now_mapped dest!: spin_until_quiet)

lemma stall_quiet: "stall_micros hw micros w = Some (Done (u, w')) \<Longrightarrow> doing w [] w'"
  by (auto simp: stall_micros_def on_hw_Done split: option.splits prod.splits dest!: spin_quiet intro: doing_log)

lemma now_quiet: "now_ns hw w = Some (Done (r, w')) \<Longrightarrow> doing w [] w'"
  by (auto simp: now_ns_apply Let_def split: option.splits prod.splits intro: doing_log)

lemma deadline_quiet: "deadline_micros hw m w = Some (Done (dl, w')) \<Longrightarrow> doing w [] w'"
    "deadline_passed hw d w = Some (Done (b, w')) \<Longrightarrow> doing w [] w'"
  by (auto simp: deadline_micros_def deadline_passed_def bind_act_Done dest: now_quiet)

section \<open>Messages\<close>

lemma wait_idle_quiet:
  assumes "wait_idle (over_irqs (mapped32 hw base)) (deadline_passed hw dl) w = Some (Done (r, w'))"
  shows "doing w [] w'"
proof -
  let ?d = "over_irqs (mapped32 hw base)"
  let ?P = "\<lambda>d e w x. d = ?d \<longrightarrow> e = deadline_passed hw dl \<longrightarrow> (\<forall>r w'. x = Done (r, w') \<longrightarrow> doing w [] w')"
  have "?P ?d (deadline_passed hw dl) w (Done (r, w'))"
  proof (rule wait_idle.raw_induct [where P = ?P, OF _ assms], intro impI allI)
    fix f d e w x r w'
    assume IH: "\<And>d e w x. f d e w = Some x \<Longrightarrow> ?P d e w x"
      and step: "(case rd d ICR_LOW w of None \<Rightarrow> None | Some Panic \<Rightarrow> Some Panic
        | Some (Done (v, n)) \<Rightarrow> if v AND ICR_DELIVERY_PENDING = 0 then Some (Done (Some (), n))
          else (case e n of None \<Rightarrow> None | Some Panic \<Rightarrow> Some Panic
            | Some (Done (b, k)) \<Rightarrow> if b then Some (Done (None, k)) else f d e k)) = Some x"
      and d: "d = ?d" and e: "e = deadline_passed hw dl" and x: "x = Done (r, w')"
    let ?v = "answer32 hw (log_of w) (base + ICR_LOW)"
    let ?n = "with_log (log_of w @ [Mmio_Read (base + ICR_LOW) ?v]) w"
    have rdv: "rd d ICR_LOW w = Some (Done (?v, ?n))" unfolding d by (rule rd_over [OF mapped.aligned_regs(4)])
    have n: "doing w [] ?n" by (rule doing_log) simp
    show "doing w [] w'"
    proof (cases "?v AND ICR_DELIVERY_PENDING = 0")
      case True
      then have "w' = ?n" using step rdv x by simp
      with n show ?thesis by simp
    next
      case False
      then obtain b k where b: "e ?n = Some (Done (b, k))"
        using step rdv x by (cases "e ?n") (auto split: run.splits)
      then have k: "doing w [] k" using deadline_quiet(2) n unfolding e by (blast intro: doing_quiet(1))
      show ?thesis
      proof (cases b)
        case True
        then have "w' = k" using step rdv b False x by simp
        with k show ?thesis by simp
      next
        case nb: False
        then have "f d e k = Some x" using step rdv b False by simp
        from IH [OF this] d e x have "doing k [] w'" by blast
        with k show ?thesis by (rule doing_quiet(1))
      qed
    qed
  qed
  then show ?thesis by blast
qed

definition message :: "u64 \<Rightarrow> u8 \<Rightarrow> u32 \<Rightarrow> history" where
  "message base dest cmd =
     [Mmio_Write (base + ICR_HIGH) (push_bit 24 (ucast dest)), Mmio_Write (base + ICR_LOW) cmd]"

lemma wr_over: "is_multiple_of offset 4 \<Longrightarrow> wr (over_irqs (mapped32 hw base)) offset v w =
    Some (Done ((), with_log (log_of w @ [Mmio_Write (base + offset) v]) w))"
  by (simp add: wr_def writing_def over_irqs_def mapped32_def)

lemma send_ipi_does:
  assumes "send_ipi (over_irqs (mapped32 hw base)) dest cmd (deadline_passed hw dl) w = Some (Done (r, w'))"
  shows "doing w (message base dest cmd) w' \<or> (r = None \<and> doing w [] w')"
proof -
  let ?d = "over_irqs (mapped32 hw base)"
  obtain q v where q: "wait_idle ?d (deadline_passed hw dl) w = Some (Done (q, v))"
    using assms by (auto simp: send_ipi_def try_act_def bind_act_Done)
  have v: "doing w [] v" by (rule wait_idle_quiet [OF q])
  show ?thesis
  proof (cases q)
    case None
    then have "r = None" "w' = v" using assms q by (simp_all add: send_ipi_def try_act_def)
    with v show ?thesis by simp
  next
    case (Some u)
    let ?k = "with_log (log_of v @ message base dest cmd) v"
    have "wait_idle ?d (deadline_passed hw dl) ?k = Some (Done (r, w'))"
      using assms q Some by (simp add: send_ipi_def try_act_def wr_over mapped.aligned_regs message_def)
    then have "doing ?k [] w'" by (rule wait_idle_quiet)
    moreover have "doing v (message base dest cmd) ?k" by (rule doing_log) (simp add: message_def)
    ultimately show ?thesis using v by (blast intro: doing_quiet)
  qed
qed

section \<open>The sequence\<close>

text \<open>The four messages of one core, in the order the architecture gives them.\<close>

definition messages :: "u64 \<Rightarrow> u8 \<Rightarrow> history list" where
  "messages base target = map (message base target)
     [ICR_INIT OR ICR_LEVEL_ASSERT, ICR_INIT OR ICR_LEVEL_TRIGGER,
      ICR_STARTUP OR ICR_LEVEL_ASSERT OR ucast TRAMPOLINE_PAGE,
      ICR_STARTUP OR ICR_LEVEL_ASSERT OR ucast TRAMPOLINE_PAGE]"

text \<open>A step that sends the first of \<open>ms\<close>, or gives up before or after it.\<close>

definition sends :: "(irqs, unit option) act \<Rightarrow> history list \<Rightarrow> bool" where
  "sends f ms \<longleftrightarrow> (\<forall>w r w'. f w = Some (Done (r, w')) \<longrightarrow>
     (\<exists>k \<le> length ms. doing w (concat (take k ms)) w' \<and> (r \<noteq> None \<longrightarrow> k = length ms)))"

lemma in_time_sends:
  assumes "\<And>dl w r w'. send (deadline_passed hw dl) w = Some (Done (r, w')) \<Longrightarrow>
      doing w m w' \<or> (r = None \<and> doing w [] w')"
  shows "sends (in_time hw send) [m]"
  unfolding sends_def in_time_def
proof (intro allI impI)
  fix w r w'
  assume "bind_act (deadline_micros hw IPI_TIMEOUT_MICROS) (\<lambda>dl. send (deadline_passed hw dl)) w = Some (Done (r, w'))"
  then obtain dl v where v: "deadline_micros hw IPI_TIMEOUT_MICROS w = Some (Done (dl, v))"
    "send (deadline_passed hw dl) v = Some (Done (r, w'))" by (auto simp: bind_act_Done)
  have "doing w [] v" by (rule deadline_quiet(1) [OF v(1)])
  with assms [OF v(2)] have "doing w m w' \<or> (r = None \<and> doing w [] w')" by (blast intro: doing_quiet(2))
  then show "\<exists>k\<le>length [m]. doing w (concat (take k [m])) w' \<and> (r \<noteq> None \<longrightarrow> k = length [m])"
    by (auto intro: exI [of _ "0::nat"] exI [of _ "1::nat"])
qed

lemma stalled_sends: "sends f ms \<Longrightarrow> sends (seq_act (stall_micros hw m) f) ms"
  unfolding sends_def
proof (intro allI impI)
  fix w r w'
  assume f: "\<forall>w r w'. f w = Some (Done (r, w')) \<longrightarrow>
     (\<exists>k \<le> length ms. doing w (concat (take k ms)) w' \<and> (r \<noteq> None \<longrightarrow> k = length ms))"
    and "seq_act (stall_micros hw m) f w = Some (Done (r, w'))"
  then obtain v where v: "stall_micros hw m w = Some (Done ((), v))" "f v = Some (Done (r, w'))"
    by (auto simp: seq_act_Done)
  have "doing w [] v" by (rule stall_quiet [OF v(1)])
  then show "\<exists>k\<le>length ms. doing w (concat (take k ms)) w' \<and> (r \<noteq> None \<longrightarrow> k = length ms)"
    using f v(2) by (blast intro: doing_quiet(2))
qed

lemma try_sends:
  assumes f: "sends f ms" and g: "\<And>u. sends (g u) ns"
  shows "sends (try_act f g) (ms @ ns)"
  unfolding sends_def
proof (intro allI impI)
  fix w r w'
  assume "try_act f g w = Some (Done (r, w'))"
  then obtain q v where q: "f w = Some (Done (q, v))" and rest: "q = None \<Longrightarrow> r = None \<and> w' = v"
    "\<And>u. q = Some u \<Longrightarrow> g u v = Some (Done (r, w'))"
    by (auto simp: try_act_def bind_act_Done split: option.splits)
  obtain k where k: "k \<le> length ms" "doing w (concat (take k ms)) v" "q \<noteq> None \<longrightarrow> k = length ms"
    using f q unfolding sends_def by blast
  show "\<exists>k\<le>length (ms @ ns). doing w (concat (take k (ms @ ns))) w' \<and> (r \<noteq> None \<longrightarrow> k = length (ms @ ns))"
  proof (cases q)
    case None
    with rest(1) k show ?thesis by (intro exI [of _ k]) auto
  next
    case (Some u)
    obtain j where j: "j \<le> length ns" "doing v (concat (take j ns)) w'" "r \<noteq> None \<longrightarrow> j = length ns"
      using g [of u] rest(2) [OF Some] unfolding sends_def by blast
    have "doing w (concat ms @ concat (take j ns)) w'" using k Some j(2) by (auto intro: doing_trans)
    with j(1,3) show ?thesis by (intro exI [of _ "length ms + j"]) auto
  qed
qed

lemma ipi_sends: "sends (ipi_sequence hw virt target) (messages virt target)"
proof -
  let ?d = "over_irqs (mapped32 hw virt)"
  have s: "sends (in_time hw (\<lambda>e. send_ipi ?d target cmd e)) [message virt target cmd]" for cmd
    by (rule in_time_sends) (rule send_ipi_does)
  have one: "sends (in_time hw (send_init ?d target)) [message virt target (ICR_INIT OR ICR_LEVEL_ASSERT)]"
    "sends (in_time hw (send_init_deassert ?d target)) [message virt target (ICR_INIT OR ICR_LEVEL_TRIGGER)]"
    "sends (in_time hw (send_startup ?d target TRAMPOLINE_PAGE))
       [message virt target (ICR_STARTUP OR ICR_LEVEL_ASSERT OR ucast TRAMPOLINE_PAGE)]"
    using s by (simp_all add: send_init_def [abs_def] send_init_deassert_def [abs_def] send_startup_def [abs_def])
  have "sends (ipi_sequence hw virt target)
      ([message virt target (ICR_INIT OR ICR_LEVEL_ASSERT)] @ [message virt target (ICR_INIT OR ICR_LEVEL_TRIGGER)] @
       [message virt target (ICR_STARTUP OR ICR_LEVEL_ASSERT OR ucast TRAMPOLINE_PAGE)] @
       [message virt target (ICR_STARTUP OR ICR_LEVEL_ASSERT OR ucast TRAMPOLINE_PAGE)])"
    unfolding ipi_sequence_def Let_def by (intro try_sends stalled_sends one)
  then show ?thesis by (simp add: messages_def)
qed

lemma put_param_quiet: "put_param off v w = Some (Done (u, w')) \<Longrightarrow> doing w [] w'"
  by (auto simp: put_param_def write_volatile_def on_hw_Done intro: doing_log)

lemma prepare_quiet: "prepare_slot env i w = Some (Done (u, w')) \<Longrightarrow> doing w [] w'"
proof -
  assume "prepare_slot env i w = Some (Done (u, w'))"
  then obtain st a b where s: "alloc_ap_stack env w = Some (Done (st, a))" and
    p: "\<exists>x. put_param PARAM_STACK_TOP x a = Some (Done ((), b))"
    "\<exists>c. put_param PARAM_CPU_ID (ucast i) b = Some (Done ((), c)) \<and> put_param PARAM_ACK 0 c = Some (Done (u, w'))"
    by (auto simp: prepare_slot_def bind_act_Done seq_act_Done)
  have "a = w" using s by (auto simp: alloc_ap_stack_def bind_act_Done of_run_Done split: option.splits)
  then show ?thesis using p by (blast dest: put_param_quiet intro: doing_quiet)
qed

lemma ack_quiet: "wait_for_ack hw n w = Some (Done (r, w')) \<Longrightarrow> doing w [] w'"
proof (induction n arbitrary: w)
  case 0
  then show ?case by auto
next
  case (Suc n)
  let ?a = "phys_to_virt TRAMPOLINE_PHYS + PARAM_ACK"
  let ?k = "with_log (log_of w @ [Load ?a (answer64 hw (log_of w) ?a)]) w"
  have k: "doing w [] ?k" by (rule doing_log) simp
  show ?case
  proof (cases "answer64 hw (log_of w) ?a = 0")
    case True
    then obtain j where j: "stall_micros hw 1000 ?k = Some (Done ((), j))" "wait_for_ack hw n j = Some (Done (r, w'))"
      using Suc.prems by (auto simp: read_volatile_def seq_act_Done)
    from stall_quiet [OF j(1)] Suc.IH [OF j(2)] k show ?thesis by (blast intro: doing_quiet(1))
  next
    case False
    then have "w' = ?k" using Suc.prems by (simp add: read_volatile_def)
    with k show ?thesis by simp
  qed
qed

section \<open>Every core in turn\<close>

text \<open>Who gets messages: the cores listed, but for this one and those no message can name.\<close>

definition addressed :: "u8 \<Rightarrow> u32 list \<Rightarrow> u8 list" where
  "addressed self_id ids = map ucast (filter (\<lambda>i. i \<le> 255 \<and> (ucast i :: u8) \<noteq> self_id) ids)"

definition begun :: "u64 \<Rightarrow> (u8 \<times> nat) list \<Rightarrow> history" where
  "begun base tks = concat (map (\<lambda>(t, k). concat (take k (messages base t))) tks)"

lemma wake_core_does:
  assumes "wake_core hw env virt self_id i w = Some (Done (b, w'))"
  shows "\<exists>ks. length ks = length (addressed self_id [i]) \<and> (\<forall>k\<in>set ks. k \<le> 4) \<and>
    doing w (begun virt (zip (addressed self_id [i]) ks)) w' \<and> (b \<longrightarrow> ks = [4])"
proof (cases "255 < i \<or> ucast i = self_id")
  case True
  then have "b = False" "w' = w" using assms by (auto simp: wake_core_def Let_def split: if_splits)
  with True show ?thesis by (auto simp: addressed_def begun_def)
next
  case False
  then obtain a r v where a: "prepare_slot env i w = Some (Done ((), a))"
    "ipi_sequence hw virt (ucast i) a = Some (Done (r, v))" and
    rest: "case r of None \<Rightarrow> b = False \<and> w' = v | Some u \<Rightarrow> wait_for_ack hw 200 v = Some (Done (b, w'))"
    using assms by (auto simp: wake_core_def Let_def seq_act_Done bind_act_Done split: option.splits)
  have len: "length (messages virt (ucast i)) = 4" by (simp add: messages_def)
  obtain k where k: "k \<le> 4" "doing a (concat (take k (messages virt (ucast i)))) v" "r \<noteq> None \<longrightarrow> k = 4"
    using ipi_sends [of hw virt "ucast i"] a(2) unfolding sends_def len by blast
  have "doing v [] w'" using rest by (cases r) (auto dest: ack_quiet)
  with prepare_quiet [OF a(1)] k(2) have d: "doing w (concat (take k (messages virt (ucast i)))) w'"
    by (blast intro: doing_quiet)
  have "addressed self_id [i] = [ucast i]" using False by (simp add: addressed_def not_less)
  moreover have "b \<longrightarrow> k = 4" using rest k(3) by (cases r) auto
  ultimately show ?thesis using k(1) d by (intro exI [of _ "[k]"]) (simp add: begun_def)
qed

lemma wake_all_does:
  assumes "wake_all hw env virt self_id is w = Some (Done (n, w'))"
  shows "\<exists>ks. length ks = length (addressed self_id is) \<and> (\<forall>k\<in>set ks. k \<le> 4) \<and>
    doing w (begun virt (zip (addressed self_id is) ks)) w' \<and> n \<le> length (filter (\<lambda>k. k = 4) ks)"
  using assms
proof (induction "is" arbitrary: w n)
  case Nil
  then show ?case by (auto simp: addressed_def begun_def)
next
  case (Cons i "is")
  then obtain b v m where v: "wake_core hw env virt self_id i w = Some (Done (b, v))"
    "wake_all hw env virt self_id is v = Some (Done (m, w'))" "n = (if b then 1 else 0) + m"
    by (auto simp: bind_act_Done)
  obtain ks where ks: "length ks = length (addressed self_id [i])" "\<forall>k\<in>set ks. k \<le> 4"
    "doing w (begun virt (zip (addressed self_id [i]) ks)) v" "b \<longrightarrow> ks = [4]"
    using wake_core_does [OF v(1)] by blast
  obtain js where js: "length js = length (addressed self_id is)" "\<forall>k\<in>set js. k \<le> 4"
    "doing v (begun virt (zip (addressed self_id is) js)) w'" "m \<le> length (filter (\<lambda>k. k = 4) js)"
    using Cons.IH [OF v(2)] by blast
  have split: "addressed self_id (i # is) = addressed self_id [i] @ addressed self_id is"
    by (simp add: addressed_def)
  have "doing w (begun virt (zip (addressed self_id (i # is)) (ks @ js))) w'"
    using doing_trans [OF ks(3) js(3)] ks(1) unfolding split by (simp add: begun_def)
  moreover have "n \<le> length (filter (\<lambda>k. k = 4) (ks @ js))" using v(3) ks(4) js(4) by auto
  ultimately show ?case using ks js split by (intro exI [of _ "ks @ js"]) auto
qed

lemma map_identity_written:
  assumes "map_identity tb p PAGE_SIZE r s = Some (Done (q, t))"
  shows "\<exists>evs. vm_log t = vm_log s @ evs \<and> written evs = []"
  using assms
  by (auto simp: map_identity_def next_multiple_def checked_next_multiple_of_def PAGE_SIZE_def checked_add_def
    try_sum_Done seq_act_Done invlpg_pages dest!: vm_map_log split: option.splits)

definition staging :: "smp_env \<Rightarrow> kernel_tables \<Rightarrow> history" where
  "staging env tb = [Copy (phys_to_virt TRAMPOLINE_PHYS) (env_blob_len env),
     Store (phys_to_virt TRAMPOLINE_PHYS + PARAM_CR3) (tb_root tb),
     Store (phys_to_virt TRAMPOLINE_PHYS + PARAM_ENTRY) (env_entry env),
     Store (phys_to_virt TRAMPOLINE_PHYS + PARAM_ACK) 0]"

lemma stage_written:
  assumes "stage_trampoline env tb w = Some (Done (r, w'))"
  shows "\<exists>evs. log_of w' = log_of w @ evs \<and> written evs = []"
proof (cases "PAGE_SIZE - PARAM_BASE < env_blob_len env")
  case True
  then show ?thesis using assms by (simp add: stage_trampoline_def)
next
  case False
  let ?c = "with_log (log_of w @ staging env tb) w"
  have "stage_trampoline env tb w =
      bind_act (on_vm (map_identity tb TRAMPOLINE_PHYS PAGE_SIZE RWX)) (\<lambda>r. ret (map_sum Some id r)) ?c"
    using False by (simp add: stage_trampoline_def staging_def copy_to_def put_param_def write_volatile_def)
  with assms obtain q v where "map_identity tb TRAMPOLINE_PHYS PAGE_SIZE RWX (irq_vm ?c) = Some (Done (q, v))"
    "w' = ?c\<lparr>irq_vm := v\<rparr>"
    by (auto simp: bind_act_Done on_vm_def on_part_def split: option.splits run.splits)
  with map_identity_written [of tb TRAMPOLINE_PHYS RWX "irq_vm ?c" q v] show ?thesis
    by (auto simp: staging_def)
qed

lemma unmap_identity_written:
  assumes "unmap_identity tb p PAGE_SIZE s = Some (Done (u, t))"
  shows "\<exists>evs. vm_log t = vm_log s @ evs \<and> written evs = []"
  using assms
  by (auto simp: unmap_identity_def page_span each_page_one unmap_page_def invlpg_def vm_cpu_def
    on_part_def bind_act_def seq_act_def)

lemma started_steps:
  assumes "start_cores hw env tb fs lapic w = Some (Done (n, w'))" "1 < f_cpus fs"
  shows "(\<exists>e. stage_trampoline env tb w = Some (Done (Inl e, w')) \<and> n = 1)
    \<or> (\<exists>a e. stage_trampoline env tb w = Some (Done (Inr (), a)) \<and>
        map_registers tb lapic 0x1000 a = Some (Done (Inl e, w')) \<and> n = 1)
    \<or> (\<exists>a virt b c k. stage_trampoline env tb w = Some (Done (Inr (), a)) \<and>
        map_registers tb lapic 0x1000 a = Some (Done (Inr virt, b)) \<and>
        (let id = answer32 hw (log_of b) (virt + LAPIC_ID);
             at = with_log (log_of b @ [Mmio_Read (virt + LAPIC_ID) id]) b in
         wake_all hw env virt (ucast (drop_bit 24 id)) (take (f_cpus fs) (f_cpu_ids fs)) at = Some (Done (k, c))) \<and>
        on_vm (unmap_identity tb TRAMPOLINE_PHYS PAGE_SIZE) c = Some (Done ((), w')) \<and> n = env_online env (log_of w'))"
proof -
  have many: "\<not> f_cpus fs \<le> 1" using assms(2) by simp
  obtain st a where st: "stage_trampoline env tb w = Some (Done (st, a))"
    and run: "(case st of Inl e \<Rightarrow> ret 1
      | Inr u \<Rightarrow> bind_act (map_registers tb lapic 0x1000) (\<lambda>mapped. case mapped of Inl e \<Rightarrow> ret 1
        | Inr virt \<Rightarrow> bind_act (on_hw (lapic_id (mapped32 hw virt))) (\<lambda>self_id.
            bind_act (wake_all hw env virt self_id (take (f_cpus fs) (f_cpu_ids fs))) (\<lambda>woken.
            seq_act (on_vm (unmap_identity tb TRAMPOLINE_PHYS PAGE_SIZE))
            (look_irqs (\<lambda>w. env_online env (log_of w))))))) a = Some (Done (n, w'))"
    using assms(1) many by (auto simp: start_cores_def bind_act_Done)
  show ?thesis
  proof (cases st)
    case (Inl e)
    then show ?thesis using st run by auto
  next
    case (Inr u)
    with run obtain mp b where mp: "map_registers tb lapic 0x1000 a = Some (Done (mp, b))"
      and rest: "(case mp of Inl e \<Rightarrow> ret 1
        | Inr virt \<Rightarrow> bind_act (on_hw (lapic_id (mapped32 hw virt))) (\<lambda>self_id.
            bind_act (wake_all hw env virt self_id (take (f_cpus fs) (f_cpu_ids fs))) (\<lambda>woken.
            seq_act (on_vm (unmap_identity tb TRAMPOLINE_PHYS PAGE_SIZE))
            (look_irqs (\<lambda>w. env_online env (log_of w)))))) b = Some (Done (n, w'))"
      by (auto simp: bind_act_Done)
    show ?thesis
    proof (cases mp)
      case (Inl e)
      then show ?thesis using st Inr mp rest by auto
    next
      case right: (Inr virt)
      from rest right show ?thesis using st Inr mp
        by (fastforce simp: bind_act_Done seq_act_Done lapic_id_def on_hw_Done rd_mapped mapped.aligned_regs
          look_irqs_def Let_def)
    qed
  qed
qed

text \<open>C33: bringing the cores up sends only what the architecture asks for, to the cores it may reach.
  Whatever the firmware's list, the local APIC and the other cores do, if \<open>start_cores\<close> returns then
  either it wrote to no device at all, or it read its own APIC id and then, for the listed cores in
  order, leaving out its own and those no message can name, sent a prefix of INIT, INIT-deassert,
  startup, startup with the trampoline's page: a core that will not take a message is given no further
  ones, and it never addresses itself.\<close>

theorem cores_woken_in_order:
  assumes "start_cores hw env tb fs lapic w = Some (Done (n, w'))"
  shows "\<exists>evs. log_of w' = log_of w @ evs \<and> (written evs = [] \<or>
    (\<exists>virt v ks. Mmio_Read (virt + LAPIC_ID) v \<in> set evs \<and>
      (let targets = addressed (ucast (drop_bit 24 v)) (take (f_cpus fs) (f_cpu_ids fs)) in
       length ks = length targets \<and> (\<forall>k\<in>set ks. k \<le> 4) \<and>
       written evs = begun virt (zip targets ks) \<and> ucast (drop_bit 24 v) \<notin> set targets)))"
proof (cases "1 < f_cpus fs")
  case False
  then show ?thesis using assms by (auto simp: start_cores_def intro: exI [of _ "[]"])
next
  case True
  from started_steps [OF assms True] show ?thesis
  proof (elim disjE exE conjE)
    fix e
    assume "stage_trampoline env tb w = Some (Done (Inl e, w'))"
    from stage_written [OF this] show ?thesis by blast
  next
    fix a e
    assume "stage_trampoline env tb w = Some (Done (Inr (), a))" "map_registers tb lapic 0x1000 a = Some (Done (Inl e, w'))"
    from stage_written [OF this(1)] map_registers_written [OF this(2)] obtain e1 e2 where
      "log_of a = log_of w @ e1" "written e1 = []" "log_of w' = log_of a @ e2" "written e2 = []" by blast
    then show ?thesis by (intro exI [of _ "e1 @ e2"]) simp
  next
    fix a virt b c k
    define v where "v = answer32 hw (log_of b) (virt + LAPIC_ID)"
    let ?at = "with_log (log_of b @ [Mmio_Read (virt + LAPIC_ID) v]) b"
    let ?targets = "addressed (ucast (drop_bit 24 v)) (take (f_cpus fs) (f_cpu_ids fs))"
    assume st: "stage_trampoline env tb w = Some (Done (Inr (), a))"
      and mp: "map_registers tb lapic 0x1000 a = Some (Done (Inr virt, b))"
      and "let id = answer32 hw (log_of b) (virt + LAPIC_ID);
             at = with_log (log_of b @ [Mmio_Read (virt + LAPIC_ID) id]) b in
         wake_all hw env virt (ucast (drop_bit 24 id)) (take (f_cpus fs) (f_cpu_ids fs)) at = Some (Done (k, c))"
      and un: "on_vm (unmap_identity tb TRAMPOLINE_PHYS PAGE_SIZE) c = Some (Done ((), w'))"
    then have "wake_all hw env virt (ucast (drop_bit 24 v)) (take (f_cpus fs) (f_cpu_ids fs)) ?at = Some (Done (k, c))"
      by (simp add: v_def Let_def)
    from wake_all_does [OF this] obtain ks t where ks: "length ks = length ?targets" "\<forall>k\<in>set ks. k \<le> 4"
      "log_of c = log_of ?at @ t" "written t = begun virt (zip ?targets ks)"
      unfolding doing_def by auto
    from stage_written [OF st] map_registers_written [OF mp] obtain e1 e2 where
      e: "log_of a = log_of w @ e1" "written e1 = []" "log_of b = log_of a @ e2" "written e2 = []" by blast
    obtain e3 where e3: "log_of w' = log_of c @ e3" "written e3 = []"
      using un unmap_identity_written [of tb TRAMPOLINE_PHYS "irq_vm c"]
      by (auto simp: on_vm_def on_part_def split: option.splits run.splits)
    let ?e = "e1 @ e2 @ [Mmio_Read (virt + LAPIC_ID) v] @ t @ e3"
    have "log_of w' = log_of w @ ?e" using e e3 ks(3) by simp
    moreover have "written ?e = begun virt (zip ?targets ks)" using e e3 ks(4) by simp
    moreover have "ucast (drop_bit 24 v) \<notin> set ?targets" by (auto simp: addressed_def)
    ultimately show ?thesis unfolding Let_def
      using ks(1,2) by (intro exI [of _ ?e] conjI disjI2 exI [of _ virt] exI [of _ v] exI [of _ ks]) auto
  qed
qed

section \<open>The trampoline's page\<close>

lemma stage_effect:
  assumes "stage_trampoline env tb w = Some (Done (st, a))" "space_ok (vm_phys (irq_vm w)) (tb_root tb)"
  shows "space_ok (vm_phys (irq_vm a)) (tb_root tb) \<and> vm_device_next (irq_vm a) = vm_device_next (irq_vm w) \<and>
    (low v div 4096 \<noteq> 8 \<longrightarrow>
      translate (tb_root tb) v (vm_phys (irq_vm a)) = translate (tb_root tb) v (vm_phys (irq_vm w))) \<and>
    (low v div 4096 = 8 \<longrightarrow>
      mapped_as TRAMPOLINE_PHYS TRAMPOLINE_PHYS RWX NormalMemory v (translate (tb_root tb) v (vm_phys (irq_vm a)))
      \<or> st \<noteq> Inr () \<and>
        translate (tb_root tb) v (vm_phys (irq_vm a)) = translate (tb_root tb) v (vm_phys (irq_vm w)))"
proof (cases "PAGE_SIZE - PARAM_BASE < env_blob_len env")
  case True
  then show ?thesis using assms by (auto simp: stage_trampoline_def)
next
  case False
  let ?c = "with_log (log_of w @ staging env tb) w"
  have "stage_trampoline env tb w =
      bind_act (on_vm (map_identity tb TRAMPOLINE_PHYS PAGE_SIZE RWX)) (\<lambda>r. ret (map_sum Some id r)) ?c"
    using False by (simp add: stage_trampoline_def staging_def copy_to_def put_param_def write_volatile_def)
  with assms(1) obtain q m where q: "map_identity tb TRAMPOLINE_PHYS PAGE_SIZE RWX (irq_vm ?c) = Some (Done (q, m))"
    "a = ?c\<lparr>irq_vm := m\<rparr>" "st = map_sum Some id q"
    by (auto simp: bind_act_Done on_vm_def on_part_def split: option.splits run.splits)
  have ok: "space_ok (vm_phys (irq_vm ?c)) (tb_root tb)" using assms(2) by simp
  have p: "4096 dvd unat TRAMPOLINE_PHYS" "unat TRAMPOLINE_PHYS + 4096 \<le> 2 ^ 47"
    "low TRAMPOLINE_PHYS div 4096 = 8" by (simp_all add: TRAMPOLINE_PHYS_def low_def)
  have "st = Inr () \<longleftrightarrow> q = Inr ()" using q(3) by (cases q) simp_all
  with map_identity_effect [OF ok p(1,2) q(1), of v] q(2) p(3) show ?thesis by (simp add: with_log_def)
qed

lemma map_registers_effect:
  assumes "map_registers tb phys len w = Some (Done (r, w'))" "space_ok (vm_phys (irq_vm w)) (tb_root tb)"
    and "unat phys + unat len + 2 ^ 13 \<le> 2 ^ 52" "unat (vm_device_next (irq_vm w)) \<le> 2 ^ 30"
  shows "\<exists>span :: u64. unat span = (unat len + unat phys mod 4096 + 4095) div 4096 * 4096 \<and>
    space_ok (vm_phys (irq_vm w')) (tb_root tb) \<and>
    (\<forall>v. \<not> (2 ^ 47 + 2 ^ 44 + unat (vm_device_next (irq_vm w)) \<le> low v \<and>
          low v < 2 ^ 47 + 2 ^ 44 + unat (vm_device_next (irq_vm w)) + unat span) \<longrightarrow>
        translate (tb_root tb) v (vm_phys (irq_vm w')) = translate (tb_root tb) v (vm_phys (irq_vm w)))"
proof -
  obtain q m where q: "vm_map_device tb phys len (irq_vm w) = Some (Done (q, m))" "w' = w\<lparr>irq_vm := m\<rparr>"
    using assms(1) by (auto simp: map_registers_def bind_act_Done on_vm_def on_part_def split: option.splits run.splits)
  have n: "unat (vm_device_next (irq_vm w)) \<le> 2 ^ 30 + 2 ^ 53" using assms(4) by simp
  have m: "irq_vm w' = m" using q(2) by simp
  from device_window_effect [OF assms(2,3) n q(1)] show ?thesis unfolding m by blast
qed

text \<open>The pages the second window onto the local APIC may take.\<close>

definition lapic_window :: "irqs \<Rightarrow> u64 \<Rightarrow> bool" where
  "lapic_window w v \<longleftrightarrow> 2 ^ 47 + 2 ^ 44 + unat (vm_device_next (irq_vm w)) \<le> low v \<and>
     low v < 2 ^ 47 + 2 ^ 44 + unat (vm_device_next (irq_vm w)) + 0x2000"

definition sees :: "kernel_tables \<Rightarrow> u64 \<Rightarrow> irqs \<Rightarrow> translation option" where
  "sees tb v w = translate (tb_root tb) v (vm_phys (irq_vm w))"

lemma trampoline_window:
  assumes "map_registers tb lapic 0x1000 a = Some (Done (mp, b))" "space_ok (vm_phys (irq_vm a)) (tb_root tb)"
    and "unat lapic + 2 ^ 14 \<le> 2 ^ 52" "vm_device_next (irq_vm a) = vm_device_next (irq_vm w)"
    and "unat (vm_device_next (irq_vm w)) \<le> 2 ^ 30"
  shows "space_ok (vm_phys (irq_vm b)) (tb_root tb) \<and> (\<not> lapic_window w v \<longrightarrow> sees tb v b = sees tb v a)"
proof -
  have l: "unat lapic + unat (0x1000 :: u64) + 2 ^ 13 \<le> 2 ^ 52" using assms(3) by simp
  have n: "unat (vm_device_next (irq_vm a)) \<le> 2 ^ 30" using assms(4,5) by simp
  obtain span :: u64 where span: "unat span = (unat (0x1000 :: u64) + unat lapic mod 4096 + 4095) div 4096 * 4096"
    "space_ok (vm_phys (irq_vm b)) (tb_root tb)"
    "\<And>v. \<not> (2 ^ 47 + 2 ^ 44 + unat (vm_device_next (irq_vm a)) \<le> low v \<and>
          low v < 2 ^ 47 + 2 ^ 44 + unat (vm_device_next (irq_vm a)) + unat span) \<Longrightarrow>
        translate (tb_root tb) v (vm_phys (irq_vm b)) = translate (tb_root tb) v (vm_phys (irq_vm a))"
    using map_registers_effect [OF assms(1,2) l n] by blast
  have "(unat (0x1000 :: u64) + unat lapic mod 4096 + 4095) div 4096 \<le> 2"
    using mod_less_divisor [of 4096 "unat lapic"] by simp
  then have "unat span \<le> 0x2000" unfolding span(1) by simp
  then have "sees tb v b = sees tb v a" if "\<not> lapic_window w v"
    unfolding sees_def using that span(3) [of v] assms(4) by (auto simp: lapic_window_def)
  with span(2) show ?thesis by blast
qed

lemma below_window: "low v div 4096 = 8 \<Longrightarrow> \<not> lapic_window w v"
  by (auto simp: lapic_window_def)

text \<open>The executable page the cores wake on does not outlive them. When the trampoline's page was
  unmapped before \<open>start_cores\<close>, then afterwards every address outside the second window onto the
  local APIC translates as it did, the trampoline's page included, unless the sequence was given up
  before the first message: then no device was written, one core is reported, and the only addresses
  that may differ are those of the trampoline's page.\<close>

theorem trampoline_closed:
  assumes "start_cores hw env tb fs lapic w = Some (Done (n, w'))"
    and "space_ok (vm_phys (irq_vm w)) (tb_root tb)"
    and "\<And>v. low v div 4096 = 8 \<Longrightarrow> sees tb v w = None"
    and "unat lapic + 2 ^ 14 \<le> 2 ^ 52" "unat (vm_device_next (irq_vm w)) \<le> 2 ^ 30"
  shows "space_ok (vm_phys (irq_vm w')) (tb_root tb) \<and>
    ((\<forall>v. \<not> lapic_window w v \<longrightarrow> sees tb v w' = sees tb v w) \<or>
     (n = 1 \<and> (\<exists>evs. log_of w' = log_of w @ evs \<and> written evs = []) \<and>
      (\<forall>v. \<not> lapic_window w v \<longrightarrow> sees tb v w' = sees tb v w \<or>
        low v div 4096 = 8 \<and> mapped_as TRAMPOLINE_PHYS TRAMPOLINE_PHYS RWX NormalMemory v (sees tb v w'))))"
proof (cases "1 < f_cpus fs")
  case False
  then show ?thesis using assms(1,2) by (auto simp: start_cores_def)
next
  case True
  from started_steps [OF assms(1) True] show ?thesis
  proof (elim disjE exE conjE)
    fix e
    assume st: "stage_trampoline env tb w = Some (Done (Inl e, w'))" and "n = 1"
    moreover note stage_written [OF st]
    moreover note eff = stage_effect [OF st assms(2)]
    have "space_ok (vm_phys (irq_vm w')) (tb_root tb)" using eff by blast
    moreover have "sees tb v w' = sees tb v w \<or>
        low v div 4096 = 8 \<and> mapped_as TRAMPOLINE_PHYS TRAMPOLINE_PHYS RWX NormalMemory v (sees tb v w')" for v
      using eff [of v] unfolding sees_def by blast
    ultimately show ?thesis by blast
  next
    fix a e
    assume st: "stage_trampoline env tb w = Some (Done (Inr (), a))"
      and mp: "map_registers tb lapic 0x1000 a = Some (Done (Inl e, w'))" and n: "n = 1"
    note eff = stage_effect [OF st assms(2)]
    have a: "space_ok (vm_phys (irq_vm a)) (tb_root tb)" "vm_device_next (irq_vm a) = vm_device_next (irq_vm w)"
      using eff by blast+
    note win = trampoline_window [OF mp a(1) assms(4) a(2) assms(5)]
    have "sees tb v w' = sees tb v w \<or>
        low v div 4096 = 8 \<and> mapped_as TRAMPOLINE_PHYS TRAMPOLINE_PHYS RWX NormalMemory v (sees tb v w')"
      if "\<not> lapic_window w v" for v
      using eff [of v] win [of v] that unfolding sees_def by auto
    moreover have "\<exists>evs. log_of w' = log_of w @ evs \<and> written evs = []"
      using stage_written [OF st] map_registers_written [OF mp] by fastforce
    ultimately show ?thesis using win n by blast
  next
    fix a virt b c k
    assume st: "stage_trampoline env tb w = Some (Done (Inr (), a))"
      and mp: "map_registers tb lapic 0x1000 a = Some (Done (Inr virt, b))"
      and wake: "let id = answer32 hw (log_of b) (virt + LAPIC_ID);
             at = with_log (log_of b @ [Mmio_Read (virt + LAPIC_ID) id]) b in
         wake_all hw env virt (ucast (drop_bit 24 id)) (take (f_cpus fs) (f_cpu_ids fs)) at = Some (Done (k, c))"
      and un: "on_vm (unmap_identity tb TRAMPOLINE_PHYS PAGE_SIZE) c = Some (Done ((), w'))"
    note eff = stage_effect [OF st assms(2)]
    have a: "space_ok (vm_phys (irq_vm a)) (tb_root tb)" "vm_device_next (irq_vm a) = vm_device_next (irq_vm w)"
      using eff by blast+
    note win = trampoline_window [OF mp a(1) assms(4) a(2) assms(5)]
    have c: "vm_phys (irq_vm c) = vm_phys (irq_vm b)"
      using wake wake_all_does unfolding Let_def by (fastforce dest: doing_same)
    have page: "low TRAMPOLINE_PHYS div 4096 = 8" by (simp add: TRAMPOLINE_PHYS_def low_def)
    have before: "translate (tb_root tb) TRAMPOLINE_PHYS (vm_phys (irq_vm w)) = None"
      using assms(3) [OF page] by (simp add: sees_def)
    have others: "translate (tb_root tb) v (vm_phys (irq_vm a)) = translate (tb_root tb) v (vm_phys (irq_vm w))"
      if "low v div 4096 \<noteq> low TRAMPOLINE_PHYS div 4096" for v using eff [of v] that page by simp
    obtain x where x: "translate (tb_root tb) TRAMPOLINE_PHYS (vm_phys (irq_vm a)) = Some x"
      using eff [of TRAMPOLINE_PHYS] page by (auto simp: mapped_as_def split: option.splits)
    have size: "t_page_size x = PAGE_SIZE"
      by (rule single_page_leaf [OF assms(2) a(1) before others x])
    have xc: "translate (tb_root tb) TRAMPOLINE_PHYS (vm_phys (irq_vm c)) = Some x"
      using win [of TRAMPOLINE_PHYS] below_window [OF page] x unfolding c sees_def by simp
    have okc: "space_ok (vm_phys (irq_vm c)) (tb_root tb)" using win unfolding c by blast
    from unmap_identity_effect [OF okc xc size] obtain t where
      t: "unmap_identity tb TRAMPOLINE_PHYS PAGE_SIZE (irq_vm c) = Some (Done ((), t))"
        "space_ok (vm_phys t) (tb_root tb)"
        "\<And>v. translate (tb_root tb) v (vm_phys t) = (if low v div 4096 = low TRAMPOLINE_PHYS div 4096 then None
          else translate (tb_root tb) v (vm_phys (irq_vm c)))" by blast
    have w': "w' = c\<lparr>irq_vm := t\<rparr>" using un t(1) by (simp add: on_vm_def on_part_def)
    have "sees tb v w' = sees tb v w" if "\<not> lapic_window w v" for v
    proof (cases "low v div 4096 = 8")
      case True
      then show ?thesis using t(3) [of v] page w' assms(3) by (simp add: sees_def)
    next
      case False
      then show ?thesis using t(3) [of v] page w' win [of v] that eff [of v] c by (simp add: sees_def)
    qed
    then show ?thesis using w' t(2) by simp
  qed
qed

section \<open>Two cores\<close>

text \<open>A machine without an HPET whose local APIC is never busy and whose second core answers at once.\<close>

definition waking_machine :: machine where
  "waking_machine = still_machine\<lparr>answer64 := (\<lambda>h a. 1)\<rparr>"

definition pair_facts :: facts where
  "pair_facts = apic_facts\<lparr>f_cpus := 2, f_cpu_ids := [0, 1]\<rparr>"

definition pair_env :: smp_env where
  "pair_env = \<lparr>env_entry = 0xFFFFFFFF80001000, env_blob_len = 200, env_stack = (\<lambda>h. Some 0x100000),
     env_online = (\<lambda>h. 2)\<rparr>"

definition pair_tree :: phys where
  "pair_tree = \<lparr>entries = (\<lambda>_ _. 0),
     pool = [0x2000, 0x3000, 0x4000, 0x5000, 0x6000, 0x7000, 0x9000, 0xA000]\<rparr>"

definition pair_vm :: vm where
  "pair_vm = \<lparr>vm_phys = pair_tree, vm_device_next = 0, vm_log = []\<rparr>"

definition pair_boot :: irqs where
  "pair_boot = quiet\<lparr>irq_vm := pair_vm\<rparr>"

lemma pair_tree_ok: "space_ok pair_tree 0x1000"
proof -
  have "entries pair_tree 0x1000 = (\<lambda>_. 0)" by (simp add: pair_tree_def)
  note e = empty_table [OF this]
  have "pool_ok pair_tree {0x1000}" by (simp add: pool_ok_def pair_tree_def frame_ok_def PTE_ADDR_MASK_def)
  then show ?thesis by (simp add: space_ok_def e)
qed

lemma pair_absent: "translate 0x1000 v pair_tree = None"
proof -
  have "entries pair_tree 0x1000 = (\<lambda>_. 0)" by (simp add: pair_tree_def)
  then show ?thesis using pair_tree_ok by (simp add: translate_lookup space_ok_def empty_table)
qed

lemma waking_answers [simp]: "answer32 waking_machine h a = 0" "answer64 waking_machine h a = 1"
  by (simp_all add: waking_machine_def still_machine_def)

lemma waking_idle: "\<exists>h. wait_idle (over_irqs (mapped32 waking_machine base)) e w = Some (Done (Some (), with_log h w))"
  by (subst wait_idle.simps) (auto simp: rd_over mapped.aligned_regs)

lemma waking_sends: "\<exists>h. send_ipi (over_irqs (mapped32 waking_machine base)) t cmd e w = Some (Done (Some (), with_log h w))"
proof -
  obtain h where h: "wait_idle (over_irqs (mapped32 waking_machine base)) e w = Some (Done (Some (), with_log h w))"
    using waking_idle by blast
  let ?k = "with_log (h @ message base t cmd) w"
  obtain g where g: "wait_idle (over_irqs (mapped32 waking_machine base)) e ?k = Some (Done (Some (), with_log g ?k))"
    using waking_idle by blast
  from h g show ?thesis by (auto simp: send_ipi_def try_act_def wr_over mapped.aligned_regs message_def)
qed

lemma waking_in_time:
  assumes "hpet_at w = None"
  shows "\<exists>h. in_time waking_machine (\<lambda>e. send_ipi (over_irqs (mapped32 waking_machine base)) t cmd e) w =
    Some (Done (Some (), with_log h w))"
  using waking_sends assms by (simp add: in_time_def deadline_micros_def now_ns_apply)

lemma waking_sequence:
  assumes "hpet_at w = None"
  shows "\<exists>h. ipi_sequence waking_machine base t w = Some (Done (Some (), with_log h w))"
proof -
  let ?s = "\<lambda>cmd. in_time waking_machine (\<lambda>e. send_ipi (over_irqs (mapped32 waking_machine base)) t cmd e)"
  have one: "\<exists>h. ?s cmd (with_log g w) = Some (Done (Some (), with_log h w))" for cmd g
    using waking_in_time [of "with_log g w"] assms by simp
  have stall: "stall_micros waking_machine m (with_log g w) = Some (Done ((), with_log g w))" for m g
    using assms by (simp add: stall_micros_def)
  obtain a where a: "?s (ICR_INIT OR ICR_LEVEL_ASSERT) w = Some (Done (Some (), with_log a w))"
    using waking_in_time [OF assms] by blast
  obtain b where b: "?s (ICR_INIT OR ICR_LEVEL_TRIGGER) (with_log a w) = Some (Done (Some (), with_log b w))"
    using one by blast
  let ?c = "ICR_STARTUP OR ICR_LEVEL_ASSERT OR ucast TRAMPOLINE_PAGE"
  obtain c where c: "?s ?c (with_log b w) = Some (Done (Some (), with_log c w))" using one by blast
  obtain d where d: "?s ?c (with_log c w) = Some (Done (Some (), with_log d w))" using one by blast
  from a b c d stall show ?thesis
    by (intro exI [of _ d]) (simp add: ipi_sequence_def Let_def try_act_def send_init_def [abs_def] send_init_deassert_def [abs_def]
      send_startup_def [abs_def])
qed

lemma waking_core:
  assumes "hpet_at w = None"
  shows "\<exists>h. wake_core waking_machine pair_env base 0 1 w = Some (Done (True, with_log h w))"
proof -
  have "wait_for_ack waking_machine (Suc n) w = Some (Done (True,
      with_log (log_of w @ [Load (phys_to_virt TRAMPOLINE_PHYS + PARAM_ACK) 1]) w))" for n w
    by (simp add: read_volatile_def)
  from this [of 199] have ack: "wait_for_ack waking_machine 200 w = Some (Done (True,
      with_log (log_of w @ [Load (phys_to_virt TRAMPOLINE_PHYS + PARAM_ACK) 1]) w))" for w by simp
  have "add_run (phys_to_virt 0x100000) (AP_STACK_PAGES * PAGE_SIZE) = Done 0xFFFF800000104000"
    by (simp add: add_run_def phys_to_virt_def PHYS_MAP_BASE_def smp_consts PAGE_SIZE_def saturating_add_def
      checked_add_def)
  then have st: "alloc_ap_stack pair_env w = Some (Done (Some 0xFFFF800000104000, w))" for w
    by (simp add: alloc_ap_stack_def pair_env_def)
  obtain g where g: "prepare_slot pair_env 1 w = Some (Done ((), with_log g w))"
    by (simp add: prepare_slot_def st put_param_def write_volatile_def)
  obtain h where "ipi_sequence waking_machine base 1 (with_log g w) = Some (Done (Some (), with_log h (with_log g w)))"
    using waking_sequence [of "with_log g w"] assms by auto
  with g show ?thesis
    by (intro exI [of _ "h @ [Load (phys_to_virt TRAMPOLINE_PHYS + PARAM_ACK) 1]"])
      (simp add: wake_core_def Let_def ack)
qed

lemma waking_cores:
  assumes "hpet_at w = None"
  shows "\<exists>h. wake_all waking_machine pair_env base 0 [0, 1] w = Some (Done (1, with_log h w))"
proof -
  obtain h where "wake_core waking_machine pair_env base 0 1 w = Some (Done (True, with_log h w))"
    using waking_core [OF assms] by blast
  moreover have "wake_core waking_machine pair_env base 0 0 = ret False"
    by (simp add: wake_core_def)
  ultimately show ?thesis by (intro exI [of _ h]) (simp add: bind_act_def ret_def)
qed

lemma pair_windows:
  "fst (map_normal False 0x1000 0x8000 0x8000 0x1000 RWX pair_tree) = Inr ()"
  "fst (map_device False 0x1000 0xFFFF900000000000 0xFEE00000 0x1000 RW
    (snd (map_normal False 0x1000 0x8000 0x8000 0x1000 RWX pair_tree))) = Inr ()"
  by code_simp+

lemma pair_wakes: "\<exists>w'. start_cores waking_machine pair_env sample_tables pair_facts 0xFEE00000 pair_boot = Some (Done (2, w'))"
proof -
  let ?m = "map_normal False 0x1000 0x8000 0x8000 0x1000 RWX pair_tree"
  have m: "?m = (Inr (), snd ?m)" using pair_windows(1) by (simp add: prod_eq_iff)
  have tb: "tb_gib_pages sample_tables = False" "tb_root sample_tables = 0x1000"
    by (simp_all add: sample_tables_def)
  have ps_map: "map_normal False 0x1000 0x8000 0x8000 PAGE_SIZE RWX = map_normal False 0x1000 0x8000 0x8000 0x1000 RWX"
    by (simp add: PAGE_SIZE_def)
  have hpet: "hpet_at pair_boot = None" by (simp add: pair_boot_def quiet_def)
  let ?c = "with_log (log_of pair_boot @ staging pair_env sample_tables) pair_boot"
  define v where "v = (irq_vm ?c)\<lparr>vm_phys := snd ?m, vm_log := vm_log (irq_vm ?c) @ [Invlpg 0x8000]\<rparr>"
  have vm: "vm_phys (irq_vm ?c) = pair_tree" "vm_device_next (irq_vm ?c) = 0"
    by (simp_all add: pair_boot_def pair_vm_def with_log_def)
  have "vm_map (map_normal False 0x1000 0x8000 0x8000 0x1000 RWX) (irq_vm ?c) =
    Some (Done (Inr (), (irq_vm ?c)\<lparr>vm_phys := snd ?m\<rparr>))"
    unfolding vm_map_def vm(1) by (subst m) simp
  then have "map_identity sample_tables TRAMPOLINE_PHYS PAGE_SIZE RWX (irq_vm ?c) = Some (Done (Inr (), v))"
    unfolding TRAMPOLINE_PHYS_def
    by (simp add: map_identity_def page_span tb each_page_one invlpg_def vm_cpu_def
      on_part_def bind_act_def seq_act_def ps_map v_def)
  moreover have "\<not> PAGE_SIZE - PARAM_BASE < env_blob_len pair_env"
    by (simp add: pair_env_def smp_consts PAGE_SIZE_def)
  ultimately have st: "stage_trampoline pair_env sample_tables pair_boot = Some (Done (Inr (), ?c\<lparr>irq_vm := v\<rparr>))"
    by (simp add: stage_trampoline_def staging_def copy_to_def put_param_def write_volatile_def on_vm_def bind_act_def)
  have pages: "(0xFEE00000 :: u64) AND (PAGE_SIZE - 1) = 0" "next_multiple 0x1000 PAGE_SIZE = Done 0x1000"
    by (simp_all add: PAGE_SIZE_def next_multiple_def checked_next_multiple_of_def checked_add_def)
  obtain t where t: "vm_map_device sample_tables 0xFEE00000 0x1000 v = Some (Done (Inr 0xFFFF900000000000, t))"
    using window_opens [OF pages, of v sample_tables] pair_windows(2)
    by (auto simp: v_def vm tb DEVICE_BASE_def DEVICE_WINDOW_def)
  let ?b = "?c\<lparr>irq_vm := t\<rparr>"
  have mp: "map_registers sample_tables 0xFEE00000 0x1000 (?c\<lparr>irq_vm := v\<rparr>) = Some (Done (Inr 0xFFFF900000000000, ?b))"
    using map_registers_opens [of sample_tables "0xFEE00000" "0x1000" "?c\<lparr>irq_vm := v\<rparr>"] t by simp
  have hb: "hpet_at (with_log h ?b) = None" for h using hpet by (simp add: with_log_def)
  obtain h where "wake_all waking_machine pair_env 0xFFFF900000000000 0 [0, 1]
      (with_log (log_of ?b @ [Mmio_Read (0xFFFF900000000000 + LAPIC_ID) 0]) ?b) = Some (Done (1, with_log h ?b))"
    using waking_cores [OF hb] by (metis with_log_simps(2))
  moreover obtain x where "on_vm (unmap_identity sample_tables TRAMPOLINE_PHYS PAGE_SIZE) (with_log h ?b) = Some (Done ((), x))"
    by (auto simp: unmap_identity_def page_span each_page_one unmap_page_def invlpg_def vm_cpu_def
      on_part_def bind_act_def seq_act_def on_vm_def)
  moreover have "on_hw (lapic_id (mapped32 waking_machine 0xFFFF900000000000)) ?b = Some (Done (0,
      with_log (log_of ?b @ [Mmio_Read (0xFFFF900000000000 + LAPIC_ID) 0]) ?b))"
    by (simp add: lapic_id_def rd_mapped mapped.aligned_regs on_hw_Done)
  moreover have "f_cpus pair_facts = 2" "take 2 (f_cpu_ids pair_facts) = [0, 1]" "env_online pair_env g = 2" for g
    by (simp_all add: pair_facts_def pair_env_def)
  ultimately show ?thesis
    by (simp add: start_cores_def st mp look_irqs_def del: wake_all.simps)
qed

theorem cores_woken_in_order_witness:
  "\<exists>w' base tks. start_cores waking_machine pair_env sample_tables pair_facts 0xFEE00000 pair_boot = Some (Done (2, w')) \<and>
    written (log_of w') = begun base tks"
proof -
  obtain w' where w': "start_cores waking_machine pair_env sample_tables pair_facts 0xFEE00000 pair_boot = Some (Done (2, w'))"
    using pair_wakes by blast
  have "log_of pair_boot = []" by (simp add: pair_boot_def pair_vm_def)
  with cores_woken_in_order [OF w'] have "written (log_of w') = [] \<or> (\<exists>base tks. written (log_of w') = begun base tks)"
    unfolding Let_def by auto
  moreover have "begun base [] = []" for base by (simp add: begun_def)
  ultimately show ?thesis using w' by metis
qed

theorem trampoline_closed_witness:
  "\<exists>w'. start_cores waking_machine pair_env sample_tables pair_facts 0xFEE00000 pair_boot = Some (Done (2, w')) \<and>
    sees sample_tables 0x8000 w' = None"
proof -
  obtain w' where w': "start_cores waking_machine pair_env sample_tables pair_facts 0xFEE00000 pair_boot = Some (Done (2, w'))"
    using pair_wakes by blast
  have ok: "space_ok (vm_phys (irq_vm pair_boot)) (tb_root sample_tables)"
    using pair_tree_ok by (simp add: pair_boot_def pair_vm_def sample_tables_def)
  have absent: "sees sample_tables v pair_boot = None" for v
    by (simp add: sees_def pair_boot_def pair_vm_def sample_tables_def pair_absent)
  have b: "unat (0xFEE00000 :: u64) + 2 ^ 14 \<le> 2 ^ 52" "unat (vm_device_next (irq_vm pair_boot)) \<le> 2 ^ 30"
    by (simp_all add: pair_boot_def pair_vm_def)
  have "low 0x8000 div 4096 = 8" by (simp add: low_def)
  then have out: "\<not> lapic_window pair_boot 0x8000" by (rule below_window)
  from trampoline_closed [OF w' ok absent b] have "\<forall>v. \<not> lapic_window pair_boot v \<longrightarrow> sees sample_tables v w' = sees sample_tables v pair_boot"
    by simp
  with out absent w' show ?thesis by auto
qed

end
