(* ===== verification/Wakeup.thy ===== *)
theory Wakeup imports Smp begin

text \<open>
  The boot processor and the cores it wakes, running at once around the one parameter block of the
  trampoline's page: \<open>start_cores\<close> of \<open>crates/kernel/src/smp.rs\<close> on one side, the sixty-four-bit end of
  \<open>crates/arch-x86_64/src/trampoline.rs\<close> and \<open>ap_entry\<close> on the other. Every read or write of the block,
  of \<open>ONLINE\<close> and of \<open>ROLL_CALL\<close> is one step, and the steps of all cores interleave freely.
  \<open>stk n\<close> is what the \<open>n\<close>-th call of \<open>alloc_ap_stack\<close> returned.
\<close>

record params =
  par_stack_top :: u64
  par_entry :: u64
  par_cpu_id :: u64
  par_ack :: u64

text \<open>Where the boot processor is: before the loop body, in \<open>prepare_slot\<close> after each of its three
  stores, in \<open>wait_for_ack\<close> with so many looks left, past \<open>unmap_identity\<close>, and at the end.\<close>

datatype boot_at =
    AtChoice "u32 list"
  | AtStacked u32 "u32 list"
  | AtNamed u32 "u32 list"
  | AtCleared u32 "u32 list"
  | AtWait nat u32 "u32 list"
  | AtClosed
  | AtReport u32

text \<open>Where a woken core is: on its way through real and protected mode, then after each instruction
  of \<open>long_mode\<close>, then in \<open>ap_entry\<close>. What its registers hold is kept with it: \<open>rsp\<close>, \<open>rdi\<close>, \<open>rax\<close>.
  A core that faults has no IDT to go to.\<close>

datatype core_at =
    CAsleep
  | CWaking
  | CLoaded u64
  | CAcked u64
  | CKnows u64 u64
  | CReady u64 u64 u64
  | CEntered u64 u64
  | CCounted u64 u64
  | CParked u64 u64
  | CFaulted

record wakeup =
  wk_params :: params
  wk_mapped :: bool
  wk_boot :: boot_at
  wk_core :: "u8 \<Rightarrow> core_at"
  wk_taken :: nat
  wk_woken :: nat
  wk_refused :: "u32 list"
  wk_silent :: "u32 list"
  wk_online :: u32
  wk_roll :: u64

definition put_core :: "u8 \<Rightarrow> core_at \<Rightarrow> wakeup \<Rightarrow> wakeup" where
  "put_core c k s = s\<lparr>wk_core := (wk_core s)(c := k)\<rparr>"

definition put_params :: "(params \<Rightarrow> params) \<Rightarrow> wakeup \<Rightarrow> wakeup" where
  "put_params f s = s\<lparr>wk_params := f (wk_params s)\<rparr>"

section \<open>The boot processor\<close>

definition top_of :: "(nat \<Rightarrow> u64 option) \<Rightarrow> nat \<Rightarrow> u64" where
  "top_of stk n = (case stk n of None \<Rightarrow> 0 | Some t \<Rightarrow> t)"

definition boot_step :: "(nat \<Rightarrow> u64 option) \<Rightarrow> u8 \<Rightarrow> wakeup \<Rightarrow> wakeup option" where
  "boot_step stk self s =
     (case wk_boot s of
        AtChoice [] \<Rightarrow> Some (s\<lparr>wk_mapped := False, wk_boot := AtClosed\<rparr>)
      | AtChoice (i # is) \<Rightarrow>
          if 255 < i \<or> ucast i = self then Some (s\<lparr>wk_boot := AtChoice is\<rparr>)
          else Some ((put_params (\<lambda>p. p\<lparr>par_stack_top := top_of stk (wk_taken s)\<rparr>) s)
            \<lparr>wk_taken := Suc (wk_taken s), wk_boot := AtStacked i is\<rparr>)
      | AtStacked i is \<Rightarrow>
          Some ((put_params (\<lambda>p. p\<lparr>par_cpu_id := ucast i\<rparr>) s)\<lparr>wk_boot := AtNamed i is\<rparr>)
      | AtNamed i is \<Rightarrow> Some ((put_params (\<lambda>p. p\<lparr>par_ack := 0\<rparr>) s)\<lparr>wk_boot := AtCleared i is\<rparr>)
      | AtCleared i is \<Rightarrow> Some ((put_core (ucast i) CWaking s)\<lparr>wk_boot := AtWait 200 i is\<rparr>)
      | AtWait 0 i is \<Rightarrow> Some (s\<lparr>wk_silent := wk_silent s @ [i], wk_boot := AtChoice is\<rparr>)
      | AtWait (Suc n) i is \<Rightarrow>
          if par_ack (wk_params s) \<noteq> 0
          then Some (s\<lparr>wk_woken := Suc (wk_woken s), wk_boot := AtChoice is\<rparr>)
          else Some (s\<lparr>wk_boot := AtWait n i is\<rparr>)
      | AtClosed \<Rightarrow> Some (s\<lparr>wk_boot := AtReport (wk_online s)\<rparr>)
      | AtReport n \<Rightarrow> None)"

text \<open>A message that is not accepted in time ends the sequence where it was: the core may have taken
  none of the messages, or only the reset, or the startup as well.\<close>

definition refuse_step :: "core_at \<Rightarrow> wakeup \<Rightarrow> wakeup option" where
  "refuse_step k s =
     (case wk_boot s of
        AtCleared i is \<Rightarrow>
          if k = wk_core s (ucast i) \<or> k = CAsleep \<or> k = CWaking
          then Some ((put_core (ucast i) k s)\<lparr>wk_refused := wk_refused s @ [i], wk_boot := AtChoice is\<rparr>)
          else None
      | _ \<Rightarrow> None)"

section \<open>A woken core\<close>

text \<open>The code up to the call runs on the trampoline's page, at its physical address. A stack whose
  top is 0 takes no return address: nothing is mapped at the end of the address space.\<close>

definition core_step :: "u8 \<Rightarrow> wakeup \<Rightarrow> wakeup option" where
  "core_step c s =
     (let p = wk_params s in
      case wk_core s c of
        CAsleep \<Rightarrow> None
      | CWaking \<Rightarrow> Some (if wk_mapped s then put_core c (CLoaded (par_stack_top p)) s else put_core c CFaulted s)
      | CLoaded sp \<Rightarrow>
          Some (if wk_mapped s then put_params (\<lambda>p. p\<lparr>par_ack := 1\<rparr>) (put_core c (CAcked sp) s)
            else put_core c CFaulted s)
      | CAcked sp \<Rightarrow> Some (if wk_mapped s then put_core c (CKnows sp (par_cpu_id p)) s else put_core c CFaulted s)
      | CKnows sp i \<Rightarrow> Some (if wk_mapped s then put_core c (CReady sp i (par_entry p)) s else put_core c CFaulted s)
      | CReady sp i e \<Rightarrow>
          Some (if wk_mapped s \<and> sp \<noteq> 0 then put_core c (CEntered sp i) s else put_core c CFaulted s)
      | CEntered sp i \<Rightarrow> Some ((put_core c (CCounted sp i) s)\<lparr>wk_roll := wk_roll s + (i + 1)\<rparr>)
      | CCounted sp i \<Rightarrow> Some ((put_core c (CParked sp i) s)\<lparr>wk_online := wk_online s + 1\<rparr>)
      | CParked sp i \<Rightarrow> None
      | CFaulted \<Rightarrow> None)"

section \<open>All of them at once\<close>

datatype wake_event = BootMoves | MessageRefused core_at | CoreMoves u8

definition wake_step :: "(nat \<Rightarrow> u64 option) \<Rightarrow> u8 \<Rightarrow> wake_event \<Rightarrow> wakeup \<Rightarrow> wakeup option" where
  "wake_step stk self e s =
     (case e of
        BootMoves \<Rightarrow> boot_step stk self s
      | MessageRefused k \<Rightarrow> refuse_step k s
      | CoreMoves c \<Rightarrow> core_step c s)"

fun wake_run :: "(nat \<Rightarrow> u64 option) \<Rightarrow> u8 \<Rightarrow> wake_event list \<Rightarrow> wakeup \<Rightarrow> wakeup option" where
  "wake_run stk self [] s = Some s"
| "wake_run stk self (e # es) s = Option.bind (wake_step stk self e s) (wake_run stk self es)"

text \<open>What \<open>stage_trampoline\<close> and the statics leave.\<close>

definition staged :: "u64 \<Rightarrow> u32 list \<Rightarrow> wakeup" where
  "staged entry ids =
     \<lparr>wk_params = \<lparr>par_stack_top = 0, par_entry = entry, par_cpu_id = 0, par_ack = 0\<rparr>, wk_mapped = True,
      wk_boot = AtChoice ids, wk_core = (\<lambda>c. CAsleep), wk_taken = 0, wk_woken = 0, wk_refused = [],
      wk_silent = [], wk_online = 1, wk_roll = 0\<rparr>"

inductive waking :: "(nat \<Rightarrow> u64 option) \<Rightarrow> u8 \<Rightarrow> u64 \<Rightarrow> u32 list \<Rightarrow> wakeup \<Rightarrow> bool"
  for stk self entry ids where
  waking_start: "waking stk self entry ids (staged entry ids)"
| waking_step: "waking stk self entry ids s \<Longrightarrow> wake_step stk self e s = Some t \<Longrightarrow> waking stk self entry ids t"

lemma waking_run: "waking stk self entry ids s \<Longrightarrow> wake_run stk self es s = Some t \<Longrightarrow> waking stk self entry ids t"
  by (induction es arbitrary: s) (auto simp: bind_eq_Some_conv intro: waking_step)

end
