(* ===== verification/WakeupProps.thy ===== *)
theory WakeupProps imports Wakeup SmpProps begin

text \<open>
  What holds however the boot processor and the woken cores interleave: no two cores run on one stack
  and the count of running cores is never too high. And what does not, with the runs that show it: the
  acknowledgement comes before the core has read its parameters and before it has left the page.
\<close>

section \<open>The slot belongs to one core\<close>

definition target_of :: "boot_at \<Rightarrow> u8 option" where
  "target_of b = (case b of AtStacked i is \<Rightarrow> Some (ucast i) | AtNamed i is \<Rightarrow> Some (ucast i)
     | AtCleared i is \<Rightarrow> Some (ucast i) | AtWait n i is \<Rightarrow> Some (ucast i) | _ \<Rightarrow> None)"

fun stack_in :: "core_at \<Rightarrow> u64 option" where
  "stack_in CAsleep = None"
| "stack_in CWaking = None"
| "stack_in (CLoaded sp) = Some sp"
| "stack_in (CAcked sp) = Some sp"
| "stack_in (CKnows sp i) = Some sp"
| "stack_in (CReady sp i e) = Some sp"
| "stack_in (CEntered sp i) = Some sp"
| "stack_in (CCounted sp i) = Some sp"
| "stack_in (CParked sp i) = Some sp"
| "stack_in CFaulted = None"

text \<open>A core that called \<open>ap_entry\<close>.\<close>

fun in_kernel :: "core_at \<Rightarrow> bool" where
  "in_kernel (CEntered sp i) = True"
| "in_kernel (CCounted sp i) = True"
| "in_kernel (CParked sp i) = True"
| "in_kernel _ = False"

text \<open>On its way to its acknowledgement.\<close>

fun arriving :: "core_at \<Rightarrow> bool" where
  "arriving CWaking = True"
| "arriving (CLoaded sp) = True"
| "arriving _ = False"

definition answered :: "wakeup \<Rightarrow> bool" where
  "answered s \<longleftrightarrow> wk_refused s = [] \<and> wk_silent s = []"

text \<open>Which allocation each core's stack came from.\<close>

definition stacks_of :: "(nat \<Rightarrow> u64 option) \<Rightarrow> (u8 \<Rightarrow> nat) \<Rightarrow> wakeup \<Rightarrow> bool" where
  "stacks_of stk f s \<longleftrightarrow>
     (\<forall>c sp. stack_in (wk_core s c) = Some sp \<longrightarrow> f c < wk_taken s \<and> sp = top_of stk (f c)) \<and>
     inj_on f {c. stack_in (wk_core s c) \<noteq> None}"

text \<open>The allocation in the block is the last one, and no core but the one being woken has it.\<close>

definition slot_free :: "(nat \<Rightarrow> u64 option) \<Rightarrow> (u8 \<Rightarrow> nat) \<Rightarrow> wakeup \<Rightarrow> bool" where
  "slot_free stk f s \<longleftrightarrow> 0 < wk_taken s \<and> par_stack_top (wk_params s) = top_of stk (wk_taken s - 1) \<and>
     (\<forall>c. stack_in (wk_core s c) \<noteq> None \<longrightarrow> f c = wk_taken s - 1 \<longrightarrow>
        (\<exists>n i is. wk_boot s = AtWait n i is \<and> c = ucast i))"

definition slots :: "(nat \<Rightarrow> u64 option) \<Rightarrow> (u8 \<Rightarrow> nat) \<Rightarrow> wakeup \<Rightarrow> bool" where
  "slots stk f s \<longleftrightarrow> stacks_of stk f s \<and> (target_of (wk_boot s) \<noteq> None \<longrightarrow> slot_free stk f s)"

definition taking_turns :: "wakeup \<Rightarrow> bool" where
  "taking_turns s \<longleftrightarrow>
     (\<forall>c. arriving (wk_core s c) \<longrightarrow> par_ack (wk_params s) = 0 \<and>
        (\<exists>n i is. wk_boot s = AtWait n i is \<and> c = ucast i)) \<and>
     (\<forall>i is. wk_boot s = AtCleared i is \<longrightarrow> par_ack (wk_params s) = 0)"


lemma put_sels [simp]:
  "wk_core (put_core c k s) = (wk_core s)(c := k)" "wk_params (put_core c k s) = wk_params s"
  "wk_boot (put_core c k s) = wk_boot s" "wk_taken (put_core c k s) = wk_taken s"
  "wk_refused (put_core c k s) = wk_refused s" "wk_silent (put_core c k s) = wk_silent s"
  "wk_mapped (put_core c k s) = wk_mapped s" "wk_woken (put_core c k s) = wk_woken s"
  "wk_online (put_core c k s) = wk_online s" "wk_roll (put_core c k s) = wk_roll s"
  "wk_core (put_params f s) = wk_core s" "wk_params (put_params f s) = f (wk_params s)"
  "wk_boot (put_params f s) = wk_boot s" "wk_taken (put_params f s) = wk_taken s"
  "wk_refused (put_params f s) = wk_refused s" "wk_silent (put_params f s) = wk_silent s"
  "wk_mapped (put_params f s) = wk_mapped s" "wk_woken (put_params f s) = wk_woken s"
  "wk_online (put_params f s) = wk_online s" "wk_roll (put_params f s) = wk_roll s"
  by (simp_all add: put_core_def put_params_def)

lemma answered_before: "wake_step stk self e s = Some t \<Longrightarrow> answered t \<Longrightarrow> answered s"
  by (auto simp: answered_def wake_step_def boot_step_def refuse_step_def core_step_def Let_def
    split: wake_event.splits boot_at.splits core_at.splits list.splits nat.splits if_splits)

lemma no_refusal: "refuse_step k s = Some t \<Longrightarrow> \<not> answered t"
  by (auto simp: answered_def refuse_step_def split: boot_at.splits if_splits)

lemma turns_boot:
  assumes "boot_step stk self s = Some t" "taking_turns s" "answered t"
  shows "taking_turns t"
  using assms
  by (auto simp: boot_step_def taking_turns_def answered_def split: boot_at.splits list.splits nat.splits if_splits)

lemma turns_arriving:
  assumes "taking_turns s" "arriving (wk_core s c)"
  obtains n i "is" where "par_ack (wk_params s) = 0" "wk_boot s = AtWait n i is" "c = ucast i"
  using assms unfolding taking_turns_def by blast

lemma turns_core:
  assumes "core_step c s = Some t" "taking_turns s"
  shows "taking_turns t"
proof (cases "arriving (wk_core s c)")
  case True
  with assms(2) obtain n i "is" where b: "par_ack (wk_params s) = 0" "wk_boot s = AtWait n i is" "c = ucast i"
    by (rule turns_arriving)
  have "\<not> arriving (wk_core s d)" if "d \<noteq> c" for d
    using that b turns_arriving [OF assms(2), of d] by (metis boot_at.inject(5))
  then show ?thesis using True b assms(1)
    by (cases "wk_core s c") (auto simp: core_step_def Let_def taking_turns_def split: if_splits)
next
  case False
  then have "wk_boot t = wk_boot s" "par_ack (wk_params t) = par_ack (wk_params s)"
    "\<And>d. arriving (wk_core t d) \<Longrightarrow> arriving (wk_core s d)"
    using assms(1) by (cases "wk_core s c"; auto simp: core_step_def Let_def split: if_splits)+
  with assms(2) show ?thesis unfolding taking_turns_def by metis
qed

lemma stacks_kept:
  assumes "stacks_of stk f s" "wk_taken s \<le> wk_taken t"
    and "\<And>d sp. stack_in (wk_core t d) = Some sp \<Longrightarrow> stack_in (wk_core s d) = Some sp"
  shows "stacks_of stk f t"
proof -
  have "{c. stack_in (wk_core t c) \<noteq> None} \<subseteq> {c. stack_in (wk_core s c) \<noteq> None}" using assms(3) by blast
  then have "inj_on f {c. stack_in (wk_core t c) \<noteq> None}"
    using assms(1) inj_on_subset unfolding stacks_of_def by blast
  moreover have "f c < wk_taken t \<and> sp = top_of stk (f c)" if "stack_in (wk_core t c) = Some sp" for c sp
    using assms(1) assms(3) [OF that] assms(2) unfolding stacks_of_def by (meson order_less_le_trans)
  ultimately show ?thesis unfolding stacks_of_def by blast
qed

lemma boot_cores: "boot_step stk self s = Some t \<Longrightarrow> wk_taken s \<le> wk_taken t \<and>
    (stack_in (wk_core t d) = Some sp \<longrightarrow> stack_in (wk_core s d) = Some sp)"
  by (auto simp: boot_step_def split: boot_at.splits list.splits nat.splits if_splits)

lemma slots_boot:
  assumes "boot_step stk self s = Some t" "slots stk f s"
  shows "slots stk f t"
proof -
  have st: "stacks_of stk f s" using assms(2) by (simp add: slots_def)
  then have "stacks_of stk f t" by (rule stacks_kept) (use boot_cores [OF assms(1)] in blast)+
  moreover have "slot_free stk f t" if "target_of (wk_boot t) \<noteq> None"
  proof (cases "wk_boot s")
    case (AtChoice "is")
    then show ?thesis using assms(1) that st
      by (cases "is") (fastforce simp: boot_step_def slot_free_def stacks_of_def target_of_def split: if_splits)+
  next
    case (AtWait n i "is")
    then show ?thesis using assms that
      by (cases n) (auto simp: boot_step_def slots_def slot_free_def target_of_def split: if_splits)
  qed (use assms that in \<open>auto simp: boot_step_def slots_def slot_free_def target_of_def split: if_splits\<close>)
  ultimately show ?thesis by (simp add: slots_def)
qed

lemma core_keeps: "core_step c s = Some t \<Longrightarrow> wk_boot t = wk_boot s \<and> wk_taken t = wk_taken s \<and>
    par_stack_top (wk_params t) = par_stack_top (wk_params s) \<and>
    (wk_core s c \<noteq> CWaking \<or> d \<noteq> c \<longrightarrow> stack_in (wk_core t d) = Some sp \<longrightarrow> stack_in (wk_core s d) = Some sp)"
  by (cases "wk_core s c") (auto simp: core_step_def Let_def split: if_splits)

lemma slots_core:
  assumes "core_step c s = Some t" "slots stk f s" "taking_turns s"
  shows "\<exists>g. slots stk g t"
proof (cases "wk_core s c = CWaking \<and> wk_mapped s")
  case True
  then have "arriving (wk_core s c)" by simp
  with assms(3) obtain n i "is" where b: "wk_boot s = AtWait n i is" "c = ucast i" by (rule turns_arriving)
  have f: "stacks_of stk f s" "slot_free stk f s" using assms(2) b by (simp_all add: slots_def target_of_def)
  have t: "t = put_core c (CLoaded (par_stack_top (wk_params s))) s" using assms(1) True by (simp add: core_step_def)
  have others: "stack_in (wk_core s d) \<noteq> None \<Longrightarrow> d \<noteq> c \<Longrightarrow> f d \<noteq> wk_taken s - 1" for d
    using f(2) b unfolding slot_free_def by auto
  let ?g = "f(c := wk_taken s - 1)"
  have "stacks_of stk ?g t"
  proof -
    have "{d. stack_in (wk_core t d) \<noteq> None} \<subseteq> insert c {d. stack_in (wk_core s d) \<noteq> None}" by (auto simp: t)
    moreover have "inj_on ?g (insert c {d. stack_in (wk_core s d) \<noteq> None})"
    proof (rule inj_onI)
      fix x y
      assume xy: "x \<in> insert c {d. stack_in (wk_core s d) \<noteq> None}" "y \<in> insert c {d. stack_in (wk_core s d) \<noteq> None}"
        "?g x = ?g y"
      show "x = y"
      proof (cases "x = c \<or> y = c")
        case True
        with xy others show ?thesis by (auto split: if_splits)
      next
        case False
        with xy f(1) show ?thesis unfolding stacks_of_def inj_on_def by auto
      qed
    qed
    ultimately have "inj_on ?g {d. stack_in (wk_core t d) \<noteq> None}" using inj_on_subset by blast
    then show ?thesis using f unfolding stacks_of_def slot_free_def by (auto simp: t)
  qed
  moreover have "slot_free stk ?g t" using f(2) b others unfolding slot_free_def by (auto simp: t)
  ultimately show ?thesis unfolding slots_def by blast
next
  case False
  have keep: "stack_in (wk_core t d) = Some sp \<Longrightarrow> stack_in (wk_core s d) = Some sp" for d sp
    using core_keeps [OF assms(1), of d sp] False assms(1) by (auto simp: core_step_def Let_def split: if_splits)
  have "stacks_of stk f t"
    by (rule stacks_kept [of stk f s]) (use assms(2) core_keeps [OF assms(1)] keep in \<open>auto simp: slots_def\<close>)
  moreover have "target_of (wk_boot t) \<noteq> None \<longrightarrow> slot_free stk f t"
    using assms(2) core_keeps [OF assms(1)] keep unfolding slots_def slot_free_def by auto
  ultimately show ?thesis unfolding slots_def by blast
qed

definition kernel_stacks :: "wakeup \<Rightarrow> bool" where
  "kernel_stacks s \<longleftrightarrow> (\<forall>c. in_kernel (wk_core s c) \<longrightarrow> stack_in (wk_core s c) \<noteq> Some 0)"

lemma kernel_stacks_step: "wake_step stk self e s = Some t \<Longrightarrow> kernel_stacks s \<Longrightarrow> kernel_stacks t"
  by (auto simp: kernel_stacks_def wake_step_def boot_step_def refuse_step_def core_step_def Let_def
    split: wake_event.splits boot_at.splits core_at.splits list.splits nat.splits if_splits)
    (metis in_kernel.simps(1,2) stack_in.simps(7,8))+

lemma waking_invariant:
  assumes "waking stk self entry ids s"
  shows "kernel_stacks s \<and> (answered s \<longrightarrow> taking_turns s \<and> (\<exists>f. slots stk f s))"
  using assms
proof (induction rule: waking.induct)
  case waking_start
  then show ?case
    by (simp add: staged_def kernel_stacks_def taking_turns_def slots_def stacks_of_def target_of_def)
next
  case (waking_step s e t)
  have "taking_turns t \<and> (\<exists>f. slots stk f t)" if a: "answered t"
  proof -
    from answered_before [OF waking_step.hyps(2) a] waking_step.IH obtain f where
      f: "taking_turns s" "slots stk f s" by blast
    show ?thesis
    proof (cases e)
      case BootMoves
      with waking_step.hyps(2) have b: "boot_step stk self s = Some t" by (simp add: wake_step_def)
      from turns_boot [OF b f(1) a] slots_boot [OF b f(2)] show ?thesis by blast
    next
      case (MessageRefused k)
      with waking_step.hyps(2) a show ?thesis by (simp add: wake_step_def no_refusal)
    next
      case (CoreMoves c)
      with waking_step.hyps(2) have b: "core_step c s = Some t" by (simp add: wake_step_def)
      from turns_core [OF b f(1)] slots_core [OF b f(2,1)] show ?thesis by blast
    qed
  qed
  with kernel_stacks_step [OF waking_step.hyps(2)] waking_step.IH show ?case by blast
qed

text \<open>C31: every core gets a stack of its own. While no message was refused and no wait ran out, and the
  pool never hands the same stack out twice, two cores that run kernel code run on different stacks,
  and neither on an absent one; and whenever the boot processor turns to the next core, every core it
  woke has read its stack pointer and acknowledged.\<close>

theorem woken_stacks_private:
  assumes "waking stk self entry ids s" "answered s"
    and "\<And>m n a. stk m = Some a \<Longrightarrow> stk n = Some a \<Longrightarrow> m = n"
  shows "(\<forall>c d sp. c \<noteq> d \<and> in_kernel (wk_core s c) \<and> in_kernel (wk_core s d) \<and>
      stack_in (wk_core s c) = Some sp \<longrightarrow> stack_in (wk_core s d) \<noteq> Some sp \<and> sp \<noteq> 0) \<and>
    (\<forall>is c. wk_boot s = AtChoice is \<longrightarrow> \<not> arriving (wk_core s c))"
proof -
  from waking_invariant [OF assms(1)] assms(2) obtain f where
    k: "kernel_stacks s" and t: "taking_turns s" and f: "stacks_of stk f s" unfolding slots_def by blast
  have "sp \<noteq> 0 \<and> stack_in (wk_core s d) \<noteq> Some sp"
    if "c \<noteq> d" "in_kernel (wk_core s c)" "stack_in (wk_core s c) = Some sp" for c d sp
  proof -
    have nz: "sp \<noteq> 0" using k that unfolding kernel_stacks_def by blast
    moreover have "stack_in (wk_core s d) \<noteq> Some sp"
    proof
      assume d: "stack_in (wk_core s d) = Some sp"
      have "top_of stk (f c) = sp" "top_of stk (f d) = sp" using f that(3) d unfolding stacks_of_def by blast+
      then have "f c = f d" using nz assms(3) by (auto simp: top_of_def split: option.splits)
      moreover have "f c \<noteq> f d" using f that(1,3) d unfolding stacks_of_def inj_on_def by fastforce
      ultimately show False by blast
    qed
    ultimately show ?thesis by blast
  qed
  moreover have "\<not> arriving (wk_core s c)" if "wk_boot s = AtChoice is" for "is" c
    using t that unfolding taking_turns_def by auto
  ultimately show ?thesis by blast
qed

section \<open>The count\<close>

text \<open>The cores that still wait for their turn.\<close>

definition to_come :: "u8 \<Rightarrow> boot_at \<Rightarrow> u8 list" where
  "to_come self b = (case b of AtChoice is \<Rightarrow> addressed self is
     | AtStacked i is \<Rightarrow> ucast i # addressed self is | AtNamed i is \<Rightarrow> ucast i # addressed self is
     | AtCleared i is \<Rightarrow> ucast i # addressed self is | AtWait n i is \<Rightarrow> addressed self is | _ \<Rightarrow> [])"

definition parked :: "wakeup \<Rightarrow> u8 set" where
  "parked s = {c. \<exists>sp i. wk_core s c = CParked sp i}"

definition tallied :: "u8 \<Rightarrow> wakeup \<Rightarrow> bool" where
  "tallied self s \<longleftrightarrow> wk_online s = 1 + word_of_nat (card (parked s)) \<and> distinct (to_come self (wk_boot s)) \<and>
     (\<forall>c \<in> set (to_come self (wk_boot s)). wk_core s c = CAsleep) \<and>
     (\<forall>n. wk_boot s = AtReport n \<longrightarrow> unat n \<le> 1 + card (parked s))"

lemma addressed_Cons: "addressed self (i # is) =
    (if 255 < i \<or> ucast i = self then addressed self is else ucast i # addressed self is)"
  by (auto simp: addressed_def)

lemma unat_online: "wk_online s = 1 + word_of_nat (card (parked s)) \<Longrightarrow> unat (wk_online s) = 1 + card (parked s)"
proof -
  assume o: "wk_online s = 1 + word_of_nat (card (parked s))"
  have "card (parked s) \<le> card (UNIV :: u8 set)" by (intro card_mono) simp_all
  then have "card (parked s) \<le> 256" by (simp add: card_word)
  then show ?thesis unfolding o by (simp add: unat_word_ariths unat_of_nat)
qed

lemma parked_same: "(\<And>c. is_parked (wk_core t c) \<longleftrightarrow> is_parked (wk_core s c)) \<Longrightarrow>
    (\<And>k. is_parked k \<longleftrightarrow> (\<exists>sp i. k = CParked sp i)) \<Longrightarrow> parked t = parked s"
  by (auto simp: parked_def)

lemma tallied_boot:
  assumes "boot_step stk self s = Some t" "tallied self s"
  shows "tallied self t"
proof -
  have "parked t = parked s"
    using assms by (auto simp: parked_def boot_step_def tallied_def to_come_def
      split: boot_at.splits list.splits nat.splits if_splits)
  moreover have "wk_online t = wk_online s"
    using assms(1) by (auto simp: boot_step_def split: boot_at.splits list.splits nat.splits if_splits)
  moreover have "wk_boot t = AtReport n \<Longrightarrow> n = wk_online s" for n
    using assms(1) by (auto simp: boot_step_def split: boot_at.splits list.splits nat.splits if_splits)
  moreover have "distinct (to_come self (wk_boot t)) \<and> (\<forall>c \<in> set (to_come self (wk_boot t)). wk_core t c = CAsleep)"
    using assms by (auto simp: boot_step_def tallied_def to_come_def addressed_Cons
      split: boot_at.splits list.splits nat.splits if_splits)
  ultimately show ?thesis using assms(2) unat_online [of s] unfolding tallied_def by auto
qed

lemma tallied_refused:
  assumes "refuse_step k s = Some t" "tallied self s"
  shows "tallied self t"
proof -
  obtain i "is" where b: "wk_boot s = AtCleared i is"
    "t = (put_core (ucast i) k s)\<lparr>wk_refused := wk_refused s @ [i], wk_boot := AtChoice is\<rparr>"
    "k = wk_core s (ucast i) \<or> k = CAsleep \<or> k = CWaking"
    using assms(1) by (auto simp: refuse_step_def split: boot_at.splits if_splits)
  have c: "wk_core s (ucast i) = CAsleep" using assms(2) b(1) by (simp add: tallied_def to_come_def)
  then have "parked t = parked s" using b(3) by (auto simp: parked_def b(2))
  then show ?thesis using assms(2) b(1,3) c by (auto simp: tallied_def to_come_def b(2))
qed

lemma tallied_core:
  assumes "core_step c s = Some t" "tallied self s"
  shows "tallied self t"
proof -
  have awake: "wk_core s c \<noteq> CAsleep" using assms(1) by (auto simp: core_step_def)
  then have come: "c \<notin> set (to_come self (wk_boot s))" using assms(2) unfolding tallied_def by blast
  have b: "wk_boot t = wk_boot s" "d \<noteq> c \<Longrightarrow> wk_core t d = wk_core s d" for d
    using assms(1) by (cases "wk_core s c"; auto simp: core_step_def Let_def split: if_splits)+
  have n: "wk_online t = 1 + word_of_nat (card (parked t)) \<and> card (parked s) \<le> card (parked t)"
  proof (cases "\<exists>sp i. wk_core s c = CCounted sp i")
    case True
    then have "parked t = insert c (parked s)" "c \<notin> parked s" "wk_online t = wk_online s + 1"
      using assms(1) by (auto simp: parked_def core_step_def)
    moreover have "finite (parked s)" by simp
    ultimately show ?thesis using assms(2) by (simp add: tallied_def)
  next
    case False
    then have "parked t = parked s" "wk_online t = wk_online s"
      using assms(1) by (cases "wk_core s c"; auto simp: parked_def core_step_def Let_def split: if_splits)+
    then show ?thesis using assms(2) by (simp add: tallied_def)
  qed
  have a: "wk_core t d = CAsleep" if "d \<in> set (to_come self (wk_boot s))" for d
    using that come b(2) [of d] assms(2) unfolding tallied_def by auto
  have r: "unat m \<le> 1 + card (parked t)" if "wk_boot s = AtReport m" for m
  proof -
    have "unat m \<le> 1 + card (parked s)" using that assms(2) by (simp add: tallied_def)
    with n show ?thesis by linarith
  qed
  have d: "distinct (to_come self (wk_boot s))" using assms(2) by (simp add: tallied_def)
  show ?thesis unfolding tallied_def b(1) using n a r d by blast
qed

text \<open>The number of cores reported is never too high. If the firmware lists no core twice, then at
  every moment, whatever was refused or ran out of time, \<open>ONLINE\<close> is one more than the number of
  cores halted in \<open>ap_entry\<close>, and what \<open>start_cores\<close> returns is at most that.\<close>

theorem online_never_overstated:
  assumes "waking stk self entry ids s" "distinct (addressed self ids)"
  shows "unat (wk_online s) = 1 + card (parked s) \<and>
    (\<forall>n. wk_boot s = AtReport n \<longrightarrow> unat n \<le> 1 + card (parked s))"
proof -
  from assms have "tallied self s"
  proof (induction rule: waking.induct)
    case waking_start
    then show ?case by (simp add: tallied_def staged_def to_come_def parked_def)
  next
    case (waking_step s e t)
    then show ?case
      by (cases e) (auto simp: wake_step_def intro: tallied_boot tallied_refused tallied_core)
  qed
  then show ?thesis using unat_online unfolding tallied_def by blast
qed

section \<open>What an acknowledgement does not say\<close>

definition some_stacks :: "nat \<Rightarrow> u64 option" where
  "some_stacks n = (if n = 0 then Some 0x4000 else if n = 1 then Some 0x8000 else None)"

lemma some_tops [simp]: "top_of some_stacks 0 = 0x4000" "top_of some_stacks (Suc 0) = 0x8000"
  by (simp_all add: top_of_def some_stacks_def)

lemma some_stacks_fresh: "some_stacks m = Some a \<Longrightarrow> some_stacks n = Some a \<Longrightarrow> m = n"
  by (auto simp: some_stacks_def split: if_splits)

lemmas wake_simps = wake_step_def boot_step_def core_step_def put_core_def put_params_def Let_def

lemma two_cores_run:
  "\<exists>s. waking some_stacks 0 entry [0, 1, 2] s \<and> answered s \<and> wk_woken s = 2 \<and> wk_boot s = AtReport 3 \<and>
    parked s = {1, 2} \<and> wk_roll s = 6 \<and> wk_core s = (\<lambda>c. CAsleep)(1 := CParked 0x4000 2, 2 := CParked 0x8000 2)"
proof -
  let ?e = "[BootMoves, BootMoves, BootMoves, BootMoves, BootMoves, CoreMoves 1, CoreMoves 1, BootMoves,
      BootMoves, BootMoves, CoreMoves 1, CoreMoves 1, CoreMoves 1, CoreMoves 1, CoreMoves 1, BootMoves,
      BootMoves, CoreMoves 2, CoreMoves 2, CoreMoves 2, CoreMoves 2, CoreMoves 2, CoreMoves 2, CoreMoves
      2, BootMoves, BootMoves, BootMoves]"
  obtain s where s: "wake_run some_stacks 0 ?e (staged entry [0, 1, 2]) = Some s" "answered s" "wk_woken s = 2"
    "wk_boot s = AtReport 3" "wk_core s = (\<lambda>c. CAsleep)(1 := CParked 0x4000 2, 2 := CParked 0x8000 2)" "wk_roll s = 6"
    by (simp add: wake_simps staged_def answered_def)
  then have "parked s = {1, 2}" by (auto simp: parked_def split: if_splits)
  with s waking_run [OF waking_start s(1)] show ?thesis by blast
qed


lemma wait_runs_out:
  "wk_boot s = AtWait n i is \<Longrightarrow> par_ack (wk_params s) = 0 \<Longrightarrow>
    wake_run stk self (replicate (Suc n) BootMoves) s =
      Some (s\<lparr>wk_silent := wk_silent s @ [i], wk_boot := AtChoice is\<rparr>)"
proof (induction n arbitrary: s)
  case 0
  then show ?case by (simp add: wake_step_def boot_step_def)
next
  case (Suc n)
  then have "wake_step stk self BootMoves s = Some (s\<lparr>wk_boot := AtWait n i is\<rparr>)"
    by (simp add: wake_step_def boot_step_def)
  with Suc.IH [of "s\<lparr>wk_boot := AtWait n i is\<rparr>"] Suc.prems show ?case by simp
qed

text \<open>A core that answers late answers for another. When the wait for one core runs out and that core
  only then reads the block, it takes the stack and the acknowledgement meant for the next: the boot
  processor counts the next core as woken before it has started, and both run the kernel on one
  stack.\<close>

theorem late_core_shares_stack:
  "\<exists>s t. waking some_stacks 0 entry [0, 1, 2] s \<and> waking some_stacks 0 entry [0, 1, 2] t \<and>
    wk_silent s = [1] \<and> wk_woken s = 1 \<and> arriving (wk_core s 2) \<and>
    wk_core t 1 = CParked 0x8000 2 \<and> wk_core t 2 = CParked 0x8000 2"
proof -
  let ?a = "[BootMoves, BootMoves, BootMoves, BootMoves, BootMoves]"
  let ?b = "[BootMoves, BootMoves, BootMoves, BootMoves, CoreMoves 1, CoreMoves 1, BootMoves]"
  let ?c = "[CoreMoves 1, CoreMoves 1, CoreMoves 1, CoreMoves 1, CoreMoves 1, CoreMoves 2, CoreMoves 2,
    CoreMoves 2, CoreMoves 2, CoreMoves 2, CoreMoves 2, CoreMoves 2]"
  obtain p where p: "wake_run some_stacks 0 ?a (staged entry [0, 1, 2]) = Some p"
    "p = \<lparr>wk_params = \<lparr>par_stack_top = 0x4000, par_entry = entry, par_cpu_id = 1, par_ack = 0\<rparr>, wk_mapped = True,
      wk_boot = AtWait 200 1 [2], wk_core = (\<lambda>c. CAsleep)(1 := CWaking), wk_taken = 1, wk_woken = 0,
      wk_refused = [], wk_silent = [], wk_online = 1, wk_roll = 0\<rparr>"
    by (simp add: wake_simps staged_def)
  let ?q = "p\<lparr>wk_silent := wk_silent p @ [1], wk_boot := AtChoice [2]\<rparr>"
  have q: "wake_run some_stacks 0 (replicate (Suc 200) BootMoves) p = Some ?q"
    by (rule wait_runs_out) (simp_all add: p(2))
  obtain s where s: "wake_run some_stacks 0 ?b ?q = Some s" "wk_silent s = [1]" "wk_woken s = 1"
    "arriving (wk_core s 2)"
    "s = \<lparr>wk_params = \<lparr>par_stack_top = 0x8000, par_entry = entry, par_cpu_id = 2, par_ack = 1\<rparr>, wk_mapped = True,
      wk_boot = AtChoice [], wk_core = (\<lambda>c. CAsleep)(1 := CAcked 0x8000, 2 := CWaking), wk_taken = 2, wk_woken = 1,
      wk_refused = [], wk_silent = [1], wk_online = 1, wk_roll = 0\<rparr>"
    by (simp add: wake_simps p(2) fun_upd_twist)
  obtain t where t: "wake_run some_stacks 0 ?c s = Some t" "wk_core t 1 = CParked 0x8000 2"
    "wk_core t 2 = CParked 0x8000 2"
    by (simp add: wake_simps s(5))
  have "waking some_stacks 0 entry [0, 1, 2] s"
    using waking_run [OF waking_run [OF waking_run [OF waking_start p(1)] q] s(1)] .
  with waking_run [OF this t(1)] s t show ?thesis by blast
qed

theorem woken_stacks_private_witness:
  "\<exists>s. waking some_stacks 0 0x1000 [0, 1, 2] s \<and> stack_in (wk_core s 1) = Some 0x4000 \<and>
    stack_in (wk_core s 2) \<noteq> Some 0x4000"
proof -
  obtain s where s: "waking some_stacks 0 0x1000 [0, 1, 2] s" "answered s"
    "wk_core s = (\<lambda>c. CAsleep)(1 := CParked 0x4000 2, 2 := CParked 0x8000 2)"
    using two_cores_run by blast
  have "(1 :: u8) \<noteq> 2" "in_kernel (wk_core s 1)" "in_kernel (wk_core s 2)" "stack_in (wk_core s 1) = Some 0x4000"
    by (simp_all add: s(3))
  moreover have "(\<forall>c d sp. c \<noteq> d \<and> in_kernel (wk_core s c) \<and> in_kernel (wk_core s d) \<and>
      stack_in (wk_core s c) = Some sp \<longrightarrow> stack_in (wk_core s d) \<noteq> Some sp \<and> sp \<noteq> 0) \<and>
    (\<forall>is c. wk_boot s = AtChoice is \<longrightarrow> \<not> arriving (wk_core s c))"
    by (rule woken_stacks_private [OF s(1,2)]) (rule some_stacks_fresh)
  ultimately show ?thesis using s(1) by blast
qed

theorem online_never_overstated_witness:
  "\<exists>s. waking some_stacks 0 0x1000 [0, 1, 2] s \<and> wk_boot s = AtReport 3 \<and> unat (wk_online s) = 3"
proof -
  obtain s where s: "waking some_stacks 0 0x1000 [0, 1, 2] s" "wk_boot s = AtReport 3" "parked s = {1, 2}"
    using two_cores_run by blast
  have "distinct (addressed 0 [0, 1, 2])" by (simp add: addressed_def)
  from online_never_overstated [OF s(1) this] s show ?thesis by auto
qed

end
