(* ===== verification/Lock.thy ===== *)
theory Lock imports Prelude begin

text \<open>
  The ticket lock of \<open>crates/kernel/src/sync.rs\<close>, taken by any number of cores and by interrupt
  handlers on them. Every access to \<open>next\<close>, \<open>serving\<close> or the interrupt flag is one step; the steps of
  different cores interleave freely, and an interrupt may arrive on a core whenever its flag is set. The
  handler runs on top of what it interrupted and may take the same lock.
\<close>

record spin_lock =
  lk_next :: u32
  lk_serving :: u32

definition lock_new :: spin_lock where
  "lock_new = \<lparr>lk_next = 0, lk_serving = 0\<rparr>"

text \<open>What one thread of control has done with the lock: nothing, masked interrupts (and whether they
  were on), taken a ticket, got the guard, or given the lock up with its flag still to restore.\<close>

datatype phase =
    Outside
  | Masked bool
  | Queued bool u32
  | Guard bool
  | Leaving bool

text \<open>A core: its interrupt flag, what runs on it, and what it was interrupted in.\<close>

record lock_cpu =
  lc_if :: bool
  lc_top :: phase
  lc_below :: "phase list"

record lock_state =
  ls_lock :: spin_lock
  ls_cpu :: "nat \<Rightarrow> lock_cpu"

section \<open>The operations\<close>

definition irq_save :: "lock_cpu \<Rightarrow> bool \<times> lock_cpu" where
  "irq_save c = (lc_if c, c\<lparr>lc_if := False\<rparr>)"

definition irq_restore :: "bool \<Rightarrow> lock_cpu \<Rightarrow> lock_cpu" where
  "irq_restore was c = (if was then c\<lparr>lc_if := True\<rparr> else c)"

definition next_fetch_add :: "spin_lock \<Rightarrow> u32 \<times> spin_lock" where
  "next_fetch_add l = (lk_next l, l\<lparr>lk_next := lk_next l + 1\<rparr>)"

definition serving_fetch_add :: "spin_lock \<Rightarrow> spin_lock" where
  "serving_fetch_add l = l\<lparr>lk_serving := lk_serving l + 1\<rparr>"

text \<open>One step of \<open>lock\<close>, and of dropping the guard.\<close>

fun lock_move :: "spin_lock \<Rightarrow> lock_cpu \<Rightarrow> spin_lock \<times> lock_cpu" where
  "lock_move l c =
     (case lc_top c of
        Outside \<Rightarrow> (case irq_save c of (was, c') \<Rightarrow> (l, c'\<lparr>lc_top := Masked was\<rparr>))
      | Masked was \<Rightarrow> (case next_fetch_add l of (t, l') \<Rightarrow> (l', c\<lparr>lc_top := Queued was t\<rparr>))
      | Queued was t \<Rightarrow> if lk_serving l = t then (l, c\<lparr>lc_top := Guard was\<rparr>) else (l, c)
      | Guard was \<Rightarrow> (serving_fetch_add l, c\<lparr>lc_top := Leaving was\<rparr>)
      | Leaving was \<Rightarrow> (l, irq_restore was (c\<lparr>lc_top := Outside\<rparr>)))"

datatype lock_event =
    LockMoves nat
  | Interrupted nat
  | InterruptReturns nat
  | SetsFlag nat bool

text \<open>A handler is entered with the flag clear and returns to a context that had it set; only code that
  is not a handler, and not inside the lock, masks or unmasks interrupts for itself.\<close>

definition lock_step :: "lock_event \<Rightarrow> lock_state \<Rightarrow> lock_state option" where
  "lock_step e s =
     (case e of
        LockMoves i \<Rightarrow>
          (case lock_move (ls_lock s) (ls_cpu s i) of (l, c) \<Rightarrow>
            Some \<lparr>ls_lock = l, ls_cpu = (ls_cpu s)(i := c)\<rparr>)
      | Interrupted i \<Rightarrow>
          let c = ls_cpu s i in
          if lc_if c
          then Some (s\<lparr>ls_cpu := (ls_cpu s)(i :=
            \<lparr>lc_if = False, lc_top = Outside, lc_below = lc_top c # lc_below c\<rparr>)\<rparr>)
          else None
      | InterruptReturns i \<Rightarrow>
          let c = ls_cpu s i in
          (case lc_below c of
             p # ps \<Rightarrow> if lc_top c = Outside
               then Some (s\<lparr>ls_cpu := (ls_cpu s)(i := \<lparr>lc_if = True, lc_top = p, lc_below = ps\<rparr>)\<rparr>)
               else None
           | [] \<Rightarrow> None)
      | SetsFlag i b \<Rightarrow>
          let c = ls_cpu s i in
          if lc_top c = Outside \<and> lc_below c = []
          then Some (s\<lparr>ls_cpu := (ls_cpu s)(i := c\<lparr>lc_if := b\<rparr>)\<rparr>)
          else None)"

fun event_cpu :: "lock_event \<Rightarrow> nat" where
  "event_cpu (LockMoves i) = i"
| "event_cpu (Interrupted i) = i"
| "event_cpu (InterruptReturns i) = i"
| "event_cpu (SetsFlag i b) = i"

definition idle_cpus :: "nat \<Rightarrow> lock_cpu" where
  "idle_cpus i = \<lparr>lc_if = False, lc_top = Outside, lc_below = []\<rparr>"

text \<open>Any run on \<open>n\<close> cores.\<close>

inductive locking :: "nat \<Rightarrow> lock_state \<Rightarrow> bool" for n where
  locking_start: "locking n \<lparr>ls_lock = lock_new, ls_cpu = idle_cpus\<rparr>"
| locking_step: "locking n s \<Longrightarrow> event_cpu e < n \<Longrightarrow> lock_step e s = Some t \<Longrightarrow> locking n t"

section \<open>A queue with a head that may hold\<close>

datatype queue_lock = QueueLock (waiting_line: "nat list") (head_in: bool)

text \<open>What an event of the lock is to the queue: joining at the end, the head going in, the head
  leaving, or nothing.\<close>

inductive queue_step :: "nat \<Rightarrow> queue_lock \<Rightarrow> queue_lock \<Rightarrow> bool" where
  joins: "i \<notin> set q \<Longrightarrow> queue_step i (QueueLock q h) (QueueLock (q @ [i]) h)"
| goes_in: "queue_step i (QueueLock (i # q) False) (QueueLock (i # q) True)"
| leaves: "queue_step i (QueueLock (i # q) True) (QueueLock q False)"
| stays: "queue_step i a a"

inductive_simps queue_step_iff: "queue_step i (QueueLock q h) b"

section \<open>Correctness\<close>

text \<open>The cores in the line hold consecutive tickets, from the one being served to the last one given
  out; the others hold none, and interrupted contexts hold none either.\<close>

definition in_line :: "nat \<Rightarrow> queue_lock \<Rightarrow> lock_state \<Rightarrow> bool" where
  "in_line n a s \<longleftrightarrow>
     (let q = waiting_line a; l = ls_lock s in
      distinct q \<and> set q \<subseteq> {..<n} \<and> (head_in a \<longrightarrow> q \<noteq> []) \<and>
      lk_next l = lk_serving l + word_of_nat (length q) \<and>
      (\<forall>k < length q. \<exists>was. lc_top (ls_cpu s (q ! k)) =
         (if k = 0 \<and> head_in a then Guard was else Queued was (lk_serving l + word_of_nat k))) \<and>
      (\<forall>i. i \<notin> set q \<longrightarrow> lc_top (ls_cpu s i) \<in> {Outside} \<union> range Masked \<union> range Leaving))"

definition masked_cpu :: "lock_cpu \<Rightarrow> bool" where
  "masked_cpu c \<longleftrightarrow>
     (lc_top c \<noteq> Outside \<longrightarrow> \<not> lc_if c) \<and> (lc_below c = [] \<or> lc_below c = [Outside]) \<and>
     (lc_below c \<noteq> [] \<longrightarrow> \<not> lc_if c \<and>
        lc_top c \<notin> {Masked True, Guard True, Leaving True} \<union> range (Queued True))"

definition masked_inside :: "lock_state \<Rightarrow> bool" where
  "masked_inside s \<longleftrightarrow> (\<forall>i. masked_cpu (ls_cpu s i))"

end
