(* ===== verification/LockProps.thy ===== *)
theory LockProps imports Lock begin

text \<open>
  The ticket lock implements a queue whose head may hold, whatever arrives in which order: from that,
  exclusion, first come first served, and that no core ever waits for itself.
\<close>

lemma masked_move: "masked_cpu c \<Longrightarrow> lock_move l c = (l', c') \<Longrightarrow> masked_cpu c'"
  by (cases "lc_top c")
    (auto simp: masked_cpu_def irq_save_def irq_restore_def next_fetch_add_def split: if_splits)

lemma masked_upd: "masked_inside s \<Longrightarrow> ls_cpu t = (ls_cpu s)(i := d) \<Longrightarrow> masked_cpu d \<Longrightarrow> masked_inside t"
  by (simp add: masked_inside_def)

lemma masked_step:
  assumes "lock_step e s = Some t" "masked_inside s"
  shows "masked_inside t"
proof -
  define c where "c = ls_cpu s (event_cpu e)"
  have c: "masked_cpu c" using assms(2) by (simp add: masked_inside_def c_def)
  show ?thesis
  proof (cases e)
    case (LockMoves i)
    obtain l d where l: "lock_move (ls_lock s) c = (l, d)" by (cases "lock_move (ls_lock s) c")
    then have "ls_cpu t = (ls_cpu s)(i := d)"
      using assms(1) LockMoves by (auto simp: lock_step_def c_def simp del: lock_move.simps)
    with masked_move [OF c l] show ?thesis using masked_upd [OF assms(2)] by blast
  next
    case (Interrupted i)
    with assms(1) have "lc_if c" "ls_cpu t = (ls_cpu s)(i := \<lparr>lc_if = False, lc_top = Outside,
        lc_below = lc_top c # lc_below c\<rparr>)" by (auto simp: lock_step_def Let_def c_def split: if_splits)
    moreover from c \<open>lc_if c\<close> have "masked_cpu \<lparr>lc_if = False, lc_top = Outside, lc_below = lc_top c # lc_below c\<rparr>"
      by (auto simp: masked_cpu_def)
    ultimately show ?thesis using masked_upd [OF assms(2)] by blast
  next
    case (InterruptReturns i)
    with assms(1) obtain p ps where "lc_below c = p # ps" "ls_cpu t = (ls_cpu s)(i := \<lparr>lc_if = True, lc_top = p,
        lc_below = ps\<rparr>)" by (auto simp: lock_step_def Let_def c_def split: if_splits list.splits)
    moreover from c \<open>lc_below c = p # ps\<close> have "masked_cpu \<lparr>lc_if = True, lc_top = p, lc_below = ps\<rparr>"
      by (auto simp: masked_cpu_def)
    ultimately show ?thesis using masked_upd [OF assms(2)] by blast
  next
    case (SetsFlag i b)
    with assms(1) have "lc_top c = Outside" "lc_below c = []" "ls_cpu t = (ls_cpu s)(i := c\<lparr>lc_if := b\<rparr>)"
      by (auto simp: lock_step_def Let_def c_def split: if_splits)
    moreover from this(1,2) have "masked_cpu (c\<lparr>lc_if := b\<rparr>)" by (auto simp: masked_cpu_def)
    ultimately show ?thesis using masked_upd [OF assms(2)] by blast
  qed
qed

lemma masked_insideD:
  assumes "masked_inside s"
  shows "lc_top (ls_cpu s i) \<noteq> Outside \<Longrightarrow> \<not> lc_if (ls_cpu s i)"
    "lc_below (ls_cpu s i) \<noteq> [] \<Longrightarrow> lc_below (ls_cpu s i) = [Outside] \<and> \<not> lc_if (ls_cpu s i)"
    "p \<in> set (lc_below (ls_cpu s i)) \<Longrightarrow> p = Outside"
proof -
  have c: "masked_cpu (ls_cpu s i)" using assms by (simp add: masked_inside_def)
  show "lc_top (ls_cpu s i) \<noteq> Outside \<Longrightarrow> \<not> lc_if (ls_cpu s i)"
    and two: "lc_below (ls_cpu s i) \<noteq> [] \<Longrightarrow> lc_below (ls_cpu s i) = [Outside] \<and> \<not> lc_if (ls_cpu s i)"
    using c by (auto simp: masked_cpu_def)
  then show "p \<in> set (lc_below (ls_cpu s i)) \<Longrightarrow> p = Outside" by (cases "lc_below (ls_cpu s i)") auto
qed

section \<open>The line\<close>

lemma in_lineD:
  assumes "in_line n (QueueLock q h) s"
  shows "distinct q" "set q \<subseteq> {..<n}" "h \<Longrightarrow> q \<noteq> []"
    "lk_next (ls_lock s) = lk_serving (ls_lock s) + word_of_nat (length q)"
    "\<And>k. k < length q \<Longrightarrow> \<exists>was. lc_top (ls_cpu s (q ! k)) =
       (if k = 0 \<and> h then Guard was else Queued was (lk_serving (ls_lock s) + word_of_nat k))"
    "\<And>i. i \<notin> set q \<Longrightarrow> lc_top (ls_cpu s i) \<in> {Outside} \<union> range Masked \<union> range Leaving"
  using assms by (simp_all add: in_line_def Let_def)

lemma in_lineI:
  assumes "distinct q" "set q \<subseteq> {..<n}" "h \<Longrightarrow> q \<noteq> []"
    "lk_next (ls_lock s) = lk_serving (ls_lock s) + word_of_nat (length q)"
    "\<And>k. k < length q \<Longrightarrow> \<exists>was. lc_top (ls_cpu s (q ! k)) =
       (if k = 0 \<and> h then Guard was else Queued was (lk_serving (ls_lock s) + word_of_nat k))"
    "\<And>i. i \<notin> set q \<Longrightarrow> lc_top (ls_cpu s i) \<in> {Outside} \<union> range Masked \<union> range Leaving"
  shows "in_line n (QueueLock q h) s"
  using assms by (simp add: in_line_def Let_def)

lemma line_short:
  assumes "in_line n (QueueLock q h) s"
  shows "length q \<le> n"
proof -
  have "card (set q) = length q" using in_lineD(1) [OF assms] by (rule distinct_card)
  moreover have "card (set q) \<le> card {..<n}" using in_lineD(2) [OF assms] by (intro card_mono) simp_all
  ultimately show ?thesis by simp
qed

text \<open>What a core in the line is doing says where it stands.\<close>

lemma in_the_line:
  assumes "in_line n (QueueLock q h) s" "i \<in> set q"
  obtains k was where "k < length q" "q ! k = i" "k = 0" "h" "lc_top (ls_cpu s i) = Guard was"
  | k was where "k < length q" "q ! k = i" "k \<noteq> 0 \<or> \<not> h"
      "lc_top (ls_cpu s i) = Queued was (lk_serving (ls_lock s) + word_of_nat k)"
proof -
  obtain k where k: "k < length q" "q ! k = i" using assms(2) by (auto simp: in_set_conv_nth)
  with in_lineD(5) [OF assms(1) k(1)] show ?thesis using that by (cases "k = 0 \<and> h") auto
qed

lemma in_line_other:
  assumes "in_line n a s" "i \<notin> set (waiting_line a)" "ls_lock t = ls_lock s"
    and "\<And>j. j \<noteq> i \<Longrightarrow> lc_top (ls_cpu t j) = lc_top (ls_cpu s j)"
    and "lc_top (ls_cpu t i) \<in> {Outside} \<union> range Masked \<union> range Leaving"
  shows "in_line n a t"
proof -
  have "lc_top (ls_cpu t (waiting_line a ! k)) = lc_top (ls_cpu s (waiting_line a ! k))"
    if "k < length (waiting_line a)" for k
    using assms(2,4) that by (metis nth_mem)
  moreover have "lc_top (ls_cpu t j) \<in> {Outside} \<union> range Masked \<union> range Leaving" if "j \<notin> set (waiting_line a)" for j
    using assms(1,4,5) that by (cases "j = i") (auto simp: in_line_def Let_def)
  ultimately show ?thesis using assms(1,3) by (simp add: in_line_def Let_def)
qed

lemma joining:
  assumes "in_line n (QueueLock q h) s" "i < n" "lc_top (ls_cpu s i) = Masked was"
    and "t = \<lparr>ls_lock = (ls_lock s)\<lparr>lk_next := lk_next (ls_lock s) + 1\<rparr>,
      ls_cpu = (ls_cpu s)(i := (ls_cpu s i)\<lparr>lc_top := Queued was (lk_next (ls_lock s))\<rparr>)\<rparr>"
  shows "i \<notin> set q \<and> in_line n (QueueLock (q @ [i]) h) t"
proof
  note d = in_lineD [OF assms(1)]
  show i: "i \<notin> set q"
  proof
    assume "i \<in> set q"
    with assms(1) show False by (rule in_the_line) (use assms(3) in simp_all)
  qed
  have "\<exists>was. lc_top (ls_cpu t ((q @ [i]) ! k)) =
      (if k = 0 \<and> h then Guard was else Queued was (lk_serving (ls_lock t) + word_of_nat k))"
    if k: "k < length (q @ [i])" for k
  proof (cases "k < length q")
    case True
    then have "q ! k \<noteq> i" using i nth_mem by blast
    with True have "lc_top (ls_cpu t ((q @ [i]) ! k)) = lc_top (ls_cpu s (q ! k))"
      "lk_serving (ls_lock t) = lk_serving (ls_lock s)" by (simp_all add: nth_append assms(4))
    with d(5) [OF True] show ?thesis by (simp only:)
  next
    case False
    then have "k = length q" using k by simp
    then show ?thesis using d(3,4) by (auto simp: nth_append assms(4))
  qed
  then show "in_line n (QueueLock (q @ [i]) h) t"
    using d i assms(2) unfolding in_line_def Let_def by (auto simp: assms(4))
qed

lemma going_in:
  assumes "in_line n (QueueLock q h) s" "n < 2 ^ 32" "lc_top (ls_cpu s i) = Queued was (lk_serving (ls_lock s))"
    and "t = s\<lparr>ls_cpu := (ls_cpu s)(i := (ls_cpu s i)\<lparr>lc_top := Guard was\<rparr>)\<rparr>"
  shows "\<exists>r. q = i # r \<and> \<not> h \<and> in_line n (QueueLock q True) t"
proof -
  note d = in_lineD [OF assms(1)]
  have "i \<in> set q" using d(6) [of i] assms(3) by auto
  with assms(1) obtain k w where k: "k < length q" "q ! k = i" "k \<noteq> 0 \<or> \<not> h"
    "lc_top (ls_cpu s i) = Queued w (lk_serving (ls_lock s) + word_of_nat k)"
    by (rule in_the_line) (use assms(3) in simp_all)
  have "(word_of_nat k :: u32) = 0" using k(4) assms(3) by simp
  moreover have "k < 2 ^ 32" using k(1) line_short [OF assms(1)] assms(2) by simp
  ultimately have "k = 0" using unat_word_of_nat_small [where 'a = 32, of k] by simp
  then have h: "\<not> h" and hd: "q ! 0 = i" using k by simp_all
  have "\<exists>was. lc_top (ls_cpu t (q ! j)) =
      (if j = 0 \<and> True then Guard was else Queued was (lk_serving (ls_lock t) + word_of_nat j))"
    if j: "j < length q" for j
  proof (cases "j = 0")
    case True
    then show ?thesis using hd by (auto simp: assms(4))
  next
    case False
    then have "q ! j \<noteq> i" using d(1) hd j k(1) \<open>k = 0\<close> nth_eq_iff_index_eq by metis
    with False d(5) [OF j] h show ?thesis by (simp add: assms(4))
  qed
  moreover have "lc_top (ls_cpu t j) \<in> {Outside} \<union> range Masked \<union> range Leaving" if "j \<notin> set q" for j
    using d(6) [OF that] that \<open>i \<in> set q\<close> by (auto simp: assms(4))
  moreover have "q \<noteq> []" "lk_next (ls_lock t) = lk_serving (ls_lock t) + word_of_nat (length q)"
    using d(4) k(1) by (auto simp: assms(4))
  ultimately have "in_line n (QueueLock q True) t" using d(1,2) by (intro in_lineI) auto
  moreover obtain r where "q = i # r" using hd k(1) by (cases q) auto
  ultimately show ?thesis using h by blast
qed

lemma leaving:
  assumes "in_line n (QueueLock q h) s" "lc_top (ls_cpu s i) = Guard was"
    and "t = \<lparr>ls_lock = serving_fetch_add (ls_lock s),
      ls_cpu = (ls_cpu s)(i := (ls_cpu s i)\<lparr>lc_top := Leaving was\<rparr>)\<rparr>"
  shows "\<exists>r. q = i # r \<and> h \<and> in_line n (QueueLock r False) t"
proof -
  note d = in_lineD [OF assms(1)]
  have "i \<in> set q" using d(6) [of i] assms(2) by auto
  with assms(1) obtain k w where k: "k < length q" "q ! k = i" "k = 0" "h"
    by (rule in_the_line) (use assms(2) in simp_all)
  then obtain r where r: "q = i # r" by (cases q) auto
  have "\<exists>was. lc_top (ls_cpu t (r ! j)) = Queued was (lk_serving (ls_lock t) + word_of_nat j)"
    if j: "j < length r" for j
  proof -
    have "r ! j \<noteq> i" using d(1) r j nth_mem by fastforce
    moreover have "\<exists>was. lc_top (ls_cpu s (r ! j)) = Queued was (lk_serving (ls_lock s) + word_of_nat (Suc j))"
      using d(5) [of "Suc j"] r j by simp
    ultimately show ?thesis by (simp add: assms(3) serving_fetch_add_def add.assoc)
  qed
  moreover have "lc_top (ls_cpu t j) \<in> {Outside} \<union> range Masked \<union> range Leaving" if "j \<notin> set r" for j
    using d(6) [of j] that r by (auto simp: assms(3))
  moreover have "lk_next (ls_lock t) = lk_serving (ls_lock t) + word_of_nat (length r)"
    using d(4) r by (simp add: assms(3) serving_fetch_add_def add.assoc)
  ultimately have "in_line n (QueueLock r False) t" using d(1,2) r by (auto simp: in_line_def Let_def)
  with r k(4) show ?thesis by blast
qed

lemma lock_step_queue:
  assumes "lock_step e s = Some t" "event_cpu e < n" "n < 2 ^ 32" "masked_inside s" "in_line n a s"
  shows "\<exists>b. queue_step (event_cpu e) a b \<and> in_line n b t"
proof -
  obtain q h where a: "a = QueueLock q h" by (cases a)
  define i where "i = event_cpu e"
  have inl: "in_line n (QueueLock q h) s" using assms(5) by (simp add: a)
  have out: "i \<notin> set q" if "lc_top (ls_cpu s i) \<in> {Outside} \<union> range Masked \<union> range Leaving"
  proof
    assume "i \<in> set q"
    with inl show False by (rule in_the_line) (use that in auto)
  qed
  have stay: "\<exists>b. queue_step i a b \<and> in_line n b t"
    if "lc_top (ls_cpu s i) \<in> {Outside} \<union> range Masked \<union> range Leaving" "ls_lock t = ls_lock s"
      "\<And>j. j \<noteq> i \<Longrightarrow> lc_top (ls_cpu t j) = lc_top (ls_cpu s j)"
      "lc_top (ls_cpu t i) \<in> {Outside} \<union> range Masked \<union> range Leaving"
  proof -
    have "i \<notin> set (waiting_line a)" using out [OF that(1)] by (simp add: a)
    then have "in_line n a t" by (rule in_line_other [OF assms(5)]) (use that in simp_all)
    with queue_step.stays show ?thesis by blast
  qed
  have m: "lc_if (ls_cpu s i) \<Longrightarrow> lc_top (ls_cpu s i) = Outside" "p \<in> set (lc_below (ls_cpu s i)) \<Longrightarrow> p = Outside" for p
    using masked_insideD [OF assms(4)] by blast+
  show ?thesis unfolding i_def [symmetric]
  proof (cases e)
    case (LockMoves j)
    then have j: "i = j" by (simp add: i_def)
    show "\<exists>b. queue_step i a b \<and> in_line n b t"
    proof (cases "lc_top (ls_cpu s i)")
      case Outside
      with assms(1) LockMoves j show ?thesis by (intro stay) (auto simp: lock_step_def irq_save_def)
    next
      case (Masked was)
      from joining [OF inl _ Masked, of t] assms(1,2) LockMoves j Masked have
        "i \<notin> set q \<and> in_line n (QueueLock (q @ [i]) h) t" by (auto simp: lock_step_def next_fetch_add_def)
      then show ?thesis by (auto simp: a intro: queue_step.joins)
    next
      case (Queued was tk)
      show ?thesis
      proof (cases "lk_serving (ls_lock s) = tk")
        case True
        then have "t = s\<lparr>ls_cpu := (ls_cpu s)(i := (ls_cpu s i)\<lparr>lc_top := Guard was\<rparr>)\<rparr>"
          using assms(1) LockMoves j Queued by (auto simp: lock_step_def)
        from going_in [OF inl assms(3) _ this] Queued True show ?thesis by (auto simp: a intro: queue_step.goes_in)
      next
        case False
        then have "t = s" using assms(1) LockMoves j Queued by (auto simp: lock_step_def)
        then show ?thesis using assms(5) queue_step.stays by blast
      qed
    next
      case (Guard was)
      then have "t = \<lparr>ls_lock = serving_fetch_add (ls_lock s),
          ls_cpu = (ls_cpu s)(i := (ls_cpu s i)\<lparr>lc_top := Leaving was\<rparr>)\<rparr>"
        using assms(1) LockMoves j by (auto simp: lock_step_def)
      from leaving [OF inl Guard this] obtain r where "q = i # r" "h" "in_line n (QueueLock r False) t" by blast
      then show ?thesis unfolding a using queue_step.leaves [of i r] by (intro exI [of _ "QueueLock r False"]) simp
    next
      case (Leaving was)
      with assms(1) LockMoves j show ?thesis by (intro stay) (auto simp: lock_step_def irq_restore_def split: if_splits)
    qed
  next
    case (Interrupted j)
    then have "i = j" by (simp add: i_def)
    with assms(1) Interrupted m show "\<exists>b. queue_step i a b \<and> in_line n b t"
      by (intro stay) (auto simp: lock_step_def Let_def split: if_splits)
  next
    case (InterruptReturns j)
    then have j: "i = j" by (simp add: i_def)
    with assms(1) InterruptReturns obtain p ps where r: "lc_below (ls_cpu s i) = p # ps" "lc_top (ls_cpu s i) = Outside"
      "t = s\<lparr>ls_cpu := (ls_cpu s)(i := \<lparr>lc_if = True, lc_top = p, lc_below = ps\<rparr>)\<rparr>"
      by (auto simp: lock_step_def Let_def split: if_splits list.splits)
    have "p = Outside" using m(2) [of p] r(1) by simp
    then show "\<exists>b. queue_step i a b \<and> in_line n b t" by (intro stay) (simp_all add: r)
  next
    case (SetsFlag j b)
    then have "i = j" by (simp add: i_def)
    with assms(1) SetsFlag show "\<exists>b. queue_step i a b \<and> in_line n b t"
      by (intro stay) (auto simp: lock_step_def Let_def split: if_splits)
  qed
qed

lemma locking_invariant:
  assumes "locking n s" "n < 2 ^ 32"
  shows "masked_inside s \<and> (\<exists>a. in_line n a s)"
  using assms(1)
proof (induction rule: locking.induct)
  case locking_start
  have "in_line n (QueueLock [] False) \<lparr>ls_lock = lock_new, ls_cpu = idle_cpus\<rparr>"
    by (intro in_lineI) (simp_all add: lock_new_def idle_cpus_def)
  moreover have "masked_inside \<lparr>ls_lock = lock_new, ls_cpu = idle_cpus\<rparr>"
    by (simp add: masked_inside_def masked_cpu_def idle_cpus_def)
  ultimately show ?case by blast
next
  case (locking_step s e t)
  then show ?case using masked_step lock_step_queue [OF _ _ assms(2)] by blast
qed

section \<open>What it gives\<close>

text \<open>C26: the ticket lock is a first-come-first-served queue. On fewer than \<open>2 ^ 32\<close> cores, in any reachable
  state the cores that wait or hold stand in one line, in the order they took their tickets, and every
  step anyone takes is a step of that queue: joining at its end, its head going in, its head leaving, or
  nothing; also across the wrap of the ticket counters.\<close>

theorem ticket_lock_is_queue:
  assumes "locking n s" "n < 2 ^ 32"
  shows "\<exists>a. in_line n a s \<and> (\<forall>e t. event_cpu e < n \<longrightarrow> lock_step e s = Some t \<longrightarrow>
    (\<exists>b. queue_step (event_cpu e) a b \<and> in_line n b t))"
  using locking_invariant [OF assms] lock_step_queue [OF _ _ assms(2)] by blast

text \<open>C27: at most one core holds the lock, and a core that waits for it or holds it cannot be interrupted:
  its interrupts are masked, no interrupted context is inside the lock, handlers are never interrupted
  in turn, and no release inside a handler turns interrupts on.\<close>

theorem lock_exclusive:
  assumes "locking n s" "n < 2 ^ 32"
  shows "(\<forall>i j v w. lc_top (ls_cpu s i) = Guard v \<longrightarrow> lc_top (ls_cpu s j) = Guard w \<longrightarrow> i = j) \<and>
    (\<forall>i. lc_top (ls_cpu s i) \<noteq> Outside \<longrightarrow> lock_step (Interrupted i) s = None) \<and>
    (\<forall>i. lc_below (ls_cpu s i) \<noteq> [] \<longrightarrow> lc_below (ls_cpu s i) = [Outside] \<and> \<not> lc_if (ls_cpu s i))"
proof -
  obtain q h where m: "masked_inside s" and q: "in_line n (QueueLock q h) s"
    using locking_invariant [OF assms] by (metis queue_lock.exhaust)
  have first: "0 < length q \<and> q ! 0 = i" if "lc_top (ls_cpu s i) = Guard v" for i v
  proof -
    have "i \<in> set q" using in_lineD(6) [OF q, of i] that by auto
    with q show ?thesis by (rule in_the_line) (use that in auto)
  qed
  then have "i = j" if "lc_top (ls_cpu s i) = Guard v" "lc_top (ls_cpu s j) = Guard w" for i j v w
    using that by metis
  moreover have "lock_step (Interrupted i) s = None" if "lc_top (ls_cpu s i) \<noteq> Outside" for i
    using masked_insideD(1) [OF m that] by (simp add: lock_step_def Let_def)
  moreover have "lc_below (ls_cpu s i) = [Outside] \<and> \<not> lc_if (ls_cpu s i)" if "lc_below (ls_cpu s i) \<noteq> []" for i
    by (rule masked_insideD(2) [OF m that])
  ultimately show ?thesis by blast
qed

text \<open>C28: nobody waits for ever on a lock that is free, and no core waits for itself. While any core is
  waiting, some core, which no interrupt can take away, holds the lock or gets it at its very next
  look.\<close>

theorem lock_never_stuck:
  assumes "locking n s" "n < 2 ^ 32" "lc_top (ls_cpu s i) = Queued was tk"
  shows "\<exists>j v. j < n \<and> lock_step (Interrupted j) s = None \<and> (lc_top (ls_cpu s j) = Guard v \<and> j \<noteq> i \<or>
    (\<exists>t. lock_step (LockMoves j) s = Some t \<and> lc_top (ls_cpu t j) = Guard v))"
proof -
  obtain q h where m: "masked_inside s" and q: "in_line n (QueueLock q h) s"
    using locking_invariant [OF assms(1,2)] by (metis queue_lock.exhaust)
  have "i \<in> set q" using in_lineD(6) [OF q, of i] assms(3) by auto
  then have ne: "0 < length q" by (cases q) auto
  define j where "j = q ! 0"
  have "j < n" using in_lineD(2) [OF q] nth_mem [OF ne] by (auto simp: j_def)
  obtain v where v: "lc_top (ls_cpu s j) = (if h then Guard v else Queued v (lk_serving (ls_lock s)))"
    using in_lineD(5) [OF q ne] by (auto simp: j_def)
  have "lc_top (ls_cpu s j) \<noteq> Outside" using v by (simp split: if_splits)
  then have "lock_step (Interrupted j) s = None"
    using masked_insideD(1) [OF m] by (simp add: lock_step_def Let_def)
  moreover have "lc_top (ls_cpu s j) = Guard v \<and> j \<noteq> i \<or>
      (\<exists>t. lock_step (LockMoves j) s = Some t \<and> lc_top (ls_cpu t j) = Guard v)"
    using v assms(3) by (cases h) (auto simp: lock_step_def)
  ultimately show ?thesis using \<open>j < n\<close> by blast
qed

text \<open>Two cores: the first gets the lock, is waited for, and hands it over.\<close>

fun lock_run :: "lock_event list \<Rightarrow> lock_state \<Rightarrow> lock_state option" where
  "lock_run [] s = Some s"
| "lock_run (e # es) s = Option.bind (lock_step e s) (lock_run es)"

lemma locking_run: "locking n s \<Longrightarrow> \<forall>e \<in> set es. event_cpu e < n \<Longrightarrow> lock_run es s = Some t \<Longrightarrow> locking n t"
  by (induction es arbitrary: s) (auto simp: bind_eq_Some_conv intro: locking_step)

lemma two_queue: "\<exists>s. locking 2 s \<and> lc_top (ls_cpu s 0) = Guard True \<and> lc_top (ls_cpu s 1) = Queued False 1"
proof -
  let ?e = "[SetsFlag 0 True, LockMoves 0, LockMoves 0, LockMoves 1, LockMoves 0, LockMoves 1, LockMoves 1]"
  obtain s where s: "lock_run ?e \<lparr>ls_lock = lock_new, ls_cpu = idle_cpus\<rparr> = Some s"
    "lc_top (ls_cpu s 0) = Guard True" "lc_top (ls_cpu s 1) = Queued False 1"
    by (simp add: lock_step_def lock_new_def idle_cpus_def irq_save_def next_fetch_add_def Let_def)
  have "\<forall>e \<in> set ?e. event_cpu e < 2" by simp
  from locking_run [OF locking_start this s(1)] s show ?thesis by blast
qed

theorem ticket_lock_is_queue_witness: "\<exists>s a. locking 2 s \<and> in_line 2 a s \<and> lc_top (ls_cpu s 0) = Guard True"
proof -
  obtain s where s: "locking 2 s" "lc_top (ls_cpu s 0) = Guard True" using two_queue by blast
  from ticket_lock_is_queue [OF s(1)] s show ?thesis by auto
qed

theorem lock_exclusive_witness:
  "\<exists>s. locking 2 s \<and> lc_top (ls_cpu s 0) = Guard True \<and> lock_step (Interrupted 0) s = None"
proof -
  obtain s where s: "locking 2 s" "lc_top (ls_cpu s 0) = Guard True" using two_queue by blast
  have "lc_top (ls_cpu s 0) \<noteq> Outside" by (simp add: s(2))
  with lock_exclusive [OF s(1)] s show ?thesis by auto
qed

theorem lock_never_stuck_witness:
  "\<exists>s j. locking 2 s \<and> lc_top (ls_cpu s 1) = Queued False 1 \<and> lock_step (Interrupted j) s = None"
proof -
  obtain s where s: "locking 2 s" "lc_top (ls_cpu s 1) = Queued False 1" using two_queue by blast
  from lock_never_stuck [OF s(1) _ s(2)] s show ?thesis by auto
qed

end
