(* ===== verification/Descriptors.thy ===== *)
theory Descriptors imports Device Bytes begin

text \<open>
  The tables the processor consults when privilege changes: segment descriptors, the task state
  segment and its selectors (\<open>crates/arch-x86_64/src/gdt.rs\<close>), the interrupt descriptor table
  (\<open>idt.rs\<close>), and the registers behind \<open>syscall\<close> (\<open>syscall.rs\<close>). Where the linker puts the tables and
  the stacks is the argument \<open>tables_at\<close>; what the processor reads back out of them is at the end.
\<close>

section \<open>Segments\<close>

definition KERNEL_CODE :: u16 where "KERNEL_CODE = 0x08"
definition KERNEL_DATA :: u16 where "KERNEL_DATA = 0x10"
definition USER_CODE32 :: u16 where "USER_CODE32 = 0x18 OR 3"
definition USER_DATA :: u16 where "USER_DATA = 0x20 OR 3"
definition USER_CODE :: u16 where "USER_CODE = 0x28 OR 3"
definition TSS_SELECTOR :: u16 where "TSS_SELECTOR = 0x30"

definition IST_DOUBLE_FAULT :: u8 where "IST_DOUBLE_FAULT = 1"
definition IST_NMI :: u8 where "IST_NMI = 2"
definition IST_MACHINE_CHECK :: u8 where "IST_MACHINE_CHECK = 3"

definition IST_STACK_SIZE :: u64 where "IST_STACK_SIZE = 16 * 1024"
definition GDT_SLOTS :: nat where "GDT_SLOTS = 8"

definition segment_desc :: "u8 \<Rightarrow> u8 \<Rightarrow> u64" where
  "segment_desc access flags =
     (let LIMIT = 0xFFFFF in
      (LIMIT AND 0xFFFF) OR push_bit 40 (ucast access) OR push_bit 48 (drop_bit 16 LIMIT AND 0xF)
        OR push_bit 52 (ucast flags AND 0xF))"

definition KERNEL_CODE_DESC :: u64 where "KERNEL_CODE_DESC = segment_desc 0x9A 0xA"
definition KERNEL_DATA_DESC :: u64 where "KERNEL_DATA_DESC = segment_desc 0x92 0xC"
definition USER_CODE32_DESC :: u64 where "USER_CODE32_DESC = segment_desc 0xFA 0xC"
definition USER_DATA_DESC :: u64 where "USER_DATA_DESC = segment_desc 0xF2 0xC"
definition USER_CODE_DESC :: u64 where "USER_CODE_DESC = segment_desc 0xFA 0xA"

definition tss_descriptor :: "u64 \<Rightarrow> u32 \<Rightarrow> u64 \<times> u64" where
  "tss_descriptor base limit =
     (let l = ucast limit;
          low = (l AND 0xFFFF) OR push_bit 16 (base AND 0x00FFFFFF) OR push_bit 40 0x89
            OR push_bit 48 (drop_bit 16 l AND 0xF) OR push_bit 56 (drop_bit 24 base AND 0xFF)
      in (low, drop_bit 32 base))"

section \<open>The task state segment\<close>

record tss =
  reserved0 :: u32
  privilege_stacks :: "u64 list"
  reserved1 :: u64
  interrupt_stacks :: "u64 list"
  reserved2 :: u64
  reserved3 :: u16
  iomap_base :: u16

definition tss_new :: tss where
  "tss_new = \<lparr>reserved0 = 0, privilege_stacks = [0, 0, 0], reserved1 = 0,
     interrupt_stacks = [0, 0, 0, 0, 0, 0, 0], reserved2 = 0, reserved3 = 0, iomap_base = 0\<rparr>"

text \<open>The fields in order and packed.\<close>

definition tss_bytes :: "tss \<Rightarrow> u8 list" where
  "tss_bytes t =
     to_le 4 (unat (reserved0 t)) @ concat (map (\<lambda>w. to_le 8 (unat w)) (privilege_stacks t))
     @ to_le 8 (unat (reserved1 t)) @ concat (map (\<lambda>w. to_le 8 (unat w)) (interrupt_stacks t))
     @ to_le 8 (unat (reserved2 t)) @ to_le 2 (unat (reserved3 t))
     @ to_le 2 (unat (iomap_base t))"

section \<open>The interrupt descriptor table\<close>

definition VECTORS :: nat where "VECTORS = 256"
definition GATE_INTERRUPT :: u8 where "GATE_INTERRUPT = 0x8E"

record gate =
  offset_low :: u16
  gate_selector :: u16
  gate_ist :: u8
  gate_flags :: u8
  offset_mid :: u16
  offset_high :: u32
  gate_reserved :: u32

definition gate_empty :: gate where
  "gate_empty = \<lparr>offset_low = 0, gate_selector = 0, gate_ist = 0, gate_flags = 0, offset_mid = 0,
     offset_high = 0, gate_reserved = 0\<rparr>"

definition interrupt_gate :: "u64 \<Rightarrow> u8 \<Rightarrow> gate" where
  "interrupt_gate handler ist = \<lparr>
     offset_low = ucast handler, gate_selector = KERNEL_CODE, gate_ist = ist AND 7,
     gate_flags = GATE_INTERRUPT, offset_mid = ucast (drop_bit 16 handler),
     offset_high = ucast (drop_bit 32 handler), gate_reserved = 0\<rparr>"

definition gate_handler :: "gate \<Rightarrow> u64" where
  "gate_handler e = ucast (offset_low e) OR push_bit 16 (ucast (offset_mid e)) OR push_bit 32 (ucast (offset_high e))"

definition gate_stack :: "gate \<Rightarrow> u8" where
  "gate_stack e = gate_ist e AND 7"

definition ist_for :: "nat \<Rightarrow> u8" where
  "ist_for vector =
     (if vector = 8 then IST_DOUBLE_FAULT
      else if vector = 2 then IST_NMI
      else if vector = 18 then IST_MACHINE_CHECK
      else 0)"

definition gate_bytes :: "gate \<Rightarrow> u8 list" where
  "gate_bytes e = to_le 2 (unat (offset_low e)) @ to_le 2 (unat (gate_selector e)) @ [gate_ist e, gate_flags e]
     @ to_le 2 (unat (offset_mid e)) @ to_le 4 (unat (offset_high e)) @ to_le 4 (unat (gate_reserved e))"

section \<open>Installing them\<close>

text \<open>Where the linker put the statics, and the stubs of \<open>trap::stub_table\<close>.\<close>

record tables_at =
  at_gdt :: u64
  at_tss :: u64
  at_idt :: u64
  at_double_fault :: u64
  at_nmi :: u64
  at_machine_check :: u64
  at_stubs :: "u64 list"

record table_pointer =
  dt_limit :: u16
  dt_base :: u64

text \<open>The statics, and what \<open>lgdt\<close>, \<open>lidt\<close>, \<open>ltr\<close> and \<open>reload_segments\<close> loaded.\<close>

record cpu_tables =
  ct_tss :: tss
  ct_gdt :: "u64 list"
  ct_idt :: "gate list"
  ct_gdtr :: "table_pointer option"
  ct_idtr :: "table_pointer option"
  ct_tr :: u16
  ct_code :: u16
  ct_data :: u16

definition ist_top :: "u64 \<Rightarrow> u64 run" where
  "ist_top stack = add_run stack IST_STACK_SIZE"

definition reload_segments :: "cpu_tables \<Rightarrow> cpu_tables" where
  "reload_segments c = c\<lparr>ct_code := KERNEL_CODE, ct_data := KERNEL_DATA\<rparr>"

definition gdt_install :: "tables_at \<Rightarrow> cpu_tables \<Rightarrow> cpu_tables run" where
  "gdt_install ta c =
     bind_run (ist_top (at_double_fault ta)) (\<lambda>df.
     bind_run (ist_top (at_nmi ta)) (\<lambda>nmi.
     bind_run (ist_top (at_machine_check ta)) (\<lambda>mc.
     let t = (ct_tss c)\<lparr>interrupt_stacks := (interrupt_stacks (ct_tss c))
               [unat IST_DOUBLE_FAULT - 1 := df, unat IST_NMI - 1 := nmi, unat IST_MACHINE_CHECK - 1 := mc],
             iomap_base := word_of_nat (length (tss_bytes (ct_tss c)))\<rparr>;
         (low, high) = tss_descriptor (at_tss ta) (word_of_nat (length (tss_bytes t) - 1));
         table = [0, KERNEL_CODE_DESC, KERNEL_DATA_DESC, USER_CODE32_DESC, USER_DATA_DESC, USER_CODE_DESC, low, high]
     in Done ((reload_segments (c\<lparr>ct_tss := t, ct_gdt := table,
          ct_gdtr := Some \<lparr>dt_limit = word_of_nat (8 * GDT_SLOTS - 1), dt_base = at_gdt ta\<rparr>\<rparr>))
          \<lparr>ct_tr := TSS_SELECTOR\<rparr>))))"

definition idt_install :: "tables_at \<Rightarrow> cpu_tables \<Rightarrow> cpu_tables" where
  "idt_install ta c =
     c\<lparr>ct_idt := map (\<lambda>v. interrupt_gate (at_stubs ta ! v) (ist_for v)) [0..<length (at_stubs ta)],
       ct_idtr := Some \<lparr>dt_limit = word_of_nat (16 * VECTORS - 1), dt_base = at_idt ta\<rparr>\<rparr>"

definition set_privilege_stack :: "u64 \<Rightarrow> cpu_tables \<Rightarrow> cpu_tables" where
  "set_privilege_stack rsp c = c\<lparr>ct_tss := (ct_tss c)\<lparr>privilege_stacks := (privilege_stacks (ct_tss c))[0 := rsp]\<rparr>\<rparr>"

definition privilege_stack :: "cpu_tables \<Rightarrow> u64" where
  "privilege_stack c = privilege_stacks (ct_tss c) ! 0"

text \<open>\<open>traps::init\<close>.\<close>

definition traps_init :: "tables_at \<Rightarrow> cpu_tables \<Rightarrow> cpu_tables run" where
  "traps_init ta c = bind_run (gdt_install ta c) (\<lambda>d. Done (idt_install ta d))"

section \<open>The registers behind \<open>syscall\<close>\<close>

definition IA32_EFER :: u32 where "IA32_EFER = 0xC0000080"
definition EFER_SCE :: u64 where "EFER_SCE = 1"
definition IA32_STAR :: u32 where "IA32_STAR = 0xC0000081"
definition IA32_LSTAR :: u32 where "IA32_LSTAR = 0xC0000082"
definition IA32_FMASK :: u32 where "IA32_FMASK = 0xC0000084"
definition IA32_GS_BASE :: u32 where "IA32_GS_BASE = 0xC0000101"
definition IA32_KERNEL_GS_BASE :: u32 where "IA32_KERNEL_GS_BASE = 0xC0000102"

definition RFLAGS_TF :: u64 where "RFLAGS_TF = push_bit 8 1"
definition RFLAGS_IF :: u64 where "RFLAGS_IF = push_bit 9 1"
definition RFLAGS_DF :: u64 where "RFLAGS_DF = push_bit 10 1"
definition RFLAGS_NT :: u64 where "RFLAGS_NT = push_bit 14 1"
definition RFLAGS_RF :: u64 where "RFLAGS_RF = push_bit 16 1"
definition RFLAGS_AC :: u64 where "RFLAGS_AC = push_bit 18 1"

definition FMASK :: u64 where
  "FMASK = RFLAGS_TF OR RFLAGS_IF OR RFLAGS_DF OR RFLAGS_NT OR RFLAGS_RF OR RFLAGS_AC"

definition star_value :: "u16 \<Rightarrow> u16 \<Rightarrow> u64" where
  "star_value kernel_base user_base = push_bit 48 (ucast user_base) OR push_bit 32 (ucast kernel_base)"

definition syscall_cs :: "u64 \<Rightarrow> u16" where
  "syscall_cs star = ucast (drop_bit 32 star AND 0xFFFF)"

definition syscall_ss :: "u64 \<Rightarrow> u16" where
  "syscall_ss star = syscall_cs star + 8"

definition sysret_cs :: "u64 \<Rightarrow> u16" where
  "sysret_cs star = (ucast (drop_bit 48 star AND 0xFFFF) + 16) OR 3"

definition sysret_ss :: "u64 \<Rightarrow> u16" where
  "sysret_ss star = (ucast (drop_bit 48 star AND 0xFFFF) + 8) OR 3"

definition kernel_star :: u64 where
  "kernel_star = star_value KERNEL_CODE (USER_CODE32 AND NOT 3)"

text \<open>\<open>syscall::init\<close>: the core's own slot of \<open>PERCPU\<close>, then the registers. \<open>entry\<close> is the stub's
  address, \<open>percpu\<close> the array's.\<close>

record syscall_regs =
  sr_log :: history
  sr_index :: "nat \<Rightarrow> u64"

definition PERCPU_BYTES :: nat where "PERCPU_BYTES = 24"

definition CPU_SLOTS :: nat where "CPU_SLOTS = 32"

definition on_regs :: "(history, 'a) act \<Rightarrow> (syscall_regs, 'a) act" where
  "on_regs = on_part sr_log (\<lambda>h s. s\<lparr>sr_log := h\<rparr>)"

definition syscall_init :: "machine \<Rightarrow> u64 \<Rightarrow> u64 \<Rightarrow> nat \<Rightarrow> (syscall_regs, unit) act" where
  "syscall_init hw entry percpu cpu =
     (let index = min cpu (CPU_SLOTS - 1) in
      seq_act (\<lambda>s. Some (Done ((), s\<lparr>sr_index := (sr_index s)(index := word_of_nat index)\<rparr>)))
      (seq_act (on_regs (write_msr IA32_STAR kernel_star))
      (seq_act (on_regs (write_msr IA32_LSTAR entry))
      (seq_act (on_regs (write_msr IA32_FMASK FMASK))
      (seq_act (on_regs (write_msr IA32_GS_BASE 0))
      (seq_act (on_regs (write_msr IA32_KERNEL_GS_BASE (percpu + word_of_nat (PERCPU_BYTES * index))))
      (bind_act (on_regs (read_msr hw IA32_EFER)) (\<lambda>efer.
       on_regs (write_msr IA32_EFER (efer OR EFER_SCE))))))))))"

definition syscall_is_enabled :: "machine \<Rightarrow> (syscall_regs, bool) act" where
  "syscall_is_enabled hw = bind_act (on_regs (read_msr hw IA32_EFER)) (\<lambda>v. ret (v AND EFER_SCE \<noteq> 0))"

section \<open>What the processor reads\<close>

text \<open>The architecture's side: a gate by its vector, a stack of the task state segment by its slot, a
  segment by its selector, and the base and limit of the task state segment.\<close>

definition cpu_gate :: "u8 list \<Rightarrow> nat \<Rightarrow> nat \<times> nat \<times> nat \<times> nat" where
  "cpu_gate table v =
     (let g = slice (16 * v) 16 table in
      (from_le (slice 0 2 g @ slice 6 2 g @ slice 8 4 g), from_le (slice 2 2 g),
       from_le (slice 4 1 g) mod 8, from_le (slice 5 1 g)))"

definition cpu_ist :: "u8 list \<Rightarrow> nat \<Rightarrow> nat" where
  "cpu_ist seg n = from_le (slice (36 + 8 * (n - 1)) 8 seg)"

definition cpu_rsp0 :: "u8 list \<Rightarrow> nat" where
  "cpu_rsp0 seg = from_le (slice 4 8 seg)"

record seg_view =
  sv_present :: bool
  sv_dpl :: nat
  sv_code :: bool
  sv_long :: bool
  sv_default :: bool

definition cpu_segment :: "u64 list \<Rightarrow> u16 \<Rightarrow> seg_view" where
  "cpu_segment table sel =
     (let d = table ! unat (drop_bit 3 sel) in
      \<lparr>sv_present = bit d 47, sv_dpl = unat (drop_bit 45 d AND 3), sv_code = bit d 43,
       sv_long = bit d 53, sv_default = bit d 54\<rparr>)"

definition cpu_tss :: "u64 list \<Rightarrow> u16 \<Rightarrow> u64 \<times> u64" where
  "cpu_tss table sel =
     (let low = table ! unat (drop_bit 3 sel); high = table ! (unat (drop_bit 3 sel) + 1) in
      ((drop_bit 16 low AND 0xFFFFFF) OR push_bit 24 (drop_bit 56 low) OR push_bit 32 high,
       (low AND 0xFFFF) OR push_bit 16 (drop_bit 48 low AND 0xF)))"

end
