(* ===== verification/DescriptorsProps.thy ===== *)
theory DescriptorsProps imports Descriptors begin

text \<open>
  That what the processor reads back is what the kernel meant: every vector reaches its own handler in
  ring 0, on a stack of its own where one is due, and \<open>syscall\<close> and \<open>sysret\<close> load selectors of the
  right ring.
\<close>

named_theorems desc_defs \<open>selectors and descriptors\<close>

declare KERNEL_CODE_def [desc_defs] KERNEL_DATA_def [desc_defs] USER_CODE32_def [desc_defs]
  USER_DATA_def [desc_defs] USER_CODE_def [desc_defs] TSS_SELECTOR_def [desc_defs]
  KERNEL_CODE_DESC_def [desc_defs] KERNEL_DATA_DESC_def [desc_defs] USER_CODE32_DESC_def [desc_defs]
  USER_DATA_DESC_def [desc_defs] USER_CODE_DESC_def [desc_defs] segment_desc_def [desc_defs]
  IST_DOUBLE_FAULT_def [desc_defs] IST_NMI_def [desc_defs] IST_MACHINE_CHECK_def [desc_defs]

lemma bind_run_Done: "bind_run x f = Done b \<longleftrightarrow> (\<exists>a. x = Done a \<and> f a = Done b)"
  by (cases x) (simp_all add: bind_run_def)

section \<open>Gates\<close>

lemma length_gate_bytes [simp]: "length (gate_bytes e) = 16" by (simp add: gate_bytes_def)

lemma slice_concat:
  assumes "\<And>x. x \<in> set xs \<Longrightarrow> length x = n" "i < length xs"
  shows "slice (n * i) n (concat xs) = xs ! i"
  using assms
proof (induction xs arbitrary: i)
  case (Cons x xs)
  have x: "length x = n" using Cons.prems(1) by simp
  show ?case
  proof (cases i)
    case 0
    then show ?thesis using x by (simp add: slice_def)
  next
    case (Suc j)
    then have "slice (n * i) n (concat (x # xs)) = slice (n * j) n (concat xs)"
      using x by (simp add: slice_append(2))
    with Cons.IH [of j] Cons.prems Suc show ?thesis by simp
  qed
qed simp

lemma from_le_append: "from_le (xs @ ys) = from_le xs + 256 ^ length xs * from_le ys"
  by (induction xs) (simp_all add: algebra_simps)

lemma gate_parts: "slice 0 2 (gate_bytes e) = to_le 2 (unat (offset_low e))"
    "slice 2 2 (gate_bytes e) = to_le 2 (unat (gate_selector e))"
    "slice 4 (Suc 0) (gate_bytes e) = [gate_ist e]" "slice 5 (Suc 0) (gate_bytes e) = [gate_flags e]"
    "slice 6 2 (gate_bytes e) = to_le 2 (unat (offset_mid e))"
    "slice 8 4 (gate_bytes e) = to_le 4 (unat (offset_high e))"
  by (simp_all add: gate_bytes_def slice_def)

lemma unat_or_shifts:
  fixes a b :: u16 and c :: u32
  shows "unat ((ucast a :: u64) OR push_bit 16 (ucast b) OR push_bit 32 (ucast c)) = unat a + 65536 * unat b + 4294967296 * unat c"
proof -
  have ab: "(ucast a :: u64) OR push_bit 16 (ucast b) = ucast a + push_bit 16 (ucast b)"
    by (rule disjunctive_add [symmetric]) (auto simp: bit_simps dest: bit_imp_le_length)
  have abc: "(ucast a :: u64) OR push_bit 16 (ucast b) OR push_bit 32 (ucast c) =
      (ucast a OR push_bit 16 (ucast b)) + push_bit 32 (ucast c)"
    unfolding or.assoc [symmetric]
    by (rule disjunctive_add [symmetric]) (auto simp: bit_simps dest!: bit_imp_le_length)
  have la: "unat a < 65536" "unat b < 65536" "unat c < 4294967296"
    using unat_less_width [of a] unat_less_width [of b] unat_less_width [of c] by simp_all
  have ub: "unat (push_bit 16 (ucast b) :: u64) = 65536 * unat b" "unat (push_bit 32 (ucast c) :: u64) = 4294967296 * unat c"
    using la by (simp_all add: push_bit_eq_mult unat_mult_lem [THEN iffD1] unat_ucast_u16 unat_ucast_u32)
  have "unat ((ucast a :: u64) + push_bit 16 (ucast b)) = unat a + 65536 * unat b"
    using la ub by (subst unat_add_exact) (simp_all add: unat_ucast_u16)
  then show ?thesis unfolding abc using la ub ab by (subst unat_add_exact) simp_all
qed

lemma gate_handler_interrupt: "gate_handler (interrupt_gate h i) = h"
proof (rule bit_word_eqI)
  fix n
  assume "n < LENGTH(64)"
  then show "bit (gate_handler (interrupt_gate h i)) n = bit h n"
    by (cases "n < 16"; cases "n < 32") (auto simp: gate_handler_def interrupt_gate_def bit_simps)
qed

lemma gate_read_back:
  "gate_handler (interrupt_gate h i) = h \<and> gate_stack (interrupt_gate h i) = i AND 7 \<and>
    cpu_gate (gate_bytes (interrupt_gate h i)) 0 = (unat h, unat KERNEL_CODE, unat (i AND 7), 0x8E)"
proof -
  let ?e = "interrupt_gate h i"
  have "from_le (slice 0 2 (gate_bytes ?e) @ slice 6 2 (gate_bytes ?e) @ slice 8 4 (gate_bytes ?e)) = unat (gate_handler ?e)"
    using unat_less_width [of "offset_low ?e"] unat_less_width [of "offset_mid ?e"] unat_less_width [of "offset_high ?e"]
    by (simp add: gate_parts from_le_append from_to_le gate_handler_def unat_or_shifts)
  moreover have "slice 0 16 (gate_bytes ?e) = gate_bytes ?e" by (simp add: slice_def)
  moreover have "unat (i AND 7) mod 8 = unat (i AND 7)"
    using word_and_le1 [of i 7] by (simp add: word_le_nat_alt)
  moreover have "gate_stack ?e = i AND 7" by (simp add: gate_stack_def interrupt_gate_def and.assoc)
  moreover have "gate_ist ?e = i AND 7" "gate_flags ?e = 0x8E" "gate_selector ?e = KERNEL_CODE"
    by (simp_all add: interrupt_gate_def GATE_INTERRUPT_def)
  ultimately show ?thesis
    by (simp add: cpu_gate_def Let_def gate_handler_interrupt gate_parts from_to_le KERNEL_CODE_def)
qed

text \<open>A gate gives back what went into it, whatever handler and slot were asked for: the handler's
  address is the one stored, also as the processor puts it together from the gate's bytes; the stack is
  the slot modulo eight; and the gate is a present interrupt gate of ring 0 in the kernel's code
  segment.\<close>

theorem gate_roundtrip:
  "gate_handler (interrupt_gate h i) = h \<and> gate_stack (interrupt_gate h i) = i AND 7 \<and>
    cpu_gate (gate_bytes (interrupt_gate h i)) 0 = (unat h, unat KERNEL_CODE, unat (i AND 7), 0x8E)"
  by (rule gate_read_back)

section \<open>Segments and stacks\<close>

lemma length_tss_bytes: "length (tss_bytes t) = 32 + 8 * length (privilege_stacks t) + 8 * length (interrupt_stacks t) - 8"
proof -
  have "length (concat (map (\<lambda>w. to_le 8 (unat w)) xs)) = 8 * length xs" for xs :: "u64 list"
    by (induction xs) simp_all
  then show ?thesis by (simp add: tss_bytes_def)
qed

lemma tss_words:
  assumes "length (privilege_stacks t) = 3" "length (interrupt_stacks t) = 7"
  shows "cpu_rsp0 (tss_bytes t) = unat (privilege_stacks t ! 0)"
    "1 \<le> n \<Longrightarrow> n \<le> 7 \<Longrightarrow> cpu_ist (tss_bytes t) n = unat (interrupt_stacks t ! (n - 1))"
proof -
  let ?w = "\<lambda>xs. concat (map (\<lambda>w :: u64. to_le 8 (unat w)) xs)"
  have len: "length (?w xs) = 8 * length xs" for xs by (induction xs) simp_all
  have at: "slice (8 * i) 8 (?w xs) = to_le 8 (unat (xs ! i))" if "i < length xs" for xs i
  proof -
    have "slice (8 * i) 8 (?w xs) = map (\<lambda>w. to_le 8 (unat w)) xs ! i"
      by (rule slice_concat) (use that in auto)
    with that show ?thesis by simp
  qed
  have val: "from_le (to_le 8 (unat x)) = unat x" for x :: u64
    using unat_less_width [of x] by (simp add: from_to_le)
  have "slice 4 8 (tss_bytes t) = slice (8 * 0) 8 (?w (privilege_stacks t))"
    by (simp add: tss_bytes_def slice_append assms len)
  with at [of 0 "privilege_stacks t"] assms(1) show "cpu_rsp0 (tss_bytes t) = unat (privilege_stacks t ! 0)"
    by (simp add: cpu_rsp0_def val)
  assume n: "1 \<le> n" "n \<le> 7"
  then have "slice (36 + 8 * (n - 1)) 8 (tss_bytes t) = slice (8 * (n - 1)) 8 (?w (interrupt_stacks t))"
    by (simp add: tss_bytes_def slice_append assms len)
  with at [of "n - 1" "interrupt_stacks t"] assms(2) n
  show "cpu_ist (tss_bytes t) n = unat (interrupt_stacks t ! (n - 1))" by (simp add: cpu_ist_def val)
qed

lemma high_bit_off:
  fixes w :: u64
  assumes "unat w < 2 ^ k" "k \<le> n"
  shows "\<not> bit w n"
proof -
  have "unat w < 2 ^ n" using assms by (meson le_less_trans less_le_trans nat_less_le one_le_numeral power_increasing)
  then have "\<not> bit (unat w) n" by (simp add: bit_iff_odd)
  then show ?thesis by (metis bit_imp_le_length bit_unsigned_iff possible_bit_nat)
qed

lemma masks: "(0xFFFFFF :: u64) = mask 24" "(0xFF :: u64) = mask 8" "(0xFFFF :: u64) = mask 16" "(0xF :: u64) = mask 4"
  "(3 :: u64) = mask 2"
  by (simp_all add: mask_eq_exp_minus_1)

lemma tss_low_bits:
  assumes "tss_descriptor base 103 = (low, high)"
  shows "bit low n \<longleftrightarrow> bit (103 :: u64) n \<or> 16 \<le> n \<and> n < 40 \<and> bit base (n - 16) \<or>
    40 \<le> n \<and> bit (0x89 :: u64) (n - 40) \<and> n < 64 \<or> 56 \<le> n \<and> n < 64 \<and> bit base (n - 32)"
    "high = drop_bit 32 base"
proof -
  have l: "(ucast (103 :: u32) :: u64) = 103" "(103 :: u64) AND 0xFFFF = 103" "drop_bit 16 (103 :: u64) AND 0xF = 0" by simp_all
  define lim ty :: u64 where "lim = 103" and "ty = 0x89"
  have low: "low = lim OR push_bit 16 (base AND mask 24) OR push_bit 40 ty OR push_bit 56 (drop_bit 24 base AND mask 8)"
    using assms unfolding ty_def lim_def by (auto simp: tss_descriptor_def Let_def l masks [symmetric])
  have "24 + (n - 56) = n - 32" if "56 \<le> n" using that by simp
  then show "bit low n \<longleftrightarrow> bit (103 :: u64) n \<or> 16 \<le> n \<and> n < 40 \<and> bit base (n - 16) \<or>
    40 \<le> n \<and> bit (0x89 :: u64) (n - 40) \<and> n < 64 \<or> 56 \<le> n \<and> n < 64 \<and> bit base (n - 32)"
    unfolding low lim_def [symmetric] ty_def [symmetric]
    by (cases "n < 16"; cases "n < 40"; cases "n < 56") (auto simp: bit_simps)
  show "high = drop_bit 32 base" using assms by (auto simp: tss_descriptor_def Let_def)
qed

lemma tss_descriptor_read:
  assumes "tss_descriptor base 103 = (low, high)" "t ! 6 = low" "t ! 7 = high"
  shows "cpu_tss t TSS_SELECTOR = (base, 103)" "bit low 47" "unat (drop_bit 45 low AND 3) = 0"
    "drop_bit 40 low AND 0xF = (9 :: u64)"
proof -
  note b = tss_low_bits [OF assms(1)]
  have small: "\<not> bit (103 :: u64) n" if "7 \<le> n" for n by (rule high_bit_off [of _ 7]) (use that in simp_all)
  have type: "\<not> bit (0x89 :: u64) n" if "8 \<le> n" for n by (rule high_bit_off [of _ 8]) (use that in simp_all)
  show "bit low 47" unfolding b by simp
  have "drop_bit 45 low AND mask 2 = 0"
  proof (rule bit_word_eqI)
    fix n assume "n < LENGTH(64)"
    have "n < 2 \<Longrightarrow> n = 0 \<or> n = 1" by auto
    then show "bit (drop_bit 45 low AND mask 2) n = bit 0 n"
      using small by (auto simp: bit_simps b)
  qed
  then show "unat (drop_bit 45 low AND 3) = 0" by (simp only: masks unat_0)
  show "drop_bit 40 low AND 0xF = (9 :: u64)"
  proof (rule bit_word_eqI)
    fix n assume "n < LENGTH(64)"
    have "n < 4 \<Longrightarrow> n = 0 \<or> n = 1 \<or> n = 2 \<or> n = 3" by auto
    then show "bit (drop_bit 40 low AND 0xF) n = bit (9 :: u64) n"
      using small high_bit_off [of 9 4 n] unfolding masks by (cases "n < 4") (auto simp: bit_simps b)
  qed
  have "(drop_bit 16 low AND mask 24) OR push_bit 24 (drop_bit 56 low) OR push_bit 32 high = base"
  proof (rule bit_word_eqI)
    fix n assume "n < LENGTH(64)"
    then show "bit ((drop_bit 16 low AND mask 24) OR push_bit 24 (drop_bit 56 low) OR push_bit 32 high) n = bit base n"
      using small [of "16 + n"] small [of "32 + n"] small [of "24 + n"] type [of "n - 8"]
      by (cases "n < 24"; cases "n < 32") (auto simp: bit_simps b small type)
  qed
  moreover have "(low AND mask 16) OR push_bit 16 (drop_bit 48 low AND mask 4) = (103 :: u64)"
  proof (rule bit_word_eqI)
    fix n assume "n < LENGTH(64)"
    then show "bit ((low AND mask 16) OR push_bit 16 (drop_bit 48 low AND mask 4)) n = bit (103 :: u64) n"
      using small [of n] small [of "32 + n"] type [of "n - 8"] by (cases "n < 16") (auto simp: bit_simps b small type)
  qed
  ultimately show "cpu_tss t TSS_SELECTOR = (base, 103)"
    by (simp add: cpu_tss_def Let_def TSS_SELECTOR_def assms(2,3) masks [symmetric])
qed

section \<open>What traps and system calls find\<close>

definition own_stack :: "tables_at \<Rightarrow> nat \<Rightarrow> u64" where
  "own_stack ta v = (if v = 8 then at_double_fault ta else if v = 2 then at_nmi ta else at_machine_check ta)"

lemma gdt_installed:
  assumes "gdt_install ta c = Done d" "ct_tss c = tss_new"
  shows "interrupt_stacks (ct_tss d) = [at_double_fault ta + IST_STACK_SIZE, at_nmi ta + IST_STACK_SIZE,
      at_machine_check ta + IST_STACK_SIZE, 0, 0, 0, 0]" "privilege_stacks (ct_tss d) = [0, 0, 0]"
    "ct_code d = KERNEL_CODE" "ct_tr d = TSS_SELECTOR" "length (ct_gdt d) = 8"
    "take 6 (ct_gdt d) = [0, KERNEL_CODE_DESC, KERNEL_DATA_DESC, USER_CODE32_DESC, USER_DATA_DESC, USER_CODE_DESC]"
    "(ct_gdt d ! 6, ct_gdt d ! 7) = tss_descriptor (at_tss ta) 103"
    "ct_gdtr d = Some \<lparr>dt_limit = 63, dt_base = at_gdt ta\<rparr>"
    "\<And>a. a \<in> {at_double_fault ta, at_nmi ta, at_machine_check ta} \<Longrightarrow> unat (a + IST_STACK_SIZE) = unat a + 16384"
proof -
  obtain df nmi mc where st: "ist_top (at_double_fault ta) = Done df" "ist_top (at_nmi ta) = Done nmi"
    "ist_top (at_machine_check ta) = Done mc"
    using assms(1) by (auto simp: gdt_install_def bind_run_Done)
  then have tops: "df = at_double_fault ta + IST_STACK_SIZE" "nmi = at_nmi ta + IST_STACK_SIZE"
    "mc = at_machine_check ta + IST_STACK_SIZE" by (simp_all add: ist_top_def add_run_Done)
  obtain low high where t: "tss_descriptor (at_tss ta) 103 = (low, high)" by (cases "tss_descriptor (at_tss ta) 103")
  have len: "length (tss_bytes (tss_new\<lparr>interrupt_stacks := [df, nmi, mc, 0, 0, 0, 0], iomap_base := x\<rparr>)) = 104" for x
    by (simp add: length_tss_bytes tss_new_def)
  have d: "d = (reload_segments (c\<lparr>ct_tss := tss_new\<lparr>interrupt_stacks := [df, nmi, mc, 0, 0, 0, 0], iomap_base := 104\<rparr>,
      ct_gdt := [0, KERNEL_CODE_DESC, KERNEL_DATA_DESC, USER_CODE32_DESC, USER_DATA_DESC, USER_CODE_DESC, low, high],
      ct_gdtr := Some \<lparr>dt_limit = 63, dt_base = at_gdt ta\<rparr>\<rparr>))\<lparr>ct_tr := TSS_SELECTOR\<rparr>"
    using assms st t
    by (simp add: gdt_install_def Let_def length_tss_bytes tss_new_def IST_DOUBLE_FAULT_def IST_NMI_def
      IST_MACHINE_CHECK_def GDT_SLOTS_def)
  show "interrupt_stacks (ct_tss d) = [at_double_fault ta + IST_STACK_SIZE, at_nmi ta + IST_STACK_SIZE,
      at_machine_check ta + IST_STACK_SIZE, 0, 0, 0, 0]" "privilege_stacks (ct_tss d) = [0, 0, 0]"
    "ct_code d = KERNEL_CODE" "ct_tr d = TSS_SELECTOR" "length (ct_gdt d) = 8"
    "take 6 (ct_gdt d) = [0, KERNEL_CODE_DESC, KERNEL_DATA_DESC, USER_CODE32_DESC, USER_DATA_DESC, USER_CODE_DESC]"
    "(ct_gdt d ! 6, ct_gdt d ! 7) = tss_descriptor (at_tss ta) 103"
    "ct_gdtr d = Some \<lparr>dt_limit = 63, dt_base = at_gdt ta\<rparr>"
    by (simp_all add: d reload_segments_def tops tss_new_def t)
  show "\<And>a. a \<in> {at_double_fault ta, at_nmi ta, at_machine_check ta} \<Longrightarrow> unat (a + IST_STACK_SIZE) = unat a + 16384"
    using st by (auto simp: ist_top_def add_run_Done IST_STACK_SIZE_def unat_add_exact)
qed

lemma gdt_segment: "take 6 t = take 6 u \<Longrightarrow> i < 6 \<Longrightarrow> t ! i = u ! i"
  by (metis nth_take)

text \<open>C23: after \<open>traps::init\<close> every one of the 256 vectors is delivered to its own stub, in the kernel's code
  segment, which is present, 64-bit and ring 0, through a present interrupt gate ring 3 cannot invoke;
  double faults, NMIs and machine checks, and only those, switch to a stack of their own, whose top the
  processor finds in the task state segment the descriptor in \<open>TR\<close> points at; and the limits of the
  tables are their sizes.\<close>

theorem traps_reach_their_stubs:
  assumes "traps_init ta c = Done d" "length (at_stubs ta) = 256" "ct_tss c = tss_new" "v < 256"
  shows "(\<exists>ist. cpu_gate (concat (map gate_bytes (ct_idt d))) v = (unat (at_stubs ta ! v), unat (ct_code d), ist, 0x8E) \<and>
      (if v \<in> {2, 8, 18} then cpu_ist (tss_bytes (ct_tss d)) ist = unat (own_stack ta v) + 16384 \<and> ist \<noteq> 0
       else ist = 0)) \<and>
    cpu_segment (ct_gdt d) (ct_code d) = \<lparr>sv_present = True, sv_dpl = 0, sv_code = True, sv_long = True, sv_default = False\<rparr> \<and>
    cpu_tss (ct_gdt d) (ct_tr d) = (at_tss ta, 103) \<and> length (tss_bytes (ct_tss d)) = 104 \<and>
    ct_gdtr d = Some \<lparr>dt_limit = word_of_nat (8 * length (ct_gdt d) - 1), dt_base = at_gdt ta\<rparr> \<and>
    ct_idtr d = Some \<lparr>dt_limit = word_of_nat (length (concat (map gate_bytes (ct_idt d))) - 1), dt_base = at_idt ta\<rparr>"
proof -
  obtain e where e: "gdt_install ta c = Done e" "d = idt_install ta e"
    using assms(1) by (auto simp: traps_init_def bind_run_Done)
  note g = gdt_installed [OF e(1) assms(3)]
  have d: "ct_tss d = ct_tss e" "ct_gdt d = ct_gdt e" "ct_code d = KERNEL_CODE" "ct_tr d = TSS_SELECTOR"
    "ct_gdtr d = ct_gdtr e" "ct_idtr d = Some \<lparr>dt_limit = 4095, dt_base = at_idt ta\<rparr>"
    "ct_idt d = map (\<lambda>v. interrupt_gate (at_stubs ta ! v) (ist_for v)) [0..<256]"
    using g(3,4) assms(2) by (simp_all add: e(2) idt_install_def VECTORS_def)
  let ?g = "interrupt_gate (at_stubs ta ! v) (ist_for v)"
  have "slice (16 * v) 16 (concat (map gate_bytes (ct_idt d))) = map gate_bytes (ct_idt d) ! v"
    by (rule slice_concat) (use assms(4) in \<open>auto simp: d(7)\<close>)
  then have sl: "slice (16 * v) 16 (concat (map gate_bytes (ct_idt d))) = gate_bytes ?g"
    using assms(4) by (simp add: d(7) del: upt_Suc)
  have "slice (16 * 0) 16 (gate_bytes ?g) = gate_bytes ?g" by (simp add: slice_def)
  with sl have "cpu_gate (concat (map gate_bytes (ct_idt d))) v = cpu_gate (gate_bytes ?g) 0"
    unfolding cpu_gate_def by simp
  with gate_read_back have gate: "cpu_gate (concat (map gate_bytes (ct_idt d))) v =
      (unat (at_stubs ta ! v), unat (ct_code d), unat (ist_for v AND 7), 0x8E)" by (simp add: d(3))
  have lens: "length (privilege_stacks (ct_tss d)) = 3" "length (interrupt_stacks (ct_tss d)) = 7"
    by (simp_all add: d(1) g(1,2))
  have ist: "if v \<in> {2, 8, 18} then cpu_ist (tss_bytes (ct_tss d)) (unat (ist_for v AND 7)) = unat (own_stack ta v) + 16384
      \<and> unat (ist_for v AND 7) \<noteq> 0 else unat (ist_for v AND 7) = 0"
    using tss_words(2) [OF lens, of 1] tss_words(2) [OF lens, of 2] tss_words(2) [OF lens, of 3] g(1,9)
    by (auto simp: ist_for_def IST_DOUBLE_FAULT_def IST_NMI_def IST_MACHINE_CHECK_def own_stack_def d(1))
  have "ct_gdt d ! 1 = KERNEL_CODE_DESC"
    using gdt_segment [of "ct_gdt e" "[0, KERNEL_CODE_DESC, KERNEL_DATA_DESC, USER_CODE32_DESC, USER_DATA_DESC, USER_CODE_DESC]" 1]
      g(6) by (simp add: d(2))
  then have seg: "cpu_segment (ct_gdt d) (ct_code d) =
      \<lparr>sv_present = True, sv_dpl = 0, sv_code = True, sv_long = True, sv_default = False\<rparr>"
    by (simp add: cpu_segment_def Let_def d(3) KERNEL_CODE_def KERNEL_CODE_DESC_def segment_desc_def)
  have "length (concat (map gate_bytes (ct_idt d))) = 4096"
  proof -
    have "length (concat (map gate_bytes xs)) = 16 * length xs" for xs by (induction xs) simp_all
    from this [of "ct_idt d"] show ?thesis by (simp add: d(7) del: map_map)
  qed
  moreover have "cpu_tss (ct_gdt d) (ct_tr d) = (at_tss ta, 103)"
    using tss_descriptor_read(1) [of "at_tss ta" "ct_gdt d ! 6" "ct_gdt d ! 7" "ct_gdt d"] g(7) by (simp add: d(2,4))
  moreover have "length (tss_bytes (ct_tss d)) = 104" by (simp add: length_tss_bytes lens)
  ultimately show ?thesis using gate ist seg g(5,8) by (auto simp: d(2,5,6))
qed

definition blank_tables :: cpu_tables where
  "blank_tables = \<lparr>ct_tss = tss_new, ct_gdt = [], ct_idt = [], ct_gdtr = None, ct_idtr = None, ct_tr = 0,
     ct_code = 0, ct_data = 0\<rparr>"

definition some_addresses :: tables_at where
  "some_addresses = \<lparr>at_gdt = 0xFFFFFFFF80010000, at_tss = 0xFFFFFFFF80011000, at_idt = 0xFFFFFFFF80012000,
     at_double_fault = 0xFFFFFFFF80020000, at_nmi = 0xFFFFFFFF80024000, at_machine_check = 0xFFFFFFFF80028000,
     at_stubs = replicate 256 0xFFFFFFFF80000100\<rparr>"

lemma some_install: "\<exists>d. traps_init some_addresses blank_tables = Done d"
proof -
  have "ist_top (at_double_fault some_addresses) = Done 0xFFFFFFFF80024000" "ist_top (at_nmi some_addresses) = Done 0xFFFFFFFF80028000"
    "ist_top (at_machine_check some_addresses) = Done 0xFFFFFFFF8002C000"
    by (simp_all add: ist_top_def some_addresses_def IST_STACK_SIZE_def add_run_def checked_add_def)
  then show ?thesis by (simp add: traps_init_def gdt_install_def Let_def bind_run_def split: prod.split)
qed

theorem traps_reach_their_stubs_witness:
  "\<exists>d ist. traps_init some_addresses blank_tables = Done d \<and>
    cpu_gate (concat (map gate_bytes (ct_idt d))) 8 = (0xFFFFFFFF80000100, unat (ct_code d), ist, 0x8E) \<and>
    cpu_ist (tss_bytes (ct_tss d)) ist = 0xFFFFFFFF80024000"
proof -
  obtain d where d: "traps_init some_addresses blank_tables = Done d" using some_install by blast
  have a: "length (at_stubs some_addresses) = 256" "ct_tss blank_tables = tss_new"
    by (simp_all add: some_addresses_def blank_tables_def)
  have "unat (at_stubs some_addresses ! 8) = 0xFFFFFFFF80000100" "unat (own_stack some_addresses 8) + 16384 = 0xFFFFFFFF80024000"
    by (simp_all add: some_addresses_def own_stack_def)
  with traps_reach_their_stubs [OF d a, of 8] d show ?thesis by auto
qed

section \<open>System calls\<close>

lemma one_bit: "bit (push_bit k (1 :: u64)) n \<longleftrightarrow> n = k \<and> k < 64"
  by (auto simp: bit_simps)

text \<open>\<open>syscall\<close> and \<open>sysret\<close> switch rings as meant. The selectors the processor derives from
  \<open>IA32_STAR\<close> are those of the table \<open>gdt::install\<close> builds: entering, the ring-0 64-bit code segment
  and the data segment; leaving, the ring-3 64-bit code segment and the ring-3 data segment, both with
  requested privilege 3; and of the flags the caller chose, single-stepping, interrupts, direction,
  nested task, resume and alignment check do not reach the kernel while the arithmetic flags do.\<close>

theorem syscall_switches_rings:
  assumes "gdt_install ta c = Done d" "ct_tss c = tss_new"
  shows "syscall_cs kernel_star = ct_code d \<and> syscall_ss kernel_star = KERNEL_DATA \<and>
    sysret_cs kernel_star = USER_CODE \<and> sysret_ss kernel_star = USER_DATA \<and>
    sysret_cs kernel_star AND 3 = 3 \<and> sysret_ss kernel_star AND 3 = 3 \<and>
    cpu_segment (ct_gdt d) (syscall_cs kernel_star) =
      \<lparr>sv_present = True, sv_dpl = 0, sv_code = True, sv_long = True, sv_default = False\<rparr> \<and>
    cpu_segment (ct_gdt d) (syscall_ss kernel_star) =
      \<lparr>sv_present = True, sv_dpl = 0, sv_code = False, sv_long = False, sv_default = True\<rparr> \<and>
    cpu_segment (ct_gdt d) (sysret_cs kernel_star) =
      \<lparr>sv_present = True, sv_dpl = 3, sv_code = True, sv_long = True, sv_default = False\<rparr> \<and>
    cpu_segment (ct_gdt d) (sysret_ss kernel_star) =
      \<lparr>sv_present = True, sv_dpl = 3, sv_code = False, sv_long = False, sv_default = True\<rparr> \<and>
    {n. bit FMASK n} = {8, 9, 10, 14, 16, 18}"
proof -
  note g = gdt_installed [OF assms]
  have sel: "syscall_cs kernel_star = 8" "syscall_ss kernel_star = 16" "sysret_cs kernel_star = 43"
    "sysret_ss kernel_star = 35"
    by code_simp+
  let ?u = "[0, KERNEL_CODE_DESC, KERNEL_DATA_DESC, USER_CODE32_DESC, USER_DATA_DESC, USER_CODE_DESC]"
  have "ct_gdt d ! i = ?u ! i" if "i < 6" for i by (rule gdt_segment) (use g(6) that in simp_all)
  from this [of 1] this [of 2] this [of 4] this [of 5] have t: "ct_gdt d ! 1 = KERNEL_CODE_DESC"
    "ct_gdt d ! 2 = KERNEL_DATA_DESC" "ct_gdt d ! 4 = USER_DATA_DESC" "ct_gdt d ! 5 = USER_CODE_DESC" by simp_all
  have "{n. bit FMASK n} = {8, 9, 10, 14, 16, 18}"
    unfolding FMASK_def RFLAGS_TF_def RFLAGS_IF_def RFLAGS_DF_def RFLAGS_NT_def RFLAGS_RF_def RFLAGS_AC_def
    unfolding bit_or_iff one_bit by auto
  then show ?thesis
    using t g(3) by (simp add: sel cpu_segment_def Let_def desc_defs)
qed

theorem syscall_switches_rings_witness:
  "\<exists>d. gdt_install some_addresses blank_tables = Done d \<and> sysret_cs kernel_star = USER_CODE \<and>
    sv_dpl (cpu_segment (ct_gdt d) (sysret_cs kernel_star)) = 3"
proof -
  obtain d where d: "gdt_install some_addresses blank_tables = Done d"
    using some_install by (auto simp: traps_init_def bind_run_Done)
  have "ct_tss blank_tables = tss_new" by (simp add: blank_tables_def)
  from syscall_switches_rings [OF d this] d show ?thesis by auto
qed

text \<open>The instruction is enabled last, and on a core of its own block. \<open>syscall::init\<close> always returns;
  it writes the five registers \<open>syscall\<close> uses first and only then sets \<open>SCE\<close>, leaving the other bits of
  \<open>IA32_EFER\<close> as they were; and the block two different cores publish overlap in no byte.\<close>

theorem syscall_enabled_last:
  "\<exists>index efer s'. index = min cpu 31 \<and> syscall_init hw entry percpu cpu s = Some (Done ((), s')) \<and>
    sr_log s' = sr_log s @ [Msr_Write IA32_STAR kernel_star, Msr_Write IA32_LSTAR entry,
      Msr_Write IA32_FMASK FMASK, Msr_Write IA32_GS_BASE 0,
      Msr_Write IA32_KERNEL_GS_BASE (percpu + word_of_nat (24 * index)), Msr_Read IA32_EFER efer,
      Msr_Write IA32_EFER (efer OR EFER_SCE)] \<and> sr_index s' index = word_of_nat index \<and>
    (\<forall>other < 32. other \<noteq> index \<longrightarrow> sr_index s' other = sr_index s other \<and>
      (\<forall>i j. i < 24 \<longrightarrow> j < 24 \<longrightarrow>
        percpu + word_of_nat (24 * index + i) \<noteq> percpu + word_of_nat (24 * other + j)))"
proof -
  let ?i = "min cpu 31"
  have apart: "percpu + word_of_nat (24 * ?i + i) \<noteq> percpu + (word_of_nat (24 * other + j) :: u64)"
    if "other < 32" "other \<noteq> ?i" "i < 24" "j < 24" for other i j
  proof
    assume "percpu + word_of_nat (24 * ?i + i) = percpu + (word_of_nat (24 * other + j) :: u64)"
    then have "unat (word_of_nat (24 * ?i + i) :: u64) = unat (word_of_nat (24 * other + j) :: u64)" by simp
    moreover have "unat (word_of_nat (24 * ?i + i) :: u64) = 24 * ?i + i"
      by (rule unat_word_of_nat_small) (use that in simp)
    moreover have "unat (word_of_nat (24 * other + j) :: u64) = 24 * other + j"
      by (rule unat_word_of_nat_small) (use that in simp)
    ultimately have "24 * ?i + i = 24 * other + j" by simp
    then have "(24 * ?i + i) div 24 = (24 * other + j) div 24" by simp
    then show False using that by simp
  qed
  show ?thesis
    using apart
    by (simp add: syscall_init_def Let_def on_regs_def on_part_def write_msr_def read_msr_def CPU_SLOTS_def
      PERCPU_BYTES_def)
qed

end
