(* ===== verification/Stubs.thy ===== *)
theory Stubs imports Trap Descriptors Syscall begin

text \<open>
  The assembly at the edges of the kernel, instruction by instruction: the trap stubs of
  \<open>crates/arch-x86_64/src/trap.rs\<close>, the entry stub of \<open>syscall.rs\<close>, the context switch of
  \<open>context.rs\<close> and the way into ring 3 of \<open>usermode.rs\<close>. Memory is words of eight bytes by the address
  of their first; every access here is at a multiple of eight from one stack pointer or one block. The
  compiled Rust a stub calls is an argument: what it makes of the frame, and \<open>junk\<close>, what it leaves in
  every register and word it may use. The reserved bits of the flags are left out.
\<close>

section \<open>A core\<close>

datatype reg = RAX | RBX | RCX | RDX | RSI | RDI | RBP | RSP
  | R8 | R9 | R10 | R11 | R12 | R13 | R14 | R15

record cpu_state =
  gp :: "reg \<Rightarrow> u64"
  cpu_ip :: u64
  cpu_cs :: u64
  cpu_ss :: u64
  cpu_flags :: u64
  gs_base :: u64
  kernel_gs_base :: u64
  ram :: "u64 \<Rightarrow> u64"

datatype insn =
    Push reg
  | PushC u64
  | PushGs u64
  | Pop reg
  | MovReg reg reg
  | LoadMem reg reg u64
  | StoreMem reg u64 reg
  | LoadGs reg u64
  | StoreGs u64 reg
  | AddSp u64
  | Cld
  | Sti
  | Swapgs

definition set_gp :: "reg \<Rightarrow> u64 \<Rightarrow> cpu_state \<Rightarrow> cpu_state" where
  "set_gp r v s = s\<lparr>gp := (gp s)(r := v)\<rparr>"

definition set_word :: "u64 \<Rightarrow> u64 \<Rightarrow> cpu_state \<Rightarrow> cpu_state" where
  "set_word a v s = s\<lparr>ram := (ram s)(a := v)\<rparr>"

definition push_word :: "u64 \<Rightarrow> cpu_state \<Rightarrow> cpu_state" where
  "push_word v s = (let sp = gp s RSP - 8 in set_gp RSP sp (set_word sp v s))"

text \<open>\<open>pop rsp\<close> leaves the word popped in \<open>rsp\<close>.\<close>

definition pop_into :: "reg \<Rightarrow> cpu_state \<Rightarrow> cpu_state" where
  "pop_into r s = (let v = ram s (gp s RSP) in set_gp r v (set_gp RSP (gp s RSP + 8) s))"

fun exec :: "insn \<Rightarrow> cpu_state \<Rightarrow> cpu_state" where
  "exec (Push r) s = push_word (gp s r) s"
| "exec (PushC v) s = push_word v s"
| "exec (PushGs off) s = push_word (ram s (gs_base s + off)) s"
| "exec (Pop r) s = pop_into r s"
| "exec (MovReg d r) s = set_gp d (gp s r) s"
| "exec (LoadMem d r off) s = set_gp d (ram s (gp s r + off)) s"
| "exec (StoreMem d off r) s = set_word (gp s d + off) (gp s r) s"
| "exec (LoadGs d off) s = set_gp d (ram s (gs_base s + off)) s"
| "exec (StoreGs off r) s = set_word (gs_base s + off) (gp s r) s"
| "exec (AddSp n) s = set_gp RSP (gp s RSP + n) s"
| "exec Cld s = s\<lparr>cpu_flags := cpu_flags s AND NOT RFLAGS_DF\<rparr>"
| "exec Sti s = s\<lparr>cpu_flags := cpu_flags s OR RFLAGS_IF\<rparr>"
| "exec Swapgs s = s\<lparr>gs_base := kernel_gs_base s, kernel_gs_base := gs_base s\<rparr>"

fun run_code :: "insn list \<Rightarrow> cpu_state \<Rightarrow> cpu_state" where
  "run_code [] s = s"
| "run_code (i # is) s = run_code is (exec i s)"

text \<open>What returns from an interrupt, and from a call.\<close>

definition iretq :: "cpu_state \<Rightarrow> cpu_state" where
  "iretq s = (let sp = gp s RSP; m = ram s in
     set_gp RSP (m (sp + 24)) (s\<lparr>cpu_ip := m sp, cpu_cs := m (sp + 8), cpu_flags := m (sp + 16), cpu_ss := m (sp + 32)\<rparr>))"

definition ret_near :: "cpu_state \<Rightarrow> cpu_state" where
  "ret_near s = (set_gp RSP (gp s RSP + 8) s)\<lparr>cpu_ip := ram s (gp s RSP)\<rparr>"

section \<open>Traps\<close>

text \<open>The processor's part: to the stack it is to use, rounded down to sixteen, five words and perhaps
  an error code; interrupts, tracing, nesting and resuming off, every other flag as it was.\<close>

definition deliver_trap :: "nat \<Rightarrow> u64 \<Rightarrow> u64 \<Rightarrow> cpu_state \<Rightarrow> cpu_state" where
  "deliver_trap v code stack s =
     (let t = fold push_word ([cpu_ss s, gp s RSP, cpu_flags s, cpu_cs s, cpu_ip s]
            @ (if pushes_error_code (word_of_nat v) then [code] else []))
          (set_gp RSP (stack AND NOT 15) s)
      in t\<lparr>cpu_cs := ucast KERNEL_CODE, cpu_flags := cpu_flags s AND NOT (RFLAGS_TF OR RFLAGS_IF OR RFLAGS_NT OR RFLAGS_RF)\<rparr>)"

text \<open>The condition of the macro, and the code it makes for one vector with the common part.\<close>

definition stub_has_code :: "nat \<Rightarrow> bool" where
  "stub_has_code v \<longleftrightarrow> v = 8 \<or> v = 10 \<or> v = 11 \<or> v = 12 \<or> v = 13 \<or> v = 14 \<or> v = 17 \<or> v = 21 \<or> v = 29 \<or> v = 30"

definition trap_stub :: "nat \<Rightarrow> insn list" where
  "trap_stub v = (if stub_has_code v then [] else [PushC 0]) @ [PushC (word_of_nat v)]"

definition trap_common_in :: "insn list" where
  "trap_common_in = [Push R15, Push R14, Push R13, Push R12, Push R11, Push R10, Push R9, Push R8,
     Push RBP, Push RDI, Push RSI, Push RDX, Push RCX, Push RBX, Push RAX, Cld, MovReg RDI RSP]"

definition trap_common_out :: "insn list" where
  "trap_common_out = [Pop RAX, Pop RBX, Pop RCX, Pop RDX, Pop RSI, Pop RDI, Pop RBP, Pop R8,
     Pop R9, Pop R10, Pop R11, Pop R12, Pop R13, Pop R14, Pop R15, AddSp 16]"

text \<open>\<open>TrapFrame\<close> as it lies in memory.\<close>

definition read_trap_frame :: "(u64 \<Rightarrow> u64) \<Rightarrow> u64 \<Rightarrow> trap_frame" where
  "read_trap_frame m b = \<lparr>tf_rax = m b, tf_rbx = m (b + 8), tf_rcx = m (b + 16), tf_rdx = m (b + 24),
     tf_rsi = m (b + 32), tf_rdi = m (b + 40), tf_rbp = m (b + 48), tf_r8 = m (b + 56), tf_r9 = m (b + 64),
     tf_r10 = m (b + 72), tf_r11 = m (b + 80), tf_r12 = m (b + 88), tf_r13 = m (b + 96), tf_r14 = m (b + 104),
     tf_r15 = m (b + 112), tf_vector = m (b + 120), tf_error_code = m (b + 128), tf_rip = m (b + 136),
     tf_cs = m (b + 144), tf_rflags = m (b + 152), tf_rsp = m (b + 160), tf_ss = m (b + 168)\<rparr>"

definition trap_frame_words :: "trap_frame \<Rightarrow> u64 list" where
  "trap_frame_words f = [tf_rax f, tf_rbx f, tf_rcx f, tf_rdx f, tf_rsi f, tf_rdi f, tf_rbp f, tf_r8 f,
     tf_r9 f, tf_r10 f, tf_r11 f, tf_r12 f, tf_r13 f, tf_r14 f, tf_r15 f, tf_vector f, tf_error_code f,
     tf_rip f, tf_cs f, tf_rflags f, tf_rsp f, tf_ss f]"

fun put_words :: "u64 \<Rightarrow> u64 list \<Rightarrow> (u64 \<Rightarrow> u64) \<Rightarrow> u64 \<Rightarrow> u64" where
  "put_words b [] m = m"
| "put_words b (w # ws) m = put_words (b + 8) ws (m(b := w))"

text \<open>\<open>staros_trap_dispatch\<close>: the handler may change the frame; the call leaves the stack pointer, the
  segments and the \<open>GS\<close> bases, and anything at all elsewhere.\<close>

definition trap_dispatch :: "(trap_frame \<Rightarrow> trap_frame) \<Rightarrow> (cpu_state \<Rightarrow> cpu_state) \<Rightarrow> cpu_state \<Rightarrow> cpu_state" where
  "trap_dispatch h junk s =
     (let b = gp s RDI; f = h (read_trap_frame (ram s) b); j = junk s in
      s\<lparr>gp := (gp j)(RSP := gp s RSP), cpu_flags := cpu_flags j,
        ram := put_words b (trap_frame_words f) (ram j)\<rparr>)"

definition trap_entry :: "nat \<Rightarrow> u64 \<Rightarrow> u64 \<Rightarrow> cpu_state \<Rightarrow> cpu_state" where
  "trap_entry v code stack s = run_code (trap_stub v @ trap_common_in) (deliver_trap v code stack s)"

text \<open>With no handler registered the core halts: \<open>None\<close>.\<close>

definition take_trap :: "nat \<Rightarrow> u64 \<Rightarrow> u64 \<Rightarrow> (trap_frame \<Rightarrow> trap_frame) option \<Rightarrow> (cpu_state \<Rightarrow> cpu_state)
    \<Rightarrow> cpu_state \<Rightarrow> cpu_state option" where
  "take_trap v code stack handler junk s =
     (case handler of
        None \<Rightarrow> None
      | Some h \<Rightarrow> Some (iretq (run_code trap_common_out (trap_dispatch h junk (trap_entry v code stack s)))))"

section \<open>System calls\<close>

text \<open>What compiled code keeps for its caller.\<close>

definition callee_saved :: "reg list" where
  "callee_saved = [RBX, RBP, R12, R13, R14, R15]"

definition call_rust :: "(cpu_state \<Rightarrow> cpu_state) \<Rightarrow> cpu_state \<Rightarrow> cpu_state" where
  "call_rust junk s =
     (let j = junk s in
      s\<lparr>gp := (\<lambda>r. if r \<in> set (RSP # callee_saved) then gp s r else gp j r),
        cpu_flags := cpu_flags j AND NOT RFLAGS_DF, ram := ram j\<rparr>)"

text \<open>The two instructions of the processor. \<open>sysretq\<close> takes the flags it may from \<open>r11\<close>.\<close>

definition cpu_syscall :: "u64 \<Rightarrow> u64 \<Rightarrow> u64 \<Rightarrow> cpu_state \<Rightarrow> cpu_state" where
  "cpu_syscall star lstar fmask s =
     (set_gp RCX (cpu_ip s) (set_gp R11 (cpu_flags s) s))
       \<lparr>cpu_ip := lstar, cpu_cs := ucast (syscall_cs star), cpu_ss := ucast (syscall_ss star),
        cpu_flags := cpu_flags s AND NOT fmask\<rparr>"

definition sysret_flags :: "u64 \<Rightarrow> u64" where
  "sysret_flags v = (v AND 0x3C7FD7) OR 2"

definition sysretq :: "u64 \<Rightarrow> cpu_state \<Rightarrow> cpu_state" where
  "sysretq star s = s\<lparr>cpu_ip := gp s RCX, cpu_flags := sysret_flags (gp s R11),
     cpu_cs := ucast (sysret_cs star), cpu_ss := ucast (sysret_ss star)\<rparr>"

definition OFF_KERNEL_RSP :: u64 where "OFF_KERNEL_RSP = 0"
definition OFF_SCRATCH_RSP :: u64 where "OFF_SCRATCH_RSP = 8"

definition syscall_entry_code :: "insn list" where
  "syscall_entry_code = [Swapgs, StoreGs OFF_SCRATCH_RSP RSP, LoadGs RSP OFF_KERNEL_RSP,
     PushGs OFF_SCRATCH_RSP, Push R11, Push RCX, Push R9, Push R8, Push R10, Push RDX, Push RSI,
     Push RDI, Push RAX, Cld, MovReg RDI RSP]"

definition syscall_fast_code :: "insn list" where
  "syscall_fast_code = [Pop RAX, Pop RDI, Pop RSI, Pop RDX, Pop R10, Pop R8, Pop R9, Pop RCX, Pop R11,
     Pop RSP, Swapgs]"

definition syscall_slow_code :: "insn list" where
  "syscall_slow_code = [LoadMem RAX RSP 72, StoreGs OFF_SCRATCH_RSP RAX,
     Pop RAX, Pop RDI, Pop RSI, Pop RDX, Pop R10, Pop R8, Pop R9, Pop RCX, Pop R11, AddSp 8,
     PushC (ucast USER_DATA), PushGs OFF_SCRATCH_RSP, Push R11, PushC (ucast USER_CODE), Push RCX, Swapgs]"

text \<open>\<open>SyscallFrame\<close> as it lies in memory.\<close>

definition read_syscall_frame :: "(u64 \<Rightarrow> u64) \<Rightarrow> u64 \<Rightarrow> syscall_frame" where
  "read_syscall_frame m b = \<lparr>f_rax = m b, f_rdi = m (b + 8), f_rsi = m (b + 16), f_rdx = m (b + 24),
     f_r10 = m (b + 32), f_r8 = m (b + 40), f_r9 = m (b + 48), f_rip = m (b + 56), f_rflags = m (b + 64),
     f_user_rsp = m (b + 72)\<rparr>"

definition syscall_frame_words :: "syscall_frame \<Rightarrow> u64 list" where
  "syscall_frame_words f = [f_rax f, f_rdi f, f_rsi f, f_rdx f, f_r10 f, f_r8 f, f_r9 f, f_rip f,
     f_rflags f, f_user_rsp f]"

text \<open>\<open>staros_syscall_dispatch\<close>.\<close>

definition syscall_dispatch ::
  "(syscall_frame \<Rightarrow> syscall_frame) \<Rightarrow> (cpu_state \<Rightarrow> cpu_state) \<Rightarrow> cpu_state \<Rightarrow> cpu_state" where
  "syscall_dispatch h junk s =
     (let b = gp s RDI; f = h (read_syscall_frame (ram s) b); t = call_rust junk s in
      set_gp RAX (if is_canonical (f_rip f) then 0 else 1)
        (t\<lparr>ram := put_words b (syscall_frame_words f) (ram t)\<rparr>))"

definition syscall_enter :: "u64 \<Rightarrow> u64 \<Rightarrow> cpu_state \<Rightarrow> cpu_state" where
  "syscall_enter star lstar s = run_code syscall_entry_code (cpu_syscall star lstar FMASK s)"

definition syscall_leave :: "u64 \<Rightarrow> cpu_state \<Rightarrow> cpu_state" where
  "syscall_leave star s =
     (if gp s RAX = 0 then sysretq star (run_code syscall_fast_code s) else iretq (run_code syscall_slow_code s))"

definition take_syscall :: "u64 \<Rightarrow> u64 \<Rightarrow> (syscall_frame \<Rightarrow> syscall_frame) option \<Rightarrow> (cpu_state \<Rightarrow> cpu_state)
    \<Rightarrow> cpu_state \<Rightarrow> cpu_state option" where
  "take_syscall star lstar handler junk s =
     (case handler of
        None \<Rightarrow> None
      | Some h \<Rightarrow> Some (syscall_leave star (syscall_dispatch h junk (syscall_enter star lstar s))))"

section \<open>Switching tasks\<close>

record cpu_context =
  ctx_regs :: "u64 list"
  ctx_rsp :: u64

definition context_empty :: cpu_context where
  "context_empty = \<lparr>ctx_regs = [0, 0, 0, 0, 0, 0], ctx_rsp = 0\<rparr>"

definition context_words :: "cpu_context \<Rightarrow> u64 list" where
  "context_words c = ctx_regs c @ [ctx_rsp c]"

definition OFF_RBX :: u64 where "OFF_RBX = 0"
definition OFF_RBP :: u64 where "OFF_RBP = 8"
definition OFF_R12 :: u64 where "OFF_R12 = 16"
definition OFF_R13 :: u64 where "OFF_R13 = 24"
definition OFF_R14 :: u64 where "OFF_R14 = 32"
definition OFF_R15 :: u64 where "OFF_R15 = 40"
definition OFF_RSP :: u64 where "OFF_RSP = 48"

definition context_switch_code :: "insn list" where
  "context_switch_code = [StoreMem RDI OFF_RBX RBX, StoreMem RDI OFF_RBP RBP, StoreMem RDI OFF_R12 R12,
     StoreMem RDI OFF_R13 R13, StoreMem RDI OFF_R14 R14, StoreMem RDI OFF_R15 R15, StoreMem RDI OFF_RSP RSP,
     LoadMem RBX RSI OFF_RBX, LoadMem RBP RSI OFF_RBP, LoadMem R12 RSI OFF_R12, LoadMem R13 RSI OFF_R13,
     LoadMem R14 RSI OFF_R14, LoadMem R15 RSI OFF_R15, LoadMem RSP RSI OFF_RSP]"

definition context_switch :: "u64 \<Rightarrow> u64 \<Rightarrow> cpu_state \<Rightarrow> cpu_state" where
  "context_switch prev nxt s = ret_near (run_code context_switch_code (set_gp RDI prev (set_gp RSI nxt s)))"

text \<open>A stack is where it starts and its words.\<close>

definition plant :: "u64 \<Rightarrow> u64 list \<Rightarrow> u64 \<Rightarrow> (u64 \<times> u64 list) option run" where
  "plant base stack trampoline =
     try_run (Done (checked_mul (word_of_nat (length stack)) 8)) (\<lambda>bytes.
     try_run (Done (checked_add base bytes)) (\<lambda>end.
     let top = end AND NOT 0xf in
     bind_run (add_run base 8) (\<lambda>least.
     if top < least then Done None
     else let rsp = top - 8; index = (rsp - base) div 8 in
       if unat index < length stack then Done (Some (rsp, stack[unat index := trampoline])) else Done None)))"

definition context_init :: "u64 \<Rightarrow> u64 \<Rightarrow> u64 \<Rightarrow> u64 list \<Rightarrow> cpu_context \<Rightarrow> (bool \<times> cpu_context \<times> u64 list) run" where
  "context_init trampoline entry base stack c =
     bind_run (plant base stack trampoline) (\<lambda>r. case r of
        None \<Rightarrow> Done (False, c, stack)
      | Some (rsp, stack') \<Rightarrow> Done (True, \<lparr>ctx_regs = [0, 0, 0, 0, 0, 0][0 := entry], ctx_rsp = rsp\<rparr>, stack'))"

text \<open>\<open>__task_trampoline\<close> up to the call of the entry, whose return address is \<open>back\<close>; the hook is
  compiled code, and without one the core halts.\<close>

definition task_trampoline :: "(cpu_state \<Rightarrow> cpu_state) option \<Rightarrow> u64 \<Rightarrow> cpu_state \<Rightarrow> cpu_state option" where
  "task_trampoline post back s =
     (case post of
        None \<Rightarrow> None
      | Some junk \<Rightarrow> let t = exec Sti (call_rust junk s) in Some ((push_word back t)\<lparr>cpu_ip := gp t RBX\<rparr>))"

section \<open>Into ring 3\<close>

definition USER_RFLAGS :: u64 where
  "USER_RFLAGS = push_bit 1 1 OR push_bit 9 1"

definition enter_ring3 :: "u64 \<Rightarrow> u64 \<Rightarrow> cpu_state \<Rightarrow> cpu_state" where
  "enter_ring3 entry user_sp s =
     iretq (run_code [PushC (ucast USER_DATA), PushC user_sp, PushC USER_RFLAGS, PushC (ucast USER_CODE), PushC entry] s)"

end
