(* ===== verification/StubsProps.thy ===== *)
theory StubsProps imports Stubs begin

text \<open>
  What the assembly of \<open>Stubs\<close> does: a trap and a system call as whole transitions of the core, the
  two ways out of a system call compared, a switched-out task found again, a fresh task's first frame.
\<close>

lemmas exec_defs = set_gp_def set_word_def push_word_def pop_into_def

section \<open>Blocks of words\<close>

lemma put_words_above: "0 < unat d \<Longrightarrow> unat d + 8 * length ws \<le> 2 ^ 64 \<Longrightarrow> put_words (b + d) ws m b = m b"
proof (induction ws arbitrary: d m)
  case Nil
  then show ?case by simp
next
  case (Cons w ws)
  have d: "d \<noteq> 0" using Cons.prems by auto
  show ?case
  proof (cases ws)
    case Nil
    then show ?thesis using d by simp
  next
    case (Cons v vs)
    then have "unat (d + 8) = unat d + 8" using Cons.prems by (intro unat_add_exact [THEN trans]) simp_all
    then have "put_words (b + (d + 8)) ws (m(b + d := w)) b = (m(b + d := w)) b"
      using Cons.prems by (intro Cons.IH) simp_all
    moreover have "b + (d + 8) = b + d + 8" by (simp add: add.assoc)
    ultimately show ?thesis using d by simp
  qed
qed

lemma put_words_at: "k < length ws \<Longrightarrow> length ws < 2 ^ 60 \<Longrightarrow> put_words b ws m (b + 8 * word_of_nat k) = ws ! k"
proof (induction ws arbitrary: k b m)
  case Nil
  then show ?case by simp
next
  case (Cons w ws)
  show ?case
  proof (cases k)
    case 0
    then show ?thesis using Cons.prems put_words_above [of 8 ws b "m(b := w)"] by simp
  next
    case (Suc i)
    have "b + 8 * word_of_nat k = b + 8 + 8 * word_of_nat i" using Suc by (simp add: algebra_simps)
    then have "put_words b (w # ws) m (b + 8 * word_of_nat k) = ws ! i"
      using Cons.IH [of i "b + 8" "m(b := w)"] Cons.prems Suc by (simp only: put_words.simps length_Cons)
    then show ?thesis using Suc by simp
  qed
qed

lemma sixteens: "16 * z AND 15 = 0" for z :: u64
proof -
  have "16 * z AND mask 4 = push_bit 4 z AND mask 4" by (simp add: push_bit_eq_mult mult.commute)
  also have "\<dots> = 0" by (rule bit_eqI) (simp add: bit_simps)
  finally show ?thesis by (simp add: mask_eq_exp_minus_1)
qed

lemma round_down: "a AND NOT 15 = 16 * drop_bit 4 a" for a :: u64
proof -
  have "a AND NOT (mask 4) = push_bit 4 (drop_bit 4 a)" by (rule bit_eqI) (auto simp: bit_simps)
  then show ?thesis by (simp add: push_bit_eq_mult mask_eq_exp_minus_1 mult.commute)
qed

lemma flags_kept: "(a AND b) AND d = a AND d" if "d AND b = d" for a :: u64
proof -
  have "(a AND b) AND d = a AND (d AND b)" by (simp only: ac_simps)
  then show ?thesis by (simp only: that)
qed

lemma flags_off: "(a AND NOT b AND NOT c) AND d = 0" if "d AND NOT (b OR c) = 0" for a :: u64
proof (rule bit_eqI)
  fix n
  have "bit (d AND NOT (b OR c)) n \<longleftrightarrow> bit (0 :: u64) n" by (simp only: that)
  then show "bit ((a AND NOT b AND NOT c) AND d) n = bit (0 :: u64) n" by (auto simp: bit_simps dest: bit_imp_le_length)
qed

section \<open>Traps\<close>

text \<open>The frame a trap on \<open>s\<close> is to show, and the registers a frame restores.\<close>

definition trap_frame_of :: "nat \<Rightarrow> u64 \<Rightarrow> cpu_state \<Rightarrow> trap_frame" where
  "trap_frame_of v code s = \<lparr>tf_rax = gp s RAX, tf_rbx = gp s RBX, tf_rcx = gp s RCX, tf_rdx = gp s RDX,
     tf_rsi = gp s RSI, tf_rdi = gp s RDI, tf_rbp = gp s RBP, tf_r8 = gp s R8, tf_r9 = gp s R9,
     tf_r10 = gp s R10, tf_r11 = gp s R11, tf_r12 = gp s R12, tf_r13 = gp s R13, tf_r14 = gp s R14,
     tf_r15 = gp s R15, tf_vector = word_of_nat v,
     tf_error_code = (if pushes_error_code (word_of_nat v) then code else 0), tf_rip = cpu_ip s,
     tf_cs = cpu_cs s, tf_rflags = cpu_flags s, tf_rsp = gp s RSP, tf_ss = cpu_ss s\<rparr>"

fun frame_reg :: "trap_frame \<Rightarrow> reg \<Rightarrow> u64" where
  "frame_reg f RAX = tf_rax f" | "frame_reg f RBX = tf_rbx f" | "frame_reg f RCX = tf_rcx f"
| "frame_reg f RDX = tf_rdx f" | "frame_reg f RSI = tf_rsi f" | "frame_reg f RDI = tf_rdi f"
| "frame_reg f RBP = tf_rbp f" | "frame_reg f RSP = tf_rsp f" | "frame_reg f R8 = tf_r8 f"
| "frame_reg f R9 = tf_r9 f" | "frame_reg f R10 = tf_r10 f" | "frame_reg f R11 = tf_r11 f"
| "frame_reg f R12 = tf_r12 f" | "frame_reg f R13 = tf_r13 f" | "frame_reg f R14 = tf_r14 f"
| "frame_reg f R15 = tf_r15 f"

lemma stub_has_code_iff: "v < 256 \<Longrightarrow> stub_has_code v \<longleftrightarrow> pushes_error_code (word_of_nat v)"
proof -
  assume v: "v < 256"
  have "(n = (word_of_nat v :: u8)) = (unat n = v)" for n
    using v unat_word_of_nat_small [of v, where 'a = 8] by (auto simp: word_eq_iff_unsigned)
  then show ?thesis by (auto simp: stub_has_code_def pushes_error_code_def HAS_ERROR_CODE_def)
qed

lemma trap_entered:
  assumes "stub_has_code v = pushes_error_code (word_of_nat v)"
  shows "gp (trap_entry v code stack s) RSP = (stack AND NOT 15) - 176"
    "gp (trap_entry v code stack s) RDI = (stack AND NOT 15) - 176"
    "read_trap_frame (ram (trap_entry v code stack s)) ((stack AND NOT 15) - 176) = trap_frame_of v code s"
    "gs_base (trap_entry v code stack s) = gs_base s"
    "kernel_gs_base (trap_entry v code stack s) = kernel_gs_base s"
    "cpu_flags (trap_entry v code stack s)
       = cpu_flags s AND NOT (RFLAGS_TF OR RFLAGS_IF OR RFLAGS_NT OR RFLAGS_RF) AND NOT RFLAGS_DF"
  using assms
  by (simp_all add: trap_entry_def trap_stub_def trap_common_in_def deliver_trap_def exec_defs trap_frame_of_def
      read_trap_frame_def Let_def diff_diff_eq and.assoc)

lemma trap_left:
  assumes "ram t = put_words (gp t RSP) (trap_frame_words f) m"
  shows "iretq (run_code trap_common_out t) = t\<lparr>gp := frame_reg f, cpu_ip := tf_rip f, cpu_cs := tf_cs f,
    cpu_flags := tf_rflags f, cpu_ss := tf_ss f\<rparr>"
proof -
  define b where "b = gp t RSP"
  have rd: "ram t (b + 8 * word_of_nat k) = trap_frame_words f ! k" if "k < 22" for k
    using that assms put_words_at [of k "trap_frame_words f" b m] by (simp add: b_def trap_frame_words_def)
  note w = rd [of 0] rd [of 1] rd [of 2] rd [of 3] rd [of 4] rd [of 5] rd [of 6] rd [of 7] rd [of 8]
    rd [of 9] rd [of 10] rd [of 11] rd [of 12] rd [of 13] rd [of 14] rd [of 15] rd [of 16] rd [of 17]
    rd [of 18] rd [of 19] rd [of 20] rd [of 21]
  have eq: "gp t RSP = b" by (simp add: b_def)
  note at_b = add.commute [of b]
  have g: "gp (iretq (run_code trap_common_out t)) r = frame_reg f r" for r
    using w by (cases r) (simp_all add: trap_common_out_def iretq_def exec_defs Let_def eq trap_frame_words_def at_b)
  show ?thesis
    using w g
    by (simp add: trap_common_out_def iretq_def exec_defs Let_def eq trap_frame_words_def fun_eq_iff at_b)
qed

lemma take_trap_resumes:
  assumes "stub_has_code v = pushes_error_code (word_of_nat v)"
    and "take_trap v code stack (Some h) junk s = Some t" and "f = h (trap_frame_of v code s)"
  shows "t\<lparr>ram := ram s\<rparr> = s\<lparr>gp := frame_reg f, cpu_ip := tf_rip f, cpu_cs := tf_cs f, cpu_ss := tf_ss f,
    cpu_flags := tf_rflags f\<rparr>"
proof -
  note e = trap_entered [OF assms(1), of code stack s]
  define u where "u = trap_dispatch h junk (trap_entry v code stack s)"
  have u: "ram u = put_words (gp u RSP) (trap_frame_words f) (ram (junk (trap_entry v code stack s)))"
    "gs_base u = gs_base s" "kernel_gs_base u = kernel_gs_base s"
    unfolding u_def trap_dispatch_def Let_def assms(3) by (simp_all only: e) (simp_all add: e)
  have "t = iretq (run_code trap_common_out u)" using assms(2) by (simp add: take_trap_def u_def)
  then show ?thesis by (simp add: trap_left [OF u(1)] u)
qed

lemma frame_reg_of: "frame_reg (trap_frame_of v code s) = gp s"
proof
  fix r show "frame_reg (trap_frame_of v code s) r = gp s r" by (cases r) (simp_all add: trap_frame_of_def)
qed

text \<open>C19: c100 A trap shows the handler every register of what it interrupted, the vector, and the error code
  where the processor pushes one and zero elsewhere, on a stack aligned for the call and with interrupts
  off; and what runs afterwards is exactly what the handler left in the frame, so a handler that leaves
  the frame alone is not noticed.\<close>

theorem trap_roundtrip:
  assumes "v < 256" "take_trap v code stack (Some h) junk s = Some t" "f = h (trap_frame_of v code s)"
  shows "t\<lparr>ram := ram s\<rparr> = s\<lparr>gp := frame_reg f, cpu_ip := tf_rip f, cpu_cs := tf_cs f, cpu_ss := tf_ss f,
      cpu_flags := tf_rflags f\<rparr>
    \<and> (f = trap_frame_of v code s \<longrightarrow> t\<lparr>ram := ram s\<rparr> = s)
    \<and> gp (trap_entry v code stack s) RSP AND 15 = 0
    \<and> cpu_flags (trap_entry v code stack s) AND (RFLAGS_IF OR RFLAGS_DF) = 0"
proof (intro conjI impI)
  note c = stub_has_code_iff [OF assms(1)]
  note e = trap_entered [OF c, of code stack s]
  show r: "t\<lparr>ram := ram s\<rparr> = s\<lparr>gp := frame_reg f, cpu_ip := tf_rip f, cpu_cs := tf_cs f, cpu_ss := tf_ss f,
      cpu_flags := tf_rflags f\<rparr>"
    by (rule take_trap_resumes [OF c assms(2,3)])
  show "t\<lparr>ram := ram s\<rparr> = s" if "f = trap_frame_of v code s"
    unfolding r that frame_reg_of by (simp add: trap_frame_of_def)
  have "16 * drop_bit 4 stack - 176 = 16 * (drop_bit 4 stack - 11)" by (simp add: algebra_simps)
  then show "gp (trap_entry v code stack s) RSP AND 15 = 0" unfolding e(1) round_down by (simp only: sixteens)
  show "cpu_flags (trap_entry v code stack s) AND (RFLAGS_IF OR RFLAGS_DF) = 0"
    unfolding e(6) by (rule flags_off) (simp add: RFLAGS_TF_def RFLAGS_IF_def RFLAGS_NT_def RFLAGS_RF_def RFLAGS_DF_def)
qed

text \<open>A breakpoint and a page fault, the handler of the second stepping over the instruction.\<close>

definition ring0 :: cpu_state where
  "ring0 = \<lparr>gp = (\<lambda>r. if r = RSP then 0xFFFF800000009008 else 7), cpu_ip = 0xFFFFFFFF80001000,
     cpu_cs = 8, cpu_ss = 16, cpu_flags = 0x246, gs_base = 0, kernel_gs_base = 0xFFFFFFFF80030000,
     ram = (\<lambda>a. 0)\<rparr>"

lemma trap_roundtrip_witness:
  "\<exists>t. take_trap 14 2 (gp ring0 RSP) (Some (\<lambda>f. f\<lparr>tf_rip := tf_rip f + 3\<rparr>)) id ring0 = Some t
     \<and> cpu_ip t = 0xFFFFFFFF80001003 \<and> gp t = gp ring0 \<and> cpu_flags t = 0x246"
proof -
  define h :: "trap_frame \<Rightarrow> trap_frame" where "h = (\<lambda>f. f\<lparr>tf_rip := tf_rip f + 3\<rparr>)"
  obtain t where t: "take_trap 14 2 (gp ring0 RSP) (Some h) id ring0 = Some t" by (simp add: take_trap_def)
  have r: "t\<lparr>ram := ram ring0\<rparr> = ring0\<lparr>gp := frame_reg (h (trap_frame_of 14 2 ring0)),
      cpu_ip := tf_rip (h (trap_frame_of 14 2 ring0)), cpu_cs := tf_cs (h (trap_frame_of 14 2 ring0)),
      cpu_ss := tf_ss (h (trap_frame_of 14 2 ring0)), cpu_flags := tf_rflags (h (trap_frame_of 14 2 ring0))\<rparr>"
    using trap_roundtrip [OF _ t refl] by simp
  have g: "frame_reg (h (trap_frame_of 14 2 ring0)) = gp ring0"
  proof
    fix r show "frame_reg (h (trap_frame_of 14 2 ring0)) r = gp ring0 r"
      by (cases r) (simp_all add: h_def trap_frame_of_def)
  qed
  have "cpu_ip (t\<lparr>ram := ram ring0\<rparr>) = 0xFFFFFFFF80001003" "gp (t\<lparr>ram := ram ring0\<rparr>) = gp ring0"
    "cpu_flags (t\<lparr>ram := ram ring0\<rparr>) = 0x246"
    unfolding r g by (simp_all add: h_def trap_frame_of_def ring0_def)
  then show ?thesis using t unfolding h_def by auto
qed

section \<open>System calls\<close>

definition syscall_frame_of :: "cpu_state \<Rightarrow> syscall_frame" where
  "syscall_frame_of s = \<lparr>f_rax = gp s RAX, f_rdi = gp s RDI, f_rsi = gp s RSI, f_rdx = gp s RDX,
     f_r10 = gp s R10, f_r8 = gp s R8, f_r9 = gp s R9, f_rip = cpu_ip s, f_rflags = cpu_flags s,
     f_user_rsp = gp s RSP\<rparr>"

text \<open>What a caller finds in its registers: the frame's, its own where compiled code keeps them, and
  the two the instruction takes for itself.\<close>

definition user_regs :: "syscall_frame \<Rightarrow> (reg \<Rightarrow> u64) \<Rightarrow> reg \<Rightarrow> u64" where
  "user_regs f g = g(RAX := f_rax f, RDI := f_rdi f, RSI := f_rsi f, RDX := f_rdx f, R10 := f_r10 f,
     R8 := f_r8 f, R9 := f_r9 f, RCX := f_rip f, R11 := f_rflags f, RSP := f_user_rsp f)"

lemma syscall_entered:
  fixes s :: cpu_state
  defines "b \<equiv> ram s (kernel_gs_base s) - 80"
  shows "gp (syscall_enter star lstar s) RSP = b" "gp (syscall_enter star lstar s) RDI = b"
    "read_syscall_frame (ram (syscall_enter star lstar s)) b = syscall_frame_of s"
    "gs_base (syscall_enter star lstar s) = kernel_gs_base s"
    "kernel_gs_base (syscall_enter star lstar s) = gs_base s"
    "r \<in> set callee_saved \<Longrightarrow> gp (syscall_enter star lstar s) r = gp s r"
    "cpu_flags (syscall_enter star lstar s) = cpu_flags s AND NOT FMASK AND NOT RFLAGS_DF"
  by (auto simp: syscall_enter_def syscall_entry_code_def cpu_syscall_def exec_defs syscall_frame_of_def
      read_syscall_frame_def Let_def diff_diff_eq b_def OFF_KERNEL_RSP_def OFF_SCRATCH_RSP_def callee_saved_def and.assoc)

text \<open>C100 The two ways into the kernel treat the flag that switches SMAP off differently. The system call
  clears it; a trap leaves it as ring 3 had it, so a task that sets it has it set in every handler that
  interrupts it.\<close>

theorem trap_keeps_smap_open:
  "cpu_flags (trap_entry v code stack s) AND RFLAGS_AC = cpu_flags s AND RFLAGS_AC
    \<and> cpu_flags (syscall_enter star lstar s) AND RFLAGS_AC = 0"
proof -
  have "cpu_flags (trap_entry v code stack s)
      = cpu_flags s AND NOT (RFLAGS_TF OR RFLAGS_IF OR RFLAGS_NT OR RFLAGS_RF) AND NOT RFLAGS_DF"
    by (simp add: trap_entry_def trap_stub_def trap_common_in_def deliver_trap_def exec_defs Let_def and.assoc)
  moreover have "(cpu_flags s AND (NOT (RFLAGS_TF OR RFLAGS_IF OR RFLAGS_NT OR RFLAGS_RF) AND NOT RFLAGS_DF)) AND RFLAGS_AC
      = cpu_flags s AND RFLAGS_AC"
    by (rule flags_kept) (simp add: RFLAGS_TF_def RFLAGS_IF_def RFLAGS_NT_def RFLAGS_RF_def RFLAGS_DF_def RFLAGS_AC_def)
  moreover have "(cpu_flags s AND NOT FMASK AND NOT RFLAGS_DF) AND RFLAGS_AC = 0"
    by (rule flags_off) (simp add: FMASK_def RFLAGS_TF_def RFLAGS_IF_def RFLAGS_NT_def RFLAGS_RF_def RFLAGS_DF_def RFLAGS_AC_def)
  ultimately show ?thesis by (simp only: syscall_entered)
qed

lemma syscall_left:
  assumes m: "ram t = put_words (gp t RSP) (syscall_frame_words f) m"
    and gs: "\<And>k. k < 10 \<Longrightarrow> gs_base t + 8 \<noteq> gp t RSP + 8 * word_of_nat k"
  shows "(iretq (run_code syscall_slow_code t))\<lparr>ram := ram t\<rparr> = t\<lparr>gp := user_regs f (gp t), cpu_ip := f_rip f,
      cpu_flags := f_rflags f, cpu_cs := ucast USER_CODE, cpu_ss := ucast USER_DATA,
      gs_base := kernel_gs_base t, kernel_gs_base := gs_base t\<rparr>"
    and "sysretq star (run_code syscall_fast_code t) = t\<lparr>gp := user_regs f (gp t), cpu_ip := f_rip f,
      cpu_flags := sysret_flags (f_rflags f), cpu_cs := ucast (sysret_cs star), cpu_ss := ucast (sysret_ss star),
      gs_base := kernel_gs_base t, kernel_gs_base := gs_base t\<rparr>"
proof -
  define b where "b = gp t RSP"
  have rd: "ram t (b + 8 * word_of_nat k) = syscall_frame_words f ! k" if "k < 10" for k
    using that m put_words_at [of k "syscall_frame_words f" b m] by (simp add: b_def syscall_frame_words_def)
  note w = rd [of 0] rd [of 1] rd [of 2] rd [of 3] rd [of 4] rd [of 5] rd [of 6] rd [of 7] rd [of 8] rd [of 9]
  note n = gs [of 0] gs [of 1] gs [of 2] gs [of 3] gs [of 4] gs [of 5] gs [of 6] gs [of 7] gs [of 8] gs [of 9]
  have eq: "gp t RSP = b" by (simp add: b_def)
  note at_b = add.commute [of b]
  show "sysretq star (run_code syscall_fast_code t) = t\<lparr>gp := user_regs f (gp t), cpu_ip := f_rip f,
      cpu_flags := sysret_flags (f_rflags f), cpu_cs := ucast (sysret_cs star), cpu_ss := ucast (sysret_ss star),
      gs_base := kernel_gs_base t, kernel_gs_base := gs_base t\<rparr>"
    using w by (simp add: syscall_fast_code_def sysretq_def exec_defs Let_def eq syscall_frame_words_def user_regs_def
        fun_eq_iff at_b)
  show "(iretq (run_code syscall_slow_code t))\<lparr>ram := ram t\<rparr> = t\<lparr>gp := user_regs f (gp t), cpu_ip := f_rip f,
      cpu_flags := f_rflags f, cpu_cs := ucast USER_CODE, cpu_ss := ucast USER_DATA,
      gs_base := kernel_gs_base t, kernel_gs_base := gs_base t\<rparr>"
    using w n by (simp add: syscall_slow_code_def iretq_def exec_defs Let_def eq syscall_frame_words_def user_regs_def
        fun_eq_iff at_b OFF_SCRATCH_RSP_def)
qed


lemma take_syscall_returns:
  fixes s :: cpu_state
  defines "b \<equiv> ram s (kernel_gs_base s) - 80"
  assumes t: "take_syscall kernel_star lstar (Some h) junk s = Some t" and f: "f = h (syscall_frame_of s)"
    and gs: "\<And>k. k < 10 \<Longrightarrow> kernel_gs_base s + 8 \<noteq> b + 8 * word_of_nat k"
  shows "t\<lparr>ram := ram s\<rparr> = s\<lparr>
      gp := user_regs f (\<lambda>r. if r \<in> set callee_saved then gp s r else gp (junk (syscall_enter kernel_star lstar s)) r),
      cpu_ip := f_rip f, cpu_cs := ucast USER_CODE, cpu_ss := ucast USER_DATA,
      cpu_flags := (if is_canonical (f_rip f) then sysret_flags (f_rflags f) else f_rflags f)\<rparr>"
proof -
  note e = syscall_entered [where star = kernel_star and lstar = lstar and s = s, folded b_def]
  define u where "u = syscall_dispatch h junk (syscall_enter kernel_star lstar s)"
  have u: "ram u = put_words (gp u RSP) (syscall_frame_words f) (ram (junk (syscall_enter kernel_star lstar s)))"
    "gs_base u = kernel_gs_base s" "kernel_gs_base u = gs_base s" "gp u RSP = b"
    "gp u RAX = (if is_canonical (f_rip f) then 0 else 1)"
    by (simp_all add: u_def syscall_dispatch_def Let_def e f call_rust_def set_gp_def callee_saved_def)
  have regs: "user_regs f (gp u) = user_regs f
    (\<lambda>r. if r \<in> set callee_saved then gp s r else gp (junk (syscall_enter kernel_star lstar s)) r)"
    by (auto simp: fun_eq_iff user_regs_def u_def syscall_dispatch_def Let_def call_rust_def e set_gp_def)
  have "gs_base u + 8 \<noteq> gp u RSP + 8 * word_of_nat k" if "k < 10" for k using gs that by (simp add: u)
  note l = syscall_left [OF u(1) this]
  have sel: "(ucast (sysret_cs kernel_star) :: u64) = ucast USER_CODE" "(ucast (sysret_ss kernel_star) :: u64) = ucast USER_DATA"
    by (simp_all add: sysret_cs_def sysret_ss_def kernel_star_def star_value_def KERNEL_CODE_def USER_CODE32_def
        USER_CODE_def USER_DATA_def)
  have left: "t = syscall_leave kernel_star u" using t by (simp add: take_syscall_def u_def)
  show ?thesis
  proof (cases "is_canonical (f_rip f)")
    case True
    then have "t = sysretq kernel_star (run_code syscall_fast_code u)" by (simp add: left syscall_leave_def u)
    then show ?thesis
      using True by (intro cpu_state.equality) (simp_all add: l(2) regs u sel)
  next
    case False
    then have v: "t\<lparr>ram := ram u\<rparr> = u\<lparr>gp := user_regs f (gp u), cpu_ip := f_rip f,
        cpu_flags := f_rflags f, cpu_cs := ucast USER_CODE, cpu_ss := ucast USER_DATA,
        gs_base := kernel_gs_base u, kernel_gs_base := gs_base u\<rparr>"
      using l(1) by (simp add: left syscall_leave_def u)
    have "t\<lparr>ram := ram s\<rparr> = (t\<lparr>ram := ram u\<rparr>)\<lparr>ram := ram s\<rparr>" by simp
    also have "\<dots> = s\<lparr>gp := user_regs f (gp u), cpu_ip := f_rip f, cpu_cs := ucast USER_CODE,
        cpu_ss := ucast USER_DATA, cpu_flags := f_rflags f\<rparr>"
      unfolding v by (intro cpu_state.equality) (simp_all add: u)
    finally show ?thesis using False by (simp add: regs)
  qed
qed

text \<open>C20: c100 Whichever way a system call goes back, \<open>sysretq\<close> or \<open>iretq\<close>, the caller resumes where the frame
  says, in ring 3, on its stack, with the frame's registers and its own where compiled code keeps them, and
  the \<open>GS\<close> bases as they were; the two differ only in the flags \<open>sysretq\<close> does not load. The handler saw
  the caller's registers exactly.\<close>

theorem syscall_paths_agree:
  assumes "take_syscall kernel_star lstar (Some h) junk s = Some t" "f = h (syscall_frame_of s)"
    and "\<And>k. k < 10 \<Longrightarrow> kernel_gs_base s + 8 \<noteq> ram s (kernel_gs_base s) - 80 + 8 * word_of_nat k"
  shows "t\<lparr>ram := ram s\<rparr> = s\<lparr>
      gp := user_regs f (\<lambda>r. if r \<in> set callee_saved then gp s r else gp (junk (syscall_enter kernel_star lstar s)) r),
      cpu_ip := f_rip f, cpu_cs := ucast USER_CODE, cpu_ss := ucast USER_DATA,
      cpu_flags := (if is_canonical (f_rip f) then sysret_flags (f_rflags f) else f_rflags f)\<rparr>"
  by (rule take_syscall_returns [OF assms])

definition ring3 :: cpu_state where
  "ring3 = \<lparr>gp = (\<lambda>r. if r = RSP then 0x7FFFFFF000 else 5), cpu_ip = 0x401002, cpu_cs = 0x2B, cpu_ss = 0x23,
     cpu_flags = 0x202, gs_base = 0, kernel_gs_base = 0xFFFFFFFF80030000,
     ram = (\<lambda>a. if a = 0xFFFFFFFF80030000 then 0xFFFF800000009000 else 0)\<rparr>"

text \<open>A handler that answers 9, and one that also sends the caller to a non-canonical address.\<close>

lemma syscall_paths_agree_witness:
  "\<exists>t u. take_syscall kernel_star 0xFFFFFFFF80002000 (Some (\<lambda>f. f\<lparr>f_rax := 9\<rparr>)) id ring3 = Some t
     \<and> gp t RAX = 9 \<and> gp t RSP = 0x7FFFFFF000 \<and> cpu_ip t = 0x401002 \<and> cpu_cs t = 0x2B
     \<and> take_syscall kernel_star 0xFFFFFFFF80002000 (Some (\<lambda>f. f\<lparr>f_rip := 0x800000000000\<rparr>)) id ring3 = Some u
     \<and> cpu_ip u = 0x800000000000 \<and> gp u RSP = 0x7FFFFFF000 \<and> gp u RBX = 5 \<and> cpu_cs u = 0x2B"
proof -
  have gs: "kernel_gs_base ring3 + 8 \<noteq> ram ring3 (kernel_gs_base ring3) - 80 + 8 * word_of_nat k" if "k < 10" for k
  proof -
    have "k \<in> {0, 1, 2, 3, 4, 5, 6, 7, 8, 9}" using that by simp arith
    then show ?thesis by (auto simp: ring3_def)
  qed
  have a: "\<exists>t. take_syscall kernel_star 0xFFFFFFFF80002000 (Some h) id ring3 = Some t
      \<and> gp t RAX = f_rax f \<and> gp t RSP = f_user_rsp f \<and> cpu_ip t = f_rip f \<and> cpu_cs t = 0x2B \<and> gp t RBX = 5"
    if f: "f = h (syscall_frame_of ring3)" for f h
  proof -
    obtain t where t: "take_syscall kernel_star 0xFFFFFFFF80002000 (Some h) id ring3 = Some t"
      by (simp add: take_syscall_def)
    note r = syscall_paths_agree [OF t f gs]
    have "gp t = user_regs f (\<lambda>r. if r \<in> set callee_saved then gp ring3 r
        else gp (id (syscall_enter kernel_star 0xFFFFFFFF80002000 ring3)) r)"
      "cpu_ip t = f_rip f" "cpu_cs t = ucast USER_CODE"
      using arg_cong [OF r, of gp] arg_cong [OF r, of cpu_ip] arg_cong [OF r, of cpu_cs] by simp_all
    then have "gp t RAX = f_rax f" "gp t RSP = f_user_rsp f" "gp t RBX = 5" "cpu_ip t = f_rip f" "cpu_cs t = 0x2B"
      by (simp_all add: user_regs_def callee_saved_def USER_CODE_def) (simp add: ring3_def)
    then show ?thesis using t by blast
  qed
  show ?thesis
    using a [of "syscall_frame_of ring3\<lparr>f_rax := 9\<rparr>" "\<lambda>f. f\<lparr>f_rax := 9\<rparr>", OF refl]
      a [of "syscall_frame_of ring3\<lparr>f_rip := 0x800000000000\<rparr>" "\<lambda>f. f\<lparr>f_rip := 0x800000000000\<rparr>", OF refl]
    by (fastforce simp: syscall_frame_of_def ring3_def)
qed

end
