(* ===== verification/SwitchProps.thy ===== *)
theory SwitchProps imports StubsProps begin

text \<open>
  Switching tasks: what \<open>__context_switch\<close> saves is found again by the switch back, and the first
  switch to a task that \<open>CpuContext::init\<close> prepared reaches its entry on an aligned stack of its own.
\<close>

lemma unat_round_down: "unat (a AND NOT 15) = 16 * (unat a div 16)" for a :: u64
proof -
  have d: "unat (drop_bit 4 a) = unat a div 16" by (simp add: drop_bit_eq_div unat_div_distrib)
  have "unat (16 * drop_bit 4 a) = unat (16 :: u64) * unat (drop_bit 4 a)"
    by (rule unat_mul_exact) (use unat_less_width [of a] in \<open>simp add: d\<close>)
  then show ?thesis unfolding round_down d by simp
qed

text \<open>The words of a block, as the memory has them.\<close>

definition block_at :: "u64 \<Rightarrow> u64 list \<Rightarrow> (u64 \<Rightarrow> u64) \<Rightarrow> bool" where
  "block_at b ws m \<longleftrightarrow> (\<forall>k < length ws. m (b + 8 * word_of_nat k) = ws ! k)"

definition in_block :: "u64 \<Rightarrow> nat \<Rightarrow> u64 \<Rightarrow> bool" where
  "in_block b n a \<longleftrightarrow> (\<exists>k < n. a = b + 8 * word_of_nat k)"

lemma put_words_same: "\<not> in_block b (length ws) a \<Longrightarrow> put_words b ws m a = m a"
proof (induction ws arbitrary: b m)
  case (Cons w ws)
  have "\<not> in_block (b + 8) (length ws) a"
  proof
    assume "in_block (b + 8) (length ws) a"
    then obtain k where "k < length ws" "a = b + 8 + 8 * word_of_nat k" by (auto simp: in_block_def)
    then have "Suc k < length (w # ws)" "a = b + 8 * word_of_nat (Suc k)" by (simp_all add: algebra_simps)
    then show False using Cons.prems unfolding in_block_def by blast
  qed
  moreover have "a \<noteq> b + 8 * word_of_nat 0" using Cons.prems unfolding in_block_def by force
  ultimately have "put_words (b + 8) ws (m(b := w)) a = (m(b := w)) a" "(m(b := w)) a = m a"
    using Cons.IH [of "b + 8" "m(b := w)"] by (auto simp del: fun_upd_apply) simp
  then show ?case by (simp only: put_words.simps)
qed simp

lemma put_words_block: "length ws < 2 ^ 60 \<Longrightarrow> block_at b ws (put_words b ws m)"
  by (simp add: block_at_def put_words_at)

text \<open>The switch as one assignment: the block of \<open>prev\<close> takes the registers, the block of \<open>nxt\<close> gives
  them.\<close>

definition saved_words :: "cpu_state \<Rightarrow> u64 list" where
  "saved_words s = map (gp s) [RBX, RBP, R12, R13, R14, R15, RSP]"

lemma length_saved [simp]: "length (saved_words s) = 7"
  by (simp add: saved_words_def)

lemma run_append: "run_code (xs @ ys) s = run_code ys (run_code xs s)"
  by (induction xs arbitrary: s) auto

lemma context_stored: "run_code (take 7 context_switch_code) s = s\<lparr>ram := put_words (gp s RDI) (saved_words s) (ram s)\<rparr>"
  by (simp add: context_switch_code_def set_word_def OFF_RBX_def OFF_RBP_def OFF_R12_def OFF_R13_def OFF_R14_def
      OFF_R15_def OFF_RSP_def saved_words_def ac_simps)

lemma context_loaded: "run_code (drop 7 context_switch_code) s = (let m = ram s; n = gp s RSI in
    s\<lparr>gp := (gp s)(RBX := m n, RBP := m (n + 8), R12 := m (n + 16), R13 := m (n + 24), R14 := m (n + 32),
      R15 := m (n + 40), RSP := m (n + 48))\<rparr>)"
  by (simp add: context_switch_code_def set_gp_def OFF_RBX_def OFF_RBP_def OFF_R12_def OFF_R13_def OFF_R14_def
      OFF_R15_def OFF_RSP_def Let_def)

lemma context_switched:
  fixes s :: cpu_state and prev :: u64
  defines "m \<equiv> put_words prev (saved_words s) (ram s)"
  shows "context_switch prev nxt s = s\<lparr>gp := (gp s)(RSI := nxt, RDI := prev, RBX := m nxt, RBP := m (nxt + 8),
      R12 := m (nxt + 16), R13 := m (nxt + 24), R14 := m (nxt + 32), R15 := m (nxt + 40),
      RSP := m (nxt + 48) + 8), cpu_ip := m (m (nxt + 48)), ram := m\<rparr>"
proof -
  define s' where "s' = set_gp RDI prev (set_gp RSI nxt s)"
  have s': "gp s' RDI = prev" "saved_words s' = saved_words s" "ram s' = ram s" by (simp_all add: s'_def saved_words_def set_gp_def)
  have "run_code context_switch_code s' = run_code (drop 7 context_switch_code) (run_code (take 7 context_switch_code) s')"
    by (simp only: run_append [symmetric] append_take_drop_id)
  also have "\<dots> = run_code (drop 7 context_switch_code) (s'\<lparr>ram := m\<rparr>)"
    by (simp only: context_stored s' m_def)
  finally show ?thesis
    unfolding context_switch_def s'_def [symmetric]
    by (simp only: context_loaded ret_near_def Let_def) (simp add: s'_def set_gp_def)
qed

lemma switch_saves:
  "block_at a (saved_words s) (ram (context_switch a nxt s))"
  "\<not> in_block a 7 x \<Longrightarrow> ram (context_switch a nxt s) x = ram s x"
  unfolding context_switched by (simp_all add: put_words_block put_words_same)

lemma switch_finds:
  fixes p n :: u64 and t :: cpu_state
  defines "u \<equiv> context_switch p n t"
  assumes "block_at n [rbx, rbp, w12, w13, w14, w15, rsp] (ram t)" "ram t rsp = ip"
    and "\<And>k. k < 7 \<Longrightarrow> \<not> in_block p 7 (n + 8 * word_of_nat k)" "\<not> in_block p 7 rsp"
  shows "cpu_ip u = ip" "gp u RSP = rsp + 8" "gp u RBX = rbx" "gp u RBP = rbp" "gp u R12 = w12" "gp u R13 = w13"
    "gp u R14 = w14" "gp u R15 = w15" "cpu_flags u = cpu_flags t"
proof -
  have m: "put_words p (saved_words t) (ram t) (n + 8 * word_of_nat k) = [rbx, rbp, w12, w13, w14, w15, rsp] ! k"
    if "k < 7" for k
    using that assms(2) assms(4) [of k] by (simp add: put_words_same block_at_def)
  have i: "put_words p (saved_words t) (ram t) rsp = ip"
    using assms(3,5) by (simp add: put_words_same)
  show "cpu_ip u = ip" "gp u RSP = rsp + 8" "gp u RBX = rbx" "gp u RBP = rbp" "gp u R12 = w12" "gp u R13 = w13"
    "gp u R14 = w14" "gp u R15 = w15" "cpu_flags u = cpu_flags t"
    using m [of 0] m [of 1] m [of 2] m [of 3] m [of 4] m [of 5] m [of 6] i
    by (simp_all add: u_def context_switched)
qed

text \<open>C21: c100 A task that is switched away from and later switched back to, whatever ran in between and
  whatever it left in the registers, goes on after its call with its callee-saved registers and its
  stack pointer as they were, if nothing wrote its context or the word its stack pointer named. The
  interrupt flag is not part of a context: it is as the one that switches back had it.\<close>

theorem switch_resumes:
  assumes "block_at a (saved_words s) (ram t)" "ram t (gp s RSP) = ram s (gp s RSP)"
    and "\<And>k. k < 7 \<Longrightarrow> \<not> in_block p 7 (a + 8 * word_of_nat k)" "\<not> in_block p 7 (gp s RSP)" "\<not> in_block a 7 (gp s RSP)"
  shows "block_at a (saved_words s) (ram (context_switch a b s))
    \<and> ram (context_switch a b s) (gp s RSP) = ram s (gp s RSP)
    \<and> (let u = context_switch p a t in
        (\<forall>r \<in> set callee_saved. gp u r = gp s r) \<and> gp u RSP = gp s RSP + 8 \<and> cpu_ip u = ram s (gp s RSP)
        \<and> cpu_flags u = cpu_flags t)"
proof -
  note f = switch_finds [OF assms(1) [unfolded saved_words_def list.map] assms(2-4)]
  show ?thesis using f switch_saves [where a = a and s = s and nxt = b] assms(5)
    by (simp add: Let_def callee_saved_def)
qed

section \<open>A fresh task\<close>

lemma planted:
  assumes "plant base stack tr = Done (Some (rsp, st))" "length stack < 2 ^ 60" "8 dvd unat base"
  defines "edge \<equiv> (base + 8 * word_of_nat (length stack)) AND NOT 15"
  shows "rsp = edge - 8" "unat base \<le> unat rsp" "unat rsp + 8 \<le> unat base + 8 * length stack"
    "length st = length stack" "block_at base st m \<Longrightarrow> m rsp = tr"
proof -
  define n where "n = length stack"
  have un: "unat (word_of_nat n :: u64) = n" using assms(2) by (simp add: n_def unat_word_of_nat_small)
  have m8: "checked_mul (word_of_nat n) 8 = Some ((8 :: u64) * word_of_nat n)" "unat ((8 :: u64) * word_of_nat n) = 8 * n"
    using assms(2) un by (simp_all add: checked_mul_def n_def unat_mul_exact mult.commute)
  from assms(1) obtain e where e: "checked_add base (8 * word_of_nat n) = Some e"
    unfolding plant_def n_def [symmetric] m8 by (cases "checked_add base (8 * word_of_nat n)") simp_all
  have e': "e = base + 8 * word_of_nat n" "unat e = unat base + 8 * n" "unat base + 8 * n < 2 ^ 64"
    using e m8(2) checked_add_unat [OF e] by (auto simp: checked_add_Some)
  have t: "edge = e AND NOT 15" by (simp add: edge_def e' n_def)
  have ut: "unat edge = 16 * (unat e div 16)" by (simp only: t unat_round_down)
  from assms(1) obtain least where l: "add_run base 8 = Done least" "\<not> edge < least"
    and r: "rsp = edge - 8" "st = stack[unat ((rsp - base) div 8) := tr]" "unat ((rsp - base) div 8) < length stack"
    unfolding plant_def n_def [symmetric] m8 try_run_simps e
    by (cases "add_run base 8") (auto simp: Let_def t split: if_splits)
  show "rsp = edge - 8" by (rule r(1))
  have "unat least = unat base + 8" using l(1) by (auto simp: add_run_def checked_add_unat split: option.splits)
  then have le: "unat base + 8 \<le> unat edge" using l(2) by (simp add: word_less_nat_alt)
  have ur: "unat rsp = unat edge - 8"
    unfolding r(1) using le by (simp add: unat_sub word_le_nat_alt)
  show b: "unat base \<le> unat rsp" "unat rsp + 8 \<le> unat base + 8 * length stack"
    using le ur ut e' by (simp_all add: n_def)
  show "length st = length stack" by (simp add: r(2))
  define i where "i = unat ((rsp - base) div 8)"
  have "unat (rsp - base) = unat rsp - unat base" using b(1) by (simp add: unat_sub word_le_nat_alt)
  then have i: "i = (unat rsp - unat base) div 8" by (simp add: i_def unat_div_distrib)
  have "8 dvd unat rsp" using ur ut le by presburger
  then have u8: "unat rsp = unat base + 8 * i" using assms(3) b(1) by (simp add: i)
  have "unat ((8 :: u64) * word_of_nat i) = 8 * i"
    using r(3) assms(2) by (simp add: i_def [symmetric] unat_mul_exact unat_word_of_nat_small)
  then have "unat rsp = unat (base + 8 * word_of_nat i)"
    using u8 unat_less_width [of rsp] by (simp add: unat_add_exact)
  then have at: "rsp = base + 8 * word_of_nat i" by (rule unsigned_word_eqI)
  show "m rsp = tr" if "block_at base st m"
  proof -
    have st: "st = stack[i := tr]" "i < length stack" using r(2,3) by (simp_all only: i_def)
    then have "m (base + 8 * word_of_nat i) = st ! i" using that by (simp add: block_at_def)
    then show ?thesis using st by (simp only: at nth_list_update_eq)
  qed
qed

lemma bit_one_at: "bit (push_bit k 1 :: u64) n \<longleftrightarrow> n = k \<and> k < 64"
  by (auto simp: bit_simps)

lemma unat_sixteen_down: "(edge :: u64) = a AND NOT 15 \<Longrightarrow> edge AND 15 = 0"
  by (simp only: round_down sixteens)

text \<open>C22: c100 The first switch to a task whose context was prepared runs the trampoline, with its stack pointer
  aligned as a call needs it, and the trampoline calls the entry the task was given: inside the task's own
  stack, with interrupts on, the direction flag clear and the frame chain ended, whatever the core held
  before.\<close>

theorem fresh_task_enters:
  assumes "context_init tramp entry base stack c0 = Done (True, c, st)" "length stack < 2 ^ 60" "8 dvd unat base"
    and "block_at base st (ram t)" "block_at n (context_words c) (ram t)"
    and "\<And>k. k < 7 \<Longrightarrow> \<not> in_block p 7 (n + 8 * word_of_nat k)" "\<not> in_block p 7 (ctx_rsp c)"
  shows "let u = context_switch p n t in
      cpu_ip u = tramp \<and> gp u RSP AND 15 = 0
      \<and> (\<exists>v. task_trampoline (Some junk) ra u = Some v \<and> cpu_ip v = entry \<and> gp v RBP = 0
        \<and> unat base \<le> unat (gp v RSP) \<and> unat (gp v RSP) + 8 \<le> unat base + 8 * length stack
        \<and> cpu_flags v AND RFLAGS_IF = RFLAGS_IF \<and> cpu_flags v AND RFLAGS_DF = 0)"
proof -
  obtain rsp where pl: "plant base stack tramp = Done (Some (rsp, st))"
    and c: "c = \<lparr>ctx_regs = [entry, 0, 0, 0, 0, 0], ctx_rsp = rsp\<rparr>"
    using assms(1) unfolding context_init_def
    by (cases "plant base stack tramp") (auto split: option.splits)
  note q = planted [OF pl assms(2,3)]
  define u where "u = context_switch p n t"
  have cw: "context_words c = [entry, 0, 0, 0, 0, 0, rsp]" by (simp add: c context_words_def)
  have rsp: "ctx_rsp c = rsp" by (simp add: c)
  note f = switch_finds [OF assms(5) [unfolded cw] q(5) [OF assms(4)] assms(6) assms(7) [unfolded rsp], folded u_def]
  obtain v where v: "task_trampoline (Some junk) ra u = Some v" by (simp add: task_trampoline_def Let_def)
  have vs: "cpu_ip v = gp u RBX" "gp v RBP = gp u RBP" "gp v RSP = gp u RSP - 8"
    "cpu_flags v = cpu_flags (junk u) AND NOT RFLAGS_DF OR RFLAGS_IF"
    using v by (auto simp: task_trampoline_def Let_def call_rust_def push_word_def set_gp_def set_word_def callee_saved_def)
  have "gp v RSP = rsp" by (simp add: vs f)
  moreover have "gp u RSP AND 15 = 0"
    using unat_sixteen_down by (simp add: f q(1) del: One_nat_def)
  moreover have "(a AND NOT RFLAGS_DF OR RFLAGS_IF) AND RFLAGS_IF = RFLAGS_IF"
    "(a AND NOT RFLAGS_DF OR RFLAGS_IF) AND RFLAGS_DF = 0" for a
    unfolding RFLAGS_DF_def RFLAGS_IF_def
    by (rule bit_eqI; simp only: bit_and_iff bit_or_iff bit_not_iff bit_one_at bit_0_eq; auto)+
  ultimately show ?thesis
    using v vs f q(2,3) by (simp add: Let_def u_def [symmetric])
qed

text \<open>Two contexts and a stack of sixteen words in low memory; the first switch saves at 0x1000, the other
  task saves at 0x2000.\<close>

definition low_core :: cpu_state where
  "low_core = \<lparr>gp = (\<lambda>r. if r = RSP then 0x8FF8 else 3), cpu_ip = 0x100, cpu_cs = 8, cpu_ss = 16,
     cpu_flags = 2, gs_base = 0, kernel_gs_base = 0, ram = (\<lambda>a. if a = 0x8FF8 then 0x777 else 0)\<rparr>"

lemma below_seven: "k < 7 \<Longrightarrow> k \<in> {0, 1, 2, 3, 4, 5, 6 :: nat}"
  by simp arith

lemma not_in_seven: "\<not> in_block p 7 a" if "a < p \<or> p + 48 < a" "p < 2 ^ 32" "a < 2 ^ 32" for a p :: u64
proof
  assume "in_block p 7 a"
  then obtain k where "k < 7" "a = p + 8 * word_of_nat k" by (auto simp: in_block_def)
  moreover have "unat p < 2 ^ 32" using that(2) by (simp add: word_less_nat_alt)
  ultimately show False
    using that(1) by (auto simp: word_less_nat_alt unat_word_ariths dest!: below_seven)
qed

lemma switch_resumes_witness:
  "let s = context_switch 0x1000 0x2000 low_core; u = context_switch 0x2000 0x1000 (set_gp RBX 9 (set_gp RSP 0x4000 s)) in
    gp u RBX = 3 \<and> gp u RSP = 0x9000 \<and> cpu_ip u = 0x777"
proof -
  define t where "t = set_gp RBX 9 (set_gp RSP 0x4000 (context_switch 0x1000 0x2000 low_core))"
  have t: "ram t = ram (context_switch 0x1000 0x2000 low_core)" by (simp add: t_def set_gp_def)
  have sp: "gp low_core RSP = 0x8FF8" "ram low_core 0x8FF8 = 0x777" by (simp_all add: low_core_def)
  have n: "\<not> in_block 0x1000 7 (gp low_core RSP)" "\<not> in_block 0x2000 7 (gp low_core RSP)"
    unfolding sp by (rule not_in_seven; simp)+
  have "\<not> in_block 0x2000 7 (0x1000 + 8 * word_of_nat k)" if "k < 7" for k
    using below_seven [OF that] by (intro not_in_seven) auto
  from switch_resumes [where a = "0x1000" and s = low_core and t = t and p = "0x2000" and b = "0x2000",
      unfolded t, OF switch_saves(1) switch_saves(2) [OF n(1)] this n(2) n(1)]
  show ?thesis unfolding t_def [symmetric]
    by (simp add: Let_def callee_saved_def sp t_def [symmetric]) (simp add: low_core_def)
qed

lemma fresh_task_enters_witness:
  "\<exists>c st. context_init 0x5000 0x6000 0x3000 (replicate 16 0) context_empty = Done (True, c, st)
    \<and> (let u = context_switch 0x2000 0x1000 (low_core\<lparr>ram :=
          put_words 0x1000 (context_words c) (put_words 0x3000 st (\<lambda>a. 0))\<rparr>) in
        cpu_ip u = 0x5000 \<and> gp u RSP AND 15 = 0
        \<and> (\<exists>v. task_trampoline (Some id) 0x5008 u = Some v \<and> cpu_ip v = 0x6000 \<and> gp v RBP = 0))"
proof -
  define st where "st = (replicate 16 (0 :: u64))[15 := 0x5000]"
  define c where "c = \<lparr>ctx_regs = [0x6000, 0, 0, 0, 0, 0], ctx_rsp = 0x3078\<rparr>"
  define m where "m = put_words 0x1000 (context_words c) (put_words 0x3000 st (\<lambda>a. 0))"
  have i: "context_init 0x5000 0x6000 0x3000 (replicate 16 0) context_empty = Done (True, c, st)"
    by (simp add: context_init_def plant_def checked_mul_def checked_add_def add_run_def Let_def c_def st_def)
  have len: "length (context_words c) = 7" "length st < 2 ^ 60" by (simp_all add: c_def context_words_def st_def)
  have s: "block_at 0x3000 st m"
    unfolding block_at_def
  proof (intro allI impI)
    fix k assume k: "k < length st"
    then have "k \<in> {0, 1, 2, 3, 4, 5, 6, 7, 8, 9, 10, 11, 12, 13, 14, 15}" by (simp add: st_def) arith
    then have "\<not> in_block 0x1000 7 (0x3000 + 8 * word_of_nat k)" by (intro not_in_seven) auto
    then show "m (0x3000 + 8 * word_of_nat k) = st ! k"
      using k len unfolding m_def by (simp only: put_words_same put_words_at len(1) not_False_eq_True)
  qed
  have w: "block_at 0x1000 (context_words c) m" unfolding m_def by (rule put_words_block) (simp add: len)
  have r: "\<not> in_block 0x2000 7 (ctx_rsp c)" unfolding c_def by (rule not_in_seven) simp_all
  have "\<not> in_block 0x2000 7 (0x1000 + 8 * word_of_nat k)" if "k < 7" for k
    using below_seven [OF that] by (intro not_in_seven) auto
  from fresh_task_enters [OF i _ _ _ _ this r, where t = "low_core\<lparr>ram := m\<rparr>" and junk = id and ra = "0x5008"]
  show ?thesis
    using i s w unfolding m_def by (simp add: Let_def) blast
qed

end
