(* ===== verification/Traps.thy ===== *)
theory Traps imports Trap Irq Stubs begin

text \<open>
  What the kernel does when something faults, \<open>crates/kernel/src/traps.rs\<close>: which traps are survivable,
  what a report says, and the one page fault a self-test may arm. A line of a report is a value of
  \<open>report_line\<close>, one constructor per \<open>writeln!\<close>. Device interrupts go to \<open>Irq\<close>.
\<close>

definition VECTOR_BREAKPOINT :: u64 where "VECTOR_BREAKPOINT = 3"
definition VECTOR_DOUBLE_FAULT :: u64 where "VECTOR_DOUBLE_FAULT = 8"
definition VECTOR_PAGE_FAULT :: u64 where "VECTOR_PAGE_FAULT = 14"

definition FAULT_USER_LIMIT :: u64 where "FAULT_USER_LIMIT = 0x0000800000000000"

text \<open>\<open>RESUME_AT\<close>, \<open>EXPECT_FAULT_AT\<close> and \<open>ARMED\<close>.\<close>

record armed_fault =
  af_resume_at :: u64
  af_expect_at :: u64
  af_armed :: bool

definition nothing_armed :: armed_fault where
  "nothing_armed = \<lparr>af_resume_at = 0, af_expect_at = 0, af_armed = False\<rparr>"

definition arm_page_fault :: "u64 \<Rightarrow> armed_fault \<Rightarrow> armed_fault" where
  "arm_page_fault address a = a\<lparr>af_expect_at := address, af_resume_at := 0, af_armed := True\<rparr>"

definition disarm :: "armed_fault \<Rightarrow> armed_fault" where
  "disarm a = a\<lparr>af_armed := False, af_resume_at := 0, af_expect_at := 0\<rparr>"

definition fault_was_taken :: "armed_fault \<Rightarrow> bool" where
  "fault_was_taken a \<longleftrightarrow> \<not> af_armed a"

definition smap_suspected :: "u64 \<Rightarrow> page_fault_cause \<Rightarrow> bool" where
  "smap_suspected address cause \<longleftrightarrow>
     pf_protection_violation cause \<and> \<not> pf_user cause \<and> address < FAULT_USER_LIMIT"

text \<open>Where the linker put the guard page and the stack above it.\<close>

definition in_stack_guard :: "u64 \<Rightarrow> u64 \<Rightarrow> u64 \<Rightarrow> bool" where
  "in_stack_guard guard bottom address \<longleftrightarrow> guard \<le> address \<and> address < bottom"

section \<open>Reports\<close>

datatype report_line =
    ExpectedFault u64 u64 u64 string bool u64
  | BreakpointAt u64
  | UserFault string u64 string nat
  | UserRegisters u64 u64 u64 u64 u64
  | UserPageFault u64 string
  | KillingTask
  | KernelFault u64 string
  | KernelRip u64 u64 u64
  | KernelRsp u64 u64 u64 nat
  | KernelPageFault u64 string
  | SupervisorAccess
  | FirstFaultAt u64
  | StackOverflowed
  | Halting

definition ring_of :: "trap_frame \<Rightarrow> nat" where
  "ring_of f = (if from_user f then 3 else 0)"

definition report_user :: "string \<Rightarrow> trap_frame \<Rightarrow> u64 \<Rightarrow> report_line list" where
  "report_user name f address =
     [UserFault name (tf_vector f) (vector_name (tf_vector f)) (ring_of f),
      UserRegisters (tf_rip f) (tf_cs f) (tf_rsp f) (tf_ss f) (tf_error_code f)]
     @ (if tf_vector f = VECTOR_PAGE_FAULT
        then [UserPageFault address (cause_as_str (from_error_code (tf_error_code f)))] else [])
     @ [KillingTask]"

definition report_fault :: "u64 \<Rightarrow> u64 \<Rightarrow> trap_frame \<Rightarrow> u64 \<Rightarrow> report_line list" where
  "report_fault guard bottom f address =
     [KernelFault (tf_vector f) (vector_name (tf_vector f)),
      KernelRip (tf_rip f) (tf_cs f) (tf_rflags f),
      KernelRsp (tf_rsp f) (tf_ss f) (tf_error_code f) (ring_of f)]
     @ (if tf_vector f = VECTOR_PAGE_FAULT
        then let cause = from_error_code (tf_error_code f) in
          KernelPageFault address (cause_as_str cause)
            # (if smap_suspected address cause then [SupervisorAccess] else [])
        else [])
     @ (if tf_vector f = VECTOR_DOUBLE_FAULT
        then FirstFaultAt address # (if in_stack_guard guard bottom address then [StackOverflowed] else [])
        else [])
     @ [Halting]"

section \<open>The handler\<close>

definition resume_if_expected ::
  "trap_frame \<Rightarrow> u64 \<Rightarrow> armed_fault \<Rightarrow> (report_line list \<times> trap_frame \<times> armed_fault) option" where
  "resume_if_expected f address a =
     (if \<not> af_armed a \<or> tf_vector f \<noteq> VECTOR_PAGE_FAULT \<or> af_resume_at a = 0 then None
      else if address \<noteq> af_expect_at a then None
      else let resume = af_resume_at a; cause = from_error_code (tf_error_code f) in
        Some ([ExpectedFault address (tf_rip f) (tf_error_code f) (cause_as_str cause)
                 (smap_suspected address cause) resume],
              f\<lparr>tf_rip := resume\<rparr>, a\<lparr>af_resume_at := 0, af_armed := False\<rparr>))"

text \<open>How \<open>on_trap\<close> ends: in the device's handler, back in what was interrupted, in \<open>sched::exit\<close>, or
  halted. \<open>guard\<close> and \<open>bottom\<close> are the linker's, \<open>console\<close> whether there is one, \<open>task\<close> the name of the
  running task if the core is in one, \<open>address\<close> the content of \<open>CR2\<close>.\<close>

datatype trap_end = ToDevice | Resumes | KillsTask | Halts

definition on_trap :: "u64 \<Rightarrow> u64 \<Rightarrow> bool \<Rightarrow> string option \<Rightarrow> u64 \<Rightarrow> trap_frame \<Rightarrow> armed_fault
    \<Rightarrow> trap_end \<times> report_line list \<times> trap_frame \<times> armed_fault" where
  "on_trap guard bottom console task address f a =
     (if is_device_vector (tf_vector f) then (ToDevice, [], f, a)
      else if \<not> console then (Halts, [], f, a)
      else case resume_if_expected f address a of
        Some (out, f', a') \<Rightarrow> (Resumes, out, f', a')
      | None \<Rightarrow>
          if tf_vector f = VECTOR_BREAKPOINT then (Resumes, [BreakpointAt (tf_rip f)], f, a)
          else case (from_user f, task) of
            (True, Some name) \<Rightarrow> (KillsTask, report_user name f address, f, a)
          | _ \<Rightarrow> (Halts, report_fault guard bottom f address, f, a))"

text \<open>\<open>selftest::read_unmapped\<close> and \<open>write_at\<close> up to the fault: the resume address is written to
  \<open>RESUME_AT\<close>, to which \<open>arm_page_fault\<close> gave out the pointer.\<close>

definition write_resume :: "u64 \<Rightarrow> armed_fault \<Rightarrow> armed_fault" where
  "write_resume after a = a\<lparr>af_resume_at := after\<rparr>"

text \<open>A run of traps that do not reach a device, and how each of them ended.\<close>

fun run_traps :: "u64 \<Rightarrow> u64 \<Rightarrow> string option \<Rightarrow> (u64 \<times> trap_frame) list \<Rightarrow> armed_fault
    \<Rightarrow> (trap_end \<times> trap_frame) list \<times> armed_fault" where
  "run_traps guard bottom task [] a = ([], a)"
| "run_traps guard bottom task ((address, f) # ts) a =
     (case on_trap guard bottom True task address f a of
        (e, out, f', a') \<Rightarrow> (case run_traps guard bottom task ts a' of (es, b) \<Rightarrow> ((e, f') # es, b)))"

end
