(* ===== verification/TrapsProps.thy ===== *)
theory TrapsProps imports Traps StubsProps begin

text \<open>
  Which traps return to what they interrupted: breakpoints, and the one page fault that was armed, once.
  A fault in ring 3 ends its task, never the kernel.
\<close>

lemmas vectors = VECTOR_BREAKPOINT_def VECTOR_PAGE_FAULT_def VECTOR_DOUBLE_FAULT_def

lemma not_devices: "\<not> is_device_vector 3" "\<not> is_device_vector 14"
  by (simp_all add: is_device_vector_def PIC_BASE_def)

lemma resumed_expected:
  "resume_if_expected f address a = Some (out, f', a') \<longleftrightarrow>
    af_armed a \<and> tf_vector f = 14 \<and> af_resume_at a \<noteq> 0 \<and> address = af_expect_at a
    \<and> out = [ExpectedFault address (tf_rip f) (tf_error_code f) (cause_as_str (from_error_code (tf_error_code f)))
        (smap_suspected address (from_error_code (tf_error_code f))) (af_resume_at a)]
    \<and> f' = f\<lparr>tf_rip := af_resume_at a\<rparr> \<and> a' = a\<lparr>af_resume_at := 0, af_armed := False\<rparr>"
  by (auto simp: resume_if_expected_def vectors Let_def)

lemma resumed_none: "\<not> af_armed a \<Longrightarrow> resume_if_expected f address a = None"
  by (simp add: resume_if_expected_def)

text \<open>What one trap may do: \<open>consumes\<close> is the use of the armed fault.\<close>

definition consumes :: "armed_fault \<Rightarrow> u64 \<Rightarrow> trap_frame \<Rightarrow> bool" where
  "consumes a address f \<longleftrightarrow> af_armed a \<and> tf_vector f = 14 \<and> af_resume_at a \<noteq> 0 \<and> address = af_expect_at a"

lemma trap_ends:
  assumes "on_trap g b True task address f a = (e, out, f', a')"
  shows "consumes a address f \<Longrightarrow> e = Resumes \<and> f' = f\<lparr>tf_rip := af_resume_at a\<rparr> \<and> \<not> af_armed a'"
    and "\<not> consumes a address f \<Longrightarrow> f' = f \<and> a' = a \<and> (e = Resumes \<longrightarrow> tf_vector f = 3)
      \<and> (e = Halts \<longrightarrow> \<not> (from_user f \<and> task \<noteq> None)) \<and> (e = KillsTask \<longrightarrow> from_user f \<and> task \<noteq> None)"
proof -
  show "e = Resumes \<and> f' = f\<lparr>tf_rip := af_resume_at a\<rparr> \<and> \<not> af_armed a'" if c: "consumes a address f"
  proof -
    obtain o' where r: "resume_if_expected f address a
        = Some (o', f\<lparr>tf_rip := af_resume_at a\<rparr>, a\<lparr>af_resume_at := 0, af_armed := False\<rparr>)"
      using c unfolding consumes_def resumed_expected by blast
    have "tf_vector f = 14" using c by (simp add: consumes_def)
    then show ?thesis using assms not_devices(2) by (simp add: on_trap_def r) auto
  qed
  show "f' = f \<and> a' = a \<and> (e = Resumes \<longrightarrow> tf_vector f = 3)
      \<and> (e = Halts \<longrightarrow> \<not> (from_user f \<and> task \<noteq> None)) \<and> (e = KillsTask \<longrightarrow> from_user f \<and> task \<noteq> None)"
    if c: "\<not> consumes a address f"
  proof -
    have r: "resume_if_expected f address a = None"
      using c by (auto simp: consumes_def resume_if_expected_def vectors)
    show ?thesis
      using assms not_devices(1)
      by (cases "from_user f"; cases task; cases "is_device_vector (tf_vector f)"; cases "tf_vector f = 3")
        (auto simp: on_trap_def r VECTOR_BREAKPOINT_def)
  qed
qed

text \<open>A trap that used the armed fault, among a run and its outcomes.\<close>

fun resumed_faults :: "((u64 \<times> trap_frame) \<times> (trap_end \<times> trap_frame)) list \<Rightarrow> nat" where
  "resumed_faults [] = 0"
| "resumed_faults (((address, f), (e, f')) # r) =
     (if e = Resumes \<and> tf_vector f \<noteq> 3 then 1 else 0) + resumed_faults r"

text \<open>A trap that returns away from a breakpoint used the armed fault and goes to its resume address; any
  other finds its frame as it was; and a fault of ring 3 under a task does not halt the core.\<close>

fun ended_well :: "armed_fault \<Rightarrow> string option \<Rightarrow> (u64 \<times> trap_frame) \<times> (trap_end \<times> trap_frame) \<Rightarrow> bool" where
  "ended_well a task ((address, f), (e, f')) \<longleftrightarrow>
     (if e = Resumes \<and> tf_vector f \<noteq> 3 then consumes a address f \<and> f' = f\<lparr>tf_rip := af_resume_at a\<rparr> else f' = f)
     \<and> (e = Halts \<longrightarrow> \<not> (from_user f \<and> task \<noteq> None))"

lemma run_traps_disarmed:
  "run_traps g b task ts a = (es, a') \<Longrightarrow> \<not> af_armed a \<Longrightarrow>
    length es = length ts \<and> resumed_faults (zip ts es) = 0 \<and> a' = a \<and>
    (\<forall>((address, f), (e, f')) \<in> set (zip ts es). f' = f \<and> (e = Resumes \<longrightarrow> tf_vector f = 3)
      \<and> (e = Halts \<longrightarrow> \<not> (from_user f \<and> task \<noteq> None)))"
proof (induction ts arbitrary: es)
  case Nil
  then show ?case by simp
next
  case (Cons t ts)
  obtain address f where t: "t = (address, f)" by (cases t)
  obtain e out f' b' where o: "on_trap g b True task address f a = (e, out, f', b')" by (metis prod_cases4)
  have "\<not> consumes a address f" using Cons.prems(2) by (simp add: consumes_def)
  note n = trap_ends(2) [OF o this]
  obtain es' where r: "run_traps g b task ts a = (es', a')" "es = (e, f') # es'"
    using Cons.prems(1) n by (auto simp: t o split: prod.splits)
  show ?case using Cons.IH [OF r(1) Cons.prems(2)] n by (simp add: t r(2))
qed

lemma run_traps_at_most_once:
  "run_traps g b task ts a = (es, a') \<Longrightarrow>
    length es = length ts \<and> resumed_faults (zip ts es) \<le> 1 \<and>
    (if resumed_faults (zip ts es) = 0 then a' = a else \<not> af_armed a') \<and>
    (\<forall>x \<in> set (zip ts es). ended_well a task x)"
proof (induction ts arbitrary: es)
  case Nil
  then show ?case by simp
next
  case (Cons t ts)
  obtain address f where t: "t = (address, f)" by (cases t)
  obtain e out f' b' where o: "on_trap g b True task address f a = (e, out, f', b')" by (metis prod_cases4)
  obtain es' where r: "run_traps g b task ts b' = (es', a')" "es = (e, f') # es'"
    using Cons.prems(1) by (auto simp: t o split: prod.splits)
  show ?case
  proof (cases "consumes a address f")
    case True
    note y = trap_ends(1) [OF o True]
    have v: "tf_vector f \<noteq> 3" using True by (simp add: consumes_def)
    have "\<not> af_armed b'" using y by simp
    note z = run_traps_disarmed [OF r(1) this]
    have "\<forall>x \<in> set (zip ts es'). ended_well a task x"
    proof
      fix x assume x: "x \<in> set (zip ts es')"
      obtain address1 f1 e1 f1' where q: "x = ((address1, f1), (e1, f1'))" by (metis surj_pair)
      show "ended_well a task x" using z x unfolding q by auto
    qed
    moreover have "ended_well a task ((address, f), (e, f'))" using True y v by simp
    ultimately show ?thesis using z y v by (simp add: t r(2))
  next
    case False
    note n = trap_ends(2) [OF o False]
    then have w: "\<not> (e = Resumes \<and> tf_vector f \<noteq> 3)" by blast
    moreover have "ended_well a task ((address, f), (e, f'))"
      unfolding ended_well.simps if_not_P [OF w] using n by blast
    ultimately have w: "ended_well a task ((address, f), (e, f'))" "\<not> (e = Resumes \<and> tf_vector f \<noteq> 3)" by blast+
    have b: "b' = a" using n by blast
    show ?thesis using Cons.IH [OF r(1) [unfolded b]] w(1)
      by (simp only: t r(2) zip_Cons_Cons resumed_faults.simps if_not_P [OF w(2)]) simp
  qed
qed

text \<open>C24: c100 Whatever traps follow one another, at most one of them returns to the code it interrupted at an
  address of the kernel's choosing: a page fault at the armed address while the arming lasts, sent to the
  resume address. Every other trap that returns is a breakpoint and returns where it was; and no fault in
  ring 3 halts the core while a task runs on it.\<close>

theorem armed_fault_resumes_once:
  assumes "run_traps guard bottom task ts a = (es, a')"
  shows "length es = length ts \<and> resumed_faults (zip ts es) \<le> 1 \<and>
    (if resumed_faults (zip ts es) = 0 then a' = a else fault_was_taken a') \<and>
    (\<forall>x \<in> set (zip ts es). ended_well a task x)"
  using run_traps_at_most_once [OF assms] unfolding fault_was_taken_def .

definition fault_frame :: "u64 \<Rightarrow> u64 \<Rightarrow> trap_frame" where
  "fault_frame vector cs = trap_frame_of 0 0 ring0\<lparr>tf_vector := vector, tf_cs := cs\<rparr>"

text \<open>The armed fault, a breakpoint, the same fault again from ring 3, and again in ring 0.\<close>

lemma armed_fault_resumes_once_witness:
  "\<exists>es a'. run_traps 0x1000 0x2000 (Some ''t'')
      [(0x1000, fault_frame 14 8), (0x1000, fault_frame 3 8), (0x1000, fault_frame 14 0x2B), (0x1000, fault_frame 14 8)]
      (write_resume 0x77 (arm_page_fault 0x1000 nothing_armed)) = (es, a')
    \<and> map fst es = [Resumes, Resumes, KillsTask, Halts] \<and> tf_rip (snd (es ! 0)) = 0x77 \<and> fault_was_taken a'"
proof -
  define ts where "ts = [(0x1000, fault_frame 14 8), (0x1000, fault_frame 3 8), (0x1000, fault_frame 14 0x2B),
    (0x1000 :: u64, fault_frame 14 8)]"
  obtain es a' where r: "run_traps 0x1000 0x2000 (Some ''t'') ts
      (write_resume 0x77 (arm_page_fault 0x1000 nothing_armed)) = (es, a')"
    by (metis surj_pair)
  have e: "map fst es = [Resumes, Resumes, KillsTask, Halts]" "tf_rip (snd (es ! 0)) = 0x77"
    using r by (auto simp: ts_def on_trap_def is_device_vector_def PIC_BASE_def fault_frame_def resume_if_expected_def
      write_resume_def arm_page_fault_def nothing_armed_def vectors from_user_def Let_def)
  have "length es = 4" using armed_fault_resumes_once [OF r] by (simp add: ts_def)
  then obtain x0 x1 x2 x3 where "es = [x0, x1, x2, x3]" by (auto simp: numeral_eq_Suc length_Suc_conv)
  then have "resumed_faults (zip ts es) \<noteq> 0" using e(1) by (cases x0) (simp add: ts_def fault_frame_def)
  then have "fault_was_taken a'" using armed_fault_resumes_once [OF r] by (simp split: if_splits)
  then show ?thesis using r e by (intro exI [of _ es] exI [of _ a'] conjI) (simp_all add: ts_def)
qed

section \<open>The self-test, from the fault to the next instruction\<close>

lemma vector_14: "stub_has_code 14 = pushes_error_code (word_of_nat 14)"
  by (rule stub_has_code_iff) simp

text \<open>C25: c100 The page fault a self-test provokes and armed, delivered by the processor through stub and handler
  and back, leaves the core as it was except that it goes on at the resume address, and nothing stays
  armed; the same fault once more kills the task or halts.\<close>

theorem expected_fault_steps_over:
  assumes "resume \<noteq> 0" and a: "a = write_resume resume (arm_page_fault address a0)"
    and "h = (\<lambda>f. fst (snd (snd (on_trap guard bottom True task address f a))))"
    and "take_trap 14 code stack (Some h) junk s = Some t"
    and b: "b = snd (snd (snd (on_trap guard bottom True task address (trap_frame_of 14 code s) a)))"
  shows "t\<lparr>ram := ram s\<rparr> = s\<lparr>cpu_ip := resume\<rparr> \<and> fault_was_taken b
    \<and> fst (on_trap guard bottom True task address (trap_frame_of 14 code s) b) \<noteq> Resumes"
proof -
  define f where "f = trap_frame_of 14 code s"
  have v: "tf_vector f = 14" by (simp add: f_def trap_frame_of_def)
  have armed: "af_armed a" "af_expect_at a = address" "af_resume_at a = resume"
    by (simp_all add: a write_resume_def arm_page_fault_def)
  have c: "consumes a address f" using assms(1) armed v by (simp add: consumes_def)
  obtain e out f' where o: "on_trap guard bottom True task address f a = (e, out, f', b)"
    unfolding b f_def [symmetric] by (metis prod.collapse)
  have f': "f' = f\<lparr>tf_rip := resume\<rparr>" "\<not> af_armed b" using trap_ends(1) [OF o c] armed by simp_all
  have "f\<lparr>tf_rip := resume\<rparr> = h (trap_frame_of 14 code s)"
    by (simp add: assms(3) f_def [symmetric] o f')
  from take_trap_resumes [OF vector_14 assms(4) this]
  have "t\<lparr>ram := ram s\<rparr> = s\<lparr>cpu_ip := resume\<rparr>"
  proof -
    have "frame_reg (f\<lparr>tf_rip := resume\<rparr>) = gp s"
    proof
      fix r show "frame_reg (f\<lparr>tf_rip := resume\<rparr>) r = gp s r"
        by (cases r) (simp_all add: f_def trap_frame_of_def)
    qed
    then show ?thesis
      using take_trap_resumes [OF vector_14 assms(4) \<open>f\<lparr>tf_rip := resume\<rparr> = h (trap_frame_of 14 code s)\<close>]
      by (simp add: f_def trap_frame_of_def)
  qed
  moreover have "fst (on_trap guard bottom True task address f b) \<noteq> Resumes"
  proof
    assume r: "fst (on_trap guard bottom True task address f b) = Resumes"
    obtain e1 out1 f1 b1 where o1: "on_trap guard bottom True task address f b = (e1, out1, f1, b1)" by (metis prod_cases4)
    have "\<not> consumes b address f" using f' by (simp add: consumes_def)
    from trap_ends(2) [OF o1 this] show False using r o1 v by simp
  qed
  ultimately show ?thesis using f' by (simp add: fault_was_taken_def f_def)
qed

lemma expected_fault_steps_over_witness:
  "\<exists>t. take_trap 14 0 (gp ring0 RSP) (Some (\<lambda>f. fst (snd (snd (on_trap 0x1000 0x2000 True None 0x1000 f
      (write_resume 0xFFFFFFFF80001003 (arm_page_fault 0x1000 nothing_armed))))))) id ring0 = Some t
    \<and> t\<lparr>ram := ram ring0\<rparr> = ring0\<lparr>cpu_ip := 0xFFFFFFFF80001003\<rparr>"
proof -
  define a where "a = write_resume 0xFFFFFFFF80001003 (arm_page_fault 0x1000 nothing_armed)"
  define h where "h = (\<lambda>f. fst (snd (snd (on_trap 0x1000 0x2000 True None 0x1000 f a))))"
  obtain t where t: "take_trap 14 0 (gp ring0 RSP) (Some h) id ring0 = Some t" by (simp add: take_trap_def)
  from expected_fault_steps_over [OF _ a_def h_def t refl]
  have "t\<lparr>ram := ram ring0\<rparr> = ring0\<lparr>cpu_ip := 0xFFFFFFFF80001003\<rparr>" by simp
  then show ?thesis using t unfolding h_def a_def by blast
qed

end
