(* ===== verification/PhysMem.thy ===== *)
theory PhysMem imports BootInfo Vm begin

text \<open>
  Taking ownership of physical memory, \<open>crates/kernel/src/mem.rs\<close>: the copy of the firmware's map, the
  heap cut off the largest free run, the frame pool built from the rest, the ledger of frames handed
  out, the printed map and the self-test. \<open>FramePool\<close> belongs to another crate: its operations are
  \<open>pool_ops\<close>. What lies at the loader's map is the argument \<open>map_at\<close>.
\<close>

section \<open>The pool\<close>

record 'p pool_ops =
  po_metadata :: "runs \<Rightarrow> u64"
  po_new :: 'p
  po_add :: "u64 \<Rightarrow> u64 \<Rightarrow> 'p \<Rightarrow> 'p option"
  po_frames :: "'p \<Rightarrow> u64"
  po_trees :: "'p \<Rightarrow> u64"
  po_alloc :: "u64 \<Rightarrow> 'p \<Rightarrow> u64 option \<times> 'p"
  po_free :: "u64 \<Rightarrow> 'p \<Rightarrow> 'p"
  po_coalesced :: "'p \<Rightarrow> u64"

section \<open>Initialisation\<close>

definition MAX_REGIONS :: nat where "MAX_REGIONS = 256"
definition HEAP_SLACK :: u64 where "HEAP_SLACK = 1024 * 1024"

text \<open>\<open>size_of\<close> of the two \<open>repr(C)\<close> structures.\<close>

definition REGION_BYTES :: u64 where "REGION_BYTES = 24"
definition BOOT_INFO_BYTES :: u64 where "BOOT_INFO_BYTES = 96"

record mem_layout =
  ly_total :: u64
  ly_usable :: u64
  ly_highest :: u64
  ly_highest_ram :: u64
  ly_heap :: "u64 \<times> u64"
  ly_pool_runs :: nat
  ly_pool_trees :: u64
  ly_pool_bytes :: u64
  ly_truncated_runs :: nat
  ly_managed_frames :: u64

datatype mem_error = MapTooLarge | NoFreeRun | TooSmall | PoolRejected

fun mem_error_as_str :: "mem_error \<Rightarrow> string" where
  "mem_error_as_str MapTooLarge = ''firmware memory map has more entries than the kernel can hold''"
| "mem_error_as_str NoFreeRun = ''no usable memory left after excluding the kernel and its data''"
| "mem_error_as_str TooSmall = ''largest free run cannot hold the kernel heap''"
| "mem_error_as_str PoolRejected = ''frame allocator refused the pool''"

text \<open>\<open>REGIONS\<close> with \<open>COUNT\<close>, \<open>FRAMES\<close>, the region \<open>heap::init\<close> was given, and \<open>IN_USE\<close>.\<close>

record 'p mem_state =
  ms_regions :: "memory_region list"
  ms_frames :: "'p option"
  ms_heap :: "(u64 \<times> u64) option"
  ms_in_use :: u64

definition mem_exclusions :: "boot_info \<Rightarrow> u64 \<Rightarrow> nat \<Rightarrow> runs" where
  "mem_exclusions info info_phys n =
     [(bi_kernel_phys info, bi_kernel_len info),
      (bi_memory_map info, word_of_nat n * REGION_BYTES),
      (info_phys, BOOT_INFO_BYTES),
      (case boot_initrd info of None \<Rightarrow> (0, 0) | Some r \<Rightarrow> r)]"

text \<open>\<open>max_by_key\<close> over the lengths: of equal ones the last.\<close>

fun biggest_from :: "nat \<Rightarrow> runs \<Rightarrow> (nat \<times> u64) option \<Rightarrow> nat option" where
  "biggest_from i [] best = map_option fst best"
| "biggest_from i (r # rs) best =
     biggest_from (Suc i) rs
       (case best of None \<Rightarrow> Some (i, snd r) | Some (j, l) \<Rightarrow> if snd r \<ge> l then Some (i, snd r) else Some (j, l))"

definition biggest_run :: "runs \<Rightarrow> nat option" where
  "biggest_run rs = biggest_from 0 rs None"

fun add_runs :: "'p pool_ops \<Rightarrow> runs \<Rightarrow> 'p \<Rightarrow> 'p option" where
  "add_runs ops [] p = Some p"
| "add_runs ops (r # rs) p = Option.bind (po_add ops (fst r) (snd r) p) (add_runs ops rs)"

fun sum_run :: "u64 list \<Rightarrow> u64 \<Rightarrow> u64 run" where
  "sum_run [] acc = Done acc"
| "sum_run (x # xs) acc = bind_run (add_run acc x) (sum_run xs)"

definition mem_init :: "'p pool_ops \<Rightarrow> (u64 \<Rightarrow> nat \<Rightarrow> memory_region list) \<Rightarrow> boot_info \<Rightarrow> u64 \<Rightarrow> 'p mem_state
    \<Rightarrow> ((mem_error + mem_layout) \<times> 'p mem_state) run" where
  "mem_init ops map_at info info_phys s =
     (let n = unat (bi_memory_map_len info) in
      if n > MAX_REGIONS then Done (Inl MapTooLarge, s)
      else
        let regions = map_at (phys_to_virt (bi_memory_map info)) n;
            s1 = s\<lparr>ms_regions := regions\<rparr>;
            stats = summarise regions;
            (found, out) = free_runs regions (mem_exclusions info info_phys n) (replicate MAX_FREE_RUNS (0, 0));
            kept = min found MAX_FREE_RUNS
        in if kept = 0 then Done (Inl NoFreeRun, s1)
        else
          let runs = take kept out in
          bind_run (add_run (po_metadata ops runs) HEAP_SLACK) (\<lambda>wanted.
          bind_run (next_multiple wanted PAGE_SIZE) (\<lambda>heap_len.
          case biggest_run runs of
            None \<Rightarrow> Done (Inl NoFreeRun, s1)
          | Some big \<Rightarrow>
              if snd (runs ! big) \<le> heap_len then Done (Inl TooSmall, s1)
              else
                let heap_start = fst (runs ! big) in
                bind_run (add_run heap_start heap_len) (\<lambda>after.
                let runs' = runs[big := (after, snd (runs ! big) - heap_len)];
                    s2 = s1\<lparr>ms_heap := Some (phys_to_virt heap_start, heap_len)\<rparr>
                in case add_runs ops runs' (po_new ops) of
                  None \<Rightarrow> Done (Inl PoolRejected, s2)
                | Some fp \<Rightarrow>
                    bind_run (sum_run (map snd runs') 0) (\<lambda>pool_bytes.
                    Done (Inr \<lparr>ly_total = ms_total_bytes stats, ly_usable = ms_usable_bytes stats,
                        ly_highest = ms_highest_address stats, ly_highest_ram = ms_highest_ram stats,
                        ly_heap = (heap_start, heap_len), ly_pool_runs = kept, ly_pool_trees = po_trees ops fp,
                        ly_pool_bytes = pool_bytes, ly_truncated_runs = found - kept,
                        ly_managed_frames = po_frames ops fp\<rparr>,
                      s2\<lparr>ms_frames := Some fp\<rparr>))))))"

section \<open>The ledger\<close>

text \<open>Before \<open>init\<close> there is no pool and every one of these panics.\<close>

definition with_pool :: "('p \<Rightarrow> 'a \<times> 'p) \<Rightarrow> 'p mem_state \<Rightarrow> ('a \<times> 'p mem_state) run" where
  "with_pool f s =
     (case ms_frames s of
        None \<Rightarrow> Panic
      | Some p \<Rightarrow> (case f p of (a, q) \<Rightarrow> Done (a, s\<lparr>ms_frames := Some q\<rparr>)))"

definition mem_alloc_frames :: "'p pool_ops \<Rightarrow> u64 \<Rightarrow> 'p mem_state \<Rightarrow> (u64 option \<times> 'p mem_state) run" where
  "mem_alloc_frames ops n s =
     bind_run (with_pool (po_alloc ops n) s) (\<lambda>(r, s1).
       Done (r, if r = None then s1 else s1\<lparr>ms_in_use := ms_in_use s1 + n\<rparr>))"

definition mem_alloc_frame :: "'p pool_ops \<Rightarrow> 'p mem_state \<Rightarrow> (u64 option \<times> 'p mem_state) run" where
  "mem_alloc_frame ops s =
     bind_run (with_pool (po_alloc ops 1) s) (\<lambda>(r, s1).
       Done (r, if r = None then s1 else s1\<lparr>ms_in_use := ms_in_use s1 + 1\<rparr>))"

definition mem_free_frame :: "'p pool_ops \<Rightarrow> u64 \<Rightarrow> 'p mem_state \<Rightarrow> (unit \<times> 'p mem_state) run" where
  "mem_free_frame ops frame s =
     bind_run (with_pool (\<lambda>p. ((), po_free ops frame p)) s) (\<lambda>(u, s1).
       Done ((), s1\<lparr>ms_in_use := ms_in_use s1 - 1\<rparr>))"

section \<open>The printed map\<close>

text \<open>Adjacent regions of one kind are merged; after sixteen lines one more says that the rest is left
  out.\<close>

fun merge_regions :: "(u64 \<times> u64 \<times> memory_kind) option \<Rightarrow> memory_region list \<Rightarrow> (u64 \<times> u64 \<times> memory_kind) list" where
  "merge_regions cur [] = (case cur of None \<Rightarrow> [] | Some x \<Rightarrow> [x])"
| "merge_regions cur (r # rs) =
     (case cur of
        Some (start, end, kind) \<Rightarrow>
          if kind = mr_kind r \<and> end = mr_start r then merge_regions (Some (start, region_end r, kind)) rs
          else (start, end, kind) # merge_regions (Some (mr_start r, region_end r, mr_kind r)) rs
      | None \<Rightarrow> merge_regions (Some (mr_start r, region_end r, mr_kind r)) rs)"

datatype map_line = MapLine u64 u64 memory_kind | MapTruncated

definition MAX_LINES :: nat where "MAX_LINES = 16"

fun emit_lines :: "nat \<Rightarrow> (u64 \<times> u64 \<times> memory_kind) list \<Rightarrow> map_line list" where
  "emit_lines lines [] = []"
| "emit_lines lines ((start, end, kind) # xs) =
     (let l = Suc lines in
      (if l > MAX_LINES then (if l = MAX_LINES + 1 then [MapTruncated] else []) else [MapLine start end kind])
      @ emit_lines l xs)"

definition describe_map :: "'p mem_state \<Rightarrow> map_line list" where
  "describe_map s = emit_lines 0 (merge_regions None (filter (\<lambda>r. mr_len r > 0) (ms_regions s)))"

section \<open>The self-test\<close>

definition xorshift :: "u64 \<Rightarrow> u64" where
  "xorshift state =
     (let x = state; x1 = x XOR push_bit 13 x; x2 = x1 XOR drop_bit 7 x1 in x2 XOR push_bit 17 x2)"

definition TEST_ROUNDS :: nat where "TEST_ROUNDS = 4"
definition TEST_BLOCKS :: nat where "TEST_BLOCKS = 64"

text \<open>Up to so many blocks of 1, 2, 4 or 8 frames, until one is refused.\<close>

fun take_blocks :: "'p pool_ops \<Rightarrow> nat \<Rightarrow> u64 \<Rightarrow> 'p \<Rightarrow> u64 list \<times> u64 \<times> 'p" where
  "take_blocks ops 0 rng p = ([], rng, p)"
| "take_blocks ops (Suc k) rng p =
     (let rng1 = xorshift rng in
      case po_alloc ops (push_bit (unat (rng1 mod 4)) 1) p of
        (None, p1) \<Rightarrow> ([], rng1, p1)
      | (Some b, p1) \<Rightarrow> (case take_blocks ops k rng1 p1 of (bs, rng2, p2) \<Rightarrow> (b # bs, rng2, p2)))"

definition swap_at :: "nat \<Rightarrow> nat \<Rightarrow> 'a list \<Rightarrow> 'a list" where
  "swap_at i j xs = xs[i := xs ! j, j := xs ! i]"

text \<open>The loop over \<open>i\<close> from \<open>n - 1\<close> down to 0.\<close>

fun shuffle_blocks :: "nat \<Rightarrow> u64 \<Rightarrow> u64 list \<Rightarrow> u64 list \<times> u64" where
  "shuffle_blocks 0 rng held = (held, rng)"
| "shuffle_blocks (Suc i) rng held =
     (let rng1 = xorshift rng; j = unat (rng1 mod word_of_nat (i + 1)) in
      shuffle_blocks i rng1 (swap_at i j held))"

text \<open>One round: the blocks taken, the order they are given back in, and whether the pool converged; a
  round that gets no block ends the test.\<close>

definition test_round :: "'p pool_ops \<Rightarrow> u64 \<Rightarrow> u64 \<Rightarrow> 'p \<Rightarrow> (u64 list \<times> u64 list \<times> bool \<times> u64 \<times> 'p) option" where
  "test_round ops before rng p =
     (case take_blocks ops TEST_BLOCKS rng p of (held, rng1, p1) \<Rightarrow>
        if held = [] then None
        else case shuffle_blocks (length held) rng1 held of (order, rng2) \<Rightarrow>
          let p2 = fold (po_free ops) order p1 in
          Some (held, order, po_coalesced ops p2 = before, rng2, p2))"

fun test_rounds :: "nat \<Rightarrow> 'p pool_ops \<Rightarrow> u64 \<Rightarrow> u64 \<Rightarrow> 'p \<Rightarrow> bool" where
  "test_rounds 0 ops before rng p = True"
| "test_rounds (Suc k) ops before rng p =
     (case test_round ops before rng p of
        None \<Rightarrow> False
      | Some (held, order, ok, rng1, p1) \<Rightarrow> (case test_rounds k ops before rng1 p1 of rest \<Rightarrow> ok \<and> rest))"

definition mem_selftest :: "'p pool_ops \<Rightarrow> 'p mem_state \<Rightarrow> bool run" where
  "mem_selftest ops s =
     (case ms_frames s of
        None \<Rightarrow> Panic
      | Some p \<Rightarrow> Done (test_rounds TEST_ROUNDS ops (po_coalesced ops p) 0x2545F4914F6CDD1D p))"

end
