(* ===== verification/PhysMemProps.thy ===== *)
theory PhysMemProps imports PhysMem "HOL-Library.Multiset" begin

text \<open>
  Every byte the kernel takes over is taken once: the heap and the runs of the frame pool lie in memory
  the firmware calls usable, away from what is in use, and apart from each other.
\<close>

definition disjoint_runs :: "runs \<Rightarrow> bool" where
  "disjoint_runs rs \<longleftrightarrow> sorted_wrt (\<lambda>p q. run_bytes p \<inter> run_bytes q = {}) rs"

lemma disjoint_runs_nth:
  "disjoint_runs rs \<longleftrightarrow> (\<forall>i < length rs. \<forall>j < length rs. i \<noteq> j \<longrightarrow> run_bytes (rs ! i) \<inter> run_bytes (rs ! j) = {})"
proof -
  have "run_bytes (rs ! i) \<inter> run_bytes (rs ! j) = {}"
    if "\<forall>i j. i < j \<longrightarrow> j < length rs \<longrightarrow> run_bytes (rs ! i) \<inter> run_bytes (rs ! j) = {}"
      "i < length rs" "j < length rs" "i \<noteq> j" for i j
  proof (cases "i < j")
    case True
    then show ?thesis using that by blast
  next
    case False
    then have "j < i" using that(4) by simp
    then show ?thesis using that by (metis Int_commute)
  qed
  note sym = this
  show ?thesis
    unfolding disjoint_runs_def sorted_wrt_iff_nth_less
  proof
    assume a: "\<forall>i j. i < j \<longrightarrow> j < length rs \<longrightarrow> run_bytes (rs ! i) \<inter> run_bytes (rs ! j) = {}"
    show "\<forall>i < length rs. \<forall>j < length rs. i \<noteq> j \<longrightarrow> run_bytes (rs ! i) \<inter> run_bytes (rs ! j) = {}"
      by (intro allI impI) (rule sym [OF a])
  next
    assume a: "\<forall>i < length rs. \<forall>j < length rs. i \<noteq> j \<longrightarrow> run_bytes (rs ! i) \<inter> run_bytes (rs ! j) = {}"
    show "\<forall>i j. i < j \<longrightarrow> j < length rs \<longrightarrow> run_bytes (rs ! i) \<inter> run_bytes (rs ! j) = {}"
    proof (intro allI impI)
      fix i j assume "i < j" "j < length rs"
      then show "run_bytes (rs ! i) \<inter> run_bytes (rs ! j) = {}" using a less_trans by blast
    qed
  qed
qed

lemma free_runs_disjoint:
  assumes fr: "free_runs regions xs out = (found, out')" and fit: "length (usable_runs regions) \<le> length out"
    and ap: "apart (usable_runs regions) (length (usable_runs regions))"
  shows "disjoint_runs (take found out')"
proof -
  let ?n = "length (usable_runs regions)"
  obtain out1 out2 live where c: "fold carve xs (out1, ?n) = (out2, live)"
    and l1: "length out1 = length out" "live_ok out1 ?n" and t1: "take ?n out1 = usable_runs regions"
    and k: "live \<le> length out2 \<Longrightarrow> length out2 = length out \<Longrightarrow> found \<le> length out' \<and> length out' = length out \<and>
       take found out' = map as_run (filter (\<lambda>p. fst p < snd p) (take live out2))"
    using free_runs_parts [OF fr fit] by blast
  note a = carve_all_ok [OF l1(2) c, unfolded carved_all_def]
  have l2: "live \<le> length out2" "length out2 = length out" using a l1 by (auto simp: live_ok_def)
  have "out1 ! i = usable_runs regions ! i" if "i < ?n" for i using t1 that by (metis nth_take)
  then have "apart out1 ?n" using ap by (auto simp: apart_def)
  then have "apart out2 live" using a by blast
  then have "sorted_wrt (\<lambda>p q. rb p \<inter> rb q = {}) (take live out2)"
    using l2 by (auto simp: sorted_wrt_iff_nth_less apart_def)
  then have "sorted_wrt (\<lambda>p q. rb p \<inter> rb q = {}) (filter (\<lambda>p. fst p < snd p) (take live out2))"
    by (rule sorted_wrt_filter)
  then have "sorted_wrt (\<lambda>p q. run_bytes (as_run p) \<inter> run_bytes (as_run q) = {}) (filter (\<lambda>p. fst p < snd p) (take live out2))"
    by (rule sorted_wrt_mono_rel [rotated]) (auto simp: as_run_bytes)
  then show ?thesis using k [OF l2] by (simp add: disjoint_runs_def sorted_wrt_map)
qed

section \<open>The heap off the front of the largest run\<close>

lemma biggest_from_index:
  "biggest_from k rs best = Some i \<Longrightarrow> (\<And>j l. best = Some (j, l) \<Longrightarrow> j < k) \<Longrightarrow> i < k + length rs"
proof (induction rs arbitrary: k best)
  case (Cons r rs)
  have "i < Suc k + length rs"
    by (rule Cons.IH [OF Cons.prems(1) [unfolded biggest_from.simps]])
      (use Cons.prems(2) in \<open>force split: option.splits if_splits\<close>)
  then show ?case by simp
qed auto

lemma biggest_run_index: "biggest_run rs = Some i \<Longrightarrow> i < length rs"
  using biggest_from_index [of 0 rs None i] by (simp add: biggest_run_def)

lemma cut_front:
  assumes "add_run s h = Done e" "h < l"
  shows "run_bytes (s, h) \<union> run_bytes (e, l - h) = run_bytes (s, l)" "run_bytes (s, h) \<inter> run_bytes (e, l - h) = {}"
proof -
  have "checked_add s h = Some e" using assms(1) by (auto simp: add_run_def split: option.splits)
  then have e: "unat e = unat s + unat h" by (rule checked_add_unat)
  moreover have "unat (l - h) = unat l - unat h" "unat h < unat l"
    using assms(2) by (simp_all add: unat_sub word_less_nat_alt word_le_nat_alt)
  ultimately show "run_bytes (s, h) \<union> run_bytes (e, l - h) = run_bytes (s, l)"
    "run_bytes (s, h) \<inter> run_bytes (e, l - h) = {}"
    by (auto simp: run_bytes_def word_le_nat_alt)
qed

lemma union_nth: "(\<Union>p \<in> set xs. f p) = (\<Union>j < length xs. f (xs ! j))"
  by (auto simp: set_conv_nth)

lemma cut_runs:
  assumes d: "disjoint_runs rs" and i: "i < length rs" and l: "rs ! i = (s, len)"
    and c: "add_run s h = Done e" "h < len"
  shows "disjoint_runs ((s, h) # rs[i := (e, len - h)])"
    and "(\<Union>p \<in> set ((s, h) # rs[i := (e, len - h)]). run_bytes p) = (\<Union>p \<in> set rs. run_bytes p)"
proof -
  let ?r = "rs[i := (e, len - h)]"
  note cut = cut_front [OF c]
  have sub: "run_bytes (?r ! j) \<subseteq> run_bytes (rs ! j)" for j
    using cut l i by (cases "j = i") auto
  have h: "run_bytes (s, h) \<subseteq> run_bytes (rs ! i)" using cut l by auto
  have dd: "run_bytes (rs ! j) \<inter> run_bytes (rs ! k) = {}" if "j < length rs" "k < length rs" "j \<noteq> k" for j k
    using d that by (simp add: disjoint_runs_nth)
  have "run_bytes (s, h) \<inter> run_bytes (?r ! j) = {}" if "j < length rs" for j
    using cut h sub [of j] dd [OF i that] that i by (cases "j = i") auto
  moreover have "disjoint_runs ?r"
    unfolding disjoint_runs_nth using dd sub by (metis (no_types, lifting) Int_mono length_list_update subset_empty)
  moreover have "\<forall>q \<in> set ?r. run_bytes (s, h) \<inter> run_bytes q = {}"
    using calculation(1) by (metis in_set_conv_nth length_list_update)
  ultimately show "disjoint_runs ((s, h) # ?r)"
    by (simp add: disjoint_runs_def)
  have split: "(\<Union>p \<in> set xs. run_bytes p) = run_bytes (xs ! i) \<union> (\<Union>j \<in> {j. j < length xs \<and> j \<noteq> i}. run_bytes (xs ! j))"
    if "i < length xs" for xs
    unfolding union_nth using that by auto
  have "(\<Union>p \<in> set rs. run_bytes p) = run_bytes (rs ! i) \<union> (\<Union>j \<in> {j. j < length rs \<and> j \<noteq> i}. run_bytes (rs ! j))"
    by (rule split [OF i])
  moreover have "(\<Union>p \<in> set ?r. run_bytes p) = run_bytes (e, len - h) \<union> (\<Union>j \<in> {j. j < length rs \<and> j \<noteq> i}. run_bytes (rs ! j))"
    using split [of ?r] i by auto
  ultimately show "(\<Union>p \<in> set ((s, h) # ?r). run_bytes p) = (\<Union>p \<in> set rs. run_bytes p)"
    using cut(1) l by auto
qed

section \<open>Initialisation\<close>

lemma mem_init_made:
  assumes "mem_init ops map_at info info_phys s = Done (Inr ly, s')"
  obtains found out big wanted after fp where
    "free_runs (ms_regions s') (mem_exclusions info info_phys (unat (bi_memory_map_len info)))
       (replicate MAX_FREE_RUNS (0, 0)) = (found, out)"
    "ms_regions s' = map_at (phys_to_virt (bi_memory_map info)) (unat (bi_memory_map_len info))"
    "biggest_run (take (min found MAX_FREE_RUNS) out) = Some big"
    "ly_heap ly = (fst (take (min found MAX_FREE_RUNS) out ! big), snd (ly_heap ly))"
    "next_multiple wanted PAGE_SIZE = Done (snd (ly_heap ly))"
    "snd (ly_heap ly) < snd (take (min found MAX_FREE_RUNS) out ! big)"
    "add_run (fst (ly_heap ly)) (snd (ly_heap ly)) = Done after"
    "add_runs ops ((take (min found MAX_FREE_RUNS) out)
       [big := (after, snd (take (min found MAX_FREE_RUNS) out ! big) - snd (ly_heap ly))]) (po_new ops) = Some fp"
    "ms_frames s' = Some fp" "ms_heap s' = Some (phys_to_virt (fst (ly_heap ly)), snd (ly_heap ly))"
proof -
  let ?n = "unat (bi_memory_map_len info)"
  let ?regions = "map_at (phys_to_virt (bi_memory_map info)) ?n"
  obtain found out where f: "free_runs ?regions (mem_exclusions info info_phys ?n) (replicate MAX_FREE_RUNS (0, 0)) = (found, out)"
    by (metis surj_pair)
  let ?runs = "take (min found MAX_FREE_RUNS) out"
  from assms obtain wanted len where w: "add_run (po_metadata ops ?runs) HEAP_SLACK = Done wanted"
      "next_multiple wanted PAGE_SIZE = Done len"
    by (cases "add_run (po_metadata ops ?runs) HEAP_SLACK"; cases "next_multiple (case add_run (po_metadata ops ?runs) HEAP_SLACK of Done w \<Rightarrow> w) PAGE_SIZE")
      (auto simp: mem_init_def Let_def f split: if_splits)
  from assms obtain big where b: "biggest_run ?runs = Some big" "\<not> snd (?runs ! big) \<le> len"
    by (cases "biggest_run ?runs") (auto simp: mem_init_def Let_def f w split: if_splits)
  from assms obtain after where a: "add_run (fst (?runs ! big)) len = Done after"
    by (cases "add_run (fst (?runs ! big)) len") (auto simp: mem_init_def Let_def f w b split: if_splits)
  let ?cut = "?runs[big := (after, snd (?runs ! big) - len)]"
  from assms obtain fp where p: "add_runs ops ?cut (po_new ops) = Some fp"
    by (cases "add_runs ops ?cut (po_new ops)") (auto simp: mem_init_def Let_def f w b a split: if_splits)
  from assms obtain total where t: "sum_run (map snd ?cut) 0 = Done total"
    by (cases "sum_run (map snd ?cut) 0") (auto simp: mem_init_def Let_def f w b a p split: if_splits)
  have h: "ly_heap ly = (fst (?runs ! big), len)" "s' = s\<lparr>ms_regions := ?regions,
      ms_heap := Some (phys_to_virt (fst (?runs ! big)), len), ms_frames := Some fp\<rparr>"
    using assms by (auto simp: mem_init_def Let_def f w b a p t split: if_splits)
  show thesis
    by (rule that [of found out big wanted after fp]) (use f w b a p h in auto)
qed


section \<open>The self-test\<close>

lemma mset_swap_at: "i < length xs \<Longrightarrow> j < length xs \<Longrightarrow> mset (swap_at i j xs) = mset xs"
  by (simp add: swap_at_def mset_swap)

lemma shuffle_permutes:
  "k \<le> length held \<Longrightarrow> length held < 2 ^ 64 \<Longrightarrow> mset (fst (shuffle_blocks k rng held)) = mset held"
proof (induction k arbitrary: rng held)
  case (Suc i)
  have w: "unat (word_of_nat (i + 1) :: u64) = i + 1"
    using Suc.prems by (intro unat_word_of_nat_small) simp
  have "unat (xorshift rng mod word_of_nat (i + 1)) < length held"
    unfolding unat_mod_distrib w using Suc.prems(1) mod_less_divisor [of "i + 1" "unat (xorshift rng)"] by linarith
  then have "mset (swap_at i (unat (xorshift rng mod word_of_nat (i + 1))) held) = mset held"
    using Suc.prems(1) by (intro mset_swap_at) auto
  moreover have "length (swap_at i (unat (xorshift rng mod word_of_nat (i + 1))) held) = length held"
    by (simp add: swap_at_def)
  ultimately show ?case
    using Suc.IH [of "swap_at i (unat (xorshift rng mod word_of_nat (i + 1))) held" "xorshift rng"] Suc.prems
    by (simp add: Let_def)
qed simp

lemma take_blocks_most: "length (fst (take_blocks ops k rng p)) \<le> k"
proof (induction k arbitrary: rng p)
  case (Suc k)
  show ?case
    using Suc.IH by (simp add: Let_def split: option.split prod.split) (metis fst_conv)
qed simp

text \<open>C100 A round of the self-test gives back every block it took exactly once, in some other order, so
  that what it finds not coalesced is a fault of the pool and not of the test.\<close>

theorem selftest_frees_what_it_took:
  assumes "test_round ops before rng p = Some (held, order, ok, rng', p')"
  shows "mset order = mset held \<and> 0 < length held \<and> length held \<le> 64
    \<and> (\<exists>rng1 p1. take_blocks ops 64 rng p = (held, rng1, p1) \<and> p' = fold (po_free ops) order p1)
    \<and> (ok \<longleftrightarrow> po_coalesced ops p' = before)"
proof -
  obtain h rng1 p1 where t: "take_blocks ops 64 rng p = (h, rng1, p1)" by (metis prod_cases3)
  obtain o' rng2 where sh: "shuffle_blocks (length h) rng1 h = (o', rng2)" by (metis surj_pair)
  have l: "length h \<le> 64" using take_blocks_most [of ops 64 rng p] by (simp add: t)
  have e: "held = h" "h \<noteq> []" "order = o'" "p' = fold (po_free ops) o' p1" "ok \<longleftrightarrow> po_coalesced ops p' = before"
    using assms by (auto simp: test_round_def TEST_BLOCKS_def t sh Let_def split: if_splits)
  have "mset o' = mset h" using shuffle_permutes [of "length h" h rng1] l by (simp add: sh)
  then show ?thesis using e l t by auto
qed

section \<open>A small machine\<close>

text \<open>A pool that keeps its runs as a list, and a machine of four megabytes with the map itself in the
  middle of them, as the comment of \<open>init\<close> has it.\<close>

definition list_pool :: "runs pool_ops" where
  "list_pool = \<lparr>po_metadata = (\<lambda>rs. 0), po_new = [], po_add = (\<lambda>a n p. Some (p @ [(a, n)])),
     po_frames = (\<lambda>p. 0), po_trees = (\<lambda>p. 0),
     po_alloc = (\<lambda>n p. case p of [] \<Rightarrow> (None, []) | r # rs \<Rightarrow> (Some (fst r), rs)),
     po_free = (\<lambda>b p. p @ [(b, 1)]), po_coalesced = (\<lambda>p. word_of_nat (length p))\<rparr>"

definition small_map :: "memory_region list" where
  "small_map = [region_new 0x100000 0x400000 Usable]"

definition small_info :: boot_info where
  "small_info = \<lparr>bi_magic = BOOT_MAGIC, bi_version = 1, bi_memory_map_len = 1, bi_memory_map = 0x200000,
     bi_framebuffer = framebuffer_new 0 0 0 0 Bgrx8888, bi_rsdp = 0, bi_initrd = 0, bi_initrd_len = 0,
     bi_kernel_phys = 0x600000, bi_kernel_len = 0x10000\<rparr>"

definition before_init :: "runs mem_state" where
  "before_init = \<lparr>ms_regions = [], ms_frames = None, ms_heap = None, ms_in_use = 0\<rparr>"

lemma small_free_runs:
  "\<exists>out. free_runs small_map (mem_exclusions small_info 0x700000 1) (replicate MAX_FREE_RUNS (0, 0)) = (2, out)
    \<and> take 2 out = [(0x100000, 0x100000), (0x200018, 0x2FFFE8)]"
proof -
  define rest where "rest = replicate 94 (0 :: u64, 0 :: u64)"
  have "replicate MAX_FREE_RUNS (0 :: u64, 0 :: u64) = replicate (Suc (Suc 94)) (0, 0)" by (simp add: MAX_FREE_RUNS_def)
  then have r: "replicate MAX_FREE_RUNS (0 :: u64, 0 :: u64) = (0, 0) # (0, 0) # rest"
    by (simp only: replicate_Suc rest_def)
  have f: "fold fill_run (filter is_usable small_map) ((0, 0) # (0, 0) # rest, 0) = ((0x100000, 0x500000) # (0, 0) # rest, 1)"
    by (simp add: small_map_def region_new_def is_usable_def usable_at_boot_def fill_run_def region_end_def saturating_add_def)
  have u: "[0 ..< 1] = [0 :: nat]" "[0 ..< 2] = [0, 1 :: nat]" by (simp_all add: upt_rec)
  have c0: "carve (0x600000, 0x10000) ((0x100000, 0x500000) # (0, 0) # rest, 1) = ((0x100000, 0x500000) # (0, 0) # rest, 1)"
    by (simp add: carve_def saturating_add_def carve_run_def)
  have c1: "carve (0x200000, 0x18) ((0x100000, 0x500000) # (0, 0) # rest, 1)
      = ((0x100000, 0x200000) # (0x200018, 0x500000) # rest, 2)"
    by (simp add: carve_def saturating_add_def carve_run_def Let_def max_def min_def)
  have c2: "carve (0x700000, 0x60) ((0x100000, 0x200000) # (0x200018, 0x500000) # rest, 2)
      = ((0x100000, 0x200000) # (0x200018, 0x500000) # rest, 2)"
    by (simp add: carve_def saturating_add_def carve_run_def u)
  have c3: "carve (0, 0) ((0x100000, 0x200000) # (0x200018, 0x500000) # rest, 2)
      = ((0x100000, 0x200000) # (0x200018, 0x500000) # rest, 2)"
    by (simp add: carve_def saturating_add_def)
  have e: "mem_exclusions small_info 0x700000 1 = [(0x600000, 0x10000), (0x200000, 0x18), (0x700000, 0x60), (0, 0)]"
    by (simp add: mem_exclusions_def small_info_def boot_initrd_def REGION_BYTES_def BOOT_INFO_BYTES_def)
  have c: "fold carve (mem_exclusions small_info 0x700000 1) ((0x100000, 0x500000) # (0, 0) # rest, 1)
      = ((0x100000, 0x200000) # (0x200018, 0x500000) # rest, 2)"
    unfolding e by (simp only: fold_simps id_apply comp_apply c0 c1 c2 c3)
  have k: "fold compact_run [0 ..< 2] ((0x100000, 0x200000) # (0x200018, 0x500000) # rest, 0)
      = ((0x100000, 0x100000) # (0x200018, 0x2FFFE8) # rest, 2)"
    by (simp add: u compact_run_def)
  have m: "min 1 (length ((0x100000 :: u64, 0x500000 :: u64) # (0, 0) # rest)) = 1" by simp
  show ?thesis
    unfolding r free_runs_def f Let_def prod.case m c k by simp
qed

lemma small_machine_starts:
  "\<exists>ly s'. mem_init list_pool (\<lambda>a n. small_map) small_info 0x700000 before_init = Done (Inr ly, s')
    \<and> ly_heap ly = (0x200018, 0x100000) \<and> ms_heap s' = Some (0xFFFF800000200018, 0x100000)"
proof -
  obtain out where f: "free_runs small_map (mem_exclusions small_info 0x700000 1) (replicate MAX_FREE_RUNS (0, 0)) = (2, out)"
    and t: "take 2 out = [(0x100000, 0x100000), (0x200018, 0x2FFFE8)]" using small_free_runs by blast
  have n: "unat (bi_memory_map_len small_info) = 1" by (simp add: small_info_def)
  have m: "min 2 MAX_FREE_RUNS = 2" by (simp add: MAX_FREE_RUNS_def)
  have b: "biggest_run [(0x100000, 0x100000), (0x200018, 0x2FFFE8)] = Some 1" by (simp add: biggest_run_def)
  have h: "next_multiple 0x100000 PAGE_SIZE = Done 0x100000"
    by (simp add: next_multiple_def checked_next_multiple_of_def PAGE_SIZE_def)
  show ?thesis
    unfolding mem_init_def n Let_def f prod.case m t b
    by (simp add: h MAX_REGIONS_def list_pool_def HEAP_SLACK_def add_run_def checked_add_def phys_to_virt_def
      saturating_add_def PHYS_MAP_BASE_def)
qed



lemma selftest_frees_what_it_took_witness:
  "\<exists>held order ok rng' p'. test_round list_pool 2 1 [(0x1000, 1), (0x2000, 1)] = Some (held, order, ok, rng', p')
    \<and> mset order = {#0x1000, 0x2000#} \<and> ok"
proof -
  define r1 where "r1 = xorshift (xorshift (xorshift 1))"
  have "take_blocks list_pool (Suc (Suc (Suc 61))) 1 [(0x1000, 1), (0x2000, 1)] = ([0x1000, 0x2000], r1, [])"
    by (simp only: take_blocks.simps Let_def list_pool_def pool_ops.simps) (simp add: r1_def)
  then have t: "take_blocks list_pool 64 1 [(0x1000, 1), (0x2000, 1)] = ([0x1000, 0x2000], r1, [])" by simp
  obtain held order ok rng' p' where q: "test_round list_pool 2 1 [(0x1000, 1), (0x2000, 1)] = Some (held, order, ok, rng', p')"
    by (cases "test_round list_pool 2 1 [(0x1000, 1), (0x2000, 1)]")
      (auto simp: test_round_def TEST_BLOCKS_def t Let_def split: prod.splits)
  note f = selftest_frees_what_it_took [OF q]
  then have o: "mset order = {#0x1000, 0x2000#}" using t by auto
  then have "length order = 2" by (metis size_mset size_add_mset size_empty One_nat_def Suc_1)
  then obtain a b where "order = [a, b]" by (auto simp: numeral_eq_Suc length_Suc_conv)
  then have "po_coalesced list_pool p' = 2" using f t by (auto simp: list_pool_def)
  then show ?thesis using q o f by auto
qed

end
