(* ===== verification/Spec2Isabelle.thy ===== *)
theory Spec2Isabelle
  imports Prelude Objects Caps Endpoint Paging AddrSpace PageTree Sched Ipc System Syscall Kernel Ledger Authority Bytes Elf64 BootInfo MemMap
    Space SpaceTree SpaceBuild SpaceProps Acpi AcpiProps Run Device Apic ApicProps LapicProps Pic Timers Vm VmProps Trap Irq IrqProps Smp SmpProps
    Wakeup WakeupProps Lock LockProps Descriptors DescriptorsProps Stubs StubsProps SwitchProps Traps TrapsProps PhysMem PhysMemProps
begin

text \<open>Header.\<close>

end
